(* ===== verification/Tor_Prelude.thy ===== *)
theory Tor_Prelude
  imports Main "HOL-Library.Word"
begin

text \<open>
  The prelude of the development: the machine types of the Rust sources, its \<^verbatim>\<open>io::Result\<close> as
  a sum type, the saturating and wrapping integer operations the code calls by name, and the
  generic list lemmas the components share.

  Conventions used everywhere. A \<^verbatim>\<open>u8\<close> is an \<open>8 word\<close>. The wider unsigned integers are \<open>nat\<close>
  where the code only counts with them: a place where Rust could wrap is written with
  \<open>wrap_u16\<close>, \<open>wrap_u32\<close> or \<open>wrap_u64\<close>, and the component's well-formedness predicate says that
  the stored values have their width. A signed \<^verbatim>\<open>i32\<close> is an \<open>int\<close> with \<open>wrap_i32\<close> written out.
  A \<^verbatim>\<open>str\<close> or \<^verbatim>\<open>String\<close> is a \<open>string\<close>, one \<open>char\<close> per UTF-8 byte. An \<^verbatim>\<open>Err\<close> is an \<open>Inl\<close>.
  Error texts are kept without their interpolated values.
\<close>

unbundle bit_operations_syntax

section \<open>Machine types\<close>

type_synonym u8 = "8 word"
type_synonym bytes = "u8 list"

abbreviation u16_max :: nat where "u16_max \<equiv> 65535"
abbreviation u32_max :: nat where "u32_max \<equiv> 4294967295"
abbreviation u64_max :: nat where "u64_max \<equiv> 18446744073709551615"

definition wrap_u16 :: "nat \<Rightarrow> nat" where
  "wrap_u16 n = n mod 65536"

definition wrap_u32 :: "nat \<Rightarrow> nat" where
  "wrap_u32 n = n mod 4294967296"

definition wrap_u64 :: "nat \<Rightarrow> nat" where
  "wrap_u64 n = n mod 18446744073709551616"

definition wrap_i32 :: "int \<Rightarrow> int" where
  "wrap_i32 i = (i + 2147483648) mod 4294967296 - 2147483648"

definition saturating_add_u32 :: "nat \<Rightarrow> nat \<Rightarrow> nat" where
  "saturating_add_u32 a b = min (a + b) u32_max"

definition saturating_add_u64 :: "nat \<Rightarrow> nat \<Rightarrow> nat" where
  "saturating_add_u64 a b = min (a + b) u64_max"

definition saturating_mul_u64 :: "nat \<Rightarrow> nat \<Rightarrow> nat" where
  "saturating_mul_u64 a b = min (a * b) u64_max"

text \<open>Rust's \<^verbatim>\<open>saturating_sub\<close> on an unsigned type is \<open>nat\<close> subtraction.\<close>

abbreviation (input) saturating_sub :: "nat \<Rightarrow> nat \<Rightarrow> nat" where
  "saturating_sub a b \<equiv> a - b"

named_theorems width_simps \<open>facts that bring the wrapping operations back to plain arithmetic\<close>

lemma wrap_u16_id [width_simps]: "n \<le> u16_max \<Longrightarrow> wrap_u16 n = n"
  by (simp add: wrap_u16_def)

lemma wrap_u32_id [width_simps]: "n \<le> u32_max \<Longrightarrow> wrap_u32 n = n"
  by (simp add: wrap_u32_def)

lemma wrap_u64_id [width_simps]: "n \<le> u64_max \<Longrightarrow> wrap_u64 n = n"
  by (simp add: wrap_u64_def)

lemma wrap_i32_id [width_simps]: "-2147483648 \<le> i \<Longrightarrow> i \<le> 2147483647 \<Longrightarrow> wrap_i32 i = i"
  by (simp add: wrap_i32_def)

lemma wrap_u16_bound [simp]: "wrap_u16 n \<le> u16_max"
  using mod_less_divisor [of 65536 n] unfolding wrap_u16_def by linarith

lemma wrap_u32_bound [simp]: "wrap_u32 n \<le> u32_max"
  using mod_less_divisor [of 4294967296 n] unfolding wrap_u32_def by linarith

lemma wrap_u64_bound [simp]: "wrap_u64 n \<le> u64_max"
  using mod_less_divisor [of 18446744073709551616 n] unfolding wrap_u64_def by linarith

lemma saturating_add_u32_bound [simp]: "saturating_add_u32 a b \<le> u32_max"
  by (simp add: saturating_add_u32_def)

lemma saturating_add_u64_bound [simp]: "saturating_add_u64 a b \<le> u64_max"
  by (simp add: saturating_add_u64_def)

lemma saturating_mul_u64_bound [simp]: "saturating_mul_u64 a b \<le> u64_max"
  by (simp add: saturating_mul_u64_def)

section \<open>Errors as values\<close>

text \<open>
  The kinds of \<^verbatim>\<open>io::ErrorKind\<close> the sources name. \<open>StreamEnd r\<close> is the error whose payload is
  the \<^verbatim>\<open>StreamEnd\<close> struct of \<^verbatim>\<open>circuit.rs\<close>, which callers recover by a downcast.
\<close>

datatype error_kind =
    InvalidData | InvalidInput | ConnectionAborted | ConnectionRefused | TimedOut | NotFound
  | PermissionDenied | NotConnected | UnexpectedEof | AlreadyExists | Other

datatype io_error = IoError (error_kind: error_kind) string | EndError (error_kind: error_kind) u8

type_synonym 'a io_result = "io_error + 'a"

definition invalid_data :: "string \<Rightarrow> io_error" where
  "invalid_data msg = IoError InvalidData msg"

text \<open>The \<^verbatim>\<open>?\<close> operator: stop at the first error.\<close>

definition and_then :: "'e + 'a \<Rightarrow> ('a \<Rightarrow> 'e + 'b) \<Rightarrow> 'e + 'b" where
  "and_then r f = (case r of Inl e \<Rightarrow> Inl e | Inr a \<Rightarrow> f a)"

lemma and_then_simps [simp]: "and_then (Inl e) f = Inl e" "and_then (Inr a) f = f a"
  by (simp_all add: and_then_def)

lemma and_then_eq_Inr [simp]:
  "and_then r f = Inr b \<longleftrightarrow> (\<exists>a. r = Inr a \<and> f a = Inr b)"
  by (cases r) simp_all

lemma and_then_eq_Inl:
  "and_then r f = Inl e \<longleftrightarrow> r = Inl e \<or> (\<exists>a. r = Inr a \<and> f a = Inl e)"
  by (cases r) simp_all

text \<open>
  The same for operations on a state. No result is a panic or a wait that has not ended.
\<close>

type_synonym ('s, 'a) io_op = "'s \<Rightarrow> ('a io_result \<times> 's) option"

definition op_then :: "('s, 'a) io_op \<Rightarrow> ('a \<Rightarrow> ('s, 'b) io_op) \<Rightarrow> ('s, 'b) io_op" where
  "op_then m f s =
     (case m s of None \<Rightarrow> None | Some (Inl e, s) \<Rightarrow> Some (Inl e, s) | Some (Inr a, s) \<Rightarrow> f a s)"

lemma op_then_Some:
  "op_then m f s = Some (r, s') \<longleftrightarrow>
     (\<exists>e. m s = Some (Inl e, s') \<and> r = Inl e) \<or> (\<exists>x s1. m s = Some (Inr x, s1) \<and> f x s1 = Some (r, s'))"
  by (auto simp: op_then_def split: option.splits sum.splits prod.splits)

lemma op_then_Inr:
  "op_then m f s = Some (Inr b, s') \<longleftrightarrow> (\<exists>x s1. m s = Some (Inr x, s1) \<and> f x s1 = Some (Inr b, s'))"
  by (auto simp: op_then_Some)

definition ok_or :: "'e \<Rightarrow> 'a option \<Rightarrow> 'e + 'a" where
  "ok_or e x = (case x of None \<Rightarrow> Inl e | Some a \<Rightarrow> Inr a)"

lemma ok_or_simps [simp]: "ok_or e None = Inl e" "ok_or e (Some a) = Inr a"
  by (simp_all add: ok_or_def)

lemma ok_or_eq_Inr [simp]: "ok_or e x = Inr a \<longleftrightarrow> x = Some a"
  by (cases x) simp_all

definition to_option :: "'e + 'a \<Rightarrow> 'a option" where
  "to_option r = (case r of Inl _ \<Rightarrow> None | Inr a \<Rightarrow> Some a)"

lemma to_option_simps [simp]: "to_option (Inl e) = None" "to_option (Inr a) = Some a"
  by (simp_all add: to_option_def)

lemma to_option_eq_Some [simp]: "to_option r = Some a \<longleftrightarrow> r = Inr a"
  by (cases r) simp_all

section \<open>Big-endian integers\<close>

definition u16_to_be :: "nat \<Rightarrow> bytes" where
  "u16_to_be n = [word_of_nat (n div 256), word_of_nat n]"

definition u16_from_be :: "u8 \<Rightarrow> u8 \<Rightarrow> nat" where
  "u16_from_be a b = unat a * 256 + unat b"

definition u32_to_be :: "nat \<Rightarrow> bytes" where
  "u32_to_be n = [word_of_nat (n div 16777216), word_of_nat (n div 65536), word_of_nat (n div 256),
     word_of_nat n]"

definition u32_from_be :: "u8 \<Rightarrow> u8 \<Rightarrow> u8 \<Rightarrow> u8 \<Rightarrow> nat" where
  "u32_from_be a b c d =
     unat a * 16777216 + unat b * 65536 + unat c * 256 + unat d"

lemma unat_u8_less [simp]: "unat (b :: u8) < 256"
proof -
  have "unat b < 2 ^ LENGTH(8)" by (rule unsigned_less)
  then show ?thesis by simp
qed

lemma unat_u8_le [simp]: "unat (b :: u8) \<le> 255"
  using unat_u8_less [of b] by linarith

lemma unat_word_of_nat_u8 [simp]: "unat (word_of_nat n :: u8) = n mod 256"
  by (simp add: unat_of_nat)

lemma word_of_nat_eq_u8: "word_of_nat n = (y :: u8) \<longleftrightarrow> n mod 256 = unat y"
  by (metis unat_word_of_nat_u8 word_unat_eq_iff)

lemma u16_from_be_bound [simp]: "u16_from_be a b \<le> u16_max"
  using unat_u8_less [of a] unat_u8_less [of b] unfolding u16_from_be_def by linarith

lemma u32_from_be_bound [simp]: "u32_from_be a b c d \<le> u32_max"
  using unat_u8_less [of a] unat_u8_less [of b] unat_u8_less [of c] unat_u8_less [of d]
  unfolding u32_from_be_def by linarith

lemma u16_be_roundtrip:
  "n \<le> u16_max \<Longrightarrow> u16_from_be (word_of_nat (n div 256)) (word_of_nat n) = n"
  by (simp add: u16_from_be_def)

lemma u32_be_roundtrip:
  "n \<le> u32_max \<Longrightarrow> u32_from_be (word_of_nat (n div 16777216)) (word_of_nat (n div 65536))
     (word_of_nat (n div 256)) (word_of_nat n) = n"
proof -
  assume n: "n \<le> u32_max"
  define a b c where "a = n div 256" and "b = a div 256" and "c = b div 256"
  have d: "n div 65536 = b" "n div 16777216 = c" "n div 256 = a"
    by (simp_all add: a_def b_def c_def flip: div_mult2_eq)
  have "c mod 256 = c"
    using n unfolding a_def b_def c_def by (simp flip: div_mult2_eq)
  moreover have "n = a * 256 + n mod 256" "a = b * 256 + a mod 256" "b = c * 256 + b mod 256"
    unfolding a_def b_def c_def by simp_all
  ultimately show ?thesis
    unfolding u32_from_be_def unat_word_of_nat_u8 d by linarith
qed

lemma u16_to_be_from_be [simp]: "u16_to_be (u16_from_be a b) = [a, b]"
proof -
  have "u16_from_be a b div 256 = unat a" "u16_from_be a b mod 256 = unat b"
    by (simp_all add: u16_from_be_def)
  then have "word_of_nat (u16_from_be a b) = b"
    by (simp only: word_of_nat_eq_u8)
  with \<open>u16_from_be a b div 256 = unat a\<close> show ?thesis
    by (simp add: u16_to_be_def)
qed

lemma u32_to_be_from_be [simp]: "u32_to_be (u32_from_be a b c d) = [a, b, c, d]"
proof -
  let ?n = "u32_from_be a b c d"
  have lt: "unat a < 256" "unat b < 256" "unat c < 256" "unat d < 256"
    by simp_all
  define x where "x = (unat a * 256 + unat b) * 256 + unat c"
  have n: "?n = x * 256 + unat d"
    by (simp add: u32_from_be_def x_def)
  have d0: "?n div 256 = x" "?n mod 256 = unat d"
    unfolding n using lt by simp_all
  have "x mod 256 = unat c" "x div 256 = unat a * 256 + unat b"
    unfolding x_def using lt by (simp_all only: mod_mult_self3 div_mult_self3) simp_all
  have d1: "?n div 65536 = unat a * 256 + unat b"
    using d0(1) \<open>x div 256 = _\<close> div_mult2_eq [of ?n 256 256] by simp
  have d2: "?n div 16777216 = unat a"
    using d1 lt div_mult2_eq [of ?n 65536 256] by simp
  have "word_of_nat ?n = d" "word_of_nat (?n div 256) = c" "word_of_nat (?n div 65536) = b"
    "word_of_nat (?n div 16777216) = a"
    by (simp_all only: word_of_nat_eq_u8 d0 d1 d2 \<open>x mod 256 = _\<close>) (use lt in simp_all)
  then show ?thesis
    by (simp add: u32_to_be_def)
qed

lemma length_u16_to_be [simp]: "length (u16_to_be n) = 2"
  by (simp add: u16_to_be_def)

lemma length_u32_to_be [simp]: "length (u32_to_be n) = 4"
  by (simp add: u32_to_be_def)

section \<open>Lists\<close>

text \<open>Index of the first element satisfying a predicate: Rust's \<^verbatim>\<open>Iterator::position\<close>.\<close>

fun position :: "('a \<Rightarrow> bool) \<Rightarrow> 'a list \<Rightarrow> nat option" where
  "position P [] = None"
| "position P (x # xs) = (if P x then Some 0 else map_option Suc (position P xs))"

lemma position_None_iff: "position P xs = None \<longleftrightarrow> (\<forall>x \<in> set xs. \<not> P x)"
  by (induction xs) auto

lemma position_SomeD:
  "position P xs = Some i \<Longrightarrow> i < length xs \<and> P (xs ! i) \<and> (\<forall>j < i. \<not> P (xs ! j))"
proof (induction xs arbitrary: i)
  case (Cons x xs)
  then show ?case
    by (cases i) (auto simp: less_Suc_eq_0_disj split: if_splits)
qed simp

text \<open>Rust's \<^verbatim>\<open>Vec::remove\<close> at an index in range.\<close>

definition remove_at :: "nat \<Rightarrow> 'a list \<Rightarrow> 'a list" where
  "remove_at i xs = take i xs @ drop (Suc i) xs"

lemma length_remove_at [simp]: "i < length xs \<Longrightarrow> length (remove_at i xs) = length xs - 1"
  by (simp add: remove_at_def)

lemma set_remove_at_subset: "set (remove_at i xs) \<subseteq> set xs"
  unfolding remove_at_def using set_take_subset set_drop_subset by fastforce

text \<open>Rust's \<^verbatim>\<open>Vec::resize\<close>: truncate or pad.\<close>

definition resize :: "nat \<Rightarrow> 'a \<Rightarrow> 'a list \<Rightarrow> 'a list" where
  "resize n x xs = take n xs @ replicate (n - length xs) x"

lemma length_resize [simp]: "length (resize n x xs) = n"
  by (simp add: resize_def)

text \<open>Overwriting a slice in place, \<^verbatim>\<open>buf[i..i+k].copy_from_slice(ys)\<close>.\<close>

definition splice :: "nat \<Rightarrow> 'a list \<Rightarrow> 'a list \<Rightarrow> 'a list" where
  "splice i ys xs = take i xs @ ys @ drop (i + length ys) xs"

definition slice :: "nat \<Rightarrow> nat \<Rightarrow> 'a list \<Rightarrow> 'a list" where
  "slice i j xs = take (j - i) (drop i xs)"

lemma length_splice [simp]: "i + length ys \<le> length xs \<Longrightarrow> length (splice i ys xs) = length xs"
  by (simp add: splice_def)

lemma length_slice [simp]: "j \<le> length xs \<Longrightarrow> length (slice i j xs) = j - i"
  by (simp add: slice_def)

lemma slice_splice_same [simp]:
  "i \<le> length xs \<Longrightarrow> slice i (i + length ys) (splice i ys xs) = ys"
  by (simp add: slice_def splice_def)

lemma splice_slice_same:
  "i + k \<le> length xs \<Longrightarrow> splice i (slice i (i + k) xs) xs = xs"
  by (simp add: slice_def splice_def flip: take_add drop_drop)
    (metis add.commute append.assoc append_take_drop_id drop_drop take_add)

lemma splice_append: "length a = i \<Longrightarrow> splice i ys (a @ b) = a @ ys @ drop (length ys) b"
  by (simp add: splice_def)

lemma slice_append: "length a = i \<Longrightarrow> j = i + k \<Longrightarrow> slice i j (a @ b) = take k b"
  by (simp add: slice_def)

lemma splice_twice:
  "length ys = length zs \<Longrightarrow> i + length ys \<le> length xs \<Longrightarrow>
     splice i zs (splice i ys xs) = splice i zs xs"
  by (simp add: splice_def)

lemma nth_splice:
  "i + length ys \<le> length xs \<Longrightarrow> j < length xs \<Longrightarrow>
     splice i ys xs ! j = (if j < i then xs ! j else if j < i + length ys then ys ! (j - i) else xs ! j)"
  by (auto simp: splice_def nth_append min_def)

lemma take_drop_append [simp]: "take n xs @ drop n xs @ ys = xs @ ys"
  by (simp flip: append_assoc)

section \<open>Pieces of a list\<close>

text \<open>\<^verbatim>\<open>slice::chunks\<close>, whose pieces have the given length, the last of them perhaps less.\<close>

fun chunks_of :: "nat \<Rightarrow> 'a list \<Rightarrow> 'a list list" where
  "chunks_of n xs = (if n = 0 \<or> xs = [] then [] else take n xs # chunks_of n (drop n xs))"

declare chunks_of.simps [simp del]

lemma concat_chunks_of: "0 < n \<Longrightarrow> concat (chunks_of n xs) = xs"
proof (induction n xs rule: chunks_of.induct)
  case (1 n xs)
  then show ?case by (cases "xs = []") (simp_all add: chunks_of.simps [of n])
qed

lemma chunks_of_bound: "c \<in> set (chunks_of n xs) \<Longrightarrow> c \<noteq> [] \<and> length c \<le> n"
  by (induction n xs rule: chunks_of.induct) (subst (asm) (2) chunks_of.simps, auto split: if_splits)

end
