(* ===== verification/Rust_Text.thy ===== *)
theory Rust_Text
  imports Tor_Prelude
begin

text \<open>
  The parts of Rust's \<^verbatim>\<open>str\<close> library the sources use on protocol and directory text: splitting,
  trimming, prefixes and suffixes, searching, and the \<^verbatim>\<open>FromStr\<close> parsers of the integer types with
  their decimal printer. Text is ASCII; whitespace is the ASCII whitespace of
  \<^verbatim>\<open>char::is_whitespace\<close>.
\<close>

section \<open>Characters\<close>

definition code :: "char \<Rightarrow> nat" where
  "code c = of_char c"

lemma code_inj [simp]: "code a = code b \<longleftrightarrow> a = b"
  by (simp add: code_def)

lemma code_bound [simp]: "code c < 256"
  by (simp add: code_def)

lemma char_of_code [simp]: "char_of (code c) = c"
  by (simp add: code_def)

lemma code_char_of [simp]: "n < 256 \<Longrightarrow> code (char_of n) = n"
  by (simp add: code_def of_char_of)

definition is_whitespace :: "char \<Rightarrow> bool" where
  "is_whitespace c \<longleftrightarrow> code c \<in> {9, 10, 11, 12, 13, 32}"

definition is_digit :: "char \<Rightarrow> bool" where
  "is_digit c \<longleftrightarrow> 48 \<le> code c \<and> code c \<le> 57"

section \<open>Splitting and trimming\<close>

text \<open>\<^verbatim>\<open>split(c)\<close>: the pieces between separators; the empty text is one empty piece.\<close>

fun split_on :: "('a \<Rightarrow> bool) \<Rightarrow> 'a list \<Rightarrow> 'a list list" where
  "split_on P [] = [[]]"
| "split_on P (c # cs) =
     (if P c then [] # split_on P cs
      else case split_on P cs of [] \<Rightarrow> [[c]] | p # ps \<Rightarrow> (c # p) # ps)"

abbreviation split_char :: "char \<Rightarrow> string \<Rightarrow> string list" where
  "split_char c s \<equiv> split_on (\<lambda>x. x = c) s"

definition split_whitespace :: "string \<Rightarrow> string list" where
  "split_whitespace s = filter (\<lambda>p. p \<noteq> []) (split_on is_whitespace s)"

fun split_once :: "char \<Rightarrow> string \<Rightarrow> (string \<times> string) option" where
  "split_once c [] = None"
| "split_once c (x # xs) =
     (if x = c then Some ([], xs)
      else case split_once c xs of None \<Rightarrow> None | Some (a, b) \<Rightarrow> Some (x # a, b))"

definition strip_prefix :: "'a list \<Rightarrow> 'a list \<Rightarrow> 'a list option" where
  "strip_prefix p s = (if take (length p) s = p then Some (drop (length p) s) else None)"

definition strip_suffix :: "'a list \<Rightarrow> 'a list \<Rightarrow> 'a list option" where
  "strip_suffix p s =
     (if length p \<le> length s \<and> drop (length s - length p) s = p
      then Some (take (length s - length p) s) else None)"

abbreviation starts_with :: "'a list \<Rightarrow> 'a list \<Rightarrow> bool" where
  "starts_with p s \<equiv> take (length p) s = p"

definition trim_end :: "string \<Rightarrow> string" where
  "trim_end s = rev (dropWhile is_whitespace (rev s))"

definition trim :: "string \<Rightarrow> string" where
  "trim s = trim_end (dropWhile is_whitespace s)"

text \<open>\<^verbatim>\<open>find\<close>: byte offset of the first occurrence of a pattern.\<close>

fun find_str :: "'a list \<Rightarrow> 'a list \<Rightarrow> nat option" where
  "find_str p [] = (if p = [] then Some 0 else None)"
| "find_str p (c # cs) =
     (if starts_with p (c # cs) then Some 0 else map_option Suc (find_str p cs))"

section \<open>Integers\<close>

fun digits_value :: "nat \<Rightarrow> string \<Rightarrow> nat option" where
  "digits_value acc [] = Some acc"
| "digits_value acc (c # cs) =
     (if is_digit c then digits_value (acc * 10 + (code c - 48)) cs else None)"

text \<open>
  \<^verbatim>\<open>FromStr\<close> of an unsigned type with the given maximum: one optional plus sign, then at least one
  digit and nothing else, and a value in range.
\<close>

definition parse_uint :: "nat \<Rightarrow> string \<Rightarrow> nat option" where
  "parse_uint mx s =
     (let ds = (case s of [] \<Rightarrow> [] | c # r \<Rightarrow> if c = CHR ''+'' then r else s) in
      if ds = [] then None
      else case digits_value 0 ds of
        None \<Rightarrow> None
      | Some v \<Rightarrow> if v \<le> mx then Some v else None)"

abbreviation parse_u8 :: "string \<Rightarrow> nat option" where "parse_u8 \<equiv> parse_uint 255"
abbreviation parse_u16 :: "string \<Rightarrow> nat option" where "parse_u16 \<equiv> parse_uint u16_max"
abbreviation parse_u32 :: "string \<Rightarrow> nat option" where "parse_u32 \<equiv> parse_uint u32_max"
abbreviation parse_u64 :: "string \<Rightarrow> nat option" where "parse_u64 \<equiv> parse_uint u64_max"

text \<open>\<^verbatim>\<open>FromStr for i64\<close>: a sign of either kind is accepted.\<close>

definition parse_i64 :: "string \<Rightarrow> int option" where
  "parse_i64 s =
     (if s \<noteq> [] \<and> hd s = CHR ''-'' then
        if tl s = [] then None
        else case digits_value 0 (tl s) of
          None \<Rightarrow> None
        | Some v \<Rightarrow> if v \<le> 2 ^ 63 then Some (- int v) else None
      else map_option int (parse_uint (2 ^ 63 - 1) s))"

fun nat_digits :: "nat \<Rightarrow> string" where
  "nat_digits n =
     (if n < 10 then [char_of (48 + n)] else nat_digits (n div 10) @ [char_of (48 + n mod 10)])"

declare nat_digits.simps [simp del]

text \<open>\<^verbatim>\<open>{:0w}\<close>: decimal, padded with zeros to the width.\<close>

definition pad_digits :: "nat \<Rightarrow> nat \<Rightarrow> string" where
  "pad_digits w n = replicate (w - length (nat_digits n)) CHR ''0'' @ nat_digits n"

text \<open>
  Lower and upper case are those of ASCII: the texts the code changes the case of are host names,
  header names and hexadecimal, and other characters are left as they are.
\<close>

definition to_ascii_lower :: "char \<Rightarrow> char" where
  "to_ascii_lower c = (if 65 \<le> code c \<and> code c \<le> 90 then char_of (code c + 32) else c)"

definition to_ascii_upper :: "char \<Rightarrow> char" where
  "to_ascii_upper c = (if 97 \<le> code c \<and> code c \<le> 122 then char_of (code c - 32) else c)"

abbreviation to_lowercase :: "string \<Rightarrow> string" where "to_lowercase \<equiv> map to_ascii_lower"
abbreviation to_uppercase :: "string \<Rightarrow> string" where "to_uppercase \<equiv> map to_ascii_upper"

abbreviation as_bytes :: "string \<Rightarrow> bytes" where "as_bytes s \<equiv> map (\<lambda>c. word_of_nat (code c)) s"

section \<open>Lemmas\<close>

lemma parse_uint_bound: "parse_uint mx s = Some v \<Longrightarrow> v \<le> mx"
  by (auto simp: parse_uint_def Let_def split: if_splits option.splits)

lemma split_on_not_Nil [simp]: "split_on P s \<noteq> []"
  by (induction s) (auto split: list.splits)

lemma split_on_no_sep [simp]: "\<forall>c \<in> set s. \<not> P c \<Longrightarrow> split_on P s = [s]"
  by (induction s) auto

lemma split_on_append_sep:
  "\<forall>c \<in> set a. \<not> P c \<Longrightarrow> P x \<Longrightarrow> split_on P (a @ x # b) = a # split_on P b"
  by (induction a) auto

lemma digit_not_space: "is_digit c \<Longrightarrow> \<not> is_whitespace c"
  by (auto simp: is_digit_def is_whitespace_def)

lemma split_whitespace_word:
  "a \<noteq> [] \<Longrightarrow> \<forall>c \<in> set a. \<not> is_whitespace c \<Longrightarrow> is_whitespace x \<Longrightarrow> split_whitespace (a @ x # b) = a # split_whitespace b"
  by (simp add: split_whitespace_def split_on_append_sep)

lemma split_whitespace_last: "a \<noteq> [] \<Longrightarrow> \<forall>c \<in> set a. \<not> is_whitespace c \<Longrightarrow> split_whitespace a = [a]"
  by (simp add: split_whitespace_def)

lemma set_split_on: "p \<in> set (split_on P s) \<Longrightarrow> c \<in> set p \<Longrightarrow> \<not> P c \<and> c \<in> set s"
proof (induction s arbitrary: p)
  case (Cons x xs)
  then show ?case
    by (cases "split_on P xs") (fastforce split: if_splits)+
qed simp

lemma split_once_append:
  "c \<notin> set a \<Longrightarrow> split_once c (a @ c # b) = Some (a, b)"
  by (induction a) auto

lemma split_once_SomeD: "split_once c s = Some (a, b) \<Longrightarrow> s = a @ c # b \<and> c \<notin> set a"
  by (induction s arbitrary: a) (auto split: if_splits option.splits)

lemma strip_prefix_eq_Some: "strip_prefix p s = Some r \<longleftrightarrow> s = p @ r"
  by (auto simp: strip_prefix_def) (metis append_take_drop_id)

lemma strip_suffix_eq_Some: "strip_suffix p s = Some r \<longleftrightarrow> s = r @ p"
proof
  assume "strip_suffix p s = Some r"
  then show "s = r @ p"
    by (auto simp: strip_suffix_def split: if_splits) (metis append_take_drop_id)
qed (simp add: strip_suffix_def)

lemma is_digit_char: "d < 10 \<Longrightarrow> is_digit (char_of (48 + d)) \<and> code (char_of (48 + d)) = 48 + d"
  by (simp add: is_digit_def)

lemma digits_value_append:
  "digits_value acc (xs @ ys) = (case digits_value acc xs of None \<Rightarrow> None | Some v \<Rightarrow> digits_value v ys)"
  by (induction xs arbitrary: acc) auto

lemma digits_value_nat_digits_acc:
  "digits_value acc (nat_digits n) = Some (acc * 10 ^ length (nat_digits n) + n)"
proof (induction n arbitrary: acc rule: nat_digits.induct)
  case (1 n)
  show ?case
  proof (cases "n < 10")
    case True
    then show ?thesis
      by (subst nat_digits.simps, subst (2) nat_digits.simps) (simp add: is_digit_char)
  next
    case False
    then have "digits_value acc (nat_digits (n div 10)) =
        Some (acc * 10 ^ length (nat_digits (n div 10)) + n div 10)"
      using 1 by blast
    with False show ?thesis
      by (subst nat_digits.simps, subst (2) nat_digits.simps)
        (simp add: digits_value_append is_digit_char algebra_simps)
  qed
qed

lemma digits_value_zeros: "digits_value 0 (replicate k CHR ''0'' @ ds) = digits_value 0 ds"
  by (induction k) (simp_all add: is_digit_def code_def)

lemma digits_value_nat_digits [simp]: "digits_value 0 (nat_digits n) = Some n"
  by (simp add: digits_value_nat_digits_acc)

lemma digits_value_pad [simp]: "digits_value 0 (pad_digits w n) = Some n"
  by (simp add: pad_digits_def digits_value_zeros)

lemma nat_digits_not_Nil [simp]: "nat_digits n \<noteq> []"
  by (subst nat_digits.simps) simp

lemma pad_digits_not_Nil [simp]: "pad_digits w n \<noteq> []"
  by (simp add: pad_digits_def)

lemma nat_digits_digits: "c \<in> set (nat_digits n) \<Longrightarrow> is_digit c"
proof (induction n rule: nat_digits.induct)
  case (1 n)
  then show ?case
    by (subst (asm) (2) nat_digits.simps) (auto simp: is_digit_char split: if_splits)
qed

lemma pad_digits_digits: "c \<in> set (pad_digits w n) \<Longrightarrow> is_digit c"
  by (auto simp: pad_digits_def is_digit_def code_def dest!: nat_digits_digits split: if_splits)

lemma parse_uint_digits:
  assumes "digits_value 0 ds = Some n" and "ds \<noteq> []" and "\<forall>c \<in> set ds. is_digit c" and "n \<le> mx"
  shows "parse_uint mx ds = Some n"
proof -
  obtain c cs where ds: "ds = c # cs" using assms(2) by (cases ds) auto
  then have "c \<noteq> CHR ''+''" using assms(3) by (auto simp: is_digit_def code_def)
  with assms ds show ?thesis
    by (simp add: parse_uint_def Let_def)
qed

lemma parse_uint_nat_digits: "n \<le> mx \<Longrightarrow> parse_uint mx (nat_digits n) = Some n"
  by (intro parse_uint_digits) (auto dest: nat_digits_digits)

lemma parse_uint_pad_digits: "n \<le> mx \<Longrightarrow> parse_uint mx (pad_digits w n) = Some n"
  by (intro parse_uint_digits) (auto dest: pad_digits_digits)

lemma parse_i64_digits:
  assumes "digits_value 0 ds = Some n" and "ds \<noteq> []" and "\<forall>c \<in> set ds. is_digit c" and "n \<le> 2 ^ 63 - 1"
  shows "parse_i64 ds = Some (int n)"
proof -
  obtain c cs where ds: "ds = c # cs" using assms(2) by (cases ds) auto
  then have "c \<noteq> CHR ''-''" using assms(3) by (auto simp: is_digit_def code_def)
  then have "parse_i64 ds = map_option int (parse_uint (2 ^ 63 - 1) ds)"
    by (simp add: parse_i64_def ds)
  with parse_uint_digits [OF assms] show ?thesis by simp
qed

end
