(* ===== verification/Encoding_Util.thy ===== *)
theory Encoding_Util
  imports Rust_Text
begin

text \<open>
  The encodings of directory documents, \<^verbatim>\<open>src/util.rs\<close>: base64 without padding, hexadecimal and
  timestamps. The base64 decoder's accumulator is kept at its width of 32 bits and drops its high bits
  as it shifts.
\<close>

section \<open>Base64\<close>

definition B64_ALPHABET :: string where
  "B64_ALPHABET = ''ABCDEFGHIJKLMNOPQRSTUVWXYZabcdefghijklmnopqrstuvwxyz0123456789+/''"

definition b64_value :: "char \<Rightarrow> nat option" where
  "b64_value c =
     (if 65 \<le> code c \<and> code c \<le> 90 then Some (code c - 65)
      else if 97 \<le> code c \<and> code c \<le> 122 then Some (code c - 97 + 26)
      else if is_digit c then Some (code c - 48 + 52)
      else if c = CHR ''+'' then Some 62
      else if c = CHR ''/'' then Some 63
      else None)"

definition b64_finish :: "nat \<Rightarrow> nat \<Rightarrow> bytes \<Rightarrow> bytes io_result" where
  "b64_finish acc bits out =
     (if bits \<ge> 6 \<or> acc AND (2 ^ bits - 1) \<noteq> 0 then Inl (invalid_data ''truncated base64 group'')
      else Inr out)"

fun b64_loop :: "nat \<Rightarrow> nat \<Rightarrow> bytes \<Rightarrow> string \<Rightarrow> bytes io_result" where
  "b64_loop acc bits out [] = b64_finish acc bits out"
| "b64_loop acc bits out (c # cs) =
     (if c = CHR ''='' then b64_finish acc bits out
      else if c = CHR '' '' \<or> code c = 9 \<or> code c = 13 \<or> code c = 10 then b64_loop acc bits out cs
      else case b64_value c of
        None \<Rightarrow> Inl (invalid_data ''invalid base64 character'')
      | Some v \<Rightarrow>
          let acc = wrap_u32 (acc * 64) OR v;
              bits = bits + 6
          in if bits \<ge> 8
             then b64_loop acc (bits - 8) (out @ [word_of_nat (acc div 2 ^ (bits - 8))]) cs
             else b64_loop acc bits out cs)"

definition base64_decode :: "string \<Rightarrow> bytes io_result" where
  "base64_decode s = b64_loop 0 0 [] s"

definition b64_group :: "u8 \<Rightarrow> u8 \<Rightarrow> u8 \<Rightarrow> string" where
  "b64_group b0 b1 b2 =
     (let n = unat b0 * 65536 + unat b1 * 256 + unat b2
      in map (\<lambda>c. B64_ALPHABET ! c) [n div 262144 mod 64, n div 4096 mod 64, n div 64 mod 64, n mod 64])"

fun base64_encode_unpadded :: "bytes \<Rightarrow> string" where
  "base64_encode_unpadded [] = []"
| "base64_encode_unpadded [a] = take 2 (b64_group a 0 0)"
| "base64_encode_unpadded [a, b] = take 3 (b64_group a b 0)"
| "base64_encode_unpadded (a # b # c # bs) = b64_group a b c @ base64_encode_unpadded bs"

section \<open>Hexadecimal\<close>

definition HEX :: string where "HEX = ''0123456789ABCDEF''"

definition hex_encode :: "bytes \<Rightarrow> string" where
  "hex_encode bs = concat (map (\<lambda>b. [HEX ! (unat b div 16), HEX ! (unat b mod 16)]) bs)"

definition nibble :: "char \<Rightarrow> nat io_result" where
  "nibble c =
     (if is_digit c then Inr (code c - 48)
      else if 97 \<le> code c \<and> code c \<le> 102 then Inr (code c - 97 + 10)
      else if 65 \<le> code c \<and> code c \<le> 70 then Inr (code c - 65 + 10)
      else Inl (invalid_data ''invalid hex character''))"

fun hex_pairs :: "string \<Rightarrow> bytes io_result" where
  "hex_pairs (a # b # cs) =
     and_then (nibble a) (\<lambda>x. and_then (nibble b) (\<lambda>y.
       and_then (hex_pairs cs) (\<lambda>r. Inr (word_of_nat (x * 16 + y) # r))))"
| "hex_pairs _ = Inr []"

definition hex_decode :: "string \<Rightarrow> bytes io_result" where
  "hex_decode s =
     (if length s mod 2 \<noteq> 0 then Inl (invalid_data ''odd-length hex string'') else hex_pairs s)"

section \<open>Timestamps\<close>

text \<open>Rust's division truncates; the divisors here are positive.\<close>

definition tdiv :: "int \<Rightarrow> int \<Rightarrow> int" where
  "tdiv a b = (if a \<ge> 0 then a div b else - ((- a) div b))"

definition wrap_i64 :: "int \<Rightarrow> int" where
  "wrap_i64 i = (i + 9223372036854775808) mod 18446744073709551616 - 9223372036854775808"

definition days_from_civil :: "int \<Rightarrow> int \<Rightarrow> int \<Rightarrow> int" where
  "days_from_civil year month day =
     (let year = (if month \<le> 2 then year - 1 else year);
          era = tdiv (if year \<ge> 0 then year else year - 399) 400;
          year_of_era = year - era * 400;
          day_of_year = tdiv (153 * (if month > 2 then month - 3 else month + 9) + 2) 5 + day - 1;
          day_of_era = year_of_era * 365 + tdiv year_of_era 4 - tdiv year_of_era 100 + day_of_year
      in era * 146097 + day_of_era - 719468)"

definition bad_timestamp :: io_error where
  "bad_timestamp = invalid_data ''bad timestamp''"

definition parse_datetime :: "string \<Rightarrow> string \<Rightarrow> nat io_result" where
  "parse_datetime date time =
     (case (map parse_i64 (split_char CHR ''-'' date), map parse_i64 (split_char CHR '':'' time)) of
        ([Some year, Some month, Some day], [Some hour, Some minute, Some second]) \<Rightarrow>
          if \<not> (1 \<le> month \<and> month \<le> 12) \<or> \<not> (1 \<le> day \<and> day \<le> 31) \<or> hour > 23 \<or> minute > 59 \<or> second > 60
          then Inl bad_timestamp
          else
            let seconds = wrap_i64 (days_from_civil year month day * 86400 + hour * 3600 + minute * 60 + second)
            in if seconds < 0 then Inl bad_timestamp else Inr (nat seconds)
      | _ \<Rightarrow> Inl bad_timestamp)"

definition format_datetime :: "nat \<Rightarrow> string" where
  "format_datetime unix =
     (let days = int (unix div 86400);
          secs = unix mod 86400;
          z = days + 719468;
          era = tdiv (if z \<ge> 0 then z else z - 146096) 146097;
          doe = z - era * 146097;
          yoe = tdiv (doe - tdiv doe 1460 + tdiv doe 36524 - tdiv doe 146096) 365;
          y = yoe + era * 400;
          doy = doe - (365 * yoe + tdiv yoe 4 - tdiv yoe 100);
          mp = tdiv (5 * doy + 2) 153;
          d = doy - tdiv (153 * mp + 2) 5 + 1;
          m = (if mp < 10 then mp + 3 else mp - 9);
          y = (if m \<le> 2 then y + 1 else y)
      in pad_digits 4 (nat y) @ ''-'' @ pad_digits 2 (nat m) @ ''-'' @ pad_digits 2 (nat d) @ '' '' @
         pad_digits 2 (secs div 3600) @ '':'' @ pad_digits 2 (secs mod 3600 div 60) @ '':'' @
         pad_digits 2 (secs mod 60))"

section \<open>Digits\<close>

lemma b64_digit_list:
  "list_all2 (\<lambda>c v. b64_value c = Some v \<and> c \<noteq> CHR ''='' \<and> c \<noteq> CHR '' '' \<and>
     code c \<noteq> 9 \<and> code c \<noteq> 13 \<and> code c \<noteq> 10) B64_ALPHABET [0..<64]"
  by (simp add: B64_ALPHABET_def b64_value_def code_def is_digit_def upt_rec)

lemma b64_digit:
  assumes "v < 64"
  shows "b64_value (B64_ALPHABET ! v) = Some v" and "B64_ALPHABET ! v \<noteq> CHR ''=''" and "B64_ALPHABET ! v \<noteq> CHR '' ''"
    and "code (B64_ALPHABET ! v) \<noteq> 9" and "code (B64_ALPHABET ! v) \<noteq> 13" and "code (B64_ALPHABET ! v) \<noteq> 10"
  using b64_digit_list assms by (simp_all add: list_all2_conv_all_nth)

lemma hex_digit_list: "list_all2 (\<lambda>c v. nibble c = Inr v) HEX [0..<16]"
  by (simp add: HEX_def nibble_def code_def is_digit_def upt_rec)

lemma nibble_HEX: "v < 16 \<Longrightarrow> nibble (HEX ! v) = Inr v"
  using hex_digit_list by (simp add: list_all2_conv_all_nth)

text \<open>Appending a digit below a shifted accumulator is addition, and the width only cuts the top.\<close>

lemma shift_or:
  fixes x v :: nat
  assumes "v < 2 ^ w"
  shows "x * 2 ^ w OR v = x * 2 ^ w + v"
proof -
  have "x * 2 ^ w = push_bit w x"
    by (simp add: push_bit_eq_mult)
  moreover have "take_bit w v = v"
    using assms by (simp add: take_bit_nat_eq_self)
  then have "\<not> bit v n" if "w \<le> n" for n
    using that by (metis bit_take_bit_iff not_less)
  then have "\<not> bit (push_bit w x) n \<or> \<not> bit v n" for n
    by (cases "w \<le> n") (auto simp: bit_push_bit_iff)
  ultimately show ?thesis
    by (simp add: disjunctive_add)
qed

lemma and_low: "(a :: nat) AND (2 ^ n - 1) = a mod 2 ^ n"
  by (metis mask_eq_exp_minus_1 take_bit_eq_mask take_bit_eq_mod)

lemma mod_shift:
  fixes x v c m :: nat
  assumes "v < c"
  shows "(x * c + v) mod (m * c) = (x mod m) * c + v"
proof -
  have "(x * c + v) mod (c * m) = c * ((x * c + v) div c mod m) + (x * c + v) mod c"
    by (rule mod_mult2_eq)
  then show ?thesis
    using assms by (simp add: mult.commute)
qed

lemma b64_acc:
  assumes "v < 64" and "k + 6 \<le> 32"
  shows "(wrap_u32 (acc * 64) OR v) mod 2 ^ (k + 6) = (acc mod 2 ^ k) * 64 + v"
proof -
  have "wrap_u32 (acc * 64) = (acc mod 2 ^ 26) * 2 ^ 6"
    by (simp add: wrap_u32_def mult_mod_left)
  then have "wrap_u32 (acc * 64) OR v = (acc mod 2 ^ 26) * 2 ^ 6 + v"
    using shift_or [of v 6 "acc mod 2 ^ 26"] assms(1) by simp
  moreover have "((acc mod 2 ^ 26) * 2 ^ 6 + v) mod 2 ^ (k + 6) = ((acc mod 2 ^ 26) mod 2 ^ k) * 2 ^ 6 + v"
    using mod_shift [of v 64 "acc mod 2 ^ 26" "2 ^ k"] assms(1) by (simp add: power_add)
  moreover have "(acc mod 2 ^ 26) mod 2 ^ k = acc mod 2 ^ k"
    by (rule mod_mod_cancel, rule le_imp_power_dvd) (use assms(2) in simp)
  ultimately show ?thesis by simp
qed

lemma byte_of_low:
  "word_of_nat (acc div 2 ^ j) = (word_of_nat (acc mod 2 ^ (j + 8) div 2 ^ j) :: u8)"
proof -
  have "acc mod (2 ^ j * 256) = 2 ^ j * (acc div 2 ^ j mod 256) + acc mod 2 ^ j"
    by (rule mod_mult2_eq)
  then have "acc mod 2 ^ (j + 8) div 2 ^ j = acc div 2 ^ j mod 256"
    by (simp add: power_add)
  then show ?thesis by (simp add: word_of_nat_eq_u8)
qed

declare b64_loop.simps(2) [simp del]

text \<open>
  One digit of base64, seen through the residue: what the accumulator holds below \<open>bits\<close>.
\<close>

lemma b64_step:
  assumes "v < 64" and "bits \<le> 6"
  shows "\<exists>acc'. acc' mod 2 ^ (bits + 6) = (acc mod 2 ^ bits) * 64 + v \<and>
     b64_loop acc bits out (B64_ALPHABET ! v # cs) =
       (if bits \<ge> 2 then b64_loop acc' (bits - 2) (out @ [word_of_nat (((acc mod 2 ^ bits) * 64 + v) div 2 ^ (bits - 2))]) cs
        else b64_loop acc' (bits + 6) out cs)"
proof (intro exI conjI)
  let ?a = "wrap_u32 (acc * 64) OR v"
  show low: "?a mod 2 ^ (bits + 6) = (acc mod 2 ^ bits) * 64 + v"
    using assms by (intro b64_acc) simp_all
  have "word_of_nat (?a div 2 ^ (bits - 2)) = (word_of_nat (((acc mod 2 ^ bits) * 64 + v) div 2 ^ (bits - 2)) :: u8)" if "2 \<le> bits"
    using byte_of_low [of ?a "bits - 2"] low that by (simp add: add.commute)
  then show "b64_loop acc bits out (B64_ALPHABET ! v # cs) =
       (if bits \<ge> 2 then b64_loop ?a (bits - 2) (out @ [word_of_nat (((acc mod 2 ^ bits) * 64 + v) div 2 ^ (bits - 2))]) cs
        else b64_loop ?a (bits + 6) out cs)"
    using b64_digit [OF assms(1)] by (simp add: b64_loop.simps Let_def)
qed

lemma b64_two:
  assumes "v1 < 64" and "v2 < 64"
  shows "\<exists>acc'. acc' mod 16 = v2 mod 16 \<and> b64_loop acc 0 out (B64_ALPHABET ! v1 # B64_ALPHABET ! v2 # cs) =
     b64_loop acc' 4 (out @ [word_of_nat ((v1 * 64 + v2) div 16)]) cs"
proof -
  obtain a1 where a1: "a1 mod 64 = v1"
    and s1: "b64_loop acc 0 out (B64_ALPHABET ! v1 # B64_ALPHABET ! v2 # cs) = b64_loop a1 6 out (B64_ALPHABET ! v2 # cs)"
    using b64_step [OF assms(1), of 0 acc out "B64_ALPHABET ! v2 # cs"] by auto
  obtain a2 where a2: "a2 mod 4096 = v1 * 64 + v2"
    and s2: "b64_loop a1 6 out (B64_ALPHABET ! v2 # cs) = b64_loop a2 4 (out @ [word_of_nat ((v1 * 64 + v2) div 16)]) cs"
    using b64_step [OF assms(2), of 6 a1 out cs] a1 by auto
  have "a2 mod 16 = a2 mod 4096 mod 16"
    by (simp add: mod_mod_cancel)
  moreover have "(v1 * 64 + v2) mod 16 = v2 mod 16"
    using mod_mult_self3 [of "v1 * 4" 16 v2] by (simp add: mult.commute)
  ultimately have "a2 mod 16 = v2 mod 16"
    unfolding a2 by simp
  with s1 s2 show ?thesis by metis
qed

lemma b64_three:
  assumes "v1 < 64" and "v2 < 64" and "v3 < 64"
  shows "\<exists>acc'. acc' mod 4 = v3 mod 4 \<and> b64_loop acc 0 out (B64_ALPHABET ! v1 # B64_ALPHABET ! v2 # B64_ALPHABET ! v3 # cs) =
     b64_loop acc' 2 (out @ [word_of_nat ((v1 * 64 + v2) div 16), word_of_nat ((v2 mod 16 * 64 + v3) div 4)]) cs"
proof -
  obtain a where a: "a mod 16 = v2 mod 16"
    and s: "b64_loop acc 0 out (B64_ALPHABET ! v1 # B64_ALPHABET ! v2 # B64_ALPHABET ! v3 # cs) =
      b64_loop a 4 (out @ [word_of_nat ((v1 * 64 + v2) div 16)]) (B64_ALPHABET ! v3 # cs)"
    using b64_two [OF assms(1,2), of acc out "B64_ALPHABET ! v3 # cs"] by blast
  obtain a' where a': "a' mod 1024 = v2 mod 16 * 64 + v3"
    and s': "b64_loop a 4 (out @ [word_of_nat ((v1 * 64 + v2) div 16)]) (B64_ALPHABET ! v3 # cs) =
      b64_loop a' 2 ((out @ [word_of_nat ((v1 * 64 + v2) div 16)]) @ [word_of_nat ((v2 mod 16 * 64 + v3) div 4)]) cs"
    using b64_step [OF assms(3), of 4 a "out @ [word_of_nat ((v1 * 64 + v2) div 16)]" cs] a by auto
  have "a' mod 4 = a' mod 1024 mod 4"
    by (simp add: mod_mod_cancel)
  moreover have "(v2 mod 16 * 64 + v3) mod 4 = v3 mod 4"
    using mod_mult_self3 [of "v2 mod 16 * 16" 4 v3] by (simp add: mult.commute)
  ultimately have "a' mod 4 = v3 mod 4"
    unfolding a' by simp
  with s s' show ?thesis by (metis append.assoc append_Cons append_Nil)
qed

lemma b64_four:
  assumes "v1 < 64" and "v2 < 64" and "v3 < 64" and "v4 < 64"
  shows "\<exists>acc'. b64_loop acc 0 out (B64_ALPHABET ! v1 # B64_ALPHABET ! v2 # B64_ALPHABET ! v3 # B64_ALPHABET ! v4 # cs) =
     b64_loop acc' 0 (out @ [word_of_nat ((v1 * 64 + v2) div 16), word_of_nat ((v2 mod 16 * 64 + v3) div 4),
       word_of_nat (v3 mod 4 * 64 + v4)]) cs"
proof -
  obtain a where a: "a mod 4 = v3 mod 4"
    and s: "b64_loop acc 0 out (B64_ALPHABET ! v1 # B64_ALPHABET ! v2 # B64_ALPHABET ! v3 # B64_ALPHABET ! v4 # cs) =
      b64_loop a 2 (out @ [word_of_nat ((v1 * 64 + v2) div 16), word_of_nat ((v2 mod 16 * 64 + v3) div 4)]) (B64_ALPHABET ! v4 # cs)"
    using b64_three [OF assms(1-3), of acc out "B64_ALPHABET ! v4 # cs"] by blast
  let ?out = "out @ [word_of_nat ((v1 * 64 + v2) div 16), word_of_nat ((v2 mod 16 * 64 + v3) div 4)]"
  obtain a' where "b64_loop a 2 ?out (B64_ALPHABET ! v4 # cs) = b64_loop a' 0 (?out @ [word_of_nat (v3 mod 4 * 64 + v4)]) cs"
    using b64_step [OF assms(4), of 2 a ?out cs] a by auto
  then show ?thesis
    unfolding s by (metis append.assoc append_Cons append_Nil)
qed

text \<open>The digits of three bytes, and the bytes back from them.\<close>

lemma b64_group_digits:
  fixes a b c :: u8
  shows "b64_group a b c = map (\<lambda>v. B64_ALPHABET ! v)
     [unat a div 4, unat a mod 4 * 16 + unat b div 16, unat b mod 16 * 4 + unat c div 64, unat c mod 64]"
proof -
  define x1 x0 y1 y0 z1 z0 where "x1 = unat a div 4" and "x0 = unat a mod 4" and "y1 = unat b div 16"
    and "y0 = unat b mod 16" and "z1 = unat c div 64" and "z0 = unat c mod 64"
  have eqs: "unat a = x1 * 4 + x0" "unat b = y1 * 16 + y0" "unat c = z1 * 64 + z0"
    by (simp_all add: x1_def x0_def y1_def y0_def z1_def z0_def)
  have lt: "x0 < 4" "y0 < 16" "z0 < 64" "x1 < 64" "y1 < 16" "z1 < 4"
    using unat_u8_less [of a] unat_u8_less [of b] unat_u8_less [of c]
    by (simp_all add: x1_def x0_def y1_def y0_def z1_def z0_def less_mult_imp_div_less)
  let ?n = "unat a * 65536 + unat b * 256 + unat c"
  have "?n div 262144 = x1"
    unfolding eqs by (rule div_nat_eqI; use lt in \<open>simp add: algebra_simps\<close>)
  moreover have "?n div 4096 = x1 * 64 + (x0 * 16 + y1)"
    unfolding eqs by (rule div_nat_eqI; use lt in \<open>simp add: algebra_simps\<close>)
  moreover have "?n div 64 = (x1 * 64 + (x0 * 16 + y1)) * 64 + (y0 * 4 + z1)"
    unfolding eqs by (rule div_nat_eqI; use lt in \<open>simp add: algebra_simps\<close>)
  moreover have "?n = (((x1 * 64 + (x0 * 16 + y1)) * 64) + (y0 * 4 + z1)) * 64 + z0"
    unfolding eqs by simp
  ultimately have "?n div 262144 mod 64 = x1" "?n div 4096 mod 64 = x0 * 16 + y1" "?n div 64 mod 64 = y0 * 4 + z1"
    "?n mod 64 = z0"
    using lt by (simp_all only: mod_mult_self3 mod_less)
  then show ?thesis
    by (simp add: b64_group_def Let_def flip: x1_def x0_def y1_def y0_def z1_def z0_def)
qed

lemma b64_bytes:
  fixes a b c :: u8
  shows "word_of_nat ((unat a div 4 * 64 + (unat a mod 4 * 16 + unat b div 16)) div 16) = a"
    and "word_of_nat (((unat a mod 4 * 16 + unat b div 16) mod 16 * 64 + (unat b mod 16 * 4 + unat c div 64)) div 4) = b"
    and "word_of_nat ((unat b mod 16 * 4 + unat c div 64) mod 4 * 64 + unat c mod 64) = c"
proof -
  have lt: "unat b div 16 < 16" "unat c div 64 < 4"
    using unat_u8_less [of b] unat_u8_less [of c] by (simp_all add: less_mult_imp_div_less)
  have e1: "unat a div 4 * 64 + (unat a mod 4 * 16 + unat b div 16) = unat a * 16 + unat b div 16"
    using div_mult_mod_eq [of "unat a" 4] by linarith
  show "word_of_nat ((unat a div 4 * 64 + (unat a mod 4 * 16 + unat b div 16)) div 16) = a"
    unfolding e1 word_of_nat_eq_u8 using lt by simp
  have m2: "(unat a mod 4 * 16 + unat b div 16) mod 16 = unat b div 16"
    using lt by (simp only: mod_mult_self3 mod_less)
  have e2: "unat b div 16 * 64 + (unat b mod 16 * 4 + unat c div 64) = unat b * 4 + unat c div 64"
    using div_mult_mod_eq [of "unat b" 16] by linarith
  show "word_of_nat (((unat a mod 4 * 16 + unat b div 16) mod 16 * 64 + (unat b mod 16 * 4 + unat c div 64)) div 4) = b"
    unfolding m2 e2 word_of_nat_eq_u8 using lt by simp
  have "(unat b mod 16 * 4 + unat c div 64) mod 4 = unat c div 64"
    using lt by (simp only: mod_mult_self3 mod_less)
  then show "word_of_nat ((unat b mod 16 * 4 + unat c div 64) mod 4 * 64 + unat c mod 64) = c"
    using div_mult_mod_eq [of "unat c" 64] by (simp only: word_of_nat_eq_u8 mod_less unat_u8_less)
qed

lemma b64_digit_bounds:
  fixes a b c :: u8
  shows "unat a div 4 < 64" and "unat a mod 4 * 16 + unat b div 16 < 64" and "unat b mod 16 * 4 + unat c div 64 < 64"
    and "unat c mod 64 < 64"
proof -
  have "unat b div 16 < 16" "unat c div 64 < 4" "unat a mod 4 < 4" "unat b mod 16 < 16"
    using unat_u8_less [of b] unat_u8_less [of c] by (simp_all add: less_mult_imp_div_less)
  then show "unat a mod 4 * 16 + unat b div 16 < 64" "unat b mod 16 * 4 + unat c div 64 < 64"
    by linarith+
qed (use unat_u8_less [of a] in \<open>simp_all add: less_mult_imp_div_less\<close>)

lemma b64_decode_encode:
  "b64_loop acc 0 out (base64_encode_unpadded bs) = Inr (out @ bs)"
proof (induction bs arbitrary: acc out rule: base64_encode_unpadded.induct)
  case 1
  then show ?case by (simp add: b64_finish_def)
next
  case (2 a)
  from b64_two [OF b64_digit_bounds(1) [of a] b64_digit_bounds(2) [of a 0], of acc out "[]"] b64_bytes(1) [of a 0] show ?case
    by (auto simp: b64_group_digits b64_finish_def and_low [of _ 4, simplified])
next
  case (3 a b)
  from b64_three [OF b64_digit_bounds(1) [of a] b64_digit_bounds(2) [of a b] b64_digit_bounds(3) [of b 0], of acc out "[]"]
    b64_bytes(1) [of a b] b64_bytes(2) [of a b 0] show ?case
    by (auto simp: b64_group_digits b64_finish_def and_low [of _ 2, simplified])
next
  case (4 a b c bs)
  from b64_four [OF b64_digit_bounds(1) [of a] b64_digit_bounds(2) [of a b] b64_digit_bounds(3) [of b c] b64_digit_bounds(4) [of c], of acc out
      "base64_encode_unpadded bs"] b64_bytes(1) [of a b] b64_bytes(2) [of a b c] b64_bytes(3) [of b c] 4 show ?case
    by (auto simp: b64_group_digits)
qed

lemma base64_decode_encode: "base64_decode (base64_encode_unpadded bs) = Inr bs"
  unfolding base64_decode_def by (simp add: b64_decode_encode)

lemma length_hex_encode [simp]: "length (hex_encode bs) = 2 * length bs"
  by (induction bs) (simp_all add: hex_encode_def)

lemma hex_decode_encode: "hex_decode (hex_encode bs) = Inr bs"
proof -
  have "hex_pairs (hex_encode bs) = Inr bs"
  proof (induction bs)
    case (Cons b bs)
    have "unat b div 16 < 16" "unat b mod 16 < 16"
      using unat_u8_less [of b] by (simp_all add: less_mult_imp_div_less)
    moreover have "word_of_nat (unat b div 16) * 16 + word_of_nat (unat b mod 16) =
        (word_of_nat (unat b div 16 * 16 + unat b mod 16) :: u8)"
      by (simp only: of_nat_add of_nat_mult of_nat_numeral)
    then have "word_of_nat (unat b div 16) * 16 + word_of_nat (unat b mod 16) = b"
      unfolding div_mult_mod_eq by simp
    ultimately show ?case
      using Cons by (simp add: hex_encode_def nibble_HEX)
  qed (simp add: hex_encode_def)
  then show ?thesis by (simp add: hex_decode_def)
qed

end
