(* ===== verification/Base32_Codec.thy ===== *)
theory Base32_Codec
  imports Encoding_Util
begin

text \<open>
  Base32, \<^verbatim>\<open>src/crypto/base32.rs\<close>: the encoder and decoder of onion addresses, both with an accumulator
  of sixteen bits that is never cleared, so that only its low bits mean anything.
\<close>

definition B32_ALPHABET :: string where "B32_ALPHABET = ''abcdefghijklmnopqrstuvwxyz234567''"

definition b32_value :: "char \<Rightarrow> nat option" where
  "b32_value c =
     (if 97 \<le> code c \<and> code c \<le> 122 then Some (code c - 97)
      else if 65 \<le> code c \<and> code c \<le> 90 then Some (code c - 65)
      else if 50 \<le> code c \<and> code c \<le> 55 then Some (code c - 50 + 26)
      else None)"

definition b32_finish :: "nat \<Rightarrow> nat \<Rightarrow> bytes \<Rightarrow> bytes io_result" where
  "b32_finish acc bits out =
     (if bits \<ge> 5 \<or> acc AND (2 ^ bits - 1) \<noteq> 0 then Inl (invalid_data ''truncated base32 group'')
      else Inr out)"

fun b32_loop :: "nat \<Rightarrow> nat \<Rightarrow> bytes \<Rightarrow> string \<Rightarrow> bytes io_result" where
  "b32_loop acc bits out [] = b32_finish acc bits out"
| "b32_loop acc bits out (c # cs) =
     (if c = CHR ''='' then b32_finish acc bits out
      else case b32_value c of
        None \<Rightarrow> Inl (invalid_data ''invalid base32 character'')
      | Some v \<Rightarrow>
          let acc = wrap_u16 (acc * 32) OR v;
              bits = bits + 5
          in if bits \<ge> 8
             then b32_loop acc (bits - 8) (out @ [word_of_nat (acc div 2 ^ (bits - 8))]) cs
             else b32_loop acc bits out cs)"

definition base32_decode :: "string \<Rightarrow> bytes io_result" where
  "base32_decode s = b32_loop 0 0 [] s"

text \<open>The inner \<^verbatim>\<open>while bits >= 5\<close>.\<close>

function b32_emit :: "nat \<Rightarrow> nat \<Rightarrow> string \<Rightarrow> nat \<times> string" where
  "b32_emit acc bits out =
     (if bits \<ge> 5 then b32_emit acc (bits - 5) (out @ [B32_ALPHABET ! (acc div 2 ^ (bits - 5) mod 32)])
      else (bits, out))"
  by pat_completeness auto
termination by (relation "measure (\<lambda>(acc, bits, out). bits)") auto

declare b32_emit.simps [simp del]

fun b32_encode_loop :: "nat \<Rightarrow> nat \<Rightarrow> string \<Rightarrow> bytes \<Rightarrow> string" where
  "b32_encode_loop acc bits out [] =
     (if bits > 0 then out @ [B32_ALPHABET ! (wrap_u16 (acc * 2 ^ (5 - bits)) mod 32)] else out)"
| "b32_encode_loop acc bits out (b # bs) =
     (let acc = wrap_u16 (acc * 256) OR unat b;
          (bits, out) = b32_emit acc (bits + 8) out
      in b32_encode_loop acc bits out bs)"

definition base32_encode :: "bytes \<Rightarrow> string" where
  "base32_encode bs = b32_encode_loop 0 0 [] bs"

section \<open>Digits\<close>

lemma b32_digit_list:
  "list_all2 (\<lambda>c v. b32_value c = Some v \<and> c \<noteq> CHR ''='') B32_ALPHABET [0..<32]"
  by (simp add: B32_ALPHABET_def b32_value_def code_def upt_rec)

lemma b32_digit:
  assumes "v < 32"
  shows "b32_value (B32_ALPHABET ! v) = Some v" and "B32_ALPHABET ! v \<noteq> CHR ''=''"
  using b32_digit_list assms by (simp_all add: list_all2_conv_all_nth)

lemma wrap_shift_or:
  assumes "v < 2 ^ w" and "k + w \<le> 16"
  shows "(wrap_u16 (acc * 2 ^ w) OR v) mod 2 ^ (k + w) = (acc mod 2 ^ k) * 2 ^ w + v"
proof -
  have "(65536 :: nat) = 2 ^ (16 - w) * 2 ^ w"
    using assms(2) by (simp flip: power_add)
  then have "wrap_u16 (acc * 2 ^ w) = (acc mod 2 ^ (16 - w)) * 2 ^ w"
    unfolding wrap_u16_def by (metis mult_mod_left)
  then have "wrap_u16 (acc * 2 ^ w) OR v = (acc mod 2 ^ (16 - w)) * 2 ^ w + v"
    using shift_or [OF assms(1)] by simp
  moreover have "((acc mod 2 ^ (16 - w)) * 2 ^ w + v) mod (2 ^ k * 2 ^ w) = ((acc mod 2 ^ (16 - w)) mod 2 ^ k) * 2 ^ w + v"
    by (rule mod_shift [OF assms(1)])
  moreover have "(acc mod 2 ^ (16 - w)) mod 2 ^ k = acc mod 2 ^ k"
    by (rule mod_mod_cancel, rule le_imp_power_dvd) (use assms(2) in simp)
  ultimately show ?thesis by (simp add: power_add)
qed

declare b32_loop.simps(2) [simp del]

lemma b32_step:
  assumes "v < 32" and "bits \<le> 7"
  shows "\<exists>acc'. acc' mod 2 ^ (bits + 5) = (acc mod 2 ^ bits) * 32 + v \<and>
     b32_loop acc bits out (B32_ALPHABET ! v # cs) =
       (if bits \<ge> 3 then b32_loop acc' (bits - 3) (out @ [word_of_nat (((acc mod 2 ^ bits) * 32 + v) div 2 ^ (bits - 3))]) cs
        else b32_loop acc' (bits + 5) out cs)"
proof (intro exI conjI)
  let ?a = "wrap_u16 (acc * 32) OR v"
  show low: "?a mod 2 ^ (bits + 5) = (acc mod 2 ^ bits) * 32 + v"
    using wrap_shift_or [of v 5 bits acc] assms by simp
  have "word_of_nat (?a div 2 ^ (bits - 3)) = (word_of_nat (((acc mod 2 ^ bits) * 32 + v) div 2 ^ (bits - 3)) :: u8)" if "3 \<le> bits"
    using byte_of_low [of ?a "bits - 3"] low that by (simp add: add.commute)
  then show "b32_loop acc bits out (B32_ALPHABET ! v # cs) =
       (if bits \<ge> 3 then b32_loop ?a (bits - 3) (out @ [word_of_nat (((acc mod 2 ^ bits) * 32 + v) div 2 ^ (bits - 3))]) cs
        else b32_loop ?a (bits + 5) out cs)"
    using b32_digit [OF assms(1)] by (simp add: b32_loop.simps Let_def)
qed

text \<open>The digits of base32, with the residue \<open>r\<close> of \<open>e\<close> bits still to be written.\<close>

fun b32_digits :: "nat \<Rightarrow> nat \<Rightarrow> bytes \<Rightarrow> nat list" where
  "b32_digits r e [] = (if e > 0 then [r * 2 ^ (5 - e)] else [])"
| "b32_digits r e (b # bs) =
     (let a = r * 256 + unat b
      in if e \<ge> 2 then (a div 2 ^ (e + 3)) # (a div 2 ^ (e - 2) mod 32) # b32_digits (a mod 2 ^ (e - 2)) (e - 2) bs
         else (a div 2 ^ (e + 3)) # b32_digits (a mod 2 ^ (e + 3)) (e + 3) bs)"

lemma residue_div: "j + k = (n :: nat) \<Longrightarrow> a div 2 ^ j mod 2 ^ k = a mod 2 ^ n div (2 ^ j :: nat)"
proof -
  assume "j + k = n"
  then have "a mod 2 ^ n = 2 ^ j * (a div 2 ^ j mod 2 ^ k) + a mod 2 ^ j"
    using mod_mult2_eq [of a "2 ^ j" "2 ^ k"] by (simp flip: power_add)
  then show ?thesis by simp
qed

lemma b32_emit_one: "e < 2 \<Longrightarrow> b32_emit a (e + 8) out = (e + 3, out @ [B32_ALPHABET ! (a div 2 ^ (e + 3) mod 32)])"
  by (subst b32_emit.simps, subst b32_emit.simps) (simp add: add.commute)

lemma b32_emit_two: "2 \<le> e \<Longrightarrow> e < 5 \<Longrightarrow> b32_emit a (e + 8) out =
   (e - 2, out @ [B32_ALPHABET ! (a div 2 ^ (e + 3) mod 32), B32_ALPHABET ! (a div 2 ^ (e - 2) mod 32)])"
  by (subst b32_emit.simps, subst b32_emit.simps, subst b32_emit.simps) (auto simp: add.commute numeral_2_eq_2)

lemma b32_encode_digits:
  "e < 5 \<Longrightarrow> b32_encode_loop acc e out bs = out @ map (\<lambda>v. B32_ALPHABET ! v) (b32_digits (acc mod 2 ^ e) e bs)"
proof (induction bs arbitrary: acc e out)
  case Nil
  have "wrap_u16 (acc * 2 ^ (5 - e)) mod 32 = acc mod 2 ^ e * 2 ^ (5 - e)" if "0 < e"
  proof -
    have "wrap_u16 (acc * 2 ^ (5 - e)) mod 32 = acc * 2 ^ (5 - e) mod 32"
      unfolding wrap_u16_def by (rule mod_mod_cancel) simp
    moreover have "(32 :: nat) = 2 ^ e * 2 ^ (5 - e)"
      using Nil by (simp flip: power_add)
    ultimately show ?thesis by (metis mult_mod_left)
  qed
  then show ?case by simp
next
  case (Cons b bs)
  let ?a = "wrap_u16 (acc * 256) OR unat b"
  have low: "?a mod 2 ^ (e + 8) = acc mod 2 ^ e * 256 + unat b"
    using wrap_shift_or [of "unat b" 8 e acc] Cons.prems by simp
  have d1: "?a div 2 ^ (e + 3) mod 32 = (acc mod 2 ^ e * 256 + unat b) div 2 ^ (e + 3)"
    using residue_div [of "e + 3" 5 "e + 8" ?a] low by simp
  have sub: "?a mod 2 ^ j = (acc mod 2 ^ e * 256 + unat b) mod 2 ^ j" if "j \<le> e + 8" for j
    unfolding low [symmetric] by (rule mod_mod_cancel [symmetric], rule le_imp_power_dvd [OF that])
  show ?case
  proof (cases "e < 2")
    case True
    then show ?thesis
      using Cons.IH [of "e + 3" ?a] d1 sub [of "e + 3"] by (simp add: Let_def b32_emit_one)
  next
    case False
    have "?a div 2 ^ (e - 2) mod 32 = (acc mod 2 ^ e * 256 + unat b) div 2 ^ (e - 2) mod 32"
      using residue_div [of "e - 2" 5 "e + 3" ?a] residue_div [of "e - 2" 5 "e + 3" "acc mod 2 ^ e * 256 + unat b"] sub [of "e + 3"] False
      by simp
    then show ?thesis
      using False Cons.prems Cons.IH [of "e - 2" ?a] d1 sub [of "e - 2"] by (simp add: Let_def b32_emit_two)
  qed
qed

text \<open>What the decoder still owes for the encoder's unfinished byte.\<close>

definition b32_owed :: "nat \<Rightarrow> nat \<Rightarrow> nat \<Rightarrow> bytes" where
  "b32_owed q r e = (if e = 0 then [] else [word_of_nat (q * 2 ^ e + r)])"

lemma shift_div: "c = k * m \<Longrightarrow> 0 < m \<Longrightarrow> (r * c + b) div m = r * k + b div (m :: nat)"
  by (metis add.commute div_mult_self1 less_irrefl mult.assoc)

lemma shift_mod: "c = k * m \<Longrightarrow> (r * c + b) mod m = b mod (m :: nat)"
  by (metis mod_mult_self3 mult.assoc)

definition b32_reads :: "nat \<Rightarrow> nat \<Rightarrow> bytes \<Rightarrow> nat list \<Rightarrow> nat \<Rightarrow> nat \<Rightarrow> bytes \<Rightarrow> bool" where
  "b32_reads acc bits out vs acc' bits' out' \<longleftrightarrow>
     (\<forall>cs. b32_loop acc bits out (map (\<lambda>v. B32_ALPHABET ! v) vs @ cs) = b32_loop acc' bits' out' cs)"

lemma b32_reads_trans:
  "b32_reads a b out vs a' b' out' \<Longrightarrow> b32_reads a' b' out' ws a'' b'' out'' \<Longrightarrow> b32_reads a b out (vs @ ws) a'' b'' out''"
  by (simp add: b32_reads_def)

lemma b32_full:
  assumes "v < 32" and "j \<le> 4"
  shows "\<exists>acc'. acc' mod 2 ^ j = v mod 2 ^ j \<and>
     b32_reads acc (j + 3) out [v] acc' j (out @ [word_of_nat ((acc mod 2 ^ (j + 3) * 32 + v) div 2 ^ j)])"
proof -
  let ?a = "wrap_u16 (acc * 32) OR v"
  have "?a mod 2 ^ (j + 3 + 5) = (acc mod 2 ^ (j + 3)) * 32 + v"
    using wrap_shift_or [of v 5 "j + 3" acc] assms by simp
  then have a: "?a mod 2 ^ (j + 8) = (acc mod 2 ^ (j + 3)) * 32 + v"
    by (simp add: add.assoc)
  have "?a mod 2 ^ j = ?a mod 2 ^ (j + 8) mod 2 ^ j"
    by (rule mod_mod_cancel [symmetric], rule le_imp_power_dvd) simp
  also have "\<dots> = v mod 2 ^ j"
    unfolding a using assms(2) by (intro shift_mod [of _ "2 ^ (5 - j)"]) (simp flip: power_add)
  finally have "?a mod 2 ^ j = v mod 2 ^ j" .
  moreover have "word_of_nat (?a div 2 ^ j) = (word_of_nat (((acc mod 2 ^ (j + 3)) * 32 + v) div 2 ^ j) :: u8)"
    using byte_of_low [of ?a j] a by simp
  ultimately show ?thesis
    using b32_digit [OF assms(1)] by (intro exI [of _ ?a]) (simp add: b32_reads_def b32_loop.simps Let_def)
qed

lemma b32_part:
  assumes "v < 32" and "k < 3"
  shows "\<exists>acc'. acc' mod 2 ^ (k + 5) = acc mod 2 ^ k * 32 + v \<and> b32_reads acc k out [v] acc' (k + 5) out"
  using wrap_shift_or [of v 5 k acc] assms b32_digit [OF assms(1)]
  by (intro exI [of _ "wrap_u16 (acc * 32) OR v"]) (simp add: b32_reads_def b32_loop.simps Let_def)

text \<open>
  One byte: the digits it completes, from \<open>e\<close> pending bits of the encoder to \<open>e'\<close>, make the decoder
  finish the byte before it and take in all but the last \<open>e'\<close> bits of this one.
\<close>

definition b32_byte :: "nat \<Rightarrow> nat \<Rightarrow> nat \<Rightarrow> bytes \<Rightarrow> u8 \<Rightarrow> nat list \<Rightarrow> nat \<Rightarrow> bool" where
  "b32_byte acc e r out b vs e' \<longleftrightarrow>
     (\<exists>acc'. b32_reads acc ((8 - e) mod 8) out vs acc' ((8 - e') mod 8) (out @ b32_owed (acc mod 2 ^ (8 - e)) r e @ (if e' = 0 then [b] else []))
        \<and> (0 < e' \<longrightarrow> acc' mod 2 ^ (8 - e') = unat b div 2 ^ e'))"

lemma unat_u8_div: "unat (b :: u8) div 16 < 16" "unat b div 32 < 8" "unat b div 64 < 4" "unat b div 128 < 2" "unat b div 8 < 32"
  using unat_u8_less [of b] by (simp_all add: less_mult_imp_div_less)

lemma b32_byte_0: "b32_byte acc 0 r out b [unat b div 8] 3"
  using b32_part [of "unat b div 8" 0 acc out] unat_u8_div [of b] by (auto simp: b32_byte_def b32_owed_def)

lemma unat_u8_div_pow: "k \<le> 8 \<Longrightarrow> unat (b :: u8) div 2 ^ k < 2 ^ (8 - k)"
  using unat_u8_less [of b] by (simp add: less_mult_imp_div_less flip: power_add)

lemma b32_first:
  fixes b :: u8
  assumes "0 < e" and "e < 5" and "r < 2 ^ e"
  shows "\<exists>a. a mod 2 ^ (5 - e) = unat b div 2 ^ (e + 3) \<and>
     b32_reads acc (8 - e) out [r * 2 ^ (5 - e) + unat b div 2 ^ (e + 3)] a (5 - e) (out @ b32_owed (acc mod 2 ^ (8 - e)) r e)"
proof -
  let ?y = "unat b div 2 ^ (e + 3)" and ?j = "5 - e"
  have p: "(32 :: nat) = 2 ^ e * 2 ^ ?j" and j: "8 - e = ?j + 3" "?j \<le> 4"
    using assms by (simp_all flip: power_add)
  have y: "?y < 2 ^ ?j"
    using unat_u8_div_pow [of "e + 3" b] assms by simp
  have "Suc r * 2 ^ ?j \<le> 2 ^ e * 2 ^ ?j"
    using assms(3) by (intro mult_right_mono) simp_all
  then have "r * 2 ^ ?j + ?y < 32" unfolding p using y by simp
  then obtain a where "a mod 2 ^ ?j = (r * 2 ^ ?j + ?y) mod 2 ^ ?j"
    "b32_reads acc (8 - e) out [r * 2 ^ ?j + ?y] a ?j (out @ [word_of_nat ((acc mod 2 ^ (8 - e) * 32 + (r * 2 ^ ?j + ?y)) div 2 ^ ?j)])"
    using b32_full [OF _ j(2)] unfolding j(1) by blast
  moreover have "(r * 2 ^ ?j + ?y) mod 2 ^ ?j = ?y"
    using shift_mod [of "2 ^ ?j" 1 "2 ^ ?j" r ?y] y by simp
  moreover have "(acc mod 2 ^ (8 - e) * 32 + (r * 2 ^ ?j + ?y)) div 2 ^ ?j = acc mod 2 ^ (8 - e) * 2 ^ e + r"
    using shift_div [OF p, of "acc mod 2 ^ (8 - e)" "r * 2 ^ ?j + ?y"] shift_div [of "2 ^ ?j" 1 "2 ^ ?j" r ?y] y by simp
  ultimately show ?thesis
    using assms(1) by (auto simp: b32_owed_def)
qed

lemma b32_byte_1: "r < 2 \<Longrightarrow> b32_byte acc 1 r out b [r * 16 + unat b div 16] 4"
  using b32_first [of 1 r b acc out] by (auto simp: b32_byte_def)

lemma b32_byte_2:
  assumes "r < 4" shows "b32_byte acc 2 r out b [r * 8 + unat b div 32, unat b mod 32] 0"
proof -
  obtain a where a: "a mod 8 = unat b div 32" and s: "b32_reads acc 6 out [r * 8 + unat b div 32] a 3 (out @ b32_owed (acc mod 64) r 2)"
    using b32_first [of 2 r b acc out] assms by auto
  obtain a' where s': "b32_reads a 3 (out @ b32_owed (acc mod 64) r 2) [unat b mod 32] a' 0
      ((out @ b32_owed (acc mod 64) r 2) @ [word_of_nat (a mod 8 * 32 + unat b mod 32)])"
    using b32_full [of "unat b mod 32" 0 a "out @ b32_owed (acc mod 64) r 2"] by auto
  have "word_of_nat (a mod 8 * 32 + unat b mod 32) = b" unfolding a by simp
  then show ?thesis
    using b32_reads_trans [OF s s'] by (auto simp: b32_byte_def)
qed

lemma b32_byte_more:
  assumes "3 \<le> e" and "e < 5" and "r < 2 ^ e"
  shows "b32_byte acc e r out b [r * 2 ^ (5 - e) + unat b div 2 ^ (e + 3), unat b div 2 ^ (e - 2) mod 32] (e - 2)"
proof -
  let ?out = "out @ b32_owed (acc mod 2 ^ (8 - e)) r e"
  obtain a where a: "a mod 2 ^ (5 - e) = unat b div 2 ^ (e + 3)"
    and s: "b32_reads acc (8 - e) out [r * 2 ^ (5 - e) + unat b div 2 ^ (e + 3)] a (5 - e) ?out"
    using b32_first [of e r b acc out] assms by auto
  obtain a' where a': "a' mod 2 ^ (5 - e + 5) = a mod 2 ^ (5 - e) * 32 + unat b div 2 ^ (e - 2) mod 32"
    and s': "b32_reads a (5 - e) ?out [unat b div 2 ^ (e - 2) mod 32] a' (5 - e + 5) ?out"
    using b32_part [of "unat b div 2 ^ (e - 2) mod 32" "5 - e" a ?out] assms(1,2) by (auto simp: less_diff_conv2)
  have "e + 3 = e - 2 + 5" using assms by simp
  then have "(2 :: nat) ^ (e + 3) = 2 ^ (e - 2) * 32"
    by (simp only: power_add) simp
  then have "a' mod 2 ^ (5 - e + 5) = unat b div 2 ^ (e - 2)"
    unfolding a' a by (simp add: div_mult2_eq)
  moreover have "5 - e + 5 = 8 - (e - 2)" "(8 - (e - 2)) mod 8 = 8 - (e - 2)" "(8 - e) mod 8 = 8 - e" "0 < e - 2"
    using assms by auto
  ultimately show ?thesis
    using b32_reads_trans [OF s s'] by (auto simp: b32_byte_def)
qed

lemma b32_digits_byte:
  assumes "e < 5" and "r < 2 ^ e"
  shows "\<exists>vs e'. e' < 5 \<and> b32_digits r e (b # bs) = vs @ b32_digits (unat b mod 2 ^ e') e' bs \<and> b32_byte acc e r out b vs e'"
proof -
  have sd: "(r * 256 + unat b) div 2 ^ k = r * 2 ^ (8 - k) + unat b div 2 ^ k"
    and sm: "(r * 256 + unat b) mod 2 ^ k = unat b mod 2 ^ k" if "k \<le> 8" for k
    using that by (simp_all add: shift_div [of 256 "2 ^ (8 - k)" "2 ^ k"] shift_mod [of 256 "2 ^ (8 - k)" "2 ^ k"] flip: power_add)
  consider "e = 0" | "e = 1" | "e = 2" | "3 \<le> e" using assms by linarith
  then show ?thesis
  proof cases
    case 1
    then show ?thesis
      using b32_byte_0 [of acc r out b] assms by (intro exI [of _ "[unat b div 8]"] exI [of _ 3]) (simp add: Let_def)
  next
    case 2
    then show ?thesis
      using b32_byte_1 [of r acc out b] assms sd [of 4] sm [of 4]
      by (intro exI [of _ "[r * 16 + unat b div 16]"] exI [of _ 4]) (simp add: Let_def)
  next
    case 3
    then show ?thesis
      using b32_byte_2 [of r acc out b] assms sd [of 5] sm [of 5]
      by (intro exI [of _ "[r * 8 + unat b div 32, unat b mod 32]"] exI [of _ 0]) (simp add: Let_def)
  next
    case 4
    have "(r * 256 + unat b) div 2 ^ (e - 2) mod 32 = unat b div 2 ^ (e - 2) mod 32"
      using residue_div [of "e - 2" 5 "e + 3" "r * 256 + unat b"] residue_div [of "e - 2" 5 "e + 3" "unat b"] sm [of "e + 3"] 4 assms(1)
      by simp
    then show ?thesis
      using b32_byte_more [OF 4 assms, of acc out b] sd [of "e + 3"] sm [of "e - 2"] 4 assms(1)
      by (intro exI [of _ "[r * 2 ^ (5 - e) + unat b div 2 ^ (e + 3), unat b div 2 ^ (e - 2) mod 32]"] exI [of _ "e - 2"])
        (simp add: Let_def)
  qed
qed

lemma b32_decode_digits:
  assumes "e < 5" and "r < 2 ^ e"
  shows "b32_loop acc ((8 - e) mod 8) out (map (\<lambda>v. B32_ALPHABET ! v) (b32_digits r e bs)) =
     Inr (out @ b32_owed (acc mod 2 ^ (8 - e)) r e @ bs)"
  using assms
proof (induction bs arbitrary: acc e r out)
  case Nil
  show ?case
  proof (cases "e = 0")
    case False
    then obtain a where a: "2 ^ (5 - e) dvd a"
      and s: "b32_reads acc (8 - e) out [r * 2 ^ (5 - e)] a (5 - e) (out @ b32_owed (acc mod 2 ^ (8 - e)) r e)"
      using b32_first [of e r 0 acc out] Nil.prems by (auto simp: dvd_eq_mod_eq_0)
    have "b32_loop acc (8 - e) out [B32_ALPHABET ! (r * 2 ^ (5 - e))] = b32_finish a (5 - e) (out @ b32_owed (acc mod 2 ^ (8 - e)) r e)"
      using s [unfolded b32_reads_def, rule_format, of "[]"] by simp
    moreover have "a AND (2 ^ (5 - e) - 1) = 0" "\<not> 5 \<le> 5 - e"
      unfolding and_low using a False by simp_all
    ultimately show ?thesis
      using False Nil.prems by (simp add: b32_finish_def)
  qed (simp add: b32_finish_def b32_owed_def)
next
  case (Cons b bs)
  obtain vs e' where e': "e' < 5" "b32_digits r e (b # bs) = vs @ b32_digits (unat b mod 2 ^ e') e' bs" "b32_byte acc e r out b vs e'"
    using b32_digits_byte [OF Cons.prems] by blast
  then obtain acc' where s: "b32_reads acc ((8 - e) mod 8) out vs acc' ((8 - e') mod 8)
      (out @ b32_owed (acc mod 2 ^ (8 - e)) r e @ (if e' = 0 then [b] else []))"
    and a: "0 < e' \<longrightarrow> acc' mod 2 ^ (8 - e') = unat b div 2 ^ e'"
    unfolding b32_byte_def by blast
  have "word_of_nat (unat b div 2 ^ e' * 2 ^ e' + unat b mod 2 ^ e') = b"
    unfolding div_mult_mod_eq by simp
  then have "b32_owed (acc' mod 2 ^ (8 - e')) (unat b mod 2 ^ e') e' = (if e' = 0 then [] else [b])"
    using a by (simp add: b32_owed_def del: of_nat_add of_nat_mult)
  then show ?case
    using s e' Cons.IH [of e' "unat b mod 2 ^ e'" acc'] by (simp add: b32_reads_def)
qed

lemma base32_decode_encode: "base32_decode (base32_encode bs) = Inr bs"
  using b32_decode_digits [of 0 0 0 "[]" bs] b32_encode_digits [of 0 0 "[]" bs]
  by (simp add: base32_decode_def base32_encode_def b32_owed_def)

section \<open>Properties\<close>

text \<open>
  The three codecs read back what they write, for byte strings of every length: base64 without
  padding, base32 and hexadecimal. In particular the leftover bits of an incomplete group are zero
  and are accepted as such.
\<close>

theorem codecs_roundtrip:
  "base64_decode (base64_encode_unpadded bs) = Inr bs \<and> base32_decode (base32_encode bs) = Inr bs \<and>
   hex_decode (hex_encode bs) = Inr bs"
  by (simp add: base64_decode_encode base32_decode_encode hex_decode_encode)

end
