(* ===== verification/Field_25519.thy ===== *)
theory Field_25519
  imports Tor_Prelude
begin

text \<open>
  The prime field of \<^verbatim>\<open>src/crypto/ed25519_point.rs\<close>: elements of \<open>GF(2\<^sup>2\<^sup>5\<^sup>5 - 19)\<close> in five limbs of 51 bits,
  each in a 64-bit word, with products accumulated in 128-bit words. The words wrap, as Rust's do; the
  lemmas show that with limbs below \<open>2\<^sup>5\<^sup>2\<close> nothing does, so that each operation is the field operation on
  the value its limbs stand for.
\<close>

unbundle bit_operations_syntax

type_synonym u64 = "64 word"
type_synonym u128 = "128 word"

section \<open>Elements\<close>

datatype fe = Fe u64 u64 u64 u64 u64

definition LIMB_MASK :: u64 where "LIMB_MASK = push_bit 51 1 - 1"

definition FE_ZERO :: fe where "FE_ZERO = Fe 0 0 0 0 0"
definition FE_ONE :: fe where "FE_ONE = Fe 1 0 0 0 0"

definition FE_D :: fe where
  "FE_D = Fe 929955233495203 466365720129213 1662059464998953 2033849074728123 1442794654840575"

definition FE_D2 :: fe where
  "FE_D2 = Fe 1859910466990425 932731440258426 1072319116312658 1815898335770999 633789495995903"

definition FE_SQRT_M1 :: fe where
  "FE_SQRT_M1 = Fe 1718705420411056 234908883556509 2233514472574048 2117202627021982 765476049583133"

fun fe_reduce :: "fe \<Rightarrow> fe" where
  "fe_reduce (Fe l0 l1 l2 l3 l4) =
     Fe ((l0 AND LIMB_MASK) + drop_bit 51 l4 * 19)
        ((l1 AND LIMB_MASK) + drop_bit 51 l0)
        ((l2 AND LIMB_MASK) + drop_bit 51 l1)
        ((l3 AND LIMB_MASK) + drop_bit 51 l2)
        ((l4 AND LIMB_MASK) + drop_bit 51 l3)"

fun fe_add :: "fe \<Rightarrow> fe \<Rightarrow> fe" where
  "fe_add (Fe a0 a1 a2 a3 a4) (Fe b0 b1 b2 b3 b4) = fe_reduce (Fe (a0 + b0) (a1 + b1) (a2 + b2) (a3 + b3) (a4 + b4))"

definition P16_LOW :: u64 where "P16_LOW = push_bit 51 16 - 16 * 19"
definition P16_HIGH :: u64 where "P16_HIGH = push_bit 51 16 - 16"

fun fe_sub :: "fe \<Rightarrow> fe \<Rightarrow> fe" where
  "fe_sub (Fe a0 a1 a2 a3 a4) (Fe b0 b1 b2 b3 b4) =
     fe_reduce (Fe (a0 + P16_LOW - b0) (a1 + P16_HIGH - b1) (a2 + P16_HIGH - b2) (a3 + P16_HIGH - b3) (a4 + P16_HIGH - b4))"

definition fe_neg :: "fe \<Rightarrow> fe" where
  "fe_neg a = fe_sub FE_ZERO a"

definition MASK128 :: u128 where "MASK128 = push_bit 51 1 - 1"

definition wide_mul :: "u64 \<Rightarrow> u64 \<Rightarrow> u128" where
  "wide_mul x y = ucast x * ucast y"

text \<open>The carry pass of \<^verbatim>\<open>mul\<close>: the columns are the five sums of products.\<close>

definition fe_carry :: "u128 \<Rightarrow> u128 \<Rightarrow> u128 \<Rightarrow> u128 \<Rightarrow> u128 \<Rightarrow> fe" where
  "fe_carry c0 c1 c2 c3 c4 =
     (let v1 = c1 + drop_bit 51 c0;
          v2 = c2 + drop_bit 51 v1;
          v3 = c3 + drop_bit 51 v2;
          v4 = c4 + drop_bit 51 v3;
          out0 = (ucast (c0 AND MASK128) :: u64) + ucast (drop_bit 51 v4) * 19
      in Fe (out0 AND LIMB_MASK) (ucast (v1 AND MASK128) + drop_bit 51 out0)
            (ucast (v2 AND MASK128)) (ucast (v3 AND MASK128)) (ucast (v4 AND MASK128)))"

fun fe_mul :: "fe \<Rightarrow> fe \<Rightarrow> fe" where
  "fe_mul (Fe a0 a1 a2 a3 a4) (Fe b0 b1 b2 b3 b4) =
     (let b1_19 = b1 * 19; b2_19 = b2 * 19; b3_19 = b3 * 19; b4_19 = b4 * 19; m = wide_mul
      in fe_carry
           (m a0 b0 + m a4 b1_19 + m a3 b2_19 + m a2 b3_19 + m a1 b4_19)
           (m a1 b0 + m a0 b1 + m a4 b2_19 + m a3 b3_19 + m a2 b4_19)
           (m a2 b0 + m a1 b1 + m a0 b2 + m a4 b3_19 + m a3 b4_19)
           (m a3 b0 + m a2 b1 + m a1 b2 + m a0 b3 + m a4 b4_19)
           (m a4 b0 + m a3 b1 + m a2 b2 + m a1 b3 + m a0 b4))"

definition fe_square :: "fe \<Rightarrow> fe" where
  "fe_square a = fe_mul a a"

definition pow2k :: "nat \<Rightarrow> fe \<Rightarrow> fe" where
  "pow2k k a = (fe_square ^^ k) a"

definition pow22501 :: "fe \<Rightarrow> fe \<times> fe" where
  "pow22501 a =
     (let t0 = fe_square a; t1 = pow2k 2 t0; t2 = fe_mul a t1; t3 = fe_mul t0 t2; t4 = fe_square t3;
          t5 = fe_mul t2 t4; t6 = pow2k 5 t5; t7 = fe_mul t6 t5; t8 = pow2k 10 t7; t9 = fe_mul t8 t7;
          t10 = pow2k 20 t9; t11 = fe_mul t10 t9; t12 = pow2k 10 t11; t13 = fe_mul t12 t7;
          t14 = pow2k 50 t13; t15 = fe_mul t14 t13; t16 = pow2k 100 t15; t17 = fe_mul t16 t15;
          t18 = pow2k 50 t17
      in (fe_mul t18 t13, t3))"

definition fe_invert :: "fe \<Rightarrow> fe" where
  "fe_invert a = (case pow22501 a of (t19, t3) \<Rightarrow> fe_mul (pow2k 5 t19) t3)"

definition pow_p58 :: "fe \<Rightarrow> fe" where
  "pow_p58 a = (case pow22501 a of (t19, _) \<Rightarrow> fe_mul (pow2k 2 t19) a)"

section \<open>Bytes\<close>

text \<open>\<^verbatim>\<open>u64::from_le_bytes\<close> of the eight bytes at a position.\<close>

definition le_word :: "nat \<Rightarrow> bytes \<Rightarrow> u64" where
  "le_word at bs = fold (\<lambda>i w. w OR push_bit (8 * i) (ucast (bs ! (at + i)))) [0..<8] 0"

definition fe_from_bytes :: "bytes \<Rightarrow> fe" where
  "fe_from_bytes bs =
     Fe (le_word 0 bs AND LIMB_MASK)
        (drop_bit 3 (le_word 6 bs) AND LIMB_MASK)
        (drop_bit 6 (le_word 12 bs) AND LIMB_MASK)
        (drop_bit 1 (le_word 19 bs) AND LIMB_MASK)
        (drop_bit 12 (le_word 24 bs) AND LIMB_MASK)"

text \<open>Full reduction: \<open>q\<close> is 1 exactly when the value is at least the prime.\<close>

fun fe_quotient :: "fe \<Rightarrow> u64" where
  "fe_quotient (Fe l0 l1 l2 l3 l4) =
     fold (\<lambda>limb q. drop_bit 51 (limb + q)) [l1, l2, l3, l4] (drop_bit 51 (l0 + 19))"

fun fe_freeze :: "fe \<Rightarrow> fe" where
  "fe_freeze (Fe l0 l1 l2 l3 l4) =
     (let k0 = l0 + 19 * fe_quotient (Fe l0 l1 l2 l3 l4);
          k1 = l1 + drop_bit 51 k0;
          k2 = l2 + drop_bit 51 k1;
          k3 = l3 + drop_bit 51 k2;
          k4 = l4 + drop_bit 51 k3
      in Fe (k0 AND LIMB_MASK) (k1 AND LIMB_MASK) (k2 AND LIMB_MASK) (k3 AND LIMB_MASK) (k4 AND LIMB_MASK))"

definition set_bit_at :: "nat \<Rightarrow> bytes \<Rightarrow> bytes" where
  "set_bit_at pos out = out[pos div 8 := out ! (pos div 8) OR push_bit (pos mod 8) 1]"

definition put_limb :: "u64 \<times> nat \<Rightarrow> bytes \<Rightarrow> bytes" where
  "put_limb vc out =
     fold (\<lambda>i out. if drop_bit i (fst vc) AND 1 = 1 then set_bit_at (snd vc + i) out else out) [0..<51] out"

definition fe_to_bytes :: "fe \<Rightarrow> bytes" where
  "fe_to_bytes a =
     (case fe_freeze (fe_reduce a) of
        Fe l0 l1 l2 l3 l4 \<Rightarrow> fold put_limb [(l0, 0), (l1, 51), (l2, 102), (l3, 153), (l4, 204)] (replicate 32 0))"

definition fe_equals :: "fe \<Rightarrow> fe \<Rightarrow> bool" where
  "fe_equals a b \<longleftrightarrow> fe_to_bytes a = fe_to_bytes b"

definition fe_is_zero :: "fe \<Rightarrow> bool" where
  "fe_is_zero a \<longleftrightarrow> fe_to_bytes a = replicate 32 0"

definition fe_is_negative :: "fe \<Rightarrow> bool" where
  "fe_is_negative a \<longleftrightarrow> fe_to_bytes a ! 0 AND 1 = 1"

declare fe_reduce.simps [simp del]

section \<open>What the limbs stand for\<close>

abbreviation radix :: int where "radix \<equiv> 2251799813685248"

definition p25519 :: int where "p25519 = 2 ^ 255 - 19"

fun fe_val :: "fe \<Rightarrow> int" where
  "fe_val (Fe l0 l1 l2 l3 l4) =
     uint l0 + radix * (uint l1 + radix * (uint l2 + radix * (uint l3 + radix * uint l4)))"

text \<open>The field element: the value modulo the prime.\<close>

definition fval :: "fe \<Rightarrow> int" where
  "fval a = fe_val a mod p25519"

text \<open>The bound the operations keep between them.\<close>

fun fe_ok :: "fe \<Rightarrow> bool" where
  "fe_ok (Fe l0 l1 l2 l3 l4) \<longleftrightarrow>
     uint l0 < 2 * radix \<and> uint l1 < 2 * radix \<and> uint l2 < 2 * radix \<and> uint l3 < 2 * radix \<and> uint l4 < 2 * radix"

named_theorems limb_simps \<open>word operations on limbs as integer operations\<close>

lemma radix_pow [simp]: "radix ^ 5 = p25519 + 19"
  by (simp add: p25519_def)

lemma p25519_pos [simp]: "0 < p25519" "p25519 \<noteq> 0"
  by (simp_all add: p25519_def)

lemma LIMB_MASK_eq [limb_simps]: "w AND LIMB_MASK = take_bit 51 w"
  by (simp add: LIMB_MASK_def take_bit_eq_mask mask_eq_exp_minus_1 push_bit_eq_mult)

lemma MASK128_eq [limb_simps]: "w AND MASK128 = take_bit 51 w"
  by (simp add: MASK128_def take_bit_eq_mask mask_eq_exp_minus_1 push_bit_eq_mult)

lemma uint_low [limb_simps]:
  "uint (take_bit 51 (w :: u64)) = uint w mod radix" "uint (take_bit 51 (v :: u128)) = uint v mod radix"
  by (simp_all only: unsigned_take_bit_eq) (simp_all add: take_bit_eq_mod)

lemma uint_high [limb_simps]:
  "uint (drop_bit 51 (w :: u64)) = uint w div radix" "uint (drop_bit 51 (v :: u128)) = uint v div radix"
  by (simp_all only: unsigned_drop_bit_eq) (simp_all add: bintr_uint drop_bit_eq_div)

lemma uint64_bound [simp]: "uint (w :: u64) < 18446744073709551616" "0 \<le> uint w"
  using uint_bounded [of w] by simp_all

lemma uint64_add: "uint a + uint b < 18446744073709551616 \<Longrightarrow> uint (a + b :: u64) = uint a + uint b"
  using uint_add_lem [of a b] by simp

lemma uint64_mult19: "uint a * 19 < 18446744073709551616 \<Longrightarrow> uint (a * 19 :: u64) = uint a * 19"
  "uint a * 19 < 18446744073709551616 \<Longrightarrow> uint (19 * a :: u64) = 19 * uint a"
  using uint_mult_lem [of a 19] by (simp_all add: mult.commute)

lemma uint128_add:
  "uint a + uint b < 340282366920938463463374607431768211456 \<Longrightarrow> uint (a + b :: u128) = uint a + uint b"
  using uint_add_lem [of a b] by simp

lemma uint_wide_mul [limb_simps]: "uint (wide_mul x y) = uint x * uint y"
proof -
  have "uint x * uint y \<le> 18446744073709551615 * 18446744073709551615"
    by (rule mult_mono) (use uint64_bound [of x] uint64_bound [of y] in linarith)+
  then have "uint x * uint y < 340282366920938463463374607431768211456"
    by linarith
  moreover have "uint (ucast x :: u128) = uint x" "uint (ucast y :: u128) = uint y"
    using uint64_bound [of x] uint64_bound [of y] by (simp_all add: unsigned_ucast_eq take_bit_int_eq_self del: uint64_bound)
  ultimately show ?thesis
    using uint_mult_lem [of "ucast x :: u128" "ucast y"] by (simp add: wide_mul_def)
qed

lemma uint_narrow:
  assumes "uint (v :: u128) < 18446744073709551616"
  shows "uint (ucast v :: u64) = uint v"
  using assms by (simp add: unsigned_ucast_eq take_bit_int_eq_self)

section \<open>Reduction, addition, subtraction\<close>

lemma div_less:
  fixes x :: int
  assumes "x < d * n" and "0 < d"
  shows "x div d < n"
  using assms by (metis minus_mult_div_eq_mod mult_less_cancel_left_pos not_less order_less_le_trans pos_mod_sign diff_ge_0_iff_ge)

lemma carry_bound: "0 \<le> uint (w :: u64) div radix \<and> uint w div radix \<le> 8191"
proof -
  have "uint w div radix < 8192"
    by (rule div_less) simp_all
  then show ?thesis
    by (simp add: pos_imp_zdiv_nonneg_iff)
qed

lemma uint_reduced [limb_simps]:
  "uint (take_bit 51 a + drop_bit 51 (b :: u64)) = uint a mod radix + uint b div radix"
  "uint (take_bit 51 a + drop_bit 51 b * 19) = uint a mod radix + 19 * (uint b div radix)"
proof -
  have "uint (drop_bit 51 b * 19) = 19 * (uint b div radix)"
    using carry_bound [of b] by (subst uint64_mult19) (simp_all add: uint_high)
  moreover have "uint a mod radix < radix"
    by (rule pos_mod_bound) simp
  ultimately show "uint (take_bit 51 a + drop_bit 51 b) = uint a mod radix + uint b div radix"
    "uint (take_bit 51 a + drop_bit 51 b * 19) = uint a mod radix + 19 * (uint b div radix)"
    using carry_bound [of b] by (subst uint64_add; simp add: uint_low uint_high; linarith)+
qed

text \<open>Carrying moves multiples of the radix up, and the top carry leaves as a multiple of the prime.\<close>

lemma carry_identity:
  fixes l0 l1 l2 l3 l4 q0 q1 q2 q3 q4 :: int
  assumes "l0 = radix * q0 + r0" "l1 = radix * q1 + r1" "l2 = radix * q2 + r2" "l3 = radix * q3 + r3" "l4 = radix * q4 + r4"
  shows "r0 + 19 * q4 + radix * (r1 + q0 + radix * (r2 + q1 + radix * (r3 + q2 + radix * (r4 + q3))))
       = l0 + radix * (l1 + radix * (l2 + radix * (l3 + radix * l4))) - p25519 * q4"
  by (simp add: assms p25519_def algebra_simps)

lemma fe_val_reduce:
  "fe_val (fe_reduce (Fe l0 l1 l2 l3 l4)) = fe_val (Fe l0 l1 l2 l3 l4) - p25519 * (uint l4 div radix)"
  unfolding fe_reduce.simps fe_val.simps LIMB_MASK_eq uint_reduced
  by (rule carry_identity) (simp_all add: mult.commute)

lemma mod_minus_multiple: "(x - p * k) mod p = x mod (p :: int)"
  using mod_mult_self2 [of x p "- k"] by simp

lemma fval_reduce [simp]: "fval (fe_reduce a) = fval a"
  by (cases a) (simp only: fval_def fe_val_reduce mod_minus_multiple)

lemma fe_reduce_ok [simp]: "fe_ok (fe_reduce a)"
proof (cases a)
  case (Fe l0 l1 l2 l3 l4)
  have "uint x mod radix + uint y div radix < 2 * radix \<and> uint x mod radix + 19 * (uint y div radix) < 2 * radix" for x y :: u64
    using carry_bound [of y] pos_mod_bound [of radix "uint x"] by linarith
  then show ?thesis
    by (simp add: Fe fe_reduce.simps limb_simps)
qed

lemma fe_add_ok [simp]: "fe_ok (fe_add a b)"
  by (cases a; cases b) simp

lemma fval_add:
  assumes "fe_ok a" and "fe_ok b"
  shows "fval (fe_add a b) = (fval a + fval b) mod p25519"
proof (cases a; cases b)
  fix a0 a1 a2 a3 a4 b0 b1 b2 b3 b4
  assume eq: "a = Fe a0 a1 a2 a3 a4" "b = Fe b0 b1 b2 b3 b4"
  have "fe_val (Fe (a0 + b0) (a1 + b1) (a2 + b2) (a3 + b3) (a4 + b4)) = fe_val a + fe_val b"
    using assms by (simp add: eq uint64_add algebra_simps)
  then show ?thesis
    by (simp add: eq) (simp add: fval_def mod_simps)
qed

lemma fe_sub_ok [simp]: "fe_ok (fe_sub a b)"
  by (cases a; cases b) simp

lemma uint_sub_limb:
  assumes "uint (a :: u64) < 2 * radix" and "uint b < 2 * radix"
  shows "uint (a + P16_LOW - b) = uint a + (16 * radix - 304) - uint b"
    and "uint (a + P16_HIGH - b) = uint a + (16 * radix - 16) - uint b"
proof -
  have p: "uint P16_LOW = 16 * radix - 304" "uint P16_HIGH = 16 * radix - 16"
    by (simp_all add: P16_LOW_def P16_HIGH_def push_bit_eq_mult)
  have s: "uint (a + P16_LOW) = uint a + (16 * radix - 304)" "uint (a + P16_HIGH) = uint a + (16 * radix - 16)"
    using assms by (simp_all add: uint64_add p)
  show "uint (a + P16_LOW - b) = uint a + (16 * radix - 304) - uint b"
    "uint (a + P16_HIGH - b) = uint a + (16 * radix - 16) - uint b"
    using assms uint_sub_lem [of b "a + P16_LOW"] uint_sub_lem [of b "a + P16_HIGH"] uint64_bound(2) [of a]
    unfolding s by linarith+
qed

lemma fval_sub:
  assumes "fe_ok a" and "fe_ok b"
  shows "fval (fe_sub a b) = (fval a - fval b) mod p25519"
proof (cases a; cases b)
  fix a0 a1 a2 a3 a4 b0 b1 b2 b3 b4
  assume eq: "a = Fe a0 a1 a2 a3 a4" "b = Fe b0 b1 b2 b3 b4"
  have "fe_val (Fe (a0 + P16_LOW - b0) (a1 + P16_HIGH - b1) (a2 + P16_HIGH - b2) (a3 + P16_HIGH - b3) (a4 + P16_HIGH - b4))
      = fe_val a - fe_val b + p25519 * 16"
    using assms by (simp add: eq uint_sub_limb) (simp add: p25519_def algebra_simps)
  then show ?thesis
    by (simp add: eq) (simp add: fval_def mod_simps)
qed

lemma fval_neg: "fe_ok a \<Longrightarrow> fval (fe_neg a) = (- fval a) mod p25519"
  by (simp add: fe_neg_def fval_sub FE_ZERO_def) (simp add: fval_def mod_simps)

lemma fe_neg_ok [simp]: "fe_ok (fe_neg a)"
  by (simp add: fe_neg_def)

section \<open>Multiplication\<close>

lemma carry_chain:
  fixes c0 c1 c2 c3 c4 q0 q1 q2 q3 q4 :: int
  assumes "c0 = radix * q0 + r0" "c1 + q0 = radix * q1 + r1" "c2 + q1 = radix * q2 + r2"
    "c3 + q2 = radix * q3 + r3" "c4 + q3 = radix * q4 + r4" "r0 + 19 * q4 = radix * k + s"
  shows "s + radix * (r1 + k + radix * (r2 + radix * (r3 + radix * r4)))
       = c0 + radix * (c1 + radix * (c2 + radix * (c3 + radix * c4))) - p25519 * q4"
  using assms unfolding p25519_def by simp

lemma div_bounds: "0 \<le> x \<Longrightarrow> x < radix * n \<Longrightarrow> 0 \<le> x div radix \<and> x div radix < n"
  by (simp add: div_less pos_imp_zdiv_nonneg_iff)

lemma wide_step:
  fixes c v :: u128
  assumes "uint c < 2 ^ 113" and "uint v < 2 ^ 114"
  shows "uint (c + drop_bit 51 v) = uint c + uint v div radix" and "uint (c + drop_bit 51 v) < 2 ^ 114"
proof -
  have "0 \<le> uint v div radix" "uint v div radix < 2 ^ 63"
    using div_bounds [of "uint v" "2 ^ 63"] assms(2) by simp_all
  then show "uint (c + drop_bit 51 v) = uint c + uint v div radix" "uint (c + drop_bit 51 v) < 2 ^ 114"
    using assms(1) by (simp_all add: uint128_add uint_high)
qed

lemma uint_narrow_low [limb_simps]: "uint (ucast (take_bit 51 (v :: u128)) :: u64) = uint v mod radix"
  using pos_mod_bound [of radix "uint v"] by (simp add: uint_narrow uint_low)

lemma out0_value:
  fixes c v :: u128
  assumes "uint v < 2 ^ 108"
  shows "uint ((ucast (take_bit 51 c) :: u64) + ucast (drop_bit 51 v) * 19) = uint c mod radix + 19 * (uint v div radix)"
proof -
  have q: "0 \<le> uint v div radix" "uint v div radix < 2 ^ 57"
    using div_bounds [of "uint v" "2 ^ 57"] assms by simp_all
  then have "uint (ucast (drop_bit 51 v) :: u64) = uint v div radix"
    by (simp add: uint_narrow uint_high)
  then have "uint ((ucast (drop_bit 51 v) :: u64) * 19) = 19 * (uint v div radix)"
    using q by (simp add: uint64_mult19)
  then show ?thesis
    using q pos_mod_bound [of radix "uint c"] by (simp add: uint64_add uint_narrow_low)
qed

lemma fe_carry_correct:
  fixes c0 c1 c2 c3 c4 :: u128
  assumes "uint c0 < 2 ^ 113" "uint c1 < 2 ^ 113" "uint c2 < 2 ^ 113" "uint c3 < 2 ^ 113" "uint c4 < 2 ^ 107"
  shows "fval (fe_carry c0 c1 c2 c3 c4) =
       (uint c0 + radix * (uint c1 + radix * (uint c2 + radix * (uint c3 + radix * uint c4)))) mod p25519"
    and "fe_ok (fe_carry c0 c1 c2 c3 c4)"
proof -
  define v1 where "v1 = c1 + drop_bit 51 c0"
  define v2 where "v2 = c2 + drop_bit 51 v1"
  define v3 where "v3 = c3 + drop_bit 51 v2"
  define v4 where "v4 = c4 + drop_bit 51 v3"
  define out0 where "out0 = (ucast (take_bit 51 c0) :: u64) + ucast (drop_bit 51 v4) * 19"
  have v1: "uint v1 = uint c1 + uint c0 div radix" "uint v1 < 2 ^ 114"
    unfolding v1_def using assms(1,2) by (intro wide_step; simp)+
  have v2: "uint v2 = uint c2 + uint v1 div radix" "uint v2 < 2 ^ 114"
    unfolding v2_def using assms(3) v1(2) by (intro wide_step; simp)+
  have v3: "uint v3 = uint c3 + uint v2 div radix" "uint v3 < 2 ^ 114"
    unfolding v3_def using assms(4) v2(2) by (intro wide_step; simp)+
  have v4: "uint v4 = uint c4 + uint v3 div radix"
    unfolding v4_def using assms(5) v3(2) by (intro wide_step; simp)
  have v4_bound: "uint v4 < 2 ^ 108"
    using v4 assms(5) div_bounds [of "uint v3" "2 ^ 63"] v3(2) by simp
  have out0: "uint out0 = uint c0 mod radix + 19 * (uint v4 div radix)"
    unfolding out0_def using v4_bound by (rule out0_value)
  have fe: "fe_carry c0 c1 c2 c3 c4 =
      Fe (take_bit 51 out0) (ucast (take_bit 51 v1) + drop_bit 51 out0)
         (ucast (take_bit 51 v2)) (ucast (take_bit 51 v3)) (ucast (take_bit 51 v4))"
    by (simp add: fe_carry_def Let_def limb_simps v1_def v2_def v3_def v4_def out0_def)
  have l1: "uint ((ucast (take_bit 51 v1) :: u64) + drop_bit 51 out0) = uint v1 mod radix + uint out0 div radix"
    using carry_bound [of out0] pos_mod_bound [of radix "uint v1"]
    by (subst uint64_add; simp add: uint_narrow_low uint_high; linarith)
  have "fe_val (fe_carry c0 c1 c2 c3 c4) =
      uint c0 + radix * (uint c1 + radix * (uint c2 + radix * (uint c3 + radix * uint c4))) - p25519 * (uint v4 div radix)"
    unfolding fe fe_val.simps l1 uint_low uint_narrow_low
    by (rule carry_chain) (simp_all only: v1 v2 v3 v4 out0 mult_div_mod_eq)
  then show "fval (fe_carry c0 c1 c2 c3 c4) =
       (uint c0 + radix * (uint c1 + radix * (uint c2 + radix * (uint c3 + radix * uint c4)))) mod p25519"
    by (simp only: fval_def mod_minus_multiple)
  have "uint (x :: u128) mod radix < radix" "uint (y :: u64) mod radix < radix" for x y
    by (simp_all add: pos_mod_bound)
  then show "fe_ok (fe_carry c0 c1 c2 c3 c4)"
    unfolding fe fe_ok.simps l1 uint_low uint_narrow_low using carry_bound [of out0] by (smt (verit))
qed

text \<open>The columns of the schoolbook product, with \<open>radix ^ 5 = 19\<close> modulo the prime.\<close>

lemma product_identity:
  fixes a0 a1 a2 a3 a4 b0 b1 b2 b3 b4 r p :: int
  assumes "r * (r * (r * (r * r))) = p + 19"
  shows "(a0 * b0 + a4 * (b1 * 19) + a3 * (b2 * 19) + a2 * (b3 * 19) + a1 * (b4 * 19)
      + r * (a1 * b0 + a0 * b1 + a4 * (b2 * 19) + a3 * (b3 * 19) + a2 * (b4 * 19)
      + r * (a2 * b0 + a1 * b1 + a0 * b2 + a4 * (b3 * 19) + a3 * (b4 * 19)
      + r * (a3 * b0 + a2 * b1 + a1 * b2 + a0 * b3 + a4 * (b4 * 19)
      + r * (a4 * b0 + a3 * b1 + a2 * b2 + a1 * b3 + a0 * b4)))))
    = (a0 + r * (a1 + r * (a2 + r * (a3 + r * a4)))) * (b0 + r * (b1 + r * (b2 + r * (b3 + r * b4))))
      - p * (a4 * b1 + a3 * b2 + a2 * b3 + a1 * b4 + r * (a4 * b2 + a3 * b3 + a2 * b4 + r * (a4 * b3 + a3 * b4 + r * (a4 * b4))))"
  using assms by algebra

lemma uint_sum5:
  fixes x1 x2 x3 x4 x5 :: u128
  assumes "uint x1 < 2 ^ 110" "uint x2 < 2 ^ 110" "uint x3 < 2 ^ 110" "uint x4 < 2 ^ 110" "uint x5 < 2 ^ 110"
  shows "uint (x1 + x2 + x3 + x4 + x5) = uint x1 + uint x2 + uint x3 + uint x4 + uint x5"
    and "uint (x1 + x2 + x3 + x4 + x5) < 2 ^ 113"
  using assms by (simp_all add: uint128_add)

lemma sum5_small:
  fixes x1 x2 x3 x4 x5 :: u128
  assumes "uint x1 < 2 ^ 104" "uint x2 < 2 ^ 104" "uint x3 < 2 ^ 104" "uint x4 < 2 ^ 104" "uint x5 < 2 ^ 104"
  shows "uint (x1 + x2 + x3 + x4 + x5) < 2 ^ 107"
  using assms by (simp add: uint128_add)

lemma limb_product:
  fixes x y :: u64
  assumes "uint x < 2 * radix" and "uint y < 2 * radix"
  shows "uint (wide_mul x y) < 2 ^ 104" and "uint (wide_mul x (y * 19)) < 2 ^ 110"
    and "uint (wide_mul x (y * 19)) = uint x * (uint y * 19)"
proof -
  show eq: "uint (wide_mul x (y * 19)) = uint x * (uint y * 19)"
    using assms(2) by (simp add: uint_wide_mul uint64_mult19)
  have le: "uint x * uint y \<le> (2 * radix - 1) * (2 * radix - 1)"
    by (rule mult_mono) (use assms in simp_all)
  then show "uint (wide_mul x y) < 2 ^ 104"
    by (simp add: uint_wide_mul)
  show "uint (wide_mul x (y * 19)) < 2 ^ 110"
    using le unfolding eq by simp
qed

lemma fe_mul_correct:
  assumes "fe_ok a" and "fe_ok b"
  shows "fval (fe_mul a b) = (fval a * fval b) mod p25519 \<and> fe_ok (fe_mul a b)"
proof (cases a; cases b)
  fix a0 a1 a2 a3 a4 b0 b1 b2 b3 b4
  assume eq: "a = Fe a0 a1 a2 a3 a4" "b = Fe b0 b1 b2 b3 b4"
  let ?c0 = "wide_mul a0 b0 + wide_mul a4 (b1 * 19) + wide_mul a3 (b2 * 19) + wide_mul a2 (b3 * 19) + wide_mul a1 (b4 * 19)"
  let ?c1 = "wide_mul a1 b0 + wide_mul a0 b1 + wide_mul a4 (b2 * 19) + wide_mul a3 (b3 * 19) + wide_mul a2 (b4 * 19)"
  let ?c2 = "wide_mul a2 b0 + wide_mul a1 b1 + wide_mul a0 b2 + wide_mul a4 (b3 * 19) + wide_mul a3 (b4 * 19)"
  let ?c3 = "wide_mul a3 b0 + wide_mul a2 b1 + wide_mul a1 b2 + wide_mul a0 b3 + wide_mul a4 (b4 * 19)"
  let ?c4 = "wide_mul a4 b0 + wide_mul a3 b1 + wide_mul a2 b2 + wide_mul a1 b3 + wide_mul a0 b4"
  note ok = assms [unfolded eq fe_ok.simps]
  have small: "uint (wide_mul x y) < 2 ^ 104" "uint (wide_mul x y) < 2 ^ 110"
    if "uint x < 2 * radix" "uint y < 2 * radix" for x y
    using limb_product(1) [OF that] by simp_all
  have b19: "uint (b1 * 19) = uint b1 * 19" "uint (b2 * 19) = uint b2 * 19" "uint (b3 * 19) = uint b3 * 19" "uint (b4 * 19) = uint b4 * 19"
    using ok by (simp_all add: uint64_mult19)
  have c: "uint ?c0 = uint a0 * uint b0 + uint a4 * (uint b1 * 19) + uint a3 * (uint b2 * 19) + uint a2 * (uint b3 * 19) + uint a1 * (uint b4 * 19)"
    "uint ?c1 = uint a1 * uint b0 + uint a0 * uint b1 + uint a4 * (uint b2 * 19) + uint a3 * (uint b3 * 19) + uint a2 * (uint b4 * 19)"
    "uint ?c2 = uint a2 * uint b0 + uint a1 * uint b1 + uint a0 * uint b2 + uint a4 * (uint b3 * 19) + uint a3 * (uint b4 * 19)"
    "uint ?c3 = uint a3 * uint b0 + uint a2 * uint b1 + uint a1 * uint b2 + uint a0 * uint b3 + uint a4 * (uint b4 * 19)"
    "uint ?c4 = uint a4 * uint b0 + uint a3 * uint b1 + uint a2 * uint b2 + uint a1 * uint b3 + uint a0 * uint b4"
    by (rule uint_sum5(1) [THEN trans]; (intro limb_product(2) small; simp only: ok)?; simp only: uint_wide_mul b19)+
  have bound: "uint ?c0 < 2 ^ 113" "uint ?c1 < 2 ^ 113" "uint ?c2 < 2 ^ 113" "uint ?c3 < 2 ^ 113" "uint ?c4 < 2 ^ 107"
    using ok by (intro uint_sum5(2) sum5_small limb_product(2) small; simp only: ok)+
  note carried = fe_carry_correct [OF bound]
  have mul: "fe_mul a b = fe_carry ?c0 ?c1 ?c2 ?c3 ?c4"
    by (simp add: eq Let_def)
  have wrap: "radix * (radix * (radix * (radix * radix))) = p25519 + 19"
    by (simp add: p25519_def)
  have "fval (fe_carry ?c0 ?c1 ?c2 ?c3 ?c4) = (fe_val (Fe a0 a1 a2 a3 a4) * fe_val (Fe b0 b1 b2 b3 b4)) mod p25519"
    unfolding carried(1) c product_identity [OF wrap] mod_minus_multiple fe_val.simps ..
  then have "fval (fe_mul a b) = (fe_val a * fe_val b) mod p25519"
    by (simp only: mul) (simp only: eq)
  then show "fval (fe_mul a b) = (fval a * fval b) mod p25519 \<and> fe_ok (fe_mul a b)"
    using carried(2) by (simp add: mul fval_def mod_simps)
qed

lemma fval_mul: "fe_ok a \<Longrightarrow> fe_ok b \<Longrightarrow> fval (fe_mul a b) = (fval a * fval b) mod p25519"
  by (simp add: fe_mul_correct)

lemma fe_mul_ok [simp]: "fe_ok a \<Longrightarrow> fe_ok b \<Longrightarrow> fe_ok (fe_mul a b)"
  by (simp add: fe_mul_correct)

lemma fe_square_ok [simp]: "fe_ok a \<Longrightarrow> fe_ok (fe_square a)"
  by (simp add: fe_square_def)

lemmas field_simps_25519 = fval_add fval_sub fval_neg fval_mul

section \<open>Exponent chains\<close>

text \<open>An element that stands for a power of another.\<close>

definition fe_power :: "fe \<Rightarrow> nat \<Rightarrow> fe \<Rightarrow> bool" where
  "fe_power a n x \<longleftrightarrow> fe_ok x \<and> fval x = fval a ^ n mod p25519"

lemma fval_range [simp]: "0 \<le> fval a" "fval a < p25519" "fval a mod p25519 = fval a"
  by (simp_all add: fval_def)

lemma fe_power_one: "fe_ok a \<Longrightarrow> fe_power a 1 a"
  by (simp add: fe_power_def)

lemma fe_power_mul: "fe_power a m x \<Longrightarrow> fe_power a n y \<Longrightarrow> fe_power a (m + n) (fe_mul x y)"
  by (simp add: fe_power_def fval_mul mod_simps power_add)

lemma fe_power_square: "fe_power a m x \<Longrightarrow> fe_power a (2 * m) (fe_square x)"
  using fe_power_mul [of a m x m x] by (simp add: fe_square_def mult_2)

lemma fe_power_pow2k: "fe_power a m x \<Longrightarrow> fe_power a (2 ^ k * m) (pow2k k x)"
proof (induction k)
  case (Suc k)
  then show ?case
    using fe_power_square [of a "2 ^ k * m" "pow2k k x"] by (simp add: pow2k_def mult.assoc)
qed (simp add: pow2k_def)

lemma pow22501_power:
  assumes "fe_ok a" and "pow22501 a = (t19, t3)"
  shows "fe_power a (2 ^ 250 - 1) t19" and "fe_power a 11 t3"
proof -
  have one: "fe_power a 1 a"
    using assms(1) by (rule fe_power_one)
  note t0 = fe_power_square [OF one]
  note t2 = fe_power_mul [OF one fe_power_pow2k [OF t0, of 2]]
  note t3 = fe_power_mul [OF t0 t2]
  note t5 = fe_power_mul [OF t2 fe_power_square [OF t3]]
  note t7 = fe_power_mul [OF fe_power_pow2k [OF t5, of 5] t5]
  note t9 = fe_power_mul [OF fe_power_pow2k [OF t7, of 10] t7]
  note t11 = fe_power_mul [OF fe_power_pow2k [OF t9, of 20] t9]
  note t13 = fe_power_mul [OF fe_power_pow2k [OF t11, of 10] t7]
  note t15 = fe_power_mul [OF fe_power_pow2k [OF t13, of 50] t13]
  note t17 = fe_power_mul [OF fe_power_pow2k [OF t15, of 100] t15]
  note t19 = fe_power_mul [OF fe_power_pow2k [OF t17, of 50] t13]
  show "fe_power a (2 ^ 250 - 1) t19" "fe_power a 11 t3"
    using t19 t3 assms(2) [symmetric] by (simp_all add: pow22501_def Let_def)
qed

lemma fe_invert_power: "fe_ok a \<Longrightarrow> fe_power a (nat (p25519 - 2)) (fe_invert a)"
proof -
  assume "fe_ok a"
  obtain t19 t3 where t: "pow22501 a = (t19, t3)" by fastforce
  have "nat (p25519 - 2) = 2 ^ 5 * (2 ^ 250 - 1) + 11"
    by (simp add: p25519_def)
  then show "fe_power a (nat (p25519 - 2)) (fe_invert a)"
    using fe_power_mul [OF fe_power_pow2k [OF pow22501_power(1) [OF \<open>fe_ok a\<close> t]] pow22501_power(2) [OF \<open>fe_ok a\<close> t], of 5]
    by (simp only: fe_invert_def t prod.case)
qed

lemma pow_p58_power: "fe_ok a \<Longrightarrow> fe_power a (nat ((p25519 - 5) div 8)) (pow_p58 a)"
proof -
  assume "fe_ok a"
  obtain t19 t3 where t: "pow22501 a = (t19, t3)" by fastforce
  have "nat ((p25519 - 5) div 8) = 2 ^ 2 * (2 ^ 250 - 1) + 1"
    by (simp add: p25519_def)
  then show "fe_power a (nat ((p25519 - 5) div 8)) (pow_p58 a)"
    using fe_power_mul [OF fe_power_pow2k [OF pow22501_power(1) [OF \<open>fe_ok a\<close> t]] fe_power_one [OF \<open>fe_ok a\<close>], of 2]
    by (simp only: pow_p58_def t prod.case)
qed

section \<open>The canonical encoding\<close>

text \<open>A value carried through five limbs: what stays below \<open>2\<^sup>2\<^sup>5\<^sup>5\<close>, and what leaves at the top.\<close>

fun carried :: "int \<Rightarrow> int \<Rightarrow> int \<Rightarrow> int \<Rightarrow> int \<Rightarrow> int" where
  "carried x0 x1 x2 x3 x4 = (x4 + (x3 + (x2 + (x1 + x0 div radix) div radix) div radix) div radix) div radix"

fun kept :: "int \<Rightarrow> int \<Rightarrow> int \<Rightarrow> int \<Rightarrow> int \<Rightarrow> int" where
  "kept x0 x1 x2 x3 x4 =
     (let y1 = x1 + x0 div radix; y2 = x2 + y1 div radix; y3 = x3 + y2 div radix; y4 = x4 + y3 div radix
      in x0 mod radix + radix * (y1 mod radix + radix * (y2 mod radix + radix * (y3 mod radix + radix * (y4 mod radix)))))"

lemma kept_chain:
  fixes c0 c1 c2 c3 c4 q0 q1 q2 q3 q4 :: int
  assumes "c0 = radix * q0 + r0" "c1 + q0 = radix * q1 + r1" "c2 + q1 = radix * q2 + r2"
    "c3 + q2 = radix * q3 + r3" "c4 + q3 = radix * q4 + r4"
  shows "c0 + radix * (c1 + radix * (c2 + radix * (c3 + radix * c4)))
       = r0 + radix * (r1 + radix * (r2 + radix * (r3 + radix * r4))) + 2 ^ 255 * q4"
  using assms by simp

lemma digits_range:
  fixes r0 r1 r2 r3 r4 :: int
  assumes "0 \<le> r0" "r0 < radix" "0 \<le> r1" "r1 < radix" "0 \<le> r2" "r2 < radix" "0 \<le> r3" "r3 < radix" "0 \<le> r4" "r4 < radix"
  shows "0 \<le> r0 + radix * (r1 + radix * (r2 + radix * (r3 + radix * r4)))"
    and "r0 + radix * (r1 + radix * (r2 + radix * (r3 + radix * r4))) < 2 ^ 255"
  using assms by simp_all

lemma carried_kept:
  "x0 + radix * (x1 + radix * (x2 + radix * (x3 + radix * x4))) = kept x0 x1 x2 x3 x4 + 2 ^ 255 * carried x0 x1 x2 x3 x4"
  "0 \<le> kept x0 x1 x2 x3 x4" "kept x0 x1 x2 x3 x4 < 2 ^ 255"
proof -
  define y1 where "y1 = x1 + x0 div radix"
  define y2 where "y2 = x2 + y1 div radix"
  define y3 where "y3 = x3 + y2 div radix"
  define y4 where "y4 = x4 + y3 div radix"
  have range: "0 \<le> x mod radix" "x mod radix < radix" for x :: int
    by simp_all
  have k: "kept x0 x1 x2 x3 x4 =
      x0 mod radix + radix * (y1 mod radix + radix * (y2 mod radix + radix * (y3 mod radix + radix * (y4 mod radix))))"
    and c: "carried x0 x1 x2 x3 x4 = y4 div radix"
    by (simp_all add: Let_def y1_def y2_def y3_def y4_def)
  show "x0 + radix * (x1 + radix * (x2 + radix * (x3 + radix * x4))) = kept x0 x1 x2 x3 x4 + 2 ^ 255 * carried x0 x1 x2 x3 x4"
    unfolding k c by (rule kept_chain) (simp_all only: y1_def y2_def y3_def y4_def mult_div_mod_eq)
  show "0 \<le> kept x0 x1 x2 x3 x4" "kept x0 x1 x2 x3 x4 < 2 ^ 255"
    unfolding k by (rule digits_range; rule range)+
qed

text \<open>After a reduction the limbs exceed the radix by little, so that the value is below twice the prime.\<close>

fun fe_tight :: "fe \<Rightarrow> bool" where
  "fe_tight (Fe l0 l1 l2 l3 l4) \<longleftrightarrow>
     uint l0 < radix + 19 \<and> uint l1 \<le> radix \<and> uint l2 \<le> radix \<and> uint l3 \<le> radix \<and> uint l4 \<le> radix"

lemma fe_reduce_tight: "fe_ok a \<Longrightarrow> fe_tight (fe_reduce a)"
proof (cases a)
  case (Fe l0 l1 l2 l3 l4)
  assume ok: "fe_ok a"
  have "uint x mod radix + uint y div radix \<le> radix \<and> uint x mod radix + 19 * (uint y div radix) < radix + 19"
    if "uint y < 2 * radix" for x y :: u64
  proof -
    have "uint y div radix < 2" "uint x mod radix < radix"
      using div_bounds [of "uint y" 2] that by simp_all
    then show ?thesis by linarith
  qed
  then show ?thesis
    using ok by (simp add: Fe fe_reduce.simps limb_simps)
qed

lemma uint_limb_carry:
  assumes "uint (l :: u64) < 4 * radix" and "uint q < 4 * radix"
  shows "uint (l + drop_bit 51 q) = uint l + uint q div radix"
    and "uint (l + drop_bit 51 q) \<le> uint l + 3"
  using div_bounds [of "uint q" 4] assms by (simp_all add: uint64_add uint_high)

lemma fe_quotient_value:
  assumes "fe_tight (Fe l0 l1 l2 l3 l4)"
  shows "uint (fe_quotient (Fe l0 l1 l2 l3 l4)) = carried (uint l0 + 19) (uint l1) (uint l2) (uint l3) (uint l4)"
proof -
  have step: "uint (drop_bit 51 (l + q)) = (uint l + uint q) div radix \<and> uint (drop_bit 51 (l + q)) < 4"
    if "uint l \<le> 2 * radix" "uint q < radix" for l q :: u64
    using that div_bounds [of "uint l + uint q" 4] by (simp add: uint_high uint64_add)
  have z: "uint (drop_bit 51 (l0 + 19)) = (uint l0 + 19) div radix \<and> uint (drop_bit 51 (l0 + 19)) < 4"
    using assms step [of l0 19] by simp
  define q1 where "q1 = drop_bit 51 (l1 + drop_bit 51 (l0 + 19))"
  define q2 where "q2 = drop_bit 51 (l2 + q1)"
  define q3 where "q3 = drop_bit 51 (l3 + q2)"
  have q1: "uint q1 = (uint l1 + (uint l0 + 19) div radix) div radix \<and> uint q1 < 4"
    using assms step [of l1 "drop_bit 51 (l0 + 19)"] z by (simp add: q1_def)
  have q2: "uint q2 = (uint l2 + uint q1) div radix \<and> uint q2 < 4"
    using assms step [of l2 q1] q1 by (simp add: q2_def)
  have q3: "uint q3 = (uint l3 + uint q2) div radix \<and> uint q3 < 4"
    using assms step [of l3 q2] q2 by (simp add: q3_def)
  have "uint (drop_bit 51 (l4 + q3)) = (uint l4 + uint q3) div radix"
    using assms step [of l4 q3] q3 by simp
  moreover have "fe_quotient (Fe l0 l1 l2 l3 l4) = drop_bit 51 (l4 + q3)"
    by (simp add: q1_def q2_def q3_def)
  moreover have "carried (uint l0 + 19) (uint l1) (uint l2) (uint l3) (uint l4) = (uint l4 + uint q3) div radix"
    unfolding carried.simps using q1 q2 q3 by presburger
  ultimately show ?thesis
    by presburger
qed

lemma div_by_sizes:
  fixes k c m :: int
  assumes "x = k + m * c" and "0 \<le> k" "k < m"
  shows "x div m = c" and "x mod m = k"
  using assms by (simp_all add: div_pos_pos_trivial)

text \<open>The quotient is right: the final carry takes off as many primes as the value holds.\<close>

lemma freeze_arithmetic:
  fixes v q k k' c' :: int
  assumes "v + 19 = k + 2 ^ 255 * q" "0 \<le> k" "k < 2 ^ 255" and "0 \<le> v" "v < 2 * p25519" and "0 \<le> q"
    and "v + 19 * q = k' + 2 ^ 255 * c'" "0 \<le> k'" "k' < 2 ^ 255"
  shows "q \<le> 1" and "k' = v mod p25519"
proof -
  have "q < 2"
  proof (rule ccontr)
    assume "\<not> q < 2"
    then have "2 ^ 255 * 2 \<le> 2 ^ 255 * q" by simp
    then show False using assms(1,2,5) by (simp add: p25519_def)
  qed
  then show "q \<le> 1" by simp
  then consider "q = 0" | "q = 1" using assms(6) by linarith
  then show "k' = v mod p25519"
  proof cases
    case 1
    then have "v < p25519" using assms(1,3) by (simp add: p25519_def)
    moreover have "v mod 2 ^ 255 = k'" "v mod 2 ^ 255 = v"
      using div_by_sizes(2) [OF assms(7-9)] calculation assms(4) 1 by (simp_all add: p25519_def)
    ultimately show ?thesis using assms(4) by simp
  next
    case 2
    then have "p25519 \<le> v" "v + 19 - 2 ^ 255 < 2 ^ 255" "v - p25519 < p25519"
      using assms(1-5) by (simp_all add: p25519_def)
    moreover have "v - p25519 = k'"
      using div_by_sizes(2) [OF assms(7-9)] div_by_sizes(2) [of "v + 19" "v - p25519" "2 ^ 255" 1] calculation 2
      by (simp add: p25519_def)
    ultimately show ?thesis
      using div_by_sizes(2) [of v k' p25519 1] assms(8) by simp
  qed
qed

lemma fe_freeze_limbs:
  assumes "fe_tight (Fe l0 l1 l2 l3 l4)" and "uint (fe_quotient (Fe l0 l1 l2 l3 l4)) \<le> 1"
  shows "fe_val (fe_freeze (Fe l0 l1 l2 l3 l4)) =
     kept (uint l0 + 19 * uint (fe_quotient (Fe l0 l1 l2 l3 l4))) (uint l1) (uint l2) (uint l3) (uint l4)"
    and "\<exists>k0 k1 k2 k3 k4. fe_freeze (Fe l0 l1 l2 l3 l4) =
       Fe (take_bit 51 k0) (take_bit 51 k1) (take_bit 51 k2) (take_bit 51 k3) (take_bit 51 k4)"
proof -
  define q where "q = fe_quotient (Fe l0 l1 l2 l3 l4)"
  define k0 where "k0 = l0 + 19 * q"
  define k1 where "k1 = l1 + drop_bit 51 k0"
  define k2 where "k2 = l2 + drop_bit 51 k1"
  define k3 where "k3 = l3 + drop_bit 51 k2"
  define k4 where "k4 = l4 + drop_bit 51 k3"
  have fe: "fe_freeze (Fe l0 l1 l2 l3 l4) =
      Fe (take_bit 51 k0) (take_bit 51 k1) (take_bit 51 k2) (take_bit 51 k3) (take_bit 51 k4)"
    by (simp add: Let_def LIMB_MASK_eq k0_def k1_def k2_def k3_def k4_def q_def del: fe_quotient.simps)
  then show "\<exists>k0 k1 k2 k3 k4. fe_freeze (Fe l0 l1 l2 l3 l4) =
       Fe (take_bit 51 k0) (take_bit 51 k1) (take_bit 51 k2) (take_bit 51 k3) (take_bit 51 k4)"
    by blast
  note tight = assms(1) [unfolded fe_tight.simps] and q1 = assms(2) [folded q_def]
  have k0: "uint k0 = uint l0 + 19 * uint q" "uint k0 < 4 * radix"
    using tight q1 by (simp_all add: k0_def uint64_add uint64_mult19)
  have k1: "uint k1 = uint l1 + uint k0 div radix" "uint k1 < 4 * radix"
    using uint_limb_carry [of l1 k0] tight k0(2) by (simp_all add: k1_def)
  have k2: "uint k2 = uint l2 + uint k1 div radix" "uint k2 < 4 * radix"
    using uint_limb_carry [of l2 k1] tight k1(2) by (simp_all add: k2_def)
  have k3: "uint k3 = uint l3 + uint k2 div radix" "uint k3 < 4 * radix"
    using uint_limb_carry [of l3 k2] tight k2(2) by (simp_all add: k3_def)
  have k4: "uint k4 = uint l4 + uint k3 div radix"
    using uint_limb_carry [of l4 k3] tight k3(2) by (simp add: k4_def)
  show "fe_val (fe_freeze (Fe l0 l1 l2 l3 l4)) =
     kept (uint l0 + 19 * uint (fe_quotient (Fe l0 l1 l2 l3 l4))) (uint l1) (uint l2) (uint l3) (uint l4)"
    unfolding fe fe_val.simps uint_low kept.simps Let_def q_def [symmetric] k0(1) [symmetric]
      k1(1) [symmetric] k2(1) [symmetric] k3(1) [symmetric] k4 [symmetric] ..
qed

lemma fe_freeze_value:
  assumes "fe_tight a"
  shows "fe_val (fe_freeze a) = fval a"
    and "\<exists>k0 k1 k2 k3 k4. fe_freeze a = Fe (take_bit 51 k0) (take_bit 51 k1) (take_bit 51 k2) (take_bit 51 k3) (take_bit 51 k4)"
proof -
  obtain l0 l1 l2 l3 l4 where a: "a = Fe l0 l1 l2 l3 l4" by (cases a)
  note tight = assms [unfolded a]
  let ?q = "uint (fe_quotient (Fe l0 l1 l2 l3 l4))"
  have v: "fe_val a < 2 * p25519" "0 \<le> fe_val a"
    using tight by (simp_all add: a p25519_def)
  have one: "fe_val a + 19 = kept (uint l0 + 19) (uint l1) (uint l2) (uint l3) (uint l4) + 2 ^ 255 * ?q"
    unfolding fe_quotient_value [OF tight] carried_kept(1) [symmetric] by (simp add: a)
  have two: "fe_val a + 19 * ?q = kept (uint l0 + 19 * ?q) (uint l1) (uint l2) (uint l3) (uint l4)
      + 2 ^ 255 * carried (uint l0 + 19 * ?q) (uint l1) (uint l2) (uint l3) (uint l4)"
    unfolding carried_kept(1) [symmetric] by (simp add: a del: fe_quotient.simps)
  note arith = freeze_arithmetic [OF one carried_kept(2,3) v(2,1) uint64_bound(2) two carried_kept(2,3)]
  show "fe_val (fe_freeze a) = fval a"
    unfolding a fe_freeze_limbs(1) [OF tight arith(1)] arith(2) fval_def ..
  show "\<exists>k0 k1 k2 k3 k4. fe_freeze a = Fe (take_bit 51 k0) (take_bit 51 k1) (take_bit 51 k2) (take_bit 51 k3) (take_bit 51 k4)"
    using fe_freeze_limbs(2) [OF tight arith(1)] by (simp only: a)
qed

section \<open>Bytes and bits\<close>

fun le_value :: "bytes \<Rightarrow> int" where
  "le_value [] = 0"
| "le_value (b # bs) = uint b + 256 * le_value bs"

definition bit_at :: "bytes \<Rightarrow> nat \<Rightarrow> bool" where
  "bit_at bs n \<longleftrightarrow> n div 8 < length bs \<and> bit (bs ! (n div 8)) (n mod 8)"

lemma concat_value: "0 \<le> x \<Longrightarrow> x < 2 ^ n \<Longrightarrow> x + 2 ^ n * y = concat_bit n x (y :: int)"
  by (simp add: concat_bit_eq push_bit_eq_mult take_bit_int_eq_self)

lemma bit_le_value: "bit (le_value bs) n \<longleftrightarrow> bit_at bs n"
proof (induction bs arbitrary: n)
  case (Cons b bs)
  have "le_value (b # bs) = concat_bit 8 (uint b) (le_value bs)"
    using concat_value [of "uint b" 8 "le_value bs"] uint_bounded [of b] by simp
  moreover have "n \<ge> 8 \<Longrightarrow> n div 8 = Suc ((n - 8) div 8) \<and> n mod 8 = (n - 8) mod 8"
    by (simp add: le_div_geq le_mod_geq)
  ultimately show ?case
    using Cons.IH [of "n - 8"] by (cases "n < 8") (auto simp: bit_concat_bit_iff bit_at_def bit_uint_iff)
qed (simp add: bit_at_def)

lemma byte_digit:
  fixes a b x y :: int
  assumes "0 \<le> a" "a < 256" "0 \<le> b" "b < 256" "a + 256 * x = b + 256 * y"
  shows "a = b \<and> x = y"
  using div_by_sizes [of "a + 256 * x" a 256 x] div_by_sizes [of "a + 256 * x" b 256 y] assms by simp

lemma le_value_eq_iff: "length as = length bs \<Longrightarrow> le_value as = le_value bs \<longleftrightarrow> as = bs"
proof (induction as bs rule: list_induct2)
  case (Cons a as b bs)
  have "uint a = uint b \<and> x = y" if "uint a + 256 * x = uint b + 256 * y" for x y
    using that uint_bounded [of a] uint_bounded [of b] by (intro byte_digit) simp_all
  then have "le_value (a # as) = le_value (b # bs) \<longleftrightarrow> a = b \<and> le_value as = le_value bs"
    by (metis le_value.simps(2) unsigned_word_eqI)
  then show ?case
    using Cons.IH by simp
qed simp

lemma le_value_range: "0 \<le> le_value bs" "le_value bs < 256 ^ length bs"
proof (induction bs)
  case (Cons b bs)
  case 1 then show ?case using Cons.IH(1) by simp
  case 2 then show ?case using Cons.IH uint_bounded [of b] by simp
qed simp_all

lemma set_bit_at_simps:
  assumes "pos div 8 < length out"
  shows "length (set_bit_at pos out) = length out" and "bit_at (set_bit_at pos out) n \<longleftrightarrow> bit_at out n \<or> n = pos"
proof -
  have "n = pos \<longleftrightarrow> n div 8 = pos div 8 \<and> n mod 8 = pos mod 8"
    by (metis div_mult_mod_eq)
  then show "length (set_bit_at pos out) = length out" "bit_at (set_bit_at pos out) n \<longleftrightarrow> bit_at out n \<or> n = pos"
    using assms by (auto simp: set_bit_at_def bit_at_def nth_list_update bit_simps)
qed

lemma put_bits:
  fixes v :: u64
  assumes "\<And>i. i < m \<Longrightarrow> (c + i) div 8 < length out"
  defines "res \<equiv> fold (\<lambda>i out. if drop_bit i v AND 1 = 1 then set_bit_at (c + i) out else out) [0..<m] out"
  shows "length res = length out \<and> (\<forall>n. bit_at res n \<longleftrightarrow> bit_at out n \<or> (\<exists>i < m. bit v i \<and> n = c + i))"
  using assms(1) unfolding res_def
proof (induction m)
  case (Suc m)
  have "drop_bit m v AND 1 = 1 \<longleftrightarrow> bit v m"
    by (simp add: and_one_eq bit_iff_odd_drop_bit mod_2_eq_odd)
  then show ?case
    using Suc.IH Suc.prems by (auto simp: set_bit_at_simps less_Suc_eq)
qed simp

lemma put_limb_bits:
  assumes "(c + 50) div 8 < length out"
  shows "length (put_limb (v, c) out) = length out"
    and "bit_at (put_limb (v, c) out) n \<longleftrightarrow> bit_at out n \<or> (c \<le> n \<and> n < c + 51 \<and> bit v (n - c))"
proof -
  have "(c + i) div 8 < length out" if "i < 51" for i
    using that assms div_le_mono [of "c + i" "c + 50" 8] by simp
  note put = put_bits [of 51 c out v, OF this]
  show "length (put_limb (v, c) out) = length out"
    unfolding put_limb_def fst_conv snd_conv using put by blast
  have "(\<exists>i < 51. bit v i \<and> n = c + i) \<longleftrightarrow> c \<le> n \<and> n < c + 51 \<and> bit v (n - c)"
    by (auto intro: exI [of _ "n - c"])
  then show "bit_at (put_limb (v, c) out) n \<longleftrightarrow> bit_at out n \<or> (c \<le> n \<and> n < c + 51 \<and> bit v (n - c))"
    unfolding put_limb_def fst_conv snd_conv using put by blast
qed

text \<open>Five limbs below the radix, one after the other, are the bits of the value.\<close>

lemma fe_val_bits:
  assumes "uint l0 < radix" "uint l1 < radix" "uint l2 < radix" "uint l3 < radix" "uint l4 < radix"
  shows "bit (fe_val (Fe l0 l1 l2 l3 l4)) n \<longleftrightarrow>
     (n < 51 \<and> bit l0 n) \<or> (51 \<le> n \<and> n < 102 \<and> bit l1 (n - 51)) \<or> (102 \<le> n \<and> n < 153 \<and> bit l2 (n - 102))
   \<or> (153 \<le> n \<and> n < 204 \<and> bit l3 (n - 153)) \<or> (204 \<le> n \<and> n < 255 \<and> bit l4 (n - 204))"
proof -
  have cat: "uint w + radix * y = concat_bit 51 (uint w) y" if "uint w < radix" for w :: u64 and y
    using concat_value [of "uint w" 51 y] that by simp
  have high: "bit w k \<Longrightarrow> k < 51" if "uint w < radix" for w :: u64 and k
  proof -
    have "take_bit 51 w = w"
      using that by (simp add: word_uint_eq_iff uint_low)
    then show "bit w k \<Longrightarrow> k < 51"
      by (metis bit_take_bit_iff)
  qed
  have "fe_val (Fe l0 l1 l2 l3 l4) = concat_bit 51 (uint l0) (concat_bit 51 (uint l1) (concat_bit 51 (uint l2) (concat_bit 51 (uint l3) (uint l4))))"
    using assms by (simp only: fe_val.simps cat)
  moreover have "n - 51 < 51 \<longleftrightarrow> n < 102" "n - 102 < 51 \<longleftrightarrow> n < 153" "n - 153 < 51 \<longleftrightarrow> n < 204"
    "51 \<le> n - 51 \<longleftrightarrow> 102 \<le> n" "51 \<le> n - 102 \<longleftrightarrow> 153 \<le> n" "51 \<le> n - 153 \<longleftrightarrow> 204 \<le> n"
    "n - 51 < 64 \<longleftrightarrow> n < 115" "n - 102 < 64 \<longleftrightarrow> n < 166" "n - 153 < 64 \<longleftrightarrow> n < 217" "n - 204 < 64 \<longleftrightarrow> n < 268"
    by auto
  ultimately have bits: "bit (fe_val (Fe l0 l1 l2 l3 l4)) n \<longleftrightarrow> (if n < 51 then bit l0 n else if n < 102 then bit l1 (n - 51)
      else if n < 153 then bit l2 (n - 102) else if n < 204 then bit l3 (n - 153) else n < 268 \<and> bit l4 (n - 204))"
    by (cases "n < 51"; cases "n < 102"; cases "n < 153"; cases "n < 204")
       (simp_all add: bit_concat_bit_iff bit_uint_iff del: fe_val.simps)
  show ?thesis
    unfolding bits using high [OF assms(5), of "n - 204"] by (cases "n < 51"; cases "n < 102"; cases "n < 153"; cases "n < 204") auto
qed

lemma fe_to_bytes_value:
  assumes "fe_ok a"
  shows "le_value (fe_to_bytes a) = fval a" and "length (fe_to_bytes a) = 32"
proof -
  note tight = fe_reduce_tight [OF assms]
  obtain k0 k1 k2 k3 k4 where f: "fe_freeze (fe_reduce a) =
      Fe (take_bit 51 k0) (take_bit 51 k1) (take_bit 51 k2) (take_bit 51 k3) (take_bit 51 k4)"
    using fe_freeze_value(2) [OF tight] by blast
  have small: "uint (take_bit 51 k :: u64) < radix" for k
    by (simp add: uint_low)
  have out: "fe_to_bytes a = put_limb (take_bit 51 k4, 204) (put_limb (take_bit 51 k3, 153) (put_limb (take_bit 51 k2, 102)
      (put_limb (take_bit 51 k1, 51) (put_limb (take_bit 51 k0, 0) (replicate 32 0)))))"
    by (simp add: fe_to_bytes_def f)
  show len: "length (fe_to_bytes a) = 32"
    unfolding out by (simp add: put_limb_bits(1))
  have "bit (le_value (fe_to_bytes a)) n \<longleftrightarrow> bit (fval a) n" for n
  proof -
    have "\<not> bit_at (replicate 32 0) n"
      by (simp add: bit_at_def)
    then show ?thesis
      unfolding bit_le_value out fe_freeze_value(1) [OF tight, simplified, symmetric] f fe_val_bits [OF small small small small small]
      by (auto simp: put_limb_bits)
  qed
  then show "le_value (fe_to_bytes a) = fval a"
    by (simp add: bit_eq_iff)
qed

lemma fe_equals_iff: "fe_ok a \<Longrightarrow> fe_ok b \<Longrightarrow> fe_equals a b \<longleftrightarrow> fval a = fval b"
  using le_value_eq_iff [of "fe_to_bytes a" "fe_to_bytes b"] by (simp add: fe_equals_def fe_to_bytes_value)

lemma le_value_zeros [simp]: "le_value (replicate n 0) = 0"
  by (induction n) simp_all

lemma fe_is_zero_iff: "fe_ok a \<Longrightarrow> fe_is_zero a \<longleftrightarrow> fval a = 0"
  using le_value_eq_iff [of "fe_to_bytes a" "replicate 32 0"] by (simp add: fe_is_zero_def fe_to_bytes_value)

lemma fe_is_negative_iff:
  assumes "fe_ok a"
  shows "fe_is_negative a \<longleftrightarrow> odd (fval a)"
proof -
  have "odd (le_value (fe_to_bytes a)) \<longleftrightarrow> bit_at (fe_to_bytes a) 0"
    using bit_le_value [of "fe_to_bytes a" 0] by (simp add: bit_0)
  then show ?thesis
    using fe_to_bytes_value [OF assms]
    by (auto simp: fe_is_negative_def bit_at_def bit_0 and_one_eq mod_2_eq_odd)
qed

lemma le_word_bits:
  assumes "at + 8 \<le> length bs"
  shows "bit (le_word at bs) n \<longleftrightarrow> n < 64 \<and> bit_at bs (8 * at + n)"
proof -
  have "bit (fold (\<lambda>i w. w OR push_bit (8 * i) (ucast (bs ! (at + i)))) [0..<m] (0 :: u64)) n \<longleftrightarrow>
      n < 8 * m \<and> bit_at bs (8 * at + n)" if "m \<le> 8" for m
    using that
  proof (induction m)
    case (Suc m)
    have "bit (push_bit (8 * m) (ucast (bs ! (at + m))) :: u64) n \<longleftrightarrow> 8 * m \<le> n \<and> n < 8 * m + 8 \<and> bit_at bs (8 * at + n)"
    proof (cases "8 * m \<le> n \<and> n < 8 * m + 8")
      case True
      then obtain k where "n = 8 * m + k" and "k < 8"
        by (metis add_diff_inverse_nat less_diff_conv2 not_less add.commute)
      then show ?thesis
        using Suc.prems assms by (simp add: bit_simps bit_at_def)
    qed (auto simp: bit_simps dest: bit_imp_le_length)
    then show ?case
      using Suc.IH Suc.prems by (auto simp: bit_or_iff)
  qed simp
  from this [of 8] show ?thesis
    by (simp add: le_word_def)
qed

lemma fe_from_bytes_value:
  assumes "length bs = 32"
  shows "fe_val (fe_from_bytes bs) = le_value bs mod 2 ^ 255" and "fe_ok (fe_from_bytes bs)"
proof -
  have small: "uint (take_bit 51 k :: u64) < radix" for k
    by (simp add: uint_low)
  then show "fe_ok (fe_from_bytes bs)"
    by (simp add: fe_from_bytes_def LIMB_MASK_eq order_less_trans [OF small])
  have limb: "bit (take_bit 51 (drop_bit d (le_word at bs))) (n - c) \<longleftrightarrow> bit_at bs n"
    if "at + 8 \<le> 32" "8 * at + d = c" "d \<le> 12" "c \<le> n" "n < c + 51" for d at c n
    using that assms by (simp add: bit_take_bit_iff bit_drop_bit_eq le_word_bits less_diff_conv2 flip: add.assoc)
  have "bit (fe_val (fe_from_bytes bs)) n \<longleftrightarrow> bit (take_bit 255 (le_value bs)) n" for n
    unfolding fe_from_bytes_def LIMB_MASK_eq fe_val_bits [OF small small small small small] bit_take_bit_iff [of 255] bit_le_value
    using limb [of 0 0 0 n] limb [of 6 3 51 n] limb [of 12 6 102 n] limb [of 19 1 153 n] limb [of 24 12 204 n]
    by (cases "n < 51"; cases "n < 102"; cases "n < 153"; cases "n < 204"; cases "n < 255") simp_all
  then show "fe_val (fe_from_bytes bs) = le_value bs mod 2 ^ 255"
    unfolding take_bit_eq_mod [symmetric] by (rule bit_eqI)
qed

lemma fval_constants:
  "fval FE_ZERO = 0" "fval FE_ONE = 1" "121666 * fval FE_D mod p25519 = - 121665 mod p25519"
  "fval FE_D2 = 2 * fval FE_D mod p25519"
  by (simp_all add: fval_def FE_ZERO_def FE_ONE_def FE_D_def FE_D2_def p25519_def)

lemma fval_sqrt_m1: "fval FE_SQRT_M1 * fval FE_SQRT_M1 mod p25519 = - 1 mod p25519"
proof -
  have "fe_val FE_SQRT_M1 * fe_val FE_SQRT_M1 = - 1 - p25519 * (- 6690407189080634018507799843845558368979872843924222843531373839242004886245)"
    by (simp add: FE_SQRT_M1_def p25519_def)
  then show ?thesis
    by (simp only: fval_def mod_mult_eq mod_minus_multiple)
qed

lemma constants_ok [simp]: "fe_ok FE_ZERO" "fe_ok FE_ONE" "fe_ok FE_D" "fe_ok FE_D2" "fe_ok FE_SQRT_M1"
  by (simp_all add: FE_ZERO_def FE_ONE_def FE_D_def FE_D2_def FE_SQRT_M1_def)

section \<open>Properties\<close>

text \<open>
  C21: The limb arithmetic is field arithmetic: on operands whose limbs are below \<open>2\<^sup>5\<^sup>2\<close>, addition,
  subtraction, negation and multiplication give, with 64- and 128-bit words that wrap, the sum,
  difference, opposite and product modulo \<open>2\<^sup>2\<^sup>5\<^sup>5 - 19\<close>, and limbs that are below \<open>2\<^sup>5\<^sup>2\<close> again; the exponent
  chains compute the powers \<open>p - 2\<close> and \<open>(p - 5) / 8\<close> their comments name.
\<close>

theorem field_operations_correct:
  assumes "fe_ok a" and "fe_ok b"
  shows "fval (fe_add a b) = (fval a + fval b) mod p25519 \<and> fe_ok (fe_add a b)
       \<and> fval (fe_sub a b) = (fval a - fval b) mod p25519 \<and> fe_ok (fe_sub a b)
       \<and> fval (fe_neg a) = (- fval a) mod p25519 \<and> fe_ok (fe_neg a)
       \<and> fval (fe_mul a b) = (fval a * fval b) mod p25519 \<and> fe_ok (fe_mul a b)
       \<and> fval (fe_invert a) = fval a ^ nat (p25519 - 2) mod p25519 \<and> fe_ok (fe_invert a)
       \<and> fval (pow_p58 a) = fval a ^ nat ((p25519 - 5) div 8) mod p25519 \<and> fe_ok (pow_p58 a)"
  using assms fe_invert_power [OF assms(1)] pow_p58_power [OF assms(1)]
  by (simp add: field_simps_25519 fe_power_def)

theorem field_operations_correct_witness:
  "fval (fe_add FE_D FE_SQRT_M1) = (fval FE_D + fval FE_SQRT_M1) mod p25519
   \<and> fval (fe_mul FE_D FE_SQRT_M1) = (fval FE_D * fval FE_SQRT_M1) mod p25519"
  using field_operations_correct [of FE_D FE_SQRT_M1] by simp

text \<open>
  The byte encoding is canonical: an element is written as the 32 little-endian bytes of its value
  fully reduced modulo the prime, so that two elements are written alike exactly when they are equal in
  the field and the sign test reads the parity of the reduced value; and bytes are read as the value of
  their low 255 bits, so that reading what was written gives the element back.
\<close>

theorem field_encoding_canonical:
  assumes "fe_ok a" and "fe_ok b" and "length bs = 32"
  shows "length (fe_to_bytes a) = 32 \<and> le_value (fe_to_bytes a) = fval a
     \<and> (fe_equals a b \<longleftrightarrow> fval a = fval b) \<and> (fe_is_zero a \<longleftrightarrow> fval a = 0) \<and> (fe_is_negative a \<longleftrightarrow> odd (fval a))
     \<and> fe_val (fe_from_bytes bs) = le_value bs mod 2 ^ 255 \<and> fe_ok (fe_from_bytes bs)
     \<and> fval (fe_from_bytes (fe_to_bytes a)) = fval a
     \<and> (le_value bs < p25519 \<longrightarrow> fe_to_bytes (fe_from_bytes bs) = bs)"
proof -
  note a = fe_to_bytes_value [OF assms(1)] and bs = fe_from_bytes_value [OF assms(3)]
  have "fval (fe_from_bytes (fe_to_bytes a)) = fval a"
  proof -
    have "fval a < 2 ^ 255"
      using fval_range(2) [of a] by (simp add: p25519_def)
    then show ?thesis
      using fe_from_bytes_value(1) [OF a(2)] a(1) by (simp add: fval_def [of "fe_from_bytes _"] del: fe_val.simps)
  qed
  moreover have "fe_to_bytes (fe_from_bytes bs) = bs" if "le_value bs < p25519"
  proof -
    have "le_value bs mod 2 ^ 255 = le_value bs"
      using that le_value_range(1) [of bs] by (simp add: p25519_def)
    then have "le_value (fe_to_bytes (fe_from_bytes bs)) = le_value bs"
      using fe_to_bytes_value(1) [OF bs(2)] bs(1) that le_value_range(1) [of bs] by (simp add: fval_def)
    then show ?thesis
      using le_value_eq_iff [of "fe_to_bytes (fe_from_bytes bs)" bs] fe_to_bytes_value(2) [OF bs(2)] assms(3) by simp
  qed
  ultimately show ?thesis
    using a bs by (simp add: fe_equals_iff fe_is_zero_iff fe_is_negative_iff assms)
qed

end
