(* ===== verification/Edwards_Point.thy ===== *)
theory Edwards_Point
  imports Field_25519
begin

text \<open>
  Curve points and key blinding, the rest of \<^verbatim>\<open>src/crypto/ed25519_point.rs\<close>: extended coordinates on
  \<open>-x\<^sup>2 + y\<^sup>2 = 1 + d x\<^sup>2 y\<^sup>2\<close>, decompression by a square root, addition, doubling and the variable-time
  multiplication by a scalar. The residues modulo the prime are a ring type of their own, so that the
  curve identities are proved by ring reasoning.
\<close>

section \<open>Points\<close>

record point =
  pt_x :: fe
  pt_y :: fe
  pt_z :: fe
  pt_t :: fe

definition pt_identity :: point where
  "pt_identity = \<lparr>pt_x = FE_ZERO, pt_y = FE_ONE, pt_z = FE_ONE, pt_t = FE_ZERO\<rparr>"

definition sqrt_ratio :: "fe \<Rightarrow> fe \<Rightarrow> fe option" where
  "sqrt_ratio u v =
     (let v3 = fe_mul (fe_square v) v;
          v7 = fe_mul (fe_square v3) v;
          candidate = fe_mul (fe_mul u v3) (pow_p58 (fe_mul u v7));
          check = fe_mul v (fe_square candidate)
      in if fe_equals check u then Some candidate
         else if fe_equals check (fe_neg u) then Some (fe_mul candidate FE_SQRT_M1)
         else None)"

definition decompress :: "bytes \<Rightarrow> point option" where
  "decompress bs =
     (let sign = drop_bit 7 (bs ! 31);
          y = fe_from_bytes (bs[31 := bs ! 31 AND 0x7F]);
          y2 = fe_square y;
          u = fe_sub y2 FE_ONE;
          v = fe_add (fe_mul y2 FE_D) FE_ONE
      in case sqrt_ratio u v of
           None \<Rightarrow> None
         | Some x \<Rightarrow>
             if fe_is_zero x \<and> sign = 1 then None
             else let x = (if fe_is_negative x \<noteq> (sign = 1) then fe_neg x else x)
                  in Some \<lparr>pt_x = x, pt_y = y, pt_z = FE_ONE, pt_t = fe_mul x y\<rparr>)"

definition compress :: "point \<Rightarrow> bytes" where
  "compress p =
     (let recip = fe_invert (pt_z p);
          x = fe_mul (pt_x p) recip;
          y = fe_mul (pt_y p) recip;
          out = fe_to_bytes y
      in out[31 := out ! 31 OR push_bit 7 (if fe_is_negative x then 1 else 0)])"

definition pt_add :: "point \<Rightarrow> point \<Rightarrow> point" where
  "pt_add p o' =
     (let a = fe_mul (fe_sub (pt_y p) (pt_x p)) (fe_sub (pt_y o') (pt_x o'));
          b = fe_mul (fe_add (pt_y p) (pt_x p)) (fe_add (pt_y o') (pt_x o'));
          c = fe_mul (fe_mul (pt_t p) FE_D2) (pt_t o');
          d = fe_mul (pt_z p) (pt_z o');
          d = fe_add d d;
          e = fe_sub b a;
          f = fe_sub d c;
          g = fe_add d c;
          h = fe_add b a
      in \<lparr>pt_x = fe_mul e f, pt_y = fe_mul g h, pt_z = fe_mul f g, pt_t = fe_mul e h\<rparr>)"

definition pt_double :: "point \<Rightarrow> point" where
  "pt_double p =
     (let a = fe_square (pt_x p);
          b = fe_square (pt_y p);
          c = fe_square (pt_z p);
          c = fe_add c c;
          d = fe_neg a;
          e = fe_sub (fe_sub (fe_square (fe_add (pt_x p) (pt_y p))) a) b;
          g = fe_add d b;
          f = fe_sub g c;
          h = fe_sub d b
      in \<lparr>pt_x = fe_mul e f, pt_y = fe_mul g h, pt_z = fe_mul f g, pt_t = fe_mul e h\<rparr>)"

definition scalar_bit :: "bytes \<Rightarrow> nat \<Rightarrow> bool" where
  "scalar_bit scalar i \<longleftrightarrow> drop_bit (i mod 8) (scalar ! (i div 8)) AND 1 = 1"

definition mul_scalar :: "bytes \<Rightarrow> point \<Rightarrow> point" where
  "mul_scalar scalar p =
     fold (\<lambda>i result. let result = pt_double result in if scalar_bit scalar i then pt_add result p else result)
       (rev [0..<256]) pt_identity"

definition clamp :: "bytes \<Rightarrow> bytes" where
  "clamp param =
     (let h = param[0 := param ! 0 AND 248];
          h = h[31 := h ! 31 AND 63]
      in h[31 := h ! 31 OR 64])"

definition blind_public_key :: "bytes \<Rightarrow> bytes \<Rightarrow> bytes io_result" where
  "blind_public_key public_key param =
     (case decompress public_key of
        None \<Rightarrow> Inl (invalid_data ''onion service key is not a point on curve25519'')
      | Some p \<Rightarrow> Inr (compress (mul_scalar (clamp param) p)))"

section \<open>Residues\<close>

typedef gf = "{0 ..< p25519}"
  by (rule exI [of _ 0]) simp

setup_lifting type_definition_gf

instantiation gf :: comm_ring_1
begin

lift_definition zero_gf :: gf is 0 by simp

lift_definition one_gf :: gf is 1 by (simp add: p25519_def)

lift_definition plus_gf :: "gf \<Rightarrow> gf \<Rightarrow> gf" is "\<lambda>x y. (x + y) mod p25519" by simp

lift_definition minus_gf :: "gf \<Rightarrow> gf \<Rightarrow> gf" is "\<lambda>x y. (x - y) mod p25519" by simp

lift_definition uminus_gf :: "gf \<Rightarrow> gf" is "\<lambda>x. (- x) mod p25519" by simp

lift_definition times_gf :: "gf \<Rightarrow> gf \<Rightarrow> gf" is "\<lambda>x y. (x * y) mod p25519" by simp

instance
  by standard (transfer; simp add: mod_simps algebra_simps)+

end

lift_definition residue :: "int \<Rightarrow> gf" is "\<lambda>x. x mod p25519" by simp

lemma residue_eq_iff: "residue x = residue y \<longleftrightarrow> x mod p25519 = y mod p25519"
  by transfer simp

lemma residue_mod: "residue (x mod p25519) = residue x"
  by transfer simp

lemma residue_add: "residue (x + y) = residue x + residue y"
  by transfer (simp only: mod_add_eq)

lemma residue_diff: "residue (x - y) = residue x - residue y"
  by transfer (simp only: mod_diff_eq)

lemma residue_minus: "residue (- x) = - residue x"
  by transfer (simp only: mod_minus_eq)

lemma residue_mult: "residue (x * y) = residue x * residue y"
  by transfer (simp only: mod_mult_eq)

lemma residue_0: "residue 0 = 0"
  by transfer simp

lemma residue_1: "residue 1 = 1"
  by transfer (simp add: p25519_def)

lemmas residue_simps = residue_mod residue_add residue_diff residue_minus residue_mult residue_0 residue_1

text \<open>The field element limbs stand for.\<close>

definition el :: "fe \<Rightarrow> gf" where
  "el a = residue (fval a)"

lemma el_eq_iff: "el a = el b \<longleftrightarrow> fval a = fval b"
  by (simp add: el_def residue_eq_iff)

lemma el_simps:
  "fe_ok a \<Longrightarrow> fe_ok b \<Longrightarrow> el (fe_add a b) = el a + el b" "fe_ok a \<Longrightarrow> fe_ok b \<Longrightarrow> el (fe_sub a b) = el a - el b"
  "fe_ok a \<Longrightarrow> el (fe_neg a) = - el a" "fe_ok a \<Longrightarrow> fe_ok b \<Longrightarrow> el (fe_mul a b) = el a * el b"
  "fe_ok a \<Longrightarrow> el (fe_square a) = el a * el a"
  "el FE_ZERO = 0" "el FE_ONE = 1" "el FE_D2 = el FE_D + el FE_D" "el FE_SQRT_M1 * el FE_SQRT_M1 = - 1"
proof -
  show "el FE_SQRT_M1 * el FE_SQRT_M1 = - 1"
    unfolding el_def residue_mult [symmetric] residue_1 [symmetric] residue_minus [symmetric] residue_eq_iff
    by (rule fval_sqrt_m1)
  show "el FE_D2 = el FE_D + el FE_D"
    by (simp only: el_def fval_constants residue_mod residue_add mult_2)
qed (simp_all add: el_def field_simps_25519 fe_square_def fval_constants residue_simps)

section \<open>The curve\<close>

definition pt_ok :: "point \<Rightarrow> bool" where
  "pt_ok p \<longleftrightarrow> fe_ok (pt_x p) \<and> fe_ok (pt_y p) \<and> fe_ok (pt_z p) \<and> fe_ok (pt_t p)"

text \<open>Extended coordinates of a point of the curve: \<open>XY = ZT\<close> and \<open>Y\<^sup>2 - X\<^sup>2 = Z\<^sup>2 + d T\<^sup>2\<close>.\<close>

definition curve_eqs :: "'a :: comm_ring_1 \<Rightarrow> 'a \<Rightarrow> 'a \<Rightarrow> 'a \<Rightarrow> 'a \<Rightarrow> bool" where
  "curve_eqs d X Y Z T \<longleftrightarrow> X * Y = Z * T \<and> Y * Y - X * X = Z * Z + d * (T * T)"

definition on_curve :: "point \<Rightarrow> bool" where
  "on_curve p \<longleftrightarrow> pt_ok p \<and> curve_eqs (el FE_D) (el (pt_x p)) (el (pt_y p)) (el (pt_z p)) (el (pt_t p))"

lemma sum_on_curve:
  fixes d X1 Y1 Z1 T1 X2 Y2 Z2 T2 :: "'a :: comm_ring_1"
  assumes "curve_eqs d X1 Y1 Z1 T1" and "curve_eqs d X2 Y2 Z2 T2"
  defines "e \<equiv> X1 * Y2 + Y1 * X2" and "h \<equiv> Y1 * Y2 + X1 * X2" and "f \<equiv> Z1 * Z2 - d * (T1 * T2)" and "g \<equiv> Z1 * Z2 + d * (T1 * T2)"
  shows "(g * h) * (g * h) - (e * f) * (e * f) = (f * g) * (f * g) + d * ((e * h) * (e * h))"
proof -
  define A1 where "A1 = Y1 * Y1 - X1 * X1"
  define A2 where "A2 = Y2 * Y2 - X2 * X2"
  define P1 where "P1 = X1 * Y1"
  define P2 where "P2 = X2 * Y2"
  have c: "A1 = Z1 * Z1 + d * (T1 * T1)" "A2 = Z2 * Z2 + d * (T2 * T2)" "P1 = Z1 * T1" "P2 = Z2 * T2"
    using assms(1,2) by (simp_all add: curve_eqs_def A1_def A2_def P1_def P2_def)
  have he: "h * h - e * e = A1 * A2"
    by (simp add: h_def e_def A1_def A2_def algebra_simps)
  have eh: "(e * h) * (e * h) = 4 * (P1 * P2) * (h * h) + (P1 * A2 - P2 * A1) * (P1 * A2 - P2 * A1)"
    by (simp add: h_def e_def A1_def A2_def P1_def P2_def algebra_simps)
  have pa: "P1 * A2 - P2 * A1 = (T1 * Z2 - T2 * Z1) * f"
    by (simp add: c f_def algebra_simps)
  have aa: "A1 * A2 = g * g + d * ((T1 * Z2 - T2 * Z1) * (T1 * Z2 - T2 * Z1))"
    by (simp add: c g_def algebra_simps)
  have gf: "g * g = f * f + 4 * d * (P1 * P2)"
    by (simp add: c g_def f_def algebra_simps)
  have "(g * h) * (g * h) - (e * f) * (e * f) = (g * g) * (h * h) - (f * f) * (e * e)"
    by (simp add: algebra_simps)
  also have "\<dots> = (f * f) * (h * h - e * e) + 4 * d * (P1 * P2) * (h * h)"
    unfolding gf by (simp add: algebra_simps)
  also have "\<dots> = (f * f) * (g * g) + d * (((T1 * Z2 - T2 * Z1) * f) * ((T1 * Z2 - T2 * Z1) * f) + 4 * (P1 * P2) * (h * h))"
    unfolding he aa by (simp add: algebra_simps)
  also have "\<dots> = (f * g) * (f * g) + d * ((e * h) * (e * h))"
    unfolding eh pa by (simp add: algebra_simps)
  finally show ?thesis .
qed

lemma double_on_curve:
  fixes d X Y Z T :: "'a :: comm_ring_1"
  assumes "curve_eqs d X Y Z T"
  defines "e \<equiv> X * Y + X * Y" and "g \<equiv> Y * Y - X * X" and "f \<equiv> Y * Y - X * X - (Z * Z + Z * Z)" and "h \<equiv> - (X * X) - Y * Y"
  shows "(g * h) * (g * h) - (e * f) * (e * f) = (f * g) * (f * g) + d * ((e * h) * (e * h))"
proof -
  have c: "g = Z * Z + d * (T * T)" "f = d * (T * T) - Z * Z" "e = Z * T + Z * T"
    using assms(1) by (simp_all add: curve_eqs_def g_def f_def e_def)
  have hh: "h * h = g * g + e * e"
    by (simp add: h_def g_def e_def algebra_simps)
  have gf: "g * g - f * f = d * (e * e)"
    unfolding c by (simp add: algebra_simps)
  have "(g * h) * (g * h) - (e * f) * (e * f) = (g * g) * (h * h) - (e * e) * (f * f)"
    by (simp add: algebra_simps)
  also have "\<dots> = (f * g) * (f * g) + (g * g - f * f) * (g * g + e * e)"
    unfolding hh by (simp add: algebra_simps)
  also have "\<dots> = (f * g) * (f * g) + d * ((e * h) * (e * h))"
    unfolding gf hh [symmetric] by (simp add: algebra_simps)
  finally show ?thesis .
qed

text \<open>What the point operations compute, in coordinates.\<close>

lemma pt_ok_fields: "pt_ok p \<Longrightarrow> fe_ok (pt_x p)" "pt_ok p \<Longrightarrow> fe_ok (pt_y p)" "pt_ok p \<Longrightarrow> fe_ok (pt_z p)" "pt_ok p \<Longrightarrow> fe_ok (pt_t p)"
  by (simp_all add: pt_ok_def)

lemma pt_add_coords:
  assumes "pt_ok p" and "pt_ok q"
  defines "X1 \<equiv> el (pt_x p)" and "Y1 \<equiv> el (pt_y p)" and "Z1 \<equiv> el (pt_z p)" and "T1 \<equiv> el (pt_t p)"
    and "X2 \<equiv> el (pt_x q)" and "Y2 \<equiv> el (pt_y q)" and "Z2 \<equiv> el (pt_z q)" and "T2 \<equiv> el (pt_t q)" and "d \<equiv> el FE_D"
  shows "el (pt_x (pt_add p q)) = 4 * ((X1 * Y2 + Y1 * X2) * (Z1 * Z2 - d * (T1 * T2)))"
    and "el (pt_y (pt_add p q)) = 4 * ((Z1 * Z2 + d * (T1 * T2)) * (Y1 * Y2 + X1 * X2))"
    and "el (pt_z (pt_add p q)) = 4 * ((Z1 * Z2 - d * (T1 * T2)) * (Z1 * Z2 + d * (T1 * T2)))"
    and "el (pt_t (pt_add p q)) = 4 * ((X1 * Y2 + Y1 * X2) * (Y1 * Y2 + X1 * X2))"
    and "pt_ok (pt_add p q)"
  using assms(1,2)
  by (simp_all add: pt_add_def Let_def el_simps pt_ok_fields X1_def Y1_def Z1_def T1_def X2_def Y2_def Z2_def T2_def d_def algebra_simps)
     (simp add: pt_ok_def)

lemma pt_double_coords:
  assumes "pt_ok p"
  defines "X \<equiv> el (pt_x p)" and "Y \<equiv> el (pt_y p)" and "Z \<equiv> el (pt_z p)"
  shows "el (pt_x (pt_double p)) = (X * Y + X * Y) * (Y * Y - X * X - (Z * Z + Z * Z))"
    and "el (pt_y (pt_double p)) = (Y * Y - X * X) * (- (X * X) - Y * Y)"
    and "el (pt_z (pt_double p)) = (Y * Y - X * X - (Z * Z + Z * Z)) * (Y * Y - X * X)"
    and "el (pt_t (pt_double p)) = (X * Y + X * Y) * (- (X * X) - Y * Y)"
    and "pt_ok (pt_double p)"
  using assms(1)
  by (simp_all add: pt_double_def Let_def el_simps pt_ok_fields X_def Y_def Z_def algebra_simps) (simp add: pt_ok_def)

lemma curve_eqs_scale:
  assumes "curve_eqs d X Y Z T"
  shows "curve_eqs d (k * X) (k * Y) (k * Z) (k * T)"
proof -
  have e: "(k * X) * (k * Y) = k * k * (X * Y)" "(k * Z) * (k * T) = k * k * (Z * T)"
    "(k * Y) * (k * Y) - (k * X) * (k * X) = k * k * (Y * Y - X * X)"
    "(k * Z) * (k * Z) + d * ((k * T) * (k * T)) = k * k * (Z * Z + d * (T * T))"
    by (simp_all add: algebra_simps)
  show ?thesis
    using assms unfolding curve_eqs_def e by simp
qed

lemma efgh_curve:
  "(g * h) * (g * h) - (e * f) * (e * f) = (f * g) * (f * g) + d * ((e * h) * (e * h)) \<Longrightarrow> curve_eqs d (e * f) (g * h) (f * g) (e * h)"
  by (simp add: curve_eqs_def algebra_simps)

lemma pt_identity_on_curve [simp]: "on_curve pt_identity"
  by (simp add: on_curve_def pt_ok_def pt_identity_def curve_eqs_def el_simps)

lemma pt_add_on_curve [simp]:
  assumes "on_curve p" and "on_curve q"
  shows "on_curve (pt_add p q)"
  using assms pt_add_coords [of p q] curve_eqs_scale [OF efgh_curve [OF sum_on_curve], of "el FE_D" _ _ _ _ _ _ _ _ 4]
  by (auto simp: on_curve_def)

lemma pt_double_on_curve [simp]:
  assumes "on_curve p"
  shows "on_curve (pt_double p)"
  using assms pt_double_coords [of p] efgh_curve [OF double_on_curve, of "el FE_D"]
  by (auto simp: on_curve_def)

lemma mul_scalar_on_curve:
  assumes "on_curve p"
  shows "on_curve (mul_scalar scalar p)"
proof -
  have "on_curve (fold (\<lambda>i result. let result = pt_double result in if scalar_bit scalar i then pt_add result p else result) is r)"
    if "on_curve r" for "is" r
    using that assms by (induction "is" arbitrary: r) (simp_all add: Let_def)
  then show ?thesis
    by (simp add: mul_scalar_def)
qed

section \<open>Decompression\<close>

lemma fe_power_ok: "fe_ok a \<Longrightarrow> fe_ok (fe_invert a)" "fe_ok a \<Longrightarrow> fe_ok (pow_p58 a)"
  using fe_invert_power pow_p58_power by (auto simp: fe_power_def)

lemma fe_equals_el: "fe_ok a \<Longrightarrow> fe_ok b \<Longrightarrow> fe_equals a b \<longleftrightarrow> el a = el b"
  by (simp add: fe_equals_iff el_eq_iff)

lemma sqrt_ratio_sound:
  assumes "sqrt_ratio u v = Some x" and "fe_ok u" and "fe_ok v"
  shows "fe_ok x" and "el v * (el x * el x) = el u"
proof -
  define c where "c = fe_mul (fe_mul u (fe_mul (fe_square v) v)) (pow_p58 (fe_mul u (fe_mul (fe_square (fe_mul (fe_square v) v)) v)))"
  have ok: "fe_ok c"
    using assms(2,3) by (simp add: c_def fe_power_ok)
  have r: "sqrt_ratio u v = (if el v * (el c * el c) = el u then Some c
      else if el v * (el c * el c) = - el u then Some (fe_mul c FE_SQRT_M1) else None)"
    using assms(2,3) ok by (simp add: sqrt_ratio_def Let_def fe_equals_el el_simps flip: c_def)
  show "fe_ok x"
    using assms(1) ok by (auto simp: r split: if_splits)
  have turned: "el v * ((el c * el FE_SQRT_M1) * (el c * el FE_SQRT_M1)) = (el v * (el c * el c)) * (el FE_SQRT_M1 * el FE_SQRT_M1)"
    by (simp only: ac_simps)
  show "el v * (el x * el x) = el u"
    using assms(1) ok by (auto simp: r el_simps(4) turned el_simps(9) split: if_splits)
qed

lemma top_byte:
  fixes b :: u8
  shows "drop_bit 7 b = 1 \<longleftrightarrow> 128 \<le> uint b" and "uint (b AND 0x7F) = uint b mod 128"
    and "uint b mod 128 + (if drop_bit 7 b = 1 then 128 else 0) = uint b"
proof -
  have "0x7F = (mask 7 :: u8)"
    by (simp add: mask_eq_exp_minus_1)
  then show "uint (b AND 0x7F) = uint b mod 128"
    by (simp only: take_bit_eq_mask [symmetric] unsigned_take_bit_eq) (simp add: take_bit_eq_mod)
  have d: "uint (drop_bit 7 b) = uint b div 128"
    by (simp only: unsigned_drop_bit_eq) (simp add: bintr_uint drop_bit_eq_div)
  have b: "uint b div 128 = (if 128 \<le> uint b then 1 else 0)"
    using uint_bounded [of b] by auto
  then show iff: "drop_bit 7 b = 1 \<longleftrightarrow> 128 \<le> uint b"
    using d by (auto simp: word_uint_eq_iff)
  show "uint b mod 128 + (if drop_bit 7 b = 1 then 128 else 0) = uint b"
    unfolding iff using b div_mult_mod_eq [of "uint b" 128] by (auto split: if_splits)
qed

lemma le_value_append: "le_value (as @ bs) = le_value as + 256 ^ length as * le_value bs"
  by (induction as) (simp_all add: algebra_simps)

lemma masked_top_value:
  assumes "length bs = 32"
  shows "le_value (bs[31 := bs ! 31 AND 0x7F]) = le_value bs mod 2 ^ 255"
    and "le_value bs = le_value bs mod 2 ^ 255 + (if drop_bit 7 (bs ! 31) = 1 then 2 ^ 255 else 0)"
proof -
  have split: "bs = take 31 bs @ [bs ! 31]" and upd: "bs[31 := w] = take 31 bs @ [w]" for w
    using assms by (simp_all add: list_eq_iff_nth_eq nth_append nth_list_update less_Suc_eq numeral_eq_Suc)
  have v: "le_value (bs[31 := w]) = le_value (take 31 bs) + 2 ^ 248 * uint w" for w
    unfolding upd using assms by (simp add: le_value_append)
  have low: "0 \<le> le_value (take 31 bs)" "le_value (take 31 bs) < 2 ^ 248"
    using le_value_range [of "take 31 bs"] assms by simp_all
  have whole: "le_value bs = le_value (take 31 bs) + 2 ^ 248 * uint (bs ! 31)"
    using v [of "bs ! 31"] by simp
  let ?m = "uint (bs ! 31) mod 128"
  have m: "0 \<le> ?m" "?m \<le> 127" "uint (bs ! 31) = ?m + (if drop_bit 7 (bs ! 31) = 1 then 128 else 0)"
    using top_byte(3) [of "bs ! 31"] by simp_all
  have s: "le_value bs = (le_value (take 31 bs) + 2 ^ 248 * ?m) + 2 ^ 255 * (if drop_bit 7 (bs ! 31) = 1 then 1 else 0)"
    unfolding whole by (subst m(3)) simp
  have low255: "le_value bs mod 2 ^ 255 = le_value (take 31 bs) + 2 ^ 248 * ?m"
    by (rule div_by_sizes(2) [OF s]) (use low m in simp_all)
  then show "le_value (bs[31 := bs ! 31 AND 0x7F]) = le_value bs mod 2 ^ 255"
    by (simp only: v top_byte(2))
  show "le_value bs = le_value bs mod 2 ^ 255 + (if drop_bit 7 (bs ! 31) = 1 then 2 ^ 255 else 0)"
    unfolding low255 by (subst s) simp
qed

lemma neg_parity:
  assumes "fe_ok x" and "fval x \<noteq> 0"
  shows "odd (fval (fe_neg x)) \<longleftrightarrow> even (fval x)"
proof -
  have "(- fval x) mod p25519 = p25519 - fval x"
    using assms(2) fval_range [of x] by (simp add: zmod_zminus1_eq_if)
  moreover have "odd p25519"
    by (simp add: p25519_def)
  ultimately show ?thesis
    using assms(1) by (simp add: fval_neg)
qed

lemma decompress_sound:
  assumes "decompress bs = Some p" and "length bs = 32"
  shows "on_curve p" and "pt_z p = FE_ONE" and "fval (pt_y p) = (le_value bs mod 2 ^ 255) mod p25519"
    and "odd (fval (pt_x p)) \<longleftrightarrow> drop_bit 7 (bs ! 31) = 1"
proof -
  define y where "y = fe_from_bytes (bs[31 := bs ! 31 AND 0x7F])"
  have y: "fe_ok y" "fe_val y = le_value bs mod 2 ^ 255"
    using fe_from_bytes_value [of "bs[31 := bs ! 31 AND 0x7F]"] masked_top_value(1) [OF assms(2)] assms(2) by (simp_all add: y_def)
  define u where "u = fe_sub (fe_square y) FE_ONE"
  define v where "v = fe_add (fe_mul (fe_square y) FE_D) FE_ONE"
  obtain x0 where x0: "sqrt_ratio u v = Some x0" and nz: "\<not> (fe_is_zero x0 \<and> drop_bit 7 (bs ! 31) = 1)"
    and p: "p = (let x = if fe_is_negative x0 \<noteq> (drop_bit 7 (bs ! 31) = 1) then fe_neg x0 else x0
           in \<lparr>pt_x = x, pt_y = y, pt_z = FE_ONE, pt_t = fe_mul x y\<rparr>)"
    using assms(1) by (auto simp: decompress_def Let_def y_def u_def v_def split: option.splits if_splits)
  have uv: "fe_ok u" "fe_ok v" "el u = el y * el y - 1" "el v = el y * el y * el FE_D + 1"
    using y(1) by (simp_all add: u_def v_def el_simps)
  note x = sqrt_ratio_sound [OF x0 uv(1,2)]
  have px: "pt_x p = (if fe_is_negative x0 \<noteq> (drop_bit 7 (bs ! 31) = 1) then fe_neg x0 else x0)"
    and rest: "pt_y p = y" "pt_z p = FE_ONE" "pt_t p = fe_mul (pt_x p) y"
    by (simp_all add: p Let_def)
  show "pt_z p = FE_ONE" "fval (pt_y p) = (le_value bs mod 2 ^ 255) mod p25519"
    using y(2) by (simp_all add: rest fval_def)
  have ok: "fe_ok (pt_x p)" and sq: "el (pt_x p) * el (pt_x p) = el x0 * el x0"
    using x(1) by (simp_all add: px el_simps)
  have "el y * el y - el x0 * el x0 = 1 + el FE_D * ((el (pt_x p) * el y) * (el (pt_x p) * el y))"
  proof -
    have "(el (pt_x p) * el y) * (el (pt_x p) * el y) = (el x0 * el x0) * (el y * el y)"
      by (simp add: sq [symmetric] ac_simps)
    then show ?thesis
      using x(2) uv(3,4) by (simp add: algebra_simps)
  qed
  then show "on_curve p"
    using ok y(1) by (simp add: on_curve_def pt_ok_def rest curve_eqs_def el_simps sq)
  show "odd (fval (pt_x p)) \<longleftrightarrow> drop_bit 7 (bs ! 31) = 1"
    using nz x(1) neg_parity [of x0] by (cases "fval x0 = 0") (auto simp: px fe_is_negative_iff fe_is_zero_iff fval_neg)
qed

section \<open>Compression\<close>

lemma with_top_bit:
  assumes "length out = 32" and "le_value out < 2 ^ 255"
  shows "le_value (out[31 := out ! 31 OR push_bit 7 (if s then 1 else 0)]) = le_value out + (if s then 2 ^ 255 else 0)"
proof -
  have split: "out = take 31 out @ [out ! 31]" and upd: "out[31 := w] = take 31 out @ [w]" for w
    using assms(1) by (simp_all add: list_eq_iff_nth_eq nth_append nth_list_update less_Suc_eq numeral_eq_Suc)
  have v: "le_value (out[31 := w]) = le_value (take 31 out) + 2 ^ 248 * uint w" for w
    unfolding upd using assms(1) by (simp add: le_value_append)
  have small: "uint (out ! 31) < 128"
    using v [of "out ! 31"] assms(2) le_value_range(1) [of "take 31 out"] by simp
  have "out ! 31 AND 128 = 0"
  proof -
    have "take_bit 7 (out ! 31) = out ! 31"
      using small by (simp add: word_uint_eq_iff unsigned_take_bit_eq take_bit_int_eq_self)
    then have "out ! 31 AND 128 = out ! 31 AND (mask 7 AND 128)"
      by (metis and.assoc take_bit_eq_mask)
    then show ?thesis
      by (simp add: mask_eq_exp_minus_1)
  qed
  then have "uint (out ! 31 OR 128) = uint (out ! 31) + 128"
    using small uint_add_lem [of "out ! 31" 128] disjunctive_add_eq_or [of "out ! 31" 128] by simp
  then show ?thesis
    using v [of "out ! 31 OR 128"] v [of "out ! 31"] by simp
qed

lemma fval_invert_one: "fval (fe_invert FE_ONE) = 1" "fe_ok (fe_invert FE_ONE)"
  using fe_invert_power [of FE_ONE] by (simp_all add: fe_power_def fval_constants) (simp add: p25519_def)

lemma compress_affine:
  assumes "pt_ok p" and "pt_z p = FE_ONE"
  shows "length (compress p) = 32" and "le_value (compress p) = fval (pt_y p) + (if odd (fval (pt_x p)) then 2 ^ 255 else 0)"
proof -
  let ?x = "fe_mul (pt_x p) (fe_invert FE_ONE)" and ?y = "fe_mul (pt_y p) (fe_invert FE_ONE)"
  have f: "fval ?x = fval (pt_x p)" "fval ?y = fval (pt_y p)" "fe_ok ?x" "fe_ok ?y"
    using assms(1) by (simp_all add: fval_mul fval_invert_one pt_ok_fields)
  note out = fe_to_bytes_value [OF f(4)]
  have "fval (pt_y p) < 2 ^ 255"
    using fval_range(2) [of "pt_y p"] by (simp add: p25519_def)
  then show "length (compress p) = 32"
    "le_value (compress p) = fval (pt_y p) + (if odd (fval (pt_x p)) then 2 ^ 255 else 0)"
    using with_top_bit [OF out(2)] out f by (simp_all add: compress_def Let_def assms(2) fe_is_negative_iff del: push_bit_of_1)
qed

lemma length_compress [simp]:
  assumes "pt_ok p"
  shows "length (compress p) = 32"
  using assms fe_to_bytes_value(2) by (simp add: compress_def Let_def pt_ok_fields fe_power_ok)

lemma length_clamp [simp]: "length (clamp h) = length h"
  by (simp add: clamp_def Let_def)

section \<open>Clamping\<close>

lemma clamped_range:
  fixes b r t :: int
  assumes "0 \<le> b" "b < 256" "0 \<le> r" "r < 2 ^ 240" "64 \<le> t" "t < 128"
  shows "2 ^ 254 \<le> b + 256 * r + 2 ^ 248 * t" and "b + 256 * r + 2 ^ 248 * t < 2 ^ 255"
  using assms by simp_all

lemma clamp_value:
  assumes "length h = 32"
  shows "le_value (clamp h) mod 8 = 0" and "2 ^ 254 \<le> le_value (clamp h)" and "le_value (clamp h) < 2 ^ 255"
proof -
  define b where "b = h ! 0 AND 248"
  define t where "t = (h ! 31 AND 63) OR 64"
  have c: "clamp h = b # take 30 (drop 1 h) @ [t]"
    using assms by (simp add: clamp_def Let_def b_def t_def list_eq_iff_nth_eq nth_append nth_list_update nth_Cons' less_Suc_eq numeral_eq_Suc)
  have v: "le_value (clamp h) = uint b + 256 * le_value (take 30 (drop 1 h)) + 2 ^ 248 * uint t"
    unfolding c using assms by (simp add: le_value_append)
  have b: "uint b mod 8 = 0"
  proof -
    have "take_bit 3 b = take_bit 3 (h ! 0) AND take_bit 3 248"
      by (simp only: b_def take_bit_and)
    then have "take_bit 3 b = 0"
      by simp
    then have "take_bit 3 (uint b) = 0"
      by (metis unsigned_0 unsigned_take_bit_eq)
    then show ?thesis
      by (simp add: take_bit_eq_mod)
  qed
  have "uint (h ! 31 AND 63) < 64" and disj: "(h ! 31 AND 63) AND 64 = 0"
  proof -
    have m: "(63 :: u8) = mask 6"
      by (simp add: mask_eq_exp_minus_1)
    then show "uint (h ! 31 AND 63) < 64"
      by (simp only: take_bit_eq_mask [symmetric] unsigned_take_bit_eq) (simp add: take_bit_eq_mod)
    show "(h ! 31 AND 63) AND 64 = 0"
      by (simp add: and.assoc)
  qed
  then have t: "64 \<le> uint t" "uint t < 128"
    using uint_add_lem [of "h ! 31 AND 63" 64] disjunctive_add_eq_or [OF disj] by (simp_all add: t_def)
  have rest: "0 \<le> le_value (take 30 (drop 1 h))" "le_value (take 30 (drop 1 h)) < 2 ^ 240"
    using le_value_range [of "take 30 (drop 1 h)"] assms by simp_all
  have "le_value (clamp h) = uint b + 8 * (32 * le_value (take 30 (drop 1 h)) + 2 ^ 245 * uint t)"
    by (simp add: v)
  then show "le_value (clamp h) mod 8 = 0"
    using b by (metis mod_mult_self2)
  show "2 ^ 254 \<le> le_value (clamp h)" "le_value (clamp h) < 2 ^ 255"
    unfolding v using uint_bounded [of b] by (intro clamped_range rest t; simp)+
qed

lemma scalar_bit_value:
  assumes "length scalar = 32" and "i < 256"
  shows "scalar_bit scalar i \<longleftrightarrow> bit (le_value scalar) i"
proof -
  have "i div 8 < 32"
    using assms(2) by simp
  then show ?thesis
    unfolding bit_le_value bit_at_def using assms(1) by (simp add: scalar_bit_def bit_iff_odd_drop_bit and_one_eq mod_2_eq_odd)
qed

section \<open>Properties\<close>

text \<open>
  C22: The point formulas are the group law of the curve: sums and doubles of points of the curve are
  again points of the curve, in consistent extended coordinates; the sum's affine coordinates are
  \<open>(x\<^sub>1y\<^sub>2 + y\<^sub>1x\<^sub>2) / (1 + d x\<^sub>1x\<^sub>2y\<^sub>1y\<^sub>2)\<close> and \<open>(y\<^sub>1y\<^sub>2 + x\<^sub>1x\<^sub>2) / (1 - d x\<^sub>1x\<^sub>2y\<^sub>1y\<^sub>2)\<close>, written without
  division; doubling gives the same affine point as adding a point to itself; and a multiple of a
  point of the curve, for any scalar, is on the curve.
\<close>

theorem point_operations_on_curve:
  assumes "on_curve p" and "on_curve q"
  shows "on_curve (pt_add p q) \<and> on_curve (pt_double p) \<and> on_curve (mul_scalar scalar p)
     \<and> el (pt_x (pt_add p q)) * (el (pt_z p) * el (pt_z q) + el FE_D * (el (pt_t p) * el (pt_t q)))
         = el (pt_z (pt_add p q)) * (el (pt_x p) * el (pt_y q) + el (pt_y p) * el (pt_x q))
     \<and> el (pt_y (pt_add p q)) * (el (pt_z p) * el (pt_z q) - el FE_D * (el (pt_t p) * el (pt_t q)))
         = el (pt_z (pt_add p q)) * (el (pt_y p) * el (pt_y q) + el (pt_x p) * el (pt_x q))
     \<and> el (pt_x (pt_double p)) * el (pt_z (pt_add p p)) = el (pt_x (pt_add p p)) * el (pt_z (pt_double p))
     \<and> el (pt_y (pt_double p)) * el (pt_z (pt_add p p)) = el (pt_y (pt_add p p)) * el (pt_z (pt_double p))"
proof -
  have ok: "pt_ok p" "pt_ok q" and c: "el (pt_y p) * el (pt_y p) - el (pt_x p) * el (pt_x p)
      = el (pt_z p) * el (pt_z p) + el FE_D * (el (pt_t p) * el (pt_t p))"
    using assms by (simp_all add: on_curve_def curve_eqs_def)
  show ?thesis
    using assms mul_scalar_on_curve [OF assms(1)]
    by (simp add: pt_add_coords [OF ok] pt_add_coords [OF ok(1) ok(1)] pt_double_coords [OF ok(1)] c) (simp add: algebra_simps)
qed

theorem point_operations_on_curve_witness:
  "on_curve (pt_add pt_identity pt_identity) \<and> on_curve (mul_scalar (replicate 32 1) pt_identity)"
  using point_operations_on_curve [of pt_identity pt_identity "replicate 32 1"] by simp

text \<open>
  A public key that decompresses is a point of the curve with the \<open>y\<close> its low 255 bits encode and
  the sign its top bit encodes, and compressing that point gives the key back whenever its \<open>y\<close> is fully
  reduced; a key that does not decompress is refused; otherwise the blinded key is the 32-byte
  compression of a point of the curve, the multiple by a scalar that is divisible by eight, has
  exactly 255 bits, and is read bit by bit.
\<close>

theorem blinding_is_a_point:
  assumes "length public_key = 32" and "length param = 32"
  shows "case decompress public_key of
       None \<Rightarrow> blind_public_key public_key param = Inl (invalid_data ''onion service key is not a point on curve25519'')
     | Some p \<Rightarrow>
         on_curve p \<and> pt_z p = FE_ONE \<and> fval (pt_y p) = (le_value public_key mod 2 ^ 255) mod p25519
       \<and> (odd (fval (pt_x p)) \<longleftrightarrow> drop_bit 7 (public_key ! 31) = 1)
       \<and> (le_value public_key mod 2 ^ 255 < p25519 \<longrightarrow> compress p = public_key)
       \<and> blind_public_key public_key param = Inr (compress (mul_scalar (clamp param) p))
       \<and> on_curve (mul_scalar (clamp param) p) \<and> length (compress (mul_scalar (clamp param) p)) = 32
       \<and> le_value (clamp param) mod 8 = 0 \<and> 2 ^ 254 \<le> le_value (clamp param) \<and> le_value (clamp param) < 2 ^ 255
       \<and> (\<forall>i < 256. scalar_bit (clamp param) i \<longleftrightarrow> bit (le_value (clamp param)) i)"
proof (cases "decompress public_key")
  case None
  then show ?thesis
    by (simp add: blind_public_key_def)
next
  case (Some p)
  note d = decompress_sound [OF Some assms(1)]
  have "compress p = public_key" if "le_value public_key mod 2 ^ 255 < p25519"
  proof -
    have "le_value (compress p) = le_value public_key"
      using compress_affine(2) [of p] d masked_top_value(2) [OF assms(1)] that by (simp add: on_curve_def)
    then show ?thesis
      using compress_affine(1) [of p] d assms(1) le_value_eq_iff by (simp add: on_curve_def)
  qed
  moreover have "on_curve (mul_scalar (clamp param) p)"
    using d(1) by (rule mul_scalar_on_curve)
  ultimately show ?thesis
    using d clamp_value [OF assms(2)] Some assms(2) by (simp add: blind_public_key_def on_curve_def scalar_bit_value)
qed

end
