(* ===== verification/Onion_Address.thy ===== *)
theory Onion_Address
  imports Base32_Codec Edwards_Point
begin

text \<open>
  Onion addresses and time periods: \<^verbatim>\<open>src/tor/hs/address.rs\<close>, the helpers of \<^verbatim>\<open>src/tor/hs/mod.rs\<close> and
  \<^verbatim>\<open>src/tor/hs/blind.rs\<close>. SHA3-256 is a parameter. Slicing a \<^verbatim>\<open>str\<close> inside a
  UTF-8 sequence panics in Rust; \<open>None\<close> is that panic, and here a string is its UTF-8 bytes.
\<close>

section \<open>Shared encodings\<close>

definition int8 :: "nat \<Rightarrow> bytes" where
  "int8 v = map (\<lambda>i. word_of_nat (v div 256 ^ (7 - i))) [0..<8]"

definition hs_mac :: "(bytes \<Rightarrow> bytes) \<Rightarrow> bytes \<Rightarrow> bytes \<Rightarrow> bytes" where
  "hs_mac sha3 key msg = sha3 (int8 (length key) @ key @ msg)"

section \<open>Addresses\<close>

definition ONION_SUFFIX :: string where "ONION_SUFFIX = ''.onion''"
definition ONION_VERSION :: u8 where "ONION_VERSION = 3"
definition ADDRESS_CHARS :: nat where "ADDRESS_CHARS = 56"
definition V2_ADDRESS_CHARS :: nat where "V2_ADDRESS_CHARS = 16"

record onion_address =
  onion_key :: bytes

text \<open>\<^verbatim>\<open>&s[i..]\<close>, which panics unless \<open>i\<close> is a character boundary.\<close>

definition is_char_boundary :: "string \<Rightarrow> nat \<Rightarrow> bool" where
  "is_char_boundary s i \<longleftrightarrow> i = 0 \<or> i = length s \<or> (i < length s \<and> \<not> (128 \<le> code (s ! i) \<and> code (s ! i) < 192))"

definition str_from :: "nat \<Rightarrow> string \<Rightarrow> string option" where
  "str_from i s = (if is_char_boundary s i then Some (drop i s) else None)"

definition eq_ignore_ascii_case :: "string \<Rightarrow> string \<Rightarrow> bool" where
  "eq_ignore_ascii_case a b \<longleftrightarrow> to_lowercase a = to_lowercase b"

definition is_onion :: "string \<Rightarrow> bool option" where
  "is_onion host =
     (if length host > length ONION_SUFFIX
      then map_option (\<lambda>tail. eq_ignore_ascii_case tail ONION_SUFFIX) (str_from (length host - length ONION_SUFFIX) host)
      else Some False)"

definition onion_checksum :: "(bytes \<Rightarrow> bytes) \<Rightarrow> bytes \<Rightarrow> bytes" where
  "onion_checksum sha3 public_key = take 2 (sha3 (as_bytes ''.onion checksum'' @ public_key @ [ONION_VERSION]))"

definition parse_body :: "(bytes \<Rightarrow> bytes) \<Rightarrow> string \<Rightarrow> onion_address io_result" where
  "parse_body sha3 body =
     (if length body = V2_ADDRESS_CHARS
      then Inl (invalid_data ''version 2 onion addresses are no longer part of the Tor network'')
      else if length body \<noteq> ADDRESS_CHARS then Inl (invalid_data ''an onion address is 56 characters'')
      else and_then (base32_decode body) (\<lambda>raw.
        if length raw \<noteq> 35 then Inl (invalid_data ''onion address does not decode to 35 bytes'')
        else if raw ! 34 \<noteq> ONION_VERSION then Inl (invalid_data ''unsupported onion address version'')
        else if slice 32 34 raw \<noteq> onion_checksum sha3 (take 32 raw)
        then Inl (invalid_data ''onion address checksum does not match'')
        else Inr \<lparr>onion_key = take 32 raw\<rparr>))"

definition onion_parse :: "(bytes \<Rightarrow> bytes) \<Rightarrow> string \<Rightarrow> onion_address io_result option" where
  "onion_parse sha3 host =
     (if length host < length ONION_SUFFIX then Some (parse_body sha3 host)
      else let cut = length host - length ONION_SUFFIX
           in map_option (\<lambda>tail. parse_body sha3 (if eq_ignore_ascii_case tail ONION_SUFFIX then take cut host else host))
                (str_from cut host))"

definition onion_credential :: "(bytes \<Rightarrow> bytes) \<Rightarrow> onion_address \<Rightarrow> bytes" where
  "onion_credential sha3 a = sha3 (as_bytes ''credential'' @ onion_key a)"

definition onion_subcredential :: "(bytes \<Rightarrow> bytes) \<Rightarrow> onion_address \<Rightarrow> bytes \<Rightarrow> bytes" where
  "onion_subcredential sha3 a blinded_key = sha3 (as_bytes ''subcredential'' @ onion_credential sha3 a @ blinded_key)"

definition onion_display :: "(bytes \<Rightarrow> bytes) \<Rightarrow> onion_address \<Rightarrow> string" where
  "onion_display sha3 a =
     base32_encode (onion_key a @ onion_checksum sha3 (onion_key a) @ [ONION_VERSION]) @ ONION_SUFFIX"

section \<open>Time periods\<close>

definition ROTATION_OFFSET_MINUTES :: nat where "ROTATION_OFFSET_MINUTES = 12 * 60"

definition BLIND_STRING :: bytes where
  "BLIND_STRING = as_bytes ''Derive temporary signing key'' @ [0]"

definition BASEPOINT_STRING :: bytes where
  "BASEPOINT_STRING = as_bytes ''(15112221349535400772501151409588531511454012693041857206046113283949847762202, 46316835694926478169428394003475163141307993866256225615783033603165251855960)''"

record time_period =
  period_number :: nat
  period_length :: nat

definition period_containing :: "nat \<Rightarrow> nat \<Rightarrow> time_period" where
  "period_containing valid_after_unix length_minutes =
     (let len = max length_minutes 1;
          minutes = valid_after_unix div 60
      in \<lparr>period_number = saturating_sub minutes ROTATION_OFFSET_MINUTES div len, period_length = len\<rparr>)"

definition blinding_param :: "(bytes \<Rightarrow> bytes) \<Rightarrow> bytes \<Rightarrow> time_period \<Rightarrow> bytes" where
  "blinding_param sha3 public_key tp =
     sha3 (BLIND_STRING @ public_key @ BASEPOINT_STRING @ as_bytes ''key-blind'' @ int8 (period_number tp) @ int8 (period_length tp))"

definition blinded_key :: "(bytes \<Rightarrow> bytes) \<Rightarrow> bytes \<Rightarrow> time_period \<Rightarrow> bytes io_result" where
  "blinded_key sha3 public_key tp = blind_public_key public_key (blinding_param sha3 public_key tp)"

section \<open>Base32 is a bijection on whole groups\<close>

lemma length_b32_digits: "e < 5 \<Longrightarrow> length (b32_digits r e bs) = (8 * length bs + e + 4) div 5"
proof (induction bs arbitrary: r e)
  case (Cons b bs)
  show ?case
  proof (cases "2 \<le> e")
    case True
    then have "8 * length (b # bs) + e + 4 = (8 * length bs + (e - 2) + 4) + 5 * 2"
      by simp
    then show ?thesis
      using Cons.IH [of "e - 2"] Cons.prems True by (simp add: Let_def)
  next
    case False
    then have "8 * length (b # bs) + e + 4 = (8 * length bs + (e + 3) + 4) + 5 * 1"
      by simp
    then show ?thesis
      using Cons.IH [of "e + 3"] False by (simp add: Let_def)
  qed
qed auto

lemma b32_digits_range: "e < 5 \<Longrightarrow> r < 2 ^ e \<Longrightarrow> set (b32_digits r e bs) \<subseteq> {..<32}"
proof (induction bs arbitrary: r e)
  case Nil
  have "r * 2 ^ (5 - e) < 2 ^ e * 2 ^ (5 - e)" if "0 < e"
    using Nil by simp
  then show ?case
    using Nil(1) by (auto simp flip: power_add)
next
  case (Cons b bs)
  have "(r * 256 + unat b) < 2 ^ (e + 8)"
  proof -
    have "r * 256 + unat b < (r + 1) * 256"
      using unat_u8_less [of b] by simp
    also have "\<dots> \<le> 2 ^ e * 256"
      using Cons.prems(2) by (intro mult_right_mono) auto
    finally show ?thesis by (simp add: power_add)
  qed
  then have "(r * 256 + unat b) div 2 ^ (e + 3) < 32"
    by (intro less_mult_imp_div_less) (simp add: power_add)
  then show ?case
    using Cons.IH Cons.prems by (auto simp: Let_def)
qed

lemma base32_encode_digits: "base32_encode bs = map (\<lambda>v. B32_ALPHABET ! v) (b32_digits 0 0 bs)"
  using b32_encode_digits [of 0 0 "[]" bs] by (simp add: base32_encode_def)

lemma length_base32_encode: "length (base32_encode bs) = (8 * length bs + 4) div 5"
  by (simp add: base32_encode_digits length_b32_digits)

lemma base32_encode_alphabet: "set (base32_encode bs) \<subseteq> set B32_ALPHABET"
proof -
  have "length B32_ALPHABET = 32"
    by (simp add: B32_ALPHABET_def)
  then show ?thesis
    using b32_digits_range [of 0 0 bs] by (auto simp: base32_encode_digits)
qed

lemma inj_base32_encode: "inj base32_encode"
  by (rule injI) (metis base32_decode_encode sum.inject(2))

text \<open>Whole groups: every lower-case text of \<open>8 n\<close> digits encodes \<open>5 n\<close> bytes, for there are as many of one as of the other.\<close>

lemma base32_encode_onto:
  "base32_encode ` {bs. length bs = 5 * n} = {s. set s \<subseteq> set B32_ALPHABET \<and> length s = 8 * n}"
proof (rule card_subset_eq)
  have dist: "card (set B32_ALPHABET) = 32"
    by (simp add: B32_ALPHABET_def)
  show "finite {s. set s \<subseteq> set B32_ALPHABET \<and> length s = 8 * n}"
    by (simp add: finite_lists_length_eq)
  show "base32_encode ` {bs. length bs = 5 * n} \<subseteq> {s. set s \<subseteq> set B32_ALPHABET \<and> length s = 8 * n}"
    using base32_encode_alphabet by (auto simp: length_base32_encode)
  have "card {bs :: bytes. set bs \<subseteq> UNIV \<and> length bs = 5 * n} = card (UNIV :: u8 set) ^ (5 * n)"
    by (rule card_lists_length_eq) simp
  then have "card {bs :: bytes. length bs = 5 * n} = 256 ^ (5 * n)"
    by (simp add: card_word)
  then show "card (base32_encode ` {bs. length bs = 5 * n}) = card {s. set s \<subseteq> set B32_ALPHABET \<and> length s = 8 * n}"
    using card_lists_length_eq [of "set B32_ALPHABET" "8 * n"] dist
    by (simp add: card_image inj_on_subset [OF inj_base32_encode] power_mult)
qed

lemma b32_value_lower [simp]: "b32_value (to_ascii_lower c) = b32_value c"
  using code_bound [of c] by (auto simp: to_ascii_lower_def b32_value_def)

lemma lower_eq_equals [simp]: "to_ascii_lower c = CHR ''='' \<longleftrightarrow> c = CHR ''=''"
proof -
  have e: "code CHR ''='' = 61"
    by (simp add: code_def)
  show ?thesis
    unfolding code_inj [symmetric] e using code_bound [of c] by (auto simp: to_ascii_lower_def)
qed

lemma b32_loop_lower: "b32_loop acc bits out (to_lowercase cs) = b32_loop acc bits out cs"
  by (induction acc bits out cs rule: b32_loop.induct) (auto simp: b32_loop.simps Let_def split: option.split)

lemma b32_value_digit:
  assumes "b32_value c = Some v"
  shows "to_ascii_lower c \<in> set B32_ALPHABET"
proof -
  have lower: "code d = (if w < 26 then w + 97 else w + 24) \<and> w < 32" if "b32_value d = Some w" "\<not> (65 \<le> code d \<and> code d \<le> 90)" for d w
    using that by (auto simp: b32_value_def split: if_splits)
  have alpha: "list_all (\<lambda>d. \<not> (65 \<le> code d \<and> code d \<le> 90)) B32_ALPHABET" and len: "length B32_ALPHABET = 32"
    by (simp_all add: B32_ALPHABET_def code_def)
  have c: "\<not> (65 \<le> code (to_ascii_lower c) \<and> code (to_ascii_lower c) \<le> 90)"
    using code_bound [of c] by (simp add: to_ascii_lower_def)
  then have v: "v < 32" "code (to_ascii_lower c) = (if v < 26 then v + 97 else v + 24)"
    using lower [of "to_ascii_lower c" v] assms by simp_all
  moreover have "code (B32_ALPHABET ! v) = (if v < 26 then v + 97 else v + 24)"
    using lower [of "B32_ALPHABET ! v" v] b32_digit(1) [of v] v(1) alpha len by (simp add: list_all_length)
  ultimately have "to_ascii_lower c = B32_ALPHABET ! v"
    by (metis code_inj)
  then show ?thesis
    using v(1) len by simp
qed

text \<open>The decoder writes no more bits than it reads, and reads digits up to the padding.\<close>

lemma b32_loop_reads:
  assumes "b32_loop acc bits out cs = Inr res"
  shows "8 * length res \<le> 8 * length out + bits + 5 * length (takeWhile (\<lambda>c. c \<noteq> CHR ''='') cs)
     \<and> (\<forall>c \<in> set (takeWhile (\<lambda>c. c \<noteq> CHR ''='') cs). b32_value c \<noteq> None)"
  using assms
proof (induction acc bits out cs rule: b32_loop.induct)
  case (2 acc bits out c cs)
  show ?case
  proof (cases "c = CHR ''=''")
    case True
    then show ?thesis
      using "2.prems" by (auto simp: b32_loop.simps b32_finish_def split: if_splits)
  next
    case False
    then obtain v where v: "b32_value c = Some v"
      using "2.prems" by (auto simp: b32_loop.simps split: option.splits)
    show ?thesis
      using "2.IH" [OF False v refl refl] "2.prems" False v by (auto simp: b32_loop.simps Let_def split: if_splits)
  qed
qed (auto simp: b32_loop.simps b32_finish_def split: if_splits)

lemma takeWhile_whole: "length s \<le> length (takeWhile P s) \<Longrightarrow> takeWhile P s = s"
  by (induction s) (auto split: if_splits)

lemma base32_decode_canonical:
  assumes "base32_decode s = Inr bs" and "length s = 8 * n" and "length bs = 5 * n"
  shows "to_lowercase s = base32_encode bs"
proof -
  let ?ds = "takeWhile (\<lambda>c. c \<noteq> CHR ''='') s"
  have le: "length s \<le> length ?ds" and valid: "\<forall>c \<in> set ?ds. b32_value c \<noteq> None"
    using b32_loop_reads [OF assms(1) [unfolded base32_decode_def]] assms(2,3) by simp_all
  have valid: "\<forall>c \<in> set s. b32_value c \<noteq> None"
    using valid unfolding takeWhile_whole [OF le] .
  then have "to_ascii_lower c \<in> set B32_ALPHABET" if "c \<in> set s" for c
    using that b32_value_digit by blast
  then have "to_lowercase s \<in> {t. set t \<subseteq> set B32_ALPHABET \<and> length t = 8 * n}"
    using assms(2) by auto
  then obtain bs' where "to_lowercase s = base32_encode bs'"
    unfolding base32_encode_onto [symmetric] by blast
  then show ?thesis
    using assms(1) base32_decode_encode [of bs'] b32_loop_lower [of 0 0 "[]" s] by (simp add: base32_decode_def)
qed

section \<open>Host names\<close>

lemma is_onion_SomeTrue:
  "is_onion host = Some True \<longleftrightarrow>
     (\<exists>body suffix. host = body @ suffix \<and> body \<noteq> [] \<and> to_lowercase suffix = ONION_SUFFIX)"
proof
  assume "is_onion host = Some True"
  then have len: "length ONION_SUFFIX < length host"
    and low: "to_lowercase (drop (length host - length ONION_SUFFIX) host) = ONION_SUFFIX"
    by (auto simp: is_onion_def str_from_def eq_ignore_ascii_case_def split: if_splits)
       (simp add: ONION_SUFFIX_def to_ascii_lower_def code_def)
  show "\<exists>body suffix. host = body @ suffix \<and> body \<noteq> [] \<and> to_lowercase suffix = ONION_SUFFIX"
    by (intro exI [of _ "take (length host - length ONION_SUFFIX) host"] exI [of _ "drop (length host - length ONION_SUFFIX) host"])
       (use len low in auto)
next
  assume "\<exists>body suffix. host = body @ suffix \<and> body \<noteq> [] \<and> to_lowercase suffix = ONION_SUFFIX"
  then obtain body suffix where h: "host = body @ suffix" "body \<noteq> []" "to_lowercase suffix = ONION_SUFFIX"
    by blast
  have len: "length suffix = 6"
    using arg_cong [OF h(3), of length] by (simp add: ONION_SUFFIX_def)
  have dot: "to_ascii_lower (hd suffix) = CHR ''.''"
    using h(3) len by (cases suffix) (auto simp: ONION_SUFFIX_def)
  have "code (hd suffix) < 128"
  proof -
    have "code CHR ''.'' = 46" by (simp add: code_def)
    then show ?thesis
      using dot code_bound [of "hd suffix"] by (auto simp: to_ascii_lower_def simp flip: code_inj split: if_splits)
  qed
  then have "is_char_boundary host (length body)"
    using h len by (cases suffix) (auto simp: is_char_boundary_def nth_append)
  moreover have "to_lowercase ONION_SUFFIX = ONION_SUFFIX" "length ONION_SUFFIX = 6"
    by (simp_all add: ONION_SUFFIX_def to_ascii_lower_def code_def)
  ultimately show "is_onion host = Some True"
    using h len by (simp add: is_onion_def str_from_def eq_ignore_ascii_case_def)
qed

lemma onion_parse_body:
  assumes "to_lowercase suffix = ONION_SUFFIX"
  shows "onion_parse sha3 (body @ suffix) = Some (parse_body sha3 body)"
proof -
  have len: "length suffix = 6" "length ONION_SUFFIX = 6" and low: "to_lowercase ONION_SUFFIX = ONION_SUFFIX"
    using arg_cong [OF assms, of length] by (simp_all add: ONION_SUFFIX_def to_ascii_lower_def code_def)
  have "is_char_boundary (body @ suffix) (length body)"
  proof (cases "body = []")
    case False
    then have "is_onion (body @ suffix) = Some True"
      using assms is_onion_SomeTrue by blast
    then show ?thesis
      using len by (auto simp: is_onion_def str_from_def split: if_splits)
  qed (simp add: is_char_boundary_def)
  then show ?thesis
    using assms len low by (simp add: onion_parse_def Let_def str_from_def eq_ignore_ascii_case_def)
qed

lemma parse_body_accepts:
  assumes sha3: "\<And>m. length (sha3 m) = 32"
  shows "parse_body sha3 body = Inr a \<longleftrightarrow>
     length (onion_key a) = 32 \<and> to_lowercase body = base32_encode (onion_key a @ onion_checksum sha3 (onion_key a) @ [ONION_VERSION])"
    (is "?lhs \<longleftrightarrow> ?rhs")
proof
  assume ?lhs
  then obtain raw where b: "length body = 56" "base32_decode body = Inr raw" and r: "length raw = 35" "raw ! 34 = ONION_VERSION"
    "slice 32 34 raw = onion_checksum sha3 (take 32 raw)" "a = \<lparr>onion_key = take 32 raw\<rparr>"
    by (auto simp: parse_body_def ADDRESS_CHARS_def V2_ADDRESS_CHARS_def split: if_splits)
  have "raw = take 32 raw @ slice 32 34 raw @ [raw ! 34]"
    using r(1) by (simp add: slice_def list_eq_iff_nth_eq nth_append less_Suc_eq numeral_eq_Suc)
  then have "raw = onion_key a @ onion_checksum sha3 (onion_key a) @ [ONION_VERSION]"
    using r by simp
  then show ?rhs
    using base32_decode_canonical [OF b(2), of 7] b(1) r by simp
next
  assume rhs: ?rhs
  let ?raw = "onion_key a @ onion_checksum sha3 (onion_key a) @ [ONION_VERSION]"
  have len: "length (onion_checksum sha3 (onion_key a)) = 2"
    by (simp add: onion_checksum_def sha3)
  have "length (to_lowercase body) = 56"
    using rhs len by (simp only: length_base32_encode length_append) simp
  then have "length body = 56"
    by simp
  moreover have "base32_decode body = Inr ?raw"
    using rhs base32_decode_encode [of ?raw] b32_loop_lower [of 0 0 "[]" body] by (simp add: base32_decode_def)
  ultimately show ?lhs
    using rhs len by (simp add: parse_body_def ADDRESS_CHARS_def V2_ADDRESS_CHARS_def slice_def nth_append)
qed

section \<open>Properties\<close>

text \<open>
  C23: A host name that is recognised as an onion name is accepted as the address of a key exactly when,
  in lower case, it is the address that key displays: every displayed address is read back, and two
  accepted names that differ by more than case name different keys. Recognising a name panics exactly when
  the sixth byte from its end continues a UTF-8 sequence.
\<close>

theorem onion_address_roundtrip:
  assumes "\<And>m. length (sha3 m) = 32"
  shows "(is_onion host = Some True \<longrightarrow>
       (onion_parse sha3 host = Some (Inr a) \<longleftrightarrow> length (onion_key a) = 32 \<and> to_lowercase host = onion_display sha3 a))
     \<and> (length (onion_key a) = 32 \<longrightarrow>
          is_onion (onion_display sha3 a) = Some True \<and> onion_parse sha3 (onion_display sha3 a) = Some (Inr a))
     \<and> (is_onion host = None \<longleftrightarrow> 6 < length host \<and> code (host ! (length host - 6)) \<in> {128..<192})"
proof -
  have low: "to_lowercase ONION_SUFFIX = ONION_SUFFIX"
    by (simp add: ONION_SUFFIX_def to_ascii_lower_def code_def)
  have "onion_parse sha3 host = Some (Inr a) \<longleftrightarrow> length (onion_key a) = 32 \<and> to_lowercase host = onion_display sha3 a"
    if onion: "is_onion host = Some True"
  proof -
    obtain body suffix where h: "host = body @ suffix" "to_lowercase suffix = ONION_SUFFIX"
      using onion by (auto simp: is_onion_SomeTrue)
    then show ?thesis
      unfolding h(1) onion_parse_body [OF h(2)]
      using parse_body_accepts [of sha3 body a] assms by (simp add: onion_display_def)
  qed
  moreover have "is_onion (onion_display sha3 a) = Some True \<and> onion_parse sha3 (onion_display sha3 a) = Some (Inr a)"
    if "length (onion_key a) = 32"
  proof -
    let ?e = "base32_encode (onion_key a @ onion_checksum sha3 (onion_key a) @ [ONION_VERSION])"
    have "?e \<noteq> []"
      using length_base32_encode [of "onion_key a @ onion_checksum sha3 (onion_key a) @ [ONION_VERSION]"] that by auto
    moreover have "parse_body sha3 ?e = Inr a"
      using base32_decode_encode that assms
      by (simp add: parse_body_def ADDRESS_CHARS_def V2_ADDRESS_CHARS_def slice_def nth_append length_base32_encode onion_checksum_def)
    ultimately show ?thesis
      using low by (auto simp: onion_display_def is_onion_SomeTrue onion_parse_body)
  qed
  moreover have "is_onion host = None \<longleftrightarrow> 6 < length host \<and> code (host ! (length host - 6)) \<in> {128..<192}"
  proof -
    have "length ONION_SUFFIX = 6"
      by (simp add: ONION_SUFFIX_def)
    then show ?thesis
      by (auto simp: is_onion_def str_from_def is_char_boundary_def)
  qed
  ultimately show ?thesis by blast
qed

theorem onion_address_roundtrip_witness:
  "let a = \<lparr>onion_key = replicate 32 5\<rparr>; sha3 = (\<lambda>m. replicate 32 9)
   in is_onion (onion_display sha3 a) = Some True \<and> onion_parse sha3 (onion_display sha3 a) = Some (Inr a)"
  using onion_address_roundtrip [of "\<lambda>m. replicate 32 9" "[]" "\<lparr>onion_key = replicate 32 5\<rparr>"] by simp

end
