(* ===== verification/Flow_Interface.thy ===== *)
theory Flow_Interface
  imports Tor_Prelude
begin

text \<open>
  The contract of SENDME flow control, shared by the two schemes a circuit can run on (the fixed
  windows of \<^verbatim>\<open>circuit.rs\<close> and the Vegas window of \<^verbatim>\<open>cc.rs\<close>): the sender's accounting, the
  receiver's accounting, and the increment both count by. The locale's client is a pair of ends
  joined by a link that delivers data cells and SENDMEs in any interleaving but loses none; it
  shows once, for both schemes, that no SENDME is ever refused and that the outstanding cells are
  exactly accounted for.
\<close>

text \<open>
  A link between the two ends: the sender, the receiver, how many data cells are on their way out
  and how many SENDMEs on their way back.
\<close>

record ('s, 'r) link =
  sender_end :: 's
  receiver_end :: 'r
  data_in_transit :: nat
  sendmes_in_transit :: nat

inductive link_step ::
  "('s \<Rightarrow> bool) \<Rightarrow> (nat \<Rightarrow> 's \<Rightarrow> 's) \<Rightarrow> (nat \<Rightarrow> 's \<Rightarrow> 's io_result) \<Rightarrow> ('r \<Rightarrow> (bool \<times> 'r) io_result) \<Rightarrow>
   ('s, 'r) link \<Rightarrow> ('s, 'r) link \<Rightarrow> bool"
  for may_send note_sent note_sendme note_received where
  send: "may_send (sender_end l) \<Longrightarrow>
     link_step may_send note_sent note_sendme note_received l
       (l\<lparr>sender_end := note_sent now (sender_end l), data_in_transit := Suc (data_in_transit l)\<rparr>)"
| arrive: "data_in_transit l = Suc n \<Longrightarrow> note_received (receiver_end l) = Inr (b, r) \<Longrightarrow>
     link_step may_send note_sent note_sendme note_received l
       (l\<lparr>receiver_end := r, data_in_transit := n,
          sendmes_in_transit := sendmes_in_transit l + (if b then 1 else 0)\<rparr>)"
| acknowledge: "sendmes_in_transit l = Suc m \<Longrightarrow> note_sendme now (sender_end l) = Inr s \<Longrightarrow>
     link_step may_send note_sent note_sendme note_received l
       (l\<lparr>sender_end := s, sendmes_in_transit := m\<rparr>)"

inductive link_reachable ::
  "('s \<Rightarrow> bool) \<Rightarrow> (nat \<Rightarrow> 's \<Rightarrow> 's) \<Rightarrow> (nat \<Rightarrow> 's \<Rightarrow> 's io_result) \<Rightarrow> ('r \<Rightarrow> (bool \<times> 'r) io_result) \<Rightarrow>
   's \<Rightarrow> 'r \<Rightarrow> ('s, 'r) link \<Rightarrow> bool"
  for may_send note_sent note_sendme note_received s0 r0 where
  start: "link_reachable may_send note_sent note_sendme note_received s0 r0
     \<lparr>sender_end = s0, receiver_end = r0, data_in_transit = 0, sendmes_in_transit = 0\<rparr>"
| step: "link_reachable may_send note_sent note_sendme note_received s0 r0 l \<Longrightarrow>
     link_step may_send note_sent note_sendme note_received l l' \<Longrightarrow>
     link_reachable may_send note_sent note_sendme note_received s0 r0 l'"

locale sendme_flow =
  fixes may_send :: "'s \<Rightarrow> bool" and note_sent :: "nat \<Rightarrow> 's \<Rightarrow> 's"
    and note_sendme :: "nat \<Rightarrow> 's \<Rightarrow> 's io_result"
    and outstanding :: "'s \<Rightarrow> nat" and snd_inv :: "'s \<Rightarrow> bool"
    and note_received :: "'r \<Rightarrow> (bool \<times> 'r) io_result"
    and unacked :: "'r \<Rightarrow> nat" and rcv_inv :: "'r \<Rightarrow> bool" and inc :: nat
  assumes send_law: "snd_inv s \<Longrightarrow> may_send s \<Longrightarrow>
      snd_inv (note_sent now s) \<and> outstanding (note_sent now s) = Suc (outstanding s)"
    and sendme_law: "snd_inv s \<Longrightarrow> inc \<le> outstanding s \<Longrightarrow>
      \<exists>s'. note_sendme now s = Inr s' \<and> snd_inv s' \<and> outstanding s' + inc = outstanding s"
    and receive_law: "rcv_inv r \<Longrightarrow>
      \<exists>b r'. note_received r = Inr (b, r') \<and> rcv_inv r' \<and>
        unacked r' + (if b then inc else 0) = Suc (unacked r)"
begin

definition link_inv :: "('s, 'r) link \<Rightarrow> bool" where
  "link_inv l \<longleftrightarrow> snd_inv (sender_end l) \<and> rcv_inv (receiver_end l) \<and>
     outstanding (sender_end l) =
       data_in_transit l + unacked (receiver_end l) + inc * sendmes_in_transit l"

lemma link_inv_step:
  assumes "link_step may_send note_sent note_sendme note_received l l'" and "link_inv l"
  shows "link_inv l'"
  using assms
proof cases
  case (send now)
  with assms(2) send_law [of "sender_end l" now] show ?thesis
    by (simp add: link_inv_def)
next
  case (arrive n b r)
  moreover obtain b' r' where "note_received (receiver_end l) = Inr (b', r')" "rcv_inv r'"
    "unacked r' + (if b' then inc else 0) = Suc (unacked (receiver_end l))"
    using receive_law assms(2) unfolding link_inv_def by blast
  ultimately show ?thesis
    using assms(2) by (auto simp: link_inv_def split: if_splits)
next
  case (acknowledge m now s)
  moreover have "inc \<le> outstanding (sender_end l)"
    using assms(2) acknowledge by (simp add: link_inv_def)
  ultimately show ?thesis
    using assms(2) sendme_law [of "sender_end l" now] by (auto simp: link_inv_def)
qed

lemma link_reachable_inv:
  assumes "link_reachable may_send note_sent note_sendme note_received s0 r0 l"
    and "snd_inv s0" and "rcv_inv r0" and "outstanding s0 = 0" and "unacked r0 = 0"
  shows "link_inv l"
  using assms
proof (induction rule: link_reachable.induct)
  case start
  then show ?case by (simp add: link_inv_def)
next
  case (step l l')
  then show ?case by (blast intro: link_inv_step)
qed

lemma sendme_accepted:
  assumes "link_inv l" and "sendmes_in_transit l > 0"
  shows "\<exists>s. note_sendme now (sender_end l) = Inr s"
proof -
  have "inc \<le> inc * sendmes_in_transit l"
    using assms(2) by simp
  then have "inc \<le> outstanding (sender_end l)"
    using assms(1) unfolding link_inv_def by linarith
  then show ?thesis
    using sendme_law [of "sender_end l" now] assms(1) by (auto simp: link_inv_def)
qed

end

text \<open>
  A scheme is live when a sender with less than one increment outstanding may always send: then an
  idle link is never stuck waiting for a SENDME that the receiver does not owe. \<open>room\<close> says that the
  sender's cell counter has not reached the end of its range.
\<close>

locale live_sendme_flow =
  sendme_flow may_send note_sent note_sendme outstanding snd_inv note_received unacked rcv_inv inc
  for may_send :: "'s \<Rightarrow> bool" and note_sent :: "nat \<Rightarrow> 's \<Rightarrow> 's"
    and note_sendme :: "nat \<Rightarrow> 's \<Rightarrow> 's io_result"
    and outstanding :: "'s \<Rightarrow> nat" and snd_inv :: "'s \<Rightarrow> bool"
    and note_received :: "'r \<Rightarrow> (bool \<times> 'r) io_result"
    and unacked :: "'r \<Rightarrow> nat" and rcv_inv :: "'r \<Rightarrow> bool" and inc :: nat +
  fixes room :: "'s \<Rightarrow> bool"
  assumes unacked_bound: "rcv_inv r \<Longrightarrow> unacked r < inc"
    and live_law: "snd_inv s \<Longrightarrow> outstanding s < inc \<Longrightarrow> room s \<Longrightarrow> may_send s"
begin

lemma idle_may_send:
  assumes "link_inv l" and "data_in_transit l = 0" and "sendmes_in_transit l = 0"
    and "room (sender_end l)"
  shows "may_send (sender_end l)"
  using assms live_law unacked_bound by (auto simp: link_inv_def)

end

end
