(* ===== verification/Congestion_Control.thy ===== *)
theory Congestion_Control
  imports Rust_Text Flow_Interface
begin

text \<open>
  Client-side congestion control, \<^verbatim>\<open>src/tor/cc.rs\<close>: the \<^verbatim>\<open>cc_*\<close> consensus parameters and their
  parser, the Tor Vegas sender (\<^verbatim>\<open>Vegas\<close>) and the receiver's SENDME counter (\<^verbatim>\<open>DeliverCounter\<close>).

  An \<^verbatim>\<open>Instant\<close> is a number of nanoseconds. Window and counter arithmetic is at the width the code
  uses: the \<^verbatim>\<open>u64\<close> and \<^verbatim>\<open>u128\<close> intermediates are wrapped where Rust would wrap them, the
  saturating calls saturate, and a narrowing cast is the \<open>min\<close> the code writes before it.
\<close>

section \<open>Parameters\<close>

datatype cc_position = Exit | Onion

fun suffix :: "cc_position \<Rightarrow> string" where
  "suffix Exit = ''_exit''"
| "suffix Onion = ''_onion''"

definition OUTBUF_CELLS :: nat where "OUTBUF_CELLS = 62"
definition INT32_MAX :: nat where "INT32_MAX = 2147483647"
definition CLOCK_JUMP_RATIO :: nat where "CLOCK_JUMP_RATIO = 5000"

record cc_params =
  alg :: nat
  sendme_inc :: nat
  cwnd_init :: nat
  cwnd_min :: nat
  cwnd_max :: nat
  cwnd_inc :: nat
  cwnd_inc_rate :: nat
  cwnd_inc_pct_ss :: nat
  ewma_cwnd_pct :: nat
  ewma_max :: nat
  ewma_ss :: nat
  rtt_reset_pct :: nat
  vegas_alpha :: nat
  vegas_beta :: nat
  vegas_gamma :: nat
  vegas_delta :: nat
  ss_cap :: nat
  ss_max :: nat
  cwnd_full_gap :: nat
  cwnd_full_minpct :: nat
  cwnd_full_per_cwnd :: bool
  xoff_client :: nat

definition cc_defaults :: "cc_position \<Rightarrow> cc_params" where
  "cc_defaults pos =
     (let (beta, gamma, delta, cap) = (case pos of Exit \<Rightarrow> (4, 3, 5, 600) | Onion \<Rightarrow> (6, 4, 7, 475))
      in \<lparr>alg = 2, sendme_inc = 31, cwnd_init = 4 * 31, cwnd_min = 31, cwnd_max = INT32_MAX,
          cwnd_inc = 31, cwnd_inc_rate = 1, cwnd_inc_pct_ss = 50, ewma_cwnd_pct = 50, ewma_max = 10,
          ewma_ss = 2, rtt_reset_pct = 100, vegas_alpha = 3 * OUTBUF_CELLS,
          vegas_beta = beta * OUTBUF_CELLS, vegas_gamma = gamma * OUTBUF_CELLS,
          vegas_delta = delta * OUTBUF_CELLS, ss_cap = cap, ss_max = 5000, cwnd_full_gap = 4,
          cwnd_full_minpct = 25, cwnd_full_per_cwnd = True, xoff_client = 500\<rparr>)"

definition bounded :: "nat \<Rightarrow> string \<Rightarrow> nat \<Rightarrow> nat \<Rightarrow> nat option" where
  "bounded mx value low high =
     (case parse_uint mx value of
        None \<Rightarrow> None
      | Some v \<Rightarrow> if v \<ge> low \<and> v \<le> high then Some v else None)"

definition strip_position :: "string \<Rightarrow> (string \<times> string) option" where
  "strip_position key =
     (case strip_suffix ''_exit'' key of
        Some stem \<Rightarrow> Some (stem, ''_exit'')
      | None \<Rightarrow>
          (case strip_suffix ''_onion'' key of
             Some stem \<Rightarrow> Some (stem, ''_onion'')
           | None \<Rightarrow>
               (case strip_suffix ''_sbws'' key of
                  Some stem \<Rightarrow> Some (stem, ''_sbws'')
                | None \<Rightarrow> None)))"

abbreviation (input) keep_if :: "'p \<Rightarrow> 'v option \<Rightarrow> ('v \<Rightarrow> 'p) \<Rightarrow> 'p" where
  "keep_if out v set_field \<equiv> (case v of None \<Rightarrow> out | Some v \<Rightarrow> set_field v)"

text \<open>The \<^verbatim>\<open>match key\<close> of the parser: one assignment, or none when the value is refused.\<close>

definition cc_set :: "string \<Rightarrow> string \<Rightarrow> cc_params \<Rightarrow> cc_params" where
  "cc_set key value out =
     (if key = ''cc_alg'' then
        (case parse_u8 value of
           Some v \<Rightarrow> if v = 0 \<or> v = 2 then out\<lparr>alg := v\<rparr> else out
         | None \<Rightarrow> out)
      else if key = ''cc_sendme_inc'' then
        keep_if out (bounded 255 value 1 254) (\<lambda>v. out\<lparr>sendme_inc := v\<rparr>)
      else if key = ''cc_xoff_client'' then
        keep_if out (bounded u32_max value 1 10000) (\<lambda>v. out\<lparr>xoff_client := v\<rparr>)
      else if key = ''cc_cwnd_init'' then
        keep_if out (bounded u32_max value 31 10000) (\<lambda>v. out\<lparr>cwnd_init := v\<rparr>)
      else if key = ''cc_cwnd_min'' then
        keep_if out (bounded u32_max value 31 1000) (\<lambda>v. out\<lparr>cwnd_min := v\<rparr>)
      else if key = ''cc_cwnd_max'' then
        keep_if out (bounded u32_max value 500 INT32_MAX) (\<lambda>v. out\<lparr>cwnd_max := v\<rparr>)
      else if key = ''cc_cwnd_inc'' then
        keep_if out (bounded u32_max value 1 1000) (\<lambda>v. out\<lparr>cwnd_inc := v\<rparr>)
      else if key = ''cc_cwnd_inc_rate'' then
        keep_if out (bounded u32_max value 1 250) (\<lambda>v. out\<lparr>cwnd_inc_rate := v\<rparr>)
      else if key = ''cc_cwnd_inc_pct_ss'' then
        keep_if out (bounded u32_max value 1 500) (\<lambda>v. out\<lparr>cwnd_inc_pct_ss := v\<rparr>)
      else if key = ''cc_ewma_cwnd_pct'' then
        keep_if out (bounded u32_max value 1 255) (\<lambda>v. out\<lparr>ewma_cwnd_pct := v\<rparr>)
      else if key = ''cc_ewma_max'' then
        keep_if out (bounded u32_max value 2 INT32_MAX) (\<lambda>v. out\<lparr>ewma_max := v\<rparr>)
      else if key = ''cc_ewma_ss'' then
        keep_if out (bounded u32_max value 2 INT32_MAX) (\<lambda>v. out\<lparr>ewma_ss := v\<rparr>)
      else if key = ''cc_rtt_reset_pct'' then
        keep_if out (bounded u32_max value 0 100) (\<lambda>v. out\<lparr>rtt_reset_pct := v\<rparr>)
      else if key = ''cc_vegas_alpha'' then
        keep_if out (bounded u32_max value 0 1000) (\<lambda>v. out\<lparr>vegas_alpha := v\<rparr>)
      else if key = ''cc_vegas_beta'' then
        keep_if out (bounded u32_max value 0 1000) (\<lambda>v. out\<lparr>vegas_beta := v\<rparr>)
      else if key = ''cc_vegas_gamma'' then
        keep_if out (bounded u32_max value 0 1000) (\<lambda>v. out\<lparr>vegas_gamma := v\<rparr>)
      else if key = ''cc_vegas_delta'' then
        keep_if out (bounded u32_max value 0 INT32_MAX) (\<lambda>v. out\<lparr>vegas_delta := v\<rparr>)
      else if key = ''cc_sscap'' then
        keep_if out (bounded u32_max value 100 INT32_MAX) (\<lambda>v. out\<lparr>ss_cap := v\<rparr>)
      else if key = ''cc_ss_max'' then
        keep_if out (bounded u32_max value 500 INT32_MAX) (\<lambda>v. out\<lparr>ss_max := v\<rparr>)
      else if key = ''cc_cwnd_full_gap'' then
        keep_if out (bounded u32_max value 0 32767) (\<lambda>v. out\<lparr>cwnd_full_gap := v\<rparr>)
      else if key = ''cc_cwnd_full_minpct'' then
        keep_if out (bounded u32_max value 0 100) (\<lambda>v. out\<lparr>cwnd_full_minpct := v\<rparr>)
      else if key = ''cc_cwnd_full_per_cwnd'' then
        keep_if out (bounded u32_max value 0 1) (\<lambda>v. out\<lparr>cwnd_full_per_cwnd := (v = 1)\<rparr>)
      else out)"

definition cc_field :: "cc_position \<Rightarrow> string \<Rightarrow> cc_params \<Rightarrow> cc_params" where
  "cc_field pos field out =
     (case split_once CHR ''='' field of
        None \<Rightarrow> out
      | Some (key, value) \<Rightarrow>
          (case strip_position key of
             Some (stem, suf) \<Rightarrow> if suf = suffix pos then cc_set stem value out else out
           | None \<Rightarrow> cc_set key value out))"

definition cc_parse :: "string \<Rightarrow> cc_position \<Rightarrow> cc_params" where
  "cc_parse args pos = fold (cc_field pos) (split_whitespace args) (cc_defaults pos)"

section \<open>The Vegas sender\<close>

record vegas =
  params :: cc_params
  v_inc :: nat
  cwnd :: nat
  sent :: nat
  acked :: nat
  in_slow_start :: bool
  cwnd_full :: bool
  next_cc_event :: nat
  next_cwnd_event :: nat
  marks :: "nat list"
  ewma_rtt_us :: nat
  min_rtt_us :: nat
  bdp :: nat
  clock_broken :: bool

definition inflight :: "vegas \<Rightarrow> nat" where
  "inflight v = min (saturating_sub (sent v) (acked v)) u32_max"

definition can_send :: "vegas \<Rightarrow> bool" where
  "can_send v \<longleftrightarrow> inflight v < cwnd v"

definition clamp_cwnd :: "vegas \<Rightarrow> nat \<Rightarrow> nat" where
  "clamp_cwnd v w = min (max (max w (cwnd_min (params v))) 1) (max (cwnd_max (params v)) 1)"

definition sendme_per_cwnd :: "vegas \<Rightarrow> nat" where
  "sendme_per_cwnd v =
     (let acks = wrap_u64 (cwnd v + v_inc v div 2) div v_inc v in max (min acks u32_max) 1)"

definition cwnd_update_rate :: "vegas \<Rightarrow> nat" where
  "cwnd_update_rate v =
     (if in_slow_start v then 1
      else
        let step = wrap_u64 (max (cwnd_inc_rate (params v)) 1 * v_inc v);
            rate = wrap_u64 (cwnd v + step div 2) div step
        in max (min rate u32_max) 1)"

definition rfc3742_ss_inc :: "vegas \<Rightarrow> nat" where
  "rfc3742_ss_inc v =
     (let p = params v in
      if cwnd v \<le> ss_cap p then
        let scaled = wrap_u64 (cwnd_inc_pct_ss p * v_inc v)
        in min (wrap_u64 (scaled + 50) div 100) u32_max
      else
        let numerator = wrap_u64 (v_inc v * ss_cap p);
            divisor = wrap_u64 (2 * cwnd v)
        in max (min (wrap_u64 (numerator + divisor div 2) div divisor) u32_max) 1)"

definition cwnd_is_full :: "vegas \<Rightarrow> bool" where
  "cwnd_is_full v \<longleftrightarrow>
     (let gap = wrap_u64 (cwnd_full_gap (params v) * v_inc v)
      in wrap_u64 (inflight v + gap) \<ge> cwnd v)"

definition cwnd_is_nonfull :: "vegas \<Rightarrow> bool" where
  "cwnd_is_nonfull v \<longleftrightarrow>
     wrap_u64 (100 * inflight v) < wrap_u64 (cwnd_full_minpct (params v) * cwnd v)"

definition vegas_new :: "cc_params \<Rightarrow> nat \<Rightarrow> vegas" where
  "vegas_new p inc =
     (let v = \<lparr>params = p, v_inc = max inc 1, cwnd = 0, sent = 0, acked = 0, in_slow_start = True,
               cwnd_full = False, next_cc_event = 0, next_cwnd_event = 0, marks = [],
               ewma_rtt_us = 0, min_rtt_us = 0, bdp = 0, clock_broken = False\<rparr>;
          v = v\<lparr>cwnd := clamp_cwnd v (cwnd_init p)\<rparr>;
          v = v\<lparr>next_cc_event := cwnd_update_rate v\<rparr>
      in v\<lparr>next_cwnd_event := sendme_per_cwnd v\<rparr>)"

definition on_send :: "nat \<Rightarrow> vegas \<Rightarrow> vegas" where
  "on_send now v =
     (let v = v\<lparr>sent := wrap_u64 (sent v + 1)\<rparr>
      in if sent v mod v_inc v = 0 then v\<lparr>marks := marks v @ [now]\<rparr> else v)"

definition ewma_n :: "vegas \<Rightarrow> nat" where
  "ewma_n v =
     (if in_slow_start v then max (ewma_ss (params v)) 2
      else max (min (wrap_u64 (cwnd_update_rate v * ewma_cwnd_pct (params v)) div 100)
                    (ewma_max (params v))) 2)"

definition wrap_u128 :: "nat \<Rightarrow> nat" where
  "wrap_u128 n = n mod 2 ^ 128"

text \<open>
  \<open>update_rtt\<close> in the two parts its comments name: the clock heuristics, which decide whether the
  sample counts and may set or clear \<open>clock_broken\<close>, and the estimators.
\<close>

definition clock_heuristics :: "nat \<Rightarrow> vegas \<Rightarrow> bool \<times> vegas" where
  "clock_heuristics rtt_us v =
     (if rtt_us = 0 then (False, v\<lparr>clock_broken := True\<rparr>)
      else if ewma_rtt_us v \<noteq> 0 \<and> \<not> in_slow_start v then
        if rtt_us > saturating_mul_u64 (ewma_rtt_us v) CLOCK_JUMP_RATIO then (False, v)
        else if saturating_mul_u64 rtt_us CLOCK_JUMP_RATIO < ewma_rtt_us v then
          (\<not> clock_broken v, v)
        else (True, v\<lparr>clock_broken := False\<rparr>)
      else (True, v))"

definition fold_rtt :: "nat \<Rightarrow> vegas \<Rightarrow> vegas" where
  "fold_rtt rtt_us v =
     (let v = v\<lparr>ewma_rtt_us :=
                  (if ewma_rtt_us v = 0 then rtt_us
                   else let n = ewma_n v in
                     min (wrap_u128 (rtt_us * 2 + ewma_rtt_us v * (n - 1)) div (n + 1)) u64_max)\<rparr>;
          v = (if min_rtt_us v = 0 \<or> ewma_rtt_us v < min_rtt_us v
               then v\<lparr>min_rtt_us := ewma_rtt_us v\<rparr> else v)
      in if ewma_rtt_us v \<noteq> 0
         then v\<lparr>bdp := min (wrap_u128 (cwnd v * min_rtt_us v) div ewma_rtt_us v) u32_max\<rparr>
         else v)"

definition update_rtt :: "nat \<Rightarrow> vegas \<Rightarrow> bool \<times> vegas" where
  "update_rtt rtt_us v =
     (case clock_heuristics rtt_us v of
        (False, v) \<Rightarrow> (False, v)
      | (True, v) \<Rightarrow> (True, fold_rtt rtt_us v))"

text \<open>
  \<open>vegas_update\<close>, in the order of the code: note whether the window is full, run the slow-start or
  the steady-state rules, clamp, reset the smallest round trip of a starved circuit, and re-arm the
  period counters.
\<close>

definition note_fullness :: "vegas \<Rightarrow> vegas" where
  "note_fullness v =
     (if cwnd_is_full v then v\<lparr>cwnd_full := True\<rparr>
      else if cwnd_is_nonfull v then v\<lparr>cwnd_full := False\<rparr>
      else v)"

definition slow_start_round :: "nat \<Rightarrow> vegas \<Rightarrow> vegas" where
  "slow_start_round queue_use v =
     (let p = params v;
          v = (if queue_use < vegas_gamma p then
                 if cwnd_full v then
                   let inc = rfc3742_ss_inc v;
                       v = v\<lparr>cwnd := clamp_cwnd v (saturating_add_u32 (cwnd v) inc)\<rparr>
                   in if wrap_u64 (inc * sendme_per_cwnd v) \<le> wrap_u64 (cwnd_inc p * cwnd_inc_rate p)
                      then v\<lparr>in_slow_start := False\<rparr> else v
                 else v
               else v\<lparr>in_slow_start := False,
                      cwnd := clamp_cwnd v (saturating_add_u32 (bdp v) (vegas_gamma p))\<rparr>)
      in if cwnd v \<ge> ss_max p
         then v\<lparr>cwnd := clamp_cwnd v (ss_max p), in_slow_start := False\<rparr> else v)"

definition steady_round :: "nat \<Rightarrow> vegas \<Rightarrow> vegas" where
  "steady_round queue_use v =
     (let p = params v in
      if next_cc_event v = 0 then
        if queue_use > vegas_delta p then
          v\<lparr>cwnd := saturating_sub (saturating_add_u32 (bdp v) (vegas_delta p)) (cwnd_inc p)\<rparr>
        else if queue_use > vegas_beta p then v\<lparr>cwnd := saturating_sub (cwnd v) (cwnd_inc p)\<rparr>
        else if cwnd_full v \<and> queue_use < vegas_alpha p
          then v\<lparr>cwnd := saturating_add_u32 (cwnd v) (cwnd_inc p)\<rparr>
        else v
      else v)"

definition reset_min_rtt :: "vegas \<Rightarrow> vegas" where
  "reset_min_rtt v =
     (let p = params v in
      if \<not> in_slow_start v \<and> cwnd v = clamp_cwnd v (cwnd_min p) then
        let pct = min (rtt_reset_pct p) 100;
            kept = saturating_mul_u64 (min_rtt_us v div 100) (100 - pct);
            fresh = saturating_mul_u64 (ewma_rtt_us v div 100) pct
        in v\<lparr>min_rtt_us := max (saturating_add_u64 kept fresh) 1\<rparr>
      else v)"

definition rearm :: "vegas \<Rightarrow> vegas" where
  "rearm v =
     (let v = (if next_cc_event v = 0 then v\<lparr>next_cc_event := cwnd_update_rate v\<rparr> else v);
          v = (if next_cwnd_event v = 0 then v\<lparr>next_cwnd_event := sendme_per_cwnd v\<rparr> else v)
      in if cwnd_full_per_cwnd (params v) then
           if next_cwnd_event v = sendme_per_cwnd v then v\<lparr>cwnd_full := False\<rparr> else v
         else if next_cc_event v = cwnd_update_rate v then v\<lparr>cwnd_full := False\<rparr>
         else v)"

definition vegas_update :: "vegas \<Rightarrow> vegas" where
  "vegas_update v =
     (let queue_use = saturating_sub (cwnd v) (bdp v);
          v = note_fullness v;
          v = (if in_slow_start v then slow_start_round queue_use v else steady_round queue_use v);
          v = v\<lparr>cwnd := clamp_cwnd v (cwnd v)\<rparr>;
          v = reset_min_rtt v
      in rearm v)"

text \<open>
  \<open>checked_duration_since\<close> is \<open>None\<close> when the clock went backwards; the duration is taken in whole
  microseconds.
\<close>

definition take_sample :: "nat \<Rightarrow> vegas \<Rightarrow> bool \<times> vegas" where
  "take_sample now v =
     (case marks v of
        [] \<Rightarrow> (False, v)
      | sent_at # rest \<Rightarrow>
          let v = v\<lparr>marks := rest\<rparr> in
          if sent_at \<le> now then update_rtt (min ((now - sent_at) div 1000) u64_max) v
          else (False, v\<lparr>clock_broken := True\<rparr>))"

definition on_sendme :: "nat \<Rightarrow> vegas \<Rightarrow> vegas io_result" where
  "on_sendme now v =
     (if saturating_sub (sent v) (acked v) < v_inc v
      then Inl (invalid_data ''SENDME acknowledged cells that were never sent'')
      else
        let v = v\<lparr>next_cc_event := saturating_sub (next_cc_event v) 1,
                  next_cwnd_event := saturating_sub (next_cwnd_event v) 1\<rparr>;
            (usable, v) = take_sample now v;
            v = (if usable then vegas_update v else v)
        in Inr (v\<lparr>acked := wrap_u64 (acked v + v_inc v)\<rparr>))"

section \<open>The receiver's counter\<close>

record deliver_counter =
  dc_inc :: nat
  dc_seen :: nat

definition deliver_counter_new :: "nat \<Rightarrow> deliver_counter" where
  "deliver_counter_new inc = \<lparr>dc_inc = max inc 1, dc_seen = 0\<rparr>"

definition on_data :: "deliver_counter \<Rightarrow> bool \<times> deliver_counter" where
  "on_data d =
     (let seen = wrap_u32 (dc_seen d + 1) in
      if seen < dc_inc d then (False, d\<lparr>dc_seen := seen\<rparr>)
      else (True, d\<lparr>dc_seen := 0\<rparr>))"

section \<open>Parameters stay in range\<close>

definition cc_params_ok :: "cc_params \<Rightarrow> bool" where
  "cc_params_ok p \<longleftrightarrow>
     (alg p = 0 \<or> alg p = 2) \<and>
     1 \<le> sendme_inc p \<and> sendme_inc p \<le> 254 \<and>
     1 \<le> xoff_client p \<and> xoff_client p \<le> 10000 \<and>
     31 \<le> cwnd_init p \<and> cwnd_init p \<le> 10000 \<and>
     31 \<le> cwnd_min p \<and> cwnd_min p \<le> 1000 \<and>
     500 \<le> cwnd_max p \<and> cwnd_max p \<le> INT32_MAX \<and>
     1 \<le> cwnd_inc p \<and> cwnd_inc p \<le> 1000 \<and>
     1 \<le> cwnd_inc_rate p \<and> cwnd_inc_rate p \<le> 250 \<and>
     1 \<le> cwnd_inc_pct_ss p \<and> cwnd_inc_pct_ss p \<le> 500 \<and>
     1 \<le> ewma_cwnd_pct p \<and> ewma_cwnd_pct p \<le> 255 \<and>
     2 \<le> ewma_max p \<and> ewma_max p \<le> INT32_MAX \<and>
     2 \<le> ewma_ss p \<and> ewma_ss p \<le> INT32_MAX \<and>
     rtt_reset_pct p \<le> 100 \<and>
     vegas_alpha p \<le> 1000 \<and>
     vegas_beta p \<le> 1000 \<and>
     vegas_gamma p \<le> 1000 \<and>
     vegas_delta p \<le> INT32_MAX \<and>
     100 \<le> ss_cap p \<and> ss_cap p \<le> INT32_MAX \<and>
     500 \<le> ss_max p \<and> ss_max p \<le> INT32_MAX \<and>
     cwnd_full_gap p \<le> 32767 \<and>
     cwnd_full_minpct p \<le> 100"

lemma cc_defaults_ok: "cc_params_ok (cc_defaults pos)"
  by (cases pos) (simp_all add: cc_params_ok_def cc_defaults_def INT32_MAX_def OUTBUF_CELLS_def)

lemma bounded_SomeD: "bounded mx value low high = Some v \<Longrightarrow> low \<le> v \<and> v \<le> high"
  by (auto simp: bounded_def split: option.splits if_splits)

lemma ok_if: "cc_params_ok a \<Longrightarrow> cc_params_ok b \<Longrightarrow> cc_params_ok (if c then a else b)"
  by simp

lemma ok_keep_if:
  "cc_params_ok p \<Longrightarrow> (\<And>v. low \<le> v \<Longrightarrow> v \<le> high \<Longrightarrow> cc_params_ok (f v)) \<Longrightarrow>
     cc_params_ok (keep_if p (bounded mx value low high) f)"
  by (auto split: option.split dest: bounded_SomeD)

lemma ok_alg:
  "cc_params_ok p \<Longrightarrow>
     cc_params_ok (case x of None \<Rightarrow> p | Some v \<Rightarrow> if v = 0 \<or> v = 2 then p\<lparr>alg := v\<rparr> else p)"
  by (auto simp: cc_params_ok_def split: option.split)

lemma cc_set_ok:
  assumes "cc_params_ok p"
  shows "cc_params_ok (cc_set key value p)"
  unfolding cc_set_def
  by (intro ok_if ok_alg ok_keep_if assms) (use assms in \<open>simp add: cc_params_ok_def\<close>)+

lemma cc_field_ok: "cc_params_ok p \<Longrightarrow> cc_params_ok (cc_field pos field p)"
  by (auto simp: cc_field_def cc_set_ok split: option.splits)

lemma fold_cc_field_ok: "cc_params_ok p \<Longrightarrow> cc_params_ok (fold (cc_field pos) fs p)"
  by (induction fs arbitrary: p) (simp_all add: cc_field_ok)

section \<open>What the Vegas rules leave alone\<close>

text \<open>
  The congestion rules only move the window, the estimators and the period counters. The counts of
  cells, the marks and the negotiated parameters are the \<open>core\<close>, which they keep.
\<close>

definition core :: "vegas \<Rightarrow> cc_params \<times> nat \<times> nat \<times> nat \<times> nat list" where
  "core v = (params v, v_inc v, sent v, acked v, marks v)"

named_theorems core_simps \<open>each Vegas rule keeps the core\<close>

lemma core_updates:
  "core (v\<lparr>cwnd := w\<rparr>) = core v" "core (v\<lparr>in_slow_start := b\<rparr>) = core v"
  "core (v\<lparr>cwnd_full := b\<rparr>) = core v" "core (v\<lparr>next_cc_event := n\<rparr>) = core v"
  "core (v\<lparr>next_cwnd_event := n\<rparr>) = core v" "core (v\<lparr>ewma_rtt_us := n\<rparr>) = core v"
  "core (v\<lparr>min_rtt_us := n\<rparr>) = core v" "core (v\<lparr>bdp := n\<rparr>) = core v"
  "core (v\<lparr>clock_broken := b\<rparr>) = core v"
  by (simp_all add: core_def)

lemmas core_rules = Let_def if_distrib [of core] core_updates if_cancel

lemma core_note_fullness [core_simps]: "core (note_fullness v) = core v"
  by (simp only: note_fullness_def core_rules)

lemma core_slow_start_round [core_simps]: "core (slow_start_round q v) = core v"
  by (simp only: slow_start_round_def core_rules)

lemma core_steady_round [core_simps]: "core (steady_round q v) = core v"
  by (simp only: steady_round_def core_rules)

lemma core_reset_min_rtt [core_simps]: "core (reset_min_rtt v) = core v"
  by (simp only: reset_min_rtt_def core_rules)

lemma core_rearm [core_simps]: "core (rearm v) = core v"
  by (simp only: rearm_def core_rules)

lemma core_fold_rtt [core_simps]: "core (fold_rtt r v) = core v"
  by (simp only: fold_rtt_def core_rules)

lemma core_clock_heuristics: "clock_heuristics r v = (u, v') \<Longrightarrow> core v' = core v"
  by (auto simp: clock_heuristics_def core_updates split: if_splits)

lemma core_vegas_update: "core (vegas_update v) = core v"
  by (simp add: vegas_update_def Let_def core_simps core_updates)

lemma core_update_rtt: "update_rtt r v = (u, v') \<Longrightarrow> core v' = core v"
  by (auto simp: update_rtt_def core_simps split: prod.splits bool.splits dest!: core_clock_heuristics)

lemma cwnd_updates:
  "cwnd (v\<lparr>ewma_rtt_us := n\<rparr>) = cwnd v" "cwnd (v\<lparr>min_rtt_us := n\<rparr>) = cwnd v"
  "cwnd (v\<lparr>bdp := n\<rparr>) = cwnd v"
  by simp_all

lemma cwnd_fold_rtt: "cwnd (fold_rtt r v) = cwnd v"
  by (simp only: fold_rtt_def Let_def if_distrib [of cwnd] cwnd_updates if_cancel)

lemma cwnd_clock_heuristics: "clock_heuristics r v = (u, v') \<Longrightarrow> cwnd v' = cwnd v"
  by (auto simp: clock_heuristics_def split: if_splits)

lemma cwnd_update_rtt: "update_rtt r v = (u, v') \<Longrightarrow> cwnd v' = cwnd v"
  by (auto simp: update_rtt_def cwnd_fold_rtt split: prod.splits bool.splits dest!: cwnd_clock_heuristics)

lemma clamp_cong: "params v = params v' \<Longrightarrow> clamp_cwnd v w = clamp_cwnd v' w"
  by (simp add: clamp_cwnd_def)

lemma clamp_idem [simp]: "clamp_cwnd v (clamp_cwnd v' w) = clamp_cwnd v' w" if "params v' = params v"
  using that by (auto simp: clamp_cwnd_def min_def max_def)

lemma clamp_bounds:
  "min (max (cwnd_min (params v)) 1) (max (cwnd_max (params v)) 1) \<le> clamp_cwnd v w"
  "clamp_cwnd v w \<le> max (cwnd_max (params v)) 1" "1 \<le> clamp_cwnd v w"
  by (auto simp: clamp_cwnd_def)

lemma core_eqD: "core v = core v' \<Longrightarrow> params v = params v' \<and> v_inc v = v_inc v' \<and>
    sent v = sent v' \<and> acked v = acked v' \<and> marks v = marks v'"
  by (simp add: core_def)

lemma cwnd_reset_min_rtt [simp]: "cwnd (reset_min_rtt v) = cwnd v"
  by (simp add: reset_min_rtt_def Let_def)

lemma cwnd_rearm [simp]: "cwnd (rearm v) = cwnd v"
  by (simp add: rearm_def Let_def)

lemma vegas_update_cwnd_clamped: "clamp_cwnd (vegas_update v) (cwnd (vegas_update v)) = cwnd (vegas_update v)"
proof -
  let ?v1 = "note_fullness v"
  let ?v2 = "if in_slow_start ?v1 then slow_start_round (cwnd v - bdp v) ?v1
             else steady_round (cwnd v - bdp v) ?v1"
  have "core ?v2 = core v"
    by (simp add: core_simps)
  then have "params (vegas_update v) = params ?v2"
    using core_vegas_update [of v] core_eqD by metis
  moreover have "cwnd (vegas_update v) = clamp_cwnd ?v2 (cwnd ?v2)"
    by (simp add: vegas_update_def Let_def)
  ultimately show ?thesis by simp
qed

section \<open>The sender's invariant\<close>

definition vegas_inv :: "vegas \<Rightarrow> bool" where
  "vegas_inv v \<longleftrightarrow>
     1 \<le> v_inc v \<and> v_inc v \<le> 255 \<and> cwnd_max (params v) \<le> u32_max \<and>
     acked v \<le> sent v \<and> sent v \<le> u64_max \<and> v_inc v dvd acked v \<and>
     length (marks v) = sent v div v_inc v - acked v div v_inc v \<and>
     clamp_cwnd v (cwnd v) = cwnd v"

lemma vegas_new_inv: "inc \<le> 255 \<Longrightarrow> cwnd_max p \<le> u32_max \<Longrightarrow> vegas_inv (vegas_new p inc)"
  using clamp_idem [of "vegas_new p inc" "vegas_new p inc"]
  by (auto simp: vegas_inv_def vegas_new_def Let_def clamp_cwnd_def max_def min_def)

lemma vegas_new_fields [simp]:
  "sent (vegas_new p inc) = 0" "acked (vegas_new p inc) = 0" "v_inc (vegas_new p inc) = max inc 1"
  "params (vegas_new p inc) = p"
  by (simp_all add: vegas_new_def Let_def)

lemma on_send_fields [simp]:
  "params (on_send now v) = params v" "v_inc (on_send now v) = v_inc v"
  "acked (on_send now v) = acked v" "cwnd (on_send now v) = cwnd v"
  "sent (on_send now v) = wrap_u64 (sent v + 1)"
  by (simp_all add: on_send_def Let_def)

lemma div_Suc_step:
  fixes n k :: nat
  assumes "0 < k"
  shows "Suc n div k = (if Suc n mod k = 0 then Suc (n div k) else n div k)"
  using assms by (simp add: div_Suc)

lemma on_send_inv:
  assumes "vegas_inv v" and "sent v < u64_max"
  shows "vegas_inv (on_send now v)"
proof -
  have w: "wrap_u64 (Suc (sent v)) = Suc (sent v)"
    using assms(2) by (intro wrap_u64_id) simp
  have le: "acked v div v_inc v \<le> sent v div v_inc v"
    using assms(1) by (simp add: vegas_inv_def div_le_mono)
  have "length (marks (on_send now v)) = Suc (sent v) div v_inc v - acked v div v_inc v"
    using assms le by (simp add: on_send_def Let_def w div_Suc_step vegas_inv_def Suc_diff_le)
  then show ?thesis
    using assms by (simp add: vegas_inv_def w clamp_cwnd_def)
qed

lemma take_sample_core:
  assumes "take_sample now v = (u, v')"
  shows "params v' = params v" "v_inc v' = v_inc v" "sent v' = sent v" "acked v' = acked v"
    "marks v' = tl (marks v)" "cwnd v' = cwnd v"
proof -
  have "params v' = params v \<and> v_inc v' = v_inc v \<and> sent v' = sent v \<and> acked v' = acked v \<and>
      marks v' = tl (marks v) \<and> cwnd v' = cwnd v"
  proof (cases "marks v")
    case (Cons a rest)
    show ?thesis
    proof (cases "a \<le> now")
      case True
      with Cons assms have r: "update_rtt (min ((now - a) div 1000) u64_max) (v\<lparr>marks := rest\<rparr>) = (u, v')"
        by (simp add: take_sample_def Let_def)
      from core_eqD [OF core_update_rtt [OF r]] cwnd_update_rtt [OF r] Cons show ?thesis
        by simp
    qed (use Cons assms in \<open>auto simp: take_sample_def Let_def\<close>)
  qed (use assms in \<open>auto simp: take_sample_def\<close>)
  then show "params v' = params v" "v_inc v' = v_inc v" "sent v' = sent v" "acked v' = acked v"
    "marks v' = tl (marks v)" "cwnd v' = cwnd v" by blast+
qed

lemma on_sendme_ok:
  assumes "vegas_inv v" and "on_sendme now v = Inr v'"
  shows "vegas_inv v'" and "acked v' = acked v + v_inc v" and "sent v' = sent v"
    and "v_inc v' = v_inc v" and "params v' = params v" and "marks v \<noteq> []"
proof -
  have enough: "v_inc v \<le> sent v - acked v"
    using assms(2) by (auto simp: on_sendme_def split: if_splits)
  let ?v0 = "v\<lparr>next_cc_event := next_cc_event v - 1, next_cwnd_event := next_cwnd_event v - 1\<rparr>"
  obtain u v1 where s: "take_sample now ?v0 = (u, v1)" by fastforce
  let ?v2 = "if u then vegas_update v1 else v1"
  have v': "v' = ?v2\<lparr>acked := wrap_u64 (acked ?v2 + v_inc ?v2)\<rparr>"
    using assms(2) enough s by (auto simp: on_sendme_def Let_def split: if_splits)
  have core2: "params ?v2 = params v" "v_inc ?v2 = v_inc v" "sent ?v2 = sent v"
    "acked ?v2 = acked v" "marks ?v2 = tl (marks v)"
    using take_sample_core [OF s] core_eqD [OF core_vegas_update [of v1]] by simp_all
  have win: "clamp_cwnd ?v2 (cwnd ?v2) = cwnd ?v2"
    using take_sample_core [OF s] assms(1) vegas_update_cwnd_clamped [of v1]
    by (simp add: vegas_inv_def clamp_cong [of v1 v])
  have sum: "acked v + v_inc v \<le> sent v"
    using enough assms(1) unfolding vegas_inv_def by linarith
  have wrap: "wrap_u64 (acked v + v_inc v) = acked v + v_inc v"
    using sum assms(1) by (intro wrap_u64_id) (simp add: vegas_inv_def)
  show "acked v' = acked v + v_inc v" "sent v' = sent v" "v_inc v' = v_inc v" "params v' = params v"
    by (simp_all add: v' core2 wrap)
  have div: "(acked v + v_inc v) div v_inc v = Suc (acked v div v_inc v)"
    using assms(1) by (simp add: vegas_inv_def)
  have "(acked v + v_inc v) div v_inc v \<le> sent v div v_inc v"
    using sum by (rule div_le_mono)
  with div assms(1) show "marks v \<noteq> []"
    by (auto simp: vegas_inv_def)
  from assms(1) sum div show "vegas_inv v'"
    using win unfolding vegas_inv_def
    by (simp add: v' core2 wrap clamp_cwnd_def)
qed

lemma on_sendme_error_iff:
  "(\<exists>e. on_sendme now v = Inl e) \<longleftrightarrow> sent v - acked v < v_inc v"
  by (auto simp: on_sendme_def Let_def split: prod.splits)

section \<open>Reachable senders\<close>

text \<open>
  The sender as the circuit drives it: a cell goes out only when \<open>can_send\<close> says so (and, for the
  64-bit counter, before it is exhausted), and a SENDME may arrive at any time.
\<close>

inductive vegas_reachable :: "cc_params \<Rightarrow> nat \<Rightarrow> vegas \<Rightarrow> bool" for p inc where
  start: "vegas_reachable p inc (vegas_new p inc)"
| send: "vegas_reachable p inc v \<Longrightarrow> can_send v \<Longrightarrow> sent v < u64_max \<Longrightarrow>
     vegas_reachable p inc (on_send now v)"
| ack: "vegas_reachable p inc v \<Longrightarrow> on_sendme now v = Inr v' \<Longrightarrow> vegas_reachable p inc v'"

definition cwnd_floor :: "cc_params \<Rightarrow> nat" where
  "cwnd_floor p = min (max (cwnd_min p) 1) (max (cwnd_max p) 1)"

lemma vegas_inv_window:
  assumes "vegas_inv v"
  shows "cwnd_floor (params v) \<le> cwnd v" and "cwnd v \<le> max (cwnd_max (params v)) 1"
  using assms clamp_bounds [of v "cwnd v"] by (simp_all add: vegas_inv_def cwnd_floor_def)

lemma can_send_outstanding:
  assumes "vegas_inv v"
  shows "can_send v \<longleftrightarrow> sent v - acked v < cwnd v"
proof -
  have "cwnd v \<le> u32_max"
    using vegas_inv_window(2) [OF assms] assms
    by (auto simp: vegas_inv_def max_def split: if_splits)
  then show ?thesis
    by (auto simp: can_send_def inflight_def min_def)
qed

lemma vegas_reachable_inv:
  assumes "vegas_reachable p inc v" and "inc \<le> 255" and "cwnd_max p \<le> u32_max"
  shows "vegas_inv v \<and> params v = p \<and> v_inc v = max inc 1 \<and> sent v - acked v \<le> max (cwnd_max p) 1"
  using assms
proof (induction rule: vegas_reachable.induct)
  case start
  then show ?case by (simp add: vegas_new_inv)
next
  case (send v now)
  then have inv: "vegas_inv v" "params v = p" by simp_all
  then have "sent v - acked v < max (cwnd_max p) 1"
    using send.hyps(2) vegas_inv_window(2) [OF inv(1)] can_send_outstanding by fastforce
  moreover have "wrap_u64 (sent v + 1) = sent v + 1"
    using send.hyps(3) by (intro wrap_u64_id) simp
  ultimately show ?case
    using send on_send_inv [OF inv(1)] by simp
next
  case (ack v now v')
  then have "sent v' - acked v' \<le> sent v - acked v"
    using on_sendme_ok [of v now v'] by simp
  with ack on_sendme_ok [of v now v'] show ?case by simp
qed

section \<open>Sender and receiver together\<close>

definition vegas_end :: "nat \<Rightarrow> vegas \<Rightarrow> bool" where
  "vegas_end inc v \<longleftrightarrow> vegas_inv v \<and> v_inc v = inc"

definition counter_end :: "nat \<Rightarrow> deliver_counter \<Rightarrow> bool" where
  "counter_end inc d \<longleftrightarrow> dc_inc d = inc \<and> dc_seen d < inc \<and> inc \<le> 255"

abbreviation vegas_may_send :: "vegas \<Rightarrow> bool" where
  "vegas_may_send v \<equiv> can_send v \<and> sent v < u64_max"

lemma on_data_counter:
  assumes "counter_end inc d"
  shows "\<exists>b d'. on_data d = (b, d') \<and> counter_end inc d' \<and>
           dc_seen d' + (if b then inc else 0) = Suc (dc_seen d)"
proof -
  have "wrap_u32 (dc_seen d + 1) = Suc (dc_seen d)"
    using assms unfolding counter_end_def Suc_eq_plus1 by (intro wrap_u32_id) linarith
  then show ?thesis
    using assms by (auto simp: on_data_def Let_def counter_end_def)
qed

lemma vegas_end_send:
  assumes "vegas_end inc v" and "vegas_may_send v"
  shows "vegas_end inc (on_send now v) \<and>
     sent (on_send now v) - acked (on_send now v) = Suc (sent v - acked v)"
proof -
  have "wrap_u64 (sent v + 1) = Suc (sent v)"
    using assms(2) unfolding Suc_eq_plus1 by (intro wrap_u64_id) linarith
  then show ?thesis
    using assms on_send_inv [of v now] by (auto simp: vegas_end_def vegas_inv_def Suc_diff_le)
qed

lemma vegas_end_sendme:
  assumes "vegas_end inc v" and "inc \<le> sent v - acked v"
  shows "\<exists>v'. on_sendme now v = Inr v' \<and> vegas_end inc v' \<and>
     (sent v' - acked v') + inc = sent v - acked v"
proof -
  obtain v' where v': "on_sendme now v = Inr v'"
    using assms on_sendme_error_iff [of now v] by (cases "on_sendme now v") (auto simp: vegas_end_def)
  with assms on_sendme_ok [OF _ v'] show ?thesis
    by (auto simp: vegas_end_def)
qed

interpretation vegas_link: sendme_flow vegas_may_send on_send on_sendme "\<lambda>v. sent v - acked v"
    "vegas_end inc" "\<lambda>d. Inr (on_data d)" dc_seen "counter_end inc" inc
  for inc
  by unfold_locales (use vegas_end_send vegas_end_sendme on_data_counter in auto)

text \<open>With the window's floor at least one increment, the scheme is also live.\<close>

definition live_vegas_end :: "nat \<Rightarrow> vegas \<Rightarrow> bool" where
  "live_vegas_end inc v \<longleftrightarrow> vegas_end inc v \<and> inc \<le> cwnd_floor (params v)"

lemma live_vegas_end_sendme:
  assumes "live_vegas_end inc v" and "inc \<le> sent v - acked v"
  shows "\<exists>v'. on_sendme now v = Inr v' \<and> live_vegas_end inc v' \<and>
     (sent v' - acked v') + inc = sent v - acked v"
  using vegas_end_sendme [of inc v now] assms on_sendme_ok(5) [of v now]
  by (fastforce simp: live_vegas_end_def vegas_end_def)

interpretation live_vegas_link: live_sendme_flow vegas_may_send on_send on_sendme
    "\<lambda>v. sent v - acked v" "live_vegas_end inc" "\<lambda>d. Inr (on_data d)" dc_seen "counter_end inc" inc
    "\<lambda>v. sent v < u64_max"
  for inc
proof unfold_locales
  fix s :: vegas and now
  assume "live_vegas_end inc s" and "vegas_may_send s"
  then show "live_vegas_end inc (on_send now s) \<and>
      sent (on_send now s) - acked (on_send now s) = Suc (sent s - acked s)"
    using vegas_end_send [of inc s now] by (simp add: live_vegas_end_def)
next
  fix s :: vegas
  assume s: "live_vegas_end inc s" "sent s - acked s < inc" "sent s < u64_max"
  then have "sent s - acked s < cwnd s"
    using vegas_inv_window(1) [of s] by (simp add: live_vegas_end_def vegas_end_def)
  with s show "vegas_may_send s"
    by (simp add: can_send_outstanding live_vegas_end_def vegas_end_def)
next
  fix s :: vegas and now
  assume "live_vegas_end inc s" and "inc \<le> sent s - acked s"
  then show "\<exists>s'. on_sendme now s = Inr s' \<and> live_vegas_end inc s' \<and>
      sent s' - acked s' + inc = sent s - acked s"
    by (rule live_vegas_end_sendme)
next
  fix r
  assume "counter_end inc r"
  then show "dc_seen r < inc"
    by (simp add: counter_end_def)
qed (use on_data_counter in simp)

abbreviation vegas_link_reachable :: "cc_params \<Rightarrow> nat \<Rightarrow> (vegas, deliver_counter) link \<Rightarrow> bool" where
  "vegas_link_reachable p inc \<equiv>
     link_reachable vegas_may_send on_send on_sendme (\<lambda>d. Inr (on_data d))
       (vegas_new p inc) (deliver_counter_new inc)"

lemma vegas_link_start:
  assumes "1 \<le> inc" and "inc \<le> 254" and "cwnd_max p \<le> u32_max"
  shows "vegas_end inc (vegas_new p inc)" and "counter_end inc (deliver_counter_new inc)"
    and "dc_seen (deliver_counter_new inc) = 0"
  using assms vegas_new_inv [of inc p]
  by (simp_all add: vegas_end_def counter_end_def deliver_counter_new_def)

section \<open>Properties\<close>

text \<open>
  C10: In every reachable state of a Vegas sender (any negotiated increment, any parameters, any clock,
  SENDMEs at any time) the acknowledged cells never exceed the sent ones and are a whole number of
  increments, there is exactly one mark per whole outstanding increment, the window stays between
  the floor and the ceiling its parameters allow even when a consensus puts the minimum above the
  maximum, and no more cells are in flight than the largest window permits.
\<close>

theorem vegas_safety:
  assumes "vegas_reachable p inc v" and "inc \<le> 255" and "cwnd_max p \<le> u32_max"
  shows "acked v \<le> sent v \<and> max inc 1 dvd acked v \<and>
     length (marks v) = sent v div max inc 1 - acked v div max inc 1 \<and>
     min (max (cwnd_min p) 1) (max (cwnd_max p) 1) \<le> cwnd v \<and> cwnd v \<le> max (cwnd_max p) 1 \<and>
     inflight v \<le> max (cwnd_max p) 1"
proof (intro conjI)
  from vegas_reachable_inv [OF assms]
  have r: "vegas_inv v" "params v = p" "v_inc v = max inc 1" "sent v - acked v \<le> max (cwnd_max p) 1"
    by simp_all
  then show "acked v \<le> sent v" "max inc 1 dvd acked v"
    "length (marks v) = sent v div max inc 1 - acked v div max inc 1"
    by (simp_all add: vegas_inv_def)
  show "min (max (cwnd_min p) 1) (max (cwnd_max p) 1) \<le> cwnd v" "cwnd v \<le> max (cwnd_max p) 1"
    using vegas_inv_window [OF r(1)] r(2) by (simp_all add: cwnd_floor_def)
  show "inflight v \<le> max (cwnd_max p) 1"
    using r(4) by (simp add: inflight_def)
qed

theorem vegas_safety_witness:
  "inflight (on_send 7 (vegas_new (cc_defaults Exit) 31)) \<le> 2147483647 \<and>
   cwnd (on_send 7 (vegas_new (cc_defaults Exit) 31)) = 124"
proof -
  let ?v = "vegas_new (cc_defaults Exit) 31"
  have "can_send ?v"
    by (simp add: can_send_def inflight_def vegas_new_def clamp_cwnd_def cc_defaults_def Let_def INT32_MAX_def)
  then have r: "vegas_reachable (cc_defaults Exit) 31 (on_send 7 ?v)"
    by (intro vegas_reachable.send vegas_reachable.start) simp_all
  show ?thesis
    using vegas_safety [OF r]
    by (simp add: vegas_new_def clamp_cwnd_def cc_defaults_def Let_def INT32_MAX_def)
qed

text \<open>
  A SENDME is refused exactly when fewer cells than one increment are outstanding; otherwise it is
  accepted, acknowledges exactly one increment, and there is a send time to measure it against (the
  branch the code calls unreachable is never taken).
\<close>

theorem sendme_accepted_iff:
  assumes "vegas_inv v"
  shows "((\<exists>v'. on_sendme now v = Inr v') \<longleftrightarrow> v_inc v \<le> sent v - acked v) \<and>
     (\<forall>v'. on_sendme now v = Inr v' \<longrightarrow>
        acked v' = acked v + v_inc v \<and> sent v' = sent v \<and> marks v \<noteq> [] \<and> vegas_inv v')"
proof (intro conjI)
  show "(\<exists>v'. on_sendme now v = Inr v') \<longleftrightarrow> v_inc v \<le> sent v - acked v"
    using on_sendme_error_iff [of now v] by (cases "on_sendme now v") auto
qed (use on_sendme_ok [OF assms] in blast)

text \<open>
  A Vegas sender and a receiver counting by the same negotiated increment never fall out of step:
  over any interleaving of sends, arrivals and SENDMEs the outstanding cells are exactly those in
  transit, those the receiver has counted and those the SENDMEs in transit stand for, so no SENDME
  is ever refused and the circuit is never torn down for the cadence.
\<close>

theorem sendme_cadence:
  assumes "vegas_link_reachable p inc l" and "1 \<le> inc" and "inc \<le> 254" and "cwnd_max p \<le> u32_max"
  shows "sent (sender_end l) - acked (sender_end l) =
           data_in_transit l + dc_seen (receiver_end l) + inc * sendmes_in_transit l \<and>
         (sendmes_in_transit l > 0 \<longrightarrow> (\<exists>v. on_sendme now (sender_end l) = Inr v))"
proof (intro conjI impI)
  have i: "vegas_link.link_inv inc l"
    using vegas_link.link_reachable_inv [OF assms(1)] vegas_link_start [OF assms(2-)] by simp
  then show "sent (sender_end l) - acked (sender_end l) =
      data_in_transit l + dc_seen (receiver_end l) + inc * sendmes_in_transit l"
    by (simp add: vegas_link.link_inv_def)
  show "sendmes_in_transit l > 0 \<Longrightarrow> \<exists>v. on_sendme now (sender_end l) = Inr v"
    by (rule vegas_link.sendme_accepted [OF i])
qed

text \<open>
  C38: When the smallest window the parameters allow is at least one increment, congestion control
  cannot stall: whenever nothing is in transit in either direction the sender may send, until its
  64-bit cell counter is exhausted.
\<close>

theorem congestion_no_stall:
  assumes "vegas_link_reachable p inc l" and "1 \<le> inc" and "inc \<le> 254" and "cwnd_max p \<le> u32_max"
    and "inc \<le> min (max (cwnd_min p) 1) (max (cwnd_max p) 1)"
    and "data_in_transit l = 0" and "sendmes_in_transit l = 0" and "sent (sender_end l) < u64_max"
  shows "can_send (sender_end l)"
proof -
  have "live_vegas_link.link_inv inc l"
    using live_vegas_link.link_reachable_inv [OF assms(1)] vegas_link_start [OF assms(2-4)] assms(5)
    by (simp add: live_vegas_end_def cwnd_floor_def)
  from live_vegas_link.idle_may_send [OF this assms(6,7)] assms(8) show ?thesis by simp
qed

theorem congestion_no_stall_witness:
  "can_send (vegas_new (cc_defaults Onion) 31)"
proof -
  have r: "vegas_link_reachable (cc_defaults Onion) 31
      \<lparr>sender_end = vegas_new (cc_defaults Onion) 31, receiver_end = deliver_counter_new 31,
       data_in_transit = 0, sendmes_in_transit = 0\<rparr>"
    by (rule link_reachable.start)
  show ?thesis
    using congestion_no_stall [OF r] by (simp add: cc_defaults_def INT32_MAX_def)
qed

text \<open>
  Whatever text a consensus puts on its \<^verbatim>\<open>params\<close> line, every congestion-control parameter that
  comes out of it lies in the range proposal 324 gives it, for either position.
\<close>

theorem cc_parse_in_range: "cc_params_ok (cc_parse args pos)"
  unfolding cc_parse_def by (intro fold_cc_field_ok cc_defaults_ok)

end
