(* ===== verification/Cell_Framing.thy ===== *)
theory Cell_Framing
  imports Tor_Prelude
begin

text \<open>
  Cell framing, \<^verbatim>\<open>src/tor/cell.rs\<close>: the cell record, its constructor, the encoder for both
  CircID widths, the incremental parser \<open>try_parse\<close> and the blocking reader \<open>read_from\<close>.
  The interface the channel relies on is the locale \<open>framing\<close>: what a parser owes an encoder so
  that a byte stream cut anywhere is read back as the same cells. It is interpreted here on
  \<open>encode\<close> and \<open>try_parse\<close> for each link protocol's CircID width.
\<close>

section \<open>Constants and the cell record\<close>

definition CELL_BODY_LEN :: nat where "CELL_BODY_LEN = 509"
definition CIRC_ID_LEN_V2 :: nat where "CIRC_ID_LEN_V2 = 2"
definition CIRC_ID_LEN_V4 :: nat where "CIRC_ID_LEN_V4 = 4"

definition CMD_PADDING :: u8 where "CMD_PADDING = 0"
definition CMD_RELAY :: u8 where "CMD_RELAY = 3"
definition CMD_DESTROY :: u8 where "CMD_DESTROY = 4"
definition CMD_CREATE_FAST :: u8 where "CMD_CREATE_FAST = 5"
definition CMD_CREATED_FAST :: u8 where "CMD_CREATED_FAST = 6"
definition CMD_VERSIONS :: u8 where "CMD_VERSIONS = 7"
definition CMD_NETINFO :: u8 where "CMD_NETINFO = 8"
definition CMD_RELAY_EARLY :: u8 where "CMD_RELAY_EARLY = 9"
definition CMD_CREATE2 :: u8 where "CMD_CREATE2 = 10"
definition CMD_CREATED2 :: u8 where "CMD_CREATED2 = 11"
definition CMD_VPADDING :: u8 where "CMD_VPADDING = 128"
definition CMD_CERTS :: u8 where "CMD_CERTS = 129"
definition CMD_AUTH_CHALLENGE :: u8 where "CMD_AUTH_CHALLENGE = 130"

named_theorems cell_consts \<open>the constants of cell.rs\<close>

lemmas cell_const_defs [cell_consts] =
  CELL_BODY_LEN_def CIRC_ID_LEN_V2_def CIRC_ID_LEN_V4_def CMD_PADDING_def CMD_RELAY_def
  CMD_DESTROY_def CMD_CREATE_FAST_def CMD_CREATED_FAST_def CMD_VERSIONS_def CMD_NETINFO_def
  CMD_RELAY_EARLY_def CMD_CREATE2_def CMD_CREATED2_def CMD_VPADDING_def CMD_CERTS_def
  CMD_AUTH_CHALLENGE_def

definition is_variable_length :: "u8 \<Rightarrow> bool" where
  "is_variable_length cmd \<longleftrightarrow> cmd = CMD_VERSIONS \<or> 128 \<le> cmd"

record cell =
  circ_id :: nat
  command :: u8
  body :: bytes

section \<open>Operations\<close>

definition cell_new :: "nat \<Rightarrow> u8 \<Rightarrow> bytes \<Rightarrow> cell io_result" where
  "cell_new cid cmd bs =
     (if is_variable_length cmd then
        if length bs > u16_max then Inl (invalid_data ''variable-length cell body too long'')
        else Inr \<lparr>circ_id = cid, command = cmd, body = bs\<rparr>
      else if length bs > CELL_BODY_LEN then Inl (invalid_data ''fixed-length cell body too long'')
      else Inr \<lparr>circ_id = cid, command = cmd, body = resize CELL_BODY_LEN 0 bs\<rparr>)"

definition encode :: "nat \<Rightarrow> cell \<Rightarrow> bytes" where
  "encode circ_id_len c =
     (if circ_id_len = CIRC_ID_LEN_V2 then u16_to_be (wrap_u16 (circ_id c))
      else u32_to_be (circ_id c)) @
     [command c] @
     (if is_variable_length (command c) then u16_to_be (wrap_u16 (length (body c))) else []) @
     body c"

text \<open>
  \<open>try_parse\<close> answers \<open>Inr None\<close> when more bytes are needed. The reads of \<^verbatim>\<open>buf\<close> are all below the
  length already checked, so \<open>!\<close> never reads out of range.
\<close>

definition try_parse :: "bytes \<Rightarrow> nat \<Rightarrow> (cell \<times> nat) option io_result" where
  "try_parse buf circ_id_len =
     (let header = circ_id_len + 1 in
      if length buf < header then Inr None
      else
        and_then
          (if circ_id_len = CIRC_ID_LEN_V2 then Inr (u16_from_be (buf ! 0) (buf ! 1))
           else if circ_id_len = CIRC_ID_LEN_V4
             then Inr (u32_from_be (buf ! 0) (buf ! 1) (buf ! 2) (buf ! 3))
           else Inl (invalid_data ''bad CircID width''))
          (\<lambda>cid.
            let cmd = buf ! circ_id_len in
            if is_variable_length cmd \<and> length buf < header + 2 then Inr None
            else
              let (body_start, body_len) =
                    (if is_variable_length cmd
                     then (header + 2, u16_from_be (buf ! header) (buf ! (header + 1)))
                     else (header, CELL_BODY_LEN));
                  total = body_start + body_len
              in if length buf < total then Inr None
                 else Inr (Some (\<lparr>circ_id = cid, command = cmd,
                                  body = slice body_start total buf\<rparr>, total))))"

text \<open>\<^verbatim>\<open>Read::read_exact\<close> on a finite byte stream: the bytes read and the rest.\<close>

definition read_exact :: "nat \<Rightarrow> bytes \<Rightarrow> (bytes \<times> bytes) io_result" where
  "read_exact n input =
     (if length input < n then Inl (IoError UnexpectedEof ''failed to fill whole buffer'')
      else Inr (take n input, drop n input))"

definition read_from :: "bytes \<Rightarrow> nat \<Rightarrow> (cell \<times> bytes) io_result" where
  "read_from input circ_id_len =
     and_then (read_exact (circ_id_len + 1) input) (\<lambda>(header, input).
     and_then
       (if is_variable_length (header ! circ_id_len) then
          and_then (read_exact 2 input) (\<lambda>(len_bytes, input).
          and_then (read_exact (u16_from_be (len_bytes ! 0) (len_bytes ! 1)) input) (\<lambda>(bs, input).
            Inr (header @ len_bytes @ bs, input)))
        else
          and_then (read_exact CELL_BODY_LEN input) (\<lambda>(bs, input). Inr (header @ bs, input)))
       (\<lambda>(buf, input).
          and_then (try_parse buf circ_id_len) (\<lambda>r.
            case r of Some (c, _) \<Rightarrow> Inr (c, input) | None \<Rightarrow> Inl (invalid_data ''short cell''))))"

text \<open>
  The offset check is on \<^verbatim>\<open>usize\<close>; the buffers are cell bodies, so the sum does not wrap.
\<close>

definition be_u16 :: "bytes \<Rightarrow> nat \<Rightarrow> nat io_result" where
  "be_u16 buf off =
     (if off + 2 > length buf then Inl (invalid_data ''truncated u16'')
      else Inr (u16_from_be (buf ! off) (buf ! (off + 1))))"

section \<open>Well-formed cells\<close>

text \<open>
  What \<open>cell_new\<close> establishes: a fixed-length cell has exactly the body length, a variable-length
  one fits its length field. The CircID must fit the width it is sent with.
\<close>

definition wf_cell :: "nat \<Rightarrow> cell \<Rightarrow> bool" where
  "wf_cell circ_id_len c \<longleftrightarrow>
     circ_id c \<le> (if circ_id_len = CIRC_ID_LEN_V2 then u16_max else u32_max) \<and>
     (if is_variable_length (command c) then length (body c) \<le> u16_max
      else length (body c) = CELL_BODY_LEN)"

abbreviation link_width :: "nat \<Rightarrow> bool" where
  "link_width w \<equiv> w = CIRC_ID_LEN_V2 \<or> w = CIRC_ID_LEN_V4"

lemma cell_new_wf:
  "cell_new cid cmd bs = Inr c \<Longrightarrow>
     cid \<le> (if w = CIRC_ID_LEN_V2 then u16_max else u32_max) \<Longrightarrow> wf_cell w c"
  by (auto simp: cell_new_def wf_cell_def split: if_splits)

lemma cell_new_fields:
  "cell_new cid cmd bs = Inr c \<Longrightarrow> circ_id c = cid \<and> command c = cmd \<and> take (length bs) (body c) = bs"
  by (auto simp: cell_new_def resize_def split: if_splits)

lemma length_encode:
  "link_width w \<Longrightarrow>
   length (encode w c) = w + 1 + (if is_variable_length (command c) then 2 else 0) + length (body c)"
  by (auto simp: encode_def cell_consts)

lemma try_parse_no_error: "link_width w \<Longrightarrow> \<exists>r. try_parse buf w = Inr r"
  by (auto simp: try_parse_def Let_def split: prod.splits)

text \<open>The parser on a buffer whose header is there, one equation per CircID width.\<close>

definition parse_after_header :: "nat \<Rightarrow> nat \<Rightarrow> u8 \<Rightarrow> bytes \<Rightarrow> (cell \<times> nat) option" where
  "parse_after_header header cid cmd rest =
     (if is_variable_length cmd then
        (case rest of
           l0 # l1 # bs \<Rightarrow>
             (let n = u16_from_be l0 l1 in
              if length bs < n then None
              else Some (\<lparr>circ_id = cid, command = cmd, body = take n bs\<rparr>, header + 2 + n))
         | _ \<Rightarrow> None)
      else if length rest < CELL_BODY_LEN then None
      else Some (\<lparr>circ_id = cid, command = cmd, body = take CELL_BODY_LEN rest\<rparr>,
                 header + CELL_BODY_LEN))"

lemma try_parse_v2:
  "try_parse (b0 # b1 # cmd # rest) CIRC_ID_LEN_V2 =
     Inr (parse_after_header 3 (u16_from_be b0 b1) cmd rest)"
  by (cases rest; cases "tl rest")
    (auto simp: try_parse_def parse_after_header_def Let_def cell_const_defs slice_def)

lemma try_parse_v4:
  "try_parse (b0 # b1 # b2 # b3 # cmd # rest) CIRC_ID_LEN_V4 =
     Inr (parse_after_header 5 (u32_from_be b0 b1 b2 b3) cmd rest)"
  by (cases rest; cases "tl rest")
    (auto simp: try_parse_def parse_after_header_def Let_def cell_const_defs slice_def)

lemma try_parse_short: "length buf \<le> w \<Longrightarrow> try_parse buf w = Inr None"
  by (simp add: try_parse_def)

lemma long_bufE:
  assumes "link_width w" and "w < length buf"
  obtains b0 b1 cmd rest where "w = CIRC_ID_LEN_V2" and "buf = b0 # b1 # cmd # rest"
  | b0 b1 b2 b3 cmd rest where "w = CIRC_ID_LEN_V4" and "buf = b0 # b1 # b2 # b3 # cmd # rest"
proof -
  have "(\<exists>b0 b1 cmd rest. buf = b0 # b1 # cmd # rest)" if "2 < length buf"
    using that by (auto simp: numeral_2_eq_2 Suc_less_eq2 length_Suc_conv dest!: Suc_leI Suc_le_length_iff [THEN iffD1])
  moreover have "(\<exists>b0 b1 b2 b3 cmd rest. buf = b0 # b1 # b2 # b3 # cmd # rest)" if "4 < length buf"
    using that by (auto simp: eval_nat_numeral dest!: Suc_leI Suc_le_length_iff [THEN iffD1])
  ultimately show thesis
    using assms that by (auto simp: cell_const_defs)
qed

lemma parse_after_header_SomeD:
  assumes "parse_after_header header cid cmd rest = Some (c, n)"
  shows "circ_id c = cid" and "command c = cmd" and "header \<le> n" and "n - header \<le> length rest"
    and "if is_variable_length cmd then length (body c) \<le> u16_max else length (body c) = CELL_BODY_LEN"
    and "(if is_variable_length cmd then u16_to_be (length (body c)) else []) @ body c =
           take (n - header) rest"
  using assms
  by (auto simp: parse_after_header_def Let_def split: if_splits list.splits)

lemma take_header:
  "take (3 + m) (b0 # b1 # cmd # rest) = b0 # b1 # cmd # take m rest"
  "take (5 + m) (b0 # b1 # b2 # b3 # cmd # rest) = b0 # b1 # b2 # b3 # cmd # take m rest"
  by (simp_all add: numeral_eq_Suc)

lemma drop_header:
  "drop (5 + m) (b0 # b1 # b2 # b3 # b4 # rest) = drop m rest"
  "drop (7 + m) (b0 # b1 # b2 # b3 # b4 # b5 # b6 # rest) = drop m rest"
  by (simp_all add: numeral_eq_Suc)

lemma try_parse_SomeD:
  assumes "try_parse buf w = Inr (Some (c, n))"
  shows try_parse_width: "link_width w" and try_parse_progress: "w < n"
    and try_parse_total: "n \<le> length buf" and try_parse_wf: "wf_cell w c"
    and try_parse_encode: "encode w c = take n buf"
proof -
  show w: "link_width w"
    using assms by (auto simp: try_parse_def Let_def split: if_splits)
  have "w < length buf"
    using assms try_parse_short [of buf w] by (cases "length buf \<le> w") auto
  with w have "w < n \<and> n \<le> length buf \<and> wf_cell w c \<and> encode w c = take n buf"
  proof (cases rule: long_bufE)
    case (1 b0 b1 cmd rest)
    with assms have p: "parse_after_header 3 (u16_from_be b0 b1) cmd rest = Some (c, n)"
      by (simp add: try_parse_v2)
    obtain m where "n = 3 + m"
      using parse_after_header_SomeD(3) [OF p] le_Suc_ex by blast
    with parse_after_header_SomeD [OF p] 1 show ?thesis
      by (auto simp: wf_cell_def encode_def cell_const_defs width_simps take_header split: if_splits)
  next
    case (2 b0 b1 b2 b3 cmd rest)
    with assms have p: "parse_after_header 5 (u32_from_be b0 b1 b2 b3) cmd rest = Some (c, n)"
      by (simp add: try_parse_v4)
    obtain m where "n = 5 + m"
      using parse_after_header_SomeD(3) [OF p] le_Suc_ex by blast
    with parse_after_header_SomeD [OF p] 2 show ?thesis
      by (auto simp: wf_cell_def encode_def cell_const_defs width_simps take_header split: if_splits)
  qed
  then show "w < n" "n \<le> length buf" "wf_cell w c" "encode w c = take n buf"
    by blast+
qed

lemma try_parse_encode_append:
  assumes "link_width w" and "wf_cell w c"
  shows "try_parse (encode w c @ rest) w = Inr (Some (c, length (encode w c)))"
  using assms
  by (auto simp: encode_def wf_cell_def u16_to_be_def u32_to_be_def
        try_parse_v2 [unfolded CIRC_ID_LEN_V2_def] try_parse_v4 [unfolded CIRC_ID_LEN_V4_def]
        parse_after_header_def width_simps u16_be_roundtrip u32_be_roundtrip cell_const_defs)

text \<open>
  More input never changes a parsed cell, so a proper prefix of an encoding cannot parse: it would
  have to be its own encoding.
\<close>

lemma try_parse_append:
  assumes "try_parse buf w = Inr (Some (c, n))"
  shows "try_parse (buf @ extra) w = Inr (Some (c, n))"
proof -
  have "buf @ extra = encode w c @ (drop n buf @ extra)"
    using try_parse_SomeD(5) [OF assms] by simp
  moreover have "length (encode w c) = n"
    using try_parse_SomeD(3,5) [OF assms] by simp
  ultimately show ?thesis
    using try_parse_encode_append try_parse_SomeD(1,4) [OF assms] by metis
qed

lemma try_parse_prefix:
  assumes "link_width w" and "wf_cell w c" and "k < length (encode w c)"
  shows "try_parse (take k (encode w c)) w = Inr None"
proof -
  obtain r where r: "try_parse (take k (encode w c)) w = Inr r"
    using try_parse_no_error [OF assms(1)] by blast
  have "r = None"
  proof (rule ccontr)
    assume "r \<noteq> None"
    then obtain c' n where r': "try_parse (take k (encode w c)) w = Inr (Some (c', n))"
      using r by auto
    from try_parse_append [OF r', of "drop k (encode w c)"]
    have "try_parse (encode w c @ []) w = Inr (Some (c', n))"
      by simp
    then have "n = length (encode w c)"
      using try_parse_encode_append [OF assms(1,2), of "[]"] by simp
    with try_parse_SomeD(3) [OF r'] assms(3) show False
      by simp
  qed
  with r show ?thesis by simp
qed

section \<open>The framing interface\<close>

text \<open>
  \<open>parses\<close> is what a receiver does with any parser: take cells off the front while there is a whole
  one. The locale states the laws a codec owes its receiver; inside it, a stream of encoded cells
  followed by any incomplete one is taken apart into exactly those cells.
\<close>

inductive parses :: "(bytes \<Rightarrow> ('c \<times> nat) option io_result) \<Rightarrow> bytes \<Rightarrow> 'c list \<Rightarrow> bytes \<Rightarrow> bool"
  for parse where
  wait: "parse buf = Inr None \<Longrightarrow> parses parse buf [] buf"
| take_one: "parse buf = Inr (Some (c, n)) \<Longrightarrow> parses parse (drop n buf) cs rest \<Longrightarrow>
     parses parse buf (c # cs) rest"

inductive_cases parses_NilE: "parses parse buf [] rest"
inductive_cases parses_ConsE: "parses parse buf (c # cs) rest"

lemma parses_deterministic:
  "parses parse buf cs rest \<Longrightarrow> parses parse buf cs' rest' \<Longrightarrow> cs = cs' \<and> rest = rest'"
proof (induction arbitrary: cs' rule: parses.induct)
  case (wait buf)
  from wait(2,1) show ?case
    by (cases rule: parses.cases) simp_all
next
  case (take_one buf c n cs rest)
  from take_one(4,1-3) show ?case
    by (cases rule: parses.cases) auto
qed

locale framing =
  fixes enc :: "'c \<Rightarrow> bytes" and parse :: "bytes \<Rightarrow> ('c \<times> nat) option io_result"
    and wf :: "'c \<Rightarrow> bool"
  assumes parse_enc: "wf c \<Longrightarrow> parse (enc c @ rest) = Inr (Some (c, length (enc c)))"
    and parse_prefix: "wf c \<Longrightarrow> k < length (enc c) \<Longrightarrow> parse (take k (enc c)) = Inr None"
    and parse_empty: "parse [] = Inr None"
begin

lemma parses_stream:
  assumes "\<forall>c \<in> set cs. wf c" and "parse partial = Inr None"
  shows "parses parse (concat (map enc cs) @ partial) cs partial"
  using assms(1)
proof (induction cs)
  case Nil
  then show ?case using assms(2) by (simp add: parses.wait)
next
  case (Cons c cs)
  then have "parses parse (concat (map enc cs) @ partial) cs partial" by simp
  moreover have "parse (enc c @ concat (map enc cs) @ partial) = Inr (Some (c, length (enc c)))"
    using Cons.prems by (intro parse_enc) simp
  ultimately show ?case
    by (simp add: parses.take_one)
qed

text \<open>
  Feeding a stream in two pieces: whatever the first piece leaves over, put in front of the
  second piece, gives the remaining cells. This is what lets the receiver cut the stream where
  the network did.
\<close>

lemma stream_split:
  assumes "\<forall>c \<in> set cs. wf c" and "a @ b = concat (map enc cs)"
  shows "\<exists>cs1 cs2 left. cs = cs1 @ cs2 \<and> parses parse a cs1 left \<and> left @ b = concat (map enc cs2)"
  using assms
proof (induction cs arbitrary: a)
  case Nil
  then have "parses parse a [] a" by (simp add: parses.wait parse_empty)
  with Nil show ?case by fastforce
next
  case (Cons c cs)
  from Cons.prems(2) have "a @ b = enc c @ concat (map enc cs)" by simp
  then consider (whole) a' where "a = enc c @ a'" and "a' @ b = concat (map enc cs)"
    | (cut) us where "a @ us = enc c" and "us \<noteq> []" and "b = us @ concat (map enc cs)"
    unfolding append_eq_append_conv2 by (metis append.right_neutral append_Nil)
  then show ?case
  proof cases
    case whole
    moreover have "\<forall>c \<in> set cs. wf c" using Cons.prems(1) by simp
    ultimately obtain cs1 cs2 left where ih: "cs = cs1 @ cs2" "parses parse a' cs1 left"
      "left @ b = concat (map enc cs2)" using Cons.IH [of a'] by blast
    have "parse a = Inr (Some (c, length (enc c)))"
      using Cons.prems whole by (simp add: parse_enc)
    with ih whole have "parses parse a (c # cs1) left" by (simp add: parses.take_one)
    with ih show ?thesis by (metis append_Cons)
  next
    case cut
    then have "a = take (length a) (enc c)" "length a < length (enc c)"
      by (metis append_eq_conv_conj, metis append_eq_conv_conj length_append less_add_same_cancel1 length_greater_0_conv)
    with Cons.prems have "parse a = Inr None"
      by (metis list.set_intros(1) parse_prefix)
    then have "parses parse a [] a" by (rule parses.wait)
    with Cons.prems(2) show ?thesis by (metis append_Nil)
  qed
qed

end

interpretation v2: framing "encode CIRC_ID_LEN_V2" "\<lambda>buf. try_parse buf CIRC_ID_LEN_V2" "wf_cell CIRC_ID_LEN_V2"
  by unfold_locales
    (simp_all add: try_parse_encode_append try_parse_prefix try_parse_short cell_const_defs)

interpretation v4: framing "encode CIRC_ID_LEN_V4" "\<lambda>buf. try_parse buf CIRC_ID_LEN_V4" "wf_cell CIRC_ID_LEN_V4"
  by unfold_locales
    (simp_all add: try_parse_encode_append try_parse_prefix try_parse_short cell_const_defs)

section \<open>Properties\<close>

text \<open>
  A cell built by the constructor and sent with a CircID width it fits is parsed back from any
  stream that starts with its encoding: same CircID, same command, same body (the caller's bytes
  followed by the zero padding of a fixed-length cell), and the parser consumes exactly the
  encoding.
\<close>

theorem cell_roundtrip:
  assumes "cell_new cid cmd bs = Inr c" and "link_width w"
    and "cid \<le> (if w = CIRC_ID_LEN_V2 then u16_max else u32_max)"
  shows "try_parse (encode w c @ rest) w = Inr (Some (c, length (encode w c))) \<and>
    circ_id c = cid \<and> command c = cmd \<and> take (length bs) (body c) = bs"
  using try_parse_encode_append [OF assms(2) cell_new_wf [OF assms(1,3)]] cell_new_fields [OF assms(1)]
  by blast

text \<open>
  The incremental parser asks for more bytes on every proper prefix of a cell: it never fails on
  one and never finds a cell in one.
\<close>

theorem cell_prefix_waits:
  assumes "link_width w" and "wf_cell w c" and "k < length (encode w c)"
  shows "try_parse (take k (encode w c)) w = Inr None"
  using assms by (rule try_parse_prefix)

theorem cell_prefix_waits_witness:
  "try_parse (take 6 (encode 4 \<lparr>circ_id = 7, command = 129, body = [1, 2, 3]\<rparr>)) 4 = Inr None"
  by (rule cell_prefix_waits)
    (simp_all add: wf_cell_def encode_def is_variable_length_def cell_const_defs)

text \<open>
  The blocking reader of the link handshake and the incremental parser of the I/O loop read the
  same cells: \<open>read_from\<close> returns what \<open>try_parse\<close> finds at the front of the stream and leaves the
  rest, and fails exactly when the stream ends before the cell does.
\<close>

theorem read_from_try_parse:
  assumes "link_width w"
  shows "read_from input w =
     (case try_parse input w of
        Inr (Some (c, n)) \<Rightarrow> Inr (c, drop n input)
      | _ \<Rightarrow> Inl (IoError UnexpectedEof ''failed to fill whole buffer''))"
proof (cases "w < length input")
  case True
  with assms show ?thesis
  proof (cases rule: long_bufE)
    case (1 b0 b1 cmd rest)
    then show ?thesis
      by (cases rest; cases "tl rest")
        (auto simp: read_from_def read_exact_def try_parse_v2 [unfolded CIRC_ID_LEN_V2_def]
          parse_after_header_def Let_def cell_const_defs drop_header)
  next
    case (2 b0 b1 b2 b3 cmd rest)
    then show ?thesis
      by (cases rest; cases "tl rest")
        (auto simp: read_from_def read_exact_def try_parse_v4 [unfolded CIRC_ID_LEN_V4_def]
          parse_after_header_def Let_def cell_const_defs drop_header)
  qed
next
  case False
  then show ?thesis
    by (simp add: try_parse_short read_from_def read_exact_def)
qed

end
