(* ===== verification/Relay_Crypto.thy ===== *)
theory Relay_Crypto
  imports Cell_Framing
begin

text \<open>
  Relay cells and their onion encryption, from \<^verbatim>\<open>src/tor/circuit.rs\<close>: the per-hop ciphers and
  running digests, \<open>build_relay_cell\<close> and \<open>decrypt_inbound\<close>.

  AES-CTR, SHA-1 and SHA3-256 come from OpenSSL (\<^verbatim>\<open>src/ffi/aes.rs\<close> and \<^verbatim>\<open>src/ffi/hash.rs\<close> only call
  it), so they are the fields of a parameter \<open>crypto\<close>: the key stream of a key as a function of the
  position, and the hash of a byte string. A cipher's state is its key and how much key stream it
  has used; a running digest is what it has absorbed. Random padding is an argument too.
\<close>

section \<open>Ciphers, digests and hops\<close>

record crypto =
  aes128_ks :: "bytes \<Rightarrow> nat \<Rightarrow> u8"
  aes256_ks :: "bytes \<Rightarrow> nat \<Rightarrow> u8"
  sha1 :: "bytes \<Rightarrow> bytes"
  sha3_256 :: "bytes \<Rightarrow> bytes"

datatype hop_cipher = Aes128 bytes nat | Aes256 bytes nat

fun keystream :: "crypto \<Rightarrow> hop_cipher \<Rightarrow> nat \<Rightarrow> u8" where
  "keystream C (Aes128 k n) = (\<lambda>i. aes128_ks C k (n + i))"
| "keystream C (Aes256 k n) = (\<lambda>i. aes256_ks C k (n + i))"

fun advance :: "nat \<Rightarrow> hop_cipher \<Rightarrow> hop_cipher" where
  "advance m (Aes128 k n) = Aes128 k (n + m)"
| "advance m (Aes256 k n) = Aes256 k (n + m)"

definition xor_stream :: "(nat \<Rightarrow> u8) \<Rightarrow> bytes \<Rightarrow> bytes" where
  "xor_stream ks buf = map2 (\<lambda>i b. b XOR ks i) [0..<length buf] buf"

definition cipher_apply :: "crypto \<Rightarrow> hop_cipher \<Rightarrow> bytes \<Rightarrow> bytes \<times> hop_cipher" where
  "cipher_apply C c buf = (xor_stream (keystream C c) buf, advance (length buf) c)"

datatype digest = Sha1 bytes | Sha3_256 bytes

fun digest_update :: "digest \<Rightarrow> bytes \<Rightarrow> digest" where
  "digest_update (Sha1 acc) bs = Sha1 (acc @ bs)"
| "digest_update (Sha3_256 acc) bs = Sha3_256 (acc @ bs)"

fun digest_value :: "crypto \<Rightarrow> digest \<Rightarrow> bytes" where
  "digest_value C (Sha1 acc) = sha1 C acc"
| "digest_value C (Sha3_256 acc) = sha3_256 C acc"

definition peek_prefix :: "crypto \<Rightarrow> nat \<Rightarrow> digest \<Rightarrow> bytes" where
  "peek_prefix C n d = take n (digest_value C d)"

record hop =
  forward_cipher :: hop_cipher
  backward_cipher :: hop_cipher
  forward_digest :: digest
  backward_digest :: digest

record circuit_keys =
  df :: bytes
  db :: bytes
  kf :: bytes
  kb :: bytes

definition hop_build :: "hop_cipher \<Rightarrow> hop_cipher \<Rightarrow> digest \<Rightarrow> bytes \<Rightarrow> bytes \<Rightarrow> hop" where
  "hop_build fc bc d f b =
     \<lparr>forward_cipher = fc, backward_cipher = bc, forward_digest = digest_update d f,
      backward_digest = digest_update d b\<rparr>"

definition hop_new :: "circuit_keys \<Rightarrow> hop" where
  "hop_new keys = hop_build (Aes128 (kf keys) 0) (Aes128 (kb keys) 0) (Sha1 []) (df keys) (db keys)"

definition virtual_hop :: "circuit_keys \<Rightarrow> hop" where
  "virtual_hop keys =
     hop_build (Aes256 (kf keys) 0) (Aes256 (kb keys) 0) (Sha3_256 []) (df keys) (db keys)"

section \<open>Building a relay cell\<close>

definition RELAY_HEADER_LEN :: nat where "RELAY_HEADER_LEN = 11"
definition RELAY_DATA_MAX :: nat where "RELAY_DATA_MAX = CELL_BODY_LEN - RELAY_HEADER_LEN"
definition MAX_RELAY_EARLY :: nat where "MAX_RELAY_EARLY = 8"

text \<open>The part of the circuit's state that a relay cell touches.\<close>

record onion =
  hops :: "hop list"
  relay_early_left :: nat
  last_recv_digest :: bytes

text \<open>
  The body before encryption, with the digest field zero: \<^verbatim>\<open>rng n\<close> is \<^verbatim>\<open>rand::fill\<close> of \<open>n\<close> bytes.
\<close>

definition plain_body :: "(nat \<Rightarrow> bytes io_result) \<Rightarrow> u8 \<Rightarrow> nat \<Rightarrow> bytes \<Rightarrow> bytes io_result" where
  "plain_body rng cmd stream_id data =
     (let buf = replicate CELL_BODY_LEN 0;
          buf = buf[0 := cmd];
          buf = splice 3 (u16_to_be stream_id) buf;
          buf = splice 9 (u16_to_be (wrap_u16 (length data))) buf;
          buf = splice RELAY_HEADER_LEN data buf;
          pad_start = RELAY_HEADER_LEN + length data
      in if CELL_BODY_LEN > pad_start + 4
         then and_then (rng (CELL_BODY_LEN - (pad_start + 4)))
                (\<lambda>r. Inr (take (pad_start + 4) buf @ r))
         else Inr buf)"

text \<open>One layer per hop index, in the order given; each hop's cipher moves on.\<close>

fun apply_layers :: "crypto \<Rightarrow> nat list \<Rightarrow> hop list \<Rightarrow> bytes \<Rightarrow> bytes \<times> hop list" where
  "apply_layers C [] hs buf = (buf, hs)"
| "apply_layers C (h # order) hs buf =
     (let (buf', c) = cipher_apply C (forward_cipher (hs ! h)) buf
      in apply_layers C order (hs[h := (hs ! h)\<lparr>forward_cipher := c\<rparr>]) buf')"

definition build_relay_cell ::
    "crypto \<Rightarrow> (nat \<Rightarrow> bytes io_result) \<Rightarrow> nat \<Rightarrow> nat \<Rightarrow> u8 \<Rightarrow> nat \<Rightarrow> bytes \<Rightarrow> bool \<Rightarrow> 'a onion_scheme \<Rightarrow>
     cell io_result \<times> 'a onion_scheme" where
  "build_relay_cell C rng cid hop cmd stream_id data early st =
     (if length data > RELAY_DATA_MAX then (Inl (invalid_data ''relay message body too long''), st)
      else if hop \<ge> length (hops st)
        then (Inl (invalid_data ''relay cell addressed to a nonexistent hop''), st)
      else if early \<and> relay_early_left st = 0
        then (Inl (invalid_data ''circuit has no RELAY_EARLY cells left''), st)
      else
        let st = (if early then st\<lparr>relay_early_left := relay_early_left st - 1\<rparr> else st) in
        case plain_body rng cmd stream_id data of
          Inl e \<Rightarrow> (Inl e, st)
        | Inr plain \<Rightarrow>
            let target = hops st ! hop;
                d = digest_update (forward_digest target) plain;
                hs = (hops st)[hop := target\<lparr>forward_digest := d\<rparr>];
                buf = splice 5 (peek_prefix C 4 d) plain;
                (buf, hs) = apply_layers C (rev [0..<Suc hop]) hs buf;
                st = st\<lparr>hops := hs\<rparr>
            in (cell_new cid (if early then CMD_RELAY_EARLY else CMD_RELAY) buf, st))"

section \<open>Recognising an inbound cell\<close>

text \<open>
  The loop over the hops from \<open>index\<close> on, \<open>n\<close> of them left. \<^verbatim>\<open>body\<close> is changed in place.
\<close>

fun decrypt_loop :: "crypto \<Rightarrow> nat \<Rightarrow> nat \<Rightarrow> bytes \<Rightarrow> 'a onion_scheme \<Rightarrow>
    nat option \<times> bytes \<times> 'a onion_scheme" where
  "decrypt_loop C 0 index buf st = (None, buf, st)"
| "decrypt_loop C (Suc n) index buf st =
     (let h = hops st ! index;
          (buf, c) = cipher_apply C (backward_cipher h) buf;
          h = h\<lparr>backward_cipher := c\<rparr>;
          st = st\<lparr>hops := (hops st)[index := h]\<rparr>
      in if buf ! 1 \<noteq> 0 \<or> buf ! 2 \<noteq> 0 then decrypt_loop C n (Suc index) buf st
         else
           let claimed = slice 5 9 buf;
               zeroed = splice 5 [0, 0, 0, 0] buf;
               trial = digest_update (backward_digest h) zeroed;
               full = peek_prefix C 20 trial
           in if take 4 full = claimed
              then (Some index, zeroed,
                    st\<lparr>hops := (hops st)[index := h\<lparr>backward_digest := trial\<rparr>],
                       last_recv_digest := full\<rparr>)
              else decrypt_loop C n (Suc index) (splice 5 claimed zeroed) st)"

definition decrypt_inbound :: "crypto \<Rightarrow> bytes \<Rightarrow> 'a onion_scheme \<Rightarrow>
    nat option \<times> bytes \<times> 'a onion_scheme" where
  "decrypt_inbound C buf st = decrypt_loop C (length (hops st)) 0 buf st"

section \<open>The key stream\<close>

lemma length_xor_stream [simp]: "length (xor_stream ks buf) = length buf"
  by (simp add: xor_stream_def)

lemma nth_xor_stream [simp]: "i < length buf \<Longrightarrow> xor_stream ks buf ! i = buf ! i XOR ks i"
  by (simp add: xor_stream_def)

lemma xor_stream_involution [simp]: "xor_stream ks (xor_stream ks buf) = buf"
  by (rule nth_equalityI) (simp_all add: xor.assoc)

lemma xor_stream_commute: "xor_stream f (xor_stream g buf) = xor_stream g (xor_stream f buf)"
  by (rule nth_equalityI) (simp_all add: xor.left_commute xor.commute)

text \<open>Layers as a fold: the order in which key streams are applied does not matter.\<close>

definition layers :: "(nat \<Rightarrow> nat \<Rightarrow> u8) \<Rightarrow> nat list \<Rightarrow> bytes \<Rightarrow> bytes" where
  "layers ks order buf = fold (\<lambda>h. xor_stream (ks h)) order buf"

lemma layers_simps [simp]:
  "layers ks [] buf = buf" "layers ks (h # order) buf = layers ks order (xor_stream (ks h) buf)"
  "layers ks (a @ b) buf = layers ks b (layers ks a buf)"
  by (simp_all add: layers_def)

lemma length_layers [simp]: "length (layers ks order buf) = length buf"
  by (induction order arbitrary: buf) simp_all

lemma layers_xor_swap: "layers ks order (xor_stream f buf) = xor_stream f (layers ks order buf)"
  by (induction order arbitrary: buf) (simp_all add: xor_stream_commute)

lemma layers_cancel: "layers ks (rev order) (layers ks order buf) = buf"
  by (induction order arbitrary: buf) (simp_all add: layers_xor_swap)

lemma layers_cancel_rev: "layers ks order (layers ks (rev order) buf) = buf"
  using layers_cancel [of ks "rev order"] by simp

lemma layers_cong: "(\<And>h. h \<in> set order \<Longrightarrow> ks h = ks' h) \<Longrightarrow> layers ks order buf = layers ks' order buf"
  unfolding layers_def by (intro fold_cong) auto

abbreviation forward_ks :: "crypto \<Rightarrow> hop list \<Rightarrow> nat \<Rightarrow> nat \<Rightarrow> u8" where
  "forward_ks C hs h \<equiv> keystream C (forward_cipher (hs ! h))"

abbreviation backward_ks :: "crypto \<Rightarrow> hop list \<Rightarrow> nat \<Rightarrow> nat \<Rightarrow> u8" where
  "backward_ks C hs h \<equiv> keystream C (backward_cipher (hs ! h))"

lemma apply_layers_eq:
  assumes "distinct order" and "\<forall>h \<in> set order. h < length hs"
  shows "apply_layers C order hs buf =
     (layers (forward_ks C hs) order buf,
      map (\<lambda>i. if i \<in> set order
                then (hs ! i)\<lparr>forward_cipher := advance (length buf) (forward_cipher (hs ! i))\<rparr>
                else hs ! i) [0..<length hs])"
  using assms
proof (induction order arbitrary: hs buf)
  case Nil
  then show ?case by (simp add: map_nth)
next
  case (Cons h order)
  let ?hs = "hs[h := (hs ! h)\<lparr>forward_cipher := advance (length buf) (forward_cipher (hs ! h))\<rparr>]"
  have "layers (forward_ks C ?hs) order b = layers (forward_ks C hs) order b" for b
    by (rule layers_cong) (use Cons.prems in \<open>auto simp: nth_list_update\<close>)
  moreover have "apply_layers C order ?hs b = (layers (forward_ks C ?hs) order b,
      map (\<lambda>i. if i \<in> set order
                then (?hs ! i)\<lparr>forward_cipher := advance (length b) (forward_cipher (?hs ! i))\<rparr>
                else ?hs ! i) [0..<length ?hs])" for b
    using Cons by simp
  ultimately show ?case
    using Cons.prems by (auto simp: cipher_apply_def Let_def nth_list_update)
qed

section \<open>The plain body\<close>

text \<open>
  What \<^verbatim>\<open>rand::fill\<close> promises (OpenSSL's \<^verbatim>\<open>RAND_bytes\<close>): it fills the buffer it is given.
\<close>

definition fills :: "(nat \<Rightarrow> bytes io_result) \<Rightarrow> bool" where
  "fills rng \<longleftrightarrow> (\<forall>n bs. rng n = Inr bs \<longrightarrow> length bs = n)"

text \<open>The two digests of OpenSSL have the lengths their standards give them.\<close>

definition digest_sizes :: "crypto \<Rightarrow> bool" where
  "digest_sizes C \<longleftrightarrow> (\<forall>bs. length (sha1 C bs) = 20) \<and> (\<forall>bs. length (sha3_256 C bs) = 32)"

lemma length_peek_prefix:
  "digest_sizes C \<Longrightarrow> n \<le> 20 \<Longrightarrow> length (peek_prefix C n d) = n"
  by (cases d) (simp_all add: peek_prefix_def digest_sizes_def)

text \<open>A relay message as the format lays it out.\<close>

definition relay_format :: "u8 \<Rightarrow> nat \<Rightarrow> bytes \<Rightarrow> bytes \<Rightarrow> bytes \<Rightarrow> bytes" where
  "relay_format cmd stream_id dig data pad =
     [cmd, 0, 0] @ u16_to_be stream_id @ dig @ u16_to_be (length data) @ data @ pad"

lemma plain_body_format:
  assumes "plain_body rng cmd sid data = Inr plain" and "fills rng" and "length data \<le> RELAY_DATA_MAX"
  shows "\<exists>pad. plain = relay_format cmd sid [0, 0, 0, 0] data pad \<and> length plain = CELL_BODY_LEN"
proof -
  let ?H = "[cmd, 0, 0] @ u16_to_be sid @ replicate 4 0 @ u16_to_be (length data)"
  let ?k = "498 - length data"
  have data: "length data \<le> 498"
    using assms(3) by (simp add: RELAY_DATA_MAX_def RELAY_HEADER_LEN_def CELL_BODY_LEN_def)
  have w: "wrap_u16 (length data) = length data"
    using data by (intro wrap_u16_id) linarith
  have start: "(replicate CELL_BODY_LEN 0 :: bytes)[0 := cmd] = [cmd, 0, 0] @ replicate 506 0"
    by (simp add: CELL_BODY_LEN_def numeral_eq_Suc)
  have header: "splice 9 (u16_to_be (length data)) (splice 3 (u16_to_be sid)
      ((replicate CELL_BODY_LEN 0)[0 := cmd])) = ?H @ replicate 498 0"
    unfolding start splice_def by (simp add: u16_to_be_def)
  have filled: "splice RELAY_HEADER_LEN data (splice 9 (u16_to_be (wrap_u16 (length data)))
      (splice 3 (u16_to_be sid) ((replicate CELL_BODY_LEN 0)[0 := cmd]))) = ?H @ data @ replicate ?k 0"
    unfolding w header by (subst splice_append) (simp_all add: RELAY_HEADER_LEN_def)
  have l: "length ?H = 11" by simp
  show ?thesis
  proof (cases "length data < 494")
    case True
    have cut: "take (15 + length data) (?H @ data @ replicate ?k 0) = ?H @ data @ replicate 4 0"
      unfolding take_append l using True by simp
    obtain r where "rng (494 - length data) = Inr r"
      and "plain = take (15 + length data) (?H @ data @ replicate ?k 0) @ r"
      using assms(1) True unfolding plain_body_def Let_def filled
      by (auto simp: RELAY_HEADER_LEN_def CELL_BODY_LEN_def)
    then have p: "plain = ?H @ data @ replicate 4 0 @ r" and "length r = 494 - length data"
      using assms(2) unfolding cut fills_def by simp_all
    then show ?thesis
      using True by (intro exI [of _ "replicate 4 0 @ r"])
        (simp add: relay_format_def CELL_BODY_LEN_def numeral_eq_Suc)
  next
    case False
    then have "plain = ?H @ data @ replicate ?k 0"
      using assms(1) unfolding plain_body_def Let_def filled
      by (simp add: RELAY_HEADER_LEN_def CELL_BODY_LEN_def)
    then show ?thesis
      using data by (intro exI [of _ "replicate ?k 0"])
        (simp add: relay_format_def CELL_BODY_LEN_def numeral_eq_Suc)
  qed
qed

lemma length4E:
  assumes "length xs = 4"
  obtains a b c d where "xs = [a, b, c, d]"
  using assms by (auto simp: numeral_eq_Suc length_Suc_conv)

lemma relay_format_fields:
  assumes "length dig = 4" and "sid \<le> u16_max" and "length data \<le> RELAY_DATA_MAX"
  shows "relay_format cmd sid dig data pad ! 0 = cmd"
    and "relay_format cmd sid dig data pad ! 1 = 0" and "relay_format cmd sid dig data pad ! 2 = 0"
    and "u16_from_be (relay_format cmd sid dig data pad ! 3) (relay_format cmd sid dig data pad ! 4) = sid"
    and "u16_from_be (relay_format cmd sid dig data pad ! 9) (relay_format cmd sid dig data pad ! 10) = length data"
    and "slice 11 (11 + length data) (relay_format cmd sid dig data pad) = data"
    and "slice 5 9 (relay_format cmd sid dig data pad) = dig"
proof -
  obtain a b c d where dig: "dig = [a, b, c, d]" using assms(1) by (rule length4E)
  have len: "length data \<le> u16_max"
    using assms(3) by (simp add: RELAY_DATA_MAX_def RELAY_HEADER_LEN_def CELL_BODY_LEN_def)
  show "relay_format cmd sid dig data pad ! 0 = cmd" "relay_format cmd sid dig data pad ! 1 = 0"
    "relay_format cmd sid dig data pad ! 2 = 0" "slice 5 9 (relay_format cmd sid dig data pad) = dig"
    by (simp_all add: relay_format_def dig u16_to_be_def slice_def)
  show "u16_from_be (relay_format cmd sid dig data pad ! 3) (relay_format cmd sid dig data pad ! 4) = sid"
    "u16_from_be (relay_format cmd sid dig data pad ! 9) (relay_format cmd sid dig data pad ! 10) = length data"
    using assms(2) len by (simp_all add: relay_format_def dig u16_to_be_def u16_be_roundtrip)
  show "slice 11 (11 + length data) (relay_format cmd sid dig data pad) = data"
    by (simp add: relay_format_def dig u16_to_be_def slice_def)
qed

lemma splice_relay_format:
  assumes "length dig = 4" and "length dig' = 4"
  shows "splice 5 dig' (relay_format cmd sid dig data pad) = relay_format cmd sid dig' data pad"
proof -
  obtain a b c d a' b' c' d' where "dig = [a, b, c, d]" "dig' = [a', b', c', d']"
    using assms by (metis length4E)
  then show ?thesis by (simp add: relay_format_def splice_def u16_to_be_def)
qed

section \<open>Peeling\<close>

text \<open>
  \<open>recognised C h buf\<close>: hop \<open>h\<close>'s check of a body after its own layer is off, the one test both
  ends of a hop make.
\<close>

definition recognised :: "crypto \<Rightarrow> digest \<Rightarrow> bytes \<Rightarrow> bool" where
  "recognised C d buf \<longleftrightarrow> buf ! 1 = 0 \<and> buf ! 2 = 0 \<and>
     take 4 (peek_prefix C 20 (digest_update d (splice 5 [0, 0, 0, 0] buf))) = slice 5 9 buf"

text \<open>What the first \<open>i + 1\<close> hops' ciphers make of an inbound body.\<close>

abbreviation peeled :: "crypto \<Rightarrow> hop list \<Rightarrow> nat \<Rightarrow> bytes \<Rightarrow> bytes" where
  "peeled C hs i buf \<equiv> layers (backward_ks C hs) [0..<Suc i] buf"

text \<open>The hops after an inbound body has passed the ciphers of hops \<open>lo\<close> up to \<open>hi\<close>.\<close>

definition passed :: "nat \<Rightarrow> nat \<Rightarrow> nat \<Rightarrow> hop list \<Rightarrow> hop list" where
  "passed len lo hi hs =
     map (\<lambda>i. if lo \<le> i \<and> i < hi
               then (hs ! i)\<lparr>backward_cipher := advance len (backward_cipher (hs ! i))\<rparr> else hs ! i)
       [0..<length hs]"

lemma length_passed [simp]: "length (passed len lo hi hs) = length hs"
  by (simp add: passed_def)

lemma nth_passed [simp]:
  "i < length hs \<Longrightarrow> passed len lo hi hs ! i =
     (if lo \<le> i \<and> i < hi then (hs ! i)\<lparr>backward_cipher := advance len (backward_cipher (hs ! i))\<rparr>
      else hs ! i)"
  by (simp add: passed_def)

lemma passed_empty [simp]: "passed len k k hs = hs"
  by (rule nth_equalityI) auto

lemma passed_step:
  "k < length hs \<Longrightarrow> passed len (Suc k) (k + Suc n)
     (hs[k := (hs ! k)\<lparr>backward_cipher := advance len (backward_cipher (hs ! k))\<rparr>]) = passed len k (k + Suc n) hs"
  by (rule nth_equalityI) (auto simp: nth_list_update)

lemma decrypt_loop_skip:
  assumes "\<forall>j < n. \<not> recognised C (backward_digest (hops st ! (k + j)))
             (layers (backward_ks C (hops st)) [k..<Suc (k + j)] buf)"
    and "k + n \<le> length (hops st)" and "9 \<le> length buf"
  shows "decrypt_loop C (n + m) k buf st =
     decrypt_loop C m (k + n) (layers (backward_ks C (hops st)) [k..<k + n] buf)
       (st\<lparr>hops := passed (length buf) k (k + n) (hops st)\<rparr>)"
  using assms
proof (induction n arbitrary: k buf st)
  case 0
  then show ?case by simp
next
  case (Suc n)
  let ?h = "hops st ! k"
  let ?b = "xor_stream (backward_ks C (hops st) k) buf"
  let ?st = "st\<lparr>hops := (hops st)[k := ?h\<lparr>backward_cipher := advance (length buf) (backward_cipher ?h)\<rparr>]\<rparr>"
  have same: "layers (backward_ks C (hops ?st)) [Suc k..<i] b = layers (backward_ks C (hops st)) [Suc k..<i] b" for i b
    by (rule layers_cong) auto
  have one: "layers (backward_ks C (hops st)) [k..<Suc (k + j)] buf = layers (backward_ks C (hops st)) [Suc k..<Suc (k + j)] ?b" for j
    by (simp add: upt_conv_Cons del: upt_Suc)
  have "\<not> recognised C (backward_digest ?h) ?b"
    using Suc.prems(1) [rule_format, of 0] by simp
  moreover have "splice 5 (slice 5 9 ?b) (splice 5 [0, 0, 0, 0] ?b) = ?b"
    using Suc.prems(3) splice_slice_same [of 5 4 ?b] by (subst splice_twice) simp_all
  ultimately have step: "decrypt_loop C (Suc n + m) k buf st = decrypt_loop C (n + m) (Suc k) ?b ?st"
    by (auto simp: cipher_apply_def Let_def recognised_def)
  have unseen: "\<forall>j < n. \<not> recognised C (backward_digest (hops ?st ! (Suc k + j)))
      (layers (backward_ks C (hops ?st)) [Suc k..<Suc (Suc k + j)] ?b)"
  proof (intro allI impI)
    fix j
    assume "j < n"
    then have "\<not> recognised C (backward_digest (hops st ! (k + Suc j)))
        (layers (backward_ks C (hops st)) [k..<Suc (k + Suc j)] buf)"
      using Suc.prems(1) by blast
    then show "\<not> recognised C (backward_digest (hops ?st ! (Suc k + j)))
        (layers (backward_ks C (hops ?st)) [Suc k..<Suc (Suc k + j)] ?b)"
      unfolding same one by simp
  qed
  have "decrypt_loop C (n + m) (Suc k) ?b ?st =
      decrypt_loop C m (Suc k + n) (layers (backward_ks C (hops ?st)) [Suc k..<Suc k + n] ?b)
        (?st\<lparr>hops := passed (length ?b) (Suc k) (Suc k + n) (hops ?st)\<rparr>)"
    by (rule Suc.IH [OF unseen]) (use Suc.prems in simp_all)
  moreover have "layers (backward_ks C (hops st)) [Suc k..<Suc k + n] ?b = layers (backward_ks C (hops st)) [k..<k + Suc n] buf"
    using one [of n] by simp
  ultimately show ?case
    using passed_step [of k "hops st" "length buf" n] Suc.prems(2) unfolding step same by simp
qed

lemma decrypt_inbound_none:
  assumes "\<forall>j < length (hops st). \<not> recognised C (backward_digest (hops st ! j)) (peeled C (hops st) j buf)"
    and "9 \<le> length buf"
  shows "decrypt_inbound C buf st =
     (None, layers (backward_ks C (hops st)) [0..<length (hops st)] buf,
      st\<lparr>hops := passed (length buf) 0 (length (hops st)) (hops st)\<rparr>)"
  using decrypt_loop_skip [of "length (hops st)" C st 0 buf 0] assms by (simp add: decrypt_inbound_def)

lemma decrypt_inbound_some:
  assumes "i < length (hops st)"
    and "\<forall>j < i. \<not> recognised C (backward_digest (hops st ! j)) (peeled C (hops st) j buf)"
    and "recognised C (backward_digest (hops st ! i)) (peeled C (hops st) i buf)"
    and "9 \<le> length buf"
  shows "decrypt_inbound C buf st =
     (let zeroed = splice 5 [0, 0, 0, 0] (peeled C (hops st) i buf);
          d = digest_update (backward_digest (hops st ! i)) zeroed;
          hs = passed (length buf) 0 (Suc i) (hops st)
      in (Some i, zeroed,
          st\<lparr>hops := hs[i := (hs ! i)\<lparr>backward_digest := d\<rparr>], last_recv_digest := peek_prefix C 20 d\<rparr>))"
proof -
  let ?hs = "passed (length buf) 0 i (hops st)"
  let ?h = "hops st ! i"
  let ?h' = "?h\<lparr>backward_cipher := advance (length buf) (backward_cipher ?h)\<rparr>"
  have n: "length (hops st) = i + Suc (length (hops st) - Suc i)"
    using assms(1) by simp
  have hs: "?hs[i := ?h'] = passed (length buf) 0 (Suc i) (hops st)"
    by (rule nth_equalityI) (auto simp: nth_list_update less_Suc_eq)
  have "decrypt_loop C (i + Suc (length (hops st) - Suc i)) 0 buf st =
      decrypt_loop C (Suc (length (hops st) - Suc i)) (0 + i) (layers (backward_ks C (hops st)) [0..<0 + i] buf)
        (st\<lparr>hops := passed (length buf) 0 (0 + i) (hops st)\<rparr>)"
    by (rule decrypt_loop_skip) (use assms in simp_all)
  then have "decrypt_inbound C buf st =
      decrypt_loop C (Suc (length (hops st) - Suc i)) i (layers (backward_ks C (hops st)) [0..<i] buf)
        (st\<lparr>hops := ?hs\<rparr>)"
    unfolding decrypt_inbound_def by (simp only: n [symmetric] add_0)
  then show ?thesis
    using assms unfolding decrypt_loop.simps
    by (simp add: cipher_apply_def Let_def recognised_def hs)
qed

section \<open>Both ends of a hop\<close>

text \<open>
  The relays' side, as the protocol has it: relay \<open>h\<close> seals a message under its digest for this
  direction and every relay from \<open>h\<close> back to the first adds its layer.
\<close>

definition relay_seal :: "crypto \<Rightarrow> hop list \<Rightarrow> nat \<Rightarrow> u8 \<Rightarrow> nat \<Rightarrow> bytes \<Rightarrow> bytes \<Rightarrow> bytes" where
  "relay_seal C hs h cmd sid data pad =
     (let zeroed = relay_format cmd sid [0, 0, 0, 0] data pad;
          dig = peek_prefix C 4 (digest_update (backward_digest (hs ! h)) zeroed)
      in layers (backward_ks C hs) (rev [0..<Suc h]) (relay_format cmd sid dig data pad))"

text \<open>The hops after a cell for hop \<open>h\<close> has left.\<close>

definition sent_to :: "nat \<Rightarrow> bytes \<Rightarrow> hop list \<Rightarrow> hop list" where
  "sent_to h plain hs =
     map (\<lambda>i. let x = hs ! i;
                   x = (if i = h then x\<lparr>forward_digest := digest_update (forward_digest x) plain\<rparr> else x)
               in if i \<le> h then x\<lparr>forward_cipher := advance (length plain) (forward_cipher x)\<rparr> else x)
       [0..<length hs]"

lemma recognised_relay_format:
  assumes "digest_sizes C" and "dig = peek_prefix C 4 (digest_update d (relay_format cmd sid [0, 0, 0, 0] data pad))"
  shows "recognised C d (relay_format cmd sid dig data pad)"
proof -
  have l: "length dig = 4" using assms length_peek_prefix by simp
  then obtain a b e f where dig: "dig = [a, b, e, f]" by (rule length4E)
  have "splice 5 [0, 0, 0, 0] (relay_format cmd sid dig data pad) = relay_format cmd sid [0, 0, 0, 0] data pad"
    using l by (intro splice_relay_format) simp_all
  moreover have "slice 5 9 (relay_format cmd sid dig data pad) = dig"
    by (simp add: relay_format_def dig u16_to_be_def slice_def)
  moreover have "take 4 (peek_prefix C 20 x) = peek_prefix C 4 x" for x
    by (simp add: peek_prefix_def)
  ultimately show ?thesis
    using assms(2) by (simp add: recognised_def) (simp add: relay_format_def)
qed

lemma sent_to_eq:
  assumes "h < length hs" and len: "length buf = length plain"
  shows "apply_layers C (rev [0..<Suc h])
      (hs[h := (hs ! h)\<lparr>forward_digest := digest_update (forward_digest (hs ! h)) plain\<rparr>]) buf =
    (layers (forward_ks C hs) (rev [0..<Suc h]) buf, sent_to h plain hs)"
proof -
  let ?hs = "hs[h := (hs ! h)\<lparr>forward_digest := digest_update (forward_digest (hs ! h)) plain\<rparr>]"
  have ks: "layers (forward_ks C ?hs) (rev [0..<Suc h]) buf = layers (forward_ks C hs) (rev [0..<Suc h]) buf"
    by (rule layers_cong) (use assms in \<open>auto simp: nth_list_update\<close>)
  have "map (\<lambda>i. if i \<in> set (rev [0..<Suc h])
        then (?hs ! i)\<lparr>forward_cipher := advance (length plain) (forward_cipher (?hs ! i))\<rparr> else ?hs ! i)
      [0..<length ?hs] = sent_to h plain hs"
    unfolding sent_to_def by (rule nth_equalityI) (auto simp: nth_list_update Let_def)
  moreover have "apply_layers C (rev [0..<Suc h]) ?hs buf = (layers (forward_ks C ?hs) (rev [0..<Suc h]) buf,
     map (\<lambda>i. if i \<in> set (rev [0..<Suc h])
        then (?hs ! i)\<lparr>forward_cipher := advance (length buf) (forward_cipher (?hs ! i))\<rparr> else ?hs ! i)
      [0..<length ?hs])"
    by (rule apply_layers_eq) (use assms in simp_all)
  ultimately show ?thesis
    unfolding ks len by simp
qed

lemma cell_new_full_body:
  "cell_new cid (if early then CMD_RELAY_EARLY else CMD_RELAY) bs = Inr c \<Longrightarrow> length bs = CELL_BODY_LEN \<Longrightarrow>
     circ_id c = cid \<and> command c = (if early then CMD_RELAY_EARLY else CMD_RELAY) \<and> body c = bs"
  by (auto simp: cell_new_def is_variable_length_def resize_def cell_const_defs split: if_splits)

lemma build_relay_cell_cases:
  assumes "build_relay_cell C rng cid h cmd sid data early st = (Inr c, st')"
  obtains plain where "length data \<le> RELAY_DATA_MAX" "h < length (hops st)" "early \<longrightarrow> 0 < relay_early_left st"
    "plain_body rng cmd sid data = Inr plain"
    "cell_new cid (if early then CMD_RELAY_EARLY else CMD_RELAY) (fst (apply_layers C (rev [0..<Suc h])
      ((hops st)[h := (hops st ! h)\<lparr>forward_digest := digest_update (forward_digest (hops st ! h)) plain\<rparr>])
      (splice 5 (peek_prefix C 4 (digest_update (forward_digest (hops st ! h)) plain)) plain))) = Inr c"
    "st' = st\<lparr>relay_early_left := relay_early_left st - of_bool early,
       hops := snd (apply_layers C (rev [0..<Suc h])
      ((hops st)[h := (hops st ! h)\<lparr>forward_digest := digest_update (forward_digest (hops st ! h)) plain\<rparr>])
      (splice 5 (peek_prefix C 4 (digest_update (forward_digest (hops st ! h)) plain)) plain))\<rparr>"
  using assms unfolding build_relay_cell_def
  by (auto simp: Let_def split: if_splits sum.splits prod.splits)

text \<open>The body that goes into the cell is a full one, whatever the digest is.\<close>

lemma build_relay_cell_ok:
  assumes "length data \<le> RELAY_DATA_MAX" and "h < length (hops st)" and "early \<longrightarrow> 0 < relay_early_left st"
    and "\<forall>n. \<exists>bs. rng n = Inr bs" and "fills rng" and "digest_sizes C"
  shows "\<exists>c st'. build_relay_cell C rng cid h cmd sid data early st = (Inr c, st')"
proof -
  obtain plain where p: "plain_body rng cmd sid data = Inr plain"
  proof (cases "plain_body rng cmd sid data")
    case (Inl e)
    then show ?thesis
      using assms(4) [rule_format, of "CELL_BODY_LEN - (RELAY_HEADER_LEN + length data + 4)"]
      unfolding plain_body_def Let_def by (auto split: if_splits)
  qed
  have len: "length plain = CELL_BODY_LEN"
    using plain_body_format [OF p assms(5,1)] by blast
  have "length (splice 5 (peek_prefix C 4 d) plain) = length plain" for d
    using len length_peek_prefix [OF assms(6), of 4] by (intro length_splice) (simp add: CELL_BODY_LEN_def)
  note built = sent_to_eq [OF assms(2) this, of C]
  have new: "\<exists>c. cell_new cid (if early then CMD_RELAY_EARLY else CMD_RELAY)
     (layers ks order (splice 5 (peek_prefix C 4 d) plain)) = Inr c" for ks order d
    using len length_peek_prefix [OF assms(6), of 4 d]
    by (simp add: cell_new_def is_variable_length_def cell_const_defs)
  show ?thesis
    using assms(1-3) p new unfolding build_relay_cell_def by (auto simp: Let_def built simp del: upt_Suc)
qed

text \<open>Neither operation touches what an extension of the record adds.\<close>

lemma build_relay_cell_frame:
  assumes "build_relay_cell C rng cid h cmd sid bs early st = (r, st')"
  shows "onion.more st' = onion.more st \<and> last_recv_digest st' = last_recv_digest st
     \<and> relay_early_left st' \<le> relay_early_left st \<and> length (hops st') = length (hops st)"
proof -
  have "length (snd (apply_layers C order hs buf)) = length hs" for order hs buf
    by (induction order arbitrary: hs buf) (auto simp: Let_def split: prod.split)
  from this [of "rev [0..<Suc h]"] show ?thesis
    using assms unfolding build_relay_cell_def
    by (auto simp: Let_def split: if_splits sum.splits prod.splits simp del: upt_Suc) (metis length_list_update snd_conv)+
qed

lemma decrypt_loop_frame:
  "decrypt_loop C n k buf st = (r, buf', st') \<Longrightarrow> onion.more st' = onion.more st \<and>
     relay_early_left st' = relay_early_left st \<and> length (hops st') = length (hops st)"
proof (induction n arbitrary: k buf st)
  case (Suc n)
  from Suc.prems show ?case
    by (auto simp: Let_def split: prod.splits if_splits dest!: Suc.IH)
qed simp

lemmas decrypt_inbound_frame = decrypt_loop_frame [where k = 0, folded decrypt_inbound_def]

lemma built_cell_opens:
  assumes "build_relay_cell C rng cid h cmd sid data early st = (Inr c, st')"
    and "fills rng" and "digest_sizes C"
  shows "\<exists>pad. let zeroed = relay_format cmd sid [0, 0, 0, 0] data pad;
                 dig = peek_prefix C 4 (digest_update (forward_digest (hops st ! h)) zeroed);
                 opened = layers (forward_ks C (hops st)) [0..<Suc h] (body c)
             in opened = relay_format cmd sid dig data pad
              \<and> length opened = CELL_BODY_LEN
              \<and> recognised C (forward_digest (hops st ! h)) opened
              \<and> circ_id c = cid \<and> command c = (if early then CMD_RELAY_EARLY else CMD_RELAY)
              \<and> hops st' = sent_to h zeroed (hops st)
              \<and> relay_early_left st = relay_early_left st' + of_bool early"
proof -
  obtain plain where d: "length data \<le> RELAY_DATA_MAX" and h: "h < length (hops st)"
    and e: "early \<longrightarrow> 0 < relay_early_left st" and pb: "plain_body rng cmd sid data = Inr plain"
    and c: "cell_new cid (if early then CMD_RELAY_EARLY else CMD_RELAY) (fst (apply_layers C (rev [0..<Suc h])
      ((hops st)[h := (hops st ! h)\<lparr>forward_digest := digest_update (forward_digest (hops st ! h)) plain\<rparr>])
      (splice 5 (peek_prefix C 4 (digest_update (forward_digest (hops st ! h)) plain)) plain))) = Inr c"
    and st': "st' = st\<lparr>relay_early_left := relay_early_left st - of_bool early,
       hops := snd (apply_layers C (rev [0..<Suc h])
      ((hops st)[h := (hops st ! h)\<lparr>forward_digest := digest_update (forward_digest (hops st ! h)) plain\<rparr>])
      (splice 5 (peek_prefix C 4 (digest_update (forward_digest (hops st ! h)) plain)) plain))\<rparr>"
    by (rule build_relay_cell_cases [OF assms(1)])
  let ?dig = "peek_prefix C 4 (digest_update (forward_digest (hops st ! h)) plain)"
  obtain pad where plain: "plain = relay_format cmd sid [0, 0, 0, 0] data pad" and len: "length plain = CELL_BODY_LEN"
    using plain_body_format [OF pb assms(2) d] by blast
  have dig4: "length ?dig = 4"
    using length_peek_prefix [OF assms(3)] by simp
  have sealed: "splice 5 ?dig plain = relay_format cmd sid ?dig data pad"
    unfolding plain using dig4 plain by (intro splice_relay_format) simp_all
  have sealed_len: "length (splice 5 ?dig plain) = length plain"
    using dig4 len by (intro length_splice) (simp add: CELL_BODY_LEN_def)
  note built = sent_to_eq [OF h sealed_len, of C]
  have body: "body c = layers (forward_ks C (hops st)) (rev [0..<Suc h]) (splice 5 ?dig plain)"
    and meta: "circ_id c = cid" "command c = (if early then CMD_RELAY_EARLY else CMD_RELAY)"
    using cell_new_full_body [OF c] unfolding built fst_conv length_layers sealed_len len by simp_all
  have opened: "layers (forward_ks C (hops st)) [0..<Suc h] (body c) = relay_format cmd sid ?dig data pad"
    unfolding body sealed by (rule layers_cancel_rev)
  moreover have "length (relay_format cmd sid ?dig data pad) = CELL_BODY_LEN"
    using sealed sealed_len len by simp
  moreover have "recognised C (forward_digest (hops st ! h)) (relay_format cmd sid ?dig data pad)"
    by (rule recognised_relay_format [OF assms(3)]) (simp add: plain)
  moreover have "hops st' = sent_to h plain (hops st)"
    unfolding st' built by simp
  moreover have "relay_early_left st = relay_early_left st' + of_bool early"
    using e unfolding st' by (cases early) simp_all
  ultimately show ?thesis
    using meta unfolding plain Let_def by (intro exI [of _ pad]) simp
qed

lemma sealed_cell_received:
  assumes "h < length (hops st)" and "digest_sizes C"
    and "\<forall>j < h. \<not> recognised C (backward_digest (hops st ! j))
          (peeled C (hops st) j (relay_seal C (hops st) h cmd sid data pad))"
    and "length (relay_format cmd sid [0, 0, 0, 0] data pad) = CELL_BODY_LEN"
  shows "decrypt_inbound C (relay_seal C (hops st) h cmd sid data pad) st =
     (let zeroed = relay_format cmd sid [0, 0, 0, 0] data pad;
          d = digest_update (backward_digest (hops st ! h)) zeroed;
          hs = passed CELL_BODY_LEN 0 (Suc h) (hops st)
      in (Some h, zeroed,
          st\<lparr>hops := hs[h := (hs ! h)\<lparr>backward_digest := d\<rparr>], last_recv_digest := peek_prefix C 20 d\<rparr>))"
proof -
  let ?z = "relay_format cmd sid [0, 0, 0, 0] data pad"
  let ?dig = "peek_prefix C 4 (digest_update (backward_digest (hops st ! h)) ?z)"
  let ?buf = "relay_seal C (hops st) h cmd sid data pad"
  have dig4: "length ?dig = 4"
    using length_peek_prefix [OF assms(2)] by simp
  have zero: "splice 5 [0, 0, 0, 0] (relay_format cmd sid ?dig data pad) = ?z"
    by (intro splice_relay_format) (use dig4 in simp_all)
  have top: "peeled C (hops st) h ?buf = relay_format cmd sid ?dig data pad"
    unfolding relay_seal_def Let_def by (rule layers_cancel_rev)
  have len: "length ?buf = CELL_BODY_LEN"
    using assms(4) dig4 unfolding relay_seal_def Let_def length_layers by (simp add: relay_format_def)
  have "recognised C (backward_digest (hops st ! h)) (peeled C (hops st) h ?buf)"
    unfolding top by (rule recognised_relay_format [OF assms(2)]) simp
  moreover have "9 \<le> length ?buf"
    unfolding len by (simp add: CELL_BODY_LEN_def)
  ultimately show ?thesis
    using decrypt_inbound_some [OF assms(1,3)] unfolding top zero len by blast
qed

text \<open>
  The relays' view of a cell: with their layers off, hop \<open>h\<close> recognises it and reads this message.
\<close>

definition opens_as :: "crypto \<Rightarrow> hop list \<Rightarrow> nat \<Rightarrow> cell \<Rightarrow> u8 \<Rightarrow> nat \<Rightarrow> bytes \<Rightarrow> bool" where
  "opens_as C hs h c cmd sid bs \<longleftrightarrow>
     (let opened = layers (forward_ks C hs) [0..<Suc h] (body c)
      in recognised C (forward_digest (hs ! h)) opened \<and>
         (\<exists>dig pad. length dig = 4 \<and> opened = relay_format cmd sid dig bs pad))"

lemma built_cell_opens_as:
  assumes "build_relay_cell C rng cid h cmd sid bs early st = (Inr c, st')" and "fills rng" and "digest_sizes C"
  shows "opens_as C (hops st) h c cmd sid bs"
  using built_cell_opens [OF assms] length_peek_prefix [OF assms(3), of 4]
  unfolding opens_as_def Let_def by auto

section \<open>Properties\<close>

text \<open>
  C1: a relay cell that is built opens at its hop and nowhere is anything lost: after the relays
  \<open>0 .. h\<close> have taken off their layers, the body is the relay message with the command, stream
  and data that were given, and hop \<open>h\<close>'s running digest recognises it. On the client's side the
  forward ciphers of exactly those hops have moved by one body, only hop \<open>h\<close>'s digest has absorbed
  the message, and the RELAY_EARLY budget has paid for the cell if it was early.
\<close>

theorem relay_cell_opens_at_hop:
  assumes "build_relay_cell C rng cid h cmd sid data early st = (Inr c, st')"
    and "fills rng" and "digest_sizes C"
  shows "\<exists>pad. let zeroed = relay_format cmd sid [0, 0, 0, 0] data pad;
                 dig = peek_prefix C 4 (digest_update (forward_digest (hops st ! h)) zeroed);
                 opened = layers (forward_ks C (hops st)) [0..<Suc h] (body c)
             in opened = relay_format cmd sid dig data pad
              \<and> length opened = CELL_BODY_LEN
              \<and> recognised C (forward_digest (hops st ! h)) opened
              \<and> circ_id c = cid \<and> command c = (if early then CMD_RELAY_EARLY else CMD_RELAY)
              \<and> hops st' = sent_to h zeroed (hops st)
              \<and> relay_early_left st = relay_early_left st' + of_bool early"
  by (rule built_cell_opens [OF assms])

text \<open>
  C2: a message that a relay seals is received: if no hop before \<open>h\<close> mistakes the half-peeled body
  for its own (which for a good hash happens by chance only), \<open>decrypt_inbound\<close> answers hop \<open>h\<close>
  with the message exactly as it was sealed, absorbs it into that hop's digest alone, keeps the full
  digest for the next SENDME and moves the ciphers of the hops it passed.
\<close>

theorem sealed_cell_is_received:
  assumes "h < length (hops st)" and "digest_sizes C"
    and "\<forall>j < h. \<not> recognised C (backward_digest (hops st ! j))
          (peeled C (hops st) j (relay_seal C (hops st) h cmd sid data pad))"
    and "length (relay_format cmd sid [0, 0, 0, 0] data pad) = CELL_BODY_LEN"
  shows "decrypt_inbound C (relay_seal C (hops st) h cmd sid data pad) st =
     (let zeroed = relay_format cmd sid [0, 0, 0, 0] data pad;
          d = digest_update (backward_digest (hops st ! h)) zeroed;
          hs = passed CELL_BODY_LEN 0 (Suc h) (hops st)
      in (Some h, zeroed,
          st\<lparr>hops := hs[h := (hs ! h)\<lparr>backward_digest := d\<rparr>], last_recv_digest := peek_prefix C 20 d\<rparr>))"
  by (rule sealed_cell_received [OF assms])

text \<open>
  A body that no hop recognises is answered with \<^verbatim>\<open>None\<close> and every digest is as it was, so
  a stray cell cannot desynchronise the digests; but every backward cipher has moved on by the
  length of the body: the ciphers are not put back.
\<close>

theorem unrecognised_cell_keeps_digests:
  assumes "\<forall>j < length (hops st). \<not> recognised C (backward_digest (hops st ! j)) (peeled C (hops st) j buf)"
    and "length buf = CELL_BODY_LEN"
  shows "\<exists>buf' st'. decrypt_inbound C buf st = (None, buf', st')
     \<and> map backward_digest (hops st') = map backward_digest (hops st)
     \<and> map forward_digest (hops st') = map forward_digest (hops st)
     \<and> map forward_cipher (hops st') = map forward_cipher (hops st)
     \<and> map backward_cipher (hops st') = map (advance CELL_BODY_LEN \<circ> backward_cipher) (hops st)
     \<and> last_recv_digest st' = last_recv_digest st"
proof -
  have "9 \<le> length buf" using assms(2) by (simp add: CELL_BODY_LEN_def)
  note eq = decrypt_inbound_none [OF assms(1) this]
  show ?thesis
    unfolding eq using assms(2) by (auto intro!: nth_equalityI)
qed

text \<open>
  With a working random source, a relay cell is refused for exactly three reasons, each before
  anything has changed: more data than a cell holds, a hop that does not exist, or an early cell
  on a circuit that has spent its budget. Otherwise there is a cell.
\<close>

theorem relay_cell_built_iff:
  assumes "\<forall>n. \<exists>bs. rng n = Inr bs" and "fills rng" and "digest_sizes C"
  shows "(case build_relay_cell C rng cid h cmd sid data early st of
       (Inr c, st') \<Rightarrow> length data \<le> RELAY_DATA_MAX \<and> h < length (hops st) \<and> (early \<longrightarrow> 0 < relay_early_left st)
     | (Inl e, st') \<Rightarrow> st' = st \<and>
         (length data > RELAY_DATA_MAX \<or> h \<ge> length (hops st) \<or> (early \<and> relay_early_left st = 0)))"
proof (cases "length data > RELAY_DATA_MAX \<or> h \<ge> length (hops st) \<or> (early \<and> relay_early_left st = 0)")
  case True
  then show ?thesis by (auto simp: build_relay_cell_def)
next
  case False
  then have "length data \<le> RELAY_DATA_MAX" "h < length (hops st)" "early \<longrightarrow> 0 < relay_early_left st"
    by auto
  then show ?thesis
    using build_relay_cell_ok [OF _ _ _ assms, of data h st early cid cmd sid] by auto
qed

section \<open>Witnesses\<close>

text \<open>A two-hop circuit over a toy cipher whose key stream is the first key byte.\<close>

definition demo_crypto :: crypto where
  "demo_crypto = \<lparr>aes128_ks = (\<lambda>k i. hd k), aes256_ks = (\<lambda>k i. hd k),
     sha1 = (\<lambda>bs. replicate 20 (of_nat (length bs))), sha3_256 = (\<lambda>bs. replicate 32 (of_nat (length bs)))\<rparr>"

definition demo_onion :: onion where
  "demo_onion = \<lparr>hops = [hop_new \<lparr>df = [1], db = [2], kf = [3], kb = [4]\<rparr>,
       virtual_hop \<lparr>df = [5], db = [6], kf = [7], kb = [8]\<rparr>],
     relay_early_left = MAX_RELAY_EARLY, last_recv_digest = replicate 20 0\<rparr>"

definition demo_rng :: "nat \<Rightarrow> bytes io_result" where
  "demo_rng n = Inr (replicate n 9)"

lemma demo_laws: "digest_sizes demo_crypto" "fills demo_rng" "\<forall>n. \<exists>bs. demo_rng n = Inr bs"
  by (simp_all add: digest_sizes_def demo_crypto_def fills_def demo_rng_def)

lemma replicate_4: "replicate 4 x = [x, x, x, x]"
  by (simp add: numeral_eq_Suc)

theorem relay_cell_opens_at_hop_witness:
  "\<exists>c st' pad. build_relay_cell demo_crypto demo_rng 9 1 2 77 [10, 20, 30] True demo_onion = (Inr c, st') \<and>
     layers (forward_ks demo_crypto (hops demo_onion)) [0..<Suc 1] (body c) =
       relay_format 2 77 [254, 254, 254, 254] [10, 20, 30] pad \<and> relay_early_left st' = 7"
proof -
  obtain c st' where b: "build_relay_cell demo_crypto demo_rng 9 1 2 77 [10, 20, 30] True demo_onion = (Inr c, st')"
    using build_relay_cell_ok [of "[10, 20, 30]" 1 demo_onion True demo_rng demo_crypto 9 2 77] demo_laws
    by (auto simp: demo_onion_def RELAY_DATA_MAX_def RELAY_HEADER_LEN_def CELL_BODY_LEN_def MAX_RELAY_EARLY_def)
  have sha: "peek_prefix demo_crypto 4 (digest_update (forward_digest (hops demo_onion ! 1)) x) =
      replicate 4 (of_nat (Suc (length x)))" for x
    by (simp add: peek_prefix_def demo_crypto_def demo_onion_def virtual_hop_def hop_build_def)
  let ?fmt = "\<lambda>dig pad. relay_format 2 77 dig [10, 20, 30] pad"
  let ?open = "layers (forward_ks demo_crypto (hops demo_onion)) [0..<Suc 1] (body c)"
  obtain pad where o: "?open = ?fmt (replicate 4 (of_nat (Suc (length (?fmt [0, 0, 0, 0] pad))))) pad"
    and l: "length ?open = CELL_BODY_LEN" and e: "relay_early_left demo_onion = relay_early_left st' + 1"
    using relay_cell_opens_at_hop [OF b demo_laws(2,1)] unfolding Let_def sha of_bool_eq by blast
  have z: "length (?fmt [0, 0, 0, 0] pad) = CELL_BODY_LEN"
    using l unfolding o by (simp add: relay_format_def)
  have "replicate 4 (of_nat (Suc CELL_BODY_LEN)) = [254, 254, 254, 254 :: u8]"
    by (simp add: CELL_BODY_LEN_def replicate_4)
  then have "?open = ?fmt [254, 254, 254, 254] pad"
    using o unfolding z by simp
  then show ?thesis
    using b e by (auto simp: demo_onion_def MAX_RELAY_EARLY_def)
qed

theorem sealed_cell_is_received_witness:
  "\<exists>buf st'. decrypt_inbound demo_crypto (relay_seal demo_crypto (hops demo_onion) 1 2 77 [10, 20] (replicate 496 5))
      demo_onion = (Some 1, relay_format 2 77 [0, 0, 0, 0] [10, 20] (replicate 496 5), st')"
proof -
  have "\<forall>j < 1. \<not> recognised demo_crypto (backward_digest (hops demo_onion ! j))
          (peeled demo_crypto (hops demo_onion) j
             (relay_seal demo_crypto (hops demo_onion) 1 2 77 [10, 20] (replicate 496 5)))"
    by (simp add: relay_seal_def Let_def recognised_def relay_format_def demo_onion_def demo_crypto_def
        hop_new_def virtual_hop_def hop_build_def)
  moreover have "1 < length (hops demo_onion)" by (simp add: demo_onion_def)
  moreover have "length (relay_format 2 77 [0, 0, 0, 0] [10, 20] (replicate 496 5)) = CELL_BODY_LEN"
    by (simp add: relay_format_def CELL_BODY_LEN_def)
  ultimately show ?thesis
    using sealed_cell_is_received [of 1 demo_onion demo_crypto 2 77 "[10, 20]" "replicate 496 5"] demo_laws(1)
    by (simp add: Let_def)
qed

end
