(* ===== verification/Circuit_Flow.thy ===== *)
theory Circuit_Flow
  imports Congestion_Control Relay_Crypto
begin

text \<open>
  A circuit's flow control, from \<^verbatim>\<open>src/tor/circuit.rs\<close>: the two schemes behind one set of
  operations (\<^verbatim>\<open>enum FlowControl\<close>), and how a circuit takes up congestion control. Both schemes are
  shown to meet the SENDME contract of \<open>Flow_Interface\<close>, by one interpretation over the sum type.
\<close>

text \<open>The length of a CREATED_FAST reply, from \<^verbatim>\<open>ntor.rs\<close>, which the circuit checks before handing it over.\<close>

definition CREATED_FAST_LEN :: nat where "CREATED_FAST_LEN = 40"

section \<open>The two schemes\<close>

definition CIRCUIT_WINDOW_START :: int where "CIRCUIT_WINDOW_START = 1000"
definition CIRCUIT_WINDOW_INCREMENT :: int where "CIRCUIT_WINDOW_INCREMENT = 100"

datatype flow_control =
    Window (package: int) (deliver_left: int)
  | Congestion (flow_vegas: vegas) (delivered: deliver_counter) (xoff_limit: nat)

definition windows :: flow_control where
  "windows = Window CIRCUIT_WINDOW_START CIRCUIT_WINDOW_START"

fun may_send :: "flow_control \<Rightarrow> bool" where
  "may_send (Window p d) \<longleftrightarrow> p > 0"
| "may_send (Congestion v d x) \<longleftrightarrow> can_send v"

fun note_sent :: "nat \<Rightarrow> flow_control \<Rightarrow> flow_control" where
  "note_sent now (Window p d) = Window (wrap_i32 (p - 1)) d"
| "note_sent now (Congestion v d x) = Congestion (on_send now v) d x"

text \<open>The answer is whether to acknowledge now.\<close>

fun note_received :: "flow_control \<Rightarrow> (bool \<times> flow_control) io_result" where
  "note_received (Window p d) =
     (let d = wrap_i32 (d - 1) in
      if d < 0 then Inl (invalid_data ''peer overran the circuit deliver window'')
      else if d \<le> CIRCUIT_WINDOW_START - CIRCUIT_WINDOW_INCREMENT
        then Inr (True, Window p (wrap_i32 (d + CIRCUIT_WINDOW_INCREMENT)))
      else Inr (False, Window p d))"
| "note_received (Congestion v d x) = (let (b, d) = on_data d in Inr (b, Congestion v d x))"

fun note_sendme :: "nat \<Rightarrow> flow_control \<Rightarrow> flow_control io_result" where
  "note_sendme now (Window p d) = Inr (Window (wrap_i32 (p + CIRCUIT_WINDOW_INCREMENT)) d)"
| "note_sendme now (Congestion v d x) = and_then (on_sendme now v) (\<lambda>v. Inr (Congestion v d x))"

fun xoff_bytes :: "flow_control \<Rightarrow> nat option" where
  "xoff_bytes (Window p d) = None"
| "xoff_bytes (Congestion v d x) = Some x"

lemmas window_consts = CIRCUIT_WINDOW_START_def CIRCUIT_WINDOW_INCREMENT_def

section \<open>Taking up congestion control\<close>

definition EXT_CC_REQUEST :: u8 where "EXT_CC_REQUEST = 1"
definition EXT_CC_RESPONSE :: u8 where "EXT_CC_RESPONSE = 2"

text \<open>An ntor-v3 extension, \<^verbatim>\<open>ntor_v3.rs\<close>.\<close>

record extension =
  ext_kind :: u8
  ext_body :: bytes

definition congestion_flow :: "cc_params \<Rightarrow> nat \<Rightarrow> flow_control" where
  "congestion_flow p inc =
     Congestion (vegas_new p inc) (deliver_counter_new inc) (xoff_client p * RELAY_DATA_MAX)"

definition use_congestion_control :: "cc_params \<Rightarrow> u8 \<Rightarrow> flow_control \<Rightarrow> flow_control" where
  "use_congestion_control p inc flow = congestion_flow p (unat inc)"

definition adopt_congestion_control ::
    "extension list \<Rightarrow> cc_params \<Rightarrow> flow_control \<Rightarrow> flow_control io_result" where
  "adopt_congestion_control answered p flow =
     (case List.find (\<lambda>e. ext_kind e = EXT_CC_RESPONSE) answered of
        None \<Rightarrow> Inr flow
      | Some field \<Rightarrow>
          (case ext_body field of
             [inc] \<Rightarrow>
               (let expected = sendme_inc p; offered = unat inc in
                if inc = 0 \<or> offered * 2 < expected \<or> offered > expected * 2
                then Inl (invalid_data ''relay wants another SENDME increment than the consensus says'')
                else Inr (congestion_flow p offered))
           | _ \<Rightarrow> Inl (invalid_data ''congestion control answer is not one byte'')))"

section \<open>The contract\<close>

text \<open>
  What the scheme of either kind keeps, counting by \<open>inc\<close>. The two ends of a circuit are two
  such values: one sends and the other receives.
\<close>

fun flow_outstanding :: "flow_control \<Rightarrow> nat" where
  "flow_outstanding (Window p d) = nat (CIRCUIT_WINDOW_START - p)"
| "flow_outstanding (Congestion v d x) = sent v - acked v"

fun flow_unacked :: "flow_control \<Rightarrow> nat" where
  "flow_unacked (Window p d) = nat (CIRCUIT_WINDOW_START - d)"
| "flow_unacked (Congestion v d x) = dc_seen d"

fun flow_snd :: "nat \<Rightarrow> flow_control \<Rightarrow> bool" where
  "flow_snd inc (Window p d) \<longleftrightarrow> inc = nat CIRCUIT_WINDOW_INCREMENT \<and> 0 \<le> p \<and> p \<le> CIRCUIT_WINDOW_START"
| "flow_snd inc (Congestion v d x) \<longleftrightarrow> live_vegas_end inc v"

fun flow_rcv :: "nat \<Rightarrow> flow_control \<Rightarrow> bool" where
  "flow_rcv inc (Window p d) \<longleftrightarrow> inc = nat CIRCUIT_WINDOW_INCREMENT \<and>
     CIRCUIT_WINDOW_START - CIRCUIT_WINDOW_INCREMENT < d \<and> d \<le> CIRCUIT_WINDOW_START"
| "flow_rcv inc (Congestion v d x) \<longleftrightarrow> counter_end inc d"

fun flow_room :: "flow_control \<Rightarrow> bool" where
  "flow_room (Window p d) \<longleftrightarrow> True"
| "flow_room (Congestion v d x) \<longleftrightarrow> sent v < u64_max"

abbreviation flow_may_send :: "flow_control \<Rightarrow> bool" where
  "flow_may_send f \<equiv> may_send f \<and> flow_room f"

lemma window_send:
  "flow_snd inc (Window p d) \<Longrightarrow> p > 0 \<Longrightarrow> flow_snd inc (note_sent now (Window p d)) \<and>
     flow_outstanding (note_sent now (Window p d)) = Suc (flow_outstanding (Window p d))"
  by (auto simp: window_consts wrap_i32_id)

lemma window_sendme:
  "flow_snd inc (Window p d) \<Longrightarrow> inc \<le> flow_outstanding (Window p d) \<Longrightarrow>
     \<exists>f. note_sendme now (Window p d) = Inr f \<and> flow_snd inc f \<and> flow_outstanding f + inc = flow_outstanding (Window p d)"
  by (auto simp: window_consts wrap_i32_id)

lemma window_receive:
  "flow_rcv inc (Window p d) \<Longrightarrow> \<exists>b f. note_received (Window p d) = Inr (b, f) \<and> flow_rcv inc f \<and>
     flow_unacked f + (if b then inc else 0) = Suc (flow_unacked (Window p d))"
proof -
  assume "flow_rcv inc (Window p d)"
  then have inc: "inc = 100" and d: "900 < d" "d \<le> 1000"
    by (simp_all add: window_consts)
  have "wrap_i32 (d - 1) = d - 1" "wrap_i32 (d - 1 + 100) = d + 99"
    using d wrap_i32_id [of "d - 1"] wrap_i32_id [of "d - 1 + 100"] by simp_all
  then have "note_received (Window p d) = Inr (d = 901, Window p (if d = 901 then 1000 else d - 1))"
    using d by (simp add: window_consts Let_def)
  moreover have "flow_rcv inc (Window p (if d = 901 then 1000 else d - 1))"
    using d by (simp add: inc window_consts)
  moreover have "nat (1000 - (d - 1)) = Suc (nat (1000 - d))"
    using d by (simp add: nat_diff_distrib' Suc_nat_eq_nat_zadd1)
  then have "flow_unacked (Window p (if d = 901 then 1000 else d - 1)) + (if d = 901 then inc else 0) =
      Suc (flow_unacked (Window p d))"
    by (simp add: inc window_consts)
  ultimately show ?thesis by blast
qed

interpretation flow_link: live_sendme_flow flow_may_send note_sent note_sendme flow_outstanding
    "flow_snd inc" note_received flow_unacked "flow_rcv inc" inc flow_room
  for inc
proof unfold_locales
  fix s now
  assume "flow_snd inc s" and "flow_may_send s"
  then show "flow_snd inc (note_sent now s) \<and> flow_outstanding (note_sent now s) = Suc (flow_outstanding s)"
    using window_send live_vegas_link.send_law by (cases s) auto
next
  fix s now
  assume "flow_snd inc s" and "inc \<le> flow_outstanding s"
  then show "\<exists>s'. note_sendme now s = Inr s' \<and> flow_snd inc s' \<and> flow_outstanding s' + inc = flow_outstanding s"
    using window_sendme live_vegas_link.sendme_law by (cases s) fastforce+
next
  fix r
  assume "flow_rcv inc r"
  then show "\<exists>b r'. note_received r = Inr (b, r') \<and> flow_rcv inc r' \<and>
      flow_unacked r' + (if b then inc else 0) = Suc (flow_unacked r)"
  proof (cases r)
    case (Window p d)
    then show ?thesis using window_receive \<open>flow_rcv inc r\<close> by blast
  next
    case (Congestion v d x)
    then obtain b d' where "on_data d = (b, d')" "counter_end inc d'"
      "dc_seen d' + (if b then inc else 0) = Suc (dc_seen d)"
      using live_vegas_link.receive_law [of inc d] \<open>flow_rcv inc r\<close> by auto
    then show ?thesis using Congestion by (intro exI [of _ b] exI [of _ "Congestion v d' x"]) simp
  qed
next
  fix r
  assume "flow_rcv inc r"
  then show "flow_unacked r < inc"
    by (cases r) (auto simp: window_consts counter_end_def)
next
  fix s
  assume "flow_snd inc s" and "flow_outstanding s < inc" and "flow_room s"
  then show "flow_may_send s"
    using live_vegas_link.live_law by (cases s) (auto simp: window_consts)
qed

fun flow_inc :: "flow_control \<Rightarrow> nat" where
  "flow_inc (Window p d) = nat CIRCUIT_WINDOW_INCREMENT"
| "flow_inc (Congestion v d x) = v_inc v"

text \<open>The smallest window the scheme can be driven down to.\<close>

fun flow_floor :: "flow_control \<Rightarrow> nat" where
  "flow_floor (Window p d) = nat CIRCUIT_WINDOW_START"
| "flow_floor (Congestion v d x) = cwnd_floor (params v)"

lemma adopt_cases:
  assumes "adopt_congestion_control answered p flow = Inr f"
  obtains (Declined) "f = flow" "List.find (\<lambda>e. ext_kind e = EXT_CC_RESPONSE) answered = None"
  | (Agreed) inc :: u8 where "f = congestion_flow p (unat inc)" "inc \<noteq> 0"
      "sendme_inc p \<le> unat inc * 2" "unat inc \<le> sendme_inc p * 2"
  using assms that unfolding adopt_congestion_control_def Let_def
  by (auto split: option.splits list.splits if_splits simp: not_less)

lemma unat_u8_pos: "(inc :: u8) \<noteq> 0 \<Longrightarrow> max (unat inc) (Suc 0) = unat inc"
  using unat_eq_0 [of inc] by (cases "unat inc") simp_all

lemma adopted_start:
  assumes "adopt_congestion_control answered p windows = Inr f" and "cc_params_ok p"
    and "flow_inc f \<le> flow_floor f"
  shows "flow_snd (flow_inc f) f \<and> flow_rcv (flow_inc f) f \<and> flow_outstanding f = 0 \<and> flow_unacked f = 0"
  using assms(1)
proof (cases rule: adopt_cases)
  case Declined
  then show ?thesis
    by (simp add: windows_def window_consts)
next
  case (Agreed inc)
  moreover have "cwnd_max p \<le> u32_max"
    using assms(2) by (simp add: cc_params_ok_def INT32_MAX_def)
  moreover have "unat inc \<le> 255" "0 < unat inc"
    using Agreed unat_u8_less [of inc] by (simp_all add: unat_gt_0)
  ultimately show ?thesis
    using assms(3) vegas_new_inv [of "unat inc" p]
    by (simp add: congestion_flow_def live_vegas_end_def vegas_end_def counter_end_def deliver_counter_new_def
        unat_u8_pos)
qed

abbreviation flow_link_reachable :: "flow_control \<Rightarrow> (flow_control, flow_control) link \<Rightarrow> bool" where
  "flow_link_reachable f \<equiv> link_reachable flow_may_send note_sent note_sendme note_received f f"

section \<open>Properties\<close>



text \<open>
  Congestion control is taken up exactly when the relay answered with one non-zero byte within a
  factor two of the consensus's increment; an answer of any other shape is an error, and no answer
  leaves the windows in place. The new scheme counts, sends and acknowledges by the agreed byte.
\<close>

theorem adopt_congestion_control_outcomes:
  "case List.find (\<lambda>e. ext_kind e = EXT_CC_RESPONSE) answered of
     None \<Rightarrow> adopt_congestion_control answered p flow = Inr flow
   | Some e \<Rightarrow>
       (if \<exists>inc. ext_body e = [inc] \<and> inc \<noteq> 0 \<and> sendme_inc p \<le> unat inc * 2 \<and> unat inc \<le> sendme_inc p * 2
        then \<exists>f. adopt_congestion_control answered p flow = Inr f \<and> ext_body e = [word_of_nat (flow_inc f)] \<and>
               dc_inc (delivered f) = flow_inc f \<and> xoff_bytes f = Some (xoff_client p * RELAY_DATA_MAX)
        else \<exists>msg. adopt_congestion_control answered p flow = Inl (IoError InvalidData msg))"
  unfolding adopt_congestion_control_def congestion_flow_def Let_def
  by (auto simp: deliver_counter_new_def unat_u8_pos invalid_data_def split: option.split list.split)

text \<open>
  The first cells of a circuit, sent and delivered one by one, while the increment is not yet full.
\<close>

lemma first_cells:
  assumes "v0 = vegas_new p inc" and "d0 = deliver_counter_new inc" and "0 < inc" and "inc \<le> 255"
    and "k < inc" and "k \<le> cwnd v0"
  shows "flow_link_reachable (Congestion v0 d0 x)
     \<lparr>sender_end = Congestion (v0\<lparr>sent := k\<rparr>) d0 x, receiver_end = Congestion v0 (d0\<lparr>dc_seen := k\<rparr>) x,
      data_in_transit = 0, sendmes_in_transit = 0\<rparr>"
  using assms(5,6)
proof (induction k)
  case 0
  have "v0\<lparr>sent := 0\<rparr> = v0" "d0\<lparr>dc_seen := 0\<rparr> = d0"
    using assms by (simp_all add: vegas_new_def deliver_counter_new_def Let_def)
  then show ?case by (simp add: link_reachable.start)
next
  case (Suc k)
  let ?s = "Congestion (v0\<lparr>sent := k\<rparr>) d0 x" and ?r = "Congestion v0 (d0\<lparr>dc_seen := k\<rparr>) x"
  let ?s' = "Congestion (v0\<lparr>sent := Suc k\<rparr>) d0 x" and ?r' = "Congestion v0 (d0\<lparr>dc_seen := Suc k\<rparr>) x"
  let ?l = "\<lparr>sender_end = ?s, receiver_end = ?r, data_in_transit = 0, sendmes_in_transit = 0\<rparr>"
  have v0: "v_inc v0 = inc" "acked v0 = 0" and d0: "dc_inc d0 = inc"
    using assms by (simp_all add: deliver_counter_new_def)
  have "k < inc" using Suc.prems by simp
  then have "flow_may_send ?s" and "wrap_u64 (k + 1) = Suc k" and "wrap_u32 (k + 1) = Suc k"
    using Suc.prems assms(4) v0 by (simp_all add: can_send_def inflight_def wrap_u64_def wrap_u32_def)
  moreover from this have "note_sent 0 ?s = ?s'" and "note_received ?r = Inr (False, ?r')"
    using Suc.prems(1) v0 d0 by (simp_all add: on_send_def on_data_def Let_def)
  ultimately have step1: "link_step flow_may_send note_sent note_sendme note_received ?l
      (?l\<lparr>sender_end := ?s', data_in_transit := Suc (data_in_transit ?l)\<rparr>)"
    and rcv: "note_received ?r = Inr (False, ?r')"
    using link_step.send [of flow_may_send ?l note_sent note_sendme note_received 0] by simp_all
  have step2: "link_step flow_may_send note_sent note_sendme note_received
      (?l\<lparr>sender_end := ?s', data_in_transit := Suc (data_in_transit ?l)\<rparr>)
      \<lparr>sender_end = ?s', receiver_end = ?r', data_in_transit = 0, sendmes_in_transit = 0\<rparr>"
    using link_step.arrive [of "?l\<lparr>sender_end := ?s', data_in_transit := Suc (data_in_transit ?l)\<rparr>" 0
        note_received False ?r' flow_may_send note_sent note_sendme] rcv by simp
  have "flow_link_reachable (Congestion v0 d0 x) ?l"
    using Suc by simp
  from link_reachable.step [OF link_reachable.step [OF this step1] step2] show ?case .
qed

text \<open>
  The check on the relay's increment does not rule out a stall. With in-range parameters whose
  first window is one consensus increment (31 cells), the answer 62 is accepted, and after 31 cells
  that all arrived the sender has no window left while the receiver owes no SENDME.
\<close>

theorem adopted_increment_can_stall:
  "\<exists>p f l. cc_params_ok p \<and>
     adopt_congestion_control [\<lparr>ext_kind = EXT_CC_RESPONSE, ext_body = [62]\<rparr>] p windows = Inr f \<and>
     flow_link_reachable f l \<and> data_in_transit l = 0 \<and> sendmes_in_transit l = 0 \<and>
     flow_room (sender_end l) \<and> \<not> may_send (sender_end l)"
proof -
  let ?p = "(cc_defaults Exit)\<lparr>cwnd_init := 31\<rparr>"
  let ?v = "vegas_new ?p 62" and ?d = "deliver_counter_new 62"
  let ?f = "congestion_flow ?p 62"
  have "cc_params_ok ?p"
    using cc_defaults_ok [of Exit] by (simp add: cc_params_ok_def)
  moreover have "adopt_congestion_control [\<lparr>ext_kind = EXT_CC_RESPONSE, ext_body = [62]\<rparr>] ?p windows = Inr ?f"
    by (simp add: adopt_congestion_control_def cc_defaults_def)
  moreover have cwnd: "cwnd ?v = 31"
    by (simp add: vegas_new_def clamp_cwnd_def cc_defaults_def INT32_MAX_def Let_def)
  moreover have "flow_link_reachable ?f
     \<lparr>sender_end = Congestion (?v\<lparr>sent := 31\<rparr>) ?d (xoff_client ?p * RELAY_DATA_MAX),
      receiver_end = Congestion ?v (?d\<lparr>dc_seen := 31\<rparr>) (xoff_client ?p * RELAY_DATA_MAX),
      data_in_transit = 0, sendmes_in_transit = 0\<rparr>"
    unfolding congestion_flow_def by (rule first_cells [OF refl refl]) (simp_all add: cwnd)
  moreover have "\<not> can_send (?v\<lparr>sent := 31\<rparr>)"
    using cwnd by (simp add: can_send_def inflight_def)
  ultimately show ?thesis
    by (intro exI [of _ ?p] exI [of _ ?f] exI conjI) (assumption | simp)+
qed

end
