(* ===== verification/Link_Channel.thy ===== *)
theory Link_Channel
  imports Cell_Framing
begin

text \<open>
  The channel, \<^verbatim>\<open>src/tor/channel.rs\<close>: the state shared with the circuits (\<^verbatim>\<open>Shared\<close>), circuit
  registration, the outbound queue, version negotiation, our NETINFO, and the receive side that
  cuts the byte stream into cells and hands each one to its circuit.

  TLS, \<^verbatim>\<open>poll\<close> and the wake-up pipe are outside: the model sees the bytes that a read returned,
  how many bytes a write took, and the random numbers \<^verbatim>\<open>rand::u32_value\<close> returned. A blocking
  wait is a result \<open>Blocked\<close>: the caller tries again after the environment has moved.
\<close>

section \<open>State\<close>

text \<open>
  The sending half of a circuit's \<^verbatim>\<open>mpsc\<close> queue: the cells not yet received, or \<open>Dropped\<close> once the
  circuit's pump has gone, when \<^verbatim>\<open>send\<close> fails.
\<close>

datatype sender = Receiving "cell list" | Dropped

record channel =
  link_version :: nat
  circ_id_len :: nat
  out_queue :: bytes
  circuits :: "nat \<rightharpoonup> sender"
  closed :: bool

definition MAX_OUTBOUND_BYTES :: nat where "MAX_OUTBOUND_BYTES = 1048576"

definition SUPPORTED_VERSIONS :: "nat list" where "SUPPORTED_VERSIONS = [3, 4]"

datatype 'a attempt = Blocked | Done 'a

section \<open>Circuit registration\<close>

text \<open>
  The i-th random draw is \<open>draws i\<close>. The loop of 64 attempts counts down in \<open>n\<close>.
\<close>

fun register_loop :: "nat \<Rightarrow> nat \<Rightarrow> nat \<Rightarrow> (nat \<Rightarrow> nat io_result) \<Rightarrow> nat \<Rightarrow> channel \<Rightarrow>
    (nat \<times> channel) io_result" where
  "register_loop msb id_mask 0 draws i ch = Inl (IoError Other ''could not find a free circuit ID'')"
| "register_loop msb id_mask (Suc n) draws i ch =
     and_then (draws i) (\<lambda>r.
       let cid = (r AND id_mask) OR msb in
       if cid = 0 \<or> circuits ch cid \<noteq> None then register_loop msb id_mask n draws (Suc i) ch
       else Inr (cid, ch\<lparr>circuits := (circuits ch)(cid \<mapsto> Receiving [])\<rparr>))"

definition register_circuit :: "(nat \<Rightarrow> nat io_result) \<Rightarrow> channel \<Rightarrow> (nat \<times> channel) io_result" where
  "register_circuit draws ch =
     (let (msb, id_mask) = (if circ_id_len ch = CIRC_ID_LEN_V4 then (0x80000000, 0xffffffff)
                         else (0x8000, 0xffff))
      in register_loop msb id_mask 64 draws 0 ch)"

definition unregister_circuit :: "nat \<Rightarrow> channel \<Rightarrow> channel" where
  "unregister_circuit cid ch = ch\<lparr>circuits := (circuits ch)(cid := None)\<rparr>"

section \<open>Sending\<close>

definition closed_error :: io_error where
  "closed_error = IoError NotConnected ''channel is closed''"

text \<open>One pass of \<open>send_cell\<close>'s loop: \<open>Blocked\<close> is the wait for \<^verbatim>\<open>out_space\<close>.\<close>

definition send_cell :: "cell \<Rightarrow> channel \<Rightarrow> channel io_result attempt" where
  "send_cell c ch =
     (let bs = encode (circ_id_len ch) c in
      if length (out_queue ch) + length bs > MAX_OUTBOUND_BYTES then
        if closed ch then Done (Inl closed_error) else Blocked
      else if closed ch then Done (Inl closed_error)
      else Done (Inr (ch\<lparr>out_queue := out_queue ch @ bs\<rparr>)))"

definition close_channel :: "channel \<Rightarrow> channel" where
  "close_channel ch = ch\<lparr>closed := True\<rparr>"

section \<open>The link handshake's own cells\<close>

text \<open>\<open>chunks_exact(2)\<close> of a VERSIONS body, big-endian.\<close>

fun version_list :: "bytes \<Rightarrow> nat list" where
  "version_list (a # b # bs) = u16_from_be a b # version_list bs"
| "version_list _ = []"

definition max_version :: "nat list \<Rightarrow> nat option" where
  "max_version vs = (if vs = [] then None else Some (Max (set vs)))"

text \<open>
  The bytes written, and the outcome: the version agreed and what is left of the input.
\<close>

definition negotiate_versions :: "bytes \<Rightarrow> bytes \<times> (nat \<times> bytes) io_result" where
  "negotiate_versions input =
     (case cell_new 0 CMD_VERSIONS (concat (map u16_to_be SUPPORTED_VERSIONS)) of
        Inl e \<Rightarrow> ([], Inl e)
      | Inr versions \<Rightarrow>
          (encode CIRC_ID_LEN_V2 versions,
           and_then (read_from input CIRC_ID_LEN_V2) (\<lambda>(reply, input).
             if command reply \<noteq> CMD_VERSIONS then Inl (invalid_data ''expected VERSIONS'')
             else if length (body reply) mod 2 \<noteq> 0
               then Inl (invalid_data ''VERSIONS cell has an odd body length'')
             else and_then
               (ok_or (invalid_data ''no link protocol version in common'')
                  (max_version (filter (\<lambda>v. v \<in> set SUPPORTED_VERSIONS) (version_list (body reply)))))
               (\<lambda>best. Inr (best, input)))))"

definition link_circ_id_len :: "nat \<Rightarrow> nat" where
  "link_circ_id_len version = (if version \<ge> 4 then CIRC_ID_LEN_V4 else CIRC_ID_LEN_V2)"

definition send_netinfo :: "nat \<Rightarrow> bytes \<Rightarrow> bytes io_result" where
  "send_netinfo width peer_ip =
     and_then (cell_new 0 CMD_NETINFO (u32_to_be 0 @ [0x04, 4] @ peer_ip @ [0]))
       (\<lambda>c. Inr (encode width c))"

section \<open>Receiving\<close>

definition deliver :: "cell \<Rightarrow> (nat \<rightharpoonup> sender) \<Rightarrow> (nat \<rightharpoonup> sender)" where
  "deliver c cs =
     (if circ_id c = 0 then cs
      else case cs (circ_id c) of
        None \<Rightarrow> cs
      | Some (Receiving q) \<Rightarrow> cs(circ_id c \<mapsto> Receiving (q @ [c]))
      | Some Dropped \<Rightarrow> cs(circ_id c := None))"

function (sequential) dispatch_loop ::
    "nat \<Rightarrow> bytes \<Rightarrow> nat \<Rightarrow> (nat \<rightharpoonup> sender) \<Rightarrow> nat io_result \<times> (nat \<rightharpoonup> sender)" where
  "dispatch_loop w inbound consumed cs =
     (case try_parse (drop consumed inbound) w of
        Inl e \<Rightarrow> (Inl e, cs)
      | Inr None \<Rightarrow> (Inr consumed, cs)
      | Inr (Some (c, used)) \<Rightarrow> dispatch_loop w inbound (consumed + used) (deliver c cs))"
  by pat_completeness auto
termination
proof (relation "measure (\<lambda>(w, inbound, consumed, cs). length inbound - consumed)", goal_cases)
  case (2 w inbound consumed cs r p c used)
  then have "try_parse (drop consumed inbound) w = Inr (Some (c, used))" by simp
  from try_parse_progress [OF this] try_parse_total [OF this] show ?case by simp
qed simp

declare dispatch_loop.simps [simp del]

definition dispatch_cells ::
    "nat \<Rightarrow> bytes \<Rightarrow> (nat \<rightharpoonup> sender) \<Rightarrow> unit io_result \<times> bytes \<times> (nat \<rightharpoonup> sender)" where
  "dispatch_cells w inbound cs =
     (case dispatch_loop w inbound 0 cs of
        (Inl e, cs') \<Rightarrow> (Inl e, inbound, cs')
      | (Inr consumed, cs') \<Rightarrow> (Inr (), if consumed > 0 then drop consumed inbound else inbound, cs'))"

text \<open>The read half of \<^verbatim>\<open>run_io\<close>: each successful read is appended and dispatched.\<close>

fun read_chunks :: "nat \<Rightarrow> bytes \<Rightarrow> (nat \<rightharpoonup> sender) \<Rightarrow> bytes list \<Rightarrow>
    unit io_result \<times> bytes \<times> (nat \<rightharpoonup> sender)" where
  "read_chunks w inbound cs [] = (Inr (), inbound, cs)"
| "read_chunks w inbound cs (chunk # chunks) =
     (case dispatch_cells w (inbound @ chunk) cs of
        (Inl e, inbound', cs') \<Rightarrow> (Inl e, inbound', cs')
      | (Inr _, inbound', cs') \<Rightarrow> read_chunks w inbound' cs' chunks)"

text \<open>What \<^verbatim>\<open>io_loop\<close> leaves behind when the I/O thread ends.\<close>

definition io_loop_end :: "channel \<Rightarrow> channel" where
  "io_loop_end ch = ch\<lparr>closed := True, circuits := Map.empty\<rparr>"

section \<open>The I/O thread as a step relation\<close>

text \<open>
  The sending half of the channel with its environment: senders queue cells, the I/O thread swaps
  an empty \<open>pending\<close> for the queue and writes a prefix of it, and anyone may close. \<open>wire\<close> is
  everything TLS has accepted and \<open>sent_log\<close> the cells that \<open>send_cell\<close> accepted, in order; both are
  observations, no step reads them.
\<close>

record io_state =
  shared :: channel
  pending :: bytes
  wire :: bytes
  sent_log :: "cell list"

inductive io_step :: "io_state \<Rightarrow> io_state \<Rightarrow> bool" where
  sent: "send_cell c (shared s) = Done (Inr ch) \<Longrightarrow> io_step s (s\<lparr>shared := ch, sent_log := sent_log s @ [c]\<rparr>)"
| swapped: "\<not> closed (shared s) \<Longrightarrow> pending s = [] \<Longrightarrow>
     io_step s (s\<lparr>shared := (shared s)\<lparr>out_queue := []\<rparr>, pending := out_queue (shared s)\<rparr>)"
| wrote: "0 < n \<Longrightarrow> n \<le> length (pending s) \<Longrightarrow>
     io_step s (s\<lparr>pending := drop n (pending s), wire := wire s @ take n (pending s)\<rparr>)"
| received: "\<not> closed (shared s) \<Longrightarrow>
     read_chunks (circ_id_len (shared s)) inbound (circuits (shared s)) chunks = (r, inbound', cs) \<Longrightarrow>
     io_step s (s\<lparr>shared := (shared s)\<lparr>circuits := cs\<rparr>\<rparr>)"
| registered: "register_circuit draws (shared s) = Inr (cid, ch) \<Longrightarrow> io_step s (s\<lparr>shared := ch\<rparr>)"
| unregistered: "io_step s (s\<lparr>shared := unregister_circuit cid (shared s)\<rparr>)"
| shut: "io_step s (s\<lparr>shared := close_channel (shared s)\<rparr>)"
| ended: "io_step s (s\<lparr>shared := io_loop_end (shared s)\<rparr>)"

inductive io_reachable :: "io_state \<Rightarrow> bool" where
  start: "link_circ_id_len v = w \<Longrightarrow>
     io_reachable \<lparr>shared = \<lparr>link_version = v, circ_id_len = w, out_queue = [], circuits = Map.empty,
       closed = False\<rparr>, pending = [], wire = [], sent_log = []\<rparr>"
| step: "io_reachable s \<Longrightarrow> io_step s t \<Longrightarrow> io_reachable t"

section \<open>Receiving: lemmas\<close>

abbreviation parser :: "nat \<Rightarrow> bytes \<Rightarrow> (cell \<times> nat) option io_result" where
  "parser w \<equiv> (\<lambda>buf. try_parse buf w)"

lemma dispatch_loop_parses:
  assumes "parses (parser w) buf cells rest" and "buf = drop k inbound"
  shows "\<exists>m. dispatch_loop w inbound k cs = (Inr m, fold deliver cells cs) \<and> drop m inbound = rest"
  using assms
proof (induction arbitrary: k cs rule: parses.induct)
  case (wait buf)
  then show ?case by (auto simp: dispatch_loop.simps)
next
  case (take_one buf c n cells rest)
  have "drop n buf = drop (k + n) inbound"
    using take_one.prems by (simp add: add.commute)
  with take_one.IH [of "k + n" "deliver c cs"] obtain m where
    "dispatch_loop w inbound (k + n) (deliver c cs) = (Inr m, fold deliver cells (deliver c cs))"
    "drop m inbound = rest" by blast
  with take_one.hyps(1) take_one.prems show ?case
    by (auto simp: dispatch_loop.simps [of w inbound k cs])
qed

lemma dispatch_cells_parses:
  assumes "parses (parser w) inbound cells rest"
  shows "dispatch_cells w inbound cs = (Inr (), rest, fold deliver cells cs)"
proof -
  from assms have "parses (parser w) inbound cells rest" .
  from dispatch_loop_parses [OF this, of 0 inbound] obtain m where
    "dispatch_loop w inbound 0 cs = (Inr m, fold deliver cells cs)" "drop m inbound = rest"
    by auto
  then show ?thesis
    by (auto simp: dispatch_cells_def)
qed

lemma parser_empty: "link_width w \<Longrightarrow> parser w [] = Inr None"
  by (auto simp: try_parse_short cell_const_defs)

lemma parser_framing: "link_width w \<Longrightarrow> framing (encode w) (parser w) (wf_cell w)"
  using v2.framing_axioms v4.framing_axioms by auto

lemma read_chunks_stream:
  assumes w: "link_width w" and "\<forall>c \<in> set cells. wf_cell w c"
    and "inbound @ concat chunks = concat (map (encode w) cells)"
    and "parser w inbound = Inr None"
  shows "read_chunks w inbound cs chunks = (Inr (), [], fold deliver cells cs)"
  using assms(2-)
proof (induction chunks arbitrary: inbound cells cs)
  case Nil
  from Nil.prems have "parses (parser w) inbound cells []"
    using framing.parses_stream [OF parser_framing [OF w], of cells "[]"] parser_empty [OF w] by simp
  moreover from Nil.prems(3) have "parses (parser w) inbound [] inbound" by (rule parses.wait)
  ultimately have "cells = []" "inbound = []"
    using parses_deterministic by blast+
  then show ?case by simp
next
  case (Cons chunk chunks)
  from Cons.prems(2) have "(inbound @ chunk) @ concat chunks = concat (map (encode w) cells)"
    by simp
  from framing.stream_split [OF parser_framing [OF w] Cons.prems(1) this]
  obtain cells1 cells2 left where split: "cells = cells1 @ cells2"
    "parses (parser w) (inbound @ chunk) cells1 left"
    "left @ concat chunks = concat (map (encode w) cells2)" by blast
  have "parser w left = Inr None"
    using split(2) by (induction rule: parses.induct) simp_all
  with Cons.IH [of cells2 left] split Cons.prems(1) show ?case
    by (simp add: dispatch_cells_parses [OF split(2)])
qed

lemma fold_deliver_queue:
  assumes "cs i = Some (Receiving q)" and "i \<noteq> 0"
  shows "fold deliver cells cs i = Some (Receiving (q @ filter (\<lambda>c. circ_id c = i) cells))"
  using assms
proof (induction cells arbitrary: cs q)
  case (Cons c cells)
  show ?case
  proof (cases "circ_id c = i")
    case True
    with Cons.prems have "deliver c cs i = Some (Receiving (q @ [c]))"
      by (simp add: deliver_def)
    with Cons.IH True Cons.prems(2) show ?thesis by simp
  next
    case False
    with Cons.prems have "deliver c cs i = Some (Receiving q)"
      by (auto simp: deliver_def split: option.splits sender.splits)
    with Cons.IH False Cons.prems(2) show ?thesis by simp
  qed
qed simp

section \<open>Sending: lemmas\<close>

lemma masked_id_bounds:
  fixes r :: nat
  assumes "m < 2 ^ k" and "msb < 2 ^ k"
  shows "msb \<le> (r AND m) OR msb" and "(r AND m) OR msb < 2 ^ k"
proof -
  have i: "int ((r AND m) OR msb) = (int r AND int m) OR int msb"
    by (simp add: of_nat_and_eq of_nat_or_eq)
  have m: "0 \<le> int r AND int m" "int r AND int m \<le> int m"
    by (simp_all add: AND_upper2)
  have "int m < 2 ^ k" "int msb < 2 ^ k"
    using assms by (metis of_nat_less_iff of_nat_numeral of_nat_power)+
  with m have "(int r AND int m) OR int msb < 2 ^ k"
    by (intro OR_upper) linarith+
  with i show "(r AND m) OR msb < 2 ^ k"
    by (metis of_nat_less_iff of_nat_numeral of_nat_power)
  have "int msb \<le> int msb OR (int r AND int m)"
    by (rule or_greater_eq) (rule m(1))
  with i show "msb \<le> (r AND m) OR msb"
    by (metis of_nat_le_iff or.commute)
qed

lemma register_loop_frame:
  "register_loop msb m n draws i ch = Inr (cid, ch') \<Longrightarrow>
     \<exists>r. cid = (r AND m) OR msb \<and> cid \<noteq> 0 \<and> circuits ch cid = None \<and>
       ch' = ch\<lparr>circuits := (circuits ch)(cid \<mapsto> Receiving [])\<rparr>"
  by (induction n arbitrary: i) (auto simp: Let_def split: if_splits)

lemma register_circuit_frame:
  "register_circuit draws ch = Inr (cid, ch') \<Longrightarrow>
     ch' = ch\<lparr>circuits := (circuits ch)(cid \<mapsto> Receiving [])\<rparr>"
  by (auto simp: register_circuit_def Let_def split: if_splits dest!: register_loop_frame)

definition io_inv :: "io_state \<Rightarrow> bool" where
  "io_inv s \<longleftrightarrow>
     wire s @ pending s @ out_queue (shared s) =
       concat (map (encode (circ_id_len (shared s))) (sent_log s)) \<and>
     length (out_queue (shared s)) \<le> MAX_OUTBOUND_BYTES \<and> length (pending s) \<le> MAX_OUTBOUND_BYTES"

lemma io_step_inv: "io_step s t \<Longrightarrow> io_inv s \<Longrightarrow> io_inv t"
proof (induction rule: io_step.induct)
  case (sent c s ch)
  then show ?case
    by (auto simp: send_cell_def io_inv_def Let_def split: if_splits simp flip: append_assoc)
next
  case (registered draws s cid ch)
  then show ?case
    by (auto simp: io_inv_def dest!: register_circuit_frame)
qed (auto simp: io_inv_def unregister_circuit_def close_channel_def io_loop_end_def)

lemma io_reachable_inv: "io_reachable s \<Longrightarrow> io_inv s"
proof (induction rule: io_reachable.induct)
  case (step s t)
  then show ?case by (blast intro: io_step_inv)
qed (simp add: io_inv_def)

section \<open>Properties\<close>

text \<open>
  C9: However the network cuts a stream of well-formed cells into reads, the channel reads the same
  cells: after all chunks nothing is left in the inbound buffer, no error was raised, and a circuit
  that is receiving has had appended to its queue exactly the cells that carry its CircID, in the
  order they were sent.
\<close>

theorem read_chunks_delivers:
  assumes "link_width w" and "\<forall>c \<in> set cells. wf_cell w c"
    and "concat chunks = concat (map (encode w) cells)"
    and "cs i = Some (Receiving q)" and "i \<noteq> 0"
  shows "\<exists>cs'. read_chunks w [] cs chunks = (Inr (), [], cs') \<and>
           cs' i = Some (Receiving (q @ filter (\<lambda>c. circ_id c = i) cells))"
  using read_chunks_stream [OF assms(1,2) _ parser_empty [OF assms(1)]] assms(3)
    fold_deliver_queue [of cs i q cells] assms(4,5) by simp

definition demo_cells :: "cell list" where
  "demo_cells = [\<lparr>circ_id = 5, command = 129, body = [1]\<rparr>, \<lparr>circ_id = 6, command = 130, body = []\<rparr>]"

theorem read_chunks_delivers_witness:
  "\<exists>cs'. read_chunks 2 [] [5 \<mapsto> Receiving []] [[0, 5, 129, 0], [1, 1, 0, 6], [130, 0, 0]] = (Inr (), [], cs') \<and>
     cs' 5 = Some (Receiving [\<lparr>circ_id = 5, command = 129, body = [1]\<rparr>])"
proof -
  have e: "concat [[0, 5, 129, 0], [1, 1, 0, 6], [130, 0, 0]] = concat (map (encode 2) demo_cells)"
    by (simp add: demo_cells_def encode_def is_variable_length_def cell_const_defs u16_to_be_def
        width_simps)
  have w: "\<forall>c \<in> set demo_cells. wf_cell 2 c"
    by (simp add: demo_cells_def wf_cell_def is_variable_length_def cell_const_defs)
  show ?thesis
    using read_chunks_delivers [OF _ w e, of "[5 \<mapsto> Receiving []]" 5 "[]"]
    by (simp add: demo_cells_def cell_const_defs)
qed

text \<open>
  C39: In every reachable state of the I/O thread and its senders, what TLS has accepted, what is
  pending and what is queued are together exactly the encodings of the accepted cells in the order
  they were accepted: no cell is lost, duplicated, reordered or interleaved with another, and the
  queue never exceeds its cap.
\<close>

theorem io_outbound_in_order:
  assumes "io_reachable s"
  shows "wire s @ pending s @ out_queue (shared s) =
           concat (map (encode (circ_id_len (shared s))) (sent_log s)) \<and>
         length (out_queue (shared s)) \<le> MAX_OUTBOUND_BYTES"
  using io_reachable_inv [OF assms] by (simp add: io_inv_def)

theorem io_outbound_in_order_witness:
  "\<exists>s. io_reachable s \<and> sent_log s = [\<lparr>circ_id = 1, command = 7, body = [9]\<rparr>] \<and>
     wire s @ pending s @ out_queue (shared s) = [0, 0, 0, 1, 7, 0, 1, 9]"
proof -
  let ?c = "\<lparr>circ_id = 1, command = 7, body = [9]\<rparr> :: cell"
  let ?ch = "\<lparr>link_version = 4, circ_id_len = 4, out_queue = [], circuits = Map.empty, closed = False\<rparr> :: channel"
  let ?s = "\<lparr>shared = ?ch, pending = [], wire = [], sent_log = []\<rparr> :: io_state"
  let ?ch' = "?ch\<lparr>out_queue := encode 4 ?c\<rparr>"
  have "io_reachable ?s"
    by (rule io_reachable.start) (simp add: link_circ_id_len_def cell_const_defs)
  moreover have "send_cell ?c (shared ?s) = Done (Inr ?ch')"
    by (simp add: send_cell_def encode_def MAX_OUTBOUND_BYTES_def is_variable_length_def
        cell_const_defs u16_to_be_def u32_to_be_def)
  ultimately have r: "io_reachable (?s\<lparr>shared := ?ch', sent_log := sent_log ?s @ [?c]\<rparr>)"
    by (blast intro: io_reachable.step io_step.sent)
  from io_outbound_in_order [OF r] show ?thesis
    by (intro exI [of _ "?s\<lparr>shared := ?ch', sent_log := sent_log ?s @ [?c]\<rparr>"] conjI r)
      (simp_all add: encode_def is_variable_length_def cell_const_defs u16_to_be_def u32_to_be_def
        width_simps)
qed

text \<open>
  A circuit ID handed out by \<open>register_circuit\<close> was unused, is never zero, fits the CircID width
  of the link and has that width's high bit set, as the side that opened the connection must; the
  new circuit starts with an empty queue and no other circuit is touched.
\<close>

theorem register_circuit_fresh:
  assumes "register_circuit draws ch = Inr (cid, ch')" and "link_width (circ_id_len ch)"
  shows "circuits ch cid = None \<and>
     ch' = ch\<lparr>circuits := (circuits ch)(cid \<mapsto> Receiving [])\<rparr> \<and>
     (if circ_id_len ch = CIRC_ID_LEN_V4 then 2 ^ 31 \<le> cid \<and> cid < 2 ^ 32
      else 2 ^ 15 \<le> cid \<and> cid < 2 ^ 16)"
proof (intro conjI)
  let ?v4 = "circ_id_len ch = CIRC_ID_LEN_V4"
  let ?msb = "if ?v4 then 0x80000000 else 0x8000 :: nat"
  let ?m = "if ?v4 then 0xffffffff else 0xffff :: nat"
  from assms have loop: "register_loop ?msb ?m 64 draws 0 ch = Inr (cid, ch')"
    by (auto simp: register_circuit_def Let_def)
  then obtain r where cid: "cid = (r AND ?m) OR ?msb" and "circuits ch cid = None"
    and "ch' = ch\<lparr>circuits := (circuits ch)(cid \<mapsto> Receiving [])\<rparr>"
    using register_loop_frame [OF loop] by blast
  then show "circuits ch cid = None" "ch' = ch\<lparr>circuits := (circuits ch)(cid \<mapsto> Receiving [])\<rparr>"
    by blast+
  show "if ?v4 then 2 ^ 31 \<le> cid \<and> cid < 2 ^ 32 else 2 ^ 15 \<le> cid \<and> cid < 2 ^ 16"
    using masked_id_bounds [where m = "0xffffffff" and k = 32 and msb = "0x80000000" and r = r]
      masked_id_bounds [where m = "0xffff" and k = 16 and msb = "0x8000" and r = r]
    by (simp add: cid)
qed

end
