(* ===== verification/Circuit_State.thy ===== *)
theory Circuit_State
  imports Circuit_Flow Link_Channel Rust_Text
begin

text \<open>
  The circuit itself, from \<^verbatim>\<open>src/tor/circuit.rs\<close>: the state behind its locks (\<^verbatim>\<open>State\<close> and
  \<^verbatim>\<open>Inner\<close>), the streams open on it, sending relay cells, opening streams, the pump that
  handles every cell the channel delivers, and closing.

  A stream's buffer is shared between the circuit's table and the handles that read and write it
  (\<^verbatim>\<open>Arc<StreamShared>\<close>), and outlives its entry in the table. So buffers live in a store, the list
  \<open>shared\<close>; the table maps a stream ID to a position in it, and opening a stream appends.

  Each operation is one critical section of the code: \<^verbatim>\<open>send_order\<close> and \<^verbatim>\<open>state\<close> are held
  throughout a send and throughout the handling of a relay cell, so these are atomic here as well.
\<close>

section \<open>Constants\<close>

definition RELAY_BEGIN :: u8 where "RELAY_BEGIN = 1"
definition RELAY_DATA :: u8 where "RELAY_DATA = 2"
definition RELAY_END :: u8 where "RELAY_END = 3"
definition RELAY_CONNECTED :: u8 where "RELAY_CONNECTED = 4"
definition RELAY_SENDME :: u8 where "RELAY_SENDME = 5"
definition RELAY_TRUNCATED :: u8 where "RELAY_TRUNCATED = 9"
definition RELAY_DROP :: u8 where "RELAY_DROP = 10"
definition RELAY_BEGIN_DIR :: u8 where "RELAY_BEGIN_DIR = 13"
definition RELAY_EXTEND2 :: u8 where "RELAY_EXTEND2 = 14"
definition RELAY_EXTENDED2 :: u8 where "RELAY_EXTENDED2 = 15"
definition RELAY_RENDEZVOUS2 :: u8 where "RELAY_RENDEZVOUS2 = 37"
definition RELAY_RENDEZVOUS_ESTABLISHED :: u8 where "RELAY_RENDEZVOUS_ESTABLISHED = 39"
definition RELAY_INTRODUCE_ACK :: u8 where "RELAY_INTRODUCE_ACK = 40"
definition RELAY_XOFF :: u8 where "RELAY_XOFF = 43"
definition RELAY_XON :: u8 where "RELAY_XON = 44"

lemmas relay_const_defs = RELAY_BEGIN_def RELAY_DATA_def RELAY_END_def RELAY_CONNECTED_def RELAY_SENDME_def
  RELAY_TRUNCATED_def RELAY_DROP_def RELAY_BEGIN_DIR_def RELAY_EXTEND2_def RELAY_EXTENDED2_def
  RELAY_RENDEZVOUS2_def RELAY_RENDEZVOUS_ESTABLISHED_def RELAY_INTRODUCE_ACK_def RELAY_XOFF_def RELAY_XON_def

definition STREAM_WINDOW_START :: int where "STREAM_WINDOW_START = 500"
definition STREAM_WINDOW_INCREMENT :: int where "STREAM_WINDOW_INCREMENT = 50"
definition MAX_QUEUED_CONTROL :: nat where "MAX_QUEUED_CONTROL = 16"
definition ACTIVE_GAP_MS :: nat where "ACTIVE_GAP_MS = 500"

definition END_REASON_MISC :: u8 where "END_REASON_MISC = 1"
definition END_REASON_RESOLVEFAILED :: u8 where "END_REASON_RESOLVEFAILED = 2"
definition END_REASON_CONNECTREFUSED :: u8 where "END_REASON_CONNECTREFUSED = 3"
definition END_REASON_EXITPOLICY :: u8 where "END_REASON_EXITPOLICY = 4"
definition END_REASON_DONE :: u8 where "END_REASON_DONE = 6"
definition END_REASON_TIMEOUT :: u8 where "END_REASON_TIMEOUT = 7"
definition END_REASON_NOROUTE :: u8 where "END_REASON_NOROUTE = 8"

section \<open>State\<close>

record stream_buf =
  data :: bytes
  connected :: bool
  ended :: "u8 option"
  error :: "string option"
  deliver_window :: int
  package_window :: int
  unacked :: int
  send_blocked :: bool
  xoff_sent :: bool

record stream_shared =
  stream_id :: nat
  stream_hop :: nat
  stream_xoff :: "nat option"
  buf :: stream_buf

text \<open>\<^verbatim>\<open>State\<close>: the hops and their budget come first, as \<open>onion\<close> has them.\<close>

record state = onion +
  flow :: flow_control
  next_stream_id :: nat
  handshake :: "(string + bytes) option"
  control :: "(u8 \<times> bytes) list"

record meter =
  rx_bytes :: nat
  active_ms :: nat
  last_data_ms :: nat
  wants_probe :: bool

text \<open>
  What the circuit sees of its channel: whether it is closed, what this circuit has queued on
  it, and whether the circuit is still registered for cells.
\<close>

record circ_chan =
  chan_closed :: bool
  chan_sent :: "cell list"
  chan_registered :: bool

record inner =
  chan :: circ_chan
  inner_id :: nat
  cstate :: state
  streams :: "nat \<rightharpoonup> nat"
  shared :: "stream_shared list"
  down :: bool
  meter :: meter

definition fresh_buf :: stream_buf where
  "fresh_buf = \<lparr>data = [], connected = False, ended = None, error = None,
     deliver_window = STREAM_WINDOW_START, package_window = STREAM_WINDOW_START, unacked = 0,
     send_blocked = False, xoff_sent = False\<rparr>"

definition meter_new :: meter where
  "meter_new = \<lparr>rx_bytes = 0, active_ms = 0, last_data_ms = 0, wants_probe = False\<rparr>"

definition new_state :: state where
  "new_state = \<lparr>hops = [], relay_early_left = MAX_RELAY_EARLY, last_recv_digest = replicate 20 0,
     flow = windows, next_stream_id = 1, handshake = None, control = []\<rparr>"

text \<open>\<^verbatim>\<open>new_on\<close> for the circuit ID the channel handed out.\<close>

definition new_on :: "nat \<Rightarrow> inner" where
  "new_on cid = \<lparr>chan = \<lparr>chan_closed = False, chan_sent = [], chan_registered = True\<rparr>, inner_id = cid,
     cstate = new_state, streams = Map.empty, shared = [], down = False, meter = meter_new\<rparr>"

section \<open>The control queue\<close>

definition push_control :: "u8 \<Rightarrow> bytes \<Rightarrow> state \<Rightarrow> state" where
  "push_control cmd bs s =
     (let q = (if length (control s) \<ge> MAX_QUEUED_CONTROL then tl (control s) else control s)
      in s\<lparr>control := q @ [(cmd, bs)]\<rparr>)"

definition take_control :: "u8 \<Rightarrow> state \<Rightarrow> bytes option \<times> state" where
  "take_control cmd s =
     (case position (\<lambda>(c, _). c = cmd) (control s) of
        None \<Rightarrow> (None, s)
      | Some i \<Rightarrow> (Some (snd (control s ! i)), s\<lparr>control := remove_at i (control s)\<rparr>))"

section \<open>The meter\<close>

text \<open>\<open>elapsed\<close> is the age of the circuit in milliseconds.\<close>

definition note_data :: "nat \<Rightarrow> nat \<Rightarrow> meter \<Rightarrow> meter" where
  "note_data elapsed len m =
     (let now = max elapsed 1;
          previous = last_data_ms m;
          gap = saturating_sub now previous
      in m\<lparr>rx_bytes := wrap_u64 (rx_bytes m + len), wants_probe := False, last_data_ms := now,
           active_ms := (if previous \<noteq> 0 \<and> gap \<le> ACTIVE_GAP_MS then wrap_u64 (active_ms m + gap)
                         else active_ms m)\<rparr>)"

definition kbps :: "meter \<Rightarrow> nat \<Rightarrow> nat \<Rightarrow> nat option" where
  "kbps m min_bytes min_active_ms =
     (if active_ms m = 0 \<or> rx_bytes m < min_bytes \<or> active_ms m < min_active_ms then None
      else Some (rx_bytes m div active_ms m))"

section \<open>Sending\<close>

text \<open>The outcome of \<^verbatim>\<open>Channel::send_cell\<close> once it returns.\<close>

definition chan_send :: "cell \<Rightarrow> circ_chan \<Rightarrow> unit io_result \<times> circ_chan" where
  "chan_send c ch =
     (if chan_closed ch then (Inl closed_error, ch) else (Inr (), ch\<lparr>chan_sent := chan_sent ch @ [c]\<rparr>))"

definition send_relay ::
    "crypto \<Rightarrow> (nat \<Rightarrow> bytes io_result) \<Rightarrow> nat \<Rightarrow> u8 \<Rightarrow> nat \<Rightarrow> bytes \<Rightarrow> bool \<Rightarrow> inner \<Rightarrow>
     unit io_result \<times> inner" where
  "send_relay C rng hop cmd sid bs early i =
     (case build_relay_cell C rng (inner_id i) hop cmd sid bs early (cstate i) of
        (Inl e, s) \<Rightarrow> (Inl e, i\<lparr>cstate := s\<rparr>)
      | (Inr c, s) \<Rightarrow> (let (r, ch) = chan_send c (chan i) in (r, i\<lparr>cstate := s, chan := ch\<rparr>)))"

text \<open>The same from inside the pump, which holds the ordering lock already.\<close>

definition send_prebuilt ::
    "crypto \<Rightarrow> (nat \<Rightarrow> bytes io_result) \<Rightarrow> nat \<Rightarrow> u8 \<Rightarrow> nat \<Rightarrow> bytes \<Rightarrow> inner \<Rightarrow>
     unit io_result \<times> inner" where
  "send_prebuilt C rng hop cmd sid bs i = send_relay C rng hop cmd sid bs False i"

definition last_hop :: "inner \<Rightarrow> nat io_result" where
  "last_hop i = (if hops (cstate i) = [] then Inl (invalid_data ''this circuit has no hops'')
                 else Inr (length (hops (cstate i)) - 1))"

definition send_control ::
    "crypto \<Rightarrow> (nat \<Rightarrow> bytes io_result) \<Rightarrow> u8 \<Rightarrow> bytes \<Rightarrow> inner \<Rightarrow> unit io_result \<times> inner" where
  "send_control C rng cmd payload i =
     (case last_hop i of
        Inl e \<Rightarrow> (Inl e, i)
      | Inr hop \<Rightarrow> send_relay C rng hop cmd 0 payload False i)"

definition is_closed :: "inner \<Rightarrow> bool" where
  "is_closed i \<longleftrightarrow> down i \<or> chan_closed (chan i)"

definition circuit_closed :: io_error where
  "circuit_closed = IoError ConnectionAborted ''circuit is closed''"

text \<open>
  \<open>send_data\<close>: the wait for a send window is \<open>Blocked\<close>, and its two ways out are results.
  \<open>late\<close> says that the deadline has passed.
\<close>

definition send_data ::
    "crypto \<Rightarrow> (nat \<Rightarrow> bytes io_result) \<Rightarrow> nat \<Rightarrow> bool \<Rightarrow> nat \<Rightarrow> nat \<Rightarrow> bytes \<Rightarrow> inner \<Rightarrow>
     (unit io_result \<times> inner) attempt" where
  "send_data C rng now late hop sid bs i =
     (if \<not> may_send (flow (cstate i)) then
        if is_closed i then Done (Inl circuit_closed, i)
        else if late then Done (Inl (IoError TimedOut ''circuit send window stayed empty''), i)
        else Blocked
      else
        let i = i\<lparr>cstate := (cstate i)\<lparr>flow := note_sent now (flow (cstate i))\<rparr>\<rparr>
        in Done (send_relay C rng hop RELAY_DATA sid bs False i))"

section \<open>Opening a stream\<close>

fun alloc_loop :: "(nat \<rightharpoonup> nat) \<Rightarrow> nat \<Rightarrow> nat \<Rightarrow> nat io_result \<times> nat" where
  "alloc_loop tab 0 nxt = (Inl (IoError Other ''no free stream ID on this circuit''), nxt)"
| "alloc_loop tab (Suc n) nxt =
     (if nxt = 0 \<or> tab nxt \<noteq> None then alloc_loop tab n (wrap_u16 (nxt + 1))
      else (Inr nxt, wrap_u16 (nxt + 1)))"

definition alloc_stream_id :: "inner \<Rightarrow> nat io_result \<times> inner" where
  "alloc_stream_id i =
     (let (r, nxt) = alloc_loop (streams i) u16_max (next_stream_id (cstate i))
      in (r, i\<lparr>cstate := (cstate i)\<lparr>next_stream_id := nxt\<rparr>\<rparr>))"

text \<open>The result is the position of the new stream in the store.\<close>

definition open_stream ::
    "crypto \<Rightarrow> (nat \<Rightarrow> bytes io_result) \<Rightarrow> u8 \<Rightarrow> bytes \<Rightarrow> inner \<Rightarrow> nat io_result \<times> inner" where
  "open_stream C rng cmd payload i =
     (case last_hop i of
        Inl e \<Rightarrow> (Inl e, i)
      | Inr hop \<Rightarrow>
          (case alloc_stream_id i of
             (Inl e, i) \<Rightarrow> (Inl e, i)
           | (Inr sid, i) \<Rightarrow>
               let s = \<lparr>stream_id = sid, stream_hop = hop,
                        stream_xoff = xoff_bytes (flow (cstate i)), buf = fresh_buf\<rparr>;
                   ref = length (shared i);
                   i = i\<lparr>shared := shared i @ [s], streams := (streams i)(sid \<mapsto> ref)\<rparr>
               in (case send_relay C rng hop cmd sid payload False i of
                     (Inl e, i) \<Rightarrow> (Inl e, i\<lparr>streams := (streams i)(sid := None)\<rparr>)
                   | (Inr _, i) \<Rightarrow> (Inr ref, i))))"

definition begin_stream ::
    "crypto \<Rightarrow> (nat \<Rightarrow> bytes io_result) \<Rightarrow> string \<Rightarrow> nat \<Rightarrow> inner \<Rightarrow> nat io_result \<times> inner" where
  "begin_stream C rng target port i =
     open_stream C rng RELAY_BEGIN (as_bytes (to_lowercase target @ '':'' @ nat_digits port) @ [0]) i"

definition begin_stream_onion ::
    "crypto \<Rightarrow> (nat \<Rightarrow> bytes io_result) \<Rightarrow> nat \<Rightarrow> inner \<Rightarrow> nat io_result \<times> inner" where
  "begin_stream_onion C rng port i =
     open_stream C rng RELAY_BEGIN (as_bytes ('':'' @ nat_digits port) @ [0]) i"

definition begin_dir_stream ::
    "crypto \<Rightarrow> (nat \<Rightarrow> bytes io_result) \<Rightarrow> inner \<Rightarrow> nat io_result \<times> inner" where
  "begin_dir_stream C rng i = open_stream C rng RELAY_BEGIN_DIR [] i"

section \<open>The pump\<close>

text \<open>
  \<open>lookup\<close> and a change to the buffer it finds, under the buffer's lock.
\<close>

definition with_stream :: "nat \<Rightarrow> (stream_buf \<Rightarrow> stream_buf) \<Rightarrow> inner \<Rightarrow> inner" where
  "with_stream sid f i =
     (case streams i sid of
        None \<Rightarrow> i
      | Some r \<Rightarrow> i\<lparr>shared := (shared i)[r := (shared i ! r)\<lparr>buf := f (buf (shared i ! r))\<rparr>]\<rparr>)"

text \<open>
  What the environment gives one cell's handling: two random sources for the two cells it may
  send, the clock, and the age of the circuit.
\<close>

record pump_env =
  rng1 :: "nat \<Rightarrow> bytes io_result"
  rng2 :: "nat \<Rightarrow> bytes io_result"
  now :: nat
  age_ms :: nat

definition sendme_payload :: "bytes \<Rightarrow> bytes" where
  "sendme_payload dig = [1] @ u16_to_be 20 @ dig"

text \<open>The part of the RELAY\_DATA arm that concerns the stream.\<close>

definition push_data :: "nat option \<Rightarrow> bytes \<Rightarrow> stream_buf \<Rightarrow> bool \<times> stream_buf" where
  "push_data limit payload b =
     (let b = b\<lparr>deliver_window := wrap_i32 (deliver_window b - 1), unacked := wrap_i32 (unacked b + 1),
                data := data b @ payload\<rparr>;
          stop = (case limit of None \<Rightarrow> False | Some l \<Rightarrow> \<not> xoff_sent b \<and> length (data b) > l)
      in (stop, if stop then b\<lparr>xoff_sent := True\<rparr> else b))"

definition deliver_data ::
    "crypto \<Rightarrow> pump_env \<Rightarrow> nat \<Rightarrow> nat \<Rightarrow> bytes \<Rightarrow> inner \<Rightarrow> unit io_result \<times> inner" where
  "deliver_data C env hop sid payload i =
     (case streams i sid of
        None \<Rightarrow> (Inr (), i)
      | Some r \<Rightarrow>
          let (stop, b) = push_data (stream_xoff (shared i ! r)) payload (buf (shared i ! r));
              i = i\<lparr>shared := (shared i)[r := (shared i ! r)\<lparr>buf := b\<rparr>],
                    meter := note_data (age_ms env) (length payload) (meter i)\<rparr>
          in if stop then send_prebuilt C (rng2 env) hop RELAY_XOFF sid [0] i else (Inr (), i))"

definition handle_data ::
    "crypto \<Rightarrow> pump_env \<Rightarrow> nat \<Rightarrow> nat \<Rightarrow> bytes \<Rightarrow> inner \<Rightarrow> unit io_result \<times> inner" where
  "handle_data C env hop sid payload i =
     (case note_received (flow (cstate i)) of
        Inl e \<Rightarrow> (Inl e, i)
      | Inr (due, fl) \<Rightarrow>
          let i = i\<lparr>cstate := (cstate i)\<lparr>flow := fl\<rparr>\<rparr>;
              (r, i) = (if due then send_prebuilt C (rng1 env) hop RELAY_SENDME 0
                                      (sendme_payload (last_recv_digest (cstate i))) i
                        else (Inr (), i))
          in (case r of
                Inl e \<Rightarrow> (Inl e, i)
              | Inr _ \<Rightarrow> deliver_data C env hop sid payload i))"

definition handle_sendme :: "pump_env \<Rightarrow> nat \<Rightarrow> inner \<Rightarrow> unit io_result \<times> inner" where
  "handle_sendme env sid i =
     (if sid = 0 then
        (case note_sendme (now env) (flow (cstate i)) of
           Inl e \<Rightarrow> (Inl e, i)
         | Inr fl \<Rightarrow> (Inr (), i\<lparr>cstate := (cstate i)\<lparr>flow := fl\<rparr>\<rparr>))
      else (Inr (), with_stream sid (\<lambda>b. b\<lparr>package_window := wrap_i32 (package_window b + STREAM_WINDOW_INCREMENT)\<rparr>) i))"

definition first_or :: "u8 \<Rightarrow> bytes \<Rightarrow> u8" where
  "first_or d bs = (case bs of [] \<Rightarrow> d | b # _ \<Rightarrow> b)"

text \<open>The message of a recognised cell, by its command.\<close>

definition handle_message ::
    "crypto \<Rightarrow> pump_env \<Rightarrow> nat \<Rightarrow> u8 \<Rightarrow> nat \<Rightarrow> bytes \<Rightarrow> inner \<Rightarrow> unit io_result \<times> inner" where
  "handle_message C env hop cmd sid bs i =
     (if cmd = RELAY_EXTENDED2 then
        (case be_u16 bs 0 of
           Inl e \<Rightarrow> (Inl e, i)
         | Inr len \<Rightarrow>
             if 2 + len > length bs then (Inl (invalid_data ''EXTENDED2 length runs past the message''), i)
             else (Inr (), i\<lparr>cstate := (cstate i)\<lparr>handshake := Some (Inr (slice 2 (2 + len) bs))\<rparr>\<rparr>))
      else if cmd = RELAY_SENDME then handle_sendme env sid i
      else if cmd = RELAY_DATA then handle_data C env hop sid bs i
      else if cmd = RELAY_CONNECTED then (Inr (), with_stream sid (\<lambda>b. b\<lparr>connected := True\<rparr>) i)
      else if cmd = RELAY_END then
        (let i = with_stream sid (\<lambda>b. b\<lparr>ended := Some (first_or END_REASON_MISC bs)\<rparr>) i
         in (Inr (), i\<lparr>streams := (streams i)(sid := None)\<rparr>))
      else if cmd = RELAY_TRUNCATED then (Inl (IoError ConnectionAborted ''circuit truncated''), i)
      else if cmd = RELAY_XOFF \<or> cmd = RELAY_XON then
        (if first_or 0 bs \<noteq> 0 then (Inl (invalid_data ''unknown XON/XOFF version''), i)
         else (Inr (), with_stream sid (\<lambda>b. b\<lparr>send_blocked := (cmd = RELAY_XOFF)\<rparr>) i))
      else if cmd = RELAY_RENDEZVOUS_ESTABLISHED \<or> cmd = RELAY_INTRODUCE_ACK \<or> cmd = RELAY_RENDEZVOUS2
        then (Inr (), i\<lparr>cstate := push_control cmd bs (cstate i)\<rparr>)
      else (Inr (), i))"

definition handle_relay ::
    "crypto \<Rightarrow> pump_env \<Rightarrow> cell \<Rightarrow> inner \<Rightarrow> unit io_result \<times> inner" where
  "handle_relay C env c i =
     (if length (body c) \<noteq> CELL_BODY_LEN then (Inl (invalid_data ''relay cell has the wrong body length''), i)
      else case decrypt_inbound C (body c) (cstate i) of
        (None, _, s) \<Rightarrow> (Inr (), i\<lparr>cstate := s\<rparr>)
      | (Some hop, plain, s) \<Rightarrow>
          let i = i\<lparr>cstate := s\<rparr>;
              cmd = plain ! 0;
              sid = u16_from_be (plain ! 3) (plain ! 4);
              len = u16_from_be (plain ! 9) (plain ! 10)
          in if len > RELAY_DATA_MAX then (Inl (invalid_data ''relay message length exceeds the cell''), i)
             else handle_message C env hop cmd sid (slice RELAY_HEADER_LEN (RELAY_HEADER_LEN + len) plain) i)"

definition handle_cell :: "crypto \<Rightarrow> pump_env \<Rightarrow> cell \<Rightarrow> inner \<Rightarrow> unit io_result \<times> inner" where
  "handle_cell C env c i =
     (if command c = CMD_CREATED_FAST then
        if length (body c) < CREATED_FAST_LEN then (Inl (invalid_data ''CREATED_FAST cell is too short''), i)
        else (Inr (), i\<lparr>cstate := (cstate i)\<lparr>handshake := Some (Inr (take CREATED_FAST_LEN (body c)))\<rparr>\<rparr>)
      else if command c = CMD_CREATED2 then
        (case be_u16 (body c) 0 of
           Inl e \<Rightarrow> (Inl e, i)
         | Inr len \<Rightarrow>
             if 2 + len > length (body c) then (Inl (invalid_data ''CREATED2 length runs past the cell''), i)
             else (Inr (), i\<lparr>cstate := (cstate i)\<lparr>handshake := Some (Inr (slice 2 (2 + len) (body c)))\<rparr>\<rparr>))
      else if command c = CMD_DESTROY then (Inl (IoError ConnectionAborted ''DESTROY received''), i)
      else if command c = CMD_RELAY \<or> command c = CMD_RELAY_EARLY then handle_relay C env c i
      else (Inr (), i))"

section \<open>Failing and closing\<close>

definition fail_buf :: "string \<Rightarrow> stream_buf \<Rightarrow> stream_buf" where
  "fail_buf reason b = (if error b = None \<and> ended b = None then b\<lparr>error := Some reason\<rparr> else b)"

definition fail_all :: "string \<Rightarrow> inner \<Rightarrow> inner" where
  "fail_all reason i =
     i\<lparr>shared := map (\<lambda>r. if streams i (stream_id (shared i ! r)) = Some r
                           then (shared i ! r)\<lparr>buf := fail_buf reason (buf (shared i ! r))\<rparr>
                           else shared i ! r) [0..<length (shared i)],
       streams := Map.empty\<rparr>"

definition chan_unregister :: "circ_chan \<Rightarrow> circ_chan" where
  "chan_unregister ch = ch\<lparr>chan_registered := False\<rparr>"

definition close_circuit :: "inner \<Rightarrow> inner" where
  "close_circuit i =
     (if down i then i
      else
        let i = i\<lparr>down := True\<rparr>;
            i = (case cell_new (inner_id i) CMD_DESTROY [END_REASON_MISC] of
                   Inl e \<Rightarrow> i
                 | Inr c \<Rightarrow> i\<lparr>chan := snd (chan_send c (chan i))\<rparr>);
            i = i\<lparr>chan := chan_unregister (chan i)\<rparr>
        in fail_all ''circuit closed'' i)"

definition pump_end :: "inner \<Rightarrow> inner" where
  "pump_end i = fail_all ''circuit closed'' (i\<lparr>down := True, chan := chan_unregister (chan i)\<rparr>)"

text \<open>
  The pump over the cells received so far; \<open>True\<close> means it is still waiting for more.
\<close>

fun pump :: "crypto \<Rightarrow> (cell \<times> pump_env) list \<Rightarrow> inner \<Rightarrow> bool \<times> inner" where
  "pump C [] i = (True, i)"
| "pump C ((c, env) # cs) i =
     (if down i then (False, pump_end i)
      else case handle_cell C env c i of
        (Inl e, i') \<Rightarrow> (False, pump_end i')
      | (Inr _, i') \<Rightarrow> pump C cs i')"

section \<open>Frames\<close>

lemma more_state:
  fixes s t :: state
  assumes "onion.more s = onion.more t"
  shows "flow s = flow t" "next_stream_id s = next_stream_id t" "handshake s = handshake t" "control s = control t"
  using assms by (cases s; cases t; simp)+

lemma decrypt_inbound_state:
  fixes s s' :: state
  assumes "decrypt_inbound C bs s = (r, bs', s')"
  shows "flow s' = flow s" "next_stream_id s' = next_stream_id s" "handshake s' = handshake s"
    "control s' = control s" "relay_early_left s' = relay_early_left s" "length (hops s') = length (hops s)"
  using assms decrypt_loop_frame [of C "length (hops s)" 0 bs s r bs' s'] more_state [of s' s]
  by (simp_all add: decrypt_inbound_def)

text \<open>What a send leaves alone.\<close>

lemma send_relay_frame:
  assumes "send_relay C rng hop cmd sid bs early i = (r, i')"
  shows "streams i' = streams i" "shared i' = shared i" "down i' = down i" "meter i' = meter i"
    "inner_id i' = inner_id i" "flow (cstate i') = flow (cstate i)" "control (cstate i') = control (cstate i)"
    "next_stream_id (cstate i') = next_stream_id (cstate i)" "handshake (cstate i') = handshake (cstate i)"
    "last_recv_digest (cstate i') = last_recv_digest (cstate i)"
    "chan_closed (chan i') = chan_closed (chan i)" "chan_registered (chan i') = chan_registered (chan i)"
    "length (hops (cstate i')) = length (hops (cstate i))"
proof -
  obtain b s where b: "build_relay_cell C rng (inner_id i) hop cmd sid bs early (cstate i) = (b, s)"
    by fastforce
  have i': "\<exists>ch. i' = i\<lparr>cstate := s, chan := ch\<rparr> \<and> chan_closed ch = chan_closed (chan i) \<and> chan_registered ch = chan_registered (chan i)"
    using assms b unfolding send_relay_def chan_send_def Let_def
    by (cases b; cases i) (auto split: if_splits)
  then obtain ch where "i' = i\<lparr>cstate := s, chan := ch\<rparr>" "chan_closed ch = chan_closed (chan i)"
    "chan_registered ch = chan_registered (chan i)" by blast
  then show "streams i' = streams i" "shared i' = shared i" "down i' = down i" "meter i' = meter i"
    "inner_id i' = inner_id i" "flow (cstate i') = flow (cstate i)" "control (cstate i') = control (cstate i)"
    "next_stream_id (cstate i') = next_stream_id (cstate i)" "handshake (cstate i') = handshake (cstate i)"
    "last_recv_digest (cstate i') = last_recv_digest (cstate i)"
    "chan_closed (chan i') = chan_closed (chan i)" "chan_registered (chan i') = chan_registered (chan i)"
    "length (hops (cstate i')) = length (hops (cstate i))"
    using build_relay_cell_frame [OF b] more_state [of s "cstate i"] by simp_all
qed

section \<open>The circuit's invariant\<close>

definition table_ok :: "(nat \<rightharpoonup> nat) \<Rightarrow> stream_shared list \<Rightarrow> bool" where
  "table_ok tab store \<longleftrightarrow> (\<forall>sid r. tab sid = Some r \<longrightarrow>
     r < length store \<and> stream_id (store ! r) = sid \<and> 0 < sid \<and> sid \<le> u16_max)"

text \<open>Every cell received on a stream is either still in its window or waiting to be acknowledged.\<close>

definition buf_ok :: "stream_buf \<Rightarrow> bool" where
  "buf_ok b \<longleftrightarrow> wrap_i32 (deliver_window b + unacked b) = STREAM_WINDOW_START"

definition early_count :: "cell list \<Rightarrow> nat" where
  "early_count cs = length (filter (\<lambda>c. command c = CMD_RELAY_EARLY) cs)"

definition state_ok :: "state \<Rightarrow> bool" where
  "state_ok s \<longleftrightarrow> length (control s) \<le> MAX_QUEUED_CONTROL \<and> next_stream_id s \<le> u16_max"

definition bufs_ok :: "stream_shared list \<Rightarrow> bool" where
  "bufs_ok store \<longleftrightarrow> (\<forall>r < length store. buf_ok (buf (store ! r)))"

definition circ_inv :: "inner \<Rightarrow> bool" where
  "circ_inv i \<longleftrightarrow> table_ok (streams i) (shared i) \<and> bufs_ok (shared i) \<and> state_ok (cstate i)
     \<and> early_count (chan_sent (chan i)) + relay_early_left (cstate i) \<le> MAX_RELAY_EARLY
     \<and> (\<forall>c \<in> set (chan_sent (chan i)). circ_id c = inner_id i)"

named_theorems circ_inv_intros \<open>every operation keeps the circuit's invariant\<close>

lemma table_ok_simps [simp]:
  "table_ok Map.empty store"
  "table_ok tab store \<Longrightarrow> table_ok (tab(sid := None)) store"
  by (auto simp: table_ok_def)

lemma table_okD:
  "table_ok tab store \<Longrightarrow> tab sid = Some r \<Longrightarrow> r < length store \<and> stream_id (store ! r) = sid \<and> 0 < sid \<and> sid \<le> u16_max"
  unfolding table_ok_def by blast

lemma table_ok_ids:
  "table_ok tab store \<Longrightarrow> map stream_id store' = map stream_id store \<Longrightarrow> table_ok tab store'"
  unfolding table_ok_def by (metis length_map nth_map)

lemma table_ok_store:
  assumes "table_ok tab store" and "stream_id s = stream_id (store ! r)"
  shows "table_ok tab (store[r := s])"
  by (rule table_ok_ids [OF assms(1)]) (simp add: map_update assms(2) list_update_id [of _ r, symmetric], metis list_update_id map_update)

lemma table_ok_open:
  "table_ok tab store \<Longrightarrow> tab sid = None \<Longrightarrow> 0 < sid \<Longrightarrow> sid \<le> u16_max \<Longrightarrow> stream_id s = sid \<Longrightarrow>
     table_ok (tab(sid \<mapsto> length store)) (store @ [s])"
  unfolding table_ok_def by (simp add: nth_append) (meson less_SucI)

lemma wrap_i32_add_wrap:
  "wrap_i32 (wrap_i32 a + b) = wrap_i32 (a + b)" "wrap_i32 (b + wrap_i32 a) = wrap_i32 (b + a)"
  by (simp_all add: wrap_i32_def algebra_simps mod_simps)

lemma buf_ok_fresh [simp]: "buf_ok fresh_buf"
  by (simp add: buf_ok_def fresh_buf_def STREAM_WINDOW_START_def wrap_i32_id)

lemma buf_ok_updates [simp]:
  "buf_ok (b\<lparr>connected := c\<rparr>) = buf_ok b" "buf_ok (b\<lparr>ended := e\<rparr>) = buf_ok b" "buf_ok (b\<lparr>error := x\<rparr>) = buf_ok b"
  "buf_ok (b\<lparr>package_window := p\<rparr>) = buf_ok b" "buf_ok (b\<lparr>send_blocked := q\<rparr>) = buf_ok b"
  "buf_ok (b\<lparr>xoff_sent := q\<rparr>) = buf_ok b" "buf_ok (b\<lparr>data := d\<rparr>) = buf_ok b" "buf_ok (fail_buf reason b) = buf_ok b"
  by (simp_all add: buf_ok_def fail_buf_def)

lemma buf_ok_push_data: "buf_ok b \<Longrightarrow> push_data limit payload b = (stop, b') \<Longrightarrow> buf_ok b'"
  by (auto simp: push_data_def Let_def buf_ok_def wrap_i32_add_wrap split: if_splits option.splits)

lemma bufs_ok_simps [simp]:
  "bufs_ok []" "bufs_ok (store @ [s]) \<longleftrightarrow> bufs_ok store \<and> buf_ok (buf s)"
  by (auto simp: bufs_ok_def nth_append less_Suc_eq)

lemma bufs_ok_update: "bufs_ok store \<Longrightarrow> buf_ok (buf s) \<Longrightarrow> bufs_ok (store[r := s])"
  by (cases "r < length store") (auto simp: bufs_ok_def nth_list_update list_update_beyond)

lemma new_on_inv [circ_inv_intros]: "circ_inv (new_on cid)"
  by (simp add: circ_inv_def new_on_def new_state_def state_ok_def early_count_def)

lemma circ_inv_cstate:
  "circ_inv i \<Longrightarrow> state_ok s \<Longrightarrow> relay_early_left s = relay_early_left (cstate i) \<Longrightarrow> circ_inv (i\<lparr>cstate := s\<rparr>)"
  by (simp add: circ_inv_def)

lemma circ_inv_flow [circ_inv_intros]:
  "circ_inv i \<Longrightarrow> circ_inv (i\<lparr>cstate := (cstate i)\<lparr>flow := f\<rparr>\<rparr>)"
  by (simp add: circ_inv_def state_ok_def)

lemma circ_inv_handshake [circ_inv_intros]:
  "circ_inv i \<Longrightarrow> circ_inv (i\<lparr>cstate := (cstate i)\<lparr>handshake := h\<rparr>\<rparr>)"
  by (simp add: circ_inv_def state_ok_def)

lemma push_control_ok: "state_ok s \<Longrightarrow> state_ok (push_control cmd bs s)"
  by (auto simp: state_ok_def push_control_def Let_def MAX_QUEUED_CONTROL_def)

lemma circ_inv_push_control [circ_inv_intros]:
  "circ_inv i \<Longrightarrow> circ_inv (i\<lparr>cstate := push_control cmd bs (cstate i)\<rparr>)"
  by (rule circ_inv_cstate) (simp_all add: circ_inv_def push_control_ok, simp add: push_control_def Let_def)

lemma with_stream_inv [circ_inv_intros]:
  assumes "circ_inv i" and "\<And>b. buf_ok b \<Longrightarrow> buf_ok (f b)"
  shows "circ_inv (with_stream sid f i)"
proof (cases "streams i sid")
  case None
  then show ?thesis using assms(1) by (simp add: with_stream_def)
next
  case (Some r)
  then have "r < length (shared i)"
    using assms(1) table_okD [of "streams i" "shared i" sid r] by (simp add: circ_inv_def)
  then have "buf_ok (f (buf (shared i ! r)))"
    using assms by (simp add: circ_inv_def bufs_ok_def)
  then show ?thesis
    using Some assms(1) by (simp add: circ_inv_def with_stream_def table_ok_store bufs_ok_update)
qed

lemma drop_entry_inv [circ_inv_intros]:
  "circ_inv i \<Longrightarrow> circ_inv (i\<lparr>streams := (streams i)(sid := None)\<rparr>)"
  by (simp add: circ_inv_def)

lemma fail_all_inv [circ_inv_intros]: "circ_inv i \<Longrightarrow> circ_inv (fail_all reason i)"
  by (simp add: circ_inv_def fail_all_def) (simp add: bufs_ok_def)

lemma down_inv [circ_inv_intros]:
  "circ_inv i \<Longrightarrow> circ_inv (i\<lparr>down := d\<rparr>)"
  "circ_inv i \<Longrightarrow> circ_inv (i\<lparr>chan := chan_unregister (chan i)\<rparr>)"
  by (simp_all add: circ_inv_def chan_unregister_def)


lemma send_relay_inv [circ_inv_intros]:
  assumes "circ_inv i" and "send_relay C rng hop cmd sid bs early i = (r, i')"
  shows "circ_inv i'"
proof -
  note frame = send_relay_frame [OF assms(2)]
  obtain b s where b: "build_relay_cell C rng (inner_id i) hop cmd sid bs early (cstate i) = (b, s)"
    by fastforce
  have left: "relay_early_left s \<le> relay_early_left (cstate i)"
    using build_relay_cell_frame [OF b] by simp
  have "early_count (chan_sent (chan i')) + relay_early_left (cstate i') \<le> MAX_RELAY_EARLY \<and>
      (\<forall>c \<in> set (chan_sent (chan i')). circ_id c = inner_id i)"
  proof (cases "\<exists>c. b = Inr c \<and> \<not> chan_closed (chan i)")
    case False
    then have "chan_sent (chan i') = chan_sent (chan i)" "cstate i' = s"
      using assms(2) b by (cases b; auto simp: send_relay_def chan_send_def)+
    then show ?thesis
      using assms(1) left by (simp add: circ_inv_def)
  next
    case True
    then obtain c where c: "b = Inr c" and sent: "chan_sent (chan i') = chan_sent (chan i) @ [c]" "cstate i' = s"
      using assms(2) b by (auto simp: send_relay_def chan_send_def)
    obtain plain where "early \<longrightarrow> 0 < relay_early_left (cstate i)"
      "cell_new (inner_id i) (if early then CMD_RELAY_EARLY else CMD_RELAY) plain = Inr c"
      "relay_early_left s = relay_early_left (cstate i) - of_bool early"
      by (rule build_relay_cell_cases [OF b [unfolded c]]) simp
    then have "circ_id c = inner_id i" "early_count [c] + relay_early_left s = relay_early_left (cstate i)"
      using cell_new_fields [of "inner_id i" _ plain c]
      by (auto simp: early_count_def cell_const_defs split: if_splits)
    then show ?thesis
      using assms(1) unfolding sent by (auto simp: circ_inv_def early_count_def)
  qed
  then show ?thesis
    using assms(1) frame by (simp add: circ_inv_def state_ok_def)
qed

lemma send_data_inv [circ_inv_intros]:
  "circ_inv i \<Longrightarrow> send_data C rng t late hop sid bs i = Done (r, i') \<Longrightarrow> circ_inv i'"
  by (auto simp: send_data_def Let_def split: if_splits intro: circ_inv_flow send_relay_inv)

lemma alloc_loop_ok:
  assumes "alloc_loop tab n nxt = (r, nxt')" and "nxt \<le> u16_max"
  shows "nxt' \<le> u16_max" and "r = Inr sid \<Longrightarrow> 0 < sid \<and> sid \<le> u16_max \<and> tab sid = None"
  using assms by (induction n arbitrary: nxt) (auto split: if_splits)

lemma alloc_stream_id_ok:
  assumes "alloc_stream_id i = (r, i')" and "circ_inv i"
  shows "circ_inv i'" and "r = Inr sid \<Longrightarrow> 0 < sid \<and> sid \<le> u16_max \<and> streams i sid = None"
    and "streams i' = streams i" and "shared i' = shared i"
proof -
  obtain nxt where a: "alloc_loop (streams i) u16_max (next_stream_id (cstate i)) = (r, nxt)"
    and i': "i' = i\<lparr>cstate := (cstate i)\<lparr>next_stream_id := nxt\<rparr>\<rparr>"
    using assms(1) unfolding alloc_stream_id_def by (auto split: prod.splits)
  have n: "next_stream_id (cstate i) \<le> u16_max"
    using assms(2) by (simp add: circ_inv_def state_ok_def)
  note ok = alloc_loop_ok [OF a n]
  show "circ_inv i'"
    using assms(2) ok(1) unfolding i' by (simp add: circ_inv_def state_ok_def)
  show "r = Inr sid \<Longrightarrow> 0 < sid \<and> sid \<le> u16_max \<and> streams i sid = None"
    by (rule ok(2))
  show "streams i' = streams i" "shared i' = shared i"
    by (simp_all add: i')
qed

lemma open_stream_inv [circ_inv_intros]:
  assumes "circ_inv i" and "open_stream C rng cmd payload i = (r, i')"
  shows "circ_inv i'"
proof (cases "last_hop i")
  case (Inl e)
  then show ?thesis using assms by (simp add: open_stream_def)
next
  case hop: (Inr hop)
  obtain a i1 where a: "alloc_stream_id i = (a, i1)" by fastforce
  note ok = alloc_stream_id_ok [OF a assms(1)]
  show ?thesis
  proof (cases a)
    case (Inl e)
    then show ?thesis using assms(2) hop a ok(1) by (simp add: open_stream_def)
  next
    case (Inr sid)
    let ?s = "\<lparr>stream_id = sid, stream_hop = hop, stream_xoff = xoff_bytes (flow (cstate i1)), buf = fresh_buf\<rparr>"
    let ?i2 = "i1\<lparr>shared := shared i1 @ [?s], streams := (streams i1)(sid \<mapsto> length (shared i1))\<rparr>"
    have "table_ok (streams ?i2) (shared ?i2)"
      using ok Inr by (auto simp: circ_inv_def intro!: table_ok_open)
    then have i2: "circ_inv ?i2"
      using ok(1) by (simp add: circ_inv_def)
    obtain b i3 where b: "send_relay C rng hop cmd sid payload False ?i2 = (b, i3)" by fastforce
    then have "circ_inv i3" using send_relay_inv [OF i2] by blast
    then show ?thesis
      using assms(2) hop a Inr b by (cases b) (auto simp: open_stream_def Let_def intro: drop_entry_inv)
  qed
qed

lemma deliver_data_inv:
  assumes "circ_inv i" and "deliver_data C env hop sid payload i = (r, i')"
  shows "circ_inv i'"
proof (cases "streams i sid")
  case None
  then show ?thesis using assms by (simp add: deliver_data_def)
next
  case (Some ref)
  then have "ref < length (shared i)"
    using assms(1) table_okD [of "streams i" "shared i" sid ref] by (simp add: circ_inv_def)
  then have b: "buf_ok (buf (shared i ! ref))"
    using assms(1) by (simp add: circ_inv_def bufs_ok_def)
  obtain stop b' where p: "push_data (stream_xoff (shared i ! ref)) payload (buf (shared i ! ref)) = (stop, b')"
    by fastforce
  let ?i = "i\<lparr>shared := (shared i)[ref := (shared i ! ref)\<lparr>buf := b'\<rparr>],
    meter := note_data (age_ms env) (length payload) (meter i)\<rparr>"
  have "circ_inv ?i"
    using assms(1) buf_ok_push_data [OF b p] by (simp add: circ_inv_def table_ok_store bufs_ok_update)
  then show ?thesis
    using assms(2) Some p send_relay_inv [of ?i]
    by (simp add: deliver_data_def send_prebuilt_def Let_def split: if_splits)
qed

lemma handle_data_inv:
  assumes "circ_inv i" and "handle_data C env hop sid payload i = (r, i')"
  shows "circ_inv i'"
  using assms circ_inv_flow [OF assms(1)] unfolding handle_data_def send_prebuilt_def Let_def
  by (auto split: sum.splits prod.splits if_splits intro: deliver_data_inv dest: send_relay_inv [OF circ_inv_flow [OF assms(1)]])

lemma handle_message_inv:
  assumes "circ_inv i" and "handle_message C env hop cmd sid bs i = (r, i')"
  shows "circ_inv i'"
  using assms unfolding handle_message_def handle_sendme_def
  by (auto simp: Let_def split: if_splits sum.splits
      intro: circ_inv_handshake circ_inv_flow circ_inv_push_control with_stream_inv handle_data_inv
      intro!: drop_entry_inv)

lemma decrypt_inv:
  "circ_inv i \<Longrightarrow> decrypt_inbound C bs (cstate i) = (h, bs', s) \<Longrightarrow> circ_inv (i\<lparr>cstate := s\<rparr>)"
  by (intro circ_inv_cstate) (simp_all add: circ_inv_def state_ok_def decrypt_inbound_state [of C bs "cstate i" h bs' s])

lemma handle_relay_inv:
  assumes "circ_inv i" and "handle_relay C env c i = (r, i')"
  shows "circ_inv i'"
proof -
  obtain h plain s where d: "decrypt_inbound C (body c) (cstate i) = (h, plain, s)"
    by (metis prod_cases3)
  note inv = decrypt_inv [OF assms(1) d]
  show ?thesis
    using assms d inv handle_message_inv [OF inv] unfolding handle_relay_def
    by (cases h) (auto simp: Let_def split: if_splits)
qed

lemma handle_cell_inv [circ_inv_intros]:
  assumes "circ_inv i" and "handle_cell C env c i = (r, i')"
  shows "circ_inv i'"
  using assms handle_relay_inv [OF assms(1)] unfolding handle_cell_def
  by (auto split: if_splits sum.splits intro: circ_inv_handshake)

lemma pump_end_inv [circ_inv_intros]: "circ_inv i \<Longrightarrow> circ_inv (pump_end i)"
  unfolding pump_end_def by (intro fail_all_inv) (simp add: circ_inv_def chan_unregister_def)

lemma chan_send_inv:
  "circ_inv i \<Longrightarrow> command c \<noteq> CMD_RELAY_EARLY \<Longrightarrow> circ_id c = inner_id i \<Longrightarrow>
     circ_inv (i\<lparr>chan := snd (chan_send c (chan i))\<rparr>)"
  by (simp add: circ_inv_def chan_send_def early_count_def)

lemma destroy_cell:
  "\<exists>c. cell_new cid CMD_DESTROY [END_REASON_MISC] = Inr c \<and> command c = CMD_DESTROY \<and> circ_id c = cid"
  by (simp add: cell_new_def is_variable_length_def cell_const_defs)

lemma close_circuit_inv [circ_inv_intros]:
  assumes "circ_inv i"
  shows "circ_inv (close_circuit i)"
proof -
  obtain c where c: "cell_new (inner_id i) CMD_DESTROY [END_REASON_MISC] = Inr c" "command c \<noteq> CMD_RELAY_EARLY"
    "circ_id c = inner_id i"
    using destroy_cell [of "inner_id i"] by (auto simp: cell_const_defs)
  have "circ_inv (i\<lparr>down := True, chan := snd (chan_send c (chan i))\<rparr>)"
    using chan_send_inv [OF down_inv(1) [OF assms, of True]] c by simp
  then show ?thesis
    using assms c(1) down_inv(2) [of "i\<lparr>down := True, chan := snd (chan_send c (chan i))\<rparr>"]
    by (auto simp: close_circuit_def Let_def intro: fail_all_inv)
qed

lemma pump_inv: "circ_inv i \<Longrightarrow> pump C cs i = (b, i') \<Longrightarrow> circ_inv i'"
proof (induction cs arbitrary: i)
  case (Cons x cs)
  obtain c env where x: "x = (c, env)" by fastforce
  obtain r i1 where h: "handle_cell C env c i = (r, i1)" by fastforce
  then have "circ_inv i1" using handle_cell_inv Cons.prems(1) by blast
  then show ?case
    using Cons x h by (cases r) (auto split: if_splits intro: pump_end_inv)
qed simp

section \<open>From a sealed cell to its stream\<close>

text \<open>A random source that works: it answers, and fills what it is given.\<close>

definition good_rng :: "(nat \<Rightarrow> bytes io_result) \<Rightarrow> bool" where
  "good_rng rng \<longleftrightarrow> fills rng \<and> (\<forall>n. \<exists>bs. rng n = Inr bs)"

text \<open>Hop \<open>h\<close> has recognised the message \<open>zeroed\<close>.\<close>

definition received_at :: "crypto \<Rightarrow> nat \<Rightarrow> bytes \<Rightarrow> state \<Rightarrow> state" where
  "received_at C h zeroed s =
     (let d = digest_update (backward_digest (hops s ! h)) zeroed;
          hs = passed CELL_BODY_LEN 0 (Suc h) (hops s)
      in s\<lparr>hops := hs[h := (hs ! h)\<lparr>backward_digest := d\<rparr>], last_recv_digest := peek_prefix C 20 d\<rparr>)"

text \<open>
  A cell that carries message \<open>cmd\<close>, \<open>sid\<close>, \<open>bs\<close> sealed by relay \<open>h\<close>, and that no hop before
  \<open>h\<close> takes for its own.
\<close>

definition sealed_by :: "crypto \<Rightarrow> state \<Rightarrow> nat \<Rightarrow> u8 \<Rightarrow> nat \<Rightarrow> bytes \<Rightarrow> bytes \<Rightarrow> cell \<Rightarrow> bool" where
  "sealed_by C s h cmd sid bs pad c \<longleftrightarrow> h < length (hops s) \<and> command c = CMD_RELAY \<and>
     body c = relay_seal C (hops s) h cmd sid bs pad \<and> sid \<le> u16_max \<and>
     length bs + length pad = RELAY_DATA_MAX \<and>
     (\<forall>j < h. \<not> recognised C (backward_digest (hops s ! j)) (peeled C (hops s) j (body c)))"

lemma length_relay_format:
  "length dig = 4 \<Longrightarrow> length bs + length pad = RELAY_DATA_MAX \<Longrightarrow>
     length (relay_format cmd sid dig bs pad) = CELL_BODY_LEN"
  by (simp add: relay_format_def RELAY_DATA_MAX_def RELAY_HEADER_LEN_def CELL_BODY_LEN_def)

lemma handle_cell_sealed:
  assumes "sealed_by C (cstate i) h cmd sid bs pad c" and "digest_sizes C"
  shows "handle_cell C env c i = handle_message C env h cmd sid bs
     (i\<lparr>cstate := received_at C h (relay_format cmd sid [0, 0, 0, 0] bs pad) (cstate i)\<rparr>)"
proof -
  let ?z = "relay_format cmd sid [0, 0, 0, 0] bs pad"
  have bs: "length bs \<le> RELAY_DATA_MAX" and sid: "sid \<le> u16_max"
    using assms(1) by (simp_all add: sealed_by_def)
  have len: "length ?z = CELL_BODY_LEN"
    using assms(1) by (intro length_relay_format) (simp_all add: sealed_by_def)
  have four: "length (peek_prefix C 4 d) = 4" for d
    using length_peek_prefix [OF assms(2), of 4] by simp
  have l: "length (body c) = CELL_BODY_LEN"
    using assms(1) length_relay_format [OF four] by (simp add: sealed_by_def relay_seal_def Let_def)
  have d: "decrypt_inbound C (body c) (cstate i) = (Some h, ?z, received_at C h ?z (cstate i))"
    using sealed_cell_received [OF _ assms(2) _ len, of h "cstate i"] assms(1)
    unfolding sealed_by_def received_at_def Let_def by auto
  note f = relay_format_fields [where dig = "[0, 0, 0, 0]" and cmd = cmd and pad = pad, OF _ sid bs, simplified]
  show ?thesis
    using assms(1) l d f bs
    by (simp add: handle_cell_def handle_relay_def sealed_by_def cell_const_defs RELAY_HEADER_LEN_def Let_def)
qed

lemma send_relay_ok:
  assumes "\<not> chan_closed (chan i)" and "length bs \<le> RELAY_DATA_MAX" and "hop < length (hops (cstate i))"
    and "good_rng rng" and "digest_sizes C"
  shows "\<exists>c i'. send_relay C rng hop cmd sid bs False i = (Inr (), i') \<and>
     chan_sent (chan i') = chan_sent (chan i) @ [c] \<and> opens_as C (hops (cstate i)) hop c cmd sid bs"
proof -
  obtain c s where b: "build_relay_cell C rng (inner_id i) hop cmd sid bs False (cstate i) = (Inr c, s)"
    using build_relay_cell_ok [of bs hop "cstate i" False rng C "inner_id i" cmd sid] assms by (auto simp: good_rng_def)
  moreover have "opens_as C (hops (cstate i)) hop c cmd sid bs"
    using built_cell_opens_as [OF b] assms by (simp add: good_rng_def)
  ultimately show ?thesis
    using assms(1) by (simp add: send_relay_def chan_send_def)
qed

lemma deliver_data_effect:
  assumes "streams i sid = Some r" and "r < length (shared i)" and "\<not> chan_closed (chan i)" and "hop < length (hops (cstate i))"
    and "good_rng (rng2 env)" and "digest_sizes C"
  shows "\<exists>i' xs. deliver_data C env hop sid payload i = (Inr (), i') \<and>
     shared i' = (shared i)[r := (shared i ! r)\<lparr>buf := snd (push_data (stream_xoff (shared i ! r)) payload (buf (shared i ! r)))\<rparr>] \<and>
     streams i' = streams i \<and> flow (cstate i') = flow (cstate i) \<and>
     chan_sent (chan i') = chan_sent (chan i) @ xs \<and>
     length xs = of_bool (fst (push_data (stream_xoff (shared i ! r)) payload (buf (shared i ! r))))"
proof -
  obtain stop b where p: "push_data (stream_xoff (shared i ! r)) payload (buf (shared i ! r)) = (stop, b)" by fastforce
  let ?i = "i\<lparr>shared := (shared i)[r := (shared i ! r)\<lparr>buf := b\<rparr>],
    meter := note_data (age_ms env) (length payload) (meter i)\<rparr>"
  obtain c i' where x: "send_relay C (rng2 env) hop RELAY_XOFF sid [0] False ?i = (Inr (), i')"
    "chan_sent (chan i') = chan_sent (chan ?i) @ [c]"
    using send_relay_ok [of ?i "[0]" hop "rng2 env" C RELAY_XOFF sid] assms(3-)
    by (auto simp: RELAY_DATA_MAX_def RELAY_HEADER_LEN_def CELL_BODY_LEN_def)
  show ?thesis
    using assms(1) p x send_relay_frame [OF x(1)]
    by (cases stop) (auto simp: deliver_data_def send_prebuilt_def Let_def)
qed

lemma received_at_hops:
  "length (hops (received_at C k z s)) = length (hops s)"
  "j < length (hops s) \<Longrightarrow> forward_cipher (hops (received_at C k z s) ! j) = forward_cipher (hops s ! j)"
  "j < length (hops s) \<Longrightarrow> forward_digest (hops (received_at C k z s) ! j) = forward_digest (hops s ! j)"
  by (cases "k = j"; simp add: received_at_def Let_def)+

lemma received_at_frame [simp]:
  "flow (received_at C k z s) = flow s" "control (received_at C k z s) = control s"
  "last_recv_digest (received_at C k z s) = peek_prefix C 20 (digest_update (backward_digest (hops s ! k)) z)"
  by (simp_all add: received_at_def Let_def)

lemma opens_as_received:
  assumes "h < length (hops s)"
  shows "opens_as C (hops (received_at C k z s)) h c cmd sid bs = opens_as C (hops s) h c cmd sid bs"
proof -
  have "layers (forward_ks C (hops (received_at C k z s))) [0..<Suc h] b = layers (forward_ks C (hops s)) [0..<Suc h] b" for b
    by (rule layers_cong) (use assms in \<open>auto simp: received_at_hops\<close>)
  then show ?thesis
    using assms by (simp add: opens_as_def Let_def received_at_hops)
qed

lemma opens_as_hops: "hops s' = hops s \<Longrightarrow> opens_as C (hops s') = opens_as C (hops s)"
  by simp

lemma push_data_data [simp]:
  "data (snd (push_data limit payload b)) = data b @ payload"
  by (simp add: push_data_def Let_def)

lemma handle_data_effect:
  assumes "streams i sid = Some r" and "r < length (shared i)" and "\<not> chan_closed (chan i)" and "hop < length (hops (cstate i))"
    and "good_rng (rng1 env)" and "good_rng (rng2 env)" and "digest_sizes C" and "note_received (flow (cstate i)) = Inr (due, fl)"
    and "length (last_recv_digest (cstate i)) = 20"
  shows "\<exists>i' new. handle_data C env hop sid payload i = (Inr (), i') \<and>
     shared i' = (shared i)[r := (shared i ! r)\<lparr>buf := snd (push_data (stream_xoff (shared i ! r)) payload (buf (shared i ! r)))\<rparr>] \<and>
     streams i' = streams i \<and> flow (cstate i') = fl \<and> chan_sent (chan i') = chan_sent (chan i) @ new \<and>
     length new = of_bool due + of_bool (fst (push_data (stream_xoff (shared i ! r)) payload (buf (shared i ! r)))) \<and>
     (due \<longrightarrow> opens_as C (hops (cstate i)) hop (hd new) RELAY_SENDME 0 (sendme_payload (last_recv_digest (cstate i))))"
proof -
  let ?i = "i\<lparr>cstate := (cstate i)\<lparr>flow := fl\<rparr>\<rparr>"
  show ?thesis
  proof (cases due)
    case False
    then show ?thesis
      using assms deliver_data_effect [of ?i sid r hop env C payload] by (auto simp: handle_data_def Let_def)
  next
    case True
    obtain c i1 where x: "send_relay C (rng1 env) hop RELAY_SENDME 0 (sendme_payload (last_recv_digest (cstate i))) False ?i = (Inr (), i1)"
      and sent: "chan_sent (chan i1) = chan_sent (chan ?i) @ [c]"
      and o: "opens_as C (hops (cstate ?i)) hop c RELAY_SENDME 0 (sendme_payload (last_recv_digest (cstate i)))"
      using send_relay_ok [of ?i "sendme_payload (last_recv_digest (cstate i))" hop "rng1 env" C RELAY_SENDME 0] assms
      by (auto simp: sendme_payload_def RELAY_DATA_MAX_def RELAY_HEADER_LEN_def CELL_BODY_LEN_def)
    note frame = send_relay_frame [OF x]
    obtain i' xs where d: "deliver_data C env hop sid payload i1 = (Inr (), i')"
      and eff: "shared i' = (shared i1)[r := (shared i1 ! r)\<lparr>buf := snd (push_data (stream_xoff (shared i1 ! r)) payload (buf (shared i1 ! r)))\<rparr>]"
       "streams i' = streams i1" "flow (cstate i') = flow (cstate i1)" "chan_sent (chan i') = chan_sent (chan i1) @ xs"
       "length xs = of_bool (fst (push_data (stream_xoff (shared i1 ! r)) payload (buf (shared i1 ! r))))"
      using deliver_data_effect [of i1 sid r hop env C payload] frame assms by auto
    have "handle_data C env hop sid payload i = (Inr (), i')"
      using assms(8) True x d by (simp add: handle_data_def send_prebuilt_def Let_def)
    then show ?thesis
      using True eff frame sent o by (intro exI [of _ i'] exI [of _ "c # xs"]) simp
  qed
qed

section \<open>What a cell can touch\<close>

text \<open>Of the stream buffers, at most the one the message names; and that one only grows.\<close>

definition touches_one :: "inner \<Rightarrow> inner \<Rightarrow> bool" where
  "touches_one i i' \<longleftrightarrow> length (shared i') = length (shared i) \<and>
     (\<exists>sid. \<forall>r < length (shared i).
        (streams i sid \<noteq> Some r \<longrightarrow> shared i' ! r = shared i ! r) \<and>
        stream_id (shared i' ! r) = stream_id (shared i ! r) \<and>
        (\<exists>xs. data (buf (shared i' ! r)) = data (buf (shared i ! r)) @ xs))"

lemma touches_none: "shared i' = shared i \<Longrightarrow> touches_one i i'"
  by (simp add: touches_one_def)

lemma touches_stream:
  assumes "streams i sid = Some r" and "shared i' = (shared i)[r := (shared i ! r)\<lparr>buf := b\<rparr>]"
    and "data b = data (buf (shared i ! r)) @ xs"
  shows "touches_one i i'"
  unfolding touches_one_def
proof (intro conjI exI [of _ sid] allI impI)
  fix k
  assume k: "k < length (shared i)"
  show "streams i sid \<noteq> Some k \<Longrightarrow> shared i' ! k = shared i ! k"
    using assms(1,2) by auto
  show "stream_id (shared i' ! k) = stream_id (shared i ! k)"
    using assms(2) k by (cases "k = r") auto
  show "\<exists>ys. data (buf (shared i' ! k)) = data (buf (shared i ! k)) @ ys"
    using assms(2,3) k by (cases "k = r") auto
qed (use assms(2) in simp)

lemma touches_with_stream:
  assumes "\<And>b. data (f b) = data b"
  shows "touches_one i (with_stream sid f i)"
  using assms touches_none touches_stream [of i sid _ "with_stream sid f i" "f (buf (shared i ! the (streams i sid)))" "[]"]
  by (cases "streams i sid") (auto simp: with_stream_def)

lemma touches_trans_left:
  assumes "touches_one i1 i'" and "shared i1 = shared i" and "streams i1 = streams i"
  shows "touches_one i i'"
  using assms by (simp add: touches_one_def)

lemma touches_trans_right:
  assumes "touches_one i i1" and "shared i' = shared i1"
  shows "touches_one i i'"
  using assms by (simp add: touches_one_def)

lemma send_relay_touches: "send_relay C rng hop cmd sid bs early i = (r, i') \<Longrightarrow> touches_one i i'"
  by (rule touches_none) (rule send_relay_frame(2))

lemma deliver_data_touches:
  assumes "deliver_data C env hop sid payload i = (r, i')"
  shows "touches_one i i' \<and> streams i' = streams i"
proof (cases "streams i sid")
  case None
  then show ?thesis using assms by (simp add: deliver_data_def touches_none)
next
  case (Some ref)
  obtain stop b where p: "push_data (stream_xoff (shared i ! ref)) payload (buf (shared i ! ref)) = (stop, b)" by fastforce
  let ?i = "i\<lparr>shared := (shared i)[ref := (shared i ! ref)\<lparr>buf := b\<rparr>],
    meter := note_data (age_ms env) (length payload) (meter i)\<rparr>"
  have "shared i' = shared ?i \<and> streams i' = streams i"
    using assms Some p send_relay_frame(1,2) [of C "rng2 env" hop RELAY_XOFF sid "[0]" False ?i r i']
    by (auto simp: deliver_data_def send_prebuilt_def Let_def split: if_splits)
  moreover have "data b = data (buf (shared i ! ref)) @ payload"
    using p push_data_data [of "stream_xoff (shared i ! ref)" payload "buf (shared i ! ref)"] by simp
  ultimately show ?thesis
    using touches_stream [OF Some, of i' b payload] by simp
qed

lemma handle_data_touches:
  assumes "handle_data C env hop sid payload i = (r, i')"
  shows "touches_one i i' \<and> streams i' = streams i"
proof (cases "note_received (flow (cstate i))")
  case (Inl e)
  then show ?thesis using assms by (simp add: handle_data_def touches_none)
next
  case (Inr x)
  obtain due fl where x: "x = (due, fl)" by fastforce
  let ?i = "i\<lparr>cstate := (cstate i)\<lparr>flow := fl\<rparr>\<rparr>"
  obtain r1 i1 where s: "(if due then send_prebuilt C (rng1 env) hop RELAY_SENDME 0
       (sendme_payload (last_recv_digest (cstate ?i))) ?i else (Inr (), ?i)) = (r1, i1)" by fastforce
  have i1: "shared i1 = shared i" "streams i1 = streams i"
    using s send_relay_frame(1,2) [of C "rng1 env" hop RELAY_SENDME 0 _ False ?i r1 i1]
    by (auto simp: send_prebuilt_def split: if_splits)
  show ?thesis
    using assms Inr x s i1 deliver_data_touches [of C env hop sid payload i1 r i']
    by (cases r1) (auto simp: handle_data_def Let_def touches_none intro: touches_trans_left)
qed

lemma with_stream_streams [simp]: "streams (with_stream sid f i) = streams i"
  by (simp add: with_stream_def split: option.split)

lemma handle_message_touches:
  assumes "handle_message C env hop cmd sid bs i = (r, i')"
  shows "touches_one i i'" and "r = Inl e \<Longrightarrow> streams i' = streams i"
proof -
  have "touches_one i (with_stream sid f i\<lparr>streams := t\<rparr>)" if "\<And>b. data (f b) = data b" for f t
    using touches_with_stream [of f i sid] that by (auto intro: touches_trans_right)
  then show "touches_one i i'"
    using assms unfolding handle_message_def handle_sendme_def
    by (auto simp: Let_def split: if_splits sum.splits intro: touches_none touches_with_stream handle_data_touches [THEN conjunct1])
  show "streams i' = streams i" if "r = Inl e"
    using assms that unfolding handle_message_def handle_sendme_def
    by (auto simp: Let_def split: if_splits sum.splits dest: handle_data_touches)
qed

lemma handle_relay_touches:
  assumes "handle_relay C env c i = (r, i')"
  shows "touches_one i i'" and "r = Inl e \<Longrightarrow> streams i' = streams i"
proof -
  obtain h plain s where d: "decrypt_inbound C (body c) (cstate i) = (h, plain, s)"
    by (metis prod_cases3)
  show "touches_one i i'"
    using assms d unfolding handle_relay_def
    by (cases h) (auto simp: Let_def split: if_splits intro: touches_none dest!: handle_message_touches(1) intro: touches_trans_left)
  show "streams i' = streams i" if "r = Inl e"
    using assms d that unfolding handle_relay_def
    by (cases h) (auto simp: Let_def split: if_splits dest: handle_message_touches(2))
qed

lemma handle_cell_touches:
  assumes "handle_cell C env c i = (r, i')"
  shows "touches_one i i'" and "r = Inl e \<Longrightarrow> streams i' = streams i"
  using assms handle_relay_touches [of C env c i r i'] unfolding handle_cell_def
  by (auto split: if_splits sum.splits intro: touches_none)

section \<open>Failure, stream IDs and the control queue\<close>

lemma fail_all_tells:
  assumes "table_ok (streams i) (shared i)" and "streams i sid = Some r"
  shows "error (buf (shared (fail_all reason i) ! r)) \<noteq> None \<or> ended (buf (shared (fail_all reason i) ! r)) \<noteq> None"
  using table_okD [OF assms] assms(2) by (auto simp: fail_all_def fail_buf_def)

lemma fail_all_frame [simp]:
  "streams (fail_all reason i) = Map.empty" "down (fail_all reason i) = down i" "chan (fail_all reason i) = chan i"
  "length (shared (fail_all reason i)) = length (shared i)"
  by (simp_all add: fail_all_def)

lemma fail_all_data [simp]:
  "r < length (shared i) \<Longrightarrow> data (buf (shared (fail_all reason i) ! r)) = data (buf (shared i ! r))"
  by (simp add: fail_all_def fail_buf_def)

lemma alloc_loop_exhausted:
  assumes "alloc_loop tab n nxt = (Inl e, nxt')" and "k < n" and "nxt \<le> u16_max"
  shows "wrap_u16 (nxt + k) = 0 \<or> tab (wrap_u16 (nxt + k)) \<noteq> None"
  using assms
proof (induction n arbitrary: nxt k)
  case (Suc n)
  then have busy: "nxt = 0 \<or> tab nxt \<noteq> None" and rest: "alloc_loop tab n (wrap_u16 (nxt + 1)) = (Inl e, nxt')"
    by (simp_all split: if_splits)
  show ?case
  proof (cases k)
    case 0
    then show ?thesis using busy Suc.prems(3) by (simp add: wrap_u16_id)
  next
    case (Suc k')
    have "wrap_u16 (wrap_u16 (nxt + 1) + k') = wrap_u16 (nxt + k)"
      using Suc by (simp add: wrap_u16_def mod_simps)
    then show ?thesis
      using Suc.IH [OF rest, of k'] Suc.prems(2) Suc by simp
  qed
qed simp

section \<open>Properties\<close>

text \<open>
  C3: a RELAY\_DATA cell sealed by its relay reaches its stream, whole and in order, whatever the
  rest of the circuit is doing: its bytes are appended to that stream's buffer and to no other's,
  the flow control counts it once, and if an acknowledgement is due, the first cell sent in answer
  opens at that relay as a version-1 SENDME quoting the relay's own running digest of this very cell.
\<close>

theorem sealed_data_reaches_its_stream:
  assumes "circ_inv i" and "sealed_by C (cstate i) h RELAY_DATA sid bs pad c" and "digest_sizes C"
    and "streams i sid = Some r" and "note_received (flow (cstate i)) = Inr (due, fl)"
    and "\<not> chan_closed (chan i)" and "good_rng (rng1 env)" and "good_rng (rng2 env)"
  shows "\<exists>i' new. handle_cell C env c i = (Inr (), i')
     \<and> data (buf (shared i' ! r)) = data (buf (shared i ! r)) @ bs
     \<and> (\<forall>r'. r' \<noteq> r \<longrightarrow> shared i' ! r' = shared i ! r')
     \<and> streams i' = streams i \<and> flow (cstate i') = fl
     \<and> chan_sent (chan i') = chan_sent (chan i) @ new
     \<and> (due \<longrightarrow> new \<noteq> [] \<and> opens_as C (hops (cstate i)) h (hd new) RELAY_SENDME 0
          (sendme_payload (peek_prefix C 20 (digest_update (backward_digest (hops (cstate i) ! h))
             (relay_format RELAY_DATA sid [0, 0, 0, 0] bs pad)))))"
proof -
  let ?z = "relay_format RELAY_DATA sid [0, 0, 0, 0] bs pad"
  let ?i = "i\<lparr>cstate := received_at C h ?z (cstate i)\<rparr>"
  have h: "h < length (hops (cstate i))"
    using assms(2) by (simp add: sealed_by_def)
  have r: "r < length (shared i)"
    using assms(1,4) table_okD [of "streams i" "shared i" sid r] by (simp add: circ_inv_def)
  have msg: "handle_cell C env c i = handle_data C env h sid bs ?i"
    unfolding handle_cell_sealed [OF assms(2,3)] by (simp add: handle_message_def relay_const_defs)
  obtain i' new where eff: "handle_data C env h sid bs ?i = (Inr (), i')"
    "shared i' = (shared i)[r := (shared i ! r)\<lparr>buf := snd (push_data (stream_xoff (shared i ! r)) bs (buf (shared i ! r)))\<rparr>]"
    "streams i' = streams i" "flow (cstate i') = fl" "chan_sent (chan i') = chan_sent (chan i) @ new"
    "length new = of_bool due + of_bool (fst (push_data (stream_xoff (shared i ! r)) bs (buf (shared i ! r))))"
    "due \<longrightarrow> opens_as C (hops (cstate ?i)) h (hd new) RELAY_SENDME 0 (sendme_payload (last_recv_digest (cstate ?i)))"
    using handle_data_effect [of ?i sid r h env C due fl bs] assms h r length_peek_prefix [OF assms(3), of 20]
    by (auto simp: received_at_hops)
  then show ?thesis
    using r opens_as_received [OF h, of C] unfolding msg
    by (intro exI [of _ i'] exI [of _ new]) auto
qed

text \<open>
  No cell, whatever its contents and whether or not it is handled without error, disturbs a
  stream it does not name: at most one stream's buffer changes, its identity stays, and the
  bytes already waiting in it stay where they are; new ones come after them.
\<close>

theorem cell_touches_one_stream:
  assumes "handle_cell C env c i = (r, i')"
  shows "length (shared i') = length (shared i) \<and>
     (\<exists>sid. \<forall>ref < length (shared i).
        (streams i sid \<noteq> Some ref \<longrightarrow> shared i' ! ref = shared i ! ref) \<and>
        stream_id (shared i' ! ref) = stream_id (shared i ! ref) \<and>
        (\<exists>xs. data (buf (shared i' ! ref)) = data (buf (shared i ! ref)) @ xs))"
  using handle_cell_touches(1) [OF assms] by (simp add: touches_one_def)

text \<open>
  C37: when the handling of a cell fails, no reader is left waiting: the pump stops, the circuit
  is down and unregistered, its table is empty, and every stream that was open has an error or an
  end on record, with the bytes it had already received still there.
\<close>

theorem failure_reaches_every_stream:
  assumes "circ_inv i" and "\<not> down i" and "handle_cell C env c i = (Inl e, i1)" and "streams i sid = Some r"
  shows "\<exists>i'. pump C ((c, env) # cs) i = (False, i') \<and> down i' \<and> \<not> chan_registered (chan i') \<and> streams i' = Map.empty
     \<and> (error (buf (shared i' ! r)) \<noteq> None \<or> ended (buf (shared i' ! r)) \<noteq> None)
     \<and> (\<exists>xs. data (buf (shared i' ! r)) = data (buf (shared i ! r)) @ xs)"
proof -
  let ?j = "i1\<lparr>down := True, chan := chan_unregister (chan i1)\<rparr>"
  have open1: "streams i1 sid = Some r"
    using handle_cell_touches(2) [OF assms(3)] assms(4) by simp
  have inv: "circ_inv i1"
    using assms(1,3) by (rule handle_cell_inv)
  then have t: "table_ok (streams ?j) (shared ?j)"
    by (simp add: circ_inv_def)
  have r: "r < length (shared i1)"
    using table_okD [OF t, of sid r] open1 by simp
  have "length (shared i1) = length (shared i)"
    "r < length (shared i) \<Longrightarrow> \<exists>xs. data (buf (shared i1 ! r)) = data (buf (shared i ! r)) @ xs"
    using handle_cell_touches(1) [OF assms(3)] by (auto simp: touches_one_def)
  then show ?thesis
    using assms(2,3) fail_all_tells [OF t, of sid r "''circuit closed''"] open1 r
    by (simp add: pump_end_def chan_unregister_def)
qed

text \<open>
  A stream ID that is handed out is in range, is not zero and is not in use; and the search
  gives up only when every ID other than the one just before the counter is taken (that one is
  never looked at).
\<close>

theorem alloc_stream_id_fresh:
  assumes "circ_inv i" and "alloc_stream_id i = (r, i')"
  shows "case r of
      Inr sid \<Rightarrow> 0 < sid \<and> sid \<le> u16_max \<and> streams i sid = None
    | Inl e \<Rightarrow> \<forall>sid. 0 < sid \<and> sid \<le> u16_max \<and> wrap_u16 (sid + 1) \<noteq> next_stream_id (cstate i) \<longrightarrow> streams i sid \<noteq> None"
proof (cases r)
  case (Inr sid)
  then show ?thesis using alloc_stream_id_ok(2) [OF assms(2,1)] by simp
next
  case (Inl e)
  let ?n = "next_stream_id (cstate i)"
  have n: "?n \<le> u16_max"
    using assms(1) by (simp add: circ_inv_def state_ok_def)
  obtain nxt where a: "alloc_loop (streams i) u16_max ?n = (Inl e, nxt)"
    using assms(2) Inl unfolding alloc_stream_id_def by (auto split: prod.splits)
  have "streams i sid \<noteq> None" if sid: "0 < sid" "sid \<le> u16_max" "wrap_u16 (sid + 1) \<noteq> ?n" for sid
  proof -
    let ?k = "if ?n \<le> sid then sid - ?n else sid + 65536 - ?n"
    have w: "wrap_u16 (?n + ?k) = sid"
      using sid n by (auto simp: wrap_u16_def mod_if)
    have "?k < u16_max"
      using sid n by (auto simp: wrap_u16_def mod_if split: if_splits)
    from alloc_loop_exhausted [OF a this n] show ?thesis
      unfolding w using sid(1) by simp
  qed
  with Inl show ?thesis by simp
qed

text \<open>
  A waiting control reply is taken in arrival order per command: the first of its command
  leaves the queue, all others stay in their order, and when there is none nothing changes.
\<close>

theorem take_control_first:
  "case take_control cmd s of
     (None, s') \<Rightarrow> s' = s \<and> cmd \<notin> fst ` set (control s)
   | (Some bs, s') \<Rightarrow> \<exists>before after. control s = before @ (cmd, bs) # after \<and> cmd \<notin> fst ` set before \<and>
       s' = s\<lparr>control := before @ after\<rparr>"
proof (cases "position (\<lambda>(c, _). c = cmd) (control s)")
  case None
  then have "cmd \<notin> fst ` set (control s)"
    using position_None_iff [of "\<lambda>(c, _). c = cmd" "control s"] by auto
  with None show ?thesis by (simp add: take_control_def)
next
  case (Some k)
  note p = position_SomeD [OF Some]
  have "control s = take k (control s) @ control s ! k # drop (Suc k) (control s)"
    using p by (simp add: id_take_nth_drop)
  moreover have "control s ! k = (cmd, snd (control s ! k))"
    using p by (cases "control s ! k") simp
  moreover have "cmd \<notin> fst ` set (take k (control s))"
    using p by (fastforce simp: in_set_conv_nth)
  ultimately show ?thesis
    using Some unfolding take_control_def remove_at_def by auto
qed

section \<open>Witnesses\<close>

text \<open>
  A two-hop circuit with stream 5 open and two bytes waiting, one cell short of a due SENDME.
\<close>

definition demo_inner :: inner where
  "demo_inner = (new_on 9)\<lparr>cstate := new_state\<lparr>hops := hops demo_onion, flow := Window 1000 901\<rparr>,
     streams := [5 \<mapsto> 0],
     shared := [\<lparr>stream_id = 5, stream_hop = 1, stream_xoff = None, buf = fresh_buf\<lparr>data := [1, 2]\<rparr>\<rparr>]\<rparr>"

definition demo_env :: pump_env where
  "demo_env = \<lparr>rng1 = demo_rng, rng2 = demo_rng, now = 0, age_ms = 7\<rparr>"

lemma demo_inner_inv: "circ_inv demo_inner"
  by (auto simp: circ_inv_def demo_inner_def new_on_def new_state_def table_ok_def bufs_ok_def state_ok_def
      early_count_def MAX_RELAY_EARLY_def)

lemma demo_env_good: "good_rng (rng1 demo_env)" "good_rng (rng2 demo_env)"
  using demo_laws by (simp_all add: demo_env_def good_rng_def)

theorem sealed_data_reaches_its_stream_witness:
  "\<exists>c i' new. handle_cell demo_crypto demo_env c demo_inner = (Inr (), i') \<and>
     data (buf (shared i' ! 0)) = [1, 2, 10, 20] \<and> chan_sent (chan i') = chan_sent (chan demo_inner) @ new \<and> new \<noteq> []"
proof -
  let ?c = "\<lparr>circ_id = 9, command = CMD_RELAY,
    body = relay_seal demo_crypto (hops (cstate demo_inner)) 1 RELAY_DATA 5 [10, 20] (replicate 496 5)\<rparr>"
  have "\<forall>j < 1. \<not> recognised demo_crypto (backward_digest (hops (cstate demo_inner) ! j))
      (peeled demo_crypto (hops (cstate demo_inner)) j (body ?c))"
    by (simp add: demo_inner_def demo_onion_def relay_seal_def Let_def recognised_def relay_format_def demo_crypto_def
        hop_new_def virtual_hop_def hop_build_def)
  then have s: "sealed_by demo_crypto (cstate demo_inner) 1 RELAY_DATA 5 [10, 20] (replicate 496 5) ?c"
    by (simp add: sealed_by_def demo_inner_def demo_onion_def RELAY_DATA_MAX_def RELAY_HEADER_LEN_def CELL_BODY_LEN_def)
  have open5: "streams demo_inner 5 = Some 0" and up: "\<not> chan_closed (chan demo_inner)"
    and d: "data (buf (shared demo_inner ! 0)) = [1, 2]"
    by (simp_all add: demo_inner_def new_on_def)
  have due: "note_received (flow (cstate demo_inner)) = Inr (True, Window 1000 1000)"
    by (simp add: demo_inner_def window_consts wrap_i32_def)
  from sealed_data_reaches_its_stream [OF demo_inner_inv s demo_laws(1) open5 due up demo_env_good]
  obtain i' new where "handle_cell demo_crypto demo_env ?c demo_inner = (Inr (), i')"
    "data (buf (shared i' ! 0)) = [1, 2] @ [10, 20]" "chan_sent (chan i') = chan_sent (chan demo_inner) @ new" "new \<noteq> []"
    unfolding d by auto
  then show ?thesis by (intro exI [of _ ?c] exI [of _ i'] exI [of _ new]) simp
qed

lemma demo_destroy:
  "handle_cell demo_crypto demo_env \<lparr>circ_id = 9, command = CMD_DESTROY, body = [1]\<rparr> demo_inner =
     (Inl (IoError ConnectionAborted ''DESTROY received''), demo_inner)"
  by (simp add: handle_cell_def cell_const_defs)

theorem failure_reaches_every_stream_witness:
  "\<exists>i'. pump demo_crypto [(\<lparr>circ_id = 9, command = CMD_DESTROY, body = [1]\<rparr>, demo_env)] demo_inner = (False, i') \<and>
     (error (buf (shared i' ! 0)) \<noteq> None \<or> ended (buf (shared i' ! 0)) \<noteq> None)"
proof -
  have "\<not> down demo_inner" "streams demo_inner 5 = Some 0"
    by (simp_all add: demo_inner_def new_on_def)
  from failure_reaches_every_stream [OF demo_inner_inv this(1) demo_destroy this(2), of "[]"] show ?thesis
    by auto
qed

end
