(* ===== verification/Utf8_Text.thy ===== *)
theory Utf8_Text
  imports Rust_Text
begin

text \<open>
  UTF-8, as \<^verbatim>\<open>String::from_utf8\<close> checks it on the bytes a client or an onion service sends.
\<close>

text \<open>
  \<^verbatim>\<open>String::from_utf8\<close>: the bytes that may follow a leading byte, by range; a surrogate, an overlong form
  and a value past U+10FFFF are refused.
\<close>

definition utf8_tail :: "nat \<Rightarrow> (nat \<times> nat) list option" where
  "utf8_tail b =
     (if b < 128 then Some []
      else if b < 194 then None
      else if b < 224 then Some [(128, 191)]
      else if b = 224 then Some [(160, 191), (128, 191)]
      else if b = 237 then Some [(128, 159), (128, 191)]
      else if b < 240 then Some [(128, 191), (128, 191)]
      else if b = 240 then Some [(144, 191), (128, 191), (128, 191)]
      else if b < 244 then Some [(128, 191), (128, 191), (128, 191)]
      else if b = 244 then Some [(128, 143), (128, 191), (128, 191)]
      else None)"

definition in_ranges :: "(nat \<times> nat) list \<Rightarrow> bytes \<Rightarrow> bool" where
  "in_ranges rs bs \<longleftrightarrow> length rs \<le> length bs \<and> list_all2 (\<lambda>(lo, hi) b. lo \<le> unat b \<and> unat b \<le> hi) rs (take (length rs) bs)"

fun valid_utf8 :: "bytes \<Rightarrow> bool" where
  "valid_utf8 [] = True"
| "valid_utf8 (b # bs) =
     (case utf8_tail (unat b) of
        None \<Rightarrow> False
      | Some rs \<Rightarrow> in_ranges rs bs \<and> valid_utf8 (drop (length rs) bs))"

definition to_text :: "bytes \<Rightarrow> string" where
  "to_text bs = map (\<lambda>b. char_of (unat b)) bs"

lemma to_text_as_bytes [simp]: "to_text (as_bytes s) = s"
  by (simp add: to_text_def comp_def map_idI)

lemma valid_utf8_ascii: "(\<And>b. b \<in> set bs \<Longrightarrow> unat b < 128) \<Longrightarrow> valid_utf8 bs"
  by (induction bs) (simp_all add: utf8_tail_def in_ranges_def)

text \<open>
  \<^verbatim>\<open>split_whitespace\<close> breaks at the white space of Unicode, so it first blanks every such character,
  one to three bytes long.
\<close>

definition ws_len :: "string \<Rightarrow> nat" where
  "ws_len s =
     (case map code (take 3 s) of
        [] \<Rightarrow> 0
      | a # r \<Rightarrow>
          if a \<in> {9, 10, 11, 12, 13, 32} then 1
          else case r of
            [] \<Rightarrow> 0
          | b # r' \<Rightarrow>
              if a = 194 \<and> b \<in> {133, 160} then 2
              else case r' of
                [] \<Rightarrow> 0
              | d # _ \<Rightarrow>
                  if a = 225 \<and> b = 154 \<and> d = 128 \<or>
                     a = 226 \<and> b = 128 \<and> (128 \<le> d \<and> d \<le> 138 \<or> d = 168 \<or> d = 169 \<or> d = 175) \<or>
                     a = 226 \<and> b = 129 \<and> d = 159 \<or>
                     a = 227 \<and> b = 128 \<and> d = 128
                  then 3 else 0)"

fun blank_whitespace :: "string \<Rightarrow> string" where
  "blank_whitespace [] = []"
| "blank_whitespace (ch # s) =
     (let n = ws_len (ch # s) in
      if n = 0 then ch # blank_whitespace s else CHR '' '' # blank_whitespace (drop (n - 1) s))"

definition split_unicode_whitespace :: "string \<Rightarrow> string list" where
  "split_unicode_whitespace s = split_whitespace (blank_whitespace s)"

text \<open>
  \<^verbatim>\<open>String::from_utf8_lossy\<close>: where a sequence breaks off, what there was of it becomes one replacement
  character, and decoding goes on with the byte that did not fit.
\<close>

definition replacement :: bytes where "replacement = [0xEF, 0xBF, 0xBD]"

fun fitting :: "(nat \<times> nat) list \<Rightarrow> bytes \<Rightarrow> nat" where
  "fitting ((lo, hi) # rs) (b # bs) = (if lo \<le> unat b \<and> unat b \<le> hi then Suc (fitting rs bs) else 0)"
| "fitting _ _ = 0"

fun lossy_bytes :: "bytes \<Rightarrow> bytes" where
  "lossy_bytes [] = []"
| "lossy_bytes (b # bs) =
     (case utf8_tail (unat b) of
        None \<Rightarrow> replacement @ lossy_bytes bs
      | Some rs \<Rightarrow>
          let k = fitting rs bs
          in (if k = length rs then b # take k bs else replacement) @ lossy_bytes (drop k bs))"

definition from_utf8_lossy :: "bytes \<Rightarrow> string" where
  "from_utf8_lossy bs = to_text (lossy_bytes bs)"

definition string_from_utf8 :: "string \<Rightarrow> bytes \<Rightarrow> string io_result" where
  "string_from_utf8 msg bs = (if valid_utf8 bs then Inr (to_text bs) else Inl (invalid_data msg))"

lemma fitting_iff: "fitting rs bs = length rs \<longleftrightarrow> in_ranges rs bs"
  by (induction rs bs rule: fitting.induct) (auto simp: in_ranges_def)

lemma lossy_valid: "valid_utf8 bs \<Longrightarrow> lossy_bytes bs = bs"
proof (induction bs rule: valid_utf8.induct)
  case (2 b bs)
  then obtain rs where rs: "utf8_tail (unat b) = Some rs" "in_ranges rs bs" "valid_utf8 (drop (length rs) bs)"
    by (auto split: option.splits)
  with 2 fitting_iff [of rs bs] show ?case by (simp add: Let_def)
qed simp

lemma from_utf8_lossy_text: "valid_utf8 (as_bytes s) \<Longrightarrow> from_utf8_lossy (as_bytes s) = s"
  by (simp add: from_utf8_lossy_def lossy_valid)

lemma string_from_utf8_Inr: "string_from_utf8 msg bs = Inr s \<longleftrightarrow> valid_utf8 bs \<and> s = to_text bs"
  by (auto simp: string_from_utf8_def)

definition printable :: "char \<Rightarrow> bool" where
  "printable ch \<longleftrightarrow> 32 \<le> code ch \<and> code ch < 127"

lemma blank_whitespace_ascii:
  "list_all printable s \<Longrightarrow> blank_whitespace s = s"
proof (induction s)
  case (Cons ch s)
  then have "printable ch" by simp
  moreover from this have "ws_len (ch # s) = (if code ch = 32 then 1 else 0)"
    by (auto simp: ws_len_def printable_def split: list.split)
  moreover have "code (CHR '' '') = 32" by (simp add: code_def)
  then have "code ch = 32 \<Longrightarrow> ch = CHR '' ''" using code_inj by metis
  ultimately show ?case using Cons by auto
qed simp

lemma printable_not_space: "printable ch \<Longrightarrow> ch \<noteq> CHR '' '' \<Longrightarrow> \<not> is_whitespace ch"
proof -
  have "code (CHR '' '') = 32" by (simp add: code_def)
  then show "printable ch \<Longrightarrow> ch \<noteq> CHR '' '' \<Longrightarrow> ?thesis"
    using code_inj [of ch "CHR '' ''"] by (auto simp: printable_def is_whitespace_def)
qed

lemma printable_utf8: "list_all printable s \<Longrightarrow> valid_utf8 (as_bytes s)"
  by (rule valid_utf8_ascii) (auto simp: list_all_iff printable_def)

end
