(* ===== verification/Socks_Front.thy ===== *)
theory Socks_Front
  imports Onion_Address Circuit_State Utf8_Text
begin

text \<open>
  The proxy front end of \<^verbatim>\<open>socks5.rs\<close>: SOCKS5, SOCKS4 and 4a, and HTTP CONNECT on one port, with the
  counters of \<^verbatim>\<open>status.rs\<close> it keeps. A connection is the bytes its peer will still send, the error
  that ends them (end of file, a timeout or a broken socket), what has been written so far, and how
  much more the socket takes before a write fails. Every operation returns its result together with
  the connection it leaves, so what a handshake has not read is exactly what the tunnel will carry.
\<close>

section \<open>Sockets\<close>

record conn =
  incoming :: bytes
  read_end :: io_error
  outgoing :: bytes
  room :: nat
  write_end :: io_error

type_synonym 'a conn_op = "conn \<Rightarrow> 'a io_result \<times> conn"

definition ret :: "'a \<Rightarrow> 'a conn_op" where
  "ret a c = (Inr a, c)"

definition fail :: "io_error \<Rightarrow> 'a conn_op" where
  "fail e c = (Inl e, c)"

text \<open>Sequencing with the \<^verbatim>\<open>?\<close> operator.\<close>

definition bind_conn :: "'a conn_op \<Rightarrow> ('a \<Rightarrow> 'b conn_op) \<Rightarrow> 'b conn_op" where
  "bind_conn m f c = (case m c of (Inl e, c') \<Rightarrow> (Inl e, c') | (Inr a, c') \<Rightarrow> f a c')"

text \<open>\<^verbatim>\<open>read_exact\<close>: all the bytes asked for, or the error that ends the stream with what was there consumed.\<close>

definition socket_read :: "nat \<Rightarrow> bytes conn_op" where
  "socket_read n c =
     (if n \<le> length (incoming c) then (Inr (take n (incoming c)), c\<lparr>incoming := drop n (incoming c)\<rparr>)
      else (Inl (read_end c), c\<lparr>incoming := []\<rparr>))"

definition read_byte :: "u8 conn_op" where
  "read_byte = bind_conn (socket_read 1) (\<lambda>b. ret (hd b))"

definition write_all :: "bytes \<Rightarrow> unit conn_op" where
  "write_all bs c =
     (if length bs \<le> room c
      then (Inr (), c\<lparr>outgoing := outgoing c @ bs, room := room c - length bs\<rparr>)
      else (Inl (write_end c), c\<lparr>outgoing := outgoing c @ take (room c) bs, room := 0\<rparr>))"

section \<open>Text\<close>

definition from_utf8 :: "io_error \<Rightarrow> bytes \<Rightarrow> string conn_op" where
  "from_utf8 e bs = (if valid_utf8 bs then ret (to_text bs) else fail e)"

definition rsplit_once :: "char \<Rightarrow> string \<Rightarrow> (string \<times> string) option" where
  "rsplit_once ch s = map_option (\<lambda>(a, b). (rev b, rev a)) (split_once ch (rev s))"

definition trim_brackets :: "string \<Rightarrow> string" where
  "trim_brackets s =
     (let bracket = (\<lambda>ch. ch = CHR ''['' \<or> ch = CHR '']'')
      in rev (dropWhile bracket (rev (dropWhile bracket s))))"

definition show_ipv4 :: "bytes \<Rightarrow> string" where
  "show_ipv4 ip =
     nat_digits (unat (ip ! 0)) @ ''.'' @ nat_digits (unat (ip ! 1)) @ ''.'' @ nat_digits (unat (ip ! 2)) @ ''.'' @
     nat_digits (unat (ip ! 3))"

section \<open>Protocol constants\<close>

definition SOCKS5_VERSION :: u8 where "SOCKS5_VERSION = 5"
definition SOCKS4_VERSION :: u8 where "SOCKS4_VERSION = 4"
definition METHOD_NO_AUTH :: u8 where "METHOD_NO_AUTH = 0"
definition METHOD_USER_PASS :: u8 where "METHOD_USER_PASS = 2"
definition METHOD_NONE_ACCEPTABLE :: u8 where "METHOD_NONE_ACCEPTABLE = 255"
definition SOCKS4_GRANTED :: u8 where "SOCKS4_GRANTED = 90"
definition SOCKS4_REJECTED :: u8 where "SOCKS4_REJECTED = 91"
definition MAX_HTTP_HEADER_BYTES :: nat where "MAX_HTTP_HEADER_BYTES = 8 * 1024"
definition CMD_CONNECT :: u8 where "CMD_CONNECT = 1"
definition ATYP_IPV4 :: u8 where "ATYP_IPV4 = 1"
definition ATYP_DOMAIN :: u8 where "ATYP_DOMAIN = 3"
definition ATYP_IPV6 :: u8 where "ATYP_IPV6 = 4"
definition REP_SUCCEEDED :: u8 where "REP_SUCCEEDED = 0"
definition REP_GENERAL_FAILURE :: u8 where "REP_GENERAL_FAILURE = 1"
definition REP_NOT_ALLOWED :: u8 where "REP_NOT_ALLOWED = 2"
definition REP_HOST_UNREACHABLE :: u8 where "REP_HOST_UNREACHABLE = 4"
definition REP_CONNECTION_REFUSED :: u8 where "REP_CONNECTION_REFUSED = 5"
definition REP_TTL_EXPIRED :: u8 where "REP_TTL_EXPIRED = 6"
definition REP_COMMAND_NOT_SUPPORTED :: u8 where "REP_COMMAND_NOT_SUPPORTED = 7"
definition REP_ADDRESS_TYPE_NOT_SUPPORTED :: u8 where "REP_ADDRESS_TYPE_NOT_SUPPORTED = 8"

lemmas method_defs = METHOD_NO_AUTH_def METHOD_USER_PASS_def METHOD_NONE_ACCEPTABLE_def
lemmas atyp_defs = ATYP_IPV4_def ATYP_DOMAIN_def ATYP_IPV6_def
lemmas rep_defs = REP_SUCCEEDED_def REP_GENERAL_FAILURE_def REP_NOT_ALLOWED_def REP_HOST_UNREACHABLE_def
  REP_CONNECTION_REFUSED_def REP_TTL_EXPIRED_def REP_COMMAND_NOT_SUPPORTED_def REP_ADDRESS_TYPE_NOT_SUPPORTED_def

datatype protocol = Socks5 | Socks4 | Http

record request =
  host :: string
  port :: nat
  protocol :: protocol

datatype asked = Connect request | Status

abbreviation crlf :: string where "crlf \<equiv> [CHR 0x0D, CHR 0x0A]"

section \<open>Replies\<close>

definition http_status :: "u8 \<Rightarrow> string" where
  "http_status reply =
     (if reply = REP_SUCCEEDED then ''200 Connection established''
      else if reply = REP_NOT_ALLOWED then ''403 Forbidden''
      else if reply = REP_HOST_UNREACHABLE then ''404 Not Found''
      else if reply = REP_CONNECTION_REFUSED then ''502 Bad Gateway''
      else if reply = REP_TTL_EXPIRED then ''504 Gateway Timeout''
      else ''502 Bad Gateway'')"

definition reply_bytes :: "protocol \<Rightarrow> u8 \<Rightarrow> bytes" where
  "reply_bytes p reply =
     (case p of
        Socks5 \<Rightarrow> [SOCKS5_VERSION, reply, 0, ATYP_IPV4, 0, 0, 0, 0, 0, 0]
      | Socks4 \<Rightarrow> [0, if reply = REP_SUCCEEDED then SOCKS4_GRANTED else SOCKS4_REJECTED, 0, 0, 0, 0, 0, 0]
      | Http \<Rightarrow> as_bytes (''HTTP/1.1 '' @ http_status reply @ crlf @
                 (if reply = REP_SUCCEEDED then [] else ''Connection: close'' @ crlf) @ crlf))"

definition send_reply :: "protocol \<Rightarrow> u8 \<Rightarrow> unit conn_op" where
  "send_reply p reply = write_all (reply_bytes p reply)"

definition reply_code :: "io_error \<Rightarrow> u8" where
  "reply_code e =
     (case e of
        EndError _ reason \<Rightarrow>
          if reason = END_REASON_EXITPOLICY then REP_NOT_ALLOWED
          else if reason = END_REASON_RESOLVEFAILED \<or> reason = END_REASON_NOROUTE then REP_HOST_UNREACHABLE
          else if reason = END_REASON_CONNECTREFUSED then REP_CONNECTION_REFUSED
          else if reason = END_REASON_TIMEOUT then REP_TTL_EXPIRED
          else REP_GENERAL_FAILURE
      | IoError kind _ \<Rightarrow>
          (case kind of
             ConnectionRefused \<Rightarrow> REP_CONNECTION_REFUSED
           | TimedOut \<Rightarrow> REP_TTL_EXPIRED
           | NotFound \<Rightarrow> REP_HOST_UNREACHABLE
           | PermissionDenied \<Rightarrow> REP_NOT_ALLOWED
           | _ \<Rightarrow> REP_GENERAL_FAILURE))"

section \<open>SOCKS5\<close>

text \<open>One length-prefixed field: the method list and a host name of RFC 1928, the fields of RFC 1929.\<close>

definition read_field :: "bytes conn_op" where
  "read_field = bind_conn read_byte (\<lambda>len. socket_read (unat len))"

definition read_username_password :: "unit conn_op" where
  "read_username_password =
     bind_conn read_byte (\<lambda>version.
       if version \<noteq> 1 then fail (invalid_data ''unsupported username/password version'')
       else bind_conn read_field (\<lambda>_. bind_conn read_field (\<lambda>_. ret ())))"

definition choose_method :: "bytes \<Rightarrow> unit conn_op" where
  "choose_method methods =
     (if METHOD_NO_AUTH \<in> set methods then write_all [SOCKS5_VERSION, METHOD_NO_AUTH]
      else if METHOD_USER_PASS \<in> set methods
      then bind_conn (write_all [SOCKS5_VERSION, METHOD_USER_PASS]) (\<lambda>_.
             bind_conn read_username_password (\<lambda>_. write_all [1, 0]))
      else bind_conn (write_all [SOCKS5_VERSION, METHOD_NONE_ACCEPTABLE]) (\<lambda>_.
             fail (invalid_data ''client offered no acceptable auth method'')))"

definition refuse :: "protocol \<Rightarrow> u8 \<Rightarrow> string \<Rightarrow> 'a conn_op" where
  "refuse p reply msg = bind_conn (send_reply p reply) (\<lambda>_. fail (invalid_data msg))"

definition read_socks5_host :: "u8 \<Rightarrow> string conn_op" where
  "read_socks5_host atyp =
     (if atyp = ATYP_IPV4 then bind_conn (socket_read 4) (\<lambda>addr. ret (show_ipv4 addr))
      else if atyp = ATYP_DOMAIN
      then bind_conn read_field (\<lambda>name. from_utf8 (invalid_data ''host name is not UTF-8'') name)
      else if atyp = ATYP_IPV6
      then bind_conn (socket_read 16) (\<lambda>_. bind_conn (socket_read 2) (\<lambda>_.
             refuse Socks5 REP_ADDRESS_TYPE_NOT_SUPPORTED ''IPv6 destinations are not supported''))
      else refuse Socks5 REP_ADDRESS_TYPE_NOT_SUPPORTED ''unknown address type'')"

definition checked_request :: "protocol \<Rightarrow> string \<Rightarrow> nat \<Rightarrow> request conn_op" where
  "checked_request p h n =
     (if n = 0 \<or> h = [] then refuse p REP_GENERAL_FAILURE ''empty host or port''
      else ret \<lparr>host = h, port = n, protocol = p\<rparr>)"

definition negotiate_socks5 :: "request conn_op" where
  "negotiate_socks5 =
     bind_conn read_field (\<lambda>methods.
     bind_conn (choose_method methods) (\<lambda>_.
     bind_conn (socket_read 4) (\<lambda>header.
       if header ! 0 \<noteq> SOCKS5_VERSION then fail (invalid_data ''bad SOCKS version in request'')
       else if header ! 1 \<noteq> CMD_CONNECT then refuse Socks5 REP_COMMAND_NOT_SUPPORTED ''unsupported command''
       else bind_conn (read_socks5_host (header ! 3)) (\<lambda>h.
            bind_conn (socket_read 2) (\<lambda>port_bytes.
              checked_request Socks5 h (u16_from_be (port_bytes ! 0) (port_bytes ! 1)))))))"

section \<open>SOCKS4 and SOCKS4a\<close>

text \<open>
  \<^verbatim>\<open>read_until_nul\<close> reads a byte a turn: the field when the NUL comes, an error when a further byte
  would pass the limit, and nothing when the bytes run out first.
\<close>

fun nul_loop :: "nat \<Rightarrow> bytes \<Rightarrow> bytes \<Rightarrow> (bytes io_result \<times> bytes) option" where
  "nul_loop limit out [] = None"
| "nul_loop limit out (b # bs) =
     (if b = 0 then Some (Inr out, bs)
      else if limit \<le> length out then Some (Inl (invalid_data ''SOCKS4 field is too long''), bs)
      else nul_loop limit (out @ [b]) bs)"

definition read_until_nul :: "nat \<Rightarrow> bytes conn_op" where
  "read_until_nul limit c =
     (case nul_loop limit [] (incoming c) of
        None \<Rightarrow> (Inl (read_end c), c\<lparr>incoming := []\<rparr>)
      | Some (r, rest) \<Rightarrow> (r, c\<lparr>incoming := rest\<rparr>))"

definition negotiate_socks4 :: "request conn_op" where
  "negotiate_socks4 =
     bind_conn (socket_read 7) (\<lambda>header.
       let command = header ! 0;
           n = u16_from_be (header ! 1) (header ! 2);
           addr = [header ! 3, header ! 4, header ! 5, header ! 6];
           is_4a = (addr ! 0 = 0 \<and> addr ! 1 = 0 \<and> addr ! 2 = 0 \<and> addr ! 3 \<noteq> 0)
       in if command \<noteq> CMD_CONNECT then refuse Socks4 REP_COMMAND_NOT_SUPPORTED ''unsupported SOCKS4 command''
          else bind_conn (read_until_nul 256) (\<lambda>user.
               bind_conn (if is_4a
                          then bind_conn (read_until_nul 256) (\<lambda>name.
                                 from_utf8 (invalid_data ''SOCKS4a host name is not UTF-8'') name)
                          else ret (show_ipv4 addr)) (\<lambda>h.
                 checked_request Socks4 h n)))"

section \<open>HTTP\<close>

text \<open>
  \<^verbatim>\<open>read_http_head\<close>: up to and including a blank line, with bare line feeds tolerated; \<open>None\<close> when the
  bytes run out first.
\<close>

definition ends_with :: "'a list \<Rightarrow> 'a list \<Rightarrow> bool" where
  "ends_with tail s \<longleftrightarrow> length tail \<le> length s \<and> drop (length s - length tail) s = tail"

fun head_loop :: "bytes \<Rightarrow> bytes \<Rightarrow> (bytes io_result \<times> bytes) option" where
  "head_loop head bs =
     (if ends_with [13, 10, 13, 10] head then Some (Inr head, bs)
      else if MAX_HTTP_HEADER_BYTES \<le> length head then Some (Inl (invalid_data ''HTTP request headers are too long''), bs)
      else case bs of
        [] \<Rightarrow> None
      | b # rest \<Rightarrow>
          if ends_with [10, 10] (head @ [b]) then Some (Inr (head @ [b]), rest) else head_loop (head @ [b]) rest)"

declare head_loop.simps [simp del]

definition read_http_head :: "u8 \<Rightarrow> string conn_op" where
  "read_http_head first c =
     (case head_loop [first] (incoming c) of
        None \<Rightarrow> (Inl (read_end c), c\<lparr>incoming := []\<rparr>)
      | Some (Inl e, rest) \<Rightarrow> (Inl e, c\<lparr>incoming := rest\<rparr>)
      | Some (Inr head, rest) \<Rightarrow> from_utf8 (invalid_data ''HTTP request is not UTF-8'') head (c\<lparr>incoming := rest\<rparr>))"

definition request_line :: "string \<Rightarrow> string" where
  "request_line head = (case find_str crlf head of None \<Rightarrow> head | Some i \<Rightarrow> take i head)"

definition nth_field :: "nat \<Rightarrow> string list \<Rightarrow> string" where
  "nth_field i words = (if i < length words then words ! i else [])"

definition not_implemented_body :: string where
  "not_implemented_body =
     ''This is a Tor proxy. Use CONNECT, or point a SOCKS client '' @
     ''at this port (socks5h://). The status page is at /status.'' @ [CHR 0x0A]"

definition not_implemented :: string where
  "not_implemented =
     ''HTTP/1.1 501 Not Implemented'' @ crlf @ ''Content-Type: text/plain'' @ crlf @
     ''Content-Length: '' @ nat_digits (length not_implemented_body) @ crlf @ ''Connection: close'' @ crlf @ crlf @
     not_implemented_body"

definition connect_target :: "string \<Rightarrow> (string \<times> nat) io_result" where
  "connect_target target =
     (case rsplit_once CHR '':'' target of
        Some (h, p) \<Rightarrow>
          (case parse_u16 p of
             None \<Rightarrow> Inl (invalid_data ''bad CONNECT port'')
           | Some n \<Rightarrow> Inr (trim_brackets h, n))
      | None \<Rightarrow> Inr (target, 443))"

definition negotiate_http :: "u8 \<Rightarrow> asked conn_op" where
  "negotiate_http first =
     bind_conn (read_http_head first) (\<lambda>head.
       let words = split_unicode_whitespace (request_line head);
           verb = nth_field 0 words;
           target = nth_field 1 words
       in if verb = ''GET'' \<and> (target = ''/status'' \<or> starts_with ''/status?'' target) then ret Status
          else if \<not> eq_ignore_ascii_case verb ''CONNECT''
          then bind_conn (write_all (as_bytes not_implemented)) (\<lambda>_.
                 fail (invalid_data ''HTTP method is not supported; only CONNECT is''))
          else case connect_target target of
            Inl e \<Rightarrow> fail e
          | Inr (h, n) \<Rightarrow> bind_conn (checked_request Http h n) (\<lambda>r. ret (Connect r)))"

definition negotiate :: "asked conn_op" where
  "negotiate =
     bind_conn read_byte (\<lambda>first.
       if first = SOCKS5_VERSION then bind_conn negotiate_socks5 (\<lambda>r. ret (Connect r))
       else if first = SOCKS4_VERSION then bind_conn negotiate_socks4 (\<lambda>r. ret (Connect r))
       else if 65 \<le> first \<and> first \<le> 90 then negotiate_http first
       else fail (invalid_data ''connection starts with a byte of no protocol we speak''))"

section \<open>Counters\<close>

record counters =
  ACCEPTED :: nat
  HANDSHAKE_FAILED :: nat
  STATUS_REQUESTS :: nat
  SOCKS5 :: nat
  SOCKS4 :: nat
  HTTP_CONNECT :: nat
  ONION :: nat
  SUCCEEDED :: nat
  ACTIVE :: nat
  BYTES_UP :: nat
  BYTES_DOWN :: nat
  FAILED :: "nat list"

text \<open>\<^verbatim>\<open>fetch_add\<close> and \<^verbatim>\<open>fetch_sub\<close> wrap around at 64 bits.\<close>

definition counter_add :: "nat \<Rightarrow> nat \<Rightarrow> nat" where
  "counter_add n v = wrap_u64 (v + n)"

abbreviation counter_inc :: "nat \<Rightarrow> nat" where "counter_inc \<equiv> counter_add 1"

definition counter_dec :: "nat \<Rightarrow> nat" where
  "counter_dec v = wrap_u64 (v + u64_max)"

definition failed :: "u8 \<Rightarrow> counters \<Rightarrow> counters" where
  "failed reply k =
     (let i = min (unat reply) (length (FAILED k) - 1) in k\<lparr>FAILED := (FAILED k)[i := counter_inc (FAILED k ! i)]\<rparr>)"

section \<open>A connection from start to end\<close>

datatype destination = Exit | Onion onion_address

text \<open>\<open>None\<close> is the panic of slicing a host name inside a character.\<close>

definition classify :: "(bytes \<Rightarrow> bytes) \<Rightarrow> string \<Rightarrow> destination io_result option" where
  "classify sha3 h =
     (case is_onion h of
        None \<Rightarrow> None
      | Some False \<Rightarrow> Some (Inr Exit)
      | Some True \<Rightarrow>
          map_option (\<lambda>r. case r of Inr a \<Rightarrow> Inr (Onion a) | Inl e \<Rightarrow> Inl (IoError NotFound ''not a version 3 onion address''))
            (onion_parse sha3 h))"

text \<open>
  The client behind the front end: opening a stream at an exit and to an onion service. A stream
  carries whatever the relaying needs.
\<close>

record 's tor_client =
  tor_connect :: "string \<Rightarrow> nat \<Rightarrow> 's io_result"
  tor_connect_onion :: "onion_address \<Rightarrow> nat \<Rightarrow> 's io_result"

definition connect :: "(bytes \<Rightarrow> bytes) \<Rightarrow> 's tor_client \<Rightarrow> request \<Rightarrow> 's io_result option" where
  "connect sha3 tor r =
     map_option (\<lambda>d. case d of
         Inl e \<Rightarrow> Inl e
       | Inr Exit \<Rightarrow> tor_connect tor (host r) (port r)
       | Inr (Onion a) \<Rightarrow> tor_connect_onion tor a (port r))
       (classify sha3 (host r))"

record 's front =
  listen_port :: nat
  client :: "'s tor_client option"

definition front_new :: "nat \<Rightarrow> 's front" where
  "front_new p = \<lparr>listen_port = p, client = None\<rparr>"

definition set_ready :: "'s tor_client \<Rightarrow> 's front \<Rightarrow> 's front" where
  "set_ready t f = f\<lparr>client := Some t\<rparr>"

text \<open>How \<^verbatim>\<open>handle\<close> leaves a connection. \<open>Waiting\<close> is a request parked until the client is ready.\<close>

datatype 's handled =
    NoTimeout io_error
  | HandshakeFailed io_error
  | StatusServed "unit io_result"
  | Panicked
  | Waiting request
  | Refused request io_error
  | ReplyFailed request 's
  | Tunnel request 's

definition serve_status :: "string \<Rightarrow> unit conn_op" where
  "serve_status page =
     write_all (as_bytes (''HTTP/1.1 200 OK'' @ crlf @ ''Content-Type: application/json'' @ crlf @
       ''Cache-Control: no-store'' @ crlf @ ''Content-Length: '' @ nat_digits (length page) @ crlf @
       ''Connection: close'' @ crlf @ crlf @ page))"

definition count_protocol :: "protocol \<Rightarrow> counters \<Rightarrow> counters" where
  "count_protocol p k =
     (case p of
        Socks5 \<Rightarrow> k\<lparr>SOCKS5 := counter_inc (SOCKS5 k)\<rparr>
      | Socks4 \<Rightarrow> k\<lparr>SOCKS4 := counter_inc (SOCKS4 k)\<rparr>
      | Http \<Rightarrow> k\<lparr>HTTP_CONNECT := counter_inc (HTTP_CONNECT k)\<rparr>)"

text \<open>
  \<^verbatim>\<open>handle\<close>: \<open>timeout\<close> is the result of setting the read timeout, \<open>page\<close> the status page as rendered
  when it is asked for. The tunnel that follows a \<open>Tunnel\<close> outcome is counted active while it runs;
  \<open>tunnel_done\<close> is what happens to the counters when it ends, after \<open>n_up\<close> and \<open>n_down\<close> bytes.
\<close>

definition serve_request ::
  "(bytes \<Rightarrow> bytes) \<Rightarrow> 's front \<Rightarrow> request \<Rightarrow> counters \<Rightarrow> conn \<Rightarrow> 's handled \<times> counters \<times> conn" where
  "serve_request sha3 f r k c =
     (let k = count_protocol (protocol r) k in
      case is_onion (host r) of
        None \<Rightarrow> (Panicked, k, c)
      | Some onion \<Rightarrow>
          let k = (if onion then k\<lparr>ONION := counter_inc (ONION k)\<rparr> else k) in
          case client f of
            None \<Rightarrow> (Waiting r, k, c)
          | Some tor \<Rightarrow>
              (case connect sha3 tor r of
                 None \<Rightarrow> (Panicked, k, c)
               | Some (Inl e) \<Rightarrow>
                   (Refused r e, failed (reply_code e) k, snd (send_reply (protocol r) (reply_code e) c))
               | Some (Inr stream) \<Rightarrow>
                   (case send_reply (protocol r) REP_SUCCEEDED c of
                      (Inl e, c) \<Rightarrow> (ReplyFailed r stream, k, c)
                    | (Inr _, c) \<Rightarrow>
                        (Tunnel r stream, k\<lparr>SUCCEEDED := counter_inc (SUCCEEDED k), ACTIVE := counter_inc (ACTIVE k)\<rparr>, c))))"

definition handle ::
  "(bytes \<Rightarrow> bytes) \<Rightarrow> 's front \<Rightarrow> unit io_result \<Rightarrow> string \<Rightarrow> counters \<Rightarrow> conn \<Rightarrow> 's handled \<times> counters \<times> conn" where
  "handle sha3 f timeout page k c =
     (let k = k\<lparr>ACCEPTED := counter_inc (ACCEPTED k)\<rparr> in
      case timeout of
        Inl e \<Rightarrow> (NoTimeout e, k, c)
      | Inr _ \<Rightarrow>
          (case negotiate c of
             (Inr (Connect r), c) \<Rightarrow> serve_request sha3 f r k c
           | (Inr Status, c) \<Rightarrow>
               let (sent, c) = serve_status page c
               in (StatusServed sent, k\<lparr>STATUS_REQUESTS := counter_inc (STATUS_REQUESTS k)\<rparr>, c)
           | (Inl e, c) \<Rightarrow> (HandshakeFailed e, k\<lparr>HANDSHAKE_FAILED := counter_inc (HANDSHAKE_FAILED k)\<rparr>, c)))"

definition tunnel_done :: "nat \<Rightarrow> nat \<Rightarrow> counters \<Rightarrow> counters" where
  "tunnel_done n_up n_down k =
     k\<lparr>BYTES_UP := counter_add n_up (BYTES_UP k), BYTES_DOWN := counter_add n_down (BYTES_DOWN k), ACTIVE := counter_dec (ACTIVE k)\<rparr>"

section \<open>How much a handshake reads and writes\<close>

text \<open>
  An operation is bounded when it takes its input from the front, at most \<open>n\<close> bytes of it, and adds at
  most \<open>w\<close> bytes to its output. Bounds add up along a sequence.
\<close>

named_theorems bounded_intros

definition io_bounded :: "nat \<Rightarrow> nat \<Rightarrow> 'a conn_op \<Rightarrow> bool" where
  "io_bounded n w m \<longleftrightarrow>
     (\<forall>c. \<exists>u out. incoming c = u @ incoming (snd (m c)) \<and> length u \<le> n \<and>
        outgoing (snd (m c)) = outgoing c @ out \<and> length out \<le> w)"

lemma boundedD:
  assumes "io_bounded n w m" and "m c = (r, c')"
  obtains u out where "incoming c = u @ incoming c'" "length u \<le> n" "outgoing c' = outgoing c @ out" "length out \<le> w"
  using assms unfolding io_bounded_def by (metis snd_conv)

lemma bounded_mono: "io_bounded n w m \<Longrightarrow> n \<le> n' \<Longrightarrow> w \<le> w' \<Longrightarrow> io_bounded n' w' m"
  unfolding io_bounded_def by (meson le_trans)

lemma bounded_ret [bounded_intros]: "io_bounded n w (ret a)"
  by (simp add: io_bounded_def ret_def)

lemma bounded_fail [bounded_intros]: "io_bounded n w (fail e)"
  by (simp add: io_bounded_def fail_def)

lemma bounded_read_exact: "io_bounded n 0 (socket_read n)"
proof -
  have "\<exists>u out. incoming c = u @ incoming (snd (socket_read n c)) \<and> length u \<le> n \<and>
      outgoing (snd (socket_read n c)) = outgoing c @ out \<and> length out \<le> 0" for c
    by (intro exI [of _ "take n (incoming c)"] exI [of _ "[]"]) (simp add: socket_read_def)
  then show ?thesis unfolding io_bounded_def by blast
qed

lemma bounded_write_all: "length bs \<le> w \<Longrightarrow> io_bounded 0 w (write_all bs)"
  by (auto simp: io_bounded_def write_all_def intro!: exI [of _ "take _ bs"])

lemma bounded_bind:
  assumes "io_bounded n w m" and "\<And>a. io_bounded n' w' (f a)"
  shows "io_bounded (n + n') (w + w') (bind_conn m f)"
  unfolding io_bounded_def
proof
  fix c
  obtain r c1 where m: "m c = (r, c1)" by (cases "m c")
  obtain u out where 1: "incoming c = u @ incoming c1" "length u \<le> n" "outgoing c1 = outgoing c @ out" "length out \<le> w"
    using boundedD [OF assms(1) m] by blast
  show "\<exists>u out. incoming c = u @ incoming (snd (bind_conn m f c)) \<and> length u \<le> n + n' \<and>
      outgoing (snd (bind_conn m f c)) = outgoing c @ out \<and> length out \<le> w + w'"
  proof (cases r)
    case (Inl e)
    then show ?thesis using 1 m by (auto simp: bind_conn_def)
  next
    case (Inr a)
    obtain u' out' where "incoming c1 = u' @ incoming (snd (f a c1))" "length u' \<le> n'"
      "outgoing (snd (f a c1)) = outgoing c1 @ out'" "length out' \<le> w'"
      using assms(2) unfolding io_bounded_def by blast
    then show ?thesis using 1 m Inr
      by (intro exI [of _ "u @ u'"] exI [of _ "out @ out'"]) (simp add: bind_conn_def)
  qed
qed

lemma bounded_bind_le:
  assumes "io_bounded n w m" and "\<And>a. io_bounded n' w' (f a)" and "n + n' \<le> N" and "w + w' \<le> W"
  shows "io_bounded N W (bind_conn m f)"
  using bounded_mono [OF bounded_bind [OF assms(1,2)] assms(3,4)] .

lemma bounded_read_byte: "io_bounded 1 0 read_byte"
  unfolding read_byte_def by (rule bounded_bind_le [OF bounded_read_exact bounded_ret]) simp_all

text \<open>A length-prefixed field: the length is a byte, so at most 256 bytes are read.\<close>

lemma bounded_read_field: "io_bounded 256 0 read_field"
proof -
  have "io_bounded 255 0 (socket_read (unat len))" for len :: u8
    using unsigned_less [of len] by (intro bounded_mono [OF bounded_read_exact]) simp_all
  then show ?thesis unfolding read_field_def by (rule bounded_bind_le [OF bounded_read_byte]) simp_all
qed

lemma nul_loop_bound:
  "length out \<le> limit \<Longrightarrow> nul_loop limit out bs = Some (r, rest) \<Longrightarrow>
   \<exists>u. bs = u @ rest \<and> length u \<le> Suc limit - length out"
proof (induction bs arbitrary: out)
  case (Cons b bs)
  show ?case
  proof (cases "b = 0 \<or> limit \<le> length out")
    case True
    then have "rest = bs" using Cons.prems by (auto split: if_splits)
    then show ?thesis using Cons.prems by (intro exI [of _ "[b]"]) simp
  next
    case False
    then obtain u where "bs = u @ rest" "length u \<le> Suc limit - Suc (length out)"
      using Cons.IH [of "out @ [b]"] Cons.prems(2) by auto
    then show ?thesis using False by (intro exI [of _ "b # u"]) auto
  qed
qed simp

lemma nul_loop_runs_out:
  "length out \<le> limit \<Longrightarrow> nul_loop limit out bs = None \<Longrightarrow> length bs \<le> limit - length out"
proof (induction bs arbitrary: out)
  case (Cons b bs)
  then have "Suc (length out) \<le> limit" "nul_loop limit (out @ [b]) bs = None"
    by (auto split: if_splits)
  then show ?case using Cons.IH [of "out @ [b]"] by simp
qed simp

lemma bounded_read_until_nul: "io_bounded (Suc limit) 0 (read_until_nul limit)"
  unfolding io_bounded_def
proof
  fix c :: conn
  consider "nul_loop limit [] (incoming c) = None"
    | r rest where "nul_loop limit [] (incoming c) = Some (r, rest)" by fastforce
  then show "\<exists>u out. incoming c = u @ incoming (snd (read_until_nul limit c)) \<and> length u \<le> Suc limit \<and>
      outgoing (snd (read_until_nul limit c)) = outgoing c @ out \<and> length out \<le> 0"
  proof cases
    case 1
    then show ?thesis using nul_loop_runs_out [OF _ 1] by (simp add: read_until_nul_def)
  next
    case 2
    then show ?thesis using nul_loop_bound [OF _ 2] by (simp add: read_until_nul_def)
  qed
qed

lemma head_loop_more:
  assumes "\<not> ends_with [13, 10, 13, 10] head" and "\<not> MAX_HTTP_HEADER_BYTES \<le> length head"
  shows "head_loop head [] = None"
    and "head_loop head (b # bs) =
      (if ends_with [10, 10] (head @ [b]) then Some (Inr (head @ [b]), bs) else head_loop (head @ [b]) bs)"
  using assms by (simp_all add: head_loop.simps [of head])

lemma head_loop_bound:
  "length head \<le> MAX_HTTP_HEADER_BYTES \<Longrightarrow> head_loop head bs = Some (r, rest) \<Longrightarrow>
   \<exists>u. bs = u @ rest \<and> length head + length u \<le> MAX_HTTP_HEADER_BYTES"
proof (induction head bs rule: head_loop.induct)
  case (1 head bs)
  show ?case
  proof (cases "ends_with [13, 10, 13, 10] head \<or> MAX_HTTP_HEADER_BYTES \<le> length head")
    case True
    then have "rest = bs" using 1(3) by (auto simp: head_loop.simps [of head bs] split: if_splits)
    then show ?thesis using 1(2) by simp
  next
    case False
    then obtain b bs' where bs: "bs = b # bs'" using 1(3) by (cases bs) (auto simp: head_loop_more)
    show ?thesis
    proof (cases "ends_with [10, 10] (head @ [b])")
      case True
      then have "rest = bs'" using 1(3) False by (auto simp: head_loop_more bs)
      then show ?thesis using False bs by (intro exI [of _ "[b]"]) simp
    next
      case nb: False
      then obtain u where "bs' = u @ rest" "length (head @ [b]) + length u \<le> MAX_HTTP_HEADER_BYTES"
        using 1(1) [OF _ _ bs nb] False 1(3) by (auto simp: head_loop_more bs)
      then show ?thesis using bs by (intro exI [of _ "b # u"]) simp
    qed
  qed
qed

lemma head_loop_runs_out:
  "length head \<le> MAX_HTTP_HEADER_BYTES \<Longrightarrow> head_loop head bs = None \<Longrightarrow> length head + length bs \<le> MAX_HTTP_HEADER_BYTES"
proof (induction head bs rule: head_loop.induct)
  case (1 head bs)
  then have more: "\<not> ends_with [13, 10, 13, 10] head" "\<not> MAX_HTTP_HEADER_BYTES \<le> length head"
    by (auto simp: head_loop.simps [of head bs] split: if_splits)
  show ?case
  proof (cases bs)
    case Nil
    then show ?thesis using 1(2) by simp
  next
    case (Cons b bs')
    then have nb: "\<not> ends_with [10, 10] (head @ [b])" and "head_loop (head @ [b]) bs' = None"
      using 1(3) more by (auto simp: head_loop_more split: if_splits)
    then show ?thesis using 1(1) [OF more Cons nb] more Cons by simp
  qed
qed

lemma bounded_read_http_head: "io_bounded (MAX_HTTP_HEADER_BYTES - 1) 0 (read_http_head first)"
  unfolding io_bounded_def
proof
  fix c :: conn
  have one: "length [first] \<le> MAX_HTTP_HEADER_BYTES" by (simp add: MAX_HTTP_HEADER_BYTES_def)
  consider "head_loop [first] (incoming c) = None"
    | r rest where "head_loop [first] (incoming c) = Some (r, rest)" by fastforce
  then show "\<exists>u out. incoming c = u @ incoming (snd (read_http_head first c)) \<and> length u \<le> MAX_HTTP_HEADER_BYTES - 1 \<and>
      outgoing (snd (read_http_head first c)) = outgoing c @ out \<and> length out \<le> 0"
  proof cases
    case 1
    then show ?thesis using head_loop_runs_out [OF one 1] by (simp add: read_http_head_def)
  next
    case 2
    then have "snd (read_http_head first c) = c\<lparr>incoming := rest\<rparr>"
      by (simp add: read_http_head_def from_utf8_def ret_def fail_def split: sum.split)
    then show ?thesis using head_loop_bound [OF one 2] by fastforce
  qed
qed

lemma length_reply_bytes: "length (reply_bytes p reply) \<le> 60"
  by (simp add: reply_bytes_def http_status_def split: protocol.split)

lemma bounded_from_utf8 [bounded_intros]: "io_bounded n w (from_utf8 e bs)"
  by (simp add: from_utf8_def bounded_intros)

lemma bounded_refuse: "io_bounded 0 60 (refuse p reply msg)"
  unfolding refuse_def send_reply_def
  by (rule bounded_bind_le [OF bounded_write_all [OF length_reply_bytes] bounded_fail [of 0 0]]) simp_all

lemma bounded_refuse_le: "60 \<le> w \<Longrightarrow> io_bounded n w (refuse p reply msg)"
  by (rule bounded_mono [OF bounded_refuse]) simp_all

lemma bounded_checked_request: "io_bounded 0 60 (checked_request p h n)"
  by (simp add: checked_request_def bounded_refuse bounded_ret)

lemma bounded_read_username_password: "io_bounded 513 0 read_username_password"
proof -
  have "io_bounded 512 0 (bind_conn read_field (\<lambda>_. bind_conn read_field (\<lambda>_. ret ())))"
    by (rule bounded_mono [OF bounded_bind [OF bounded_read_field bounded_bind [OF bounded_read_field bounded_ret [of 0 0]]]])
       simp_all
  then have "io_bounded 512 0 (if version \<noteq> 1 then fail e else bind_conn read_field (\<lambda>_. bind_conn read_field (\<lambda>_. ret ())))"
    for version :: u8 and e by (simp add: bounded_fail)
  then show ?thesis unfolding read_username_password_def by (rule bounded_bind_le [OF bounded_read_byte]) simp_all
qed

lemma bounded_choose_method: "io_bounded 513 4 (choose_method methods)"
proof -
  have two: "io_bounded 0 2 (write_all [a, b])" for a b by (rule bounded_write_all) simp
  have "io_bounded 513 2 (bind_conn read_username_password (\<lambda>_. write_all [1, 0]))"
    by (rule bounded_bind_le [OF bounded_read_username_password two]) simp_all
  then have "io_bounded 513 4 (bind_conn (write_all [SOCKS5_VERSION, METHOD_USER_PASS])
      (\<lambda>_. bind_conn read_username_password (\<lambda>_. write_all [1, 0])))"
    by (rule bounded_bind_le [OF two]) simp_all
  moreover have "io_bounded 513 4 (bind_conn (write_all [SOCKS5_VERSION, METHOD_NONE_ACCEPTABLE])
      (\<lambda>_. fail (invalid_data msg) :: unit conn_op))" for msg
    by (rule bounded_bind_le [OF two bounded_fail [of 0 0]]) simp_all
  moreover have "io_bounded 513 4 (write_all [SOCKS5_VERSION, METHOD_NO_AUTH])"
    by (rule bounded_mono [OF two]) simp_all
  ultimately show ?thesis unfolding choose_method_def by simp
qed

lemma bounded_read_socks5_host: "io_bounded 256 60 (read_socks5_host atyp)"
proof -
  have "io_bounded 256 60 (bind_conn (socket_read 4) (\<lambda>addr. ret (show_ipv4 addr)))"
    by (rule bounded_bind_le [OF bounded_read_exact bounded_ret [of 0 0]]) simp_all
  moreover have "io_bounded 256 60 (bind_conn read_field (\<lambda>name. from_utf8 e name))" for e
    by (rule bounded_bind_le [OF bounded_read_field bounded_from_utf8 [of 0 0]]) simp_all
  moreover have "io_bounded 256 60 (bind_conn (socket_read 16) (\<lambda>_. bind_conn (socket_read 2) (\<lambda>_. refuse Socks5 reply msg)) :: string conn_op)"
    for reply msg
    by (rule bounded_mono [OF bounded_bind [OF bounded_read_exact bounded_bind [OF bounded_read_exact bounded_refuse]]]) simp_all
  ultimately show ?thesis unfolding read_socks5_host_def by (simp add: bounded_refuse_le)
qed

lemma bounded_negotiate_socks5: "io_bounded 2000 200 negotiate_socks5"
proof -
  have "io_bounded 258 120 (bind_conn (read_socks5_host atyp) (\<lambda>h. bind_conn (socket_read 2) (\<lambda>port_bytes.
      checked_request Socks5 h (u16_from_be (port_bytes ! 0) (port_bytes ! 1)))))" for atyp
    by (rule bounded_mono [OF bounded_bind [OF bounded_read_socks5_host
          bounded_bind [OF bounded_read_exact bounded_checked_request]]]) simp_all
  then have "io_bounded 258 120
      (if header ! 0 \<noteq> SOCKS5_VERSION then fail (invalid_data m1)
       else if header ! 1 \<noteq> CMD_CONNECT then refuse Socks5 REP_COMMAND_NOT_SUPPORTED m2
       else bind_conn (read_socks5_host (header ! 3)) (\<lambda>h. bind_conn (socket_read 2) (\<lambda>port_bytes.
              checked_request Socks5 h (u16_from_be (port_bytes ! 0) (port_bytes ! 1)))))" for header m1 m2
    by (simp add: bounded_fail bounded_refuse_le)
  then show ?thesis unfolding negotiate_socks5_def
    by (rule bounded_mono [OF bounded_bind [OF bounded_read_field
          bounded_bind [OF bounded_choose_method bounded_bind [OF bounded_read_exact]]]]) simp_all
qed

lemma bounded_negotiate_socks4: "io_bounded 600 60 negotiate_socks4"
proof -
  have "io_bounded 257 0 (if is_4a then bind_conn (read_until_nul 256) (\<lambda>name. from_utf8 e name) else ret h)" for is_4a e h
    using bounded_bind_le [OF bounded_read_until_nul bounded_from_utf8 [of 0 0]] by (simp add: bounded_ret)
  then have "io_bounded 514 60 (bind_conn (read_until_nul 256) (\<lambda>user.
      bind_conn (if is_4a then bind_conn (read_until_nul 256) (\<lambda>name. from_utf8 e name) else ret h)
        (\<lambda>h. checked_request Socks4 h n)))" for is_4a e h n
    by (rule bounded_mono [OF bounded_bind [OF bounded_read_until_nul bounded_bind [OF _ bounded_checked_request]]]) simp_all
  then show ?thesis unfolding negotiate_socks4_def Let_def
    by (intro bounded_bind_le [OF bounded_read_exact, where n' = 514 and w' = 60]) (simp_all add: bounded_refuse_le)
qed

lemma length_not_implemented: "length not_implemented \<le> 300"
  by (simp add: not_implemented_def not_implemented_body_def nat_digits.simps)

lemma bounded_negotiate_http: "io_bounded (MAX_HTTP_HEADER_BYTES - 1) 300 (negotiate_http first)"
proof -
  have "io_bounded 0 300 (bind_conn (checked_request Http h n) (\<lambda>r. ret (Connect r)))" for h n
    by (rule bounded_bind_le [OF bounded_checked_request bounded_ret [of 0 0]]) simp_all
  moreover have "io_bounded 0 300 (bind_conn (write_all (as_bytes not_implemented)) (\<lambda>_. fail e))" for e :: io_error
    by (rule bounded_bind_le [OF bounded_write_all [of _ 300] bounded_fail [of 0 0]]) (simp_all add: length_not_implemented)
  ultimately show ?thesis unfolding negotiate_http_def Let_def
    by (intro bounded_bind_le [OF bounded_read_http_head, where n' = 0 and w' = 300])
       (auto simp: bounded_intros split: sum.split)
qed

text \<open>
  Whatever a client sends, a handshake takes its bytes from the front of the connection in order
  and at most 8192 of them, and answers with at most 300, so neither an endless header nor an endless
  user name makes the proxy read or buffer without bound.
\<close>

theorem handshake_bounded:
  "\<exists>u out. incoming c = u @ incoming (snd (negotiate c)) \<and> length u \<le> MAX_HTTP_HEADER_BYTES \<and>
     outgoing (snd (negotiate c)) = outgoing c @ out \<and> length out \<le> 300"
proof -
  have max: "2000 \<le> MAX_HTTP_HEADER_BYTES - Suc 0" "600 \<le> MAX_HTTP_HEADER_BYTES - Suc 0" "1 + (MAX_HTTP_HEADER_BYTES - 1) \<le> MAX_HTTP_HEADER_BYTES"
    by (simp_all add: MAX_HTTP_HEADER_BYTES_def)
  have "io_bounded (MAX_HTTP_HEADER_BYTES - 1) 300 (bind_conn negotiate_socks5 (\<lambda>r. ret (Connect r)))"
    by (rule bounded_bind_le [OF bounded_negotiate_socks5 bounded_ret [of 0 0]]) (simp_all add: max)
  moreover have "io_bounded (MAX_HTTP_HEADER_BYTES - 1) 300 (bind_conn negotiate_socks4 (\<lambda>r. ret (Connect r)))"
    by (rule bounded_bind_le [OF bounded_negotiate_socks4 bounded_ret [of 0 0]]) (simp_all add: max)
  ultimately have "io_bounded MAX_HTTP_HEADER_BYTES 300 negotiate"
    unfolding negotiate_def using max(3)
    by (intro bounded_bind_le [OF bounded_read_byte, where n' = "MAX_HTTP_HEADER_BYTES - 1" and w' = 300])
       (simp_all add: bounded_negotiate_http [simplified] bounded_fail)
  then show ?thesis unfolding io_bounded_def by blast
qed

section \<open>Requests as clients send them\<close>

lemma socket_read_append [simp]:
  "incoming c = bs @ rest \<Longrightarrow> length bs = n \<Longrightarrow> socket_read n c = (Inr bs, c\<lparr>incoming := rest\<rparr>)"
  by (simp add: socket_read_def)

lemma socket_read_Cons [simp]:
  "incoming c = x0 # x1 # rest \<Longrightarrow> socket_read 2 c = (Inr [x0, x1], c\<lparr>incoming := rest\<rparr>)"
  "incoming c = x0 # x1 # x2 # x3 # rest \<Longrightarrow> socket_read 4 c = (Inr [x0, x1, x2, x3], c\<lparr>incoming := rest\<rparr>)"
  "incoming c = x0 # x1 # x2 # x3 # x4 # x5 # x6 # rest \<Longrightarrow>
   socket_read 7 c = (Inr [x0, x1, x2, x3, x4, x5, x6], c\<lparr>incoming := rest\<rparr>)"
  by (simp_all add: socket_read_def)

lemma read_byte_Cons [simp]: "incoming c = b # rest \<Longrightarrow> read_byte c = (Inr b, c\<lparr>incoming := rest\<rparr>)"
  by (simp add: read_byte_def bind_conn_def ret_def socket_read_def)

definition field :: "bytes \<Rightarrow> bytes" where
  "field bs = word_of_nat (length bs) # bs"

lemma read_field_append [simp]:
  "incoming c = field bs @ rest \<Longrightarrow> length bs < 256 \<Longrightarrow> read_field c = (Inr bs, c\<lparr>incoming := rest\<rparr>)"
  by (simp add: read_field_def bind_conn_def field_def)

lemma write_all_room [simp]:
  "length bs \<le> room c \<Longrightarrow>
   write_all bs c = (Inr (), c\<lparr>outgoing := outgoing c @ bs, room := room c - length bs\<rparr>)"
  by (simp add: write_all_def)

lemma bind_conn_Inr: "m c = (Inr a, c') \<Longrightarrow> bind_conn m f c = f a c'"
  by (simp add: bind_conn_def)

definition socks5_client :: "bytes \<Rightarrow> bytes \<Rightarrow> bytes \<Rightarrow> string \<Rightarrow> nat \<Rightarrow> bytes" where
  "socks5_client methods user password h n =
     [5] @ field methods @
     (if METHOD_NO_AUTH \<in> set methods then [] else [1] @ field user @ field password) @
     [5, 1, 0, 3] @ field (as_bytes h) @ u16_to_be n"

definition socks5_answer :: "bytes \<Rightarrow> bytes" where
  "socks5_answer methods = (if METHOD_NO_AUTH \<in> set methods then [5, 0] else [5, 2, 1, 0])"

lemma negotiate_socks5_client:
  assumes "METHOD_NO_AUTH \<in> set methods \<or> METHOD_USER_PASS \<in> set methods"
    and "length methods < 256" "length user < 256" "length password < 256"
    and "h \<noteq> []" "length h < 256" "valid_utf8 (as_bytes h)" "0 < n" "n \<le> u16_max" "4 \<le> room c"
    and inc: "incoming c = socks5_client methods user password h n @ rest"
  shows "negotiate c = (Inr (Connect \<lparr>host = h, port = n, protocol = Socks5\<rparr>),
     c\<lparr>incoming := rest, outgoing := outgoing c @ socks5_answer methods, room := room c - length (socks5_answer methods)\<rparr>)"
proof -
  define c2 where "c2 = c\<lparr>incoming := [5, 1, 0, 3] @ field (as_bytes h) @ u16_to_be n @ rest, outgoing := outgoing c @ socks5_answer methods,
     room := room c - length (socks5_answer methods)\<rparr>"
  have tail: "bind_conn (socket_read 4) (\<lambda>header.
       if header ! 0 \<noteq> SOCKS5_VERSION then fail (invalid_data m1)
       else if header ! 1 \<noteq> CMD_CONNECT then refuse Socks5 REP_COMMAND_NOT_SUPPORTED m2
       else bind_conn (read_socks5_host (header ! 3)) (\<lambda>h.
            bind_conn (socket_read 2) (\<lambda>port_bytes.
              checked_request Socks5 h (u16_from_be (port_bytes ! 0) (port_bytes ! 1))))) c2 =
     (Inr \<lparr>host = h, port = n, protocol = Socks5\<rparr>, c2\<lparr>incoming := rest\<rparr>)" for m1 m2
    using assms by (simp add: c2_def bind_conn_def SOCKS5_VERSION_def CMD_CONNECT_def read_socks5_host_def atyp_defs
      from_utf8_def ret_def checked_request_def u16_to_be_def u16_be_roundtrip)
  define mid where "mid = (if METHOD_NO_AUTH \<in> set methods then [] else [1] @ field user @ field password)"
  have ans: "length (socks5_answer methods) \<le> 4" by (simp add: socks5_answer_def)
  have choose: "choose_method methods (c\<lparr>incoming := mid @ [5, 1, 0, 3] @ field (as_bytes h) @ u16_to_be n @ rest\<rparr>) = (Inr (), c2)"
    using assms by (auto simp: bind_conn_def choose_method_def c2_def mid_def socks5_answer_def SOCKS5_VERSION_def method_defs
      read_username_password_def ret_def)
  have first: "incoming c = 5 # field methods @ mid @ [5, 1, 0, 3] @ field (as_bytes h) @ u16_to_be n @ rest"
    using inc by (simp add: socks5_client_def mid_def)
  have "negotiate_socks5 (c\<lparr>incoming := field methods @ mid @ [5, 1, 0, 3] @ field (as_bytes h) @ u16_to_be n @ rest\<rparr>) =
      (Inr \<lparr>host = h, port = n, protocol = Socks5\<rparr>, c2\<lparr>incoming := rest\<rparr>)"
    unfolding negotiate_socks5_def using assms(2) choose tail by (simp add: bind_conn_Inr)
  then show ?thesis using first by (simp add: negotiate_def bind_conn_def SOCKS5_VERSION_def ret_def c2_def)
qed

definition socks4a_client :: "u8 \<Rightarrow> bytes \<Rightarrow> string \<Rightarrow> nat \<Rightarrow> bytes" where
  "socks4a_client x user h n = [4, 1] @ u16_to_be n @ [0, 0, 0, x] @ user @ [0] @ as_bytes h @ [0]"

lemma nul_loop_field:
  "0 \<notin> set bs \<Longrightarrow> length out + length bs \<le> limit \<Longrightarrow> nul_loop limit out (bs @ 0 # rest) = Some (Inr (out @ bs), rest)"
  by (induction bs arbitrary: out) auto

lemma read_until_nul_field [simp]:
  "incoming c = bs @ 0 # rest \<Longrightarrow> 0 \<notin> set bs \<Longrightarrow> length bs \<le> limit \<Longrightarrow>
   read_until_nul limit c = (Inr bs, c\<lparr>incoming := rest\<rparr>)"
  by (simp add: read_until_nul_def nul_loop_field)

lemma negotiate_socks4a_client:
  assumes "x \<noteq> 0" and "0 \<notin> set user" "length user \<le> 256"
    and "h \<noteq> []" "length h \<le> 256" "valid_utf8 (as_bytes h)" "0 \<notin> set (as_bytes h)" "0 < n" "n \<le> u16_max"
    and inc: "incoming c = socks4a_client x user h n @ rest"
  shows "negotiate c = (Inr (Connect \<lparr>host = h, port = n, protocol = Socks4\<rparr>), c\<lparr>incoming := rest\<rparr>)"
proof -
  have first: "incoming c = 4 # 1 # word_of_nat (n div 256) # word_of_nat n # 0 # 0 # 0 # x # user @ 0 # as_bytes h @ 0 # rest"
    using inc by (simp add: socks4a_client_def u16_to_be_def)
  have user: "read_until_nul 256 (c\<lparr>incoming := user @ 0 # as_bytes h @ 0 # rest\<rparr>) =
      (Inr user, c\<lparr>incoming := as_bytes h @ 0 # rest\<rparr>)"
    using assms(2,3) by simp
  have name: "read_until_nul 256 (c\<lparr>incoming := as_bytes h @ 0 # rest\<rparr>) = (Inr (as_bytes h), c\<lparr>incoming := rest\<rparr>)"
    using assms(5,7) by simp
  show ?thesis
    using assms(1,4,6,8,9) first user name
    by (simp add: negotiate_def negotiate_socks4_def bind_conn_def SOCKS5_VERSION_def SOCKS4_VERSION_def CMD_CONNECT_def
        from_utf8_def ret_def checked_request_def u16_be_roundtrip)
qed

text \<open>An HTTP client: the request line, header lines, and the blank line that ends them.\<close>

definition http_client :: "string \<Rightarrow> nat \<Rightarrow> string list \<Rightarrow> string" where
  "http_client h n headers =
     concat (map (\<lambda>line. line @ crlf) ((''CONNECT '' @ h @ '':'' @ nat_digits n @ '' HTTP/1.1'') # headers)) @ crlf"

lemma ends_with_snoc:
  "ends_with (t @ [a]) (s @ [b]) \<longleftrightarrow> a = b \<and> ends_with t s"
  by (auto simp: ends_with_def)

lemma ends_with_nonblank:
  assumes "b \<noteq> 10"
  shows "\<not> ends_with [13, 10, 13, 10] (s @ [b])" "\<not> ends_with [10, 10] (s @ [b])"
  using assms ends_with_snoc [of "[13, 10, 13]" 10 s b] ends_with_snoc [of "[10]" 10 s b] by auto

lemma ends_with_crlf:
  assumes "b \<noteq> (10 :: u8)"
  shows "\<not> ends_with [13, 10, 13, 10] (s @ [b, 13, 10])" "\<not> ends_with [10, 10] (s @ [b, 13, 10])"
proof -
  show "\<not> ends_with [13, 10, 13, 10] (s @ [b, 13, 10])"
    using assms ends_with_snoc [of "[13, 10, 13]" 10 "s @ [b, 13]" 10] ends_with_snoc [of "[13, 10]" 13 "s @ [b]" 13]
      ends_with_snoc [of "[13]" 10 s b] by auto
  show "\<not> ends_with [10, 10] (s @ [b, 13, 10])"
    using ends_with_snoc [of "[10]" 10 "s @ [b, 13]" 10] ends_with_snoc [of "[]" 10 "s @ [b]" 13] by auto
qed

lemma head_loop_text:
  "\<lbrakk>\<not> ends_with [13, 10, 13, 10] head; 10 \<notin> set bs; length head + length bs \<le> MAX_HTTP_HEADER_BYTES\<rbrakk> \<Longrightarrow>
   head_loop head (bs @ after) = head_loop (head @ bs) after"
proof (induction bs arbitrary: head)
  case (Cons b bs)
  then have "\<not> MAX_HTTP_HEADER_BYTES \<le> length head" "b \<noteq> 10" by auto
  then have "head_loop head ((b # bs) @ after) = head_loop (head @ [b]) (bs @ after)"
    using Cons.prems(1) by (simp add: head_loop_more ends_with_nonblank)
  also have "\<dots> = head_loop ((head @ [b]) @ bs) after"
    using Cons.prems \<open>b \<noteq> 10\<close> by (intro Cons.IH) (auto simp: ends_with_nonblank)
  finally show ?case by simp
qed simp

lemma head_loop_line:
  assumes "\<not> ends_with [13, 10, 13, 10] head" and "bs \<noteq> []" "10 \<notin> set bs"
    and "length head + length bs + 2 < MAX_HTTP_HEADER_BYTES"
  shows "head_loop head (bs @ [13, 10] @ after) = head_loop (head @ bs @ [13, 10]) after \<and>
    \<not> ends_with [13, 10, 13, 10] (head @ bs @ [13, 10])"
proof -
  obtain bs' b where bs: "bs = bs' @ [b]" "b \<noteq> 10" using assms(2,3) by (cases bs rule: rev_cases) auto
  have "head_loop head ((bs @ [13]) @ 10 # after) = head_loop (head @ bs @ [13]) (10 # after)"
    using assms by (subst head_loop_text) auto
  also have "\<dots> = head_loop (head @ bs @ [13, 10]) after"
    using assms(4) ends_with_nonblank [of 13 "head @ bs"] ends_with_crlf [OF bs(2), of "head @ bs'"]
    by (subst head_loop_more) (auto simp: bs(1))
  finally show ?thesis using ends_with_crlf [OF bs(2), of "head @ bs'"] by (simp add: bs(1))
qed

lemma head_loop_lines:
  "\<lbrakk>\<not> ends_with [13, 10, 13, 10] head; \<And>bs. bs \<in> set ls \<Longrightarrow> bs \<noteq> [] \<and> 10 \<notin> set bs;
    length head + length (concat (map (\<lambda>bs. bs @ [13, 10]) ls)) < MAX_HTTP_HEADER_BYTES\<rbrakk> \<Longrightarrow>
   head_loop head (concat (map (\<lambda>bs. bs @ [13, 10]) ls) @ after) =
     head_loop (head @ concat (map (\<lambda>bs. bs @ [13, 10]) ls)) after \<and>
   \<not> ends_with [13, 10, 13, 10] (head @ concat (map (\<lambda>bs. bs @ [13, 10]) ls))"
proof (induction ls arbitrary: head)
  case (Cons bs ls)
  have "head_loop head (bs @ [13, 10] @ concat (map (\<lambda>bs. bs @ [13, 10]) ls) @ after) =
      head_loop (head @ bs @ [13, 10]) (concat (map (\<lambda>bs. bs @ [13, 10]) ls) @ after) \<and>
      \<not> ends_with [13, 10, 13, 10] (head @ bs @ [13, 10])"
    using Cons.prems by (intro head_loop_line) auto
  then show ?case using Cons.IH [of "head @ bs @ [13, 10]"] Cons.prems(2,3) by auto
qed simp

lemma head_loop_request:
  assumes "ls \<noteq> []" and "\<And>bs. bs \<in> set ls \<Longrightarrow> bs \<noteq> [] \<and> 10 \<notin> set bs"
    and "\<not> ends_with [13, 10, 13, 10] head"
    and "length head + length (concat (map (\<lambda>bs. bs @ [13, 10]) ls)) + 2 \<le> MAX_HTTP_HEADER_BYTES"
  shows "head_loop head (concat (map (\<lambda>bs. bs @ [13, 10]) ls) @ [13, 10] @ after) =
    Some (Inr (head @ concat (map (\<lambda>bs. bs @ [13, 10]) ls) @ [13, 10]), after)"
proof -
  let ?t = "concat (map (\<lambda>bs. bs @ [13, 10]) ls)"
  have t: "\<exists>t'. ?t = t' @ [13, 10]" using assms(1) by (cases ls rule: rev_cases) auto
  then obtain t' where t': "?t = t' @ [13, 10]" by blast
  have 1: "head_loop head (?t @ [13, 10] @ after) = head_loop (head @ ?t) ([13, 10] @ after)"
    "\<not> ends_with [13, 10, 13, 10] (head @ ?t)"
    using head_loop_lines [of head ls "[13, 10] @ after"] assms by auto
  have nb: "\<not> ends_with [10, 10] (head @ ?t @ [13, 10])"
    using ends_with_snoc [of "[10]" 10 "head @ ?t @ [13]" "10 :: u8"] ends_with_snoc [of "[]" 10 "head @ ?t" "13 :: u8"] by auto
  have "head_loop (head @ ?t) ([13, 10] @ after) = head_loop ((head @ ?t) @ [13]) (10 # after)"
    using head_loop_text [OF 1(2), of "[13]" "10 # after"] assms(4) by simp
  also have "\<dots> = head_loop (head @ ?t @ [13, 10]) after"
    using assms(4) nb ends_with_nonblank [of 13 "head @ ?t"] by (subst head_loop_more) auto
  also have "\<dots> = Some (Inr (head @ ?t @ [13, 10]), after)"
    by (subst head_loop.simps) (simp add: t' ends_with_def)
  finally show ?thesis using 1 by simp
qed

lemma rsplit_once_here: "ch \<notin> set b \<Longrightarrow> rsplit_once ch (a @ ch # b) = Some (a, b)"
  by (simp add: rsplit_once_def split_once_append)

lemma find_str_first:
  "(\<And>ch. ch \<in> set a \<Longrightarrow> ch \<noteq> p) \<Longrightarrow> find_str (p # q) (a @ (p # q) @ b) = Some (length a)"
  by (induction a) auto

lemma request_line_crlf:
  "(\<And>ch. ch \<in> set a \<Longrightarrow> printable ch) \<Longrightarrow> request_line (a @ crlf @ b) = a"
  using find_str_first [of a "CHR 0x0D" "[CHR 0x0A]" b]
  by (force simp: request_line_def printable_def code_def)

definition host_text :: "string \<Rightarrow> bool" where
  "host_text h \<longleftrightarrow> h \<noteq> [] \<and> (\<forall>ch \<in> set h. printable ch \<and> ch \<noteq> CHR '' '') \<and>
     hd h \<notin> {CHR ''['', CHR '']''} \<and> last h \<notin> {CHR ''['', CHR '']''}"

lemma trim_brackets_host: "host_text h \<Longrightarrow> trim_brackets h = h"
proof -
  assume h: "host_text h"
  then have "dropWhile (\<lambda>ch. ch = CHR ''['' \<or> ch = CHR '']'') h = h"
    by (cases h) (auto simp: host_text_def)
  moreover have "dropWhile (\<lambda>ch. ch = CHR ''['' \<or> ch = CHR '']'') (rev h) = rev h"
    using h by (cases h rule: rev_cases) (auto simp: host_text_def)
  ultimately show ?thesis by (simp add: trim_brackets_def)
qed

lemma digit_printable: "is_digit ch \<Longrightarrow> printable ch \<and> ch \<noteq> CHR '' '' \<and> ch \<noteq> CHR '':''"
  by (auto simp: is_digit_def printable_def code_def)

lemma connect_target_host:
  assumes "host_text h" and "n \<le> u16_max"
  shows "connect_target (h @ '':'' @ nat_digits n) = Inr (h, n)"
proof -
  have "CHR '':'' \<notin> set (nat_digits n)" using nat_digits_digits digit_printable by blast
  then show ?thesis
    using assms by (simp add: connect_target_def rsplit_once_here parse_uint_nat_digits trim_brackets_host)
qed

lemma connect_words:
  assumes "host_text h"
  shows "split_unicode_whitespace (''CONNECT '' @ h @ '':'' @ nat_digits n @ '' HTTP/1.1'') =
    [''CONNECT'', h @ '':'' @ nat_digits n, ''HTTP/1.1'']"
proof -
  have digits: "list_all (\<lambda>ch. printable ch \<and> ch \<noteq> CHR '' '') (nat_digits n)"
    and host: "list_all (\<lambda>ch. printable ch \<and> ch \<noteq> CHR '' '') h"
    using nat_digits_digits digit_printable assms by (auto simp: list_all_iff host_text_def)
  have p: "list_all printable (nat_digits n)" "list_all printable h"
    using digits host by (simp_all add: list_all_iff)
  have lits: "list_all printable ''CONNECT ''" "list_all printable '':''" "list_all printable '' HTTP/1.1''"
    by (simp_all add: printable_def code_def)
  have 1: "blank_whitespace (''CONNECT '' @ h @ '':'' @ nat_digits n @ '' HTTP/1.1'') =
      ''CONNECT '' @ h @ '':'' @ nat_digits n @ '' HTTP/1.1''"
    using p lits by (intro blank_whitespace_ascii) (simp only: list_all_append)
  have "list_all (\<lambda>ch. printable ch \<and> ch \<noteq> CHR '' '') (h @ '':'' @ nat_digits n)"
    using digits host lits(2) by simp
  then have w: "\<forall>ch \<in> set (h @ '':'' @ nat_digits n). \<not> is_whitespace ch"
    using printable_not_space unfolding list_all_iff by blast
  have sp: "is_whitespace (CHR '' '')" "\<forall>ch \<in> set ''CONNECT''. \<not> is_whitespace ch" "\<forall>ch \<in> set ''HTTP/1.1''. \<not> is_whitespace ch"
    by (simp_all add: is_whitespace_def code_def)
  have "split_whitespace (''CONNECT'' @ CHR '' '' # ((h @ '':'' @ nat_digits n) @ CHR '' '' # ''HTTP/1.1'')) =
      [''CONNECT'', h @ '':'' @ nat_digits n, ''HTTP/1.1'']"
    by (subst split_whitespace_word [OF _ sp(2,1)], simp,
        subst split_whitespace_word [OF _ w sp(1)], simp, subst split_whitespace_last [OF _ sp(3)], simp_all)
  then show ?thesis unfolding split_unicode_whitespace_def 1 by simp
qed

lemma printable_bytes:
  assumes "list_all printable s"
  shows "10 \<notin> set (as_bytes s)" and "b \<in> set (as_bytes s) \<Longrightarrow> unat b < 128"
proof -
  have "unat b \<noteq> 10 \<and> unat b < 128" if "b \<in> set (as_bytes s)" for b
    using assms that by (auto simp: list_all_iff printable_def)
  then show "10 \<notin> set (as_bytes s)" "b \<in> set (as_bytes s) \<Longrightarrow> unat b < 128" by force+
qed

abbreviation connect_line :: "string \<Rightarrow> nat \<Rightarrow> string" where
  "connect_line h n \<equiv> ''CONNECT '' @ h @ '':'' @ nat_digits n @ '' HTTP/1.1''"

lemma connect_line_printable: "host_text h \<Longrightarrow> list_all printable (connect_line h n)"
proof -
  assume h: "host_text h"
  have "list_all printable ''CONNECT ''" "list_all printable '':''" "list_all printable '' HTTP/1.1''"
    by (simp_all add: printable_def code_def)
  moreover have "list_all printable h" "list_all printable (nat_digits n)"
    using h nat_digits_digits digit_printable by (auto simp: list_all_iff host_text_def)
  ultimately show ?thesis by (simp only: list_all_append)
qed

lemma crlf_bytes [simp]: "word_of_nat (code (CHR 0x0D)) = (13 :: u8)" "word_of_nat (code (CHR 0x0A)) = (10 :: u8)"
  by (simp_all add: code_def)

lemma http_client_bytes:
  "as_bytes (http_client h n headers) =
    concat (map (\<lambda>bs. bs @ [13, 10]) (map as_bytes (connect_line h n # headers))) @ [13, 10]"
proof -
  have "as_bytes (concat (map (\<lambda>line. line @ crlf) ls)) = concat (map (\<lambda>bs. bs @ [13, 10]) (map as_bytes ls))" for ls
    by (induction ls) simp_all
  then show ?thesis unfolding http_client_def map_append by simp
qed

lemma lines_ascii:
  assumes "\<And>line. line \<in> set ls \<Longrightarrow> list_all printable line"
    and "b \<in> set (concat (map (\<lambda>bs. bs @ [13, 10]) (map as_bytes ls)) @ [13, 10])"
  shows "unat b < 128"
proof -
  from assms(2) consider "b = 13" | "b = 10" | line where "line \<in> set ls" "b \<in> set (as_bytes line)"
    by (auto split: if_splits)
  then show ?thesis
  proof cases
    case 3
    then show ?thesis using assms(1) printable_bytes(2) by blast
  qed simp_all
qed

lemma read_http_head_client:
  assumes "host_text h" and "\<And>line. line \<in> set headers \<Longrightarrow> line \<noteq> [] \<and> list_all printable line"
    and "length (http_client h n headers) \<le> MAX_HTTP_HEADER_BYTES"
    and inc: "as_bytes (http_client h n headers) @ rest = first # incoming c"
  shows "read_http_head first c = (Inr (http_client h n headers), c\<lparr>incoming := rest\<rparr>)"
proof -
  let ?ls = "as_bytes (tl (connect_line h n)) # map as_bytes headers"
  let ?t = "concat (map (\<lambda>bs. bs @ [13, 10]) ?ls)"
  have whole: "as_bytes (http_client h n headers) = 67 # ?t @ [13, 10]"
    unfolding http_client_bytes by (simp add: code_def)
  then have first: "first = 67" and c: "incoming c = ?t @ [13, 10] @ rest" using inc by simp_all
  have p: "list_all printable (tl (connect_line h n))"
    using connect_line_printable [OF assms(1), of n] by simp
  have "bs \<noteq> [] \<and> 10 \<notin> set bs" if "bs \<in> set ?ls" for bs
    using that printable_bytes(1) [OF p] assms(2) printable_bytes(1) by auto
  moreover have "length [67 :: u8] + length ?t + 2 \<le> MAX_HTTP_HEADER_BYTES"
    using arg_cong [OF whole, of length] assms(3) by simp
  moreover have "\<not> ends_with [13, 10, 13, 10] [67 :: u8]" by (simp add: ends_with_def)
  ultimately have loop: "head_loop [first] (incoming c) = Some (Inr (as_bytes (http_client h n headers)), rest)"
    unfolding c first whole using head_loop_request [of ?ls "[67]" rest] by simp
  have "list_all printable line" if "line \<in> set (connect_line h n # headers)" for line
    using that connect_line_printable [OF assms(1)] assms(2) by auto
  then have "unat b < 128" if "b \<in> set (as_bytes (http_client h n headers))" for b
    using that unfolding http_client_bytes by (rule lines_ascii)
  then have "valid_utf8 (as_bytes (http_client h n headers))" by (rule valid_utf8_ascii)
  then show ?thesis by (simp add: read_http_head_def loop from_utf8_def ret_def)
qed

lemma negotiate_http_client:
  assumes "host_text h" and "0 < n" "n \<le> u16_max" and "\<And>line. line \<in> set headers \<Longrightarrow> line \<noteq> [] \<and> list_all printable line"
    and "length (http_client h n headers) \<le> MAX_HTTP_HEADER_BYTES"
    and inc: "incoming c = as_bytes (http_client h n headers) @ rest"
  shows "negotiate c = (Inr (Connect \<lparr>host = h, port = n, protocol = Http\<rparr>), c\<lparr>incoming := rest\<rparr>)"
proof -
  define tail :: bytes where "tail = tl (as_bytes (http_client h n headers))"
  have tail: "as_bytes (http_client h n headers) = 67 # tail"
    unfolding tail_def http_client_def by (simp add: code_def)
  have first: "incoming c = 67 # tail @ rest" using inc tail by simp
  have head: "read_http_head 67 (c\<lparr>incoming := tail @ rest\<rparr>) = (Inr (http_client h n headers), c\<lparr>incoming := rest\<rparr>)"
    using read_http_head_client [OF assms(1,4,5), of rest 67 "c\<lparr>incoming := tail @ rest\<rparr>"] tail by simp
  have "request_line (http_client h n headers) = connect_line h n"
    using request_line_crlf [of "connect_line h n" "concat (map (\<lambda>line. line @ crlf) headers) @ crlf"]
      connect_line_printable [OF assms(1)]
    unfolding list_all_iff http_client_def by simp
  then have "negotiate_http 67 (c\<lparr>incoming := tail @ rest\<rparr>) =
      (Inr (Connect \<lparr>host = h, port = n, protocol = Http\<rparr>), c\<lparr>incoming := rest\<rparr>)"
    using connect_words [OF assms(1), of n] connect_target_host [OF assms(1,3)] assms(1,2)
    by (simp add: negotiate_http_def bind_conn_def head nth_field_def eq_ignore_ascii_case_def checked_request_def ret_def
        host_text_def)
  then show ?thesis using first by (simp add: negotiate_def bind_conn_def SOCKS5_VERSION_def SOCKS4_VERSION_def)
qed

text \<open>
  C34: A request is understood as its client meant it, in each of the three protocols: SOCKS5 with a
  host name, with or without a user name and password, SOCKS4a, and HTTP CONNECT with any header lines.
  The request names exactly that host and port, the client has been sent exactly the method answers of
  its protocol, and the bytes it sent after the request are all still there for the tunnel.
\<close>

theorem request_understood:
  assumes "0 < n" "n \<le> u16_max" "h \<noteq> []" "valid_utf8 (as_bytes h)" "4 \<le> room c"
  shows "((METHOD_NO_AUTH \<in> set methods \<or> METHOD_USER_PASS \<in> set methods) \<and> length methods < 256 \<and> length user < 256 \<and>
          length password < 256 \<and> length h < 256 \<and> incoming c = socks5_client methods user password h n @ rest \<longrightarrow>
          negotiate c = (Inr (Connect \<lparr>host = h, port = n, protocol = Socks5\<rparr>),
            c\<lparr>incoming := rest, outgoing := outgoing c @ socks5_answer methods, room := room c - length (socks5_answer methods)\<rparr>))
     \<and> (x \<noteq> 0 \<and> 0 \<notin> set user \<and> length user \<le> 256 \<and> length h \<le> 256 \<and> 0 \<notin> set (as_bytes h) \<and>
          incoming c = socks4a_client x user h n @ rest \<longrightarrow>
          negotiate c = (Inr (Connect \<lparr>host = h, port = n, protocol = Socks4\<rparr>), c\<lparr>incoming := rest\<rparr>))
     \<and> (host_text h \<and> (\<forall>line \<in> set headers. line \<noteq> [] \<and> list_all printable line) \<and>
          length (http_client h n headers) \<le> MAX_HTTP_HEADER_BYTES \<and>
          incoming c = as_bytes (http_client h n headers) @ rest \<longrightarrow>
          negotiate c = (Inr (Connect \<lparr>host = h, port = n, protocol = Http\<rparr>), c\<lparr>incoming := rest\<rparr>))"
  using negotiate_socks5_client [of methods user password h n c rest] negotiate_socks4a_client [of x user h n c rest]
    negotiate_http_client [of h n headers c rest] assms by blast

theorem request_understood_witness:
  "(let c = \<lparr>incoming = socks5_client [1, 2] [97] [98] ''ab.cd'' 443 @ [9], read_end = invalid_data [], outgoing = [],
             room = 10, write_end = invalid_data []\<rparr>
    in negotiate c = (Inr (Connect \<lparr>host = ''ab.cd'', port = 443, protocol = Socks5\<rparr>),
         c\<lparr>incoming := [9], outgoing := [5, 2, 1, 0], room := 6\<rparr>))
   \<and> (let c = \<lparr>incoming = socks4a_client 1 [97] ''ab.cd'' 443 @ [9], read_end = invalid_data [], outgoing = [],
              room = 10, write_end = invalid_data []\<rparr>
      in negotiate c = (Inr (Connect \<lparr>host = ''ab.cd'', port = 443, protocol = Socks4\<rparr>), c\<lparr>incoming := [9]\<rparr>))
   \<and> (let c = \<lparr>incoming = as_bytes (http_client ''ab.cd'' 443 [''Host: x'']) @ [9], read_end = invalid_data [], outgoing = [],
              room = 10, write_end = invalid_data []\<rparr>
      in negotiate c = (Inr (Connect \<lparr>host = ''ab.cd'', port = 443, protocol = Http\<rparr>), c\<lparr>incoming := [9]\<rparr>))"
  (is "?a \<and> ?b \<and> ?c")
proof (intro conjI)
  have v: "valid_utf8 (as_bytes ''ab.cd'')" by (simp add: utf8_tail_def in_ranges_def code_def)
  have nul: "(0 :: u8) \<notin> set (as_bytes ''ab.cd'')" by (simp add: code_def)
  show ?a
    using request_understood [of 443 "''ab.cd''" "\<lparr>incoming = socks5_client [1, 2] [97] [98] ''ab.cd'' 443 @ [9],
        read_end = invalid_data [], outgoing = [], room = 10, write_end = invalid_data []\<rparr>" "[1, 2]" "[97]" "[98]" "[9]"] v
    by (simp add: Let_def socks5_answer_def method_defs)
  show ?b
    using request_understood [of 443 "''ab.cd''" "\<lparr>incoming = socks4a_client 1 [97] ''ab.cd'' 443 @ [9],
        read_end = invalid_data [], outgoing = [], room = 10, write_end = invalid_data []\<rparr>" "[]" "[97]" "[]" "[9]" 1] v nul
    by (simp add: Let_def)
  have "host_text ''ab.cd''" "list_all printable ''Host: x''" by (simp_all add: host_text_def printable_def code_def)
  moreover have "length (http_client ''ab.cd'' 443 [''Host: x'']) \<le> MAX_HTTP_HEADER_BYTES"
    by (simp add: http_client_def MAX_HTTP_HEADER_BYTES_def nat_digits.simps)
  ultimately show ?c
    using request_understood [of 443 "''ab.cd''" "\<lparr>incoming = as_bytes (http_client ''ab.cd'' 443 [''Host: x'']) @ [9],
        read_end = invalid_data [], outgoing = [], room = 10, write_end = invalid_data []\<rparr>" "[]" "[]" "[]" "[9]" 0 "[''Host: x'']"] v
    by (simp add: Let_def)
qed

section \<open>Where a request goes\<close>

lemma classify_not_onion: "is_onion h = Some False \<Longrightarrow> classify sha3 h = Some (Inr Exit)"
  by (simp add: classify_def)

lemma reply_code_not_success: "reply_code e \<noteq> REP_SUCCEEDED"
  by (auto simp: reply_code_def rep_defs split: io_error.split error_kind.split)

lemma connect_onion_only:
  "is_onion (host r) = Some True \<Longrightarrow> connect sha3 (tor\<lparr>tor_connect := g\<rparr>) r = connect sha3 tor r"
  by (auto simp: connect_def classify_def map_option_case split: option.split sum.split destination.split)

lemma connect_SomeD: "connect sha3 tor r = Some result \<Longrightarrow> \<exists>onion. is_onion (host r) = Some onion"
  by (cases "is_onion (host r)") (simp_all add: connect_def classify_def)

lemma connect_bad_onion:
  "is_onion (host r) = Some True \<Longrightarrow> onion_parse sha3 (host r) = Some (Inl e) \<Longrightarrow>
   \<exists>msg. connect sha3 tor r = Some (Inl (IoError NotFound msg))"
  by (simp add: connect_def classify_def)

lemma handle_request:
  "negotiate c = (Inr (Connect r), c') \<Longrightarrow>
   handle sha3 f (Inr ()) page k c = serve_request sha3 f r (k\<lparr>ACCEPTED := counter_inc (ACCEPTED k)\<rparr>) c'"
  by (simp add: handle_def Let_def)

lemma serve_request_result:
  assumes "connect sha3 tor r = Some result" and "client f = Some tor"
    and "reply = (case result of Inl e \<Rightarrow> reply_code e | Inr _ \<Rightarrow> REP_SUCCEEDED)"
    and "length (reply_bytes (protocol r) reply) \<le> room c"
  shows "fst (serve_request sha3 f r k c) = (case result of Inl e \<Rightarrow> Refused r e | Inr s \<Rightarrow> Tunnel r s)"
    and "incoming (snd (snd (serve_request sha3 f r k c))) = incoming c"
    and "outgoing (snd (snd (serve_request sha3 f r k c))) = outgoing c @ reply_bytes (protocol r) reply"
proof -
  obtain onion where "is_onion (host r) = Some onion" using connect_SomeD [OF assms(1)] by blast
  with assms show "fst (serve_request sha3 f r k c) = (case result of Inl e \<Rightarrow> Refused r e | Inr s \<Rightarrow> Tunnel r s)"
    "incoming (snd (snd (serve_request sha3 f r k c))) = incoming c"
    "outgoing (snd (snd (serve_request sha3 f r k c))) = outgoing c @ reply_bytes (protocol r) reply"
    by (auto simp: serve_request_def Let_def send_reply_def split: sum.split)
qed


definition demo_socket :: conn where
  "demo_socket = \<lparr>incoming = [5, 1, 0, 5, 1, 0, 3, 3, 97, 46, 98, 1, 187, 9], read_end = IoError UnexpectedEof [], outgoing = [],
     room = 100, write_end = IoError ConnectionAborted []\<rparr>"

definition demo_counters :: counters where
  "demo_counters = \<lparr>ACCEPTED = 0, HANDSHAKE_FAILED = 0, STATUS_REQUESTS = 0, SOCKS5 = 0, SOCKS4 = 0, HTTP_CONNECT = 0, ONION = 0,
     SUCCEEDED = 0, ACTIVE = 0, BYTES_UP = 0, BYTES_DOWN = 0, FAILED = replicate 9 0\<rparr>"

lemma demo_negotiate:
  "negotiate demo_socket = (Inr (Connect \<lparr>host = ''a.b'', port = 443, protocol = Socks5\<rparr>),
     demo_socket\<lparr>incoming := [9], outgoing := [5, 0], room := 98\<rparr>)"
  using negotiate_socks5_client [of "[0]" "[]" "[]" "''a.b''" 443 demo_socket "[9]"]
  by (simp add: demo_socket_def socks5_client_def field_def u16_to_be_def socks5_answer_def method_defs code_def
      utf8_tail_def in_ranges_def)


end
