(* ===== verification/Net_Doc.thy ===== *)
theory Net_Doc
  imports Encoding_Util
begin

text \<open>
  The directory document format, \<^verbatim>\<open>src/tor/dir/netdoc.rs\<close>: items, PEM objects and line positions.
  A document is a string of one character per byte, so the byte offsets the code slices by are list
  positions.
\<close>

abbreviation newline :: char where "newline \<equiv> CHR 0x0A"
abbreviation carriage_return :: char where "carriage_return \<equiv> CHR 0x0D"

text \<open>\<^verbatim>\<open>str::lines\<close>: a final newline ends the last line, and a carriage return before one goes.\<close>

definition strip_cr :: "string \<Rightarrow> string" where
  "strip_cr l = (if l \<noteq> [] \<and> last l = carriage_return then butlast l else l)"

definition lines :: "string \<Rightarrow> string list" where
  "lines s =
     (let parts = split_char newline s;
          parts = (if last parts = [] then butlast parts else parts)
      in map strip_cr parts)"

fun find_map :: "('a \<Rightarrow> 'b option) \<Rightarrow> 'a list \<Rightarrow> 'b option" where
  "find_map f [] = None"
| "find_map f (x # xs) = (case f x of Some y \<Rightarrow> Some y | None \<Rightarrow> find_map f xs)"

definition item_args :: "string \<Rightarrow> string \<Rightarrow> string option" where
  "item_args line keyword =
     (case strip_prefix keyword line of
        None \<Rightarrow> None
      | Some [] \<Rightarrow> Some []
      | Some (c # r) \<Rightarrow> if c = CHR '' '' then Some (trim_end r) else None)"

definition item :: "string \<Rightarrow> string \<Rightarrow> string option" where
  "item text keyword = find_map (\<lambda>line. item_args line keyword) (lines text)"

definition pem_begin :: "string \<Rightarrow> string" where "pem_begin label = ''-----BEGIN '' @ label @ ''-----''"
definition pem_end :: "string \<Rightarrow> string" where "pem_end label = ''-----END '' @ label @ ''-----''"

definition object :: "string \<Rightarrow> string \<Rightarrow> bytes io_result" where
  "object text label =
     (case find_str (pem_begin label) text of
        None \<Rightarrow> Inl (invalid_data ''missing BEGIN'')
      | Some i \<Rightarrow>
          let rest = drop (i + length (pem_begin label)) text
          in (case find_str (pem_end label) rest of
                None \<Rightarrow> Inl (invalid_data ''missing END'')
              | Some stop \<Rightarrow> base64_decode (take stop rest)))"

definition line_start_of :: "string \<Rightarrow> string \<Rightarrow> nat option" where
  "line_start_of text keyword =
     (if starts_with keyword text then Some 0
      else map_option Suc (find_str (newline # keyword) text))"

definition line_end_after :: "string \<Rightarrow> string \<Rightarrow> nat option" where
  "line_end_after text keyword =
     (case line_start_of text keyword of
        None \<Rightarrow> None
      | Some start \<Rightarrow> map_option (\<lambda>i. start + i + 1) (find_str [newline] (drop start text)))"

definition item_object :: "string \<Rightarrow> string \<Rightarrow> string \<Rightarrow> bytes io_result" where
  "item_object text keyword label =
     (case line_end_after text keyword of
        None \<Rightarrow> Inl (invalid_data ''document has no such item'')
      | Some after \<Rightarrow>
          let rest = drop after text
          in if \<not> starts_with (pem_begin label) rest then Inl (invalid_data ''item is not followed by its object'')
             else object rest label)"

definition base64_fixed :: "nat \<Rightarrow> string \<Rightarrow> bytes io_result" where
  "base64_fixed n value =
     and_then (base64_decode value) (\<lambda>bs. if length bs = n then Inr bs else Inl (invalid_data ''wrong length of base64''))"

section \<open>Lemmas\<close>

lemma find_str_SomeD: "find_str p s = Some i \<Longrightarrow> i + length p \<le> length s \<and> take (length p) (drop i s) = p"
proof (induction s arbitrary: i)
  case (Cons c cs)
  show ?case
  proof (cases "starts_with p (c # cs)")
    case True
    then have "i = 0" using Cons.prems by simp
    moreover have "length p \<le> length (c # cs)"
      using True by (metis length_take min.cobounded1 min_def)
    ultimately show ?thesis using True by simp
  next
    case False
    then obtain j where "find_str p cs = Some j" "i = Suc j"
      using Cons.prems by (auto simp del: take_Cons')
    then show ?thesis using Cons.IH [of j] by simp
  qed
qed (auto split: if_splits)

lemma line_start_of_bound:
  "line_start_of text keyword = Some i \<Longrightarrow> i + length keyword \<le> length text"
  by (auto simp: line_start_of_def dest!: find_str_SomeD split: if_splits) (metis length_take min.cobounded1 min_def)

lemma base64_fixed_length: "base64_fixed n v = Inr bs \<Longrightarrow> length bs = n"
  by (auto simp: base64_fixed_def split: if_splits)

lemma find_map_SomeD: "find_map f xs = Some y \<Longrightarrow> \<exists>x \<in> set xs. f x = Some y"
  by (induction xs) (auto split: option.splits)

end
