(* ===== verification/Status_Page.thy ===== *)
theory Status_Page
  imports Socks_Front Net_Doc
begin

text \<open>
  The status page, \<^verbatim>\<open>status.rs\<close>: its small JSON writer and the page it writes from the counters, what the client
  reports and facts about the process, all of which are given. The main result: a JSON reader reads from the page
  exactly the object it is meant to show.
\<close>

section \<open>The writer\<close>

text \<open>The innermost object comes first in \<open>has_member\<close>; a \<^verbatim>\<open>Vec\<close> has it last.\<close>

record json =
  j_out :: string
  j_depth :: nat
  has_member :: "bool list"

definition json_new :: json where
  "json_new = \<lparr>j_out = [], j_depth = 0, has_member = []\<rparr>"

definition push_str :: "string \<Rightarrow> json \<Rightarrow> json" where
  "push_str s j = j\<lparr>j_out := j_out j @ s\<rparr>"

definition indent :: "nat \<Rightarrow> string" where
  "indent d = CHR 0x0A # concat (replicate d ''  '')"

definition j_newline :: "json \<Rightarrow> json" where
  "j_newline j = push_str (indent (j_depth j)) j"

definition hex_digit :: "nat \<Rightarrow> char" where
  "hex_digit n = ''0123456789abcdef'' ! n"

definition quote_char :: "char \<Rightarrow> string" where
  "quote_char c =
     (if c = CHR 0x22 then [CHR 0x5C, CHR 0x22]
      else if c = CHR 0x5C then [CHR 0x5C, CHR 0x5C]
      else if code c < 0x20 then [CHR 0x5C, CHR ''u'', CHR ''0'', CHR ''0'', hex_digit (code c div 16), hex_digit (code c mod 16)]
      else [c])"

definition quote :: "string \<Rightarrow> string" where
  "quote s = CHR 0x22 # concat (map quote_char s) @ [CHR 0x22]"

definition j_open :: "json \<Rightarrow> json" where
  "j_open j = (let j = push_str ''{'' j in j\<lparr>j_depth := j_depth j + 1, has_member := False # has_member j\<rparr>)"

definition j_close :: "json \<Rightarrow> json" where
  "j_close j =
     (let j = j\<lparr>j_depth := j_depth j - 1\<rparr>;
          popped = has_member j;
          j = j\<lparr>has_member := tl popped\<rparr>;
          j = (if popped \<noteq> [] \<and> hd popped then j_newline j else j)
      in push_str ''}'' j)"

definition j_key :: "string \<Rightarrow> json \<Rightarrow> json" where
  "j_key key j =
     (let j = (case has_member j of
                 [] \<Rightarrow> j
               | has # outer \<Rightarrow> (if has then push_str '','' j else j)\<lparr>has_member := True # outer\<rparr>)
      in push_str '': '' (push_str (quote key) (j_newline j)))"

definition j_str :: "string \<Rightarrow> string \<Rightarrow> json \<Rightarrow> json" where
  "j_str key v j = push_str (quote v) (j_key key j)"

definition j_num :: "string \<Rightarrow> nat \<Rightarrow> json \<Rightarrow> json" where
  "j_num key v j = push_str (nat_digits v) (j_key key j)"

definition j_bool :: "string \<Rightarrow> bool \<Rightarrow> json \<Rightarrow> json" where
  "j_bool key v j = push_str (if v then ''true'' else ''false'') (j_key key j)"

definition j_null :: "string \<Rightarrow> json \<Rightarrow> json" where
  "j_null key j = push_str ''null'' (j_key key j)"

definition j_finish :: "json \<Rightarrow> string" where
  "j_finish j = j_out j @ [CHR 0x0A]"

section \<open>The page\<close>

record client_status =
  cs_relays :: nat
  cs_guard_relays :: nat
  cs_exit_relays :: nat
  cs_valid_after :: nat
  cs_fresh_until :: nat
  cs_valid_until :: nat
  cs_guards :: nat
  cs_guards_demoted :: nat
  cs_guards_unreachable :: nat
  cs_guard_channel_open :: bool
  cs_slow_guard_changes :: nat
  cs_stubs :: nat
  cs_circuits :: nat
  cs_onion_circuits :: nat
  cs_descriptors :: nat
  cs_hsdir_ring_built :: bool

text \<open>
  What the page takes from outside: the build, the two clocks as they are read, the text of
  \<^verbatim>\<open>/proc/self/status\<close>, and the libraries that were loaded.
\<close>

record process_info =
  pi_version :: string
  pi_commit :: "string option"
  pi_now :: nat
  pi_tor_now :: nat
  pi_started :: nat
  pi_uptime :: nat
  pi_proc :: string
  pi_arch :: string
  pi_os :: string
  pi_libs :: "(string \<times> string) option"
  pi_zlib :: "string option"

definition FAILURE_NAMES :: "string list" where
  "FAILURE_NAMES =
     [''succeeded'', ''general_failure'', ''not_allowed'', ''network_unreachable'', ''host_unreachable'',
      ''connection_refused'', ''ttl_expired'', ''command_not_supported'', ''address_type_not_supported'']"

definition proc_field :: "string \<Rightarrow> string \<Rightarrow> nat option" where
  "proc_field text name =
     Option.bind (find_map (\<lambda>l. Option.bind (strip_prefix name l) (strip_prefix '':'')) (lines text)) (\<lambda>rest.
       case split_whitespace rest of [] \<Rightarrow> None | n # _ \<Rightarrow> parse_u64 n)"

definition j_steps :: "(json \<Rightarrow> json) list \<Rightarrow> json \<Rightarrow> json" where
  "j_steps fs j = fold (\<lambda>f. f) fs j"

definition j_section :: "string \<Rightarrow> (json \<Rightarrow> json) list \<Rightarrow> json \<Rightarrow> json" where
  "j_section key fs j = j_close (j_steps fs (j_open (j_key key j)))"

definition tor_section :: "nat \<Rightarrow> client_status \<Rightarrow> json \<Rightarrow> json" where
  "tor_section t s =
     j_section ''tor''
       [j_section ''consensus''
          [j_num ''relays'' (cs_relays s), j_num ''guards'' (cs_guard_relays s), j_num ''exits'' (cs_exit_relays s),
           j_str ''valid_after'' (format_datetime (cs_valid_after s)),
           j_str ''fresh_until'' (format_datetime (cs_fresh_until s)),
           j_str ''valid_until'' (format_datetime (cs_valid_until s)),
           j_num ''age_seconds'' (saturating_sub t (cs_valid_after s)),
           j_bool ''fresh'' (t < cs_fresh_until s), j_bool ''live'' (t < cs_valid_until s)],
        j_section ''guards''
          [j_num ''count'' (cs_guards s), j_num ''demoted'' (cs_guards_demoted s),
           j_num ''unreachable'' (cs_guards_unreachable s), j_bool ''channel_open'' (cs_guard_channel_open s),
           j_num ''slow_guard_changes'' (cs_slow_guard_changes s)],
        j_section ''circuits''
          [j_num ''stubs'' (cs_stubs s), j_num ''exit'' (cs_circuits s), j_num ''onion'' (cs_onion_circuits s),
           j_num ''onion_descriptors_cached'' (cs_descriptors s), j_bool ''hsdir_ring_built'' (cs_hsdir_ring_built s)]]"

definition j_opt_str :: "string \<Rightarrow> string option \<Rightarrow> json \<Rightarrow> json" where
  "j_opt_str key v = (case v of Some s \<Rightarrow> j_str key s | None \<Rightarrow> j_null key)"

definition j_opt_num :: "string \<Rightarrow> nat option \<Rightarrow> json \<Rightarrow> json" where
  "j_opt_num key v = (case v of Some n \<Rightarrow> j_num key n | None \<Rightarrow> j_null key)"

definition render_steps :: "nat \<Rightarrow> process_info \<Rightarrow> counters \<Rightarrow> client_status option \<Rightarrow> (json \<Rightarrow> json) list" where
  "render_steps listen p k reported =
     [j_str ''version'' (pi_version p), j_opt_str ''commit'' (pi_commit p),
      j_str ''state'' (if reported \<noteq> None then ''ready'' else ''bootstrapping''),
      j_num ''listen_port'' listen, j_num ''now_unix'' (pi_now p), j_num ''started_unix'' (pi_started p),
      j_num ''uptime_seconds'' (pi_uptime p),
      j_section ''connections''
        [j_num ''accepted'' (ACCEPTED k), j_num ''active'' (ACTIVE k), j_num ''succeeded'' (SUCCEEDED k),
         j_num ''handshake_failed'' (HANDSHAKE_FAILED k), j_num ''status_requests'' (STATUS_REQUESTS k),
         j_section ''requests''
           [j_num ''socks5'' (SOCKS5 k), j_num ''socks4'' (SOCKS4 k), j_num ''http_connect'' (HTTP_CONNECT k), j_num ''onion'' (ONION k)],
         j_section ''failed'' (map (\<lambda>(name, n). j_num name n) (drop 1 (zip FAILURE_NAMES (FAILED k))))],
      j_section ''bytes'' [j_num ''from_clients'' (BYTES_UP k), j_num ''to_clients'' (BYTES_DOWN k)],
      (case reported of Some s \<Rightarrow> tor_section (pi_tor_now p) s | None \<Rightarrow> j_null ''tor''),
      j_section ''process''
        (map (\<lambda>(source, name). j_opt_num name (proc_field (pi_proc p) source))
           [(''VmRSS'', ''vm_rss_kb''), (''VmHWM'', ''vm_hwm_kb''), (''Threads'', ''threads'')]),
      j_section ''runtime''
        ([j_str ''arch'' (pi_arch p), j_str ''os'' (pi_os p)] @
         (case pi_libs p of
            Some (ssl, crypto) \<Rightarrow> [j_str ''libssl'' ssl, j_str ''libcrypto'' crypto]
          | None \<Rightarrow> [j_null ''libssl'', j_null ''libcrypto'']) @
         [j_opt_str ''zlib'' (pi_zlib p)])]"

definition render :: "nat \<Rightarrow> process_info \<Rightarrow> counters \<Rightarrow> client_status option \<Rightarrow> string" where
  "render listen p k reported = j_finish (j_close (j_steps (render_steps listen p k reported) (j_open json_new)))"

section \<open>The object the page shows\<close>

datatype json_value =
    JObject "(string \<times> json_value) list" | JText string | JNumber nat | JBool bool | JNull

text \<open>How an object is laid out: one member a line, two spaces for each level.\<close>

fun pretty :: "nat \<Rightarrow> json_value \<Rightarrow> string"
  and pretty_members :: "nat \<Rightarrow> (string \<times> json_value) list \<Rightarrow> string" where
  "pretty d (JObject []) = ''{}''"
| "pretty d (JObject (m # ms)) = ''{'' @ pretty_members (Suc d) (m # ms) @ indent d @ ''}''"
| "pretty d (JText s) = quote s"
| "pretty d (JNumber n) = nat_digits n"
| "pretty d (JBool b) = (if b then ''true'' else ''false'')"
| "pretty d JNull = ''null''"
| "pretty_members d [] = []"
| "pretty_members d [(k, v)] = indent d @ quote k @ '': '' @ pretty d v"
| "pretty_members d ((k, v) # m # ms) = indent d @ quote k @ '': '' @ pretty d v @ '','' @ pretty_members d (m # ms)"

text \<open>A writer step that adds one member.\<close>

definition adds :: "string \<times> json_value \<Rightarrow> (json \<Rightarrow> json) \<Rightarrow> bool" where
  "adds m f \<longleftrightarrow> (\<forall>j has outer. has_member j = has # outer \<longrightarrow>
     f j = j\<lparr>j_out := j_out j @ (if has then '','' else []) @ pretty_members (j_depth j) [m], has_member := True # outer\<rparr>)"

lemma adds_simple [intro]:
  "adds (k, JText s) (j_str k s)" "adds (k, JNumber n) (j_num k n)" "adds (k, JBool b) (j_bool k b)" "adds (k, JNull) (j_null k)"
  by (auto simp: adds_def j_str_def j_num_def j_bool_def j_null_def j_key_def j_newline_def push_str_def)

lemma pretty_members_Cons:
  "ms \<noteq> [] \<Longrightarrow> pretty_members d (m # ms) = pretty_members d [m] @ '','' @ pretty_members d ms"
  by (cases m; cases ms) auto

lemma steps_add:
  assumes "list_all2 adds ms fs" and "has_member j = has # outer"
  shows "j_steps fs j =
     (if ms = [] then j
      else j\<lparr>j_out := j_out j @ (if has then '','' else []) @ pretty_members (j_depth j) ms, has_member := True # outer\<rparr>)"
  using assms
proof (induction ms fs arbitrary: j has rule: list_all2_induct)
  case Nil
  then show ?case by (simp add: j_steps_def)
next
  case (Cons m ms f fs)
  let ?j = "j\<lparr>j_out := j_out j @ (if has then '','' else []) @ pretty_members (j_depth j) [m], has_member := True # outer\<rparr>"
  have f: "f j = ?j" using Cons.hyps(1) Cons.prems unfolding adds_def by blast
  have "j_steps (f # fs) j = j_steps fs ?j" using f by (simp add: j_steps_def)
  then show ?case
    using Cons.IH [of ?j True] pretty_members_Cons [of ms "j_depth j" m] by (cases "ms = []") simp_all
qed

lemma section_adds:
  assumes "list_all2 adds ms fs"
  shows "adds (k, JObject ms) (j_section k fs)"
  unfolding adds_def
proof (intro allI impI)
  fix j :: json and has outer assume j: "has_member j = has # outer"
  let ?o = "j_open (j_key k j)"
  have o: "has_member ?o = False # True # outer" "j_depth ?o = Suc (j_depth j)"
    "j_out ?o = j_out j @ (if has then '','' else []) @ indent (j_depth j) @ quote k @ '': '' @ ''{''"
    using j by (simp_all add: j_open_def j_key_def j_newline_def push_str_def)
  show "j_section k fs j = j\<lparr>j_out := j_out j @ (if has then '','' else []) @ pretty_members (j_depth j) [(k, JObject ms)], has_member := True # outer\<rparr>"
    using steps_add [OF assms o(1)] o
    by (cases ms) (auto simp: j_section_def j_close_def j_newline_def push_str_def intro!: json.equality)
qed

definition opt_value :: "('a \<Rightarrow> json_value) \<Rightarrow> 'a option \<Rightarrow> json_value" where
  "opt_value f x = (case x of None \<Rightarrow> JNull | Some a \<Rightarrow> f a)"

lemma adds_opt [intro]:
  "adds (k, opt_value JText x) (j_opt_str k x)" "adds (k, opt_value JNumber y) (j_opt_num k y)"
  by (auto simp: opt_value_def j_opt_str_def j_opt_num_def split: option.split)

definition tor_members :: "nat \<Rightarrow> client_status \<Rightarrow> (string \<times> json_value) list" where
  "tor_members t s =
     [(''consensus'', JObject
        [(''relays'', JNumber (cs_relays s)), (''guards'', JNumber (cs_guard_relays s)), (''exits'', JNumber (cs_exit_relays s)),
         (''valid_after'', JText (format_datetime (cs_valid_after s))), (''fresh_until'', JText (format_datetime (cs_fresh_until s))),
         (''valid_until'', JText (format_datetime (cs_valid_until s))), (''age_seconds'', JNumber (t - cs_valid_after s)),
         (''fresh'', JBool (t < cs_fresh_until s)), (''live'', JBool (t < cs_valid_until s))]),
      (''guards'', JObject
        [(''count'', JNumber (cs_guards s)), (''demoted'', JNumber (cs_guards_demoted s)), (''unreachable'', JNumber (cs_guards_unreachable s)),
         (''channel_open'', JBool (cs_guard_channel_open s)), (''slow_guard_changes'', JNumber (cs_slow_guard_changes s))]),
      (''circuits'', JObject
        [(''stubs'', JNumber (cs_stubs s)), (''exit'', JNumber (cs_circuits s)), (''onion'', JNumber (cs_onion_circuits s)),
         (''onion_descriptors_cached'', JNumber (cs_descriptors s)), (''hsdir_ring_built'', JBool (cs_hsdir_ring_built s))])]"

definition page_members :: "nat \<Rightarrow> process_info \<Rightarrow> counters \<Rightarrow> client_status option \<Rightarrow> (string \<times> json_value) list" where
  "page_members listen p k reported =
     [(''version'', JText (pi_version p)), (''commit'', opt_value JText (pi_commit p)),
      (''state'', JText (if reported = None then ''bootstrapping'' else ''ready'')),
      (''listen_port'', JNumber listen), (''now_unix'', JNumber (pi_now p)), (''started_unix'', JNumber (pi_started p)),
      (''uptime_seconds'', JNumber (pi_uptime p)),
      (''connections'', JObject
        [(''accepted'', JNumber (ACCEPTED k)), (''active'', JNumber (ACTIVE k)), (''succeeded'', JNumber (SUCCEEDED k)),
         (''handshake_failed'', JNumber (HANDSHAKE_FAILED k)), (''status_requests'', JNumber (STATUS_REQUESTS k)),
         (''requests'', JObject
           [(''socks5'', JNumber (SOCKS5 k)), (''socks4'', JNumber (SOCKS4 k)), (''http_connect'', JNumber (HTTP_CONNECT k)), (''onion'', JNumber (ONION k))]),
         (''failed'', JObject (map (\<lambda>(name, n). (name, JNumber n)) (zip (tl FAILURE_NAMES) (tl (FAILED k)))))]),
      (''bytes'', JObject [(''from_clients'', JNumber (BYTES_UP k)), (''to_clients'', JNumber (BYTES_DOWN k))]),
      (''tor'', opt_value (\<lambda>s. JObject (tor_members (pi_tor_now p) s)) reported),
      (''process'', JObject
        [(''vm_rss_kb'', opt_value JNumber (proc_field (pi_proc p) ''VmRSS'')), (''vm_hwm_kb'', opt_value JNumber (proc_field (pi_proc p) ''VmHWM'')),
         (''threads'', opt_value JNumber (proc_field (pi_proc p) ''Threads''))]),
      (''runtime'', JObject
        [(''arch'', JText (pi_arch p)), (''os'', JText (pi_os p)), (''libssl'', opt_value (JText \<circ> fst) (pi_libs p)),
         (''libcrypto'', opt_value (JText \<circ> snd) (pi_libs p)), (''zlib'', opt_value JText (pi_zlib p))])]"

lemma tor_section_adds: "adds (''tor'', JObject (tor_members t s)) (tor_section t s)"
  unfolding tor_members_def tor_section_def by (intro section_adds list_all2_Cons [THEN iffD2] conjI list_all2_Nil [THEN iffD2] adds_simple; simp)

lemma failed_adds:
  "list_all2 adds (map (\<lambda>(name, n). (name, JNumber n)) ns) (map (\<lambda>(name, n). j_num name n) ns)"
  by (auto simp: list_all2_conv_all_nth split: prod.split)

lemma render_steps_add: "list_all2 adds (page_members listen p k reported) (render_steps listen p k reported)"
proof -
  have tail: "drop 1 (zip FAILURE_NAMES (FAILED k)) = zip (tl FAILURE_NAMES) (tl (FAILED k))"
    by (simp add: drop_zip drop_Suc)
  have tor: "adds (''tor'', opt_value (\<lambda>s. JObject (tor_members (pi_tor_now p) s)) reported)
      (case reported of Some s \<Rightarrow> tor_section (pi_tor_now p) s | None \<Rightarrow> j_null ''tor'')"
    by (auto simp: opt_value_def tor_section_adds split: option.split)
  have state: "(if reported \<noteq> None then ''ready'' else ''bootstrapping'') = (if reported = None then ''bootstrapping'' else ''ready'')" by simp
  show ?thesis
    unfolding page_members_def render_steps_def tail state
    by (cases "pi_libs p")
      (auto simp: opt_value_def intro!: section_adds tor_section_adds tor [unfolded opt_value_def] failed_adds adds_simple adds_opt [unfolded opt_value_def] split: prod.split)
qed

lemma render_pretty: "render listen p k reported = pretty 0 (JObject (page_members listen p k reported)) @ [CHR 0x0A]"
proof -
  have o: "has_member (j_open json_new) = False # []" "j_depth (j_open json_new) = 1" "j_out (j_open json_new) = ''{''"
    by (simp_all add: j_open_def json_new_def push_str_def)
  have ne: "page_members listen p k reported \<noteq> []" by (simp add: page_members_def)
  then show ?thesis
    using steps_add [OF render_steps_add o(1)] o
    by (cases "page_members listen p k reported") (simp_all add: render_def j_finish_def j_close_def j_newline_def push_str_def)
qed

section \<open>Reading the page\<close>

text \<open>
  A reader of the JSON of RFC 8259, less what the page has no use for: of the escapes it knows the quote, the backslash
  and \<^verbatim>\<open>\u00xx\<close>, and numbers are natural. It refuses control characters in a string. Fuel: a unit for each level and member.
\<close>

definition json_space :: "char \<Rightarrow> bool" where
  "json_space c \<longleftrightarrow> c \<in> {CHR '' '', CHR 0x09, CHR 0x0A, CHR 0x0D}"

definition token :: "char \<Rightarrow> string \<Rightarrow> string option" where
  "token c s = (case dropWhile json_space s of [] \<Rightarrow> None | x # r \<Rightarrow> if x = c then Some r else None)"

definition hex_value :: "char \<Rightarrow> nat option" where
  "hex_value c =
     (if is_digit c then Some (code c - 48)
      else if 97 \<le> code c \<and> code c \<le> 102 then Some (code c - 87)
      else if 65 \<le> code c \<and> code c \<le> 70 then Some (code c - 55) else None)"

definition read_escape :: "string \<Rightarrow> (char \<times> string) option" where
  "read_escape s =
     (case s of
        c # r \<Rightarrow>
          if c = CHR 0x22 \<or> c = CHR 0x5C then Some (c, r)
          else if take 3 s = ''u00'' \<and> length s \<ge> 5 then
            Option.bind (hex_value (s ! 3)) (\<lambda>a. Option.bind (hex_value (s ! 4)) (\<lambda>b. Some (char_of (16 * a + b), drop 5 s)))
          else None
      | [] \<Rightarrow> None)"

lemma read_escape_shorter: "read_escape s = Some (x, r) \<Longrightarrow> length r < length s"
  by (auto simp: read_escape_def bind_eq_Some_conv split: list.splits if_splits)

function read_text :: "string \<Rightarrow> (string \<times> string) option" where
  "read_text s =
     (case s of
        [] \<Rightarrow> None
      | c # r \<Rightarrow>
          if c = CHR 0x22 then Some ([], r)
          else if c = CHR 0x5C then
            (case read_escape r of None \<Rightarrow> None | Some (x, r') \<Rightarrow> map_option (apfst (Cons x)) (read_text r'))
          else if code c < 0x20 then None
          else map_option (apfst (Cons c)) (read_text r))"
  by pat_completeness auto

termination
  by (relation "measure length") (auto dest: read_escape_shorter)

declare read_text.simps [simp del]

definition read_atom :: "string \<Rightarrow> (json_value \<times> string) option" where
  "read_atom s =
     (case strip_prefix ''true'' s of Some r \<Rightarrow> Some (JBool True, r) | None \<Rightarrow>
      case strip_prefix ''false'' s of Some r \<Rightarrow> Some (JBool False, r) | None \<Rightarrow>
      case strip_prefix ''null'' s of Some r \<Rightarrow> Some (JNull, r) | None \<Rightarrow>
      if takeWhile is_digit s = [] then None
      else map_option (\<lambda>n. (JNumber n, dropWhile is_digit s)) (digits_value 0 (takeWhile is_digit s)))"

fun read_value :: "nat \<Rightarrow> string \<Rightarrow> (json_value \<times> string) option"
  and read_members :: "nat \<Rightarrow> string \<Rightarrow> ((string \<times> json_value) list \<times> string) option" where
  "read_value 0 s = None"
| "read_value (Suc n) s =
     (case token CHR ''{'' s of
        Some r \<Rightarrow> (case token CHR ''}'' r of Some r' \<Rightarrow> Some (JObject [], r') | None \<Rightarrow> map_option (apfst JObject) (read_members n r))
      | None \<Rightarrow> (case token CHR 0x22 s of Some r \<Rightarrow> map_option (apfst JText) (read_text r) | None \<Rightarrow> read_atom (dropWhile json_space s)))"
| "read_members 0 s = None"
| "read_members (Suc n) s =
     Option.bind (token CHR 0x22 s) (\<lambda>r. Option.bind (read_text r) (\<lambda>(k, r). Option.bind (token CHR '':'' r) (\<lambda>r.
     Option.bind (read_value n r) (\<lambda>(v, r).
       case token CHR '','' r of
         Some r \<Rightarrow> map_option (apfst (Cons (k, v))) (read_members n r)
       | None \<Rightarrow> map_option (Pair [(k, v)]) (token CHR ''}'' r)))))"

definition read_json :: "string \<Rightarrow> json_value option" where
  "read_json s =
     (case read_value (Suc (length s)) s of
        Some (v, r) \<Rightarrow> if dropWhile json_space r = [] then Some v else None
      | None \<Rightarrow> None)"

lemma hex_value_digit: "n < 16 \<Longrightarrow> hex_value (hex_digit n) = Some n"
proof -
  have "\<forall>m \<in> {..<16}. hex_value (hex_digit m) = Some m"
    by (simp add: hex_value_def hex_digit_def is_digit_def code_def lessThan_nat_numeral lessThan_Suc)
  then show "n < 16 \<Longrightarrow> hex_value (hex_digit n) = Some n" by simp
qed

lemma read_text_char: "read_text (quote_char c @ s) = map_option (apfst (Cons c)) (read_text s)"
proof -
  have low: ?thesis if c: "code c < 0x20"
  proof -
    have "16 * (code c div 16) + code c mod 16 = code c" by simp
    moreover have "hex_value (hex_digit (code c div 16)) = Some (code c div 16)" "hex_value (hex_digit (code c mod 16)) = Some (code c mod 16)"
      using c by (simp_all add: hex_value_digit)
    ultimately have "read_escape (CHR ''u'' # CHR ''0'' # CHR ''0'' # hex_digit (code c div 16) # hex_digit (code c mod 16) # s) = Some (c, s)"
      by (simp add: read_escape_def code_def)
    moreover have "c \<noteq> CHR 0x22" "c \<noteq> CHR 0x5C" using c by (auto simp: code_def)
    ultimately show ?thesis
      using c by (subst read_text.simps) (simp add: quote_char_def)
  qed
  consider "c = CHR 0x22 \<or> c = CHR 0x5C" | "code c < 0x20" | "c \<noteq> CHR 0x22" "c \<noteq> CHR 0x5C" "\<not> code c < 0x20" by blast
  then show ?thesis
  proof cases
    case 1
    then show ?thesis by (subst read_text.simps) (auto simp: quote_char_def read_escape_def)
  next
    case 2
    then show ?thesis by (rule low)
  next
    case 3
    then show ?thesis by (subst read_text.simps) (simp add: quote_char_def)
  qed
qed

lemma read_text_quote: "read_text (concat (map quote_char s) @ CHR 0x22 # r) = Some (s, r)"
  by (induction s) (simp_all add: read_text_char, simp add: read_text.simps)

lemma indent_space: "dropWhile json_space (indent d @ s) = dropWhile json_space s"
  by (induction d) (simp_all add: indent_def json_space_def)

lemma token_indent [simp]: "token c (indent d @ s) = token c s"
  by (simp add: token_def indent_space)

lemma token_here [simp]: "\<not> json_space c \<Longrightarrow> token c (c # s) = Some s"
  by (simp add: token_def)

lemma token_other [simp]: "\<not> json_space x \<Longrightarrow> x \<noteq> c \<Longrightarrow> token c (x # s) = None"
  by (simp add: token_def)

lemma token_blank [simp]: "token c (CHR '' '' # s) = token c s"
  by (simp add: token_def json_space_def)

lemma read_value_blank: "read_value n (CHR '' '' # s) = read_value n s"
  by (cases n) (auto simp: json_space_def split: option.split)

lemma read_atom_number:
  assumes "rest = [] \<or> \<not> is_digit (hd rest)"
  shows "read_value (Suc n) (nat_digits k @ rest) = Some (JNumber k, rest)"
proof -
  have digits: "\<forall>c \<in> set (nat_digits k). is_digit c" using nat_digits_digits by blast
  have ne: "nat_digits k \<noteq> []" by (subst nat_digits.simps) simp
  have "takeWhile is_digit (nat_digits k @ rest) = nat_digits k" "dropWhile is_digit (nat_digits k @ rest) = rest"
    using digits assms by (simp_all add: takeWhile_append2 dropWhile_append2) (cases rest; simp)+
  moreover obtain c cs where c: "nat_digits k = c # cs" "is_digit c" using ne digits by (cases "nat_digits k") auto
  then have "c \<noteq> CHR ''t''" "c \<noteq> CHR ''f''" "c \<noteq> CHR ''n''" "c \<noteq> CHR 0x22" "c \<noteq> CHR ''{''" "\<not> json_space c"
    by (auto simp: is_digit_def code_def json_space_def)
  moreover have "strip_prefix (x # xs) (nat_digits k @ rest) = None" if "c \<noteq> x" for x xs
    using that c by (simp add: strip_prefix_def)
  ultimately show ?thesis using ne c(1) digits_value_nat_digits [of k] by (simp add: read_atom_def)
qed

lemma read_value_atom:
  "read_value (Suc n) ((if b then ''true'' else ''false'') @ rest) = Some (JBool b, rest)"
  "read_value (Suc n) (''null'' @ rest) = Some (JNull, rest)"
  "read_value (Suc n) (quote s @ rest) = Some (JText s, rest)"
  by (simp_all add: json_space_def read_atom_def strip_prefix_def quote_def read_text_quote)

lemma read_pretty:
  "length (pretty d v) \<le> n \<Longrightarrow> rest = [] \<or> \<not> is_digit (hd rest) \<Longrightarrow> read_value n (pretty d v @ rest) = Some (v, rest)"
  "ms \<noteq> [] \<Longrightarrow> length (pretty_members d ms) \<le> n \<Longrightarrow>
   read_members n (pretty_members d ms @ indent e @ CHR ''}'' # r) = Some (ms, r)"
proof (induction d v and d ms arbitrary: n rest and n e r rule: pretty_pretty_members.induct)
  case (1 d)
  then show ?case by (cases n) (simp_all add: json_space_def)
next
  case (2 d m ms)
  then obtain n' where n: "n = Suc n'" by (cases n) auto
  let ?tail = "pretty_members (Suc d) (m # ms) @ indent d @ CHR ''}'' # rest"
  have "read_members n' ?tail = Some (m # ms, rest)" using 2 n by simp
  moreover have "token CHR ''}'' ?tail = None"
    by (cases m; cases ms) (simp_all add: quote_def json_space_def)
  ultimately show ?case using n by (simp add: json_space_def)
next
  case (3 d s)
  then obtain n' where "n = Suc n'" by (cases n) (auto simp: quote_def)
  then show ?case by (simp only: pretty.simps read_value_atom(3))
next
  case (4 d k)
  moreover have "nat_digits k \<noteq> []" by (subst nat_digits.simps) simp
  ultimately show ?case by (cases n) (simp_all add: read_atom_number del: read_value.simps)
next
  case (5 d b)
  then obtain n' where "n = Suc n'" by (cases n) (auto split: if_splits)
  then show ?case by (simp only: pretty.simps read_value_atom(1))
next
  case (6 d)
  then obtain n' where "n = Suc n'" by (cases n) auto
  then show ?case by (simp only: pretty.simps read_value_atom(2))
next
  case (7 d)
  then show ?case by simp
next
  case (8 d k v)
  then obtain n' where n: "n = Suc n'" by (cases n) auto
  have "read_value n' (pretty d v @ indent e @ CHR ''}'' # r) = Some (v, indent e @ CHR ''}'' # r)"
    using 8 n by (intro 8(1)) (auto simp: indent_def is_digit_def code_def)
  then show ?case
    using n by (simp add: quote_def json_space_def read_text_quote read_value_blank)
next
  case (9 d k v m ms)
  then obtain n' where n: "n = Suc n'" by (cases n) auto
  let ?rest = "CHR '','' # pretty_members d (m # ms) @ indent e @ CHR ''}'' # r"
  have "read_value n' (pretty d v @ ?rest) = Some (v, ?rest)"
    using 9(4) n by (intro 9(1)) (auto simp: is_digit_def code_def)
  moreover have "read_members n' (pretty_members d (m # ms) @ indent e @ CHR ''}'' # r) = Some (m # ms, r)"
    using 9(4) n by (intro 9(2)) simp_all
  ultimately show ?case
    using n by (simp add: quote_def json_space_def read_text_quote read_value_blank)
qed

lemma read_json_pretty: "read_json (pretty 0 v @ [CHR 0x0A]) = Some v"
proof -
  have "read_value (Suc (length (pretty 0 v @ [CHR 0x0A]))) (pretty 0 v @ [CHR 0x0A]) = Some (v, [CHR 0x0A])"
    by (rule read_pretty(1)) (simp_all add: is_digit_def code_def)
  then show ?thesis by (simp add: read_json_def json_space_def del: read_value.simps)
qed

fun well_named :: "json_value \<Rightarrow> bool" where
  "well_named (JObject ms) \<longleftrightarrow> distinct (map fst ms) \<and> list_all (\<lambda>m. well_named (snd m)) ms"
| "well_named v \<longleftrightarrow> True"

lemma well_named_opt [simp]:
  "well_named (opt_value (\<lambda>s. JObject (ms s)) x) \<longleftrightarrow> (\<forall>s. x = Some s \<longrightarrow> well_named (JObject (ms s)))"
  "well_named (opt_value JNumber y)" "well_named (opt_value JText z)" "well_named (opt_value (JText \<circ> g) w)"
  by (simp_all add: opt_value_def split: option.split)

lemma failures_well_named: "well_named (JObject (map (\<lambda>(name, n). (name, JNumber n)) (zip (tl FAILURE_NAMES) ns)))"
proof -
  have "map fst (map (\<lambda>(name, n). (name, JNumber n)) (zip xs ns)) = take (length ns) xs" for xs :: "string list"
    by (induction xs ns rule: list_induct2') simp_all
  moreover have "distinct (tl FAILURE_NAMES)" by (simp add: FAILURE_NAMES_def)
  ultimately show ?thesis by (auto simp: list_all_iff distinct_take)
qed

lemma page_well_named: "well_named (JObject (page_members listen p k reported))"
  using failures_well_named [of "tl (FAILED k)"] by (simp add: page_members_def tor_members_def del: map_map)

text \<open>
  C40: whatever the build, the process and the client report, the page is well-formed JSON: a reader gets from it
  one object, whose members are the figures given, each under its name and nothing else, no name twice in an object.
  A figure that is not there (no commit, no client yet, a field missing from the process's status) is read as null, the
  age of the consensus never goes below zero, and the failures are read under the names of the reply codes from 1 on.
\<close>
theorem status_page_reads_back:
  "read_json (render listen p k reported) = Some (JObject (page_members listen p k reported)) \<and>
   well_named (JObject (page_members listen p k reported))"
  unfolding render_pretty by (intro conjI read_json_pretty page_well_named)

end
