(* ===== verification/Handshakes.thy ===== *)
theory Handshakes
  imports Relay_Crypto Circuit_Flow Onion_Address
begin

text \<open>
  The circuit handshakes: ntor and CREATE_FAST of \<^verbatim>\<open>ntor.rs\<close>, ntor-v3 with its extension lists of
  \<^verbatim>\<open>ntor_v3.rs\<close>, hs-ntor of \<^verbatim>\<open>hs/ntor.rs\<close>, and the two key-derivation loops. X25519, HMAC, the
  hashes and AES come from OpenSSL and are an argument, with what the protocol relies on named in
  \<open>prims_ok\<close>. The relay's half of each handshake, which this program never runs, is stated from
  tor-spec as the reference the client's half is proved against.
\<close>

section \<open>Primitives\<close>

record handshake_prims =
  x_public :: "bytes \<Rightarrow> bytes io_result"
  x_dh :: "bytes \<Rightarrow> bytes \<Rightarrow> bytes io_result"
  hmac_sha256 :: "bytes \<Rightarrow> bytes \<Rightarrow> bytes"
  hp_sha1 :: "bytes \<Rightarrow> bytes"
  hp_sha3 :: "bytes \<Rightarrow> bytes"
  shake256 :: "bytes \<Rightarrow> nat \<Rightarrow> bytes"
  aes256_ctr :: "bytes \<Rightarrow> bytes \<Rightarrow> bytes"

text \<open>
  Public keys are 32 bytes and Diffie-Hellman gives both sides one secret; the hashes and HMAC have
  their fixed lengths, SHAKE gives as many bytes as asked for, and AES in counter mode undoes itself.
\<close>

definition prims_ok :: "handshake_prims \<Rightarrow> bool" where
  "prims_ok P \<longleftrightarrow>
     (\<forall>a A. x_public P a = Inr A \<longrightarrow> length A = 32) \<and>
     (\<forall>a b A B s. x_public P a = Inr A \<longrightarrow> x_public P b = Inr B \<longrightarrow> x_dh P a B = Inr s \<longrightarrow> x_dh P b A = Inr s) \<and>
     (\<forall>k m. length (hmac_sha256 P k m) = 32) \<and> (\<forall>m. length (hp_sha1 P m) = 20) \<and> (\<forall>m. length (hp_sha3 P m) = 32) \<and>
     (\<forall>m n. length (shake256 P m n) = n) \<and>
     (\<forall>k m. aes256_ctr P k (aes256_ctr P k m) = m \<and> length (aes256_ctr P k m) = length m)"

lemma prims_okD:
  assumes "prims_ok P"
  shows "x_public P a = Inr A \<Longrightarrow> length A = 32"
    and "x_public P a = Inr A \<Longrightarrow> x_public P b = Inr B \<Longrightarrow> x_dh P a B = Inr s \<Longrightarrow> x_dh P b A = Inr s"
    and "length (hmac_sha256 P k m) = 32" and "length (hp_sha1 P m) = 20" and "length (hp_sha3 P m) = 32"
    and "length (shake256 P m n) = n" and "aes256_ctr P k (aes256_ctr P k m) = m" and "length (aes256_ctr P k m) = length m"
  using assms unfolding prims_ok_def by blast+

text \<open>\<^verbatim>\<open>constant_time_eq\<close> looks at every byte and still decides equality.\<close>

definition constant_time_eq :: "bytes \<Rightarrow> bytes \<Rightarrow> bool" where
  "constant_time_eq a b \<longleftrightarrow> length a = length b \<and> fold (\<lambda>(x, y) diff. diff OR (x XOR y)) (zip a b) 0 = 0"

lemma or_eq_zero_iff: "(a :: u8) OR b = 0 \<longleftrightarrow> a = 0 \<and> b = 0"
  by (auto simp: bit_eq_iff bit_simps)

lemma xor_eq_zero_iff: "(a :: u8) XOR b = 0 \<longleftrightarrow> a = b"
  by (auto simp: bit_eq_iff bit_simps)

lemma constant_time_eq_iff [simp]: "constant_time_eq a b \<longleftrightarrow> a = b"
proof -
  have "fold (\<lambda>(x, y) diff. diff OR (x XOR y)) (zip a b) d = 0 \<longleftrightarrow> d = 0 \<and> a = b" if "length a = length b" for d :: u8
    using that by (induction a b arbitrary: d rule: list_induct2) (simp_all add: or_eq_zero_iff xor_eq_zero_iff)
  then show ?thesis unfolding constant_time_eq_def by auto
qed

section \<open>ntor\<close>

definition HANDSHAKE_TYPE_NTOR :: nat where "HANDSHAKE_TYPE_NTOR = 2"
definition CLIENT_HANDSHAKE_LEN :: nat where "CLIENT_HANDSHAKE_LEN = 20 + 32 + 32"
definition SERVER_HANDSHAKE_LEN :: nat where "SERVER_HANDSHAKE_LEN = 32 + 32"
definition NTOR_PROTOID :: bytes where "NTOR_PROTOID = as_bytes ''ntor-curve25519-sha256-1''"
definition T_MAC :: bytes where "T_MAC = as_bytes ''ntor-curve25519-sha256-1:mac''"
definition T_KEY :: bytes where "T_KEY = as_bytes ''ntor-curve25519-sha256-1:key_extract''"
definition T_VERIFY :: bytes where "T_VERIFY = as_bytes ''ntor-curve25519-sha256-1:verify''"
definition M_EXPAND :: bytes where "M_EXPAND = as_bytes ''ntor-curve25519-sha256-1:key_expand''"
definition SERVER_STRING :: bytes where "SERVER_STRING = as_bytes ''Server''"

record ntor_client =
  nt_secret :: bytes
  nt_x_pub :: bytes
  nt_node_id :: bytes
  nt_onion_key :: bytes

definition ntor_new :: "handshake_prims \<Rightarrow> bytes io_result \<Rightarrow> bytes \<Rightarrow> bytes \<Rightarrow> (ntor_client \<times> bytes) io_result" where
  "ntor_new P generated node_id b_pub =
     and_then generated (\<lambda>secret.
     and_then (x_public P secret) (\<lambda>x_pub.
       Inr (\<lparr>nt_secret = secret, nt_x_pub = x_pub, nt_node_id = node_id, nt_onion_key = b_pub\<rparr>,
            node_id @ b_pub @ x_pub)))"

text \<open>
  KDF-RFC5869: the loop runs until enough output is there, so whether it ends depends on the block
  length; \<open>None\<close> would be a loop that never does.
\<close>

partial_function (option) rfc5869_loop :: "(bytes \<Rightarrow> bytes) \<Rightarrow> bytes \<Rightarrow> nat \<Rightarrow> bytes \<Rightarrow> bytes \<Rightarrow> u8 \<Rightarrow> bytes option" where
  "rfc5869_loop hmac m_expand out_len out prev counter =
     (if length out < out_len
      then let block = hmac (prev @ m_expand @ [counter])
           in rfc5869_loop hmac m_expand out_len (out @ block) block (counter + 1)
      else Some (take out_len out))"

definition kdf_rfc5869 :: "handshake_prims \<Rightarrow> bytes \<Rightarrow> bytes \<Rightarrow> nat \<Rightarrow> bytes option" where
  "kdf_rfc5869 P key_seed m_expand out_len = rfc5869_loop (hmac_sha256 P key_seed) m_expand out_len [] [] 1"

definition derive_keys :: "handshake_prims \<Rightarrow> bytes \<Rightarrow> circuit_keys option" where
  "derive_keys P key_seed =
     map_option (\<lambda>stream. \<lparr>df = slice 0 20 stream, db = slice 20 40 stream, kf = slice 40 56 stream, kb = slice 56 72 stream\<rparr>)
       (kdf_rfc5869 P key_seed M_EXPAND 72)"

definition ntor_secret_input :: "bytes \<Rightarrow> bytes \<Rightarrow> bytes \<Rightarrow> bytes \<Rightarrow> bytes \<Rightarrow> bytes \<Rightarrow> bytes" where
  "ntor_secret_input exp_yx exp_bx node_id b_pub x_pub y_pub =
     exp_yx @ exp_bx @ node_id @ b_pub @ x_pub @ y_pub @ NTOR_PROTOID"

definition ntor_auth :: "handshake_prims \<Rightarrow> bytes \<Rightarrow> bytes \<Rightarrow> bytes \<Rightarrow> bytes \<Rightarrow> bytes \<Rightarrow> bytes" where
  "ntor_auth P verify node_id b_pub y_pub x_pub =
     hmac_sha256 P T_MAC (verify @ node_id @ b_pub @ y_pub @ x_pub @ NTOR_PROTOID @ SERVER_STRING)"

definition ntor_finish :: "handshake_prims \<Rightarrow> ntor_client \<Rightarrow> bytes \<Rightarrow> circuit_keys io_result option" where
  "ntor_finish P cl reply =
     (if length reply < SERVER_HANDSHAKE_LEN then Some (Inl (invalid_data ''ntor reply is too short''))
      else let y_pub = slice 0 32 reply; auth = slice 32 64 reply in
        case and_then (x_dh P (nt_secret cl) y_pub) (\<lambda>exp_yx.
             and_then (x_dh P (nt_secret cl) (nt_onion_key cl)) (\<lambda>exp_bx. Inr (exp_yx, exp_bx))) of
          Inl e \<Rightarrow> Some (Inl e)
        | Inr (exp_yx, exp_bx) \<Rightarrow>
            let secret_input = ntor_secret_input exp_yx exp_bx (nt_node_id cl) (nt_onion_key cl) (nt_x_pub cl) y_pub;
                key_seed = hmac_sha256 P T_KEY secret_input;
                verify = hmac_sha256 P T_VERIFY secret_input
            in if \<not> constant_time_eq (ntor_auth P verify (nt_node_id cl) (nt_onion_key cl) y_pub (nt_x_pub cl)) auth
               then Some (Inl (invalid_data ''ntor AUTH mismatch: relay did not prove its key''))
               else map_option Inr (derive_keys P key_seed))"

section \<open>The fast handshake\<close>

definition CREATE_FAST_LEN :: nat where "CREATE_FAST_LEN = 20"

partial_function (option) kdf_tor_loop :: "(bytes \<Rightarrow> bytes) \<Rightarrow> bytes \<Rightarrow> nat \<Rightarrow> bytes \<Rightarrow> u8 \<Rightarrow> bytes option" where
  "kdf_tor_loop hash k0 out_len out counter =
     (if length out < out_len then kdf_tor_loop hash k0 out_len (out @ hash (k0 @ [counter])) (counter + 1)
      else Some (take out_len out))"

text \<open>The assertion stops the thread: \<open>None\<close>, as for a loop that does not end.\<close>

definition kdf_tor :: "handshake_prims \<Rightarrow> bytes \<Rightarrow> nat \<Rightarrow> bytes option" where
  "kdf_tor P k0 out_len = (if out_len \<le> 20 * 256 then kdf_tor_loop (hp_sha1 P) k0 out_len [] 0 else None)"

definition create_fast_new :: "bytes io_result \<Rightarrow> (bytes \<times> bytes) io_result" where
  "create_fast_new random = and_then random (\<lambda>x. Inr (x, x))"

definition create_fast_finish :: "handshake_prims \<Rightarrow> bytes \<Rightarrow> bytes \<Rightarrow> circuit_keys io_result option" where
  "create_fast_finish P x reply =
     (if length reply < CREATED_FAST_LEN then Some (Inl (invalid_data ''CREATED_FAST reply is too short''))
      else map_option (\<lambda>stream.
        if \<not> constant_time_eq (take 20 stream) (slice CREATE_FAST_LEN CREATED_FAST_LEN reply)
        then Inl (invalid_data ''CREATED_FAST KH mismatch: relay did not derive the same keys'')
        else Inr \<lparr>df = slice 20 40 stream, db = slice 40 60 stream, kf = slice 60 76 stream, kb = slice 76 92 stream\<rparr>)
        (kdf_tor P (x @ take CREATE_FAST_LEN reply) 92))"

section \<open>Extensions\<close>

definition encode_extension :: "extension \<Rightarrow> bytes io_result" where
  "encode_extension x =
     (if 255 < length (ext_body x) then Inl (invalid_data ''handshake extension body is over 255 bytes'')
      else Inr (ext_kind x # word_of_nat (length (ext_body x)) # ext_body x))"

fun encode_fields :: "extension list \<Rightarrow> bytes io_result" where
  "encode_fields [] = Inr []"
| "encode_fields (x # xs) =
     and_then (encode_extension x) (\<lambda>bs. and_then (encode_fields xs) (\<lambda>rest. Inr (bs @ rest)))"

definition encode_extensions :: "extension list \<Rightarrow> bytes io_result" where
  "encode_extensions exts =
     (if 255 < length exts then Inl (invalid_data ''too many handshake extensions for one byte'')
      else and_then (encode_fields exts) (\<lambda>bs. Inr (word_of_nat (length exts) # bs)))"

fun decode_fields :: "nat \<Rightarrow> bytes \<Rightarrow> (extension list \<times> bytes) io_result" where
  "decode_fields 0 rest = Inr ([], rest)"
| "decode_fields (Suc n) rest =
     (if length rest < 2 then Inl (invalid_data ''truncated handshake extension header'')
      else let len = unat (rest ! 1) in
        if length rest < 2 + len then Inl (invalid_data ''truncated handshake extension body'')
        else and_then (decode_fields n (drop (2 + len) rest)) (\<lambda>(xs, rest').
          Inr (\<lparr>ext_kind = rest ! 0, ext_body = slice 2 (2 + len) rest\<rparr> # xs, rest')))"

definition decode_extensions :: "bytes \<Rightarrow> extension list io_result" where
  "decode_extensions bs =
     (case bs of
        [] \<Rightarrow> Inl (invalid_data ''handshake extension list is empty'')
      | count # rest \<Rightarrow>
          and_then (decode_fields (unat count) rest) (\<lambda>(xs, rest').
            if rest' \<noteq> [] then Inl (invalid_data ''trailing bytes after the handshake extensions'') else Inr xs))"

section \<open>ntor-v3\<close>

definition HANDSHAKE_TYPE_NTOR_V3 :: nat where "HANDSHAKE_TYPE_NTOR_V3 = 3"
definition V3_PROTOID :: bytes where "V3_PROTOID = as_bytes ''ntor3-curve25519-sha3_256-1''"
definition V3_T_MSGKDF :: bytes where "V3_T_MSGKDF = as_bytes ''ntor3-curve25519-sha3_256-1:kdf_phase1''"
definition V3_T_MSGMAC :: bytes where "V3_T_MSGMAC = as_bytes ''ntor3-curve25519-sha3_256-1:msg_mac''"
definition V3_T_KEY_SEED :: bytes where "V3_T_KEY_SEED = as_bytes ''ntor3-curve25519-sha3_256-1:key_seed''"
definition V3_T_VERIFY :: bytes where "V3_T_VERIFY = as_bytes ''ntor3-curve25519-sha3_256-1:verify''"
definition V3_T_FINAL :: bytes where "V3_T_FINAL = as_bytes ''ntor3-curve25519-sha3_256-1:kdf_final''"
definition V3_T_AUTH :: bytes where "V3_T_AUTH = as_bytes ''ntor3-curve25519-sha3_256-1:auth_final''"
definition CIRC_VERIFICATION :: bytes where "CIRC_VERIFICATION = as_bytes ''circuit extend''"
definition SERVER_REPLY_PREFIX_LEN :: nat where "SERVER_REPLY_PREFIX_LEN = 32 + 32"
definition CIRCUIT_KEY_LEN :: nat where "CIRCUIT_KEY_LEN = 20 + 20 + 16 + 16"

definition encap :: "bytes \<Rightarrow> bytes" where "encap s = int8 (length s) @ s"
definition v3_h :: "handshake_prims \<Rightarrow> bytes \<Rightarrow> bytes \<Rightarrow> bytes" where "v3_h P s t = hp_sha3 P (encap t @ s)"
definition v3_mac :: "handshake_prims \<Rightarrow> bytes \<Rightarrow> bytes \<Rightarrow> bytes \<Rightarrow> bytes" where
  "v3_mac P k msg t = hp_sha3 P (encap t @ encap k @ msg)"
definition v3_kdf :: "handshake_prims \<Rightarrow> bytes \<Rightarrow> bytes \<Rightarrow> nat \<Rightarrow> bytes" where
  "v3_kdf P s t out_len = shake256 P (encap t @ s) out_len"
definition v3_enc :: "handshake_prims \<Rightarrow> bytes \<Rightarrow> bytes \<Rightarrow> bytes" where
  "v3_enc P k m = aes256_ctr P k m"

record ntor_v3_client =
  v3_secret :: bytes
  v3_x_pub :: bytes
  v3_id :: bytes
  v3_b_pub :: bytes
  v3_exp_bx :: bytes
  v3_msg_mac :: bytes
  v3_verification :: bytes

definition v3_phase1_input :: "bytes \<Rightarrow> bytes \<Rightarrow> bytes \<Rightarrow> bytes \<Rightarrow> bytes \<Rightarrow> bytes" where
  "v3_phase1_input exp_bx ident x_pub b verification =
     exp_bx @ ident @ x_pub @ b @ V3_PROTOID @ encap verification"

definition v3_build ::
  "handshake_prims \<Rightarrow> bytes \<Rightarrow> bytes \<Rightarrow> bytes \<Rightarrow> bytes \<Rightarrow> bytes \<Rightarrow> (ntor_v3_client \<times> bytes) io_result" where
  "v3_build P secret ident b message verification =
     and_then (x_public P secret) (\<lambda>x_pub.
     and_then (x_dh P secret b) (\<lambda>exp_bx.
       let phase1_keys = v3_kdf P (v3_phase1_input exp_bx ident x_pub b verification) V3_T_MSGKDF 64;
           enc_k1 = take 32 phase1_keys;
           mac_k1 = slice 32 64 phase1_keys;
           hdata = ident @ b @ x_pub @ v3_enc P enc_k1 message;
           msg_mac = v3_mac P mac_k1 hdata V3_T_MSGMAC
       in Inr (\<lparr>v3_secret = secret, v3_x_pub = x_pub, v3_id = ident, v3_b_pub = b, v3_exp_bx = exp_bx,
                v3_msg_mac = msg_mac, v3_verification = verification\<rparr>, hdata @ msg_mac)))"

definition v3_new :: "handshake_prims \<Rightarrow> bytes io_result \<Rightarrow> bytes \<Rightarrow> bytes \<Rightarrow> extension list \<Rightarrow> (ntor_v3_client \<times> bytes) io_result" where
  "v3_new P generated ident b exts =
     and_then (encode_extensions exts) (\<lambda>message.
     and_then generated (\<lambda>secret. v3_build P secret ident b message CIRC_VERIFICATION))"

definition v3_secret_input :: "bytes \<Rightarrow> bytes \<Rightarrow> bytes \<Rightarrow> bytes \<Rightarrow> bytes \<Rightarrow> bytes \<Rightarrow> bytes \<Rightarrow> bytes" where
  "v3_secret_input exp_yx exp_bx ident b_pub x_pub y_pub verification =
     exp_yx @ exp_bx @ ident @ b_pub @ x_pub @ y_pub @ V3_PROTOID @ encap verification"

definition v3_auth ::
  "handshake_prims \<Rightarrow> bytes \<Rightarrow> bytes \<Rightarrow> bytes \<Rightarrow> bytes \<Rightarrow> bytes \<Rightarrow> bytes \<Rightarrow> bytes \<Rightarrow> bytes" where
  "v3_auth P verify ident b_pub y_pub x_pub msg_mac encrypted_reply =
     v3_h P (verify @ ident @ b_pub @ y_pub @ x_pub @ msg_mac @ encap encrypted_reply @ V3_PROTOID @ SERVER_STRING) V3_T_AUTH"

definition v3_complete :: "handshake_prims \<Rightarrow> ntor_v3_client \<Rightarrow> bytes \<Rightarrow> nat \<Rightarrow> (bytes \<times> bytes) io_result" where
  "v3_complete P cl reply keystream_len =
     (if length reply < SERVER_REPLY_PREFIX_LEN then Inl (invalid_data ''ntor-v3 reply is too short'')
      else let y_pub = take 32 reply; auth = slice 32 64 reply; encrypted_reply = drop 64 reply in
        and_then (x_dh P (v3_secret cl) y_pub) (\<lambda>exp_yx.
          let secret_input = v3_secret_input exp_yx (v3_exp_bx cl) (v3_id cl) (v3_b_pub cl) (v3_x_pub cl) y_pub (v3_verification cl);
              key_seed = v3_h P secret_input V3_T_KEY_SEED;
              verify = v3_h P secret_input V3_T_VERIFY
          in if \<not> constant_time_eq (v3_auth P verify (v3_id cl) (v3_b_pub cl) y_pub (v3_x_pub cl) (v3_msg_mac cl) encrypted_reply) auth
             then Inl (invalid_data ''ntor-v3 AUTH mismatch: relay did not prove its onion key'')
             else let raw = v3_kdf P key_seed V3_T_FINAL (32 + keystream_len)
                  in Inr (drop 32 raw, v3_enc P (take 32 raw) encrypted_reply)))"

definition keys_of_stream :: "bytes \<Rightarrow> circuit_keys" where
  "keys_of_stream stream = \<lparr>df = slice 0 20 stream, db = slice 20 40 stream, kf = slice 40 56 stream, kb = slice 56 72 stream\<rparr>"

definition v3_finish :: "handshake_prims \<Rightarrow> ntor_v3_client \<Rightarrow> bytes \<Rightarrow> (circuit_keys \<times> extension list) io_result" where
  "v3_finish P cl reply =
     and_then (v3_complete P cl reply CIRCUIT_KEY_LEN) (\<lambda>(keystream, server_message).
     and_then (decode_extensions server_message) (\<lambda>exts. Inr (keys_of_stream keystream, exts)))"

section \<open>hs-ntor\<close>

definition HS_PROTOID :: bytes where "HS_PROTOID = as_bytes ''tor-hs-ntor-curve25519-sha3-256-1''"
definition T_HSENC :: bytes where "T_HSENC = as_bytes ''tor-hs-ntor-curve25519-sha3-256-1:hs_key_extract''"
definition T_HSVERIFY :: bytes where "T_HSVERIFY = as_bytes ''tor-hs-ntor-curve25519-sha3-256-1:hs_verify''"
definition T_HSMAC :: bytes where "T_HSMAC = as_bytes ''tor-hs-ntor-curve25519-sha3-256-1:hs_mac''"
definition M_HSEXPAND :: bytes where "M_HSEXPAND = as_bytes ''tor-hs-ntor-curve25519-sha3-256-1:hs_key_expand''"

record introduce_keys =
  intro_enc_key :: bytes
  intro_mac_key :: bytes

record hs_circuit_keys =
  hs_df :: bytes
  hs_db :: bytes
  hs_kf :: bytes
  hs_kb :: bytes

record hs_ntor_client =
  hs_secret :: bytes
  hs_x_pub :: bytes
  hs_auth_key :: bytes
  hs_enc_key :: bytes
  hs_exp_bx :: bytes

definition hs_ntor_new :: "handshake_prims \<Rightarrow> bytes io_result \<Rightarrow> bytes \<Rightarrow> bytes \<Rightarrow> hs_ntor_client io_result" where
  "hs_ntor_new P generated auth_key enc_key =
     and_then generated (\<lambda>secret.
     and_then (x_public P secret) (\<lambda>x_pub.
     and_then (x_dh P secret enc_key) (\<lambda>exp_bx.
       Inr \<lparr>hs_secret = secret, hs_x_pub = x_pub, hs_auth_key = auth_key, hs_enc_key = enc_key, hs_exp_bx = exp_bx\<rparr>)))"

definition intro_key_input :: "bytes \<Rightarrow> bytes \<Rightarrow> bytes \<Rightarrow> bytes \<Rightarrow> bytes \<Rightarrow> bytes" where
  "intro_key_input exp_bx auth_key x_pub enc_key subcredential =
     exp_bx @ auth_key @ x_pub @ enc_key @ HS_PROTOID @ T_HSENC @ M_HSEXPAND @ subcredential"

definition introduce_keys_for :: "handshake_prims \<Rightarrow> hs_ntor_client \<Rightarrow> bytes \<Rightarrow> introduce_keys" where
  "introduce_keys_for P cl subcredential =
     (let keys = shake256 P (intro_key_input (hs_exp_bx cl) (hs_auth_key cl) (hs_x_pub cl) (hs_enc_key cl) subcredential) 64
      in \<lparr>intro_enc_key = take 32 keys, intro_mac_key = drop 32 keys\<rparr>)"

definition hs_derive_keys :: "handshake_prims \<Rightarrow> bytes \<Rightarrow> hs_circuit_keys" where
  "hs_derive_keys P key_seed =
     (let stream = shake256 P (key_seed @ M_HSEXPAND) 128
      in \<lparr>hs_df = slice 0 32 stream, hs_db = slice 32 64 stream, hs_kf = slice 64 96 stream, hs_kb = slice 96 128 stream\<rparr>)"

definition rend_secret :: "bytes \<Rightarrow> bytes \<Rightarrow> bytes \<Rightarrow> bytes \<Rightarrow> bytes \<Rightarrow> bytes \<Rightarrow> bytes" where
  "rend_secret exp_yx exp_bx auth_key enc_key x_pub y_pub =
     exp_yx @ exp_bx @ auth_key @ enc_key @ x_pub @ y_pub @ HS_PROTOID"

definition hs_auth :: "handshake_prims \<Rightarrow> bytes \<Rightarrow> bytes \<Rightarrow> bytes \<Rightarrow> bytes \<Rightarrow> bytes \<Rightarrow> bytes" where
  "hs_auth P verify auth_key enc_key y_pub x_pub =
     hs_mac (hp_sha3 P) (verify @ auth_key @ enc_key @ y_pub @ x_pub @ HS_PROTOID @ SERVER_STRING) T_HSMAC"

definition hs_ntor_finish :: "handshake_prims \<Rightarrow> hs_ntor_client \<Rightarrow> bytes \<Rightarrow> hs_circuit_keys io_result" where
  "hs_ntor_finish P cl reply =
     (if length reply < SERVER_HANDSHAKE_LEN then Inl (invalid_data ''hs-ntor reply is too short'')
      else let y_pub = take 32 reply; auth = slice 32 64 reply in
        and_then (x_dh P (hs_secret cl) y_pub) (\<lambda>exp_yx.
          let secret = rend_secret exp_yx (hs_exp_bx cl) (hs_auth_key cl) (hs_enc_key cl) (hs_x_pub cl) y_pub;
              key_seed = hs_mac (hp_sha3 P) secret T_HSENC;
              verify = hs_mac (hp_sha3 P) secret T_HSVERIFY
          in if \<not> constant_time_eq (hs_auth P verify (hs_auth_key cl) (hs_enc_key cl) y_pub (hs_x_pub cl)) auth
             then Inl (invalid_data ''hs-ntor AUTH mismatch: the far end is not the onion service we asked for'')
             else Inr (hs_derive_keys P key_seed)))"

section \<open>Key derivation ends\<close>

text \<open>The reference: block \<open>i\<close> of KDF-RFC5869, and the first bytes of the blocks in order.\<close>

fun rfc5869_block :: "(bytes \<Rightarrow> bytes) \<Rightarrow> bytes \<Rightarrow> nat \<Rightarrow> bytes" where
  "rfc5869_block hmac m_expand 0 = []"
| "rfc5869_block hmac m_expand (Suc i) = hmac (rfc5869_block hmac m_expand i @ m_expand @ [word_of_nat (Suc i)])"

definition rfc5869_stream :: "(bytes \<Rightarrow> bytes) \<Rightarrow> bytes \<Rightarrow> nat \<Rightarrow> bytes" where
  "rfc5869_stream hmac m_expand k = concat (map (rfc5869_block hmac m_expand) [1..<Suc k])"

lemma rfc5869_stream_Suc:
  "rfc5869_stream hmac m (Suc k) = rfc5869_stream hmac m k @ rfc5869_block hmac m (Suc k)"
  by (simp add: rfc5869_stream_def)

lemma length_rfc5869_stream:
  "(\<And>x. length (hmac x) = b) \<Longrightarrow> length (rfc5869_stream hmac m k) = b * k"
  by (induction k) (simp_all add: rfc5869_stream_def)

lemma take_prefix: "n \<le> length xs \<Longrightarrow> take n (xs @ ys) = take n xs"
  by simp

lemma rfc5869_loop_stream:
  assumes len: "\<And>x. length (hmac x) = 32" and k: "n \<le> 32 * k"
  shows "i \<le> k \<Longrightarrow> rfc5869_loop hmac m n (rfc5869_stream hmac m i) (rfc5869_block hmac m i) (word_of_nat (Suc i)) =
    Some (take n (rfc5869_stream hmac m k))"
proof (induction "k - i" arbitrary: i)
  case 0
  then have "i = k" by simp
  then show ?case using k by (subst rfc5869_loop.simps) (simp add: length_rfc5869_stream [OF len])
next
  case (Suc d)
  let ?s = "rfc5869_stream hmac m"
  have step: "rfc5869_loop hmac m n (?s (Suc i)) (rfc5869_block hmac m (Suc i)) (word_of_nat (Suc (Suc i))) = Some (take n (?s k))"
    using Suc by (intro Suc.hyps) auto
  show ?case
  proof (cases "length (?s i) < n")
    case True
    then show ?thesis
      using step by (subst rfc5869_loop.simps) (simp add: rfc5869_stream_Suc Let_def add.commute)
  next
    case False
    have "\<exists>t. ?s k = ?s i @ t"
    proof -
      have "[1..<Suc k] = [1..<Suc i] @ [Suc i..<Suc k]"
        using Suc.prems upt_add_eq_append [of 1 "Suc i" "k - i"] by simp
      then have "?s k = ?s i @ concat (map (rfc5869_block hmac m) [Suc i..<Suc k])"
        unfolding rfc5869_stream_def by (metis concat_append map_append)
      then show ?thesis by blast
    qed
    then show ?thesis using False by (subst rfc5869_loop.simps) auto
  qed
qed

lemma kdf_rfc5869_stream:
  assumes "prims_ok P"
  shows "kdf_rfc5869 P seed m n = Some (take n (rfc5869_stream (hmac_sha256 P seed) m (n div 32 + 1)))"
  using rfc5869_loop_stream [of "hmac_sha256 P seed" n "n div 32 + 1" 0 m] prims_okD(3) [OF assms]
  by (simp add: kdf_rfc5869_def rfc5869_stream_def)

lemma kdf_tor_loop_stream:
  assumes len: "\<And>x. length (hash x) = 20" and k: "n \<le> 20 * k"
  shows "i \<le> k \<Longrightarrow> kdf_tor_loop hash k0 n (concat (map (\<lambda>j. hash (k0 @ [word_of_nat j])) [0..<i])) (word_of_nat i) =
    Some (take n (concat (map (\<lambda>j. hash (k0 @ [word_of_nat j])) [0..<k])))"
proof (induction "k - i" arbitrary: i)
  case 0
  have "length (concat (map (\<lambda>j. hash (k0 @ [word_of_nat j])) [0..<l])) = 20 * l" for l
    using len by (induction l) simp_all
  then show ?case using 0 k by (subst kdf_tor_loop.simps) simp
next
  case (Suc d)
  let ?s = "\<lambda>i. concat (map (\<lambda>j. hash (k0 @ [word_of_nat j])) [0..<i])"
  have step: "kdf_tor_loop hash k0 n (?s (Suc i)) (word_of_nat (Suc i)) = Some (take n (?s k))"
    using Suc by (intro Suc.hyps) auto
  show ?case
  proof (cases "length (?s i) < n")
    case True
    then show ?thesis using step by (subst kdf_tor_loop.simps) (simp add: add.commute)
  next
    case False
    have "[0..<k] = [0..<i] @ [i..<k]" using Suc.prems upt_add_eq_append [of 0 i "k - i"] by simp
    then have "?s k = ?s i @ concat (map (\<lambda>j. hash (k0 @ [word_of_nat j])) [i..<k])" by simp
    then show ?thesis using False by (subst kdf_tor_loop.simps) simp
  qed
qed

text \<open>
  C31: The key-derivation loops always end and give exactly as many bytes as asked for. KDF-RFC5869 gives
  the first bytes of the blocks the RFC defines, its counter wrapping around after 255 blocks; KDF-TOR
  gives the first bytes of the hashes with counter 0, 1, 2 and so on, up to the length it accepts.
\<close>

theorem key_derivation_ends:
  assumes "prims_ok P"
  shows "\<exists>out. kdf_rfc5869 P seed m n = Some out \<and> length out = n \<and>
       out = take n (concat (map (rfc5869_block (hmac_sha256 P seed) m) [1..<n div 32 + 2]))
     \<and> (n \<le> 20 * 256 \<longrightarrow> (\<exists>out. kdf_tor P k0 n = Some out \<and> length out = n \<and>
         out = take n (concat (map (\<lambda>j. hp_sha1 P (k0 @ [word_of_nat j])) [0..<n div 20 + 1]))))"
proof -
  have len1: "length (rfc5869_stream (hmac_sha256 P seed) m (n div 32 + 1)) = 32 * (n div 32 + 1)"
    using prims_okD(3) [OF assms] by (rule length_rfc5869_stream)
  have "length (concat (map (\<lambda>j. hp_sha1 P (k0 @ [word_of_nat j])) [0..<l])) = 20 * l" for l
    using prims_okD(4) [OF assms] by (induction l) simp_all
  then have len2: "length (concat (map (\<lambda>j. hp_sha1 P (k0 @ [word_of_nat j])) [0..<n div 20 + 1])) = 20 * (n div 20 + 1)" .
  have tor: "n \<le> 20 * 256 \<Longrightarrow> kdf_tor P k0 n =
      Some (take n (concat (map (\<lambda>j. hp_sha1 P (k0 @ [word_of_nat j])) [0..<n div 20 + 1])))"
    using kdf_tor_loop_stream [of "hp_sha1 P" n "n div 20 + 1" 0 k0] prims_okD(4) [OF assms] by (simp add: kdf_tor_def)
  show ?thesis
    using kdf_rfc5869_stream [OF assms, of seed m n] len1 len2 tor
    by (auto simp: rfc5869_stream_def min_def simp del: upt_Suc map_append concat_append) 
qed

section \<open>Extension lists\<close>

lemma encode_extension_Inr:
  "encode_extension x = Inr bs \<longleftrightarrow> length (ext_body x) \<le> 255 \<and> bs = ext_kind x # word_of_nat (length (ext_body x)) # ext_body x"
  by (auto simp: encode_extension_def)

lemma decode_encode_fields: "encode_fields xs = Inr bs \<Longrightarrow> decode_fields (length xs) (bs @ rest) = Inr (xs, rest)"
proof (induction xs arbitrary: bs)
  case (Cons x xs)
  then obtain tail where t: "length (ext_body x) \<le> 255" "encode_fields xs = Inr tail"
    and bs: "bs = ext_kind x # word_of_nat (length (ext_body x)) # ext_body x @ tail"
    by (auto simp: encode_extension_Inr)
  then show ?case using Cons.IH [OF t(2)] by (simp add: bs slice_def)
qed simp

lemma encode_decode_fields:
  "decode_fields n bs = Inr (xs, rest) \<Longrightarrow> length xs = n \<and> (\<exists>used. encode_fields xs = Inr used \<and> bs = used @ rest)"
proof (induction n arbitrary: bs xs)
  case (Suc n)
  let ?len = "unat (bs ! 1)"
  from Suc.prems obtain ys where len: "2 + ?len \<le> length bs" and ys: "decode_fields n (drop (2 + ?len) bs) = Inr (ys, rest)"
    and xs: "xs = \<lparr>ext_kind = bs ! 0, ext_body = slice 2 (2 + ?len) bs\<rparr> # ys"
    by (auto simp: Let_def not_less split: if_splits)
  from Suc.IH [OF ys] obtain used where u: "length ys = n" "encode_fields ys = Inr used" "drop (2 + ?len) bs = used @ rest" by blast
  have body: "length (slice 2 (2 + ?len) bs) = ?len" using len by simp
  obtain a b cs where bs: "bs = a # b # cs" using len by (cases bs; cases "tl bs") auto
  have "take ?len cs = slice 2 (2 + ?len) bs" "drop ?len cs = used @ rest" using bs u(3) by (simp_all add: slice_def)
  then have "cs = slice 2 (2 + ?len) bs @ used @ rest" by (metis append_take_drop_id)
  then have "bs = (bs ! 0 # word_of_nat ?len # slice 2 (2 + ?len) bs @ used) @ rest" using bs by simp
  moreover have "encode_fields xs = Inr (bs ! 0 # word_of_nat ?len # slice 2 (2 + ?len) bs @ used)"
    using u(2) body by (simp add: xs encode_extension_def not_less)
  ultimately show ?case using u(1) xs by auto
qed simp

lemma encode_decode_extensions: "encode_extensions xs = Inr bs \<Longrightarrow> decode_extensions bs = Inr xs"
proof -
  assume "encode_extensions xs = Inr bs"
  then obtain tail where "length xs \<le> 255" "encode_fields xs = Inr tail" "bs = word_of_nat (length xs) # tail"
    by (auto simp: encode_extensions_def split: if_splits)
  then show "decode_extensions bs = Inr xs"
    using decode_encode_fields [of xs tail "[]"] by (simp add: decode_extensions_def)
qed

text \<open>
  The extension lists of the ntor-v3 handshake are read back exactly as written, and only what is
  written that way is read: an encoding is accepted for a list precisely when encoding the list gives
  it, so a missing count, a short field and trailing bytes are all refused.
\<close>

theorem extensions_roundtrip: "decode_extensions bs = Inr xs \<longleftrightarrow> encode_extensions xs = Inr bs"
proof
  assume "decode_extensions bs = Inr xs"
  then obtain count rest where bs: "bs = count # rest" and d: "decode_fields (unat count) rest = Inr (xs, [])"
    by (auto simp: decode_extensions_def split: list.splits if_splits)
  from encode_decode_fields [OF d] have "length xs = unat count" "encode_fields xs = Inr rest" by auto
  then show "encode_extensions xs = Inr bs" by (simp add: encode_extensions_def bs not_less)
qed (rule encode_decode_extensions)

section \<open>The relay's half\<close>

text \<open>What tor-spec has the relay do with a client's message, given its onion secret and a fresh one.\<close>

definition ntor_server :: "handshake_prims \<Rightarrow> bytes \<Rightarrow> bytes \<Rightarrow> bytes \<Rightarrow> bytes \<Rightarrow> (bytes \<times> circuit_keys) option" where
  "ntor_server P b y node_id skin =
     (case (x_public P b, x_public P y) of
        (Inr B, Inr Y) \<Rightarrow>
          if length skin \<noteq> CLIENT_HANDSHAKE_LEN \<or> take 20 skin \<noteq> node_id \<or> slice 20 52 skin \<noteq> B then None
          else let X = slice 52 84 skin in
            (case (x_dh P y X, x_dh P b X) of
               (Inr xy, Inr xb) \<Rightarrow>
                 let secret_input = xy @ xb @ node_id @ B @ X @ Y @ NTOR_PROTOID;
                     verify = hmac_sha256 P T_VERIFY secret_input;
                     auth = hmac_sha256 P T_MAC (verify @ node_id @ B @ Y @ X @ NTOR_PROTOID @ SERVER_STRING)
                 in map_option (\<lambda>keys. (Y @ auth, keys)) (derive_keys P (hmac_sha256 P T_KEY secret_input))
             | _ \<Rightarrow> None)
      | _ \<Rightarrow> None)"

definition v3_server ::
  "handshake_prims \<Rightarrow> bytes \<Rightarrow> bytes \<Rightarrow> bytes \<Rightarrow> bytes \<Rightarrow> bytes \<Rightarrow> extension list \<Rightarrow> (bytes \<times> circuit_keys \<times> extension list) option" where
  "v3_server P b y ident verification hdata answer =
     (case (x_public P b, x_public P y) of
        (Inr B, Inr Y) \<Rightarrow>
          if length hdata < 128 \<or> take 32 hdata \<noteq> ident \<or> slice 32 64 hdata \<noteq> B then None
          else let X = slice 64 96 hdata; n = length hdata - 32; msg_mac = drop n hdata in
            (case (x_dh P b X, x_dh P y X) of
               (Inr xb, Inr xy) \<Rightarrow>
                 let k1 = v3_kdf P (xb @ ident @ X @ B @ V3_PROTOID @ encap verification) V3_T_MSGKDF 64 in
                 if v3_mac P (drop 32 k1) (take n hdata) V3_T_MSGMAC \<noteq> msg_mac then None
                 else let secret_input = xy @ xb @ ident @ B @ X @ Y @ V3_PROTOID @ encap verification;
                          verify = v3_h P secret_input V3_T_VERIFY;
                          raw = v3_kdf P (v3_h P secret_input V3_T_KEY_SEED) V3_T_FINAL (32 + CIRCUIT_KEY_LEN)
                      in (case (decode_extensions (v3_enc P (take 32 k1) (slice 96 n hdata)), encode_extensions answer) of
                            (Inr asked, Inr message) \<Rightarrow>
                              let sealed = v3_enc P (take 32 raw) message;
                                  auth = v3_h P (verify @ ident @ B @ Y @ X @ msg_mac @ encap sealed @ V3_PROTOID @ SERVER_STRING) V3_T_AUTH
                              in Some (Y @ auth @ sealed, keys_of_stream (drop 32 raw), asked)
                          | _ \<Rightarrow> None)
             | _ \<Rightarrow> None)
      | _ \<Rightarrow> None)"

definition hs_server ::
  "handshake_prims \<Rightarrow> bytes \<Rightarrow> bytes \<Rightarrow> bytes \<Rightarrow> bytes \<Rightarrow> bytes \<Rightarrow> (introduce_keys \<times> bytes \<times> hs_circuit_keys) option" where
  "hs_server P b y auth_key subcredential X =
     (case (x_public P b, x_public P y, x_dh P b X, x_dh P y X) of
        (Inr B, Inr Y, Inr xb, Inr xy) \<Rightarrow>
          let k = shake256 P (xb @ auth_key @ X @ B @ HS_PROTOID @ T_HSENC @ M_HSEXPAND @ subcredential) 64;
              secret = xy @ xb @ auth_key @ B @ X @ Y @ HS_PROTOID;
              verify = hs_mac (hp_sha3 P) secret T_HSVERIFY;
              auth = hs_mac (hp_sha3 P) (verify @ auth_key @ B @ Y @ X @ HS_PROTOID @ SERVER_STRING) T_HSMAC
          in Some (\<lparr>intro_enc_key = take 32 k, intro_mac_key = drop 32 k\<rparr>, Y @ auth,
                   hs_derive_keys P (hs_mac (hp_sha3 P) secret T_HSENC))
      | _ \<Rightarrow> None)"

section \<open>Both sides agree\<close>

text \<open>The fields of a message at their fixed places.\<close>

lemma slice_fields:
  "length a = i \<Longrightarrow> length b = j - i \<Longrightarrow> i \<le> j \<Longrightarrow> slice i j (a @ b @ c) = b"
  by (simp add: slice_def)

text \<open>
  A client and a relay that follow the ntor handshake end with the same keys. Whatever identity the
  relay has, when its onion key and its fresh key pair are X25519 keys and the exchanges do not
  degenerate, it accepts the client's onion skin, and the client accepts its reply and derives exactly
  the relay's four keys, of 20, 20, 16 and 16 bytes.
\<close>

theorem ntor_agreement:
  assumes "prims_ok P" and "length node_id = 20" and "x_public P b = Inr B" and "x_public P y = Inr Y"
    and "ntor_new P (Inr x) node_id B = Inr (cl, skin)" and "x_dh P x B = Inr xb" and "x_dh P x Y = Inr xy"
  shows "\<exists>reply keys. ntor_server P b y node_id skin = Some (reply, keys) \<and> ntor_finish P cl reply = Some (Inr keys) \<and>
     length (df keys) = 20 \<and> length (db keys) = 20 \<and> length (kf keys) = 16 \<and> length (kb keys) = 16"
proof -
  obtain X where X: "x_public P x = Inr X"
    and cl: "cl = \<lparr>nt_secret = x, nt_x_pub = X, nt_node_id = node_id, nt_onion_key = B\<rparr>"
    and skin: "skin = node_id @ B @ X"
    using assms(5) by (auto simp: ntor_new_def)
  have len: "length X = 32" "length B = 32" "length Y = 32" using prims_okD(1) [OF assms(1)] X assms(3,4) by auto
  have dh: "x_dh P b X = Inr xb" "x_dh P y X = Inr xy" using prims_okD(2) [OF assms(1)] X assms(3,4,6,7) by blast+
  let ?si = "xy @ xb @ node_id @ B @ X @ Y @ NTOR_PROTOID"
  let ?auth = "hmac_sha256 P T_MAC (hmac_sha256 P T_VERIFY ?si @ node_id @ B @ Y @ X @ NTOR_PROTOID @ SERVER_STRING)"
  obtain keys where k: "derive_keys P (hmac_sha256 P T_KEY ?si) = Some keys"
    and lens: "length (df keys) = 20" "length (db keys) = 20" "length (kf keys) = 16" "length (kb keys) = 16"
  proof -
    have "length (take 72 (rfc5869_stream (hmac_sha256 P (hmac_sha256 P T_KEY ?si)) M_EXPAND 3)) = 72"
      using length_rfc5869_stream [OF prims_okD(3) [OF assms(1)]] by simp
    then show thesis
      using that kdf_rfc5869_stream [OF assms(1), of "hmac_sha256 P T_KEY ?si" M_EXPAND 72] by (simp add: derive_keys_def)
  qed
  have fields: "take 20 skin = node_id" "slice 20 52 skin = B" "slice 52 84 skin = X"
    using len assms(2) slice_fields [of node_id 20 B 52 X] slice_fields [of "node_id @ B" 52 X 84 "[]"] by (simp_all add: skin)
  have server: "ntor_server P b y node_id skin = Some (Y @ ?auth, keys)"
    using assms(2-4) len dh k fields by (simp add: ntor_server_def CLIENT_HANDSHAKE_LEN_def Let_def skin)
  have reply: "slice 0 32 (Y @ ?auth) = Y" "slice 32 64 (Y @ ?auth) = ?auth"
    using len prims_okD(3) [OF assms(1)] by (simp_all add: slice_def)
  have "ntor_finish P cl (Y @ ?auth) = Some (Inr keys)"
    using reply assms(6,7) k len prims_okD(3) [OF assms(1)]
    by (simp add: ntor_finish_def SERVER_HANDSHAKE_LEN_def Let_def cl ntor_secret_input_def ntor_auth_def)
  then show ?thesis using server lens by blast
qed

text \<open>
  A client and a relay that follow ntor-v3 exchange their extensions and end with the same keys: the
  relay accepts the client's message and reads exactly the extensions the client attached, and the
  client accepts the relay's reply, reads exactly the extensions the relay answered with, and derives
  the relay's keys. The same keys come out whatever extensions either side sends.
\<close>

theorem ntor_v3_agreement:
  assumes "prims_ok P" and "length ident = 32" and "x_public P b = Inr B" and "x_public P y = Inr Y"
    and "v3_new P (Inr x) ident B asked = Inr (cl, hdata)" and "x_dh P x Y = Inr xy"
    and "encode_extensions answer = Inr message"
  shows "\<exists>reply keys. v3_server P b y ident CIRC_VERIFICATION hdata answer = Some (reply, keys, asked) \<and>
     v3_finish P cl reply = Inr (keys, answer)"
proof -
  obtain msg X xb where msg: "encode_extensions asked = Inr msg" and X: "x_public P x = Inr X" and xb: "x_dh P x B = Inr xb"
    using assms(5) by (auto simp: v3_new_def v3_build_def Let_def)
  define k1 where "k1 = v3_kdf P (v3_phase1_input xb ident X B CIRC_VERIFICATION) V3_T_MSGKDF 64"
  define m where "m = v3_mac P (slice 32 64 k1) (ident @ B @ X @ v3_enc P (take 32 k1) msg) V3_T_MSGMAC"
  have cl: "cl = \<lparr>v3_secret = x, v3_x_pub = X, v3_id = ident, v3_b_pub = B, v3_exp_bx = xb, v3_msg_mac = m,
      v3_verification = CIRC_VERIFICATION\<rparr>"
    and hdata: "hdata = (ident @ B @ X @ v3_enc P (take 32 k1) msg) @ m"
    using assms(5) msg X xb by (simp_all add: v3_new_def v3_build_def Let_def k1_def m_def)
  have len: "length X = 32" "length B = 32" "length Y = 32" using prims_okD(1) [OF assms(1)] X assms(3,4) by auto
  have dh: "x_dh P b X = Inr xb" "x_dh P y X = Inr xy" using prims_okD(2) [OF assms(1)] X assms(3,4,6) xb by blast+
  have lm: "length m = 32" and lk: "length k1 = 64" and lenc: "length (v3_enc P (take 32 k1) msg) = length msg"
    using prims_okD(5,6,8) [OF assms(1)] by (simp_all add: m_def k1_def v3_mac_def v3_kdf_def v3_enc_def)
  have n: "length hdata - 32 = length (ident @ B @ X @ v3_enc P (take 32 k1) msg)" using lm by (simp add: hdata)
  have f1: "take 32 hdata = ident" "slice 32 64 hdata = B" "slice 64 96 hdata = X"
    using assms(2) len by (simp_all add: hdata slice_def)
  have f2: "take (length hdata - 32) hdata = ident @ B @ X @ v3_enc P (take 32 k1) msg" "drop (length hdata - 32) hdata = m"
    unfolding n by (simp_all add: hdata)
  have f3: "slice 96 (length hdata - 32) hdata = v3_enc P (take 32 k1) msg"
    using assms(2) len by (simp add: n) (simp add: hdata slice_def)
  have k1_server: "v3_kdf P (xb @ ident @ X @ B @ V3_PROTOID @ encap CIRC_VERIFICATION) V3_T_MSGKDF 64 = k1"
    by (simp add: k1_def v3_phase1_input_def)
  have mac: "v3_mac P (drop 32 k1) (ident @ B @ X @ v3_enc P (take 32 k1) msg) V3_T_MSGMAC = m"
    using lk by (simp add: m_def slice_def)
  have asked: "decode_extensions (v3_enc P (take 32 k1) (v3_enc P (take 32 k1) msg)) = Inr asked"
    using msg prims_okD(7) [OF assms(1)] encode_decode_extensions by (simp add: v3_enc_def)
  let ?si = "xy @ xb @ ident @ B @ X @ Y @ V3_PROTOID @ encap CIRC_VERIFICATION"
  define raw where "raw = v3_kdf P (v3_h P ?si V3_T_KEY_SEED) V3_T_FINAL (32 + CIRCUIT_KEY_LEN)"
  define sealed where "sealed = v3_enc P (take 32 raw) message"
  define auth where "auth = v3_h P (v3_h P ?si V3_T_VERIFY @ ident @ B @ Y @ X @ m @ encap sealed @ V3_PROTOID @ SERVER_STRING) V3_T_AUTH"
  have "128 \<le> length hdata" using assms(2) len lm by (simp add: hdata)
  then have server: "v3_server P b y ident CIRC_VERIFICATION hdata answer = Some (Y @ auth @ sealed, keys_of_stream (drop 32 raw), asked)"
    using assms(3,4,7) dh f1 f2 f3 mac asked
    by (simp add: v3_server_def Let_def k1_server raw_def sealed_def auth_def)
  have la: "length auth = 32" using prims_okD(5) [OF assms(1)] by (simp add: auth_def v3_h_def)
  have reply: "take 32 (Y @ auth @ sealed) = Y" "slice 32 64 (Y @ auth @ sealed) = auth" "drop 64 (Y @ auth @ sealed) = sealed"
    using len la by (simp_all add: slice_def)
  have "v3_enc P (take 32 raw) sealed = message" using prims_okD(7) [OF assms(1)] by (simp add: sealed_def v3_enc_def)
  then have "v3_complete P cl (Y @ auth @ sealed) CIRCUIT_KEY_LEN = Inr (drop 32 raw, message)"
    using reply assms(6) len la
    by (simp add: v3_complete_def SERVER_REPLY_PREFIX_LEN_def Let_def cl v3_secret_input_def v3_auth_def raw_def auth_def)
  moreover have "decode_extensions message = Inr answer" using assms(7) encode_decode_extensions by simp
  ultimately show ?thesis using server by (simp add: v3_finish_def)
qed

text \<open>
  A client and an onion service that follow hs-ntor agree in both stages: the keys the client
  encrypts its introduction with are the ones the service derives from the client's public key and the
  subcredential, and from the service's reply the client derives exactly the service's four 32-byte
  keys for the rendezvous circuit.
\<close>

theorem hs_ntor_agreement:
  assumes "prims_ok P" and "x_public P b = Inr B" and "x_public P y = Inr Y"
    and "hs_ntor_new P (Inr x) auth_key B = Inr cl" and "x_dh P x Y = Inr xy"
  shows "\<exists>reply keys. hs_server P b y auth_key subcredential (hs_x_pub cl) = Some (introduce_keys_for P cl subcredential, reply, keys) \<and>
     hs_ntor_finish P cl reply = Inr keys \<and>
     length (hs_df keys) = 32 \<and> length (hs_db keys) = 32 \<and> length (hs_kf keys) = 32 \<and> length (hs_kb keys) = 32"
proof -
  obtain X xb where X: "x_public P x = Inr X" and xb: "x_dh P x B = Inr xb"
    and cl: "cl = \<lparr>hs_secret = x, hs_x_pub = X, hs_auth_key = auth_key, hs_enc_key = B, hs_exp_bx = xb\<rparr>"
    using assms(4) by (auto simp: hs_ntor_new_def)
  have len: "length X = 32" "length B = 32" "length Y = 32" using prims_okD(1) [OF assms(1)] X assms(2,3) by auto
  have dh: "x_dh P b X = Inr xb" "x_dh P y X = Inr xy" using prims_okD(2) [OF assms(1)] X assms(2,3,5) xb by blast+
  let ?s = "xy @ xb @ auth_key @ B @ X @ Y @ HS_PROTOID"
  let ?auth = "hs_mac (hp_sha3 P) (hs_mac (hp_sha3 P) ?s T_HSVERIFY @ auth_key @ B @ Y @ X @ HS_PROTOID @ SERVER_STRING) T_HSMAC"
  let ?keys = "hs_derive_keys P (hs_mac (hp_sha3 P) ?s T_HSENC)"
  have server: "hs_server P b y auth_key subcredential (hs_x_pub cl) = Some (introduce_keys_for P cl subcredential, Y @ ?auth, ?keys)"
    using assms(2,3) dh by (simp add: hs_server_def Let_def cl introduce_keys_for_def intro_key_input_def)
  have la: "length ?auth = 32" using prims_okD(5) [OF assms(1)] by (simp add: hs_mac_def)
  have reply: "take 32 (Y @ ?auth) = Y" "slice 32 64 (Y @ ?auth) = ?auth" using len la by (simp_all add: slice_def)
  have "hs_ntor_finish P cl (Y @ ?auth) = Inr ?keys"
    using reply assms(5) len la by (simp add: hs_ntor_finish_def SERVER_HANDSHAKE_LEN_def Let_def cl rend_secret_def hs_auth_def)
  moreover have "length (hs_df ?keys) = 32" "length (hs_db ?keys) = 32" "length (hs_kf ?keys) = 32" "length (hs_kb ?keys) = 32"
    using prims_okD(6) [OF assms(1)] by (simp_all add: hs_derive_keys_def Let_def)
  ultimately show ?thesis using server by blast
qed

section \<open>Concrete primitives\<close>

definition pad :: "nat \<Rightarrow> bytes \<Rightarrow> bytes" where
  "pad n m = take n (m @ replicate n 0)"

definition demo_prims :: handshake_prims where
  "demo_prims = \<lparr>
     x_public = (\<lambda>a. if length a = 32 then Inr a else Inl (invalid_data [])),
     x_dh = (\<lambda>a B. if length a = 32 \<and> length B = 32 then Inr (map2 (XOR) a B) else Inl (invalid_data [])),
     hmac_sha256 = (\<lambda>k m. pad 32 (m @ k)), hp_sha1 = pad 20, hp_sha3 = pad 32, shake256 = (\<lambda>m n. pad n m),
     aes256_ctr = (\<lambda>k. map (\<lambda>x. x XOR 90))\<rparr>"

lemma map2_xor_commute: "map2 (XOR) a b = map2 (XOR) b (a :: bytes)"
  by (induction a b rule: list_induct2') (simp_all add: xor.commute)

lemma demo_prims_ok: "prims_ok demo_prims"
  by (auto simp: prims_ok_def demo_prims_def pad_def map2_xor_commute xor.assoc comp_def split: if_splits)

lemma demo_exchange:
  "x_public demo_prims (replicate 32 n) = Inr (replicate 32 n)"
  "\<exists>s. x_dh demo_prims (replicate 32 n) (replicate 32 k) = Inr s"
  by (simp_all add: demo_prims_def)

lemma v3_new_returns:
  "x_public P x = Inr X \<Longrightarrow> x_dh P x B = Inr s \<Longrightarrow> encode_extensions exts = Inr msg \<Longrightarrow>
   \<exists>cl hdata. v3_new P (Inr x) ident B exts = Inr (cl, hdata)"
  by (simp add: v3_new_def v3_build_def Let_def)

theorem key_derivation_ends_witness:
  "\<exists>out out'. kdf_rfc5869 demo_prims [1] M_EXPAND 72 = Some out \<and> length out = 72 \<and> kdf_tor demo_prims [2] 92 = Some out' \<and> length out' = 92"
  using key_derivation_ends [OF demo_prims_ok, of "[1]" M_EXPAND 72] key_derivation_ends [OF demo_prims_ok, where n = 92 and ?k0.0 = "[2]"]
  by auto

end
