(* ===== verification/Certificates.thy ===== *)
theory Certificates
  imports Handshakes
begin

text \<open>
  Tor's Ed25519 certificates and the CERTS cell of \<^verbatim>\<open>certs.rs\<close>: parsing both, and the check that
  ties a TLS connection to a relay's Ed25519 identity. Signature verification is OpenSSL's and an
  argument; times are seconds since the Unix epoch.
\<close>

section \<open>Certificates\<close>

definition CERT_TYPE_IDENTITY_V_SIGNING :: u8 where "CERT_TYPE_IDENTITY_V_SIGNING = 4"
definition CERT_TYPE_SIGNING_V_TLS :: u8 where "CERT_TYPE_SIGNING_V_TLS = 5"
definition CERT_TYPE_HS_DESC_SIGN :: u8 where "CERT_TYPE_HS_DESC_SIGN = 8"
definition CERT_TYPE_HS_INTRO_AUTH :: u8 where "CERT_TYPE_HS_INTRO_AUTH = 9"
definition CERT_TYPE_HS_INTRO_ENC :: u8 where "CERT_TYPE_HS_INTRO_ENC = 11"
definition KEY_TYPE_ED25519 :: u8 where "KEY_TYPE_ED25519 = 1"
definition KEY_TYPE_SHA256_OF_X509 :: u8 where "KEY_TYPE_SHA256_OF_X509 = 3"
definition EXT_TYPE_SIGNED_WITH_ED25519 :: u8 where "EXT_TYPE_SIGNED_WITH_ED25519 = 4"
definition EXT_FLAG_AFFECTS_VALIDATION :: u8 where "EXT_FLAG_AFFECTS_VALIDATION = 1"

record ed25519_cert =
  cert_type :: u8
  expiration_hours :: nat
  cert_key_type :: u8
  certified_key :: bytes
  signing_key :: "bytes option"
  signed_portion :: bytes
  cert_signature :: bytes

text \<open>
  The extensions from \<open>pos\<close> on. The lengths are 16-bit, so the checked addition of the source never
  overflows.
\<close>

fun cert_extensions :: "nat \<Rightarrow> bytes \<Rightarrow> nat \<Rightarrow> bytes option \<Rightarrow> (nat \<times> bytes option) io_result" where
  "cert_extensions 0 bs pos key = Inr (pos, key)"
| "cert_extensions (Suc n) bs pos key =
     (if length bs < pos + 4 then Inl (invalid_data ''truncated certificate extension header'')
      else let ext_len = u16_from_be (bs ! pos) (bs ! (pos + 1));
               ext_type = bs ! (pos + 2);
               ext_flags = bs ! (pos + 3);
               body_end = pos + 4 + ext_len
           in if length bs < body_end then Inl (invalid_data ''certificate extension runs past end'')
              else if ext_type = EXT_TYPE_SIGNED_WITH_ED25519
              then if ext_len \<noteq> 32 then Inl (invalid_data ''signed-with-ed25519-key must be 32 bytes'')
                   else cert_extensions n bs body_end (Some (slice (pos + 4) body_end bs))
              else if ext_flags AND EXT_FLAG_AFFECTS_VALIDATION \<noteq> 0
              then Inl (invalid_data ''unrecognized critical certificate extension'')
              else cert_extensions n bs body_end key)"

definition ed_cert_parse :: "bytes \<Rightarrow> ed25519_cert io_result" where
  "ed_cert_parse bs =
     (if length bs < 40 then Inl (invalid_data ''ed25519 certificate too short'')
      else if bs ! 0 \<noteq> 1 then Inl (invalid_data ''unsupported certificate version'')
      else and_then (cert_extensions (unat (bs ! 39)) bs 40 None) (\<lambda>(pos, key).
        if pos + 64 \<noteq> length bs then Inl (invalid_data ''certificate length does not match signature'')
        else Inr \<lparr>cert_type = bs ! 1, expiration_hours = u32_from_be (bs ! 2) (bs ! 3) (bs ! 4) (bs ! 5),
                  cert_key_type = bs ! 6, certified_key = slice 7 39 bs, signing_key = key,
                  signed_portion = take pos bs, cert_signature = drop pos bs\<rparr>))"

type_synonym verifier = "bytes \<Rightarrow> bytes \<Rightarrow> bytes \<Rightarrow> bool"

definition check_signature :: "verifier \<Rightarrow> bytes \<Rightarrow> ed25519_cert \<Rightarrow> bool" where
  "check_signature verify key c = verify key (signed_portion c) (cert_signature c)"

definition expires_at_unix :: "ed25519_cert \<Rightarrow> nat" where
  "expires_at_unix c = expiration_hours c * 3600"

definition is_expired :: "nat \<Rightarrow> ed25519_cert \<Rightarrow> bool" where
  "is_expired now_unix c \<longleftrightarrow> expires_at_unix c \<le> now_unix"

section \<open>The CERTS cell\<close>

fun certs_entries :: "nat \<Rightarrow> bytes \<Rightarrow> (u8 \<times> bytes) list io_result" where
  "certs_entries 0 rest = Inr []"
| "certs_entries (Suc n) rest =
     (if length rest < 3 then Inl (invalid_data ''truncated CERTS entry header'')
      else let len = u16_from_be (rest ! 1) (rest ! 2) in
        if length rest < 3 + len then Inl (invalid_data ''CERTS entry runs past end of cell'')
        else and_then (certs_entries n (drop (3 + len) rest)) (\<lambda>es. Inr ((rest ! 0, slice 3 (3 + len) rest) # es)))"

definition certs_parse :: "bytes \<Rightarrow> (u8 \<times> bytes) list io_result" where
  "certs_parse bs =
     (case bs of [] \<Rightarrow> Inl (invalid_data ''empty CERTS cell'') | count # rest \<Rightarrow> certs_entries (unat count) rest)"

fun unique_loop :: "u8 \<Rightarrow> bytes option \<Rightarrow> (u8 \<times> bytes) list \<Rightarrow> bytes option io_result" where
  "unique_loop t found [] = Inr found"
| "unique_loop t found ((t', cert) # es) =
     (if t' = t
      then if found \<noteq> None then Inl (invalid_data ''CERTS cell has more than one certificate of a type'')
           else unique_loop t (Some cert) es
      else unique_loop t found es)"

definition unique_cert :: "u8 \<Rightarrow> (u8 \<times> bytes) list \<Rightarrow> bytes io_result" where
  "unique_cert t es =
     and_then (unique_loop t None es) (\<lambda>found. ok_or (invalid_data ''CERTS cell has no certificate of a type'') found)"

definition check :: "bool \<Rightarrow> string \<Rightarrow> unit io_result" where
  "check ok msg = (if ok then Inr () else Inl (invalid_data msg))"

definition validate_responder :: "verifier \<Rightarrow> (u8 \<times> bytes) list \<Rightarrow> bytes \<Rightarrow> nat \<Rightarrow> bytes io_result" where
  "validate_responder verify es tls_cert_sha256 now_unix =
     and_then (unique_cert CERT_TYPE_IDENTITY_V_SIGNING es) (\<lambda>id_bytes.
     and_then (ed_cert_parse id_bytes) (\<lambda>id_cert.
     and_then (check (cert_type id_cert = CERT_TYPE_IDENTITY_V_SIGNING) ''type 4 certificate has the wrong CERT_TYPE'') (\<lambda>_.
     and_then (check (cert_key_type id_cert = KEY_TYPE_ED25519) ''type 4 certificate does not certify an Ed25519 key'') (\<lambda>_.
     and_then (ok_or (invalid_data ''type 4 certificate has no signed-with-ed25519-key'') (signing_key id_cert)) (\<lambda>ident.
     and_then (check (check_signature verify ident id_cert) ''type 4 certificate is not correctly self-signed'') (\<lambda>_.
     and_then (check (\<not> is_expired now_unix id_cert) ''type 4 certificate expired'') (\<lambda>_.
     and_then (unique_cert CERT_TYPE_SIGNING_V_TLS es) (\<lambda>tls_bytes.
     and_then (ed_cert_parse tls_bytes) (\<lambda>tls_cert.
     and_then (check (cert_type tls_cert = CERT_TYPE_SIGNING_V_TLS) ''type 5 certificate has the wrong CERT_TYPE'') (\<lambda>_.
     and_then (check (cert_key_type tls_cert = KEY_TYPE_SHA256_OF_X509) ''type 5 certificate does not certify an X.509 digest'') (\<lambda>_.
     and_then (check (check_signature verify (certified_key id_cert) tls_cert) ''type 5 certificate is not signed by the relay signing key'') (\<lambda>_.
     and_then (check (\<not> is_expired now_unix tls_cert) ''type 5 certificate expired'') (\<lambda>_.
     and_then (check (constant_time_eq (certified_key tls_cert) tls_cert_sha256) ''type 5 certificate does not certify the TLS certificate we saw'') (\<lambda>_.
       Inr ident))))))))))))))"

lemma check_Inr [simp]: "check ok msg = Inr u \<longleftrightarrow> ok"
  by (simp add: check_def)

section \<open>What a parsed certificate looks like\<close>

lemma cert_extensions_wf:
  "cert_extensions n bs pos key = Inr (pos', key') \<Longrightarrow> pos \<le> length bs \<Longrightarrow>
   pos \<le> pos' \<and> pos' \<le> length bs \<and>
   (key' = key \<or> (\<exists>i. i + 32 \<le> pos' \<and> key' = Some (slice i (i + 32) bs)))"
proof (induction n bs pos key rule: cert_extensions.induct)
  case (2 n bs pos key)
  let ?len = "u16_from_be (bs ! pos) (bs ! (pos + 1))" and ?fin = "pos + 4 + u16_from_be (bs ! pos) (bs ! (pos + 1))"
  from "2.prems"(1) have fits: "\<not> length bs < pos + 4" "\<not> length bs < ?fin" by (auto simp: Let_def split: if_splits)
  show ?case
  proof (cases "bs ! (pos + 2) = EXT_TYPE_SIGNED_WITH_ED25519")
    case True
    then have len: "?len = 32" and rec: "cert_extensions n bs ?fin (Some (slice (pos + 4) ?fin bs)) = Inr (pos', key')"
      using "2.prems"(1) fits by (auto simp: Let_def split: if_splits)
    have e: "?fin = pos + 36" using len by simp
    have ih: "pos + 36 \<le> pos' \<and> pos' \<le> length bs \<and> (key' = Some (slice (pos + 4) (pos + 36) bs) \<or>
        (\<exists>i. i + 32 \<le> pos' \<and> key' = Some (slice i (i + 32) bs)))"
      using "2.IH"(1) [OF fits(1) refl refl refl refl fits(2) True _ rec] len fits(2) unfolding e by simp
    then have le: "pos \<le> pos'" "pos' \<le> length bs" by auto
    from ih have "\<exists>i. i + 32 \<le> pos' \<and> key' = Some (slice i (i + 32) bs)"
    proof (elim conjE disjE exE)
      assume "key' = Some (slice (pos + 4) (pos + 36) bs)" "pos + 36 \<le> pos'"
      then show ?thesis by (intro exI [of _ "pos + 4"]) (simp add: add.commute)
    next
      fix i assume "i + 32 \<le> pos'" "key' = Some (slice i (i + 32) bs)"
      then show ?thesis by (intro exI [of _ i]) simp
    qed
    then show ?thesis using le by blast
  next
    case False
    then have crit: "\<not> bs ! (pos + 3) AND EXT_FLAG_AFFECTS_VALIDATION \<noteq> 0" and rec: "cert_extensions n bs ?fin key = Inr (pos', key')"
      using "2.prems"(1) fits by (auto simp: Let_def split: if_splits)
    show ?thesis using "2.IH"(2) [OF fits(1) refl refl refl refl fits(2) False crit rec] fits(2) by auto
  qed
qed simp

lemma take_slice_split:
  assumes "i + k \<le> p"
  shows "take p bs = take i bs @ slice i (i + k) bs @ drop (i + k) (take p bs)"
proof -
  let ?s = "take p bs"
  have "?s = take i ?s @ take k (drop i ?s) @ drop k (drop i ?s)" by (simp only: append_take_drop_id)
  moreover have "take i ?s = take i bs" "take k (drop i ?s) = slice i (i + k) bs"
    using assms by (simp_all add: slice_def drop_take min_def)
  ultimately show ?thesis by (simp add: add.commute)
qed

lemma list_7:
  assumes "7 \<le> length bs"
  shows "bs = [bs ! 0, bs ! 1, bs ! 2, bs ! 3, bs ! 4, bs ! 5, bs ! 6] @ drop 7 bs"
proof -
  have "take 7 bs = map ((!) bs) [0..<7]" using assms by (intro nth_equalityI) simp_all
  also have "[0..<7] = [0, 1, 2, 3, 4, 5, 6]" by (simp add: upt_rec)
  finally show ?thesis using append_take_drop_id [of 7 bs] by simp
qed

text \<open>
  C32: A certificate that parses is well formed: its keys are 32 bytes and its signature 64, its expiry is
  a 32-bit number of hours, what the signature covers is everything in front of the signature and
  starts with the version, the type, the expiry, the key type and the certified key in this order,
  and the signing key is taken from it too, so no field a caller relies on lies outside the signed
  part.
\<close>

theorem cert_well_formed:
  assumes "ed_cert_parse bs = Inr c"
  shows "bs = signed_portion c @ cert_signature c \<and> length (cert_signature c) = 64 \<and> length (certified_key c) = 32 \<and>
     expiration_hours c \<le> u32_max \<and>
     (\<forall>k. signing_key c = Some k \<longrightarrow> length k = 32 \<and> (\<exists>a b. signed_portion c = a @ k @ b)) \<and>
     (\<exists>rest. signed_portion c = [1, cert_type c] @ u32_to_be (expiration_hours c) @ [cert_key_type c] @ certified_key c @ rest)"
proof -
  from assms obtain pos key where len: "40 \<le> length bs" and one: "bs ! 0 = 1"
    and ext: "cert_extensions (unat (bs ! 39)) bs 40 None = Inr (pos, key)" and pos: "pos + 64 = length bs"
    and c: "c = \<lparr>cert_type = bs ! 1, expiration_hours = u32_from_be (bs ! 2) (bs ! 3) (bs ! 4) (bs ! 5),
        cert_key_type = bs ! 6, certified_key = slice 7 39 bs, signing_key = key,
        signed_portion = take pos bs, cert_signature = drop pos bs\<rparr>"
    by (auto simp: ed_cert_parse_def not_less split: if_splits)
  have wf: "40 \<le> pos" "pos \<le> length bs" "key = None \<or> (\<exists>i. i + 32 \<le> pos \<and> key = Some (slice i (i + 32) bs))"
    using cert_extensions_wf [OF ext len] by auto
  have "length k = 32 \<and> (\<exists>a b. take pos bs = a @ k @ b)" if k: "key = Some k" for k
  proof -
    obtain i where i: "i + 32 \<le> pos" "k = slice i (i + 32) bs" using wf(3) k by auto
    have "take pos bs = take i bs @ k @ drop (i + 32) (take pos bs)" using take_slice_split [OF i(1), of bs] i(2) by simp
    then show ?thesis using i wf(2) by auto
  qed
  moreover have "take pos bs = [1, bs ! 1] @ u32_to_be (expiration_hours c) @ [bs ! 6] @ slice 7 39 bs @ drop 39 (take pos bs)"
  proof -
    let ?s = "take pos bs"
    have "?s = [?s ! 0, ?s ! 1, ?s ! 2, ?s ! 3, ?s ! 4, ?s ! 5, ?s ! 6] @ drop 7 ?s"
      using wf(1,2) by (intro list_7) simp
    moreover have "drop 7 ?s = slice 7 39 bs @ drop 39 ?s"
    proof -
      have "drop 7 ?s = take 32 (drop 7 ?s) @ drop 32 (drop 7 ?s)" by (simp only: append_take_drop_id)
      moreover have "take 32 (drop 7 ?s) = slice 7 39 bs" using wf(1) by (simp add: slice_def drop_take min_def)
      ultimately show ?thesis by simp
    qed
    ultimately show ?thesis using wf(1) one by (simp add: c)
  qed
  ultimately show ?thesis using wf pos len by (auto simp: c)
qed

lemma ed_cert_parse_key: "ed_cert_parse bs = Inr c \<Longrightarrow> length (certified_key c) = 32"
  by (auto simp: ed_cert_parse_def split: if_splits)

section \<open>Authenticating a relay\<close>

lemma unique_loop_Inr:
  "unique_loop t found es = Inr r \<longleftrightarrow>
     (case (found, map snd (filter (\<lambda>(t', _). t' = t) es)) of
        (None, []) \<Rightarrow> r = None
      | (None, [b]) \<Rightarrow> r = Some b
      | (Some b, []) \<Rightarrow> r = Some b
      | _ \<Rightarrow> False)"
  by (induction t found es rule: unique_loop.induct) (auto split: option.splits list.splits)

lemma unique_cert_Inr: "unique_cert t es = Inr b \<longleftrightarrow> map snd (filter (\<lambda>(t', _). t' = t) es) = [b]"
  by (auto simp: unique_cert_def unique_loop_Inr split: list.splits)

definition certs_of_type :: "u8 \<Rightarrow> (u8 \<times> bytes) list \<Rightarrow> bytes list" where
  "certs_of_type t es = map snd (filter (\<lambda>(t', _). t' = t) es)"

text \<open>
  A responder is taken to be the relay with a given Ed25519 identity exactly when its CERTS cell has
  one certificate of type 4 and one of type 5, both parse, are of their types and unexpired, the
  first is signed by the identity key it carries and certifies the relay's signing key, and the second
  is signed by that signing key and certifies the TLS certificate that was seen.
\<close>

theorem responder_authenticated:
  "validate_responder verify es tls now = Inr ident \<longleftrightarrow>
     (\<exists>id_bytes tls_bytes id_cert tls_cert.
        certs_of_type CERT_TYPE_IDENTITY_V_SIGNING es = [id_bytes] \<and> certs_of_type CERT_TYPE_SIGNING_V_TLS es = [tls_bytes] \<and>
        ed_cert_parse id_bytes = Inr id_cert \<and> ed_cert_parse tls_bytes = Inr tls_cert \<and>
        cert_type id_cert = CERT_TYPE_IDENTITY_V_SIGNING \<and> cert_key_type id_cert = KEY_TYPE_ED25519 \<and>
        cert_type tls_cert = CERT_TYPE_SIGNING_V_TLS \<and> cert_key_type tls_cert = KEY_TYPE_SHA256_OF_X509 \<and>
        now < expiration_hours id_cert * 3600 \<and> now < expiration_hours tls_cert * 3600 \<and>
        signing_key id_cert = Some ident \<and> verify ident (signed_portion id_cert) (cert_signature id_cert) \<and>
        verify (certified_key id_cert) (signed_portion tls_cert) (cert_signature tls_cert) \<and>
        certified_key tls_cert = tls)"
  by (auto simp: validate_responder_def unique_cert_Inr certs_of_type_def check_signature_def is_expired_def expires_at_unix_def not_le)

section \<open>Certificates as they are written\<close>

definition cert_bytes :: "u8 \<Rightarrow> nat \<Rightarrow> u8 \<Rightarrow> bytes \<Rightarrow> bytes option \<Rightarrow> bytes \<Rightarrow> bytes" where
  "cert_bytes t hours key_type key signer sig =
     [1, t] @ u32_to_be hours @ [key_type] @ key @
     (case signer of None \<Rightarrow> [0] | Some k \<Rightarrow> [1, 0, 32, EXT_TYPE_SIGNED_WITH_ED25519, 0] @ k) @ sig"

lemma ed_cert_parse_bytes:
  assumes "hours \<le> u32_max" "length key = 32" "length sig = 64" "\<forall>k. signer = Some k \<longrightarrow> length k = 32"
  shows "ed_cert_parse (cert_bytes t hours key_type key signer sig) =
    Inr \<lparr>cert_type = t, expiration_hours = hours, cert_key_type = key_type, certified_key = key, signing_key = signer,
         signed_portion = take (length (cert_bytes t hours key_type key signer sig) - 64) (cert_bytes t hours key_type key signer sig),
         cert_signature = sig\<rparr>"
proof -
  let ?ext = "case signer of None \<Rightarrow> [0] | Some k \<Rightarrow> [1, 0, 32, EXT_TYPE_SIGNED_WITH_ED25519, 0] @ k"
  define pre where "pre = [1, t] @ u32_to_be hours @ [key_type] @ key"
  have bs: "cert_bytes t hours key_type key signer sig = pre @ ?ext @ sig" by (simp add: cert_bytes_def pre_def)
  have len: "length pre = 39" using assms(2) by (simp add: pre_def u32_to_be_def)
  have at: "(pre @ r) ! 0 = 1" "(pre @ r) ! 1 = t" "(pre @ r) ! 6 = key_type" "slice 7 39 (pre @ r) = key"
    "u32_from_be ((pre @ r) ! 2) ((pre @ r) ! 3) ((pre @ r) ! 4) ((pre @ r) ! 5) = hours" for r
    using assms(1,2) by (simp_all add: pre_def u32_to_be_def slice_def u32_be_roundtrip nth_append)
  have after: "(pre @ r) ! (39 + i) = r ! i" "drop (39 + i) (pre @ r) = drop i r" for r i
    using len by (simp_all add: nth_append)
  show ?thesis
  proof (cases signer)
    case None
    then have "cert_extensions (unat ((pre @ ?ext @ sig) ! 39)) (pre @ ?ext @ sig) 40 None = Inr (40, None)"
      using after(1) [where r = "?ext @ sig" and i = 0] by simp
    then show ?thesis unfolding bs ed_cert_parse_def
      using None len assms(3) at [where r = "?ext @ sig"] after(2) [where r = "?ext @ sig" and i = 1] by simp
  next
    case (Some k)
    let ?r = "[1, 0, 32, EXT_TYPE_SIGNED_WITH_ED25519, 0] @ k @ sig"
    have k: "length k = 32" using assms(4) Some by simp
    have n: "(pre @ ?r) ! 39 = 1" "(pre @ ?r) ! 40 = 0" "(pre @ ?r) ! 41 = 32" "(pre @ ?r) ! 42 = EXT_TYPE_SIGNED_WITH_ED25519"
      using after(1) [where r = ?r and i = 0] after(1) [where r = ?r and i = 1] after(1) [where r = ?r and i = 2] after(1) [where r = ?r and i = 3] by simp_all
    have "slice 44 76 (pre @ ?r) = k" using after(2) [where r = ?r and i = 5] k by (simp add: slice_def)
    then have "cert_extensions (unat ((pre @ ?r) ! 39)) (pre @ ?r) 40 None = Inr (76, Some k)"
      using n len k by (simp add: u16_from_be_def Let_def)
    then show ?thesis unfolding bs ed_cert_parse_def
      using Some len assms(3) at [where r = ?r] after(2) [where r = ?r and i = 37] k by simp
  qed
qed

definition demo_cert :: bytes where
  "demo_cert = cert_bytes CERT_TYPE_IDENTITY_V_SIGNING 500000 KEY_TYPE_ED25519 (replicate 32 7) (Some (replicate 32 9)) (replicate 64 0)"

theorem cert_well_formed_witness:
  "\<exists>c. ed_cert_parse demo_cert = Inr c \<and> demo_cert = signed_portion c @ cert_signature c \<and> length (cert_signature c) = 64 \<and>
     signing_key c = Some (replicate 32 9)"
proof -
  have "\<exists>c. ed_cert_parse demo_cert = Inr c \<and> signing_key c = Some (replicate 32 9)"
    unfolding demo_cert_def by (subst ed_cert_parse_bytes) simp_all
  then obtain c where c: "ed_cert_parse demo_cert = Inr c" "signing_key c = Some (replicate 32 9)" by blast
  with cert_well_formed [OF c(1)] show ?thesis by blast
qed

end
