(* ===== verification/Link_Handshake.thy ===== *)
theory Link_Handshake
  imports Link_Channel Certificates
begin

text \<open>
  Opening a channel: \<^verbatim>\<open>Channel::connect\<close> and \<^verbatim>\<open>read_responder_handshake\<close> of \<^verbatim>\<open>channel.rs\<close>, over the bytes the relay
  sends inside TLS. The result is what was written and the channel with the identity that was proved. The main
  result: a channel exists only to a relay that proved the identity expected of it on this very TLS
  connection, and before that nothing but our VERSIONS cell has been sent.
\<close>

section \<open>The responder's side of the handshake\<close>

definition HANDSHAKE_CELLS :: nat where "HANDSHAKE_CELLS = 16"

text \<open>\<open>clock n\<close> is the time at which the cell is looked at that \<open>n\<close> more may follow.\<close>

fun read_responder ::
    "verifier \<Rightarrow> nat \<Rightarrow> bytes \<Rightarrow> (nat \<Rightarrow> nat) \<Rightarrow> nat \<Rightarrow> bytes option \<Rightarrow> bytes \<Rightarrow> (bytes \<times> bytes) io_result" where
  "read_responder verify width tls clock 0 ident input = Inl (invalid_data ''link handshake did not finish'')"
| "read_responder verify width tls clock (Suc n) ident input =
     and_then (read_from input width) (\<lambda>(c, input).
       if command c = CMD_CERTS then
         and_then (certs_parse (body c)) (\<lambda>es.
         and_then (validate_responder verify es tls (clock n)) (\<lambda>i.
           read_responder verify width tls clock n (Some i) input))
       else if command c = CMD_AUTH_CHALLENGE \<or> command c = CMD_VPADDING \<or> command c = CMD_PADDING
         then read_responder verify width tls clock n ident input
       else if command c = CMD_NETINFO
         then and_then (ok_or (invalid_data ''responder sent NETINFO without a valid CERTS cell'') ident) (\<lambda>i. Inr (i, input))
       else Inl (invalid_data ''unexpected cell during link handshake''))"

definition read_responder_handshake ::
    "verifier \<Rightarrow> nat \<Rightarrow> bytes \<Rightarrow> (nat \<Rightarrow> nat) \<Rightarrow> bytes \<Rightarrow> (bytes \<times> bytes) io_result" where
  "read_responder_handshake verify width tls clock input = read_responder verify width tls clock HANDSHAKE_CELLS None input"

section \<open>Connecting\<close>

text \<open>
  What the network does: whether TCP and TLS connect, with the digest of the certificate seen and everything the
  relay will send; whether our two cells can be written; and whether the I/O thread starts.
\<close>

record link_env =
  le_tcp :: "unit io_result"
  le_tls :: "(bytes \<times> bytes) io_result"
  le_writes :: "nat \<Rightarrow> unit io_result"
  le_clock :: "nat \<Rightarrow> nat"
  le_start :: "unit io_result"

definition expect_identity :: "bytes option \<Rightarrow> bytes \<Rightarrow> unit io_result" where
  "expect_identity expected ident =
     (case expected of
        None \<Rightarrow> Inr ()
      | Some e \<Rightarrow> if \<not> constant_time_eq ident e then Inl (invalid_data ''relay identity is another than expected'') else Inr ())"

definition new_channel :: "nat \<Rightarrow> channel" where
  "new_channel version =
     \<lparr>link_version = version, circ_id_len = link_circ_id_len version, out_queue = [], circuits = Map.empty, closed = False\<rparr>"

text \<open>
  The bytes written, and the channel with the identity and the input its I/O thread goes on with.
\<close>

definition link_connect ::
    "verifier \<Rightarrow> link_env \<Rightarrow> bytes \<Rightarrow> bytes option \<Rightarrow> bytes \<times> (channel \<times> bytes \<times> bytes) io_result" where
  "link_connect verify E peer_ip expected =
     (case and_then (le_tcp E) (\<lambda>_. le_tls E) of
        Inl e \<Rightarrow> ([], Inl e)
      | Inr (tls, input) \<Rightarrow>
          (case negotiate_versions input of
             (out, agreed) \<Rightarrow>
               (case and_then (le_writes E 0) (\<lambda>_. agreed) of
                  Inl e \<Rightarrow> (out, Inl e)
                | Inr (version, input) \<Rightarrow>
                    let width = link_circ_id_len version in
                    (case and_then (read_responder_handshake verify width tls (le_clock E) input) (\<lambda>(ident, rest).
                            and_then (expect_identity expected ident) (\<lambda>_. Inr (ident, rest))) of
                       Inl e \<Rightarrow> (out, Inl e)
                     | Inr (ident, rest) \<Rightarrow>
                         (case send_netinfo width peer_ip of
                            Inl e \<Rightarrow> (out, Inl e)
                          | Inr netinfo \<Rightarrow>
                              (out @ netinfo,
                               and_then (le_writes E 1) (\<lambda>_. and_then (le_start E) (\<lambda>_.
                                 Inr (new_channel version, ident, rest)))))))))"

section \<open>Who is at the other end\<close>

text \<open>
  The certificates prove the identity on this TLS connection: a chain from the identity key to the certificate
  that TLS showed, in force at the time.
\<close>

definition identity_proved :: "verifier \<Rightarrow> bytes \<Rightarrow> nat \<Rightarrow> bytes \<Rightarrow> (u8 \<times> bytes) list \<Rightarrow> bool" where
  "identity_proved verify tls t ident es \<longleftrightarrow>
     (\<exists>id_bytes tls_bytes id_cert tls_cert.
        certs_of_type CERT_TYPE_IDENTITY_V_SIGNING es = [id_bytes] \<and> certs_of_type CERT_TYPE_SIGNING_V_TLS es = [tls_bytes] \<and>
        ed_cert_parse id_bytes = Inr id_cert \<and> ed_cert_parse tls_bytes = Inr tls_cert \<and>
        cert_type id_cert = CERT_TYPE_IDENTITY_V_SIGNING \<and> cert_key_type id_cert = KEY_TYPE_ED25519 \<and>
        cert_type tls_cert = CERT_TYPE_SIGNING_V_TLS \<and> cert_key_type tls_cert = KEY_TYPE_SHA256_OF_X509 \<and>
        t < expiration_hours id_cert * 3600 \<and> t < expiration_hours tls_cert * 3600 \<and>
        signing_key id_cert = Some ident \<and> verify ident (signed_portion id_cert) (cert_signature id_cert) \<and>
        verify (certified_key id_cert) (signed_portion tls_cert) (cert_signature tls_cert) \<and>
        certified_key tls_cert = tls)"

lemma read_from_Inr:
  assumes "read_from input w = Inr (c, rest)" and "link_width w"
  shows "input = encode w c @ rest \<and> wf_cell w c"
proof -
  from assms obtain n where "try_parse input w = Inr (Some (c, n))" and "rest = drop n input"
    using read_from_try_parse [OF assms(2), of input] by (auto split: option.splits sum.splits prod.splits)
  then show ?thesis using try_parse_SomeD [of input w c n] by (metis append_take_drop_id)
qed

lemma read_from_encode:
  assumes "link_width w" and "wf_cell w c"
  shows "read_from (encode w c @ rest) w = Inr (c, rest)"
  using read_from_try_parse [OF assms(1), of "encode w c @ rest"] try_parse_encode_append [OF assms, of rest] by simp

text \<open>The cells of a finished handshake: at most sixteen, NETINFO last, and the CERTS cell that counts among them.\<close>

definition handshake_cells :: "nat \<Rightarrow> nat \<Rightarrow> bytes \<Rightarrow> cell list \<Rightarrow> bytes \<Rightarrow> bool" where
  "handshake_cells w n input cs rest \<longleftrightarrow>
     (\<exists>netinfo. input = concat (map (encode w) (cs @ [netinfo])) @ rest \<and> command netinfo = CMD_NETINFO) \<and> length cs < n \<and>
     (\<forall>c \<in> set cs. command c \<in> {CMD_CERTS, CMD_AUTH_CHALLENGE, CMD_VPADDING, CMD_PADDING})"

definition proved_in :: "verifier \<Rightarrow> bytes \<Rightarrow> (nat \<Rightarrow> nat) \<Rightarrow> nat \<Rightarrow> bytes \<Rightarrow> cell list \<Rightarrow> bool" where
  "proved_in verify tls clock n ident cs \<longleftrightarrow>
     (\<exists>c \<in> set cs. command c = CMD_CERTS \<and> (\<exists>es. certs_parse (body c) = Inr es \<and> (\<exists>t < n. identity_proved verify tls (clock t) ident es)))"

lemma handshake_cells_Cons:
  "handshake_cells w n input cs rest \<Longrightarrow> command c \<in> {CMD_CERTS, CMD_AUTH_CHALLENGE, CMD_VPADDING, CMD_PADDING} \<Longrightarrow>
     handshake_cells w (Suc n) (encode w c @ input) (c # cs) rest"
  by (auto simp: handshake_cells_def)

lemma proved_in_Cons: "proved_in verify tls clock n ident cs \<Longrightarrow> proved_in verify tls clock (Suc n) ident (c # cs)"
  unfolding proved_in_def by (meson less_SucI list.set_intros(2))

lemma read_responder_Inr:
  assumes "read_responder verify w tls clock n known input = Inr (ident, rest)" and "link_width w"
  shows "\<exists>cs. handshake_cells w n input cs rest \<and> (known = Some ident \<or> proved_in verify tls clock n ident cs)"
  using assms(1)
proof (induction n arbitrary: known input)
  case (Suc n)
  obtain c inp where r: "read_from input w = Inr (c, inp)" using Suc.prems by (auto split: prod.splits)
  have front: "input = encode w c @ inp" using read_from_Inr [OF r assms(2)] by simp
  consider (certs) "command c = CMD_CERTS" | (skip) "command c \<in> {CMD_AUTH_CHALLENGE, CMD_VPADDING, CMD_PADDING}" "command c \<noteq> CMD_CERTS"
    | (netinfo) "command c = CMD_NETINFO" "known = Some ident" "inp = rest"
    using Suc.prems r by (auto split: if_splits)
  then show ?case
  proof cases
    case certs
    obtain es i where es: "certs_parse (body c) = Inr es" and v: "validate_responder verify es tls (clock n) = Inr i"
      and rec: "read_responder verify w tls clock n (Some i) inp = Inr (ident, rest)"
      using Suc.prems r certs by auto
    obtain cs where cs: "handshake_cells w n inp cs rest" "i = ident \<or> proved_in verify tls clock n ident cs"
      using Suc.IH [OF rec] by auto
    have "identity_proved verify tls (clock n) i es" using v unfolding responder_authenticated identity_proved_def .
    then have "proved_in verify tls clock (Suc n) i (c # cs)" unfolding proved_in_def using certs es by auto
    then show ?thesis using cs proved_in_Cons handshake_cells_Cons [OF cs(1), of c] certs front by auto
  next
    case skip
    then have "read_responder verify w tls clock n known inp = Inr (ident, rest)" using Suc.prems r by auto
    then obtain cs where "handshake_cells w n inp cs rest" "known = Some ident \<or> proved_in verify tls clock n ident cs"
      using Suc.IH by blast
    then show ?thesis using proved_in_Cons handshake_cells_Cons [of w n inp cs rest c] skip front by auto
  next
    case netinfo
    then show ?thesis using front by (intro exI [of _ "[]"]) (auto simp: handshake_cells_def)
  qed
qed simp

lemma negotiate_versions_out: "\<exists>v. fst (negotiate_versions input) = encode CIRC_ID_LEN_V2 v \<and> command v = CMD_VERSIONS"
proof -
  obtain v where v: "cell_new 0 CMD_VERSIONS (concat (map u16_to_be SUPPORTED_VERSIONS)) = Inr v"
    by (simp add: cell_new_def is_variable_length_def cell_const_defs SUPPORTED_VERSIONS_def u16_to_be_def)
  then have "command v = CMD_VERSIONS" by (auto simp: cell_new_def split: if_splits)
  then show ?thesis using v by (intro exI [of _ v]) (simp add: negotiate_versions_def)
qed

lemma negotiate_versions_Inr:
  assumes "snd (negotiate_versions input) = Inr (version, rest)"
  shows "version \<in> {3, 4} \<and> (\<exists>reply. input = encode CIRC_ID_LEN_V2 reply @ rest \<and> command reply = CMD_VERSIONS \<and>
     version \<in> set (version_list (body reply)) \<and> (\<forall>v \<in> set (version_list (body reply)). v \<in> {3, 4} \<longrightarrow> v \<le> version))"
proof -
  obtain reply where r: "read_from input CIRC_ID_LEN_V2 = Inr (reply, rest)" "command reply = CMD_VERSIONS"
    and best: "max_version (filter (\<lambda>v. v \<in> set SUPPORTED_VERSIONS) (version_list (body reply))) = Some version"
    using assms by (auto simp: negotiate_versions_def split: sum.splits if_splits)
  let ?vs = "filter (\<lambda>v. v \<in> set SUPPORTED_VERSIONS) (version_list (body reply))"
  from best have ne: "?vs \<noteq> []" and m: "version = Max (set ?vs)" by (auto simp: max_version_def split: if_splits)
  have "version \<in> set ?vs" using ne m Max_in [of "set ?vs"] by (simp only: List.finite_set set_empty not_False_eq_True)
  moreover have "\<forall>v \<in> set ?vs. v \<le> version" unfolding m by (intro ballI Max_ge) (simp_all only: List.finite_set)
  ultimately show ?thesis using r read_from_Inr [OF r(1)] by (auto simp: SUPPORTED_VERSIONS_def)
qed

text \<open>
  C8: a channel is opened only to a relay that proved who it is on this connection: among the at most
  fifteen cells before its NETINFO is a CERTS cell with one chain of unexpired certificates from the identity
  key to the TLS certificate that was seen, and the identity is the expected one where one is expected. The
  link version is the highest that both sides offer, and the channel starts empty, with that version's
  CircID width. Until the identity is proved nothing has been written but our VERSIONS cell.
\<close>

theorem channel_to_proved_relay:
  "case link_connect verify E peer_ip expected of
     (out, Inr (ch, ident, rest)) \<Rightarrow>
       (\<exists>tls input reply more cs v netinfo. le_tcp E = Inr () \<and> le_tls E = Inr (tls, input) \<and>
          input = encode CIRC_ID_LEN_V2 reply @ more \<and> link_version ch \<in> {3, 4} \<and>
          link_version ch \<in> set (version_list (body reply)) \<and>
          (\<forall>v \<in> set (version_list (body reply)). v \<in> {3, 4} \<longrightarrow> v \<le> link_version ch) \<and>
          handshake_cells (circ_id_len ch) HANDSHAKE_CELLS more cs rest \<and> proved_in verify tls (le_clock E) HANDSHAKE_CELLS ident cs \<and>
          out = encode CIRC_ID_LEN_V2 v @ netinfo \<and> command v = CMD_VERSIONS) \<and>
       (\<forall>e. expected = Some e \<longrightarrow> ident = e) \<and> ch = new_channel (link_version ch)
   | (out, Inl _) \<Rightarrow>
       out = [] \<or> (\<exists>v. out = encode CIRC_ID_LEN_V2 v \<and> command v = CMD_VERSIONS) \<or>
       (\<exists>tls ident cs. le_tls E = Inr tls \<and> proved_in verify (fst tls) (le_clock E) HANDSHAKE_CELLS ident cs \<and> (\<forall>e. expected = Some e \<longrightarrow> ident = e))"
proof (cases "and_then (le_tcp E) (\<lambda>_. le_tls E)")
  case (Inl e)
  then show ?thesis by (simp add: link_connect_def)
next
  case (Inr ti)
  obtain tls input where ti: "ti = (tls, input)" by force
  have up: "le_tcp E = Inr ()" "le_tls E = Inr (tls, input)" using Inr ti by auto
  obtain out agreed where neg: "negotiate_versions input = (out, agreed)" by force
  obtain v where v: "out = encode CIRC_ID_LEN_V2 v" "command v = CMD_VERSIONS" using negotiate_versions_out [of input] neg by auto
  show ?thesis
  proof (cases "and_then (le_writes E 0) (\<lambda>_. agreed)")
    case (Inl e)
    then show ?thesis using up neg v by (auto simp: link_connect_def)
  next
    case (Inr vi)
    obtain version more where vi: "vi = (version, more)" by force
    have agreed: "snd (negotiate_versions input) = Inr (version, more)" using Inr neg vi by auto
    have w: "link_width (link_circ_id_len version)" by (simp add: link_circ_id_len_def)
    let ?hs = "and_then (read_responder_handshake verify (link_circ_id_len version) tls (le_clock E) more) (\<lambda>(ident, rest).
        and_then (expect_identity expected ident) (\<lambda>_. Inr (ident, rest)))"
    show ?thesis
    proof (cases ?hs)
      case (Inl e)
      then show ?thesis using up neg v Inr vi by (auto simp: link_connect_def Let_def)
    next
      case hs: (Inr x)
      obtain ident rest where x: "x = (ident, rest)" by force
      have r: "read_responder verify (link_circ_id_len version) tls (le_clock E) HANDSHAKE_CELLS None more = Inr (ident, rest)"
        and e: "\<forall>e. expected = Some e \<longrightarrow> ident = e"
        using hs x by (auto simp: read_responder_handshake_def expect_identity_def split: option.splits if_splits)
      obtain cs where cs: "handshake_cells (link_circ_id_len version) HANDSHAKE_CELLS more cs rest" "proved_in verify tls (le_clock E) HANDSHAKE_CELLS ident cs"
        using read_responder_Inr [OF r w] by auto
      obtain reply where reply: "input = encode CIRC_ID_LEN_V2 reply @ more" "version \<in> {3, 4}" "version \<in> set (version_list (body reply))"
        "\<forall>v \<in> set (version_list (body reply)). v \<in> {3, 4} \<longrightarrow> v \<le> version"
        using negotiate_versions_Inr [OF agreed] by blast
      have run: "link_connect verify E peer_ip expected =
          (case send_netinfo (link_circ_id_len version) peer_ip of
             Inl e \<Rightarrow> (out, Inl e)
           | Inr netinfo \<Rightarrow> (out @ netinfo, and_then (le_writes E 1) (\<lambda>_. and_then (le_start E) (\<lambda>_. Inr (new_channel version, ident, rest)))))"
        using up neg Inr vi hs x by (simp add: link_connect_def Let_def)
      show ?thesis
      proof (cases "\<exists>ni. send_netinfo (link_circ_id_len version) peer_ip = Inr ni \<and> le_writes E 1 = Inr () \<and> le_start E = Inr ()")
        case True
        then obtain ni where ni: "link_connect verify E peer_ip expected = (out @ ni, Inr (new_channel version, ident, rest))" unfolding run by auto
        have "\<exists>tls input reply more cs v netinfo. le_tcp E = Inr () \<and> le_tls E = Inr (tls, input) \<and>
          input = encode CIRC_ID_LEN_V2 reply @ more \<and> version \<in> {3, 4} \<and> version \<in> set (version_list (body reply)) \<and>
          (\<forall>v \<in> set (version_list (body reply)). v \<in> {3, 4} \<longrightarrow> v \<le> version) \<and>
          handshake_cells (link_circ_id_len version) HANDSHAKE_CELLS more cs rest \<and> proved_in verify tls (le_clock E) HANDSHAKE_CELLS ident cs \<and>
          out @ ni = encode CIRC_ID_LEN_V2 v @ netinfo \<and> command v = CMD_VERSIONS"
          using up reply cs v by blast
        then show ?thesis using e unfolding ni by (simp add: new_channel_def)
      next
        case False
        then obtain out' err where "link_connect verify E peer_ip expected = (out', Inl err)"
          unfolding run by (cases "send_netinfo (link_circ_id_len version) peer_ip"; cases "le_writes E 1"; cases "le_start E") auto
        then show ?thesis using up(2) cs(2) e by auto
      qed
    qed
  qed
qed

section \<open>A relay that answers\<close>

lemma certs_entry:
  assumes "length cert \<le> u16_max"
  shows "certs_entries (Suc n) (t # u16_to_be (length cert) @ cert @ rest) =
     and_then (certs_entries n rest) (\<lambda>es. Inr ((t, cert) # es))"
proof -
  have "drop (3 + m) (a # b # c # xs) = drop m xs" for m and a b c :: u8 and xs by (simp add: numeral_3_eq_3)
  then show ?thesis using assms by (simp add: u16_to_be_def u16_be_roundtrip slice_def Let_def)
qed

definition demo_link_certs :: bytes where
  "demo_link_certs = 2 # CERT_TYPE_IDENTITY_V_SIGNING # u16_to_be (length demo_cert) @ demo_cert @
     (CERT_TYPE_SIGNING_V_TLS # u16_to_be 104 @ cert_bytes CERT_TYPE_SIGNING_V_TLS 500000 KEY_TYPE_SHA256_OF_X509 (replicate 32 5) None (replicate 64 0))"

definition demo_input :: bytes where
  "demo_input = encode 2 \<lparr>circ_id = 0, command = CMD_VERSIONS, body = [0, 3, 0, 4, 0, 5]\<rparr> @
     encode 4 \<lparr>circ_id = 0, command = CMD_CERTS, body = demo_link_certs\<rparr> @
     encode 4 \<lparr>circ_id = 0, command = CMD_NETINFO, body = replicate 509 0\<rparr> @ [7]"

definition demo_link :: link_env where
  "demo_link = \<lparr>le_tcp = Inr (), le_tls = Inr (replicate 32 5, demo_input), le_writes = (\<lambda>_. Inr ()), le_clock = (\<lambda>_. 1000), le_start = Inr ()\<rparr>"

lemma demo_link_certs_ok: "\<exists>es. certs_parse demo_link_certs = Inr es \<and> validate_responder (\<lambda>_ _ _. True) es (replicate 32 5) 1000 = Inr (replicate 32 9)"
proof -
  let ?tls = "cert_bytes CERT_TYPE_SIGNING_V_TLS 500000 KEY_TYPE_SHA256_OF_X509 (replicate 32 5) None (replicate 64 0)"
  have len: "length demo_cert = 140" "length ?tls = 104" by (simp_all add: demo_cert_def cert_bytes_def u32_to_be_def)
  have two: "unat (2 :: u8) = Suc (Suc 0)" by simp
  have "certs_parse demo_link_certs = Inr [(CERT_TYPE_IDENTITY_V_SIGNING, demo_cert), (CERT_TYPE_SIGNING_V_TLS, ?tls)]"
    using certs_entry [of demo_cert "Suc 0" CERT_TYPE_IDENTITY_V_SIGNING "CERT_TYPE_SIGNING_V_TLS # u16_to_be (length ?tls) @ ?tls @ []"]
      certs_entry [of ?tls 0 CERT_TYPE_SIGNING_V_TLS "[]"] len
    unfolding certs_parse_def demo_link_certs_def list.case two by (simp del: certs_entries.simps(2))
  moreover have "validate_responder (\<lambda>_ _ _. True) [(CERT_TYPE_IDENTITY_V_SIGNING, demo_cert), (CERT_TYPE_SIGNING_V_TLS, ?tls)] (replicate 32 5) 1000 = Inr (replicate 32 9)"
    unfolding validate_responder_def demo_cert_def
    by (simp add: unique_cert_def CERT_TYPE_IDENTITY_V_SIGNING_def CERT_TYPE_SIGNING_V_TLS_def ed_cert_parse_bytes check_def
        check_signature_def is_expired_def expires_at_unix_def)
  ultimately show ?thesis by blast
qed

theorem channel_to_proved_relay_witness:
  "\<exists>out ch cs. link_connect (\<lambda>_ _ _. True) demo_link [1, 2, 3, 4] (Some (replicate 32 9)) = (out, Inr (ch, replicate 32 9, [7])) \<and>
     link_version ch = 4 \<and> proved_in (\<lambda>_ _ _. True) (replicate 32 5) (\<lambda>_. 1000) HANDSHAKE_CELLS (replicate 32 9) cs"
proof -
  let ?v = "\<lambda>_ _ _. True" and ?id = "replicate 32 9 :: bytes"
  have wf: "wf_cell 2 \<lparr>circ_id = 0, command = CMD_VERSIONS, body = [0, 3, 0, 4, 0, 5]\<rparr>" "wf_cell 4 \<lparr>circ_id = 0, command = CMD_CERTS, body = demo_link_certs\<rparr>"
    "wf_cell 4 \<lparr>circ_id = 0, command = CMD_NETINFO, body = replicate 509 0\<rparr>"
    by (simp_all add: wf_cell_def is_variable_length_def cell_const_defs demo_link_certs_def demo_cert_def cert_bytes_def u16_to_be_def u32_to_be_def)
  have w: "link_width 2" "link_width 4" by (simp_all add: cell_const_defs)
  note reads = read_from_encode [OF w(1) wf(1)] read_from_encode [OF w(2) wf(2)] read_from_encode [OF w(2) wf(3)]
  obtain es where es: "certs_parse demo_link_certs = Inr es" "validate_responder ?v es (replicate 32 5) 1000 = Inr ?id"
    using demo_link_certs_ok by blast
  obtain out where neg: "negotiate_versions demo_input = (out, Inr (4, encode 4 \<lparr>circ_id = 0, command = CMD_CERTS, body = demo_link_certs\<rparr> @
     encode 4 \<lparr>circ_id = 0, command = CMD_NETINFO, body = replicate 509 0\<rparr> @ [7]))"
    using reads(1) by (simp add: negotiate_versions_def demo_input_def cell_new_def is_variable_length_def cell_const_defs SUPPORTED_VERSIONS_def
        u16_to_be_def u16_from_be_def max_version_def)
  have n: "HANDSHAKE_CELLS = Suc (Suc 14)" by (simp add: HANDSHAKE_CELLS_def)
  have hs: "read_responder ?v 4 (replicate 32 5) (\<lambda>_. 1000) HANDSHAKE_CELLS None (encode 4 \<lparr>circ_id = 0, command = CMD_CERTS, body = demo_link_certs\<rparr> @
     encode 4 \<lparr>circ_id = 0, command = CMD_NETINFO, body = replicate 509 0\<rparr> @ [7]) = Inr (?id, [7])"
    unfolding n read_responder.simps by (simp add: reads es) (simp add: cell_const_defs)
  obtain ni where "send_netinfo 4 [1, 2, 3, 4] = Inr ni"
    by (simp add: send_netinfo_def cell_new_def is_variable_length_def cell_const_defs u32_to_be_def)
  then obtain out' where run: "link_connect ?v demo_link [1, 2, 3, 4] (Some ?id) = (out', Inr (new_channel 4, ?id, [7]))"
    using neg hs by (simp add: link_connect_def demo_link_def read_responder_handshake_def link_circ_id_len_def cell_const_defs expect_identity_def)
  have "\<exists>cs. proved_in ?v (replicate 32 5) (\<lambda>_. 1000) HANDSHAKE_CELLS ?id cs"
    using channel_to_proved_relay [where verify = ?v and E = demo_link and peer_ip = "[1, 2, 3, 4]" and expected = "Some ?id"] unfolding run by (auto simp: demo_link_def)
  then show ?thesis using run by (auto simp: new_channel_def)
qed

end
