(* ===== verification/Doc_Text.thy ===== *)
theory Doc_Text
  imports Net_Doc
begin

text \<open>
  Documents written line by line, and what the readers of \<^verbatim>\<open>netdoc.rs\<close> find in them: the reference side
  of the round trips of signed documents.
\<close>

section \<open>Writing\<close>

definition doc_of :: "string list \<Rightarrow> string" where
  "doc_of ls = concat (map (\<lambda>l. l @ [newline]) ls)"

definition plain_line :: "string \<Rightarrow> bool" where
  "plain_line l \<longleftrightarrow> newline \<notin> set l \<and> (l = [] \<or> last l \<noteq> carriage_return)"

definition pem_lines :: "string \<Rightarrow> bytes \<Rightarrow> string list" where
  "pem_lines label bs = [pem_begin label, base64_encode_unpadded bs, pem_end label]"

lemma doc_of_simps [simp]: "doc_of [] = []" "doc_of (l # ls) = l @ newline # doc_of ls"
  by (simp_all add: doc_of_def)

lemma doc_of_append [simp]: "doc_of (as @ bs) = doc_of as @ doc_of bs"
  by (simp add: doc_of_def)

section \<open>Reading\<close>

lemma split_on_plain: "newline \<notin> set l \<Longrightarrow> split_char newline (l @ newline # r) = l # split_char newline r"
  by (induction l) auto

lemma split_doc_of: "list_all plain_line ls \<Longrightarrow> split_char newline (doc_of ls) = ls @ [[]]"
  by (induction ls) (simp_all add: plain_line_def split_on_plain)

lemma lines_doc_of: "list_all plain_line ls \<Longrightarrow> lines (doc_of ls) = ls"
  by (simp add: lines_def split_doc_of) (auto simp: list_all_iff plain_line_def strip_cr_def intro!: map_idI)

lemma item_doc_of: "list_all plain_line ls \<Longrightarrow> item (doc_of ls) keyword = find_map (\<lambda>l. item_args l keyword) ls"
  by (simp add: item_def lines_doc_of)

lemma starts_with_line:
  assumes "newline \<notin> set keyword"
  shows "starts_with keyword (l @ newline # r) \<longleftrightarrow> starts_with keyword l"
proof -
  have "starts_with keyword l" if "take (length keyword) (l @ newline # r) = keyword"
  proof (cases "length keyword \<le> length l")
    case False
    with that have "newline \<in> set (take (length keyword) (l @ newline # r))" by (cases "length keyword - length l") auto
    with that assms show ?thesis by metis
  qed (use that in simp)
  moreover have "length keyword \<le> length l" if "take (length keyword) l = keyword"
    using that by (metis length_take min.cobounded1 min_def)
  ultimately show ?thesis by auto
qed

lemma find_str_line:
  assumes "newline \<notin> set l"
  shows "find_str (newline # keyword) (l @ newline # r) =
     (if starts_with keyword r then Some (length l) else map_option (\<lambda>i. Suc (length l) + i) (find_str (newline # keyword) r))"
  using assms by (induction l) (auto simp: map_option_case split: option.splits)

lemma find_newline: "newline \<notin> set l \<Longrightarrow> find_str [newline] (l @ newline # r) = Some (length l)"
  by (induction l) auto

lemma line_start_of_cons:
  assumes "newline \<notin> set keyword" "newline \<notin> set l"
  shows "line_start_of (l @ newline # r) keyword =
     (if starts_with keyword l then Some 0 else map_option (\<lambda>i. Suc (length l) + i) (line_start_of r keyword))"
  using assms by (auto simp: line_start_of_def starts_with_line find_str_line map_option_case simp del: take_append split: option.splits)

lemma line_start_of_doc:
  assumes "newline \<notin> set keyword" "list_all plain_line (pre @ [l])" "list_all (\<lambda>x. \<not> starts_with keyword x) pre" "starts_with keyword l"
  shows "line_start_of (doc_of pre @ l @ newline # r) keyword = Some (length (doc_of pre))"
  using assms(2,3)
proof (induction pre)
  case Nil
  then show ?case using assms(1,4) by (simp add: plain_line_def line_start_of_cons)
next
  case (Cons x pre)
  then show ?case using assms(1) by (simp add: plain_line_def line_start_of_cons)
qed

lemma line_start_of_none:
  assumes "newline \<notin> set keyword" "keyword \<noteq> []" "list_all plain_line ls" "list_all (\<lambda>x. \<not> starts_with keyword x) ls"
  shows "line_start_of (doc_of ls) keyword = None"
  using assms(3,4)
proof (induction ls)
  case Nil
  then show ?case using assms(2) by (simp add: line_start_of_def)
next
  case (Cons x ls)
  then show ?case using assms(1) by (simp add: plain_line_def line_start_of_cons)
qed

section \<open>Objects\<close>

lemma b64_loop_newline: "b64_loop acc bits out (s @ [newline]) = b64_loop acc bits out s"
  by (induction s arbitrary: acc bits out) (auto simp: b64_loop.simps code_def Let_def split: option.split)

lemma base64_decode_lines: "base64_decode (newline # base64_encode_unpadded bs @ [newline]) = Inr bs"
  using base64_decode_encode [of bs] by (simp add: base64_decode_def code_def b64_loop_newline b64_loop.simps(2) [of _ _ _ newline] flip: append_Cons)

lemma find_str_skip: "p \<noteq> [] \<Longrightarrow> hd p \<notin> set s \<Longrightarrow> find_str p (s @ r) = map_option (\<lambda>i. length s + i) (find_str p r)"
proof (induction s)
  case (Cons c s)
  then have "\<not> starts_with p (c # s @ r)" by (cases p) auto
  with Cons show ?case by (auto simp: option.map_comp comp_def simp del: take_Cons')
qed (simp add: map_option_case split: option.split)

lemma find_str_here: "find_str p (p @ r) = Some 0"
  by (cases "p @ r") (auto, metis append_eq_conv_conj)

lemma b64_group_alphabet: "set (b64_group a b c) \<subseteq> set B64_ALPHABET"
proof -
  have "length B64_ALPHABET = 64" by (simp add: B64_ALPHABET_def)
  then have "B64_ALPHABET ! (n mod 64) \<in> set B64_ALPHABET" for n by (intro nth_mem) simp
  then show ?thesis by (simp add: b64_group_def Let_def)
qed

lemma base64_alphabet: "set (base64_encode_unpadded bs) \<subseteq> set B64_ALPHABET"
proof (induction bs rule: base64_encode_unpadded.induct)
  case (4 a b c bs)
  then show ?case using b64_group_alphabet [of a b c] by simp
qed (use b64_group_alphabet set_take_subset in \<open>fastforce simp del: take_Suc_Cons\<close>)+

lemma base64_no_dash [simp]: "CHR ''-'' \<notin> set (base64_encode_unpadded bs)"
  using base64_alphabet [of bs] by (auto simp: B64_ALPHABET_def)

lemma object_pem:
  assumes "newline \<notin> set label"
  shows "object (doc_of (pem_lines label bs) @ r) label = Inr bs"
proof -
  let ?b = "base64_encode_unpadded bs"
  have "find_str (pem_end label) ((newline # ?b @ [newline]) @ pem_end label @ newline # r) =
      map_option (\<lambda>i. length (newline # ?b @ [newline]) + i) (find_str (pem_end label) (pem_end label @ newline # r))"
    by (rule find_str_skip) (simp_all add: pem_end_def)
  then have "find_str (pem_end label) (newline # ?b @ newline # pem_end label @ newline # r) = Some (length (newline # ?b @ [newline]))"
    by (simp add: find_str_here)
  moreover have "take (length (newline # ?b @ [newline])) (newline # ?b @ newline # pem_end label @ newline # r) = newline # ?b @ [newline]"
    by simp
  ultimately show ?thesis
    using base64_decode_lines [of bs] by (simp add: object_def pem_lines_def find_str_here Let_def)
qed

lemma item_object_doc:
  assumes "newline \<notin> set keyword" "newline \<notin> set label" "list_all plain_line (pre @ [l])"
    "list_all (\<lambda>x. \<not> starts_with keyword x) pre" "starts_with keyword l"
  shows "item_object (doc_of (pre @ l # pem_lines label bs @ post)) keyword label = Inr bs"
proof -
  let ?rest = "doc_of (pem_lines label bs) @ doc_of post"
  have "line_start_of (doc_of pre @ l @ newline # ?rest) keyword = Some (length (doc_of pre))"
    using assms by (intro line_start_of_doc)
  then have "line_end_after (doc_of pre @ l @ newline # ?rest) keyword = Some (length (doc_of pre) + length l + 1)"
    using assms(3) by (simp add: line_end_after_def plain_line_def find_newline)
  moreover have "starts_with (pem_begin label) ?rest" by (simp add: pem_lines_def)
  ultimately show ?thesis
    using object_pem [OF assms(2), of bs "doc_of post"] by (simp add: item_object_def Let_def)
qed

end
