(* ===== verification/Directory_Fetch.thy ===== *)
theory Directory_Fetch
  imports Doc_Text Utf8_Text
begin

text \<open>
  HTTP over a BEGIN_DIR stream, \<^verbatim>\<open>src/tor/dir/fetch.rs\<close>. The stream is what opening it, writing to it and
  its successive reads answer; a read list that ends before the end of the stream is a fetch that is
  still waiting, \<open>None\<close>. Inflating is zlib's and an argument.
\<close>

section \<open>Requests\<close>

definition MAX_RESPONSE_BYTES :: nat where "MAX_RESPONSE_BYTES = 16 * 1024 * 1024"
definition MAX_PARALLEL_REQUESTS :: nat where "MAX_PARALLEL_REQUESTS = 4"

abbreviation crlf :: string where "crlf \<equiv> [CHR 0x0D, CHR 0x0A]"

record zlib =
  zlib_available :: bool
  inflate_all :: "bytes \<Rightarrow> nat \<Rightarrow> bytes io_result"

definition get_request :: "zlib \<Rightarrow> string \<Rightarrow> string \<Rightarrow> (string \<times> string) list \<Rightarrow> string" where
  "get_request Z path host headers =
     ''GET '' @ path @ '' HTTP/1.0'' @ crlf @ ''Host: '' @ host @ crlf @
     ''Accept-Encoding: '' @ (if zlib_available Z then ''deflate'' else ''identity'') @ crlf @
     concat (map (\<lambda>(name, val). name @ '': '' @ val @ crlf) headers) @ crlf"

section \<open>Responses\<close>

definition find_header_end :: "bytes \<Rightarrow> nat option" where
  "find_header_end raw = find_str [13, 10, 13, 10] raw"

fun split_crlf :: "string \<Rightarrow> string list" where
  "split_crlf [] = [[]]"
| "split_crlf (c # s) =
     (if starts_with crlf (c # s) then [] # split_crlf (tl s)
      else case split_crlf s of [] \<Rightarrow> [[c]] | l # ls \<Rightarrow> (c # l) # ls)"

fun find_header :: "string \<Rightarrow> string list \<Rightarrow> string option" where
  "find_header name [] = None"
| "find_header name (line # ls) =
     (case split_once (CHR '':'') line of
        None \<Rightarrow> find_header name ls
      | Some (key, val) \<Rightarrow>
          if to_lowercase (trim key) = to_lowercase name then Some (to_lowercase (trim val)) else find_header name ls)"

definition header_value :: "string \<Rightarrow> string \<Rightarrow> string option" where
  "header_value header name = find_header name (tl (split_crlf header))"

definition decode_body :: "zlib \<Rightarrow> bytes \<Rightarrow> string \<Rightarrow> bytes io_result" where
  "decode_body Z raw encoding =
     (if encoding = ''identity'' \<or> encoding = '''' then Inr raw
      else if encoding = ''deflate'' \<or> encoding = ''gzip'' then inflate_all Z raw MAX_RESPONSE_BYTES
      else Inl (invalid_data ''directory server used a compression which was not offered''))"

definition status_kind :: "nat \<Rightarrow> error_kind" where
  "status_kind status = (if status = 404 then NotFound else if status = 304 then AlreadyExists else InvalidData)"

definition parse_response :: "zlib \<Rightarrow> bytes \<Rightarrow> bytes io_result" where
  "parse_response Z raw =
     and_then (ok_or (invalid_data ''directory response has no header terminator'') (find_header_end raw)) (\<lambda>header_end.
       let header = from_utf8_lossy (take header_end raw);
           words = split_unicode_whitespace (hd (split_crlf header))
       in and_then (ok_or (invalid_data ''bad HTTP status line'')
              (if length words < 2 then None else parse_u16 (words ! 1))) (\<lambda>status.
            if status \<noteq> 200 then Inl (IoError (status_kind status) ''directory server answered with another status'')
            else decode_body Z (drop (header_end + 4) raw)
                   (case header_value header ''content-encoding'' of Some e \<Rightarrow> e | None \<Rightarrow> ''identity'')))"

section \<open>Fetching\<close>

record dir_stream =
  ds_open :: "unit io_result"
  ds_write :: "string \<Rightarrow> unit io_result"
  ds_flush :: "unit io_result"
  ds_reads :: "bytes io_result list"

fun read_response :: "bytes \<Rightarrow> bytes io_result list \<Rightarrow> bytes io_result option" where
  "read_response raw [] = None"
| "read_response raw (Inl e # rs) = Some (Inl e)"
| "read_response raw (Inr chunk # rs) =
     (if chunk = [] then Some (Inr raw)
      else if length raw + length chunk > MAX_RESPONSE_BYTES
        then Some (Inl (invalid_data ''directory response is implausibly large''))
      else read_response (raw @ chunk) rs)"

definition get_with :: "zlib \<Rightarrow> string \<Rightarrow> string \<Rightarrow> (string \<times> string) list \<Rightarrow> dir_stream \<Rightarrow> bytes io_result option" where
  "get_with Z host path headers st =
     (case and_then (ds_open st) (\<lambda>_. and_then (ds_write st (get_request Z path host headers)) (\<lambda>_. ds_flush st)) of
        Inl e \<Rightarrow> Some (Inl e)
      | Inr _ \<Rightarrow> map_option (\<lambda>r. and_then r (parse_response Z)) (read_response [] (ds_reads st)))"

definition dir_get :: "zlib \<Rightarrow> string \<Rightarrow> string \<Rightarrow> dir_stream \<Rightarrow> bytes io_result option" where
  "dir_get Z host path st = get_with Z host path [] st"

text \<open>The groups of requests that run at once, joined in order.\<close>

definition get_parallel :: "(string \<Rightarrow> bytes io_result) \<Rightarrow> string list \<Rightarrow> bytes io_result list" where
  "get_parallel fetch paths = concat (map (map fetch) (chunks_of MAX_PARALLEL_REQUESTS paths))"

section \<open>Lemmas\<close>

lemma get_parallel_eq: "get_parallel fetch paths = map fetch paths"
proof -
  have "map fetch (concat (chunks_of MAX_PARALLEL_REQUESTS paths)) = map fetch paths"
    by (subst concat_chunks_of) (simp_all add: MAX_PARALLEL_REQUESTS_def)
  then show ?thesis by (simp add: get_parallel_def map_concat)
qed

lemma read_response_bounded:
  "read_response raw rs = Some (Inr out) \<Longrightarrow> length raw \<le> MAX_RESPONSE_BYTES \<Longrightarrow> length out \<le> MAX_RESPONSE_BYTES"
  by (induction raw rs rule: read_response.induct) (auto split: if_splits)

lemma read_response_all:
  "\<forall>c \<in> set cs. c \<noteq> [] \<Longrightarrow> length (raw @ concat cs) \<le> MAX_RESPONSE_BYTES \<Longrightarrow>
   read_response raw (map Inr cs @ [Inr []]) = Some (Inr (raw @ concat cs))"
  by (induction cs arbitrary: raw) auto

section \<open>What a server answers\<close>

definition word :: "string \<Rightarrow> bool" where
  "word s \<longleftrightarrow> s \<noteq> [] \<and> list_all (\<lambda>c. printable c \<and> c \<noteq> CHR '' '') s"

definition header_line :: "string \<times> string \<Rightarrow> string" where
  "header_line h = fst h @ '': '' @ snd h"

definition http_lines :: "nat \<Rightarrow> string \<Rightarrow> (string \<times> string) list \<Rightarrow> string list" where
  "http_lines status reason headers = (''HTTP/1.0 '' @ nat_digits status @ '' '' @ reason) # map header_line headers"

fun join_crlf :: "string list \<Rightarrow> string" where
  "join_crlf [] = []"
| "join_crlf [l] = l"
| "join_crlf (l # ls) = l @ crlf @ join_crlf ls"

definition http_response :: "nat \<Rightarrow> string \<Rightarrow> (string \<times> string) list \<Rightarrow> bytes \<Rightarrow> bytes" where
  "http_response status reason headers content =
     as_bytes (join_crlf (http_lines status reason headers)) @ [13, 10, 13, 10] @ content"

lemma printable_not_cr: "printable c \<Longrightarrow> c \<noteq> CHR 0x0D \<and> c \<noteq> CHR 0x0A"
  by (auto simp: printable_def code_def)

lemma word_printable: "word s \<Longrightarrow> list_all printable s"
  by (auto simp: word_def list_all_iff)

lemma word_not_space: "word s \<Longrightarrow> \<forall>c \<in> set s. \<not> is_whitespace c"
  by (auto simp: word_def list_all_iff printable_not_space)

lemma trim_word: "word s \<Longrightarrow> trim s = s"
proof -
  assume "word s"
  then have s: "\<forall>c \<in> set s. \<not> is_whitespace c" by (rule word_not_space)
  then have "dropWhile is_whitespace s = s" by (cases s) auto
  moreover have "dropWhile is_whitespace (rev s) = rev s" using s by (cases s rule: rev_cases) auto
  ultimately show ?thesis by (simp add: trim_def trim_end_def)
qed

lemma split_crlf_line: "list_all printable l \<Longrightarrow> split_crlf (l @ crlf @ r) = l # split_crlf r"
  by (induction l) (auto dest: printable_not_cr)

lemma split_crlf_last: "list_all printable l \<Longrightarrow> split_crlf l = [l]"
  by (induction l) (auto dest: printable_not_cr)

lemma split_join_crlf: "ls \<noteq> [] \<Longrightarrow> list_all (list_all printable) ls \<Longrightarrow> split_crlf (join_crlf ls) = ls"
proof (induction ls rule: join_crlf.induct)
  case (3 l k ks)
  then show ?case using split_crlf_line [of l "join_crlf (k # ks)"] by simp
qed (simp_all add: split_crlf_last)

lemma as_bytes_no_cr: "list_all printable l \<Longrightarrow> 13 \<notin> set (as_bytes l)"
proof -
  assume l: "list_all printable l"
  have "word_of_nat (code c) \<noteq> (13 :: u8)" if "c \<in> set l" for c
  proof
    assume "word_of_nat (code c) = (13 :: u8)"
    then have "unat (word_of_nat (code c) :: u8) = 13" by simp
    then have "code c = 13" by simp
    with l that show False by (auto simp: list_all_iff printable_def)
  qed
  then show ?thesis by auto
qed

lemma header_end_found:
  "ls \<noteq> [] \<Longrightarrow> list_all (\<lambda>l. l \<noteq> [] \<and> list_all printable l) ls \<Longrightarrow>
   find_str [13, 10, 13, 10] (as_bytes (join_crlf ls) @ [13, 10, 13, 10] @ content) = Some (length (join_crlf ls))"
proof (induction ls rule: join_crlf.induct)
  case (2 l)
  then have "13 \<notin> set (as_bytes l)" by (intro as_bytes_no_cr) simp
  then have "find_str [13, 10, 13, 10] (as_bytes l @ [13, 10, 13, 10] @ content) =
      map_option (\<lambda>i. length (as_bytes l) + i) (find_str [13, 10, 13, 10] ([13, 10, 13, 10] @ content))"
    by (intro find_str_skip) simp_all
  then show ?case by (simp add: find_str_here)
next
  case (3 l k ks)
  let ?r = "as_bytes (join_crlf (k # ks)) @ [13, 10, 13, 10] @ content"
  have "13 \<notin> set (as_bytes l)" using 3 by (intro as_bytes_no_cr) simp
  then have "find_str [13, 10, 13, 10] (as_bytes l @ [13, 10] @ ?r) =
      map_option (\<lambda>i. length (as_bytes l) + i) (find_str [13, 10, 13, 10] ([13, 10] @ ?r))"
    by (intro find_str_skip) simp_all
  moreover obtain c where c: "hd ?r = c" "c \<noteq> 13" "?r \<noteq> []"
  proof -
    have "k \<noteq> []" "list_all printable k" using 3 by simp_all
    then have "hd ?r = hd (as_bytes k)" by (cases ks) (auto simp: hd_append)
    moreover have "hd (as_bytes k) \<in> set (as_bytes k)" using \<open>k \<noteq> []\<close> by (intro hd_in_set) simp
    ultimately have "hd ?r \<noteq> 13" using as_bytes_no_cr [OF \<open>list_all printable k\<close>] by metis
    then show ?thesis using that by simp
  qed
  then have "find_str [13, 10, 13, 10] ([13, 10] @ ?r) = map_option (\<lambda>i. 2 + i) (find_str [13, 10, 13, 10] ?r)"
    by (cases ?r) (auto simp: option.map_comp comp_def)
  ultimately show ?case using 3 by (simp add: code_def)
qed simp

definition header_of :: "(string \<times> string) list \<Rightarrow> string \<Rightarrow> string option" where
  "header_of headers name = map_option (\<lambda>h. to_lowercase (snd h)) (List.find (\<lambda>h. to_lowercase (fst h) = to_lowercase name) headers)"

definition headers_ok :: "(string \<times> string) list \<Rightarrow> bool" where
  "headers_ok headers \<longleftrightarrow> list_all (\<lambda>h. word (fst h) \<and> CHR '':'' \<notin> set (fst h) \<and> word (snd h)) headers"

lemma find_header_lines: "headers_ok headers \<Longrightarrow> find_header name (map header_line headers) = header_of headers name"
proof (induction headers)
  case (Cons h headers)
  then have h: "word (fst h)" "CHR '':'' \<notin> set (fst h)" "word (snd h)" and ok: "headers_ok headers" by (simp_all add: headers_ok_def)
  have "split_once (CHR '':'') (header_line h) = Some (fst h, '' '' @ snd h)"
    using split_once_append [OF h(2)] by (simp add: header_line_def)
  moreover have "trim ('' '' @ snd h) = snd h" using trim_word [OF h(3)] by (simp add: trim_def is_whitespace_def code_def)
  ultimately show ?case using Cons.IH [OF ok] trim_word [OF h(1)] by (simp add: header_of_def)
qed (simp add: header_of_def)

lemma http_lines_ok:
  assumes "list_all printable reason" "headers_ok headers"
  shows "list_all (\<lambda>l. l \<noteq> [] \<and> list_all printable l) (http_lines status reason headers)"
proof -
  have "list_all printable (nat_digits status)" by (auto simp: list_all_iff is_digit_def printable_def dest!: nat_digits_digits)
  moreover have "list_all (\<lambda>l. l \<noteq> [] \<and> list_all printable l) (map header_line headers)"
    using assms(2) word_printable by (auto simp: headers_ok_def header_line_def list_all_iff) (simp_all add: printable_def code_def)
  ultimately show ?thesis using assms(1) by (simp add: http_lines_def) (simp add: printable_def code_def)
qed


definition plain_zlib :: zlib where
  "plain_zlib = \<lparr>zlib_available = False, inflate_all = \<lambda>bs n. Inr bs\<rparr>"


end
