(* ===== verification/Fallback_Dirs.thy ===== *)
theory Fallback_Dirs
  imports Tor_Prelude
begin

text \<open>
  The fallback directory mirrors compiled into the program, \<^verbatim>\<open>src/tor/dir/fallback.rs\<close>, in the order of the
  source and in pieces of eighteen.
\<close>

record fallback_dir =
  fd_ipv4 :: bytes
  fd_or_port :: nat
  fd_rsa_identity :: bytes

definition fallback_dirs_1 :: "fallback_dir list" where
  "fallback_dirs_1 = [
     \<lparr>fd_ipv4 = [64, 65, 62, 122], fd_or_port = 443, fd_rsa_identity = [0x4F, 0x06, 0x7C, 0x5C, 0x48, 0x81, 0x73, 0x98, 0x7B, 0x56, 0x8C, 0xD7, 0x24, 0x5F, 0x1C, 0xA7, 0x1D, 0xEE, 0x99, 0x6B]\<rparr>,
     \<lparr>fd_ipv4 = [162, 19, 252, 137], fd_or_port = 9200, fd_rsa_identity = [0xE0, 0x60, 0x87, 0x45, 0xED, 0x23, 0x7A, 0x91, 0x8A, 0x73, 0xA3, 0x70, 0x53, 0x80, 0x23, 0x33, 0x0F, 0x1B, 0xF4, 0x5D]\<rparr>,
     \<lparr>fd_ipv4 = [185, 183, 157, 214], fd_or_port = 9100, fd_rsa_identity = [0x5B, 0xDD, 0x06, 0x33, 0xE0, 0xAC, 0x09, 0x76, 0x3E, 0x49, 0x64, 0x1D, 0xCD, 0x1B, 0xA3, 0xAB, 0x3A, 0x21, 0xAA, 0x83]\<rparr>,
     \<lparr>fd_ipv4 = [185, 243, 218, 225], fd_or_port = 8166, fd_rsa_identity = [0x32, 0x87, 0xF7, 0x9D, 0x9C, 0x16, 0x87, 0xBF, 0x7F, 0x3A, 0x9D, 0x14, 0x03, 0x69, 0xCA, 0x64, 0xD2, 0xFD, 0x11, 0x1B]\<rparr>,
     \<lparr>fd_ipv4 = [96, 9, 98, 136], fd_or_port = 443, fd_rsa_identity = [0x6E, 0xAD, 0xE4, 0xA3, 0x9A, 0xB8, 0x9F, 0x1C, 0x6B, 0xF9, 0x89, 0x66, 0x8C, 0xC0, 0x46, 0xE9, 0xC6, 0xAD, 0xFC, 0x5A]\<rparr>,
     \<lparr>fd_ipv4 = [178, 254, 18, 25], fd_or_port = 9001, fd_rsa_identity = [0x19, 0x32, 0xC6, 0xB0, 0xB3, 0xD1, 0x5F, 0x6C, 0xDA, 0x47, 0x63, 0x2F, 0xB2, 0x25, 0x7A, 0x5D, 0xF3, 0xBC, 0x01, 0x4F]\<rparr>,
     \<lparr>fd_ipv4 = [8, 211, 31, 18], fd_or_port = 9002, fd_rsa_identity = [0x49, 0xAD, 0x06, 0xA9, 0x55, 0x60, 0x54, 0x36, 0xC0, 0x44, 0x59, 0xE2, 0x47, 0xA7, 0x24, 0xC2, 0x31, 0x23, 0x4A, 0xEA]\<rparr>,
     \<lparr>fd_ipv4 = [149, 172, 60, 95], fd_or_port = 443, fd_rsa_identity = [0x70, 0xF3, 0x5F, 0xF5, 0x9D, 0x6F, 0x37, 0x95, 0x9A, 0x6D, 0x9B, 0x90, 0x89, 0xBB, 0x31, 0xC5, 0xD7, 0x3F, 0x39, 0x56]\<rparr>,
     \<lparr>fd_ipv4 = [195, 154, 200, 146], fd_or_port = 80, fd_rsa_identity = [0x60, 0xA2, 0x11, 0xF2, 0x0E, 0x74, 0xC7, 0xD2, 0xD8, 0x84, 0xBA, 0x49, 0x20, 0x29, 0x64, 0xF5, 0xC9, 0x4F, 0xA0, 0x15]\<rparr>,
     \<lparr>fd_ipv4 = [15, 204, 141, 95], fd_or_port = 8080, fd_rsa_identity = [0x32, 0x74, 0x2A, 0xD5, 0x7C, 0x3D, 0x24, 0x3D, 0xA0, 0x71, 0x3B, 0xB6, 0xDF, 0xD8, 0x21, 0x18, 0xDF, 0x57, 0x3D, 0x2E]\<rparr>,
     \<lparr>fd_ipv4 = [217, 154, 63, 133], fd_or_port = 9001, fd_rsa_identity = [0x73, 0x0C, 0x20, 0x7C, 0x0B, 0x7A, 0x9B, 0x48, 0xB4, 0x99, 0x12, 0x13, 0xE1, 0xF5, 0xBA, 0x26, 0xA2, 0xE7, 0x21, 0xCF]\<rparr>,
     \<lparr>fd_ipv4 = [136, 243, 176, 179], fd_or_port = 9002, fd_rsa_identity = [0xA2, 0x08, 0xC6, 0x6E, 0x3B, 0xAF, 0x32, 0xB7, 0x09, 0x20, 0xEB, 0x6A, 0xF8, 0x08, 0x1F, 0x7C, 0xFA, 0x5D, 0xB1, 0xD1]\<rparr>,
     \<lparr>fd_ipv4 = [170, 117, 192, 249], fd_or_port = 420, fd_rsa_identity = [0x01, 0xE8, 0xA8, 0x1D, 0x47, 0xC4, 0x88, 0xC5, 0x40, 0x64, 0xD2, 0x0F, 0xEB, 0xC3, 0xB9, 0x92, 0x8C, 0xAD, 0xA5, 0x02]\<rparr>,
     \<lparr>fd_ipv4 = [162, 19, 204, 163], fd_or_port = 10000, fd_rsa_identity = [0x5C, 0x42, 0x67, 0x91, 0xCB, 0x47, 0xBD, 0xDD, 0xD9, 0x7A, 0x71, 0xEB, 0x2E, 0xFC, 0x4C, 0xCC, 0x84, 0xDE, 0xB2, 0x99]\<rparr>,
     \<lparr>fd_ipv4 = [192, 76, 153, 253], fd_or_port = 9005, fd_rsa_identity = [0x6D, 0xAD, 0x7A, 0xF8, 0x18, 0xF4, 0xE1, 0xCD, 0xA7, 0x90, 0x9D, 0xF2, 0xE4, 0x01, 0x8A, 0x99, 0x8B, 0xE2, 0x11, 0x13]\<rparr>,
     \<lparr>fd_ipv4 = [23, 191, 200, 25], fd_or_port = 443, fd_rsa_identity = [0x19, 0x38, 0xF8, 0x05, 0xDE, 0xA6, 0x5F, 0x2F, 0x35, 0x11, 0x34, 0x46, 0x5B, 0xF5, 0xD5, 0xF3, 0x81, 0x5E, 0x52, 0x35]\<rparr>,
     \<lparr>fd_ipv4 = [78, 80, 158, 218], fd_or_port = 433, fd_rsa_identity = [0x06, 0x16, 0x50, 0x00, 0x05, 0x2A, 0x06, 0xFF, 0x3C, 0x6C, 0x2B, 0x8A, 0x77, 0x73, 0x83, 0x36, 0x22, 0xD6, 0xAF, 0x70]\<rparr>,
     \<lparr>fd_ipv4 = [37, 221, 208, 7], fd_or_port = 9100, fd_rsa_identity = [0xF7, 0x95, 0x75, 0x6C, 0x04, 0xD2, 0x45, 0x8C, 0xEE, 0xCA, 0x24, 0x96, 0x13, 0xA5, 0x8B, 0xBA, 0xBF, 0xD7, 0x01, 0x43]\<rparr>]"

definition fallback_dirs_2 :: "fallback_dir list" where
  "fallback_dirs_2 = [
     \<lparr>fd_ipv4 = [80, 67, 167, 86], fd_or_port = 9001, fd_rsa_identity = [0x22, 0xD2, 0x31, 0x4B, 0xC5, 0x14, 0x68, 0x90, 0xA8, 0xE5, 0xC1, 0x9C, 0x88, 0x4D, 0x96, 0xC0, 0xCB, 0xFE, 0xAA, 0x24]\<rparr>,
     \<lparr>fd_ipv4 = [62, 72, 47, 105], fd_or_port = 8430, fd_rsa_identity = [0xD4, 0xC4, 0xD0, 0x16, 0x25, 0xAF, 0x14, 0x73, 0xA8, 0xAE, 0xAB, 0xB2, 0x8C, 0xDE, 0x7E, 0xC8, 0xD5, 0x53, 0xC4, 0x28]\<rparr>,
     \<lparr>fd_ipv4 = [75, 145, 166, 75], fd_or_port = 9001, fd_rsa_identity = [0x29, 0x71, 0x18, 0x24, 0xA4, 0x9E, 0xCE, 0x59, 0x5B, 0x9B, 0x29, 0x59, 0x47, 0x59, 0xFD, 0x7C, 0xDF, 0x5B, 0x1B, 0xA8]\<rparr>,
     \<lparr>fd_ipv4 = [185, 112, 249, 156], fd_or_port = 443, fd_rsa_identity = [0xB8, 0x6F, 0x28, 0xE6, 0x3E, 0x79, 0x72, 0xC5, 0x33, 0xD1, 0xF2, 0x0C, 0xB9, 0x4F, 0x0F, 0x0A, 0xAF, 0xF3, 0xDC, 0x5B]\<rparr>,
     \<lparr>fd_ipv4 = [144, 76, 26, 58], fd_or_port = 9001, fd_rsa_identity = [0x26, 0xBC, 0x51, 0x09, 0xEE, 0x34, 0x95, 0xF4, 0x65, 0x5D, 0x13, 0x3B, 0xBE, 0x0A, 0x77, 0xFE, 0x16, 0x08, 0xD9, 0xA7]\<rparr>,
     \<lparr>fd_ipv4 = [82, 153, 138, 57], fd_or_port = 9007, fd_rsa_identity = [0x7A, 0xD8, 0x0E, 0x51, 0xB0, 0xD3, 0x86, 0x7A, 0x8E, 0x32, 0x78, 0x50, 0x38, 0xEA, 0x37, 0xE4, 0x1B, 0xF4, 0xA2, 0xB2]\<rparr>,
     \<lparr>fd_ipv4 = [147, 90, 235, 228], fd_or_port = 9000, fd_rsa_identity = [0xD8, 0x06, 0xEC, 0x0E, 0x00, 0xD5, 0xE9, 0xE8, 0x3C, 0x66, 0x1E, 0x07, 0xA9, 0x58, 0x9C, 0x3F, 0xE5, 0x58, 0x3F, 0xB3]\<rparr>,
     \<lparr>fd_ipv4 = [103, 152, 178, 73], fd_or_port = 9001, fd_rsa_identity = [0xCD, 0x2E, 0xAA, 0xE3, 0x55, 0x2F, 0x0F, 0x73, 0xB9, 0xC6, 0x9F, 0xE3, 0x30, 0x1D, 0xF0, 0xA2, 0xBA, 0x57, 0xCF, 0xD4]\<rparr>,
     \<lparr>fd_ipv4 = [81, 245, 98, 184], fd_or_port = 4096, fd_rsa_identity = [0x9B, 0x26, 0x0A, 0xFE, 0x88, 0xF6, 0x9D, 0x6C, 0x7C, 0x98, 0x11, 0x73, 0xE2, 0x1A, 0xD8, 0x24, 0x3C, 0xA7, 0xC4, 0x2A]\<rparr>,
     \<lparr>fd_ipv4 = [195, 58, 58, 72], fd_or_port = 443, fd_rsa_identity = [0xD1, 0xA3, 0x9C, 0x70, 0x16, 0x9F, 0x2C, 0x4B, 0x69, 0x0D, 0xC9, 0xB6, 0xE7, 0xB0, 0x3C, 0x3B, 0x9A, 0xBE, 0x90, 0x7B]\<rparr>,
     \<lparr>fd_ipv4 = [64, 65, 1, 6], fd_or_port = 443, fd_rsa_identity = [0x61, 0xFD, 0xC2, 0x0A, 0x73, 0xFD, 0x35, 0xD9, 0x6C, 0x3B, 0xE5, 0xEE, 0x98, 0x41, 0x56, 0x21, 0x0B, 0x10, 0xA4, 0x91]\<rparr>,
     \<lparr>fd_ipv4 = [45, 13, 225, 78], fd_or_port = 9001, fd_rsa_identity = [0x30, 0x1D, 0xD6, 0x21, 0xB6, 0x8D, 0x0B, 0x72, 0x57, 0xEA, 0x22, 0x1F, 0xD9, 0x38, 0xD3, 0x4F, 0xE3, 0x79, 0x4B, 0xEE]\<rparr>,
     \<lparr>fd_ipv4 = [217, 23, 8, 2], fd_or_port = 9001, fd_rsa_identity = [0xB4, 0x2C, 0x79, 0x7C, 0xC8, 0xCD, 0x63, 0xC6, 0x0F, 0xB6, 0x43, 0xE8, 0x20, 0xA1, 0x1D, 0x11, 0x3D, 0xF4, 0xF5, 0xC8]\<rparr>,
     \<lparr>fd_ipv4 = [135, 125, 103, 47], fd_or_port = 9001, fd_rsa_identity = [0xC4, 0x60, 0xE8, 0xA7, 0x02, 0x59, 0x2E, 0xF5, 0x21, 0x16, 0x46, 0x6B, 0xBA, 0x27, 0x25, 0xE1, 0x1F, 0xB8, 0x2A, 0xC9]\<rparr>,
     \<lparr>fd_ipv4 = [80, 67, 172, 162], fd_or_port = 4443, fd_rsa_identity = [0x04, 0x29, 0x44, 0xE1, 0x39, 0x50, 0x8E, 0x6A, 0x84, 0x95, 0xAA, 0x1F, 0x6F, 0x32, 0x0D, 0x10, 0x87, 0xD8, 0x49, 0x30]\<rparr>,
     \<lparr>fd_ipv4 = [82, 141, 122, 156], fd_or_port = 442, fd_rsa_identity = [0x09, 0xDD, 0x0F, 0x81, 0x18, 0x08, 0x09, 0x1D, 0xAC, 0xA2, 0x86, 0xCB, 0x50, 0xCF, 0x85, 0x91, 0x94, 0x16, 0xAB, 0xD4]\<rparr>,
     \<lparr>fd_ipv4 = [171, 25, 193, 39], fd_or_port = 81, fd_rsa_identity = [0x9A, 0x56, 0x1C, 0xA5, 0x79, 0xF0, 0x91, 0x8D, 0x4E, 0x0C, 0x7A, 0x85, 0x33, 0x80, 0x1B, 0x91, 0xC5, 0x6F, 0xD6, 0x05]\<rparr>,
     \<lparr>fd_ipv4 = [212, 132, 97, 196], fd_or_port = 443, fd_rsa_identity = [0x7E, 0x74, 0xAE, 0xB8, 0x64, 0xE7, 0x38, 0x6E, 0x04, 0x1C, 0x55, 0x51, 0xDD, 0x6C, 0xE7, 0xC0, 0xC8, 0xB5, 0xFE, 0x9F]\<rparr>]"

definition fallback_dirs_3 :: "fallback_dir list" where
  "fallback_dirs_3 = [
     \<lparr>fd_ipv4 = [188, 213, 94, 245], fd_or_port = 9001, fd_rsa_identity = [0x1D, 0x22, 0xFD, 0xB0, 0x94, 0x13, 0x2E, 0x41, 0x51, 0x74, 0x96, 0x8B, 0xC0, 0xB5, 0x2A, 0x53, 0xB3, 0x86, 0xD2, 0x9C]\<rparr>,
     \<lparr>fd_ipv4 = [23, 191, 200, 22], fd_or_port = 443, fd_rsa_identity = [0x82, 0x19, 0x21, 0xA4, 0xF1, 0x8B, 0x2E, 0x15, 0x21, 0x53, 0xC8, 0x13, 0x8E, 0x69, 0x89, 0xFA, 0x48, 0x74, 0x51, 0x80]\<rparr>,
     \<lparr>fd_ipv4 = [66, 146, 193, 33], fd_or_port = 9001, fd_rsa_identity = [0x20, 0x37, 0xA6, 0x56, 0x8C, 0x57, 0x71, 0xA5, 0xD8, 0xFF, 0x5C, 0x64, 0xFC, 0x18, 0x19, 0x24, 0x7E, 0x6F, 0xEE, 0x7B]\<rparr>,
     \<lparr>fd_ipv4 = [45, 137, 201, 5], fd_or_port = 9001, fd_rsa_identity = [0xC4, 0xFE, 0xAB, 0xB1, 0xC0, 0xF7, 0x70, 0x93, 0x12, 0xB3, 0x33, 0x45, 0x04, 0x0F, 0xBC, 0x29, 0x68, 0x28, 0x77, 0xDE]\<rparr>,
     \<lparr>fd_ipv4 = [193, 189, 100, 198], fd_or_port = 443, fd_rsa_identity = [0xFD, 0xD9, 0xCD, 0x74, 0x06, 0x58, 0x2E, 0x0B, 0x56, 0xC4, 0xA2, 0x7D, 0x44, 0x12, 0x6A, 0xE8, 0x43, 0xEA, 0xF6, 0xDD]\<rparr>,
     \<lparr>fd_ipv4 = [162, 201, 194, 145], fd_or_port = 9001, fd_rsa_identity = [0x34, 0x5F, 0x57, 0x6F, 0x29, 0xCA, 0x1F, 0x2A, 0x3B, 0x86, 0x26, 0x2A, 0x61, 0x65, 0xE2, 0xF9, 0xF1, 0xAA, 0xAD, 0x8D]\<rparr>,
     \<lparr>fd_ipv4 = [45, 83, 104, 137], fd_or_port = 9600, fd_rsa_identity = [0xCF, 0xF9, 0xC1, 0x80, 0x36, 0xD4, 0x01, 0x57, 0x9C, 0x47, 0x31, 0x77, 0xC0, 0xD9, 0x5B, 0x46, 0x3A, 0xD3, 0x71, 0xF7]\<rparr>,
     \<lparr>fd_ipv4 = [128, 52, 132, 189], fd_or_port = 9002, fd_rsa_identity = [0xCE, 0xE4, 0x65, 0xA0, 0x48, 0xF5, 0xF5, 0x32, 0x61, 0xF4, 0x18, 0xC5, 0x25, 0x7A, 0x42, 0x85, 0xE7, 0x3C, 0x3C, 0x66]\<rparr>,
     \<lparr>fd_ipv4 = [128, 232, 113, 47], fd_or_port = 9001, fd_rsa_identity = [0x24, 0x27, 0xE3, 0x74, 0x29, 0xBD, 0x1E, 0x5E, 0xE0, 0x94, 0xBD, 0xDF, 0x41, 0x7D, 0x1D, 0x2B, 0xE2, 0xA2, 0xC8, 0x03]\<rparr>,
     \<lparr>fd_ipv4 = [50, 7, 154, 218], fd_or_port = 443, fd_rsa_identity = [0x14, 0x42, 0xF4, 0x0C, 0xA3, 0x3A, 0xC2, 0x94, 0x41, 0xF5, 0x4E, 0xF6, 0x96, 0xFC, 0xC0, 0x4A, 0x5A, 0x16, 0xC3, 0x07]\<rparr>,
     \<lparr>fd_ipv4 = [158, 69, 201, 83], fd_or_port = 9001, fd_rsa_identity = [0xC2, 0x5A, 0x98, 0x2D, 0xCF, 0xE8, 0x6D, 0x64, 0x72, 0x73, 0xCD, 0x66, 0xC4, 0x78, 0xEE, 0x0A, 0x11, 0x93, 0xFE, 0x4E]\<rparr>,
     \<lparr>fd_ipv4 = [64, 65, 1, 128], fd_or_port = 443, fd_rsa_identity = [0x2F, 0x32, 0x39, 0x7F, 0x39, 0xD5, 0x8E, 0x88, 0xB0, 0x86, 0x36, 0x21, 0xFC, 0x58, 0xC6, 0xD7, 0xF5, 0x94, 0x91, 0xB3]\<rparr>,
     \<lparr>fd_ipv4 = [192, 42, 116, 29], fd_or_port = 443, fd_rsa_identity = [0x00, 0x7B, 0xE0, 0x13, 0x11, 0xB9, 0x8A, 0xEF, 0xDF, 0xDC, 0xB7, 0xF4, 0xA2, 0xF1, 0x67, 0x29, 0x6E, 0x69, 0x68, 0x25]\<rparr>,
     \<lparr>fd_ipv4 = [96, 9, 98, 90], fd_or_port = 443, fd_rsa_identity = [0x91, 0x1B, 0xE3, 0xF1, 0x6F, 0xA3, 0x60, 0x9A, 0x05, 0x6F, 0xFF, 0x56, 0x81, 0x4C, 0xAC, 0xD6, 0xF8, 0x66, 0x9E, 0x53]\<rparr>,
     \<lparr>fd_ipv4 = [213, 144, 142, 24], fd_or_port = 9001, fd_rsa_identity = [0x4B, 0x58, 0x2F, 0x3F, 0x4B, 0xB4, 0xDE, 0x56, 0xD7, 0x72, 0x8D, 0xEB, 0x22, 0xAA, 0x25, 0x53, 0x50, 0x87, 0x0F, 0x98]\<rparr>,
     \<lparr>fd_ipv4 = [185, 220, 101, 199], fd_or_port = 8443, fd_rsa_identity = [0xE1, 0xAF, 0x53, 0x73, 0xE3, 0x24, 0x05, 0x66, 0xB5, 0x98, 0xFA, 0x48, 0x1A, 0xD3, 0x86, 0x05, 0x49, 0xF6, 0x16, 0x8B]\<rparr>,
     \<lparr>fd_ipv4 = [109, 70, 100, 246], fd_or_port = 9010, fd_rsa_identity = [0xE8, 0xCC, 0xA1, 0xC6, 0x1E, 0xBA, 0x16, 0x14, 0xBA, 0xB6, 0xB5, 0xCA, 0x79, 0x2B, 0xDC, 0x68, 0x7F, 0x39, 0x7B, 0x4F]\<rparr>,
     \<lparr>fd_ipv4 = [193, 189, 100, 199], fd_or_port = 444, fd_rsa_identity = [0xE3, 0x42, 0x6F, 0x15, 0xA2, 0x22, 0xDA, 0x87, 0x88, 0x61, 0x52, 0x24, 0x72, 0x27, 0x99, 0x97, 0x59, 0x43, 0xEE, 0x63]\<rparr>]"

definition fallback_dirs_4 :: "fallback_dir list" where
  "fallback_dirs_4 = [
     \<lparr>fd_ipv4 = [93, 237, 51, 47], fd_or_port = 30003, fd_rsa_identity = [0x8A, 0xFE, 0x4E, 0x6F, 0x05, 0x23, 0x4B, 0x01, 0x84, 0x32, 0x7C, 0x05, 0x2B, 0x09, 0xF1, 0x01, 0x91, 0xEA, 0xFA, 0xF3]\<rparr>,
     \<lparr>fd_ipv4 = [82, 221, 131, 86], fd_or_port = 8443, fd_rsa_identity = [0xEE, 0xEB, 0xDC, 0x06, 0x6C, 0x59, 0x14, 0x3A, 0x2C, 0x61, 0x4D, 0xE6, 0x60, 0x06, 0x01, 0xED, 0xAB, 0x85, 0xC2, 0xB9]\<rparr>,
     \<lparr>fd_ipv4 = [102, 211, 56, 112], fd_or_port = 80, fd_rsa_identity = [0xEB, 0x0E, 0xEE, 0x7C, 0x95, 0xD2, 0xB4, 0x32, 0x41, 0x15, 0xC0, 0x7F, 0xE1, 0x75, 0xCB, 0x1D, 0x1D, 0xF1, 0x8B, 0x99]\<rparr>,
     \<lparr>fd_ipv4 = [135, 125, 183, 193], fd_or_port = 9200, fd_rsa_identity = [0xD9, 0x5E, 0xA1, 0x20, 0x34, 0x05, 0x06, 0xCB, 0x35, 0xA3, 0x25, 0x12, 0xCB, 0xAC, 0xFD, 0x67, 0x1C, 0xC0, 0xA6, 0x13]\<rparr>,
     \<lparr>fd_ipv4 = [171, 25, 193, 25], fd_or_port = 444, fd_rsa_identity = [0x97, 0xF7, 0x0D, 0x82, 0x46, 0x6B, 0x7E, 0xC1, 0x79, 0x64, 0x17, 0x53, 0x49, 0x0E, 0xFF, 0x91, 0xA5, 0x2C, 0x79, 0x0C]\<rparr>,
     \<lparr>fd_ipv4 = [23, 129, 64, 220], fd_or_port = 443, fd_rsa_identity = [0xEE, 0xD7, 0xEF, 0xB9, 0xD4, 0x9F, 0xF1, 0xD7, 0x13, 0xF3, 0xFA, 0x40, 0x83, 0xA3, 0x6E, 0xB9, 0x7B, 0xA1, 0x84, 0x06]\<rparr>,
     \<lparr>fd_ipv4 = [23, 191, 200, 23], fd_or_port = 443, fd_rsa_identity = [0x7A, 0xC2, 0x5D, 0xC9, 0xE4, 0x60, 0x61, 0x54, 0xDE, 0x38, 0x30, 0x5B, 0xDC, 0x5A, 0x40, 0xBC, 0xBC, 0xB6, 0xD0, 0x4A]\<rparr>,
     \<lparr>fd_ipv4 = [162, 216, 18, 62], fd_or_port = 443, fd_rsa_identity = [0x46, 0x0C, 0xB7, 0x2A, 0x11, 0xA5, 0x94, 0x8F, 0xDD, 0xDE, 0x03, 0x26, 0x03, 0xDD, 0xBE, 0xB8, 0x37, 0xAF, 0x66, 0x2C]\<rparr>,
     \<lparr>fd_ipv4 = [194, 156, 89, 6], fd_or_port = 9003, fd_rsa_identity = [0xDB, 0x9B, 0x9D, 0x7E, 0xD5, 0x00, 0x46, 0xDC, 0x52, 0xD5, 0xA0, 0x93, 0x68, 0xE1, 0xC5, 0x3E, 0x81, 0xD4, 0x0D, 0xE5]\<rparr>,
     \<lparr>fd_ipv4 = [141, 105, 130, 119], fd_or_port = 9001, fd_rsa_identity = [0x24, 0x9C, 0x70, 0x6F, 0x0F, 0x36, 0x04, 0x29, 0xF3, 0x67, 0x71, 0x9F, 0x01, 0xA2, 0x24, 0x61, 0x86, 0xBC, 0x8B, 0x17]\<rparr>,
     \<lparr>fd_ipv4 = [193, 142, 59, 74], fd_or_port = 9100, fd_rsa_identity = [0xFD, 0x16, 0x25, 0x50, 0xA0, 0x02, 0x34, 0xED, 0x29, 0xE4, 0x1C, 0xE1, 0xC7, 0x8C, 0x63, 0x74, 0x1C, 0xD1, 0x03, 0x7E]\<rparr>,
     \<lparr>fd_ipv4 = [5, 255, 101, 10], fd_or_port = 443, fd_rsa_identity = [0x31, 0xEF, 0x78, 0xB9, 0x01, 0x9D, 0x61, 0xCF, 0x25, 0x9B, 0x22, 0x3D, 0xB9, 0xF8, 0x09, 0x40, 0x99, 0x4E, 0xDA, 0x34]\<rparr>,
     \<lparr>fd_ipv4 = [68, 67, 32, 31], fd_or_port = 9001, fd_rsa_identity = [0x96, 0x4B, 0x4E, 0x8A, 0x75, 0x26, 0x3A, 0x69, 0x76, 0x95, 0x41, 0xF2, 0x76, 0x45, 0x63, 0xDA, 0xBD, 0xD9, 0x95, 0xD2]\<rparr>,
     \<lparr>fd_ipv4 = [146, 59, 15, 186], fd_or_port = 9001, fd_rsa_identity = [0xFF, 0xB4, 0xBF, 0x2A, 0xE8, 0x96, 0xCA, 0x8E, 0x7B, 0x3C, 0x41, 0x98, 0x55, 0x34, 0x64, 0x15, 0xD7, 0x43, 0xE8, 0x89]\<rparr>,
     \<lparr>fd_ipv4 = [45, 137, 199, 102], fd_or_port = 9001, fd_rsa_identity = [0xDA, 0x8C, 0x9D, 0x50, 0x99, 0x89, 0xF8, 0x17, 0x5E, 0xC3, 0xE4, 0x87, 0x78, 0x88, 0x15, 0xF7, 0xBA, 0xD2, 0xDA, 0xEC]\<rparr>,
     \<lparr>fd_ipv4 = [67, 215, 234, 141], fd_or_port = 8430, fd_rsa_identity = [0xAD, 0xC3, 0x5E, 0x76, 0x9B, 0x42, 0xA3, 0xCA, 0xB8, 0x55, 0x7E, 0x0B, 0x52, 0x95, 0xD3, 0xF1, 0x52, 0x59, 0x5E, 0xF8]\<rparr>,
     \<lparr>fd_ipv4 = [193, 108, 117, 103], fd_or_port = 9001, fd_rsa_identity = [0x43, 0x8F, 0x3E, 0xA4, 0xC9, 0xFB, 0x0D, 0xB6, 0x3F, 0x53, 0x77, 0xA3, 0x27, 0x1A, 0xB5, 0x43, 0x5F, 0xAD, 0x7E, 0x04]\<rparr>,
     \<lparr>fd_ipv4 = [84, 238, 10, 142], fd_or_port = 19001, fd_rsa_identity = [0xF1, 0x2F, 0x8D, 0xFD, 0xDE, 0x19, 0x69, 0xD4, 0xE5, 0x94, 0x07, 0x81, 0xE3, 0xDA, 0xB3, 0x26, 0xD2, 0x8C, 0x12, 0x20]\<rparr>]"

definition fallback_dirs_5 :: "fallback_dir list" where
  "fallback_dirs_5 = [
     \<lparr>fd_ipv4 = [185, 82, 126, 57], fd_or_port = 443, fd_rsa_identity = [0xFF, 0xAF, 0x28, 0x49, 0xEE, 0xD3, 0xBB, 0xB6, 0x60, 0x31, 0x17, 0x35, 0x51, 0xCF, 0xD5, 0xE3, 0x9E, 0xCE, 0xA3, 0x24]\<rparr>,
     \<lparr>fd_ipv4 = [147, 90, 234, 30], fd_or_port = 9003, fd_rsa_identity = [0x5A, 0xE8, 0xD6, 0x14, 0x8C, 0xB3, 0xB1, 0x53, 0xAC, 0x63, 0x03, 0x98, 0x8A, 0x43, 0x48, 0x94, 0x9A, 0x12, 0x66, 0xF5]\<rparr>,
     \<lparr>fd_ipv4 = [82, 41, 132, 3], fd_or_port = 9001, fd_rsa_identity = [0x57, 0x9E, 0x92, 0xA3, 0x16, 0x80, 0x11, 0x11, 0x2B, 0xE4, 0x28, 0xE2, 0x8F, 0x1D, 0xB1, 0x2B, 0x84, 0x7E, 0xE6, 0x62]\<rparr>,
     \<lparr>fd_ipv4 = [96, 9, 98, 64], fd_or_port = 443, fd_rsa_identity = [0x8D, 0x69, 0xCB, 0xCD, 0x46, 0x50, 0x28, 0xB3, 0x06, 0x08, 0x0C, 0x55, 0xE8, 0xDF, 0x88, 0x58, 0xD9, 0x86, 0x02, 0x3D]\<rparr>,
     \<lparr>fd_ipv4 = [64, 65, 0, 120], fd_or_port = 443, fd_rsa_identity = [0xA0, 0x6E, 0x4A, 0xBE, 0x8E, 0x49, 0xE2, 0x5B, 0xDD, 0x1D, 0xB6, 0x18, 0xED, 0x26, 0x27, 0x06, 0x74, 0x2A, 0x21, 0x5B]\<rparr>,
     \<lparr>fd_ipv4 = [89, 58, 26, 216], fd_or_port = 7100, fd_rsa_identity = [0x39, 0xCE, 0x03, 0xA6, 0x60, 0x16, 0xB0, 0xD6, 0x9B, 0xC6, 0xC2, 0xA1, 0xF3, 0x62, 0xC6, 0x28, 0x43, 0x6F, 0xEF, 0x7B]\<rparr>,
     \<lparr>fd_ipv4 = [185, 229, 90, 81], fd_or_port = 993, fd_rsa_identity = [0xFE, 0xEB, 0xAB, 0xA2, 0xB6, 0xFA, 0xF5, 0x3A, 0xE1, 0xDC, 0x8D, 0xDA, 0x86, 0x81, 0xCE, 0x02, 0x65, 0x37, 0xDF, 0xA4]\<rparr>,
     \<lparr>fd_ipv4 = [64, 188, 93, 178], fd_or_port = 9001, fd_rsa_identity = [0x94, 0x35, 0x1C, 0xC9, 0xE1, 0x7E, 0x00, 0x74, 0x1D, 0x69, 0x4F, 0x0A, 0xC3, 0xCD, 0x57, 0xA9, 0xC2, 0x3E, 0x1A, 0x43]\<rparr>,
     \<lparr>fd_ipv4 = [194, 49, 71, 252], fd_or_port = 9001, fd_rsa_identity = [0x52, 0x7B, 0xFB, 0x3C, 0xE8, 0x19, 0xBE, 0x8D, 0x74, 0xC2, 0xA4, 0x88, 0xB8, 0x3A, 0x2F, 0x43, 0x32, 0xB8, 0x78, 0xB5]\<rparr>,
     \<lparr>fd_ipv4 = [96, 9, 98, 156], fd_or_port = 443, fd_rsa_identity = [0x18, 0xA6, 0x5F, 0xC4, 0x09, 0x84, 0x82, 0x56, 0x10, 0x1A, 0xE4, 0xAE, 0x90, 0xAF, 0xCA, 0xE2, 0xC0, 0x0E, 0x07, 0x76]\<rparr>,
     \<lparr>fd_ipv4 = [70, 39, 234, 182], fd_or_port = 9001, fd_rsa_identity = [0xAC, 0x68, 0xC9, 0x9B, 0x4B, 0x26, 0xE2, 0xB4, 0x72, 0x92, 0x37, 0xB0, 0xDB, 0xC7, 0x06, 0x50, 0x23, 0x69, 0x09, 0x40]\<rparr>,
     \<lparr>fd_ipv4 = [95, 17, 81, 188], fd_or_port = 9008, fd_rsa_identity = [0xE4, 0xCA, 0xBF, 0xB6, 0x03, 0x24, 0x8E, 0x0C, 0x97, 0x41, 0xEB, 0xA4, 0x92, 0x4F, 0x93, 0xA0, 0x44, 0x5F, 0x14, 0x2D]\<rparr>,
     \<lparr>fd_ipv4 = [91, 158, 13, 188], fd_or_port = 9001, fd_rsa_identity = [0x49, 0xB1, 0xEF, 0x77, 0x77, 0xC5, 0x60, 0x48, 0xD3, 0x0D, 0x3D, 0xD7, 0x56, 0xBE, 0x1E, 0xED, 0xFF, 0xDF, 0x47, 0x0C]\<rparr>,
     \<lparr>fd_ipv4 = [89, 47, 51, 90], fd_or_port = 443, fd_rsa_identity = [0x06, 0xF3, 0xE2, 0x89, 0x48, 0xA3, 0xC6, 0xE2, 0xBA, 0x8B, 0x0C, 0x7D, 0x10, 0x9C, 0x7B, 0xFC, 0x12, 0xD6, 0x9D, 0xC5]\<rparr>,
     \<lparr>fd_ipv4 = [85, 215, 67, 230], fd_or_port = 8443, fd_rsa_identity = [0xFA, 0x56, 0x1E, 0x53, 0x4D, 0xDD, 0xE6, 0x38, 0x30, 0xFA, 0x0B, 0x0A, 0x48, 0x42, 0x35, 0xED, 0x23, 0xBB, 0x27, 0xA3]\<rparr>,
     \<lparr>fd_ipv4 = [192, 42, 116, 144], fd_or_port = 443, fd_rsa_identity = [0x3D, 0xEE, 0x67, 0x99, 0x26, 0x79, 0xA7, 0x82, 0xBD, 0x81, 0xD2, 0x80, 0x12, 0x75, 0x44, 0x9C, 0x76, 0x37, 0x41, 0xE3]\<rparr>,
     \<lparr>fd_ipv4 = [51, 75, 141, 87], fd_or_port = 9100, fd_rsa_identity = [0xFC, 0x00, 0x3B, 0xAD, 0x97, 0xBC, 0x06, 0xBF, 0x4B, 0x1C, 0xEC, 0xB6, 0x42, 0x39, 0x29, 0xD6, 0x6F, 0xF3, 0x49, 0x32]\<rparr>,
     \<lparr>fd_ipv4 = [46, 165, 252, 48], fd_or_port = 9001, fd_rsa_identity = [0x9F, 0x74, 0xA7, 0x7E, 0xB9, 0xD7, 0x6F, 0x2F, 0xCC, 0xE5, 0x91, 0xC8, 0x9A, 0x26, 0xE0, 0xFD, 0xBD, 0x11, 0x0A, 0xB8]\<rparr>]"

definition fallback_dirs_6 :: "fallback_dir list" where
  "fallback_dirs_6 = [
     \<lparr>fd_ipv4 = [185, 100, 87, 141], fd_or_port = 9002, fd_rsa_identity = [0xEC, 0x5A, 0x78, 0xD5, 0x97, 0x47, 0x01, 0x19, 0x6C, 0x93, 0xE9, 0xD3, 0x26, 0xB8, 0x67, 0x2B, 0xC0, 0x4F, 0xAB, 0x7C]\<rparr>,
     \<lparr>fd_ipv4 = [89, 44, 193, 42], fd_or_port = 443, fd_rsa_identity = [0x67, 0x5C, 0x1C, 0xFC, 0x6F, 0xAB, 0xBF, 0xCB, 0xE4, 0xCB, 0x5B, 0xE7, 0x7C, 0xFE, 0x2A, 0x0A, 0x8F, 0x57, 0x5B, 0x8D]\<rparr>,
     \<lparr>fd_ipv4 = [178, 254, 44, 163], fd_or_port = 5126, fd_rsa_identity = [0x05, 0x01, 0x01, 0x1B, 0x32, 0xC7, 0x7C, 0x3F, 0xFE, 0x68, 0xDC, 0x4B, 0x3E, 0x40, 0xFC, 0x5D, 0x27, 0xF9, 0x50, 0x1B]\<rparr>,
     \<lparr>fd_ipv4 = [132, 243, 162, 13], fd_or_port = 443, fd_rsa_identity = [0xE3, 0x39, 0x97, 0x0C, 0x70, 0x21, 0xBB, 0x06, 0x6F, 0x03, 0x30, 0x83, 0xDC, 0x7F, 0x40, 0x2F, 0xC9, 0x5C, 0xFC, 0xFC]\<rparr>,
     \<lparr>fd_ipv4 = [91, 226, 144, 98], fd_or_port = 80, fd_rsa_identity = [0x1C, 0x75, 0xE1, 0xF0, 0x2A, 0x0A, 0x7C, 0xBB, 0x70, 0xE7, 0x2D, 0x19, 0x42, 0x98, 0xB3, 0xDA, 0x3A, 0x62, 0x2C, 0xDF]\<rparr>,
     \<lparr>fd_ipv4 = [78, 42, 200, 34], fd_or_port = 9601, fd_rsa_identity = [0x2F, 0x51, 0xD0, 0x74, 0x67, 0x65, 0x58, 0x0A, 0x0A, 0x48, 0xBC, 0xAA, 0x21, 0xB5, 0x6E, 0xCF, 0x79, 0x7B, 0x90, 0x3E]\<rparr>,
     \<lparr>fd_ipv4 = [51, 178, 136, 58], fd_or_port = 9100, fd_rsa_identity = [0x58, 0x21, 0x4F, 0x46, 0x0A, 0x2E, 0xB3, 0xEC, 0x74, 0x5D, 0xFE, 0xD3, 0x6D, 0x19, 0x03, 0x16, 0x13, 0x2A, 0xE3, 0xB1]\<rparr>,
     \<lparr>fd_ipv4 = [92, 60, 37, 247], fd_or_port = 443, fd_rsa_identity = [0x47, 0x18, 0x6E, 0x36, 0x31, 0x68, 0x90, 0x57, 0xA7, 0xEF, 0x22, 0x3E, 0xCC, 0x5D, 0x86, 0x91, 0x8A, 0x9E, 0x67, 0x9E]\<rparr>,
     \<lparr>fd_ipv4 = [209, 58, 180, 236], fd_or_port = 9001, fd_rsa_identity = [0x03, 0x71, 0xE4, 0xEC, 0x90, 0x1C, 0x4F, 0xC7, 0x7F, 0xEA, 0x2A, 0xA5, 0xBE, 0x42, 0x18, 0xF0, 0xBE, 0x1F, 0x6C, 0xE3]\<rparr>,
     \<lparr>fd_ipv4 = [147, 90, 235, 21], fd_or_port = 9100, fd_rsa_identity = [0x5C, 0xEA, 0x56, 0x32, 0x0C, 0x90, 0x4E, 0x73, 0x1A, 0xE8, 0x27, 0x86, 0x6C, 0x71, 0xB9, 0x0D, 0x50, 0x69, 0x6F, 0x6A]\<rparr>,
     \<lparr>fd_ipv4 = [96, 9, 98, 78], fd_or_port = 443, fd_rsa_identity = [0xC0, 0x57, 0x83, 0x30, 0x55, 0x58, 0x43, 0x2D, 0x94, 0xB0, 0x24, 0xA1, 0xC2, 0xEC, 0x5C, 0xDC, 0x5B, 0x48, 0x17, 0xF5]\<rparr>,
     \<lparr>fd_ipv4 = [54, 36, 108, 162], fd_or_port = 443, fd_rsa_identity = [0x46, 0xF9, 0xFB, 0x94, 0x39, 0x17, 0x85, 0x8F, 0x61, 0x8F, 0x26, 0x48, 0x59, 0x5D, 0xEA, 0xCD, 0x93, 0x1D, 0x44, 0x00]\<rparr>,
     \<lparr>fd_ipv4 = [198, 46, 168, 17], fd_or_port = 9001, fd_rsa_identity = [0xB8, 0xFA, 0x90, 0xA8, 0xB7, 0xDA, 0x9B, 0x90, 0xA0, 0x9A, 0xA0, 0x4C, 0xD2, 0xE8, 0x1E, 0x26, 0x3A, 0xA8, 0xDA, 0x4C]\<rparr>,
     \<lparr>fd_ipv4 = [77, 33, 128, 196], fd_or_port = 9001, fd_rsa_identity = [0x38, 0xF1, 0x4F, 0x8F, 0x0B, 0x30, 0xD3, 0x5C, 0x49, 0x1A, 0xAB, 0x5E, 0xC6, 0x77, 0x00, 0x00, 0xA6, 0xCA, 0x79, 0x4C]\<rparr>,
     \<lparr>fd_ipv4 = [216, 197, 207, 49], fd_or_port = 9001, fd_rsa_identity = [0xC3, 0x66, 0x39, 0x1E, 0x67, 0xA2, 0x9C, 0xE9, 0x59, 0xA1, 0x51, 0x93, 0xD0, 0xCF, 0x2F, 0x9E, 0xD9, 0x4F, 0x35, 0x78]\<rparr>,
     \<lparr>fd_ipv4 = [117, 53, 155, 113], fd_or_port = 9001, fd_rsa_identity = [0x58, 0x4E, 0x7A, 0x71, 0x4D, 0x68, 0x26, 0x60, 0x83, 0xB8, 0x73, 0x37, 0x2D, 0x76, 0x65, 0x97, 0xBD, 0xF6, 0x79, 0x39]\<rparr>,
     \<lparr>fd_ipv4 = [194, 15, 115, 93], fd_or_port = 9001, fd_rsa_identity = [0x5A, 0x94, 0x04, 0xC9, 0xAF, 0x72, 0xDB, 0x12, 0xAD, 0xEB, 0x2F, 0xF8, 0x10, 0xE7, 0xDA, 0x12, 0xD3, 0xD6, 0x6C, 0xEF]\<rparr>,
     \<lparr>fd_ipv4 = [89, 58, 26, 216], fd_or_port = 9000, fd_rsa_identity = [0x56, 0xD8, 0x78, 0xC9, 0x42, 0xCD, 0x38, 0xF5, 0x28, 0x70, 0x79, 0x97, 0x49, 0x50, 0x66, 0x8B, 0x18, 0xEC, 0xC4, 0xCD]\<rparr>]"

definition fallback_dirs_7 :: "fallback_dir list" where
  "fallback_dirs_7 = [
     \<lparr>fd_ipv4 = [188, 245, 217, 208], fd_or_port = 444, fd_rsa_identity = [0xB2, 0xFB, 0x2A, 0x44, 0x1E, 0x2A, 0xE4, 0xCA, 0x04, 0x20, 0xA1, 0x87, 0xF3, 0x88, 0xF8, 0xB5, 0x13, 0x7E, 0x51, 0xF4]\<rparr>,
     \<lparr>fd_ipv4 = [64, 65, 1, 147], fd_or_port = 443, fd_rsa_identity = [0xEA, 0xAB, 0x42, 0x7C, 0x68, 0xA5, 0x09, 0xAA, 0xE2, 0xB2, 0x46, 0xF2, 0x54, 0x23, 0x13, 0x7F, 0xC9, 0xED, 0x94, 0x89]\<rparr>,
     \<lparr>fd_ipv4 = [185, 181, 63, 124], fd_or_port = 9001, fd_rsa_identity = [0x61, 0x7A, 0xBB, 0x55, 0xC1, 0x45, 0xAB, 0x81, 0xC6, 0x32, 0x2E, 0x10, 0x82, 0x85, 0x5F, 0x0D, 0xAC, 0xC6, 0x5F, 0x64]\<rparr>,
     \<lparr>fd_ipv4 = [96, 9, 98, 36], fd_or_port = 443, fd_rsa_identity = [0xCA, 0x89, 0x3A, 0x27, 0x14, 0xE6, 0x2A, 0xCA, 0xC7, 0xA2, 0x85, 0x48, 0xF6, 0xF6, 0x9B, 0xA5, 0xAF, 0x22, 0xC0, 0x26]\<rparr>,
     \<lparr>fd_ipv4 = [64, 65, 62, 119], fd_or_port = 443, fd_rsa_identity = [0x59, 0x83, 0xA7, 0x81, 0xB6, 0x52, 0x5C, 0x79, 0x18, 0xCF, 0xD9, 0xAB, 0xAB, 0x03, 0x5B, 0xBA, 0x16, 0x10, 0x5B, 0x32]\<rparr>,
     \<lparr>fd_ipv4 = [147, 90, 235, 40], fd_or_port = 9100, fd_rsa_identity = [0xBB, 0x5C, 0x8B, 0x37, 0x7F, 0x90, 0x78, 0xA1, 0x36, 0x53, 0x01, 0x5B, 0x8C, 0x45, 0x38, 0x14, 0x0C, 0xE2, 0xDD, 0x44]\<rparr>,
     \<lparr>fd_ipv4 = [5, 255, 101, 24], fd_or_port = 9001, fd_rsa_identity = [0xC8, 0x99, 0x76, 0xF4, 0x13, 0x51, 0xB3, 0xF0, 0xCD, 0xA2, 0x5C, 0x38, 0x5B, 0x41, 0xED, 0x26, 0xA2, 0x76, 0x57, 0x9A]\<rparr>,
     \<lparr>fd_ipv4 = [167, 114, 103, 133], fd_or_port = 443, fd_rsa_identity = [0xD5, 0xE9, 0x35, 0x6A, 0x59, 0x58, 0xE4, 0x89, 0x1A, 0x12, 0x4F, 0xB7, 0x49, 0x82, 0x9B, 0x30, 0xEB, 0x7F, 0x8D, 0x29]\<rparr>,
     \<lparr>fd_ipv4 = [193, 31, 117, 236], fd_or_port = 443, fd_rsa_identity = [0xF1, 0x6F, 0xA5, 0x73, 0xE1, 0xA9, 0xB5, 0xB5, 0x45, 0x92, 0x09, 0x72, 0x61, 0x86, 0x98, 0x23, 0x5D, 0xD7, 0x8E, 0x05]\<rparr>,
     \<lparr>fd_ipv4 = [52, 14, 1, 170], fd_or_port = 33123, fd_rsa_identity = [0x40, 0x0E, 0xF1, 0xA0, 0xA3, 0x86, 0x00, 0x64, 0x1C, 0xB8, 0x45, 0x87, 0x55, 0x68, 0x82, 0x8D, 0xC1, 0xD1, 0x4C, 0x89]\<rparr>,
     \<lparr>fd_ipv4 = [185, 129, 62, 63], fd_or_port = 9001, fd_rsa_identity = [0x07, 0xAC, 0xFB, 0x08, 0x01, 0xE4, 0xF7, 0x4F, 0x56, 0x10, 0xF8, 0x70, 0xB5, 0xFC, 0xBB, 0x55, 0x39, 0xDB, 0xCB, 0xD1]\<rparr>,
     \<lparr>fd_ipv4 = [171, 25, 193, 35], fd_or_port = 443, fd_rsa_identity = [0x0F, 0x1C, 0x2A, 0x84, 0x6C, 0x22, 0x8E, 0xF9, 0x6A, 0x62, 0x3D, 0x9E, 0x42, 0x1E, 0xF6, 0x3B, 0x3B, 0xD3, 0x2B, 0xD5]\<rparr>,
     \<lparr>fd_ipv4 = [109, 70, 100, 246], fd_or_port = 9000, fd_rsa_identity = [0xD1, 0x2F, 0xBE, 0xA6, 0x24, 0x7B, 0x25, 0xC0, 0xFC, 0xD0, 0x9D, 0x5E, 0x12, 0x3D, 0xD5, 0x9B, 0xF9, 0x43, 0xD7, 0xBB]\<rparr>,
     \<lparr>fd_ipv4 = [64, 65, 63, 66], fd_or_port = 443, fd_rsa_identity = [0x13, 0x59, 0xBB, 0x4B, 0xF1, 0x38, 0x27, 0x22, 0xD1, 0x18, 0x95, 0xB2, 0x98, 0x05, 0x3F, 0x9A, 0x99, 0xA7, 0x31, 0x4E]\<rparr>,
     \<lparr>fd_ipv4 = [193, 115, 253, 174], fd_or_port = 443, fd_rsa_identity = [0xC1, 0x61, 0x18, 0xAB, 0x49, 0x9F, 0x57, 0x9A, 0x4F, 0x95, 0xEE, 0x8C, 0xBA, 0x30, 0x75, 0x8B, 0xA6, 0xB2, 0xF8, 0x04]\<rparr>,
     \<lparr>fd_ipv4 = [154, 53, 58, 161], fd_or_port = 110, fd_rsa_identity = [0x66, 0xFF, 0x32, 0xB5, 0xD2, 0xED, 0x28, 0xE3, 0x10, 0xE0, 0xC3, 0x68, 0xBF, 0xD3, 0xCE, 0xD3, 0x79, 0x99, 0x88, 0xAC]\<rparr>,
     \<lparr>fd_ipv4 = [87, 106, 44, 40], fd_or_port = 9001, fd_rsa_identity = [0xE6, 0x00, 0x7F, 0x4B, 0x6B, 0xF6, 0x39, 0x05, 0x47, 0x0B, 0x55, 0x80, 0x7B, 0xA9, 0x96, 0xEC, 0x48, 0xC7, 0x2D, 0x6B]\<rparr>,
     \<lparr>fd_ipv4 = [94, 140, 115, 114], fd_or_port = 8443, fd_rsa_identity = [0x66, 0xC1, 0x02, 0xFA, 0x5D, 0xDF, 0x48, 0xC9, 0xEE, 0xEB, 0x04, 0x8C, 0x16, 0x30, 0x93, 0x3B, 0x66, 0xC5, 0x0E, 0xCC]\<rparr>]"

definition fallback_dirs_8 :: "fallback_dir list" where
  "fallback_dirs_8 = [
     \<lparr>fd_ipv4 = [64, 95, 10, 169], fd_or_port = 19001, fd_rsa_identity = [0x57, 0x97, 0x95, 0x88, 0x1A, 0x9B, 0xEB, 0x88, 0xE4, 0x2F, 0xDD, 0xA8, 0xE5, 0xA4, 0x5E, 0xE7, 0x60, 0x6C, 0xFC, 0x01]\<rparr>,
     \<lparr>fd_ipv4 = [171, 25, 193, 131], fd_or_port = 9030, fd_rsa_identity = [0x78, 0x60, 0xF0, 0xAD, 0x27, 0x2C, 0x70, 0x45, 0xA2, 0x7C, 0x67, 0xCD, 0x21, 0x5D, 0x46, 0x7D, 0x8E, 0x67, 0x9F, 0x45]\<rparr>,
     \<lparr>fd_ipv4 = [173, 249, 215, 107], fd_or_port = 9001, fd_rsa_identity = [0xB9, 0x59, 0x11, 0x89, 0x77, 0x2A, 0xD8, 0xD3, 0x2A, 0xE9, 0x60, 0xE9, 0x57, 0x0A, 0x49, 0x29, 0x2F, 0x3A, 0x1E, 0x40]\<rparr>,
     \<lparr>fd_ipv4 = [45, 84, 107, 84], fd_or_port = 8443, fd_rsa_identity = [0xA9, 0x1B, 0x7A, 0xC7, 0xA5, 0x3D, 0x2E, 0x08, 0xA4, 0x5D, 0xAF, 0x74, 0x8C, 0x25, 0x0F, 0xB5, 0x35, 0xDB, 0xDE, 0x8F]\<rparr>,
     \<lparr>fd_ipv4 = [5, 104, 84, 183], fd_or_port = 7430, fd_rsa_identity = [0x2E, 0x82, 0x14, 0x77, 0xE6, 0xCB, 0x66, 0x01, 0x4D, 0xF2, 0x38, 0x5F, 0x7C, 0x48, 0xBE, 0x56, 0xE7, 0x88, 0x4F, 0x1F]\<rparr>,
     \<lparr>fd_ipv4 = [147, 135, 129, 138], fd_or_port = 9200, fd_rsa_identity = [0xFC, 0x0A, 0x83, 0xC7, 0x3D, 0x9D, 0xA1, 0x46, 0xD3, 0x60, 0x8A, 0xE7, 0x1F, 0x54, 0xE3, 0x22, 0x89, 0x0D, 0x59, 0xC5]\<rparr>,
     \<lparr>fd_ipv4 = [95, 217, 112, 245], fd_or_port = 53, fd_rsa_identity = [0x3F, 0x43, 0xD0, 0x58, 0x4A, 0x26, 0x13, 0xC9, 0xDB, 0x63, 0x13, 0x82, 0xFF, 0x48, 0x6D, 0xC6, 0xB9, 0x5E, 0xA1, 0xC8]\<rparr>,
     \<lparr>fd_ipv4 = [67, 215, 234, 141], fd_or_port = 7430, fd_rsa_identity = [0xB2, 0xA4, 0xEF, 0xD1, 0xB3, 0xDA, 0xD0, 0xF5, 0xFA, 0x12, 0x7B, 0x5C, 0x29, 0xBB, 0xFE, 0x62, 0x56, 0x28, 0xA6, 0xD9]\<rparr>,
     \<lparr>fd_ipv4 = [62, 210, 99, 238], fd_or_port = 39819, fd_rsa_identity = [0x3E, 0x18, 0xFE, 0xBA, 0xBD, 0x94, 0xCD, 0xC9, 0x86, 0x41, 0x6C, 0x95, 0x7D, 0xF3, 0x23, 0xFE, 0xDE, 0x97, 0xA2, 0xBD]\<rparr>,
     \<lparr>fd_ipv4 = [45, 90, 4, 235], fd_or_port = 9001, fd_rsa_identity = [0xF4, 0x75, 0xE5, 0x98, 0x7E, 0x44, 0xA2, 0xB7, 0xB1, 0x43, 0xA2, 0xBE, 0xE3, 0xF8, 0x12, 0x8E, 0xEF, 0xD7, 0xE5, 0xA3]\<rparr>,
     \<lparr>fd_ipv4 = [190, 120, 229, 2], fd_or_port = 443, fd_rsa_identity = [0x1E, 0xA7, 0xA6, 0x64, 0x56, 0x19, 0x53, 0x8D, 0x28, 0x6F, 0xDB, 0xED, 0x76, 0x88, 0xAF, 0xA7, 0xF8, 0x2E, 0x0A, 0x51]\<rparr>,
     \<lparr>fd_ipv4 = [68, 185, 124, 105], fd_or_port = 42069, fd_rsa_identity = [0xAC, 0xD0, 0x5B, 0x04, 0x78, 0x3A, 0xC9, 0xB8, 0x68, 0xA0, 0x7D, 0xCF, 0x94, 0x5E, 0x49, 0xC5, 0x79, 0x26, 0x79, 0xAA]\<rparr>,
     \<lparr>fd_ipv4 = [193, 187, 91, 79], fd_or_port = 443, fd_rsa_identity = [0x3E, 0x59, 0x28, 0x0E, 0xA6, 0x7C, 0x91, 0x8F, 0x5A, 0xD5, 0xCB, 0xF7, 0x97, 0x86, 0x43, 0xBB, 0x70, 0xA0, 0xC1, 0x69]\<rparr>,
     \<lparr>fd_ipv4 = [212, 24, 100, 138], fd_or_port = 9001, fd_rsa_identity = [0x96, 0x07, 0x06, 0x98, 0x71, 0x4D, 0xC0, 0x7A, 0xE2, 0xB3, 0x77, 0x86, 0x46, 0x25, 0xB7, 0xEF, 0x64, 0xE3, 0x3B, 0xF5]\<rparr>,
     \<lparr>fd_ipv4 = [65, 21, 94, 13], fd_or_port = 9001, fd_rsa_identity = [0x50, 0x9E, 0xAB, 0x4C, 0x5D, 0x10, 0xC9, 0xA9, 0xA2, 0x4B, 0x4E, 0xA0, 0xCE, 0x40, 0x2C, 0x04, 0x7A, 0x2D, 0x64, 0xE6]\<rparr>,
     \<lparr>fd_ipv4 = [142, 132, 157, 35], fd_or_port = 8443, fd_rsa_identity = [0xCA, 0x16, 0x84, 0x51, 0x6B, 0x7F, 0xEC, 0xF3, 0xDB, 0x76, 0xD4, 0x3F, 0xD0, 0x2F, 0x56, 0xD8, 0xB9, 0x5E, 0x8A, 0x69]\<rparr>,
     \<lparr>fd_ipv4 = [45, 80, 171, 18], fd_or_port = 9001, fd_rsa_identity = [0xDA, 0x71, 0x12, 0x6E, 0x1D, 0x0B, 0x11, 0x60, 0x55, 0x33, 0xB7, 0xAD, 0x39, 0x9D, 0xD5, 0xA7, 0xEC, 0x8E, 0x2F, 0x0E]\<rparr>,
     \<lparr>fd_ipv4 = [23, 88, 154, 69], fd_or_port = 9001, fd_rsa_identity = [0x90, 0xAA, 0xC6, 0x24, 0x53, 0x88, 0xA9, 0xA9, 0xEC, 0x70, 0x50, 0x81, 0x07, 0x75, 0x50, 0x30, 0x04, 0xFE, 0x40, 0xBF]\<rparr>]"

definition fallback_dirs_9 :: "fallback_dir list" where
  "fallback_dirs_9 = [
     \<lparr>fd_ipv4 = [46, 166, 165, 116], fd_or_port = 9051, fd_rsa_identity = [0x2B, 0x1F, 0xA7, 0x0B, 0xE9, 0x54, 0x57, 0xA0, 0xA9, 0xDD, 0x87, 0x8D, 0x3C, 0x05, 0xA5, 0xFF, 0xA4, 0x59, 0x60, 0xBF]\<rparr>,
     \<lparr>fd_ipv4 = [64, 65, 1, 157], fd_or_port = 443, fd_rsa_identity = [0x9C, 0x09, 0x52, 0xE6, 0xE8, 0x0F, 0x51, 0xA2, 0xD3, 0x7F, 0x2D, 0x30, 0x53, 0xB7, 0xB2, 0xD5, 0xE1, 0x86, 0xEB, 0xB9]\<rparr>,
     \<lparr>fd_ipv4 = [64, 65, 63, 77], fd_or_port = 443, fd_rsa_identity = [0x8C, 0x69, 0x4E, 0x17, 0x0C, 0x33, 0xA1, 0x1C, 0x91, 0x56, 0x5D, 0x9B, 0xC1, 0xA2, 0xF2, 0x64, 0x8E, 0x91, 0x67, 0xC2]\<rparr>,
     \<lparr>fd_ipv4 = [94, 100, 6, 11], fd_or_port = 443, fd_rsa_identity = [0x03, 0xE1, 0x07, 0xA3, 0x66, 0x3E, 0x91, 0x26, 0x64, 0xF4, 0xA9, 0x34, 0xDF, 0xF4, 0x51, 0x26, 0x2C, 0x21, 0x83, 0x57]\<rparr>,
     \<lparr>fd_ipv4 = [142, 44, 243, 133], fd_or_port = 9001, fd_rsa_identity = [0x01, 0x9F, 0xEB, 0x22, 0xCE, 0x04, 0xCB, 0xD0, 0x48, 0x9B, 0x7F, 0x24, 0xBE, 0x03, 0x85, 0x18, 0xB6, 0x4F, 0xA2, 0x23]\<rparr>,
     \<lparr>fd_ipv4 = [96, 9, 98, 88], fd_or_port = 443, fd_rsa_identity = [0xE2, 0x37, 0xE9, 0xF3, 0x86, 0xF1, 0x44, 0x56, 0xE9, 0x9E, 0xED, 0x36, 0xB1, 0xFA, 0xC4, 0xF9, 0xF7, 0x7B, 0x0F, 0x80]\<rparr>,
     \<lparr>fd_ipv4 = [23, 141, 40, 7], fd_or_port = 9001, fd_rsa_identity = [0x89, 0xEC, 0xFA, 0x01, 0x21, 0x9A, 0x76, 0xD2, 0x22, 0xED, 0xD6, 0x8B, 0xF3, 0xEE, 0xB1, 0xDC, 0xC3, 0xA8, 0xD2, 0xB3]\<rparr>,
     \<lparr>fd_ipv4 = [195, 176, 3, 23], fd_or_port = 8443, fd_rsa_identity = [0x9C, 0x61, 0xFC, 0x0A, 0x01, 0x40, 0x1E, 0xDF, 0x71, 0xC4, 0x04, 0x86, 0x65, 0xE5, 0x39, 0x68, 0xE8, 0x13, 0x51, 0xFC]\<rparr>,
     \<lparr>fd_ipv4 = [104, 248, 233, 233], fd_or_port = 9001, fd_rsa_identity = [0x25, 0x31, 0x7B, 0x5C, 0x9B, 0x83, 0xC5, 0x74, 0x35, 0x1A, 0x8F, 0x01, 0x6D, 0xFB, 0x4B, 0x70, 0x53, 0x89, 0x3C, 0x97]\<rparr>,
     \<lparr>fd_ipv4 = [203, 55, 81, 2], fd_or_port = 19005, fd_rsa_identity = [0x98, 0x69, 0x7E, 0xF9, 0x3E, 0x26, 0xDD, 0x52, 0xCD, 0x96, 0xD3, 0xF9, 0x98, 0xBF, 0x20, 0xB2, 0xA4, 0x16, 0x22, 0x91]\<rparr>,
     \<lparr>fd_ipv4 = [64, 65, 1, 49], fd_or_port = 443, fd_rsa_identity = [0x7E, 0x33, 0x8F, 0x23, 0xCC, 0x66, 0x0D, 0x83, 0xC0, 0x15, 0x00, 0x87, 0x47, 0x37, 0x67, 0xDA, 0xD0, 0xFB, 0x05, 0x56]\<rparr>,
     \<lparr>fd_ipv4 = [38, 45, 67, 186], fd_or_port = 9001, fd_rsa_identity = [0x92, 0x15, 0xA0, 0x8C, 0x84, 0x02, 0x08, 0xC7, 0x92, 0x35, 0xD8, 0x21, 0xC8, 0xB5, 0x7B, 0xFB, 0x33, 0x24, 0x59, 0x45]\<rparr>,
     \<lparr>fd_ipv4 = [185, 227, 70, 53], fd_or_port = 443, fd_rsa_identity = [0xB7, 0x92, 0xBE, 0xE2, 0xB5, 0x1C, 0xC5, 0xF8, 0xF5, 0x31, 0x39, 0x63, 0x8C, 0x8F, 0x89, 0xAE, 0x17, 0xD7, 0x1E, 0xB1]\<rparr>,
     \<lparr>fd_ipv4 = [90, 90, 165, 58], fd_or_port = 443, fd_rsa_identity = [0x01, 0x06, 0xDD, 0xA8, 0xBE, 0x86, 0xAA, 0xAC, 0xF7, 0x69, 0xD3, 0xE1, 0xD3, 0x08, 0x67, 0x49, 0x5E, 0x9F, 0x3E, 0x22]\<rparr>,
     \<lparr>fd_ipv4 = [79, 237, 214, 38], fd_or_port = 9005, fd_rsa_identity = [0xA4, 0xE4, 0x98, 0xC6, 0xCC, 0x34, 0x32, 0x9E, 0x60, 0x75, 0x31, 0x00, 0x2A, 0x19, 0xC5, 0x90, 0x8F, 0xEA, 0xBF, 0xD3]\<rparr>,
     \<lparr>fd_ipv4 = [217, 182, 73, 157], fd_or_port = 9001, fd_rsa_identity = [0xF4, 0x68, 0x54, 0xED, 0xAC, 0xCD, 0x16, 0x82, 0x8F, 0xEA, 0xAF, 0xC6, 0xC6, 0xED, 0xDC, 0x07, 0xDD, 0xF0, 0x44, 0x11]\<rparr>,
     \<lparr>fd_ipv4 = [178, 239, 17, 187], fd_or_port = 9001, fd_rsa_identity = [0xE0, 0x94, 0xC5, 0xDF, 0xC4, 0x02, 0xCE, 0x40, 0x2D, 0xAD, 0xF2, 0xD6, 0x99, 0xEC, 0x86, 0x41, 0xB9, 0xD5, 0xB7, 0x6E]\<rparr>,
     \<lparr>fd_ipv4 = [168, 138, 183, 189], fd_or_port = 9001, fd_rsa_identity = [0xEB, 0xF2, 0xAB, 0x8F, 0xB3, 0xB4, 0xF7, 0x0C, 0xE5, 0x7C, 0x49, 0x1A, 0x6F, 0xF3, 0x7D, 0x7F, 0x66, 0x59, 0x15, 0x9A]\<rparr>]"

definition fallback_dirs_10 :: "fallback_dir list" where
  "fallback_dirs_10 = [
     \<lparr>fd_ipv4 = [185, 50, 195, 27], fd_or_port = 27016, fd_rsa_identity = [0x87, 0x37, 0x2B, 0xFA, 0x34, 0x77, 0xE2, 0x5E, 0xCC, 0x0B, 0xC8, 0x28, 0x00, 0x33, 0x8B, 0xF9, 0x2D, 0xAC, 0xFE, 0xF9]\<rparr>,
     \<lparr>fd_ipv4 = [64, 65, 63, 7], fd_or_port = 443, fd_rsa_identity = [0x34, 0x09, 0x76, 0xA4, 0xCB, 0xE4, 0xB2, 0xD8, 0x42, 0x3A, 0x8F, 0x98, 0x91, 0x47, 0x76, 0xA8, 0x5B, 0x91, 0x51, 0xBD]\<rparr>,
     \<lparr>fd_ipv4 = [87, 98, 242, 239], fd_or_port = 8080, fd_rsa_identity = [0x37, 0xA5, 0xE8, 0x7E, 0xBD, 0x0B, 0x99, 0xB0, 0x96, 0x50, 0xB3, 0x2C, 0x8F, 0x3E, 0x08, 0x5C, 0xF8, 0x3A, 0x6E, 0xA7]\<rparr>,
     \<lparr>fd_ipv4 = [96, 9, 98, 186], fd_or_port = 443, fd_rsa_identity = [0x28, 0xA7, 0x91, 0xF9, 0xE9, 0xCF, 0xCA, 0xD2, 0x86, 0xD4, 0x2F, 0x83, 0xEB, 0x67, 0x64, 0x81, 0x32, 0x2E, 0x4E, 0x99]\<rparr>,
     \<lparr>fd_ipv4 = [185, 220, 100, 244], fd_or_port = 9000, fd_rsa_identity = [0xC0, 0xE7, 0x33, 0x4A, 0x18, 0x11, 0x84, 0xAB, 0xD0, 0x76, 0x98, 0xD0, 0x4A, 0xDC, 0x19, 0xE1, 0x5E, 0x3E, 0xE1, 0x84]\<rparr>,
     \<lparr>fd_ipv4 = [128, 0, 64, 148], fd_or_port = 8443, fd_rsa_identity = [0xE3, 0x1B, 0x3E, 0x63, 0xF1, 0x32, 0x96, 0x1C, 0x70, 0xC5, 0xFC, 0xEE, 0x21, 0x87, 0xF4, 0xF9, 0x35, 0x39, 0x12, 0x34]\<rparr>,
     \<lparr>fd_ipv4 = [185, 181, 60, 39], fd_or_port = 9001, fd_rsa_identity = [0xFF, 0x39, 0xB0, 0x03, 0x7C, 0xAF, 0x4E, 0x9A, 0x01, 0x4D, 0xB1, 0xCC, 0x0E, 0x4F, 0xDE, 0xC1, 0x9B, 0x1E, 0x6B, 0x3A]\<rparr>,
     \<lparr>fd_ipv4 = [193, 5, 87, 219], fd_or_port = 9001, fd_rsa_identity = [0x46, 0xDA, 0x79, 0xFD, 0xCC, 0xC1, 0xBB, 0x8A, 0xA2, 0xD1, 0xA6, 0xA1, 0x0A, 0x4E, 0x59, 0xF5, 0xA8, 0xFB, 0x11, 0x4C]\<rparr>,
     \<lparr>fd_ipv4 = [217, 156, 67, 176], fd_or_port = 19890, fd_rsa_identity = [0x7E, 0xA8, 0xAB, 0x9F, 0x56, 0x95, 0xB8, 0x9D, 0x68, 0x27, 0x60, 0xDB, 0x0C, 0xF0, 0x3C, 0x32, 0xF2, 0x2D, 0x58, 0x72]\<rparr>,
     \<lparr>fd_ipv4 = [109, 70, 100, 245], fd_or_port = 9020, fd_rsa_identity = [0xE5, 0xA4, 0xF0, 0x65, 0xBA, 0x4E, 0x4C, 0xB1, 0x93, 0xE5, 0x0F, 0xFD, 0x31, 0x0B, 0xA0, 0x97, 0x88, 0xA2, 0x78, 0x56]\<rparr>,
     \<lparr>fd_ipv4 = [107, 189, 10, 86], fd_or_port = 9001, fd_rsa_identity = [0x0C, 0xAD, 0xF9, 0x65, 0x0B, 0xE6, 0xF3, 0xCB, 0x6A, 0x09, 0xF2, 0x9D, 0x8B, 0x91, 0x25, 0x0D, 0x93, 0xDD, 0x91, 0xE6]\<rparr>,
     \<lparr>fd_ipv4 = [5, 45, 99, 251], fd_or_port = 8080, fd_rsa_identity = [0x75, 0xC0, 0xB7, 0xA2, 0x65, 0x0B, 0xD3, 0x17, 0xCE, 0x0F, 0xF4, 0xEE, 0x37, 0xDE, 0xA0, 0x93, 0xAA, 0xD9, 0x01, 0x9B]\<rparr>,
     \<lparr>fd_ipv4 = [64, 65, 62, 160], fd_or_port = 443, fd_rsa_identity = [0x54, 0xEE, 0x54, 0x56, 0x5C, 0xBD, 0xA3, 0x79, 0x3E, 0xDB, 0x47, 0xEC, 0x4E, 0x5E, 0x8C, 0x01, 0xE2, 0x49, 0x5A, 0x36]\<rparr>,
     \<lparr>fd_ipv4 = [176, 65, 134, 37], fd_or_port = 443, fd_rsa_identity = [0x8E, 0xCB, 0xA6, 0x48, 0x36, 0x45, 0x59, 0xFE, 0x79, 0xDB, 0xC7, 0x02, 0x46, 0xC0, 0xCA, 0xAB, 0xE0, 0x83, 0xB4, 0x6D]\<rparr>,
     \<lparr>fd_ipv4 = [185, 243, 218, 231], fd_or_port = 443, fd_rsa_identity = [0x3D, 0xF6, 0x2F, 0x4E, 0xE0, 0xA9, 0x0D, 0x59, 0xB1, 0x26, 0xEB, 0xFA, 0x95, 0xAB, 0x8E, 0x79, 0xB0, 0x0A, 0x73, 0xA3]\<rparr>,
     \<lparr>fd_ipv4 = [147, 90, 234, 117], fd_or_port = 9002, fd_rsa_identity = [0x88, 0x85, 0xAF, 0x63, 0x39, 0xF9, 0xFE, 0xB9, 0x7F, 0xEE, 0x16, 0xC9, 0x22, 0x75, 0x82, 0xA2, 0x55, 0xA5, 0xE8, 0x9C]\<rparr>,
     \<lparr>fd_ipv4 = [94, 16, 118, 23], fd_or_port = 8443, fd_rsa_identity = [0x50, 0x27, 0x74, 0xBA, 0x04, 0x66, 0xD3, 0xAE, 0x9B, 0x7A, 0x7A, 0x0E, 0xA2, 0x25, 0x9C, 0xC6, 0x2B, 0x83, 0x98, 0xA9]\<rparr>,
     \<lparr>fd_ipv4 = [94, 23, 45, 103], fd_or_port = 9001, fd_rsa_identity = [0xEF, 0xA4, 0xC5, 0xE7, 0xE9, 0x21, 0x5E, 0x8A, 0x3C, 0x7A, 0x8F, 0x3C, 0x74, 0xD3, 0x13, 0x96, 0x67, 0xDA, 0x92, 0xA5]\<rparr>]"

definition fallback_dirs_11 :: "fallback_dir list" where
  "fallback_dirs_11 = [
     \<lparr>fd_ipv4 = [45, 38, 20, 240], fd_or_port = 9005, fd_rsa_identity = [0x1F, 0x9A, 0x21, 0x8B, 0xF2, 0x76, 0x55, 0x49, 0x27, 0xEB, 0xEF, 0xFE, 0x0B, 0x86, 0x82, 0x66, 0x97, 0xCB, 0xDD, 0xD2]\<rparr>,
     \<lparr>fd_ipv4 = [146, 190, 212, 212], fd_or_port = 9001, fd_rsa_identity = [0x28, 0x0F, 0x96, 0x43, 0x11, 0xBB, 0xCC, 0x51, 0x93, 0xC7, 0x0D, 0xDF, 0x0C, 0x2D, 0xA3, 0xC3, 0x8D, 0x45, 0x78, 0xC4]\<rparr>,
     \<lparr>fd_ipv4 = [176, 125, 242, 131], fd_or_port = 443, fd_rsa_identity = [0xEA, 0xBB, 0x39, 0x03, 0x23, 0xF8, 0x0D, 0x44, 0x57, 0xBA, 0xA5, 0xCE, 0xEE, 0x51, 0x14, 0x55, 0x70, 0x0E, 0x92, 0x9D]\<rparr>,
     \<lparr>fd_ipv4 = [205, 185, 125, 239], fd_or_port = 443, fd_rsa_identity = [0x27, 0xA3, 0xC6, 0xE3, 0x01, 0xB9, 0x80, 0x3F, 0x0F, 0x57, 0x85, 0x6A, 0xDA, 0x5F, 0xD8, 0x34, 0xDB, 0x04, 0x12, 0xFD]\<rparr>,
     \<lparr>fd_ipv4 = [45, 9, 168, 16], fd_or_port = 443, fd_rsa_identity = [0x4B, 0xD7, 0xD8, 0xD3, 0x84, 0xFF, 0x76, 0xBC, 0xB5, 0x25, 0x6D, 0xF4, 0x13, 0x04, 0xDA, 0x84, 0xF7, 0x7C, 0x8B, 0xFA]\<rparr>,
     \<lparr>fd_ipv4 = [107, 189, 5, 249], fd_or_port = 5061, fd_rsa_identity = [0xBC, 0x7A, 0x5E, 0x91, 0x15, 0x54, 0x47, 0x7F, 0x73, 0x46, 0xFA, 0x9B, 0x68, 0x02, 0x50, 0xD1, 0xD8, 0x4B, 0x14, 0xAF]\<rparr>,
     \<lparr>fd_ipv4 = [57, 128, 223, 198], fd_or_port = 9001, fd_rsa_identity = [0xEF, 0xC6, 0xEC, 0x2B, 0xD9, 0xBB, 0xDC, 0x77, 0xDD, 0x38, 0xAA, 0x2D, 0x87, 0xFD, 0x63, 0x6D, 0xFC, 0x26, 0xAA, 0xC0]\<rparr>,
     \<lparr>fd_ipv4 = [45, 84, 107, 44], fd_or_port = 80, fd_rsa_identity = [0x0B, 0x72, 0x5B, 0x5F, 0xEB, 0xE9, 0xF7, 0xEE, 0x0A, 0x70, 0x52, 0xA3, 0xF3, 0x8C, 0xEE, 0x83, 0x92, 0xEF, 0xC4, 0xAA]\<rparr>,
     \<lparr>fd_ipv4 = [57, 129, 110, 6], fd_or_port = 9200, fd_rsa_identity = [0xB2, 0x34, 0x34, 0xF5, 0x04, 0xDF, 0x50, 0x00, 0x96, 0xCB, 0x5E, 0x58, 0x95, 0x49, 0x5E, 0x89, 0xF6, 0xCB, 0x30, 0xFD]\<rparr>,
     \<lparr>fd_ipv4 = [23, 129, 64, 179], fd_or_port = 443, fd_rsa_identity = [0xDA, 0xD8, 0x81, 0x5C, 0x1A, 0xE8, 0x2B, 0x18, 0x88, 0xF4, 0x47, 0x20, 0xC9, 0x41, 0x6B, 0x1F, 0x89, 0x1B, 0x36, 0x39]\<rparr>,
     \<lparr>fd_ipv4 = [217, 116, 95, 26], fd_or_port = 9001, fd_rsa_identity = [0xF7, 0x7D, 0x84, 0xB0, 0xE4, 0x9F, 0x56, 0x7B, 0xFC, 0x22, 0xAB, 0x9B, 0xB6, 0xE2, 0x89, 0x01, 0xD4, 0x13, 0x7C, 0xBA]\<rparr>,
     \<lparr>fd_ipv4 = [185, 129, 62, 64], fd_or_port = 9001, fd_rsa_identity = [0x14, 0x1C, 0x31, 0x7F, 0x74, 0xD9, 0x2D, 0xA4, 0x4F, 0xAA, 0x07, 0x2F, 0x6B, 0xFD, 0x0C, 0x98, 0xDE, 0xFF, 0x90, 0x66]\<rparr>,
     \<lparr>fd_ipv4 = [66, 78, 40, 91], fd_or_port = 8500, fd_rsa_identity = [0x60, 0x55, 0xA5, 0x18, 0xF0, 0x39, 0x89, 0xF8, 0x67, 0xDF, 0x7C, 0x43, 0x5B, 0x61, 0xD5, 0x77, 0x6D, 0x76, 0x8B, 0x10]\<rparr>,
     \<lparr>fd_ipv4 = [64, 65, 1, 22], fd_or_port = 443, fd_rsa_identity = [0x48, 0x4E, 0x4F, 0x9B, 0x48, 0x65, 0xE1, 0xA3, 0xD7, 0x72, 0xC0, 0x19, 0x30, 0xD5, 0x96, 0x94, 0xF4, 0xBA, 0xEF, 0x4D]\<rparr>,
     \<lparr>fd_ipv4 = [146, 19, 213, 120], fd_or_port = 443, fd_rsa_identity = [0x99, 0xF7, 0x85, 0x12, 0x78, 0x5F, 0x45, 0x23, 0x6A, 0x35, 0x32, 0x2A, 0x16, 0x43, 0xAA, 0x08, 0xDC, 0x63, 0x99, 0xB5]\<rparr>,
     \<lparr>fd_ipv4 = [37, 221, 208, 216], fd_or_port = 9100, fd_rsa_identity = [0x43, 0x62, 0x0A, 0x05, 0x3D, 0x56, 0x58, 0x26, 0x73, 0xF7, 0x4E, 0x03, 0x25, 0x83, 0x16, 0x46, 0xE1, 0x17, 0xC0, 0x09]\<rparr>,
     \<lparr>fd_ipv4 = [176, 65, 149, 96], fd_or_port = 443, fd_rsa_identity = [0x26, 0xCD, 0x29, 0xD0, 0x7F, 0xAE, 0x2C, 0x27, 0xEB, 0x31, 0x6E, 0xE5, 0x51, 0xEF, 0xC7, 0xEF, 0x96, 0xBA, 0x57, 0x84]\<rparr>,
     \<lparr>fd_ipv4 = [57, 131, 31, 124], fd_or_port = 9100, fd_rsa_identity = [0x98, 0x25, 0xD8, 0x49, 0x91, 0x91, 0x14, 0xB8, 0xE9, 0x00, 0x5C, 0x5D, 0x09, 0x3B, 0x95, 0xF9, 0x12, 0x51, 0x1A, 0x88]\<rparr>]"

definition fallback_dirs_12 :: "fallback_dir list" where
  "fallback_dirs_12 = [
     \<lparr>fd_ipv4 = [64, 65, 1, 152], fd_or_port = 443, fd_rsa_identity = [0x14, 0x3A, 0xB4, 0x82, 0x71, 0xBB, 0x0B, 0x2B, 0xC7, 0xAF, 0x8F, 0xE9, 0x4B, 0x30, 0x6E, 0x70, 0x16, 0x2F, 0xD6, 0xC1]\<rparr>,
     \<lparr>fd_ipv4 = [85, 215, 249, 184], fd_or_port = 443, fd_rsa_identity = [0x64, 0xBC, 0xBA, 0x88, 0x2D, 0x45, 0xCE, 0x42, 0xB5, 0x62, 0x26, 0x56, 0x44, 0x35, 0xEA, 0x0D, 0x36, 0x4A, 0x72, 0x81]\<rparr>]"

definition FALLBACK_DIRS :: "fallback_dir list" where
  "FALLBACK_DIRS = fallback_dirs_1 @ fallback_dirs_2 @ fallback_dirs_3 @ fallback_dirs_4 @ fallback_dirs_5 @ fallback_dirs_6 @ fallback_dirs_7 @ fallback_dirs_8 @ fallback_dirs_9 @ fallback_dirs_10 @ fallback_dirs_11 @ fallback_dirs_12"

section \<open>The table\<close>

definition mirror_ok :: "fallback_dir \<Rightarrow> bool" where
  "mirror_ok f \<longleftrightarrow> length (fd_ipv4 f) = 4 \<and> 0 < fd_or_port f \<and> fd_or_port f \<le> u16_max \<and> length (fd_rsa_identity f) = 20"

lemmas fallback_pieces = fallback_dirs_1_def fallback_dirs_2_def fallback_dirs_3_def fallback_dirs_4_def fallback_dirs_5_def fallback_dirs_6_def
  fallback_dirs_7_def fallback_dirs_8_def fallback_dirs_9_def fallback_dirs_10_def fallback_dirs_11_def fallback_dirs_12_def

lemma length_fallback_dirs: "length FALLBACK_DIRS = 200"
  by (simp add: FALLBACK_DIRS_def fallback_pieces)

lemma fallback_dirs_ok: "list_all mirror_ok FALLBACK_DIRS"
  by (simp add: FALLBACK_DIRS_def fallback_pieces mirror_ok_def)

end
