(* ===== verification/Consensus_Doc.thy ===== *)
theory Consensus_Doc
  imports Net_Doc Congestion_Control
begin

text \<open>
  The microdescriptor consensus: \<^verbatim>\<open>src/tor/dir/consensus.rs\<close> (parsing, and the signature check that
  accepts it) and the trusted authorities and their key certificates of \<^verbatim>\<open>src/tor/dir/authority.rs\<close>.

  RSA and the hashes are OpenSSL's, the fields of the parameter \<open>dir_crypto\<close>: reading a PKCS#1 public
  key, its fingerprint, checking a signature over a digest, SHA-1 and SHA-256.
\<close>

record 'k dir_crypto =
  dc_sha1 :: "bytes \<Rightarrow> bytes"
  dc_sha256 :: "bytes \<Rightarrow> bytes"
  rsa_from_der :: "bytes \<Rightarrow> 'k io_result"
  rsa_fingerprint :: "'k \<Rightarrow> bytes"
  verify_digest :: "'k \<Rightarrow> bytes \<Rightarrow> bytes \<Rightarrow> bool"

section \<open>Authorities\<close>

record authority =
  nickname :: string
  auth_v3ident :: bytes
  auth_rsa_identity :: bytes
  auth_ipv4 :: bytes
  auth_dir_port :: nat
  auth_or_port :: nat

definition AUTHORITIES :: "authority list" where
  "AUTHORITIES =
    [
     \<lparr>nickname = ''moria1'',
      auth_v3ident = [0xf5, 0x33, 0xc8, 0x1c, 0xef, 0x0b, 0xc0, 0x26, 0x78, 0x57, 0xc9, 0x9b, 0x2f, 0x47, 0x1a, 0xdf, 0x24, 0x9f, 0xa2, 0x32],
      auth_rsa_identity = [0x1a, 0x25, 0xc6, 0x35, 0x8d, 0xb9, 0x13, 0x42, 0xaa, 0x51, 0x72, 0x0a, 0x50, 0x38, 0xb7, 0x27, 0x42, 0x73, 0x24, 0x98],
      auth_ipv4 = [128, 31, 0, 39], auth_dir_port = 9231, auth_or_port = 9201\<rparr>,
     \<lparr>nickname = ''tor26'',
      auth_v3ident = [0x2f, 0x3d, 0xf9, 0xca, 0x0e, 0x5d, 0x36, 0xf2, 0x68, 0x5a, 0x2d, 0xa6, 0x71, 0x84, 0xeb, 0x8d, 0xcb, 0x8c, 0xba, 0x8c],
      auth_rsa_identity = [0xfa, 0xa4, 0xbc, 0xa4, 0xa6, 0xac, 0x0f, 0xb4, 0xca, 0x2f, 0x8a, 0xd5, 0xa1, 0x1d, 0x9e, 0x12, 0x2b, 0xa8, 0x94, 0xf6],
      auth_ipv4 = [217, 196, 147, 77], auth_dir_port = 80, auth_or_port = 443\<rparr>,
     \<lparr>nickname = ''dizum'',
      auth_v3ident = [0xe8, 0xa9, 0xc4, 0x5e, 0xde, 0x6d, 0x71, 0x12, 0x94, 0xfa, 0xdf, 0x8e, 0x79, 0x51, 0xf4, 0xde, 0x6c, 0xa5, 0x6b, 0x58],
      auth_rsa_identity = [0x7e, 0xa6, 0xea, 0xd6, 0xfd, 0x83, 0x08, 0x3c, 0x53, 0x8f, 0x44, 0x03, 0x8b, 0xbf, 0xa0, 0x77, 0x58, 0x7d, 0xd7, 0x55],
      auth_ipv4 = [45, 66, 35, 11], auth_dir_port = 80, auth_or_port = 443\<rparr>,
     \<lparr>nickname = ''gabelmoo'',
      auth_v3ident = [0xed, 0x03, 0xbb, 0x61, 0x6e, 0xb2, 0xf6, 0x0b, 0xec, 0x80, 0x15, 0x11, 0x14, 0xbb, 0x25, 0xce, 0xf5, 0x15, 0xb2, 0x26],
      auth_rsa_identity = [0xf2, 0x04, 0x44, 0x13, 0xda, 0xc2, 0xe0, 0x2e, 0x3d, 0x6b, 0xcf, 0x47, 0x35, 0xa1, 0x9b, 0xca, 0x1d, 0xe9, 0x72, 0x81],
      auth_ipv4 = [131, 188, 40, 189], auth_dir_port = 80, auth_or_port = 443\<rparr>,
     \<lparr>nickname = ''dannenberg'',
      auth_v3ident = [0x02, 0x32, 0xaf, 0x90, 0x1c, 0x31, 0xa0, 0x4e, 0xe9, 0x84, 0x85, 0x95, 0xaf, 0x9b, 0xb7, 0x62, 0x0d, 0x4c, 0x5b, 0x2e],
      auth_rsa_identity = [0x7b, 0xe6, 0x83, 0xe6, 0x5d, 0x48, 0x14, 0x13, 0x21, 0xc5, 0xed, 0x92, 0xf0, 0x75, 0xc5, 0x53, 0x64, 0xac, 0x71, 0x23],
      auth_ipv4 = [193, 23, 244, 244], auth_dir_port = 80, auth_or_port = 443\<rparr>,
     \<lparr>nickname = ''maatuska'',
      auth_v3ident = [0x49, 0x01, 0x5f, 0x78, 0x74, 0x33, 0x10, 0x35, 0x80, 0xe3, 0xb6, 0x6a, 0x17, 0x07, 0xa0, 0x0e, 0x60, 0xf2, 0xd1, 0x5b],
      auth_rsa_identity = [0xbd, 0x6a, 0x82, 0x92, 0x55, 0xcb, 0x08, 0xe6, 0x6f, 0xbe, 0x7d, 0x37, 0x48, 0x36, 0x35, 0x86, 0xe4, 0x6b, 0x38, 0x10],
      auth_ipv4 = [171, 25, 193, 9], auth_dir_port = 443, auth_or_port = 80\<rparr>,
     \<lparr>nickname = ''longclaw'',
      auth_v3ident = [0x23, 0xd1, 0x5d, 0x96, 0x5b, 0xc3, 0x51, 0x14, 0x46, 0x73, 0x63, 0xc1, 0x65, 0xc4, 0xf7, 0x24, 0xb6, 0x4b, 0x4f, 0x66],
      auth_rsa_identity = [0x74, 0xa9, 0x10, 0x64, 0x6b, 0xce, 0xef, 0xbc, 0xd2, 0xe8, 0x74, 0xfc, 0x1d, 0xc9, 0x97, 0x43, 0x0f, 0x96, 0x81, 0x45],
      auth_ipv4 = [199, 58, 81, 140], auth_dir_port = 80, auth_or_port = 443\<rparr>,
     \<lparr>nickname = ''bastet'',
      auth_v3ident = [0x27, 0x10, 0x2b, 0xc1, 0x23, 0xe7, 0xaf, 0x1d, 0x47, 0x41, 0xae, 0x04, 0x7e, 0x16, 0x0c, 0x91, 0xad, 0xc7, 0x6b, 0x21],
      auth_rsa_identity = [0x24, 0xe2, 0xf1, 0x39, 0x12, 0x1d, 0x43, 0x94, 0xc5, 0x4b, 0x5b, 0xcc, 0x36, 0x8b, 0x3b, 0x41, 0x18, 0x57, 0xc4, 0x13],
      auth_ipv4 = [204, 13, 164, 118], auth_dir_port = 80, auth_or_port = 443\<rparr>,
     \<lparr>nickname = ''faravahar'',
      auth_v3ident = [0x70, 0x84, 0x9b, 0x86, 0x8d, 0x60, 0x6b, 0xae, 0xcf, 0xb6, 0x12, 0x8c, 0x5e, 0x3d, 0x78, 0x20, 0x29, 0xaa, 0x39, 0x4f],
      auth_rsa_identity = [0xe3, 0xe4, 0x2d, 0x35, 0xf8, 0x01, 0xc9, 0xd5, 0xab, 0x23, 0x58, 0x4e, 0x00, 0x25, 0xd5, 0x6f, 0xe2, 0xb3, 0x33, 0x96],
      auth_ipv4 = [216, 218, 219, 41], auth_dir_port = 80, auth_or_port = 443\<rparr>
    ]"

definition required_signatures :: nat where
  "required_signatures = length AUTHORITIES div 2 + 1"

record 'k key_certificate =
  v3ident :: bytes
  signing_key_digest :: bytes
  signing_key :: 'k
  cert_text :: string

text \<open>\<^verbatim>\<open>split_once(' ')\<close> and the first word after it, as both documents read a timestamp.\<close>

definition split_datetime :: "string \<Rightarrow> nat io_result" where
  "split_datetime args =
     (case split_once CHR '' '' args of
        None \<Rightarrow> Inl (invalid_data ''bad timestamp item'')
      | Some (date, time) \<Rightarrow> parse_datetime date (hd (split_char CHR '' '' time)))"

definition fixed :: "nat \<Rightarrow> string \<Rightarrow> bytes \<Rightarrow> bytes io_result" where
  "fixed n msg bs = (if length bs = n then Inr bs else Inl (invalid_data msg))"

definition cert_parse :: "'k dir_crypto \<Rightarrow> string \<Rightarrow> nat \<Rightarrow> 'k key_certificate io_result" where
  "cert_parse D text now =
     and_then (ok_or (invalid_data ''key certificate has no version'') (item text ''dir-key-certificate-version'')) (\<lambda>version.
     if version \<noteq> ''3'' then Inl (invalid_data ''unsupported key certificate version'') else
     and_then (ok_or (invalid_data ''key certificate has no fingerprint'') (item text ''fingerprint'')) (\<lambda>fp.
     and_then (and_then (hex_decode fp) (fixed 20 ''key certificate fingerprint is not 20 bytes'')) (\<lambda>ident.
     and_then (ok_or (invalid_data ''key certificate has no dir-key-expires'') (item text ''dir-key-expires'')) (\<lambda>args.
     and_then (split_datetime args) (\<lambda>expires.
     if now \<ge> expires then Inl (invalid_data ''key certificate expired'') else
     and_then (ok_or (invalid_data ''key certificate has no dir-identity-key'') (line_start_of text ''dir-identity-key'')) (\<lambda>istart.
     and_then (and_then (object (drop istart text) ''RSA PUBLIC KEY'') (rsa_from_der D)) (\<lambda>ikey.
     if rsa_fingerprint D ikey \<noteq> ident then Inl (invalid_data ''key certificate fingerprint does not match its identity key'') else
     and_then (ok_or (invalid_data ''key certificate has no dir-signing-key'') (line_start_of text ''dir-signing-key'')) (\<lambda>sstart.
     and_then (and_then (object (drop sstart text) ''RSA PUBLIC KEY'') (rsa_from_der D)) (\<lambda>skey.
     and_then (ok_or (invalid_data ''key certificate has no dir-key-certification'') (line_end_after text ''dir-key-certification'')) (\<lambda>send.
     and_then (object (drop send text) ''SIGNATURE'') (\<lambda>signature.
     if \<not> verify_digest D ikey (dc_sha1 D (as_bytes (take send text))) signature
     then Inl (invalid_data ''key certificate is not signed by its own identity key'')
     else Inr \<lparr>v3ident = ident, signing_key_digest = rsa_fingerprint D skey, signing_key = skey, cert_text = text\<rparr>)))))))))))"

definition cert_matches :: "bytes \<Rightarrow> bytes \<Rightarrow> 'k key_certificate \<Rightarrow> bool" where
  "cert_matches ident digest c \<longleftrightarrow> v3ident c = ident \<and> signing_key_digest c = digest"

abbreviation end_signature :: string where "end_signature \<equiv> ''-----END SIGNATURE-----''"

definition is_authority :: "bytes \<Rightarrow> bool" where
  "is_authority ident \<longleftrightarrow> list_ex (\<lambda>a. auth_v3ident a = ident) AUTHORITIES"

function parse_key_certificates :: "'k dir_crypto \<Rightarrow> string \<Rightarrow> nat \<Rightarrow> 'k key_certificate list" where
  "parse_key_certificates D rest now =
     (case line_start_of rest ''dir-key-certificate-version'' of
        None \<Rightarrow> []
      | Some start \<Rightarrow>
          (case find_str end_signature (drop start rest) of
             None \<Rightarrow> []
           | Some i \<Rightarrow>
               let e = i + length end_signature;
                   rest' = drop e (drop start rest)
               in (case cert_parse D (take e (drop start rest)) now of
                     Inr cert \<Rightarrow> if is_authority (v3ident cert) then cert # parse_key_certificates D rest' now
                                 else parse_key_certificates D rest' now
                   | Inl _ \<Rightarrow> parse_key_certificates D rest' now)))"
  by pat_completeness auto
termination
proof (relation "measure (\<lambda>(D, rest, now). length rest)", goal_cases)
  case prems: (2 D rest now start i)
  then show ?case using line_start_of_bound [OF prems(1)] by auto
next
  case prems: (3 D rest now start i)
  then show ?case using line_start_of_bound [OF prems(1)] by auto
next
  case prems: (4 D rest now start i)
  then show ?case using line_start_of_bound [OF prems(1)] by auto
qed simp

declare parse_key_certificates.simps [simp del]

fun serialize_loop :: "(bytes \<times> bytes) list \<Rightarrow> 'k key_certificate list \<Rightarrow> string" where
  "serialize_loop seen [] = []"
| "serialize_loop seen (c # cs) =
     (let key = (v3ident c, signing_key_digest c)
      in if key \<in> set seen then serialize_loop seen cs
         else trim_end (cert_text c) @ [newline] @ serialize_loop (seen @ [key]) cs)"

definition serialize :: "'k key_certificate list \<Rightarrow> string" where
  "serialize certs = serialize_loop [] certs"

section \<open>Router entries\<close>

type_synonym flags = "16 word"

definition FLAG_AUTHORITY :: flags where "FLAG_AUTHORITY = 0x001"
definition FLAG_BAD_EXIT :: flags where "FLAG_BAD_EXIT = 0x002"
definition FLAG_EXIT :: flags where "FLAG_EXIT = 0x004"
definition FLAG_FAST :: flags where "FLAG_FAST = 0x008"
definition FLAG_GUARD :: flags where "FLAG_GUARD = 0x010"
definition FLAG_HSDIR :: flags where "FLAG_HSDIR = 0x020"
definition FLAG_MIDDLE_ONLY :: flags where "FLAG_MIDDLE_ONLY = 0x040"
definition FLAG_RUNNING :: flags where "FLAG_RUNNING = 0x080"
definition FLAG_STABLE :: flags where "FLAG_STABLE = 0x100"
definition FLAG_V2DIR :: flags where "FLAG_V2DIR = 0x200"
definition FLAG_VALID :: flags where "FLAG_VALID = 0x400"

lemmas flag_defs = FLAG_AUTHORITY_def FLAG_BAD_EXIT_def FLAG_EXIT_def FLAG_FAST_def FLAG_GUARD_def FLAG_HSDIR_def
  FLAG_MIDDLE_ONLY_def FLAG_RUNNING_def FLAG_STABLE_def FLAG_V2DIR_def FLAG_VALID_def

definition flag_bit :: "string \<Rightarrow> flags" where
  "flag_bit name =
     (if name = ''Authority'' then FLAG_AUTHORITY else if name = ''BadExit'' then FLAG_BAD_EXIT
      else if name = ''Exit'' then FLAG_EXIT else if name = ''Fast'' then FLAG_FAST
      else if name = ''Guard'' then FLAG_GUARD else if name = ''HSDir'' then FLAG_HSDIR
      else if name = ''MiddleOnly'' then FLAG_MIDDLE_ONLY else if name = ''Running'' then FLAG_RUNNING
      else if name = ''Stable'' then FLAG_STABLE else if name = ''V2Dir'' then FLAG_V2DIR
      else if name = ''Valid'' then FLAG_VALID else 0)"

record router_status =
  identity :: bytes
  microdesc_digest :: bytes
  ipv4 :: bytes
  or_port :: nat
  router_flags :: flags
  bandwidth :: nat

definition has :: "flags \<Rightarrow> router_status \<Rightarrow> bool" where
  "has fs r \<longleftrightarrow> router_flags r AND fs = fs"

definition subnet16 :: "router_status \<Rightarrow> bytes" where
  "subnet16 r = [ipv4 r ! 0, ipv4 r ! 1]"

text \<open>\<^verbatim>\<open>zip\<close> with the four slots: at most four parts are looked at before they are counted.\<close>

fun parse_octets :: "nat \<Rightarrow> string list \<Rightarrow> bytes option" where
  "parse_octets (Suc n) (p # ps) =
     (case parse_u8 p of None \<Rightarrow> None | Some v \<Rightarrow> map_option ((#) (word_of_nat v)) (parse_octets n ps))"
| "parse_octets _ _ = Some []"

definition parse_r_line :: "string \<Rightarrow> router_status option" where
  "parse_r_line args =
     (let fs = split_whitespace args;
          layout = (if length fs = 7 then Some (drop 4 fs) else if length fs = 8 then Some (drop 5 fs) else None)
      in (case layout of
            None \<Rightarrow> None
          | Some addr \<Rightarrow>
              (case (to_option (base64_fixed 20 (fs ! 1)), parse_octets 4 (split_char CHR ''.'' (addr ! 0))) of
                 (Some ident, Some ip) \<Rightarrow>
                   if length (split_char CHR ''.'' (addr ! 0)) \<noteq> 4 then None
                   else (case parse_u16 (addr ! 1) of
                           None \<Rightarrow> None
                         | Some port \<Rightarrow>
                             Some \<lparr>identity = ident, microdesc_digest = replicate 32 0, ipv4 = ip, or_port = port,
                                   router_flags = 0, bandwidth = 0\<rparr>)
               | _ \<Rightarrow> None)))"

definition usable :: "router_status \<Rightarrow> bool" where
  "usable r \<longleftrightarrow> microdesc_digest r \<noteq> replicate 32 0 \<and> or_port r \<noteq> 0"

definition push_if_usable :: "router_status option \<Rightarrow> router_status list \<Rightarrow> router_status list" where
  "push_if_usable r rs = (case r of None \<Rightarrow> rs | Some d \<Rightarrow> if usable d then rs @ [d] else rs)"

definition set_bandwidth :: "string \<Rightarrow> router_status \<Rightarrow> router_status" where
  "set_bandwidth args r =
     fold (\<lambda>field r. case strip_prefix ''Bandwidth='' field of
             None \<Rightarrow> r
           | Some v \<Rightarrow> r\<lparr>bandwidth := (case parse_u32 v of None \<Rightarrow> 0 | Some n \<Rightarrow> n)\<rparr>) (split_whitespace args) r"

fun routers_loop :: "string list \<Rightarrow> router_status option \<Rightarrow> router_status list \<Rightarrow> router_status list" where
  "routers_loop [] cur rs = push_if_usable cur rs"
| "routers_loop (line # ls) cur rs =
     (case item_args line ''r'' of
        Some args \<Rightarrow> routers_loop ls (parse_r_line args) (push_if_usable cur rs)
      | None \<Rightarrow>
     (case item_args line ''m'' of
        Some args \<Rightarrow>
          routers_loop ls (map_option (\<lambda>r. r\<lparr>microdesc_digest :=
             (case base64_fixed 32 (hd (split_char CHR '' '' args)) of Inr d \<Rightarrow> d | Inl _ \<Rightarrow> replicate 32 0)\<rparr>) cur) rs
      | None \<Rightarrow>
     (case item_args line ''s'' of
        Some args \<Rightarrow>
          routers_loop ls (map_option (\<lambda>r. r\<lparr>router_flags := fold (\<lambda>b a. a OR b) (map flag_bit (split_whitespace args)) 0\<rparr>) cur) rs
      | None \<Rightarrow>
     (case item_args line ''w'' of
        Some args \<Rightarrow> routers_loop ls (map_option (set_bandwidth args) cur) rs
      | None \<Rightarrow>
          if starts_with ''directory-signature'' line \<or> starts_with ''directory-footer'' line
          then push_if_usable cur rs
          else routers_loop ls cur rs))))"

definition parse_routers :: "string \<Rightarrow> router_status list" where
  "parse_routers text = routers_loop (lines text) None []"

section \<open>Weights and parameters\<close>

definition WEIGHT_SCALE :: nat where "WEIGHT_SCALE = 10000"

record bandwidth_weights =
  wgg :: nat
  wgm :: nat
  wgd :: nat
  wmg :: nat
  wmm :: nat
  wme :: nat
  wmd :: nat
  weg :: nat
  wem :: nat
  wee :: nat
  wed :: nat

definition default_weights :: bandwidth_weights where
  "default_weights = \<lparr>wgg = WEIGHT_SCALE, wgm = WEIGHT_SCALE, wgd = WEIGHT_SCALE, wmg = WEIGHT_SCALE, wmm = WEIGHT_SCALE, wme = WEIGHT_SCALE, wmd = WEIGHT_SCALE, weg = WEIGHT_SCALE, wem = WEIGHT_SCALE, wee = WEIGHT_SCALE, wed = WEIGHT_SCALE\<rparr>"

definition set_weight :: "string \<Rightarrow> nat \<Rightarrow> bandwidth_weights \<Rightarrow> bandwidth_weights" where
  "set_weight key v b =
     (if key = ''Wgg'' then b\<lparr>wgg := v\<rparr>
      else if key = ''Wgm'' then b\<lparr>wgm := v\<rparr>
      else if key = ''Wgd'' then b\<lparr>wgd := v\<rparr>
      else if key = ''Wmg'' then b\<lparr>wmg := v\<rparr>
      else if key = ''Wmm'' then b\<lparr>wmm := v\<rparr>
      else if key = ''Wme'' then b\<lparr>wme := v\<rparr>
      else if key = ''Wmd'' then b\<lparr>wmd := v\<rparr>
      else if key = ''Weg'' then b\<lparr>weg := v\<rparr>
      else if key = ''Wem'' then b\<lparr>wem := v\<rparr>
      else if key = ''Wee'' then b\<lparr>wee := v\<rparr>
      else if key = ''Wed'' then b\<lparr>wed := v\<rparr>
      else b)"

definition weights_parse :: "string \<Rightarrow> bandwidth_weights" where
  "weights_parse args =
     fold (\<lambda>field b. case split_once CHR ''='' field of
             None \<Rightarrow> b
           | Some (key, v) \<Rightarrow>
               (case parse_u32 v of
                  None \<Rightarrow> b
                | Some w \<Rightarrow> if w \<le> WEIGHT_SCALE then set_weight key w b else b))
       (split_whitespace args) default_weights"

record net_params =
  hsdir_interval :: nat
  hsdir_n_replicas :: nat
  hsdir_spread_fetch :: nat
  weights_of :: bandwidth_weights
  cc_exit :: cc_params
  cc_onion :: cc_params

definition default_params :: net_params where
  "default_params = \<lparr>hsdir_interval = 1440, hsdir_n_replicas = 2, hsdir_spread_fetch = 3,
     weights_of = default_weights, cc_exit = cc_defaults Exit, cc_onion = cc_defaults Onion\<rparr>"

definition in_range :: "nat option \<Rightarrow> nat \<Rightarrow> nat \<Rightarrow> nat option" where
  "in_range v low high = (case v of None \<Rightarrow> None | Some n \<Rightarrow> if low \<le> n \<and> n \<le> high then Some n else None)"

definition set_param :: "string \<Rightarrow> string \<Rightarrow> net_params \<Rightarrow> net_params" where
  "set_param key v p =
     (if key = ''hsdir-interval'' then
        (case in_range (parse_u64 v) 30 14400 of None \<Rightarrow> p | Some n \<Rightarrow> p\<lparr>hsdir_interval := n\<rparr>)
      else if key = ''hsdir_n_replicas'' then
        (case in_range (parse_u8 v) 1 16 of None \<Rightarrow> p | Some n \<Rightarrow> p\<lparr>hsdir_n_replicas := n\<rparr>)
      else if key = ''hsdir_spread_fetch'' then
        (case in_range (parse_u64 v) 1 128 of None \<Rightarrow> p | Some n \<Rightarrow> p\<lparr>hsdir_spread_fetch := n\<rparr>)
      else p)"

definition params_parse :: "string \<Rightarrow> net_params" where
  "params_parse args =
     fold (\<lambda>field p. case split_once CHR ''='' field of None \<Rightarrow> p | Some (key, v) \<Rightarrow> set_param key v p)
       (split_whitespace args) default_params"

definition from_document :: "string \<Rightarrow> net_params" where
  "from_document text =
     (let out = (case item text ''params'' of None \<Rightarrow> default_params | Some args \<Rightarrow> params_parse args);
          out = (case item text ''bandwidth-weights'' of
                   None \<Rightarrow> out | Some args \<Rightarrow> out\<lparr>weights_of := weights_parse args\<rparr>)
      in (case item text ''params'' of
            None \<Rightarrow> out
          | Some args \<Rightarrow> out\<lparr>cc_exit := cc_parse args Exit, cc_onion := cc_parse args Onion\<rparr>))"

section \<open>The signed document\<close>

record consensus =
  valid_after :: nat
  fresh_until :: nat
  valid_until :: nat
  routers :: "router_status list"
  net_params_of :: net_params
  shared_rand_current :: "bytes option"
  shared_rand_previous :: "bytes option"

definition is_live :: "nat \<Rightarrow> consensus \<Rightarrow> bool" where
  "is_live now c \<longleftrightarrow> now < valid_until c"

definition count_with :: "flags \<Rightarrow> consensus \<Rightarrow> nat" where
  "count_with fs c = length (filter (has fs) (routers c))"

definition signature_keyword :: string where "signature_keyword = ''directory-signature ''"

definition signed_length :: "string \<Rightarrow> nat io_result" where
  "signed_length text =
     (case line_start_of text signature_keyword of
        None \<Rightarrow> Inl (invalid_data ''consensus has no directory-signature'')
      | Some start \<Rightarrow> Inr (start + length signature_keyword))"

record dir_signature =
  algorithm :: string
  sig_identity :: bytes
  sig_key_digest :: bytes
  sig_value :: bytes

definition parse_signature :: "string \<Rightarrow> string \<Rightarrow> dir_signature option" where
  "parse_signature args bdy =
     (let fs = split_whitespace args;
          parts = (case fs of [i, k] \<Rightarrow> Some (''sha1'', i, k) | [a, i, k] \<Rightarrow> Some (a, i, k) | _ \<Rightarrow> None)
      in (case parts of
            None \<Rightarrow> None
          | Some (al, i, k) \<Rightarrow>
              (case (hex_decode i, hex_decode k, object bdy ''SIGNATURE'') of
                 (Inr ident, Inr key, Inr v) \<Rightarrow>
                   if length ident = 20 \<and> length key = 20
                   then Some \<lparr>algorithm = al, sig_identity = ident, sig_key_digest = key, sig_value = v\<rparr> else None
               | _ \<Rightarrow> None)))"

text \<open>One block of the tail: its arguments and what follows them. The first block's keyword is gone already.\<close>

definition signature_block :: "bool \<Rightarrow> string \<Rightarrow> (string \<times> string) option" where
  "signature_block first rest =
     (if first then split_once newline rest
      else case line_start_of rest signature_keyword of
        None \<Rightarrow> None
      | Some start \<Rightarrow> split_once newline (drop (start + length signature_keyword) rest))"

lemma signature_block_length:
  assumes "signature_block first rest = Some (a, b)"
  shows "length b < length rest"
proof -
  obtain k where "split_once newline (drop k rest) = Some (a, b)"
    using assms by (auto simp: signature_block_def split: if_splits option.splits) (metis drop0)
  then have "drop k rest = a @ newline # b"
    by (simp add: split_once_SomeD)
  then have "length (drop k rest) = length a + Suc (length b)"
    by (metis length_append length_Cons)
  then show ?thesis by simp
qed

function signatures :: "bool \<Rightarrow> string \<Rightarrow> dir_signature list" where
  "signatures first rest =
     (case signature_block first rest of
        None \<Rightarrow> []
      | Some (args, bdy) \<Rightarrow>
          (case find_str end_signature bdy of
             None \<Rightarrow> []
           | Some i \<Rightarrow>
               let e = i + length end_signature
               in (case parse_signature args (take e bdy) of None \<Rightarrow> [] | Some sg \<Rightarrow> [sg]) @
                  signatures False (drop e bdy)))"
  by pat_completeness auto
termination
  by (relation "measure (\<lambda>(first, rest). length rest)")
     (auto dest!: signature_block_length)

declare signatures.simps [simp del]

definition required_certificates :: "string \<Rightarrow> (bytes \<times> bytes) list" where
  "required_certificates text =
     (case signed_length text of
        Inl _ \<Rightarrow> []
      | Inr n \<Rightarrow> map (\<lambda>sg. (sig_identity sg, sig_key_digest sg))
                  (filter (\<lambda>sg. is_authority (sig_identity sg)) (signatures True (drop n text))))"

definition timestamp :: "string \<Rightarrow> string \<Rightarrow> nat io_result" where
  "timestamp text keyword =
     and_then (ok_or (invalid_data ''consensus has no such timestamp'') (item text keyword)) split_datetime"

definition shared_random :: "string \<Rightarrow> string \<Rightarrow> bytes option" where
  "shared_random text keyword =
     (case item text keyword of
        None \<Rightarrow> None
      | Some args \<Rightarrow>
          let fs = split_whitespace args
          in if length fs < 2 then None else to_option (base64_fixed 32 (fs ! 1)))"

text \<open>The digest a signature is checked against, when its algorithm is known.\<close>

definition signed_digest :: "'k dir_crypto \<Rightarrow> bytes \<Rightarrow> string \<Rightarrow> bytes option" where
  "signed_digest D msg alg_name =
     (if alg_name = ''sha256'' then Some (dc_sha256 D msg)
      else if alg_name = ''sha1'' then Some (dc_sha1 D msg) else None)"

definition count_signer ::
    "'k dir_crypto \<Rightarrow> bytes \<Rightarrow> 'k key_certificate list \<Rightarrow> dir_signature \<Rightarrow> bytes list \<Rightarrow> bytes list" where
  "count_signer D msg certs sg signers =
     (case signed_digest D msg (algorithm sg) of
        None \<Rightarrow> signers
      | Some digest \<Rightarrow>
          (case List.find (cert_matches (sig_identity sg) (sig_key_digest sg)) certs of
             None \<Rightarrow> signers
           | Some cert \<Rightarrow>
               if is_authority (sig_identity sg) \<and> verify_digest D (signing_key cert) digest (sig_value sg)
                  \<and> sig_identity sg \<notin> set signers
               then signers @ [sig_identity sg] else signers))"

definition consensus_signers ::
    "'k dir_crypto \<Rightarrow> string \<Rightarrow> nat \<Rightarrow> 'k key_certificate list \<Rightarrow> bytes list" where
  "consensus_signers D text n certs =
     fold (count_signer D (as_bytes (take n text)) certs) (signatures True (drop n text)) []"

definition parse_and_verify ::
    "'k dir_crypto \<Rightarrow> string \<Rightarrow> 'k key_certificate list \<Rightarrow> nat \<Rightarrow> consensus io_result" where
  "parse_and_verify D text certs now =
     (case lines text of
        [] \<Rightarrow> Inl (invalid_data ''empty consensus'')
      | header # _ \<Rightarrow>
          if header \<noteq> ''network-status-version 3 microdesc'' then Inl (invalid_data ''not a microdescriptor consensus'')
          else and_then (signed_length text) (\<lambda>n.
            if length (consensus_signers D text n certs) < required_signatures
            then Inl (invalid_data ''not enough valid authority signatures'')
            else and_then (timestamp text ''valid-after'') (\<lambda>va.
              and_then (timestamp text ''fresh-until'') (\<lambda>fu.
              and_then (timestamp text ''valid-until'') (\<lambda>vu.
                if now \<ge> vu then Inl (invalid_data ''consensus expired'')
                else
                  let rs = parse_routers (take n text)
                  in if rs = [] then Inl (invalid_data ''consensus lists no routers'')
                     else Inr \<lparr>valid_after = va, fresh_until = fu, valid_until = vu, routers = rs,
                               net_params_of = from_document text,
                               shared_rand_current = shared_random text ''shared-rand-current-value'',
                               shared_rand_previous = shared_random text ''shared-rand-previous-value''\<rparr>)))))"

section \<open>What acceptance means\<close>

text \<open>An authority's signature over \<open>msg\<close>, made with a key that one of the certificates gives it.\<close>

definition vouched ::
    "'k dir_crypto \<Rightarrow> bytes \<Rightarrow> 'k key_certificate list \<Rightarrow> dir_signature list \<Rightarrow> bytes \<Rightarrow> bool" where
  "vouched D msg certs sgs ident \<longleftrightarrow>
     (\<exists>sg cert digest. sg \<in> set sgs \<and> cert \<in> set certs \<and> sig_identity sg = ident \<and> v3ident cert = ident \<and>
        signing_key_digest cert = sig_key_digest sg \<and> signed_digest D msg (algorithm sg) = Some digest \<and>
        verify_digest D (signing_key cert) digest (sig_value sg))"

lemma count_signer_vouched:
  assumes "ident \<in> set (count_signer D msg certs sg signers)" and "ident \<notin> set signers"
  shows "is_authority ident \<and> vouched D msg certs [sg] ident"
proof -
  obtain digest cert where "signed_digest D msg (algorithm sg) = Some digest" "ident = sig_identity sg"
    and f: "List.find (cert_matches (sig_identity sg) (sig_key_digest sg)) certs = Some cert"
    and "is_authority ident" "verify_digest D (signing_key cert) digest (sig_value sg)"
    using assms by (auto simp: count_signer_def split: option.splits if_splits)
  moreover have "cert \<in> set certs" "cert_matches (sig_identity sg) (sig_key_digest sg) cert"
    using f by (auto simp: find_Some_iff)
  ultimately show ?thesis
    unfolding vouched_def cert_matches_def by auto
qed

lemma vouched_mono: "vouched D msg certs [sg] ident \<Longrightarrow> sg \<in> set every \<Longrightarrow> vouched D msg certs every ident"
  unfolding vouched_def by force

lemma distinct_count_signer: "distinct signers \<Longrightarrow> distinct (count_signer D msg certs sg signers)"
  by (simp add: count_signer_def split: option.split)

lemma signers_vouched:
  assumes "distinct signers" and "\<forall>ident \<in> set signers. is_authority ident \<and> vouched D msg certs every ident"
    and "set sgs \<subseteq> set every"
  shows "distinct (fold (count_signer D msg certs) sgs signers) \<and>
     (\<forall>ident \<in> set (fold (count_signer D msg certs) sgs signers). is_authority ident \<and> vouched D msg certs every ident)"
  using assms
proof (induction sgs arbitrary: signers)
  case (Cons sg sgs)
  let ?s = "count_signer D msg certs sg signers"
  have "\<forall>ident \<in> set ?s. is_authority ident \<and> vouched D msg certs every ident"
  proof
    fix ident assume ident: "ident \<in> set ?s"
    show "is_authority ident \<and> vouched D msg certs every ident"
    proof (cases "ident \<in> set signers")
      case True
      with Cons.prems(2) show ?thesis by blast
    next
      case False
      have "sg \<in> set every" using Cons.prems(3) by simp
      then show ?thesis
        using count_signer_vouched [OF ident False] vouched_mono by blast
    qed
  qed
  moreover have "set sgs \<subseteq> set every" using Cons.prems(3) by simp
  ultimately have "distinct (fold (count_signer D msg certs) sgs ?s) \<and>
     (\<forall>ident \<in> set (fold (count_signer D msg certs) sgs ?s). is_authority ident \<and> vouched D msg certs every ident)"
    by (intro Cons.IH distinct_count_signer Cons.prems(1))
  then show ?case
    unfolding fold_simps .
next
  case Nil
  then show ?case unfolding fold_simps by blast
qed

definition all_usable :: "router_status list \<Rightarrow> bool" where
  "all_usable rs \<longleftrightarrow> (\<forall>r \<in> set rs. usable r)"

lemma all_usable_case:
  "all_usable a \<Longrightarrow> (\<And>y. all_usable (b y)) \<Longrightarrow> all_usable (case x of None \<Rightarrow> a | Some y \<Rightarrow> b y)"
  by (simp split: option.split)

lemma all_usable_if: "all_usable a \<Longrightarrow> all_usable b \<Longrightarrow> all_usable (if c then a else b)"
  by simp

lemma all_usable_push: "all_usable rs \<Longrightarrow> all_usable (push_if_usable c rs)"
  by (auto simp: push_if_usable_def all_usable_def split: option.split)

lemma routers_loop_usable: "all_usable rs \<Longrightarrow> all_usable (routers_loop ls cur rs)"
proof (induction ls arbitrary: cur rs)
  case Nil
  then show ?case by (simp add: all_usable_push)
next
  case (Cons line ls)
  show ?case
    unfolding routers_loop.simps
    by (intro all_usable_case all_usable_if Cons.IH all_usable_push Cons.prems)
qed

definition weights_ok :: "bandwidth_weights \<Rightarrow> bool" where
  "weights_ok b \<longleftrightarrow> wgg b \<le> WEIGHT_SCALE \<and> wgm b \<le> WEIGHT_SCALE \<and> wgd b \<le> WEIGHT_SCALE \<and> wmg b \<le> WEIGHT_SCALE \<and> wmm b \<le> WEIGHT_SCALE \<and> wme b \<le> WEIGHT_SCALE \<and> wmd b \<le> WEIGHT_SCALE \<and> weg b \<le> WEIGHT_SCALE \<and> wem b \<le> WEIGHT_SCALE \<and> wee b \<le> WEIGHT_SCALE \<and> wed b \<le> WEIGHT_SCALE"

definition hsdir_ok :: "net_params \<Rightarrow> bool" where
  "hsdir_ok p \<longleftrightarrow> 30 \<le> hsdir_interval p \<and> hsdir_interval p \<le> 14400 \<and> 1 \<le> hsdir_n_replicas p \<and>
     hsdir_n_replicas p \<le> 16 \<and> 1 \<le> hsdir_spread_fetch p \<and> hsdir_spread_fetch p \<le> 128"

lemma default_weights_ok: "weights_ok default_weights"
  by (simp add: weights_ok_def default_weights_def)

lemma weights_parse_ok: "weights_ok (weights_parse args)"
proof -
  have "weights_ok (set_weight key v b)" if "weights_ok b" "v \<le> WEIGHT_SCALE" for key v b
    using that by (simp add: weights_ok_def set_weight_def)
  then show ?thesis
    unfolding weights_parse_def
    by (intro fold_invariant [where P = weights_ok and Q = "\<lambda>_. True"]) (auto split: option.splits simp: default_weights_ok)
qed

lemma in_range_SomeD: "in_range v low high = Some n \<Longrightarrow> low \<le> n \<and> n \<le> high"
  by (auto simp: in_range_def split: option.splits if_splits)

lemma set_param_frame:
  "weights_of (set_param key v p) = weights_of p" "cc_exit (set_param key v p) = cc_exit p"
  "cc_onion (set_param key v p) = cc_onion p"
  by (simp_all add: set_param_def split: option.split)

lemma set_param_ok:
  assumes "hsdir_ok p"
  shows "hsdir_ok (set_param key v p)"
  using assms by (simp add: hsdir_ok_def set_param_def in_range_SomeD split: option.split)

lemma params_parse_ok:
  "hsdir_ok (params_parse args) \<and> weights_ok (weights_of (params_parse args))"
proof -
  let ?P = "\<lambda>p. hsdir_ok p \<and> weights_ok (weights_of p)"
  have "?P default_params"
    by (simp add: hsdir_ok_def default_params_def default_weights_ok)
  then show ?thesis
    unfolding params_parse_def
    by (intro fold_invariant [where P = ?P and Q = "\<lambda>_. True"]) (auto split: option.splits simp: set_param_ok set_param_frame)
qed

lemma cc_parse_ok: "cc_params_ok (cc_parse args pos)"
  unfolding cc_parse_def by (intro fold_cc_field_ok cc_defaults_ok)

text \<open>Every error of the parser is a data error.\<close>

lemma split_datetime_error: "split_datetime args = Inl e \<Longrightarrow> error_kind e = InvalidData"
  by (auto simp: split_datetime_def parse_datetime_def bad_timestamp_def invalid_data_def Let_def
      split: option.splits prod.splits list.splits if_splits)

lemma timestamp_error: "timestamp text kw = Inl e \<Longrightarrow> error_kind e = InvalidData"
  by (auto simp: timestamp_def and_then_eq_Inl ok_or_def invalid_data_def split: option.splits dest: split_datetime_error)

lemma parse_and_verify_Inr:
  assumes "parse_and_verify D text certs now = Inr c"
  shows "\<exists>n S. signed_length text = Inr n \<and> finite S \<and> 5 \<le> card S \<and>
     S \<subseteq> {ident. is_authority ident \<and> vouched D (as_bytes (take n text)) certs (signatures True (drop n text)) ident} \<and>
     now < valid_until c \<and> routers c = parse_routers (take n text) \<and> set (routers c) \<subseteq> Collect usable"
proof -
  obtain n where n: "signed_length text = Inr n" and need: "required_signatures \<le> length (consensus_signers D text n certs)"
    and live: "now < valid_until c" and rs: "routers c = parse_routers (take n text)"
    using assms unfolding parse_and_verify_def by (auto simp: Let_def not_less split: list.splits if_splits)
  let ?s = "consensus_signers D text n certs"
  have v: "distinct ?s \<and> (\<forall>ident \<in> set ?s. is_authority ident \<and>
      vouched D (as_bytes (take n text)) certs (signatures True (drop n text)) ident)"
    unfolding consensus_signers_def by (rule signers_vouched) simp_all
  have "required_signatures = 5"
    by (simp add: required_signatures_def AUTHORITIES_def)
  then have "5 \<le> card (set ?s)"
    using need v by (simp add: distinct_card)
  moreover have "set (routers c) \<subseteq> Collect usable"
    using routers_loop_usable [of "[]" "lines (take n text)" None] unfolding rs parse_routers_def by (auto simp: all_usable_def)
  ultimately show ?thesis
    using n v live rs by (auto intro!: exI [of _ n] exI [of _ "set ?s"])
qed

lemma parse_and_verify_error: "parse_and_verify D text certs now = Inl e \<Longrightarrow> error_kind e = InvalidData"
  by (auto simp: parse_and_verify_def signed_length_def and_then_eq_Inl Let_def invalid_data_def
      split: list.splits if_splits option.splits dest: timestamp_error)

section \<open>Properties\<close>

text \<open>
  C12: a consensus is accepted only with the valid signatures of a majority of the trusted authorities,
  five of the nine, each counted once, each over the document up to its first signature and made with
  a key that one of that authority's certificates names; only before it expires; its routers come from
  the signed part alone, and each of them has a port and a microdescriptor digest.
\<close>

theorem consensus_needs_majority:
  "case parse_and_verify D text certs now of
     Inl e \<Rightarrow> error_kind e = InvalidData
   | Inr c \<Rightarrow> \<exists>n S. signed_length text = Inr n \<and> finite S \<and> 5 \<le> card S \<and>
     S \<subseteq> {ident. is_authority ident \<and> vouched D (as_bytes (take n text)) certs (signatures True (drop n text)) ident} \<and>
     now < valid_until c \<and> routers c = parse_routers (take n text) \<and> set (routers c) \<subseteq> Collect usable"
  using parse_and_verify_error [of D "text" certs "now"] parse_and_verify_Inr [of D "text" certs "now"]
  by (cases "parse_and_verify D text certs now") simp_all

text \<open>
  Whatever the \<^verbatim>\<open>bandwidth-weights\<close> and \<^verbatim>\<open>params\<close> lines say, every weight that comes out is at most the
  scale, and the onion-service and congestion parameters are within the ranges their specifications
  give them.
\<close>

theorem document_params_in_range:
  "weights_ok (weights_of (from_document text)) \<and> hsdir_ok (from_document text) \<and>
     cc_params_ok (cc_exit (from_document text)) \<and> cc_params_ok (cc_onion (from_document text))"
proof -
  have "hsdir_ok default_params" "cc_params_ok (cc_exit default_params)" "cc_params_ok (cc_onion default_params)"
    "weights_ok (weights_of default_params)"
    by (simp_all add: hsdir_ok_def default_params_def cc_defaults_ok default_weights_ok)
  moreover have "hsdir_ok (p\<lparr>weights_of := w\<rparr>) = hsdir_ok p" "hsdir_ok (p\<lparr>cc_exit := x, cc_onion := y\<rparr>) = hsdir_ok p"
    for p :: net_params and w x y
    by (simp_all add: hsdir_ok_def)
  ultimately show ?thesis
    unfolding from_document_def Let_def
    by (simp add: params_parse_ok weights_parse_ok cc_parse_ok split: option.split)
qed

end
