(* ===== verification/Consensus_Diff.thy ===== *)
theory Consensus_Diff
  imports Consensus_Doc
begin

text \<open>
  Consensus diffs, \<^verbatim>\<open>src/tor/dir/diff.rs\<close>: the limited ed format, its parser, and the application of a
  diff to the consensus at hand, which builds the new document from its end. SHA3-256 is a parameter.
  What \<^verbatim>\<open>parse_command\<close> does with an array and a cursor is done here with the lines that are left.
\<close>

definition VERSION_LINE :: string where "VERSION_LINE = ''network-status-diff-version 1''"

section \<open>Lines\<close>

definition split_lines :: "string \<Rightarrow> string list \<times> bool" where
  "split_lines s =
     (case strip_suffix [newline] s of
        Some b \<Rightarrow> (split_char newline b, True)
      | None \<Rightarrow> if s = [] then ([], False) else (split_char newline s, False))"

fun join_with :: "string list \<Rightarrow> string" where
  "join_with [] = []"
| "join_with [l] = l"
| "join_with (l # k # ls) = l @ [newline] @ join_with (k # ls)"

definition join_lines :: "string list \<Rightarrow> bool \<Rightarrow> string" where
  "join_lines ls trailing_newline =
     (if ls = [] then [] else join_with ls @ (if trailing_newline then [newline] else []))"

section \<open>Commands\<close>

datatype ed_action = Delete | Change | Append

record ed_command =
  cmd_start :: nat
  cmd_end :: nat
  cmd_action :: ed_action
  cmd_insert :: "string list"

definition parse_address :: "string \<Rightarrow> nat \<Rightarrow> nat option" where
  "parse_address field final =
     (if field = ''$'' then Some final
      else if field = [] \<or> \<not> list_all is_digit field then None
      else parse_u64 field)"

definition bad_command :: io_error where
  "bad_command = invalid_data ''unsupported consensus diff command''"

definition parse_action :: "string \<Rightarrow> ed_action option" where
  "parse_action line =
     (if line = [] then None
      else if last line = CHR ''d'' then Some Delete
      else if last line = CHR ''c'' then Some Change
      else if last line = CHR ''a'' then Some Append
      else None)"

definition parse_range_of :: "ed_action \<Rightarrow> string \<Rightarrow> nat \<Rightarrow> (nat \<times> nat) option" where
  "parse_range_of act addresses final =
     (case split_once CHR '','' addresses of
        Some (first, second) \<Rightarrow>
          if act = Append then None
          else (case (parse_address first final, parse_address second final) of
                  (Some a, Some b) \<Rightarrow> Some (a, b)
                | _ \<Rightarrow> None)
      | None \<Rightarrow> map_option (\<lambda>a. (a, a)) (parse_address addresses final))"

definition is_ascii_whitespace :: "char \<Rightarrow> bool" where
  "is_ascii_whitespace c \<longleftrightarrow> code c \<in> {9, 10, 12, 13, 32}"

text \<open>A dot followed by nothing but whitespace.\<close>

definition dotted_blank :: "string \<Rightarrow> bool" where
  "dotted_blank line =
     (case strip_prefix ''.'' line of None \<Rightarrow> False | Some rest \<Rightarrow> rest \<noteq> [] \<and> list_all is_ascii_whitespace rest)"

fun take_block :: "string list \<Rightarrow> (string list \<times> string list) io_result" where
  "take_block [] = Inl (invalid_data ''consensus diff block has no terminator'')"
| "take_block (line # ls) =
     (if line = ''.'' then Inr ([], ls)
      else if dotted_blank line then Inl (invalid_data ''consensus diff inserts a dotted blank line'')
      else and_then (take_block ls) (\<lambda>(blk, rest). Inr (line # blk, rest)))"

definition parse_command :: "string \<Rightarrow> string list \<Rightarrow> nat \<Rightarrow> (ed_command \<times> string list) io_result" where
  "parse_command line ls final =
     and_then (ok_or bad_command (parse_action line)) (\<lambda>act.
     and_then (ok_or bad_command (parse_range_of act (butlast line) final)) (\<lambda>(start, stop).
       if start > stop \<or> (start = 0 \<and> act \<noteq> Append) then Inl bad_command
       else and_then (if act = Delete then Inr ([], ls) else take_block ls) (\<lambda>(blk, rest).
         Inr (\<lparr>cmd_start = start, cmd_end = stop, cmd_action = act, cmd_insert = blk\<rparr>, rest))))"

section \<open>Applying\<close>

definition document_digest :: "(bytes \<Rightarrow> bytes) \<Rightarrow> string \<Rightarrow> string" where
  "document_digest sha3 s = hex_encode (sha3 (as_bytes s))"

definition signed_part_digest :: "(bytes \<Rightarrow> bytes) \<Rightarrow> string \<Rightarrow> string" where
  "signed_part_digest sha3 s =
     (let stop = (case signed_length s of Inr n \<Rightarrow> n | Inl _ \<Rightarrow> length s)
      in hex_encode (sha3 (as_bytes (take stop s))))"

definition is_digest32 :: "string \<Rightarrow> bool" where
  "is_digest32 h = (case hex_decode h of Inr bs \<Rightarrow> length bs = 32 | Inl _ \<Rightarrow> False)"

definition parse_hash_line :: "string \<Rightarrow> (string \<times> string) io_result" where
  "parse_hash_line line =
     (case item_args line ''hash'' of
        None \<Rightarrow> Inl (invalid_data ''consensus diff has a bad hash line'')
      | Some args \<Rightarrow>
          (case split_char CHR '' '' args of
             [from_digest, to_digest] \<Rightarrow>
               if is_digest32 from_digest \<and> is_digest32 to_digest then Inr (from_digest, to_digest)
               else Inl (invalid_data ''consensus diff has a bad hash line'')
           | _ \<Rightarrow> Inl (invalid_data ''consensus diff has a bad hash line'')))"

text \<open>
  \<open>kept\<close> holds the end of the result reversed, \<open>j\<close> is how much of the base is untouched. Each command
  uses up at least its own line, which bounds the loop.
\<close>

lemma take_block_shorter: "take_block ls = Inr (blk, rest) \<Longrightarrow> length rest < length ls"
  by (induction ls arbitrary: blk) (fastforce split: if_splits)+

lemma parse_command_shorter: "parse_command line ls final = Inr (cmd, rest) \<Longrightarrow> length rest \<le> length ls"
  by (auto simp: parse_command_def split: if_splits dest: take_block_shorter)

function apply_loop :: "string list \<Rightarrow> string list \<Rightarrow> string list \<Rightarrow> nat \<Rightarrow> string list io_result" where
  "apply_loop base [] kept j = Inr (rev (kept @ rev (take j base)))"
| "apply_loop base (line # ls) kept j =
     (case parse_command line ls (length base) of
        Inl e \<Rightarrow> Inl e
      | Inr (cmd, rest) \<Rightarrow>
          if cmd_end cmd > length base then Inl (invalid_data ''consensus diff command runs past the end'')
          else if cmd_end cmd > j then Inl (invalid_data ''consensus diff command is not in descending line order'')
          else apply_loop base rest (kept @ rev (slice (cmd_end cmd) j base) @ rev (cmd_insert cmd))
                 (case cmd_action cmd of Append \<Rightarrow> cmd_start cmd | _ \<Rightarrow> cmd_start cmd - 1))"
  by pat_completeness auto
termination
  by (relation "measure (\<lambda>(base, ls, kept, j). length ls)") (auto dest: parse_command_shorter)

definition apply_diff :: "(bytes \<Rightarrow> bytes) \<Rightarrow> string \<Rightarrow> string \<Rightarrow> string io_result" where
  "apply_diff sha3 base diff =
     (case fst (split_lines diff) of
        version # hash_line # ls \<Rightarrow>
          if version \<noteq> VERSION_LINE then Inl (invalid_data ''not a consensus diff: no version 1 header'')
          else and_then (parse_hash_line hash_line) (\<lambda>(from_digest, to_digest).
            if to_lowercase from_digest \<noteq> to_lowercase (signed_part_digest sha3 base)
            then Inl (invalid_data ''consensus diff is from another consensus'')
            else
              let (base_lines, trailing_newline) = split_lines base
              in and_then (apply_loop base_lines ls [] (length base_lines)) (\<lambda>kept.
                   let result = join_lines kept trailing_newline
                   in if to_lowercase to_digest \<noteq> to_lowercase (document_digest sha3 result)
                      then Inl (invalid_data ''consensus diff promised another digest'')
                      else Inr result))
      | [version] \<Rightarrow>
          Inl (invalid_data (if version \<noteq> VERSION_LINE then ''not a consensus diff: no version 1 header''
                             else ''consensus diff ends after its header''))
      | [] \<Rightarrow> Inl (invalid_data ''not a consensus diff: no version 1 header''))"

section \<open>What a diff means\<close>

text \<open>ed itself: each command is carried out on the document as the commands before it left it.\<close>

definition ed_run :: "ed_command \<Rightarrow> string list \<Rightarrow> string list" where
  "ed_run cmd doc =
     (case cmd_action cmd of
        Append \<Rightarrow> take (cmd_start cmd) doc @ cmd_insert cmd @ drop (cmd_start cmd) doc
      | _ \<Rightarrow> take (cmd_start cmd - 1) doc @ cmd_insert cmd @ drop (cmd_end cmd) doc)"

function parse_commands :: "string list \<Rightarrow> nat \<Rightarrow> ed_command list io_result" where
  "parse_commands [] final = Inr []"
| "parse_commands (line # ls) final =
     (case parse_command line ls final of
        Inl e \<Rightarrow> Inl e
      | Inr (cmd, rest) \<Rightarrow> and_then (parse_commands rest final) (\<lambda>cmds. Inr (cmd # cmds)))"
  by pat_completeness auto
termination
  by (relation "measure (\<lambda>(ls, final). length ls)") (auto dest: parse_command_shorter)

lemma parse_command_shape:
  assumes "parse_command line ls final = Inr (cmd, rest)"
  shows "cmd_start cmd \<le> cmd_end cmd \<and> (cmd_action cmd \<noteq> Append \<longrightarrow> 0 < cmd_start cmd \<and> cmd_start cmd \<le> cmd_end cmd)
     \<and> (cmd_action cmd = Append \<longrightarrow> cmd_start cmd = cmd_end cmd) \<and> (cmd_action cmd = Delete \<longrightarrow> cmd_insert cmd = [])"
  using assms by (auto simp: parse_command_def parse_range_of_def split: if_splits option.splits prod.splits)

lemma ed_run_prefix:
  assumes "cmd_start cmd \<le> cmd_end cmd" and "cmd_action cmd = Append \<longrightarrow> cmd_start cmd = cmd_end cmd"
    and "cmd_end cmd \<le> j" and "j \<le> length base"
  shows "ed_run cmd (take j base @ tail) =
     take (case cmd_action cmd of Append \<Rightarrow> cmd_start cmd | _ \<Rightarrow> cmd_start cmd - 1) base @
       cmd_insert cmd @ slice (cmd_end cmd) j base @ tail"
proof -
  have "take k (take j base @ tail) = take k base" "drop k (take j base @ tail) = slice k j base @ tail" if "k \<le> j" for k
    using that assms(4) by (simp_all add: slice_def drop_take min_def)
  then show ?thesis
    using assms by (auto simp: ed_run_def split: ed_action.split)
qed

text \<open>Where the part of the base a command leaves untouched ends, and commands that go from the end up.\<close>

definition untouched :: "ed_command \<Rightarrow> nat" where
  "untouched cmd = (case cmd_action cmd of Append \<Rightarrow> cmd_start cmd | _ \<Rightarrow> cmd_start cmd - 1)"

fun descending :: "nat \<Rightarrow> ed_command list \<Rightarrow> bool" where
  "descending j [] = True"
| "descending j (cmd # cmds) = (cmd_end cmd \<le> j \<and> descending (untouched cmd) cmds)"

lemma apply_loop_ed:
  assumes "j \<le> length base"
  shows "apply_loop base ls kept j = Inr doc \<longleftrightarrow>
     (\<exists>cmds. parse_commands ls (length base) = Inr cmds \<and> descending j cmds
        \<and> doc = fold ed_run cmds (take j base @ rev kept))"
  using assms
proof (induction base ls kept j rule: apply_loop.induct)
  case (2 base line ls kept j)
  show ?case
  proof (cases "parse_command line ls (length base)")
    case (Inr r)
    obtain cmd rest where p: "parse_command line ls (length base) = Inr (cmd, rest)"
      using Inr by (cases r) auto
    note shape = parse_command_shape [OF p]
    show ?thesis
    proof (cases "cmd_end cmd \<le> j")
      case le: True
      let ?kept = "kept @ rev (slice (cmd_end cmd) j base) @ rev (cmd_insert cmd)"
      have "untouched cmd \<le> length base"
        using shape le "2.prems" by (auto simp: untouched_def split: ed_action.split)
      moreover have "ed_run cmd (take j base @ rev kept) = take (untouched cmd) base @ rev ?kept"
        using ed_run_prefix [of cmd j base "rev kept"] shape le "2.prems" by (simp add: untouched_def)
      ultimately have "apply_loop base rest ?kept (untouched cmd) = Inr doc \<longleftrightarrow>
          (\<exists>cmds. parse_commands rest (length base) = Inr cmds \<and> descending (untouched cmd) cmds
             \<and> doc = fold ed_run cmds (ed_run cmd (take j base @ rev kept)))"
        using "2.IH" [OF p refl] le "2.prems" by (simp add: untouched_def)
      moreover have "apply_loop base (line # ls) kept j = apply_loop base rest ?kept (untouched cmd)"
        using p le "2.prems" by (simp add: untouched_def)
      moreover have "(\<exists>cmds. parse_commands (line # ls) (length base) = Inr cmds \<and> Q cmds) \<longleftrightarrow>
          (\<exists>cmds. parse_commands rest (length base) = Inr cmds \<and> Q (cmd # cmds))" for Q
        using p by simp metis
      ultimately show ?thesis
        using le by (simp only: descending.simps fold_simps simp_thms)
    next
      case False
      then show ?thesis
        using p "2.prems" by auto
    qed
  qed simp
qed auto

lemma join_split_with: "join_with (split_char newline s) = s"
proof (induction s)
  case (Cons c s)
  then show ?case
    by (cases "split_char newline s" rule: join_with.cases) (auto simp: split_on_not_Nil)
qed simp

lemma join_split: "case split_lines s of (ls, nl) \<Rightarrow> join_lines ls nl = s"
  by (auto simp: split_lines_def join_lines_def join_split_with strip_suffix_eq_Some split: option.splits)

section \<open>Applying a diff is running ed\<close>

text \<open>
  C13: A diff is applied exactly when it has the version 1 header and a hash line of two 32-byte digests, names
  the consensus at hand by its signed part, consists of commands in the supported subset that address
  lines from the end upwards, and yields a document with the promised digest. The one-pass construction
  from the end then returns what ed leaves after carrying out the commands one by one on the lines of
  the base, joined the way the base was split.
\<close>

theorem diff_apply_is_ed:
  "apply_diff sha3 base diff = Inr result \<longleftrightarrow>
     (\<exists>hash_line ls from_digest to_digest cmds.
        fst (split_lines diff) = VERSION_LINE # hash_line # ls
      \<and> parse_hash_line hash_line = Inr (from_digest, to_digest)
      \<and> to_lowercase from_digest = to_lowercase (signed_part_digest sha3 base)
      \<and> parse_commands ls (length (fst (split_lines base))) = Inr cmds
      \<and> descending (length (fst (split_lines base))) cmds
      \<and> result = join_lines (fold ed_run cmds (fst (split_lines base))) (snd (split_lines base))
      \<and> to_lowercase to_digest = to_lowercase (document_digest sha3 result))
    \<and> join_lines (fst (split_lines base)) (snd (split_lines base)) = base"
proof -
  obtain base_lines nl where sp: "split_lines base = (base_lines, nl)"
    by fastforce
  have "join_lines base_lines nl = base"
    using join_split [of base] sp by simp
  moreover have "apply_loop base_lines ls [] (length base_lines) = Inr doc \<longleftrightarrow>
      (\<exists>cmds. parse_commands ls (length base_lines) = Inr cmds \<and> descending (length base_lines) cmds
         \<and> doc = fold ed_run cmds base_lines)" for ls doc
    by (simp add: apply_loop_ed)
  ultimately show ?thesis
    unfolding apply_diff_def sp
    by (auto simp: Let_def and_then_eq_Inr split: list.splits if_splits)
qed

end
