(* ===== verification/Microdesc_Doc.thy ===== *)
theory Microdesc_Doc
  imports Consensus_Doc
begin

text \<open>
  Microdescriptors, \<^verbatim>\<open>src/tor/dir/microdesc.rs\<close>: exit policy summaries, one microdescriptor, and a
  response that holds many. SHA-256 is a parameter, the field \<open>dc_sha256\<close> of \<open>dir_crypto\<close>.
\<close>

record port_policy =
  is_accept :: bool
  ranges :: "(nat \<times> nat) list"

definition reject_all :: port_policy where
  "reject_all = \<lparr>is_accept = False, ranges = [(1, 65535)]\<rparr>"

definition parse_range :: "string \<Rightarrow> (nat \<times> nat) io_result" where
  "parse_range entry =
     (let (low, high) = (case split_once CHR ''-'' entry of Some p \<Rightarrow> p | None \<Rightarrow> (entry, entry))
      in and_then (ok_or (invalid_data ''bad port'') (parse_u16 low)) (\<lambda>l.
         and_then (ok_or (invalid_data ''bad port'') (parse_u16 high)) (\<lambda>h.
           if l > h then Inl (invalid_data ''exit policy range is inverted'') else Inr (l, h))))"

fun parse_ranges :: "string list \<Rightarrow> (nat \<times> nat) list io_result" where
  "parse_ranges [] = Inr []"
| "parse_ranges (e # es) = and_then (parse_range e) (\<lambda>r. and_then (parse_ranges es) (\<lambda>rs. Inr (r # rs)))"

definition policy_parse :: "string \<Rightarrow> port_policy io_result" where
  "policy_parse args =
     (case split_once CHR '' '' args of
        None \<Rightarrow> Inl (invalid_data ''malformed exit policy summary'')
      | Some (verb, lst) \<Rightarrow>
          if verb \<noteq> ''accept'' \<and> verb \<noteq> ''reject'' then Inl (invalid_data ''unknown exit policy verb'')
          else and_then (parse_ranges (split_char CHR '','' lst)) (\<lambda>rs. Inr \<lparr>is_accept = (verb = ''accept''), ranges = rs\<rparr>))"

definition allows :: "nat \<Rightarrow> port_policy \<Rightarrow> bool" where
  "allows port p \<longleftrightarrow> list_ex (\<lambda>(low, high). low \<le> port \<and> port \<le> high) (ranges p) = is_accept p"

definition policy_is_empty :: "port_policy \<Rightarrow> bool" where
  "policy_is_empty p \<longleftrightarrow> \<not> is_accept p \<and> (1, 65535) \<in> set (ranges p)"

record microdesc =
  md_digest :: bytes
  md_ntor_key :: bytes
  md_ed_identity :: "bytes option"
  exit_policy :: port_policy
  family :: "bytes list"

definition parse_ed_identity :: "string \<Rightarrow> bytes option" where
  "parse_ed_identity args =
     (case split_once CHR '' '' args of
        None \<Rightarrow> None
      | Some (kind, value) \<Rightarrow>
          if kind \<noteq> ''ed25519'' then None else to_option (base64_fixed 32 (trim value)))"

definition family_member :: "string \<Rightarrow> bytes list" where
  "family_member entry =
     (case strip_prefix ''$'' entry of
        None \<Rightarrow> []
      | Some hex \<Rightarrow>
          (case hex_decode (hd (split_on (\<lambda>c. c = CHR ''='' \<or> c = CHR ''~'') hex)) of
             Inr bs \<Rightarrow> if length bs = 20 then [bs] else []
           | Inl _ \<Rightarrow> []))"

definition md_parse :: "'k dir_crypto \<Rightarrow> string \<Rightarrow> microdesc io_result" where
  "md_parse D text =
     (if \<not> starts_with ''onion-key'' text then Inl (invalid_data ''microdescriptor does not start with onion-key'')
      else
        and_then (ok_or (invalid_data ''microdescriptor has no ntor-onion-key'') (item text ''ntor-onion-key'')) (\<lambda>ntor.
        and_then (base64_fixed 32 (trim ntor)) (\<lambda>key.
        and_then (case item text ''p'' of Some args \<Rightarrow> policy_parse args | None \<Rightarrow> Inr reject_all) (\<lambda>policy.
          Inr \<lparr>md_digest = dc_sha256 D (as_bytes text), md_ntor_key = key,
               md_ed_identity = (case item text ''id'' of None \<Rightarrow> None | Some args \<Rightarrow> parse_ed_identity args),
               exit_policy = policy,
               family = (case item text ''family'' of
                           None \<Rightarrow> [] | Some args \<Rightarrow> concat (map family_member (split_whitespace args)))\<rparr>))))"

definition shares_family_with :: "bytes \<Rightarrow> microdesc \<Rightarrow> bool" where
  "shares_family_with ident md \<longleftrightarrow> ident \<in> set (family md)"

text \<open>Where the entries of a response start. The search goes on after the line it found.\<close>

function batch_starts :: "nat \<Rightarrow> string \<Rightarrow> nat list" where
  "batch_starts offset text =
     (case line_start_of (drop offset text) ''onion-key'' of
        None \<Rightarrow> []
      | Some relative \<Rightarrow>
          let absolute = offset + relative;
              next = absolute + (case find_str [newline] (drop absolute text) of
                                   Some i \<Rightarrow> i + 1 | None \<Rightarrow> length text - absolute)
          in if next \<ge> length text then [absolute] else absolute # batch_starts next text)"
  by pat_completeness auto
termination
  by (relation "measure (\<lambda>(offset, text). length text - offset)")
    (auto split: option.splits dest!: line_start_of_bound)

declare batch_starts.simps [simp del]

fun batch_bodies :: "nat list \<Rightarrow> string \<Rightarrow> string list" where
  "batch_bodies [] text = []"
| "batch_bodies [start] text = [drop start text]"
| "batch_bodies (start # stop # ss) text = slice start stop text # batch_bodies (stop # ss) text"

definition parse_batch :: "'k dir_crypto \<Rightarrow> string \<Rightarrow> (string \<times> microdesc) list" where
  "parse_batch D text =
     concat (map (\<lambda>bdy. case md_parse D bdy of Inr md \<Rightarrow> [(bdy, md)] | Inl _ \<Rightarrow> [])
       (batch_bodies (batch_starts 0 text) text))"

end
