(* ===== verification/Random_Draws.thy ===== *)
theory Random_Draws
  imports Tor_Prelude "HOL-Library.Multiset"
begin

text \<open>
  Random draws, \<^verbatim>\<open>src/ffi/rand.rs\<close>. \<^verbatim>\<open>RAND_bytes\<close> is OpenSSL's: what its successive calls for eight
  bytes answer, as big-endian integers or errors, is the argument \<open>draws\<close>, and every operation
  returns what is left of it. Rejection sampling may ask any number of times, so an operation whose
  draws run out before it is done is \<open>None\<close>: it is still waiting.
\<close>

type_synonym draws = "nat io_result list"
type_synonym 'a drawing = "draws \<Rightarrow> ('a io_result \<times> draws) option"

definition below_limit :: "nat \<Rightarrow> nat" where
  "below_limit n = u64_max - u64_max mod n"

text \<open>The assertion on \<open>n\<close> stops the thread: there is no value to go on with.\<close>

fun below_loop :: "nat \<Rightarrow> nat drawing" where
  "below_loop n [] = None"
| "below_loop n (Inl e # ds) = Some (Inl e, ds)"
| "below_loop n (Inr v # ds) = (if v < below_limit n then Some (Inr (v mod n), ds) else below_loop n ds)"

definition below :: "nat \<Rightarrow> nat drawing" where
  "below n ds = (if n = 0 then None else below_loop n ds)"

definition swap :: "nat \<Rightarrow> nat \<Rightarrow> 'a list \<Rightarrow> 'a list" where
  "swap i j xs = xs[i := xs ! j, j := xs ! i]"

text \<open>The loop runs \<open>i\<close> down to one: \<open>shuffle_loop i\<close> is what is left to do from there.\<close>

fun shuffle_loop :: "nat \<Rightarrow> 'a list \<Rightarrow> 'a list drawing" where
  "shuffle_loop 0 xs ds = Some (Inr xs, ds)"
| "shuffle_loop (Suc i) xs ds =
     (case below (Suc (Suc i)) ds of
        None \<Rightarrow> None
      | Some (Inl e, ds') \<Rightarrow> Some (Inl e, ds')
      | Some (Inr j, ds') \<Rightarrow> shuffle_loop i (swap (Suc i) j xs) ds')"

definition shuffle :: "'a list \<Rightarrow> 'a list drawing" where
  "shuffle xs = shuffle_loop (length xs - 1) xs"

section \<open>Uniform values\<close>

lemma below_limit_eq: "below_limit n = u64_max div n * n"
  unfolding below_limit_def by (metis minus_mod_eq_div_mult)

lemma below_limit_le: "below_limit n \<le> u64_max"
  by (simp add: below_limit_def)

lemma below_one: "0 < n \<Longrightarrow> below n [Inr v] = (if v < below_limit n then Some (Inr (v mod n), []) else None)"
  by (simp add: below_def)

lemma below_loop_less: "below_loop n ds = Some (Inr k, ds') \<Longrightarrow> 0 < n \<Longrightarrow> k < n"
  by (induction n ds rule: below_loop.induct) (auto split: if_splits)

lemma below_less: "below n ds = Some (Inr k, ds') \<Longrightarrow> k < n"
  by (auto simp: below_def below_loop_less split: if_splits)

lemma residues_atMost:
  fixes q n :: nat
  assumes "S \<subseteq> {..<n}"
  shows "card {v. v < q * n \<and> v mod n \<in> S} = q * card S"
proof -
  have "{v. v < q * n \<and> v mod n \<in> S} = (\<lambda>(a, s). a * n + s) ` ({..<q} \<times> S)"
  proof (intro equalityI subsetI)
    fix v assume v: "v \<in> {v. v < q * n \<and> v mod n \<in> S}"
    then have "v div n < q"
      by (simp add: less_mult_imp_div_less)
    moreover have "v = v div n * n + v mod n"
      by simp
    ultimately show "v \<in> (\<lambda>(a, s). a * n + s) ` ({..<q} \<times> S)"
      using v by (intro image_eqI [of _ _ "(v div n, v mod n)"]) auto
  next
    fix v assume "v \<in> (\<lambda>(a, s). a * n + s) ` ({..<q} \<times> S)"
    then obtain a s where v: "v = a * n + s" "a < q" "s \<in> S" by auto
    then have "s < n" using assms by auto
    have "Suc a * n \<le> q * n" using v(2) by (intro mult_right_mono) auto
    then have "v < q * n" using v(1) \<open>s < n\<close> by simp
    moreover have "v mod n = s" using v(1) \<open>s < n\<close> by simp
    ultimately show "v \<in> {v. v < q * n \<and> v mod n \<in> S}" using v(3) by simp
  qed
  moreover have "inj_on (\<lambda>(a, s). a * n + s) ({..<q} \<times> S)"
  proof (rule inj_onI, clarify)
    fix a s a' s' assume "a * n + s = a' * n + s'" "s \<in> S" "s' \<in> S"
    moreover from this have "s < n" "s' < n" using assms by auto
    ultimately have "(a * n + s) div n = (a' * n + s') div n" "(a * n + s) mod n = (a' * n + s') mod n"
      by simp_all
    then show "a = a' \<and> s = s'" using \<open>s < n\<close> \<open>s' < n\<close> by simp
  qed
  ultimately show ?thesis
    by (simp add: card_image card_cartesian_product)
qed

text \<open>
  How many of the values \<^verbatim>\<open>RAND_bytes\<close> can give make \<open>below n\<close> answer an element of \<open>S\<close> at once: the same
  number for each element.
\<close>

lemma below_uniform:
  assumes "S \<subseteq> {..<n}" and "0 < n"
  shows "card {v. \<exists>k \<in> S. below n [Inr v] = Some (Inr k, [])} = u64_max div n * card S"
proof -
  have "{v. \<exists>k \<in> S. below n [Inr v] = Some (Inr k, [])} = {v. v < u64_max div n * n \<and> v mod n \<in> S}"
    using assms(2) by (auto simp: below_one below_limit_eq)
  then show ?thesis
    by (simp add: residues_atMost [OF assms(1)])
qed

text \<open>Fewer than half of the values are rejected, whatever the bound.\<close>

lemma below_rejects_less_than_half:
  assumes "0 < n" and "n \<le> u64_max"
  shows "u64_max < 2 * below_limit n"
proof -
  have "u64_max mod n < n" "n \<le> below_limit n"
    using assms by (auto simp: below_limit_eq div_greater_zero_iff Suc_leI)
  moreover have "u64_max = below_limit n + u64_max mod n"
    by (simp add: below_limit_def)
  ultimately show ?thesis by linarith
qed

section \<open>Permutations\<close>

lemma length_swap [simp]: "length (swap i j xs) = length xs"
  by (simp add: swap_def)

lemma mset_swapped [simp]: "i < length xs \<Longrightarrow> j < length xs \<Longrightarrow> mset (swap i j xs) = mset xs"
  by (simp add: swap_def mset_swap)

text \<open>The order that the answers \<open>js\<close> of \<open>below\<close> lead to, from position \<open>length js\<close> downwards.\<close>

fun swaps :: "nat list \<Rightarrow> 'a list \<Rightarrow> 'a list" where
  "swaps [] xs = xs"
| "swaps (j # js) xs = swaps js (swap (Suc (length js)) j xs)"

fun picks :: "nat list \<Rightarrow> bool" where
  "picks [] \<longleftrightarrow> True"
| "picks (j # js) \<longleftrightarrow> j \<le> Suc (length js) \<and> picks js"

lemma shuffle_loop_swaps:
  "shuffle_loop i xs ds = Some (Inr ys, ds') \<Longrightarrow> \<exists>js. length js = i \<and> picks js \<and> ys = swaps js xs"
proof (induction i arbitrary: xs ds)
  case (Suc i)
  then obtain j ds1 where j: "below (Suc (Suc i)) ds = Some (Inr j, ds1)"
    and "shuffle_loop i (swap (Suc i) j xs) ds1 = Some (Inr ys, ds')"
    by (auto split: option.splits sum.splits)
  then obtain js where "length js = i" "picks js" "ys = swaps js (swap (Suc i) j xs)"
    using Suc.IH by blast
  moreover have "j \<le> Suc i" using below_less [OF j] by simp
  ultimately show ?case by (intro exI [of _ "j # js"]) simp
qed simp

lemma length_swaps [simp]: "length (swaps js xs) = length xs"
  by (induction js arbitrary: xs) simp_all

lemma swaps_keep: "length js < k \<Longrightarrow> picks js \<Longrightarrow> swaps js xs ! k = xs ! k"
  by (induction js arbitrary: xs) (auto simp: swap_def)

lemma mset_swaps: "picks js \<Longrightarrow> length js < length xs \<Longrightarrow> mset (swaps js xs) = mset xs"
  by (induction js arbitrary: xs) auto

lemma swap_take: "i < n \<Longrightarrow> j < n \<Longrightarrow> n \<le> length xs \<Longrightarrow> take n (swap i j xs) = swap i j (take n xs)"
  by (simp add: swap_def take_update_swap)

lemma swaps_take:
  "picks js \<Longrightarrow> length js < n \<Longrightarrow> n \<le> length xs \<Longrightarrow> take n (swaps js xs) = swaps js (take n xs)"
  by (induction js arbitrary: xs) (simp_all add: swap_take)

lemma swaps_last_iff:
  assumes "length xs = Suc (Suc k)" and "length ys = length xs" and "length js = k" and "picks js"
  shows "swaps js xs = ys \<longleftrightarrow> xs ! Suc k = ys ! Suc k \<and> swaps js (take (Suc k) xs) = take (Suc k) ys"
proof -
  have "zs = take (Suc k) zs @ [zs ! Suc k]" if "length zs = Suc (Suc k)" for zs :: "'a list"
    using that by (metis lessI take_Suc_conv_app_nth take_all_iff order_refl)
  then have "swaps js xs = ys \<longleftrightarrow> take (Suc k) (swaps js xs) = take (Suc k) ys \<and> swaps js xs ! Suc k = ys ! Suc k"
    using assms(1,2) by (metis length_swaps)
  then show ?thesis
    using assms by (auto simp: swaps_take swaps_keep)
qed

lemma swaps_unique:
  assumes "distinct xs" and "mset ys = mset xs" and "length xs = Suc k"
  shows "\<exists>!js. length js = k \<and> picks js \<and> swaps js xs = ys"
  using assms
proof (induction k arbitrary: xs ys)
  case 0
  then have "ys = xs"
    by (cases xs; cases ys) auto
  then show ?case by auto
next
  case (Suc k)
  have len: "length ys = Suc (Suc k)"
    using Suc.prems by (metis size_mset)
  have "ys ! Suc k \<in> set xs"
    using len Suc.prems(2) by (metis nth_mem lessI mset_eq_setD)
  then obtain j where j: "j < Suc (Suc k)" "xs ! j = ys ! Suc k"
    using Suc.prems(3) by (metis in_set_conv_nth)
  let ?xs = "swap (Suc k) j xs"
  have last: "swap (Suc k) i xs ! Suc k = xs ! i" if "i \<le> Suc k" for i
    using that Suc.prems(3) by (cases "i = Suc k") (simp_all add: swap_def)
  have ms: "mset ?xs = mset ys"
    using j Suc.prems by simp
  have split: "mset zs = mset (take (Suc k) zs) + {#zs ! Suc k#}" if "length zs = Suc (Suc k)" for zs :: "'a list"
    using that by (metis lessI mset_append mset_single_iff take_Suc_conv_app_nth take_all_iff order_refl mset.simps)
  have rest: "mset (take (Suc k) ys) = mset (take (Suc k) ?xs)"
    using ms split [of ?xs] split [of ys] last [of j] j len Suc.prems(3) by simp
  have "distinct ?xs"
    using Suc.prems(1) ms Suc.prems(2) by (metis mset_eq_imp_distinct_iff)
  then obtain js where js: "length js = k" "picks js" "swaps js (take (Suc k) ?xs) = take (Suc k) ys"
    and uniq: "\<And>js'. length js' = k \<and> picks js' \<and> swaps js' (take (Suc k) ?xs) = take (Suc k) ys \<Longrightarrow> js' = js"
    using Suc.IH [of "take (Suc k) ?xs" "take (Suc k) ys"] rest Suc.prems(3) by auto
  show ?case
  proof (rule ex1I [of _ "j # js"])
    show "length (j # js) = Suc k \<and> picks (j # js) \<and> swaps (j # js) xs = ys"
      using js j len Suc.prems(3) last [of j] by (simp add: swaps_last_iff)
  next
    fix ls assume ls: "length ls = Suc k \<and> picks ls \<and> swaps ls xs = ys"
    then obtain i ks where i: "ls = i # ks" "length ks = k" "i \<le> Suc k" "picks ks"
      "swaps ks (swap (Suc k) i xs) = ys"
      by (cases ls) auto
    then have "xs ! i = ys ! Suc k" "swaps ks (take (Suc k) (swap (Suc k) i xs)) = take (Suc k) ys"
      using Suc.prems(3) len last [of i] swaps_last_iff [of "swap (Suc k) i xs" k ys ks] by auto
    moreover from this have "i = j"
      using Suc.prems(1,3) i(3) j by (metis less_Suc_eq_le nth_eq_iff_index_eq)
    ultimately show "ls = j # js"
      using uniq i by blast
  qed
qed

lemma below_self: "j < n \<Longrightarrow> n \<le> u64_max \<Longrightarrow> below n (Inr j # ds) = Some (Inr j, ds)"
proof -
  assume j: "j < n" and n: "n \<le> u64_max"
  then have "1 * n \<le> below_limit n"
    unfolding below_limit_eq by (intro mult_right_mono) (simp_all add: Suc_leI div_greater_zero_iff)
  then show ?thesis using j by (simp add: below_def)
qed

lemma shuffle_loop_picks:
  "picks js \<Longrightarrow> length js < u64_max \<Longrightarrow> shuffle_loop (length js) xs (map Inr js) = Some (Inr (swaps js xs), [])"
  by (induction js arbitrary: xs) (simp_all add: below_self)

section \<open>Properties\<close>

text \<open>
  A shuffle that ends keeps every element, and it is fair: for every order of the list there is
  exactly one sequence of answers \<open>below\<close> may give, each within its bound, that leads to that order.
\<close>

theorem shuffle_fair:
  assumes "distinct xs" and "xs \<noteq> []" and "length xs \<le> u64_max"
  shows "(\<forall>ds ys rest. shuffle xs ds = Some (Inr ys, rest) \<longrightarrow> mset ys = mset xs) \<and>
     (\<forall>ys. mset ys = mset xs \<longrightarrow>
        (\<exists>!js. length js = length xs - 1 \<and> picks js \<and> shuffle xs (map Inr js) = Some (Inr ys, [])))"
proof (intro conjI allI impI)
  obtain k where k: "length xs = Suc k" using assms(2) by (cases xs) auto
  fix ds ys rest assume "shuffle xs ds = Some (Inr ys, rest)"
  then obtain js where "length js = k" "picks js" "ys = swaps js xs"
    unfolding shuffle_def k using shuffle_loop_swaps by fastforce
  then show "mset ys = mset xs" by (simp add: mset_swaps k)
next
  obtain k where k: "length xs = Suc k" using assms(2) by (cases xs) auto
  fix ys assume "mset ys = mset xs"
  then have "\<exists>!js. length js = k \<and> picks js \<and> swaps js xs = ys"
    using assms(1) k by (intro swaps_unique)
  moreover have "shuffle xs (map Inr js) = Some (Inr ys, []) \<longleftrightarrow> swaps js xs = ys" if "length js = k" "picks js" for js
    using shuffle_loop_picks [of js xs] that k assms(3) by (simp add: shuffle_def)
  ultimately show "\<exists>!js. length js = length xs - 1 \<and> picks js \<and> shuffle xs (map Inr js) = Some (Inr ys, [])"
    by (simp add: k cong: conj_cong)
qed

end
