(* ===== verification/Directory_Manager.thy ===== *)
theory Directory_Manager
  imports Directory_Fetch Fallback_Dirs Consensus_Diff Microdesc_Doc Random_Draws "HOL-Library.AList"
begin

text \<open>
  The client's view of the network, \<^verbatim>\<open>src/tor/dir/mod.rs\<close>, and its files on disk, \<^verbatim>\<open>src/tor/dir/cache.rs\<close>.

  The disk is a list of files below the cache directory, with what goes wrong on it: a write that breaks
  off after some bytes, a file that cannot be opened, replaced or removed, a directory that cannot be
  made or read. A directory server is what it answers for a path and the headers sent with it; the
  second download of a start may be answered otherwise than the first. The log lines are left out.
\<close>

section \<open>The cache\<close>

datatype write_fault = Fine | Not_Opened | Torn nat

record disk =
  files :: "(string \<times> bytes) list"
  no_dir :: "io_error option"
  unreadable :: "io_error option"
  write_fault :: "string \<Rightarrow> write_fault"
  stuck :: "string \<Rightarrow> bool"

definition disk_error :: io_error where "disk_error = IoError Other ''disk error''"

definition fs_read :: "string \<Rightarrow> disk \<Rightarrow> bytes option" where
  "fs_read name d = map_of (files d) name"

definition fs_write :: "string \<Rightarrow> bytes \<Rightarrow> disk \<Rightarrow> unit io_result \<times> disk" where
  "fs_write name bs d =
     (case write_fault d name of
        Fine \<Rightarrow> (Inr (), d\<lparr>files := AList.update name bs (files d)\<rparr>)
      | Not_Opened \<Rightarrow> (Inl disk_error, d)
      | Torn k \<Rightarrow> (Inl disk_error, d\<lparr>files := AList.update name (take k bs) (files d)\<rparr>))"

definition fs_rename :: "string \<Rightarrow> string \<Rightarrow> disk \<Rightarrow> unit io_result \<times> disk" where
  "fs_rename old_name name d =
     (case map_of (files d) old_name of
        None \<Rightarrow> (Inl (IoError NotFound ''no such file''), d)
      | Some bs \<Rightarrow>
          if stuck d name then (Inl disk_error, d)
          else (Inr (), d\<lparr>files := AList.update name bs (AList.delete old_name (files d))\<rparr>))"

definition ensure_dir :: "disk \<Rightarrow> unit io_result" where
  "ensure_dir d = (case no_dir d of Some e \<Rightarrow> Inl e | None \<Rightarrow> Inr ())"

text \<open>\<^verbatim>\<open>with_extension("tmp")\<close> of a name without a dot.\<close>

definition cache_store :: "string \<Rightarrow> bytes \<Rightarrow> disk \<Rightarrow> unit io_result \<times> disk" where
  "cache_store name bs d =
     (case ensure_dir d of
        Inl e \<Rightarrow> (Inl e, d)
      | Inr _ \<Rightarrow>
          (case fs_write (name @ ''.tmp'') bs d of
             (Inl e, d) \<Rightarrow> (Inl e, d)
           | (Inr _, d) \<Rightarrow> fs_rename (name @ ''.tmp'') name d))"

definition microdesc_dir :: string where "microdesc_dir = ''microdescs/''"

definition microdesc_path :: "bytes \<Rightarrow> string" where
  "microdesc_path digest = microdesc_dir @ hex_encode digest"

definition load_microdesc :: "bytes \<Rightarrow> disk \<Rightarrow> bytes option" where
  "load_microdesc digest d = fs_read (microdesc_path digest) d"

definition store_microdesc :: "bytes \<Rightarrow> bytes \<Rightarrow> disk \<Rightarrow> unit io_result \<times> disk" where
  "store_microdesc digest bs d =
     (case ensure_dir d of Inl e \<Rightarrow> (Inl e, d) | Inr _ \<Rightarrow> fs_write (microdesc_path digest) bs d)"

record prune_report =
  pr_kept :: nat
  pr_removed :: nat

definition wanted_name :: "bytes set \<Rightarrow> string \<Rightarrow> bool" where
  "wanted_name keep name =
     (case hex_decode name of Inl _ \<Rightarrow> False | Inr bs \<Rightarrow> length bs = 32 \<and> bs \<in> keep)"

fun prune_loop :: "bytes set \<Rightarrow> string list \<Rightarrow> prune_report \<Rightarrow> disk \<Rightarrow> prune_report \<times> disk" where
  "prune_loop keep [] r d = (r, d)"
| "prune_loop keep (name # names) r d =
     (if wanted_name keep name then prune_loop keep names (r\<lparr>pr_kept := pr_kept r + 1\<rparr>) d
      else if stuck d (microdesc_dir @ name) then prune_loop keep names r d
      else prune_loop keep names (r\<lparr>pr_removed := pr_removed r + 1\<rparr>)
             (d\<lparr>files := AList.delete (microdesc_dir @ name) (files d)\<rparr>))"

definition microdesc_names :: "disk \<Rightarrow> string list" where
  "microdesc_names d = List.map_filter (strip_prefix microdesc_dir) (map fst (files d))"

definition prune_microdescs :: "bytes set \<Rightarrow> disk \<Rightarrow> prune_report io_result \<times> disk" where
  "prune_microdescs keep d =
     (case unreadable d of
        Some e \<Rightarrow> (if error_kind e = NotFound then Inr \<lparr>pr_kept = 0, pr_removed = 0\<rparr> else Inl e, d)
      | None \<Rightarrow> (case prune_loop keep (microdesc_names d) \<lparr>pr_kept = 0, pr_removed = 0\<rparr> d of (r, d) \<Rightarrow> (Inr r, d)))"

section \<open>Finding a directory server\<close>

text \<open>
  A directory circuit keeps the channel it runs on. Opening a channel and creating a one-hop circuit on
  it answer by the number of the attempt; the channels that were closed on the way are listed.
\<close>

record ('ch, 'c) dir_circuit =
  dc_channel :: 'ch
  dc_circuit :: 'c
  owns_channel :: bool

type_synonym ('ch, 'c) link = "(nat \<Rightarrow> bytes \<times> nat \<Rightarrow> 'ch io_result) \<times> ('ch \<Rightarrow> 'c io_result)"

definition dir_circuit_to ::
    "('ch, 'c) link \<Rightarrow> nat \<Rightarrow> bytes \<times> nat \<Rightarrow> ('ch, 'c) dir_circuit io_result \<times> 'ch list" where
  "dir_circuit_to link n addr =
     (case fst link n addr of
        Inl e \<Rightarrow> (Inl e, [])
      | Inr ch \<Rightarrow>
          (case snd link ch of
             Inl e \<Rightarrow> (Inl e, [ch])
           | Inr c \<Rightarrow> (Inr \<lparr>dc_channel = ch, dc_circuit = c, owns_channel = True\<rparr>, [])))"

definition dir_circuit_on :: "('ch \<Rightarrow> 'c io_result) \<Rightarrow> 'ch \<Rightarrow> ('ch, 'c) dir_circuit io_result" where
  "dir_circuit_on create_fast ch =
     and_then (create_fast ch) (\<lambda>c. Inr \<lparr>dc_channel = ch, dc_circuit = c, owns_channel = False\<rparr>)"

definition dir_circuit_close :: "('ch, 'c) dir_circuit \<Rightarrow> 'c list \<times> 'ch list" where
  "dir_circuit_close dc = ([dc_circuit dc], if owns_channel dc then [dc_channel dc] else [])"

type_synonym ('ch, 'c) fallback_state = "(('ch, 'c) dir_circuit io_result option \<times> io_error option \<times> 'ch list)"

fun fallback_loop ::
    "('ch, 'c) link \<Rightarrow> nat \<Rightarrow> nat \<Rightarrow> io_error option \<Rightarrow> 'ch list \<Rightarrow> draws \<Rightarrow> ('ch, 'c) fallback_state option" where
  "fallback_loop link n 0 prev closed ds = Some (None, prev, closed)"
| "fallback_loop link n (Suc k) prev closed ds =
     (case below (length FALLBACK_DIRS) ds of
        None \<Rightarrow> None
      | Some (Inl e, _) \<Rightarrow> Some (Some (Inl e), prev, closed)
      | Some (Inr i, ds) \<Rightarrow>
          (case dir_circuit_to link n (fd_ipv4 (FALLBACK_DIRS ! i), fd_or_port (FALLBACK_DIRS ! i)) of
             (Inr dc, shut) \<Rightarrow> Some (Some (Inr dc), prev, closed @ shut)
           | (Inl e, shut) \<Rightarrow> fallback_loop link (n + 1) k (Some e) (closed @ shut) ds))"

fun authority_loop ::
    "('ch, 'c) link \<Rightarrow> nat \<Rightarrow> io_error option \<Rightarrow> 'ch list \<Rightarrow> authority list \<Rightarrow> ('ch, 'c) dir_circuit io_result \<times> 'ch list" where
  "authority_loop link n prev closed [] =
     (Inl (case prev of Some e \<Rightarrow> e | None \<Rightarrow> IoError Other ''no directory server answered''), closed)"
| "authority_loop link n prev closed (a # as) =
     (case dir_circuit_to link n (auth_ipv4 a, auth_or_port a) of
        (Inr dc, shut) \<Rightarrow> (Inr dc, closed @ shut)
      | (Inl e, shut) \<Rightarrow> authority_loop link (n + 1) (Some e) (closed @ shut) as)"

definition to_random_fallback ::
    "('ch, 'c) link \<Rightarrow> draws \<Rightarrow> (('ch, 'c) dir_circuit io_result \<times> 'ch list) option" where
  "to_random_fallback link ds =
     (case fallback_loop link 0 10 None [] ds of
        None \<Rightarrow> None
      | Some (Some r, _, closed) \<Rightarrow> Some (r, closed)
      | Some (None, prev, closed) \<Rightarrow> Some (authority_loop link 10 prev closed AUTHORITIES))"

section \<open>The directory\<close>

definition CONSENSUS_PATH :: string where "CONSENSUS_PATH = ''/tor/status-vote/current/consensus-microdesc''"
definition CONSENSUS_FILE :: string where "CONSENSUS_FILE = ''consensus''"
definition CERTS_FILE :: string where "CERTS_FILE = ''certs''"
definition MICRODESCS_PER_REQUEST :: nat where "MICRODESCS_PER_REQUEST = 92"

type_synonym server = "string \<Rightarrow> (string \<times> string) list \<Rightarrow> bytes io_result"

record 'k directory =
  dir_consensus :: consensus
  dir_certs :: "'k key_certificate list"

definition from_cache :: "'k dir_crypto \<Rightarrow> disk \<Rightarrow> nat \<Rightarrow> 'k directory option" where
  "from_cache D d now =
     (case (fs_read CERTS_FILE d, fs_read CONSENSUS_FILE d) of
        (Some certs_raw, Some consensus_raw) \<Rightarrow>
          let certs = parse_key_certificates D (from_utf8_lossy certs_raw) now
          in (case parse_and_verify D (from_utf8_lossy consensus_raw) certs now of
                Inl _ \<Rightarrow> None
              | Inr c \<Rightarrow> if is_live now c then Some \<lparr>dir_consensus = c, dir_certs = certs\<rparr> else None)
      | _ \<Rightarrow> None)"

definition download_full :: "server \<Rightarrow> string io_result" where
  "download_full serve = and_then (serve CONSENSUS_PATH []) (string_from_utf8 ''consensus is not valid UTF-8'')"

definition download_diffed :: "(bytes \<Rightarrow> bytes) \<Rightarrow> server \<Rightarrow> string \<Rightarrow> string io_result" where
  "download_diffed sha3 serve base =
     and_then (serve CONSENSUS_PATH [(''X-Or-Diff-From-Consensus'', signed_part_digest sha3 base)]) (\<lambda>raw.
     and_then (string_from_utf8 ''consensus is not UTF-8'' raw) (\<lambda>text.
       if \<not> starts_with ''network-status-diff-version'' text then Inr text else apply_diff sha3 base text))"

fun join_sep :: "string \<Rightarrow> string list \<Rightarrow> string" where
  "join_sep sep [] = []"
| "join_sep sep [x] = x"
| "join_sep sep (x # xs) = x @ sep @ join_sep sep xs"

definition certificates_path :: "(bytes \<times> bytes) list \<Rightarrow> string" where
  "certificates_path missing =
     ''/tor/keys/fp-sk/'' @ join_sep ''+'' (map (\<lambda>(ident, key). hex_encode ident @ ''-'' @ hex_encode key) missing)"

definition certificates_for ::
    "'k dir_crypto \<Rightarrow> server \<Rightarrow> string \<Rightarrow> nat \<Rightarrow> 'k key_certificate list \<Rightarrow> 'k key_certificate list io_result" where
  "certificates_for D serve text now known =
     (let wanted = required_certificates text;
          missing = filter (\<lambda>(ident, key). \<not> list_ex (cert_matches ident key) known) wanted
      in if wanted = [] then Inl (invalid_data ''consensus carries no signature from a trusted authority'')
         else if missing = [] then Inr (parse_key_certificates D (serialize known) now)
         else and_then (serve (certificates_path missing) []) (\<lambda>fetched.
           Inr (parse_key_certificates D (serialize known @ from_utf8_lossy fetched) now)))"

definition download ::
    "'k dir_crypto \<Rightarrow> (bytes \<Rightarrow> bytes) \<Rightarrow> server \<Rightarrow> nat \<Rightarrow> string option \<Rightarrow> 'k key_certificate list \<Rightarrow> disk \<Rightarrow> 'k directory io_result \<times> disk" where
  "download D sha3 serve now base known d =
     (case (case base of
              None \<Rightarrow> download_full serve
            | Some b \<Rightarrow>
                (case download_diffed sha3 serve b of
                   Inr text \<Rightarrow> Inr text
                 | Inl e \<Rightarrow> if error_kind e = AlreadyExists then Inl e else download_full serve)) of
        Inl e \<Rightarrow> (Inl e, d)
      | Inr text \<Rightarrow>
          (case and_then (certificates_for D serve text now known) (\<lambda>certs.
                and_then (parse_and_verify D text certs now) (\<lambda>c. Inr (certs, c))) of
             Inl e \<Rightarrow> (Inl e, d)
           | Inr (certs, c) \<Rightarrow>
               let d = snd (cache_store CERTS_FILE (as_bytes (serialize certs)) d);
                   d = snd (cache_store CONSENSUS_FILE (as_bytes text) d)
               in (Inr \<lparr>dir_consensus = c, dir_certs = certs\<rparr>, d)))"

definition load_text :: "string \<Rightarrow> disk \<Rightarrow> string option" where
  "load_text name d = (case fs_read name d of None \<Rightarrow> None | Some raw \<Rightarrow> if valid_utf8 raw then Some (to_text raw) else None)"

definition dir_bootstrap ::
    "'k dir_crypto \<Rightarrow> (bytes \<Rightarrow> bytes) \<Rightarrow> (nat \<Rightarrow> server) io_result \<Rightarrow> nat \<Rightarrow> disk \<Rightarrow> 'k directory io_result \<times> disk" where
  "dir_bootstrap D sha3 opened now d =
     (case from_cache D d now of
        Some dir \<Rightarrow> (Inr dir, d)
      | None \<Rightarrow>
          let stale = load_text CONSENSUS_FILE d;
              certs = (case fs_read CERTS_FILE d of None \<Rightarrow> [] | Some raw \<Rightarrow> parse_key_certificates D (from_utf8_lossy raw) now)
          in (case opened of
                Inl e \<Rightarrow> (Inl e, d)
              | Inr serve \<Rightarrow>
                  (case download D sha3 (serve 0) now stale certs d of
                     (Inl e, d) \<Rightarrow>
                       if error_kind e = AlreadyExists then download D sha3 (serve 1) now None certs d else (Inl e, d)
                   | (Inr dir, d) \<Rightarrow> (Inr dir, d))))"

definition dir_refresh ::
    "'k dir_crypto \<Rightarrow> (bytes \<Rightarrow> bytes) \<Rightarrow> server \<Rightarrow> nat \<Rightarrow> 'k directory \<Rightarrow> disk \<Rightarrow> 'k directory io_result \<times> disk" where
  "dir_refresh D sha3 serve now dir d =
     (case download D sha3 serve now (load_text CONSENSUS_FILE d) (dir_certs dir) d of
        (Inl e, d) \<Rightarrow> (Inl e, d)
      | (Inr nxt, d) \<Rightarrow>
          (if valid_after (dir_consensus nxt) \<le> valid_after (dir_consensus dir)
           then Inl (invalid_data (''directory server offered a consensus from '' @ format_datetime (valid_after (dir_consensus nxt)) @
                   '', no newer than the one we hold''))
           else Inr nxt, d))"

definition prune_cache :: "'k directory \<Rightarrow> disk \<Rightarrow> prune_report io_result \<times> disk" where
  "prune_cache dir d = prune_microdescs (set (map microdesc_digest (routers (dir_consensus dir)))) d"

definition dir_summary :: "'k directory \<Rightarrow> string" where
  "dir_summary dir =
     (let c = dir_consensus dir in
      nat_digits (length (routers c)) @ '' relays ('' @ nat_digits (count_with (FLAG_GUARD OR FLAG_RUNNING OR FLAG_VALID) c) @ '' guards, '' @
      nat_digits (count_with (FLAG_EXIT OR FLAG_RUNNING OR FLAG_VALID) c) @ '' exits), '' @ nat_digits (length (dir_certs dir)) @
      '' authority certificates, valid-after '' @ format_datetime (valid_after c) @ '', fresh-until '' @ format_datetime (fresh_until c) @
      '', valid-until '' @ format_datetime (valid_until c))"

section \<open>Microdescriptors\<close>

fun cached_microdescs :: "'k dir_crypto \<Rightarrow> disk \<Rightarrow> bytes list \<Rightarrow> (bytes \<times> microdesc) list \<times> bytes list" where
  "cached_microdescs D d [] = ([], [])"
| "cached_microdescs D d (digest # ds) =
     (case cached_microdescs D d ds of (found, missing) \<Rightarrow>
        (case load_microdesc digest d of
           None \<Rightarrow> (found, digest # missing)
         | Some raw \<Rightarrow>
             (case md_parse D (from_utf8_lossy raw) of
                Inl _ \<Rightarrow> (found, digest # missing)
              | Inr md \<Rightarrow> if md_digest md = digest then ((digest, md) # found, missing) else (found, digest # missing))))"

definition microdesc_url :: "bytes list \<Rightarrow> string" where
  "microdesc_url batch = ''/tor/micro/d/'' @ join_sep ''-'' (map base64_encode_unpadded batch)"

fun take_batch :: "bytes list \<Rightarrow> (string \<times> microdesc) list \<Rightarrow> disk \<Rightarrow> (bytes \<times> microdesc) list \<times> disk" where
  "take_batch batch [] d = ([], d)"
| "take_batch batch ((text, md) # rest) d =
     (if md_digest md \<notin> set batch then take_batch batch rest d
      else case take_batch batch rest (snd (store_microdesc (md_digest md) (as_bytes text) d)) of
        (found, d) \<Rightarrow> ((md_digest md, md) # found, d))"

fun take_batches :: "'k dir_crypto \<Rightarrow> (bytes list \<times> bytes io_result) list \<Rightarrow> disk \<Rightarrow> (bytes \<times> microdesc) list \<times> disk" where
  "take_batches D [] d = ([], d)"
| "take_batches D ((batch, Inl e) # rest) d = take_batches D rest d"
| "take_batches D ((batch, Inr raw) # rest) d =
     (case take_batch batch (parse_batch D (from_utf8_lossy raw)) d of (found, d) \<Rightarrow>
        (case take_batches D rest d of (found', d) \<Rightarrow> (found @ found', d)))"

definition stream_microdescs :: "'k dir_crypto \<Rightarrow> server \<Rightarrow> bytes list \<Rightarrow> disk \<Rightarrow> (bytes \<times> microdesc) list \<times> disk" where
  "stream_microdescs D serve digests d =
     (case cached_microdescs D d digests of (found, missing) \<Rightarrow>
        let batches = chunks_of MICRODESCS_PER_REQUEST missing
        in (case take_batches D (zip batches (get_parallel (\<lambda>path. serve path []) (map microdesc_url batches))) d of
              (fetched, d) \<Rightarrow> (found @ fetched, d)))"

definition microdescs :: "'k dir_crypto \<Rightarrow> server \<Rightarrow> bytes list \<Rightarrow> disk \<Rightarrow> (bytes \<times> microdesc) list \<times> disk" where
  "microdescs D serve digests d =
     (case stream_microdescs D serve digests d of (each, d) \<Rightarrow> (fold (\<lambda>(k, md). AList.update k md) each [], d))"

definition microdesc_ed_ids :: "'k dir_crypto \<Rightarrow> server \<Rightarrow> bytes list \<Rightarrow> disk \<Rightarrow> (bytes \<times> bytes) list \<times> disk" where
  "microdesc_ed_ids D serve digests d =
     (case stream_microdescs D serve digests d of
        (each, d) \<Rightarrow> (fold (\<lambda>(k, md) found. case md_ed_identity md of Some ed \<Rightarrow> AList.update k ed found | None \<Rightarrow> found) each [], d))"

section \<open>Certificates read back\<close>

abbreviation version_keyword :: string where "version_keyword \<equiv> ''dir-key-certificate-version''"

text \<open>A certificate that is what its own text says, of a trusted authority, and ends where the text does.\<close>

definition genuine :: "'k dir_crypto \<Rightarrow> nat \<Rightarrow> 'k key_certificate \<Rightarrow> bool" where
  "genuine D now c \<longleftrightarrow>
     cert_parse D (cert_text c) now = Inr c \<and> is_authority (v3ident c) \<and> starts_with version_keyword (cert_text c) \<and>
     (\<exists>i. find_str end_signature (cert_text c) = Some i \<and> i + length end_signature = length (cert_text c))"

fun first_of_each :: "(bytes \<times> bytes) list \<Rightarrow> 'k key_certificate list \<Rightarrow> 'k key_certificate list" where
  "first_of_each seen [] = []"
| "first_of_each seen (c # cs) =
     (let key = (v3ident c, signing_key_digest c)
      in if key \<in> set seen then first_of_each seen cs else c # first_of_each (seen @ [key]) cs)"

lemma find_str_append: "find_str p s = Some i \<Longrightarrow> find_str p (s @ t) = Some i"
proof (induction s arbitrary: i)
  case Nil
  then have "p = [] \<and> i = 0" by (auto split: if_splits)
  then show ?case by (cases t) auto
next
  case (Cons c s)
  show ?case
  proof (cases "starts_with p (c # s)")
    case True
    then have "length p \<le> length (c # s)" by (metis length_take min.cobounded1)
    then have "take (length p) ((c # s) @ t) = p" using True unfolding take_append by simp
    then show ?thesis using True Cons.prems by (simp del: take_Cons')
  next
    case False
    then obtain j where j: "find_str p s = Some j" "i = Suc j" using Cons.prems by (auto simp del: take_Cons')
    have "\<not> starts_with p ((c # s) @ t)"
    proof
      assume a: "starts_with p ((c # s) @ t)"
      have "length p \<le> length (c # s)" using find_str_SomeD [OF j(1)] by simp
      then have "take (length p) ((c # s) @ t) = take (length p) (c # s)" unfolding take_append by simp
      with a False show False by metis
    qed
    then show ?thesis using Cons.IH [OF j(1)] j(2) by (simp del: take_Cons')
  qed
qed

lemma find_str_take: "find_str p s = Some i \<Longrightarrow> find_str p (take (i + length p) s) = Some i"
proof (induction s arbitrary: i)
  case Nil
  then show ?case by (auto split: if_splits)
next
  case (Cons c s)
  show ?case
  proof (cases "starts_with p (c # s)")
    case True
    then have "i = 0" using Cons.prems by simp
    moreover have "find_str p (take (length p) (c # s)) = Some 0" unfolding True using find_str_here [of p "[]"] by simp
    ultimately show ?thesis by simp
  next
    case False
    then obtain j where j: "find_str p s = Some j" "i = Suc j" using Cons.prems by (auto simp del: take_Cons')
    have "take (length p) (take (i + length p) (c # s)) = take (length p) (c # s)" by (simp add: min_def)
    then have "\<not> starts_with p (c # take (j + length p) s)" using False j(2) by simp
    then show ?thesis using Cons.IH [OF j(1)] j(2) by (simp del: take_Cons')
  qed
qed

lemma line_start_of_here:
  assumes "line_start_of s keyword = Some i"
  shows "starts_with keyword (drop i s)"
proof (cases "starts_with keyword s")
  case True
  with assms show ?thesis by (simp add: line_start_of_def)
next
  case False
  with assms obtain j where "find_str (newline # keyword) s = Some j" "i = Suc j"
    by (auto simp: line_start_of_def)
  moreover from this have "drop i s = tl (drop j s)" by (simp add: drop_Suc tl_drop)
  ultimately show ?thesis using find_str_SomeD [of "newline # keyword" s j] by (cases "drop j s") simp_all
qed

lemma cert_parse_text: "cert_parse D t now = Inr c \<Longrightarrow> cert_text c = t"
  by (auto simp: cert_parse_def split: if_splits)

lemma no_end_in_keyword: "find_str end_signature (version_keyword @ r) = Some i \<Longrightarrow> length version_keyword \<le> i"
  by auto

lemma starts_with_take: "starts_with k x \<Longrightarrow> length k \<le> n \<Longrightarrow> starts_with k (take n x)"
  by (simp add: min_def)

lemma cut_certificate_genuine:
  assumes start: "line_start_of rest version_keyword = Some start"
    and stop: "find_str end_signature (drop start rest) = Some i"
    and c: "cert_parse D (take (i + length end_signature) (drop start rest)) now = Inr c" "is_authority (v3ident c)"
  shows "genuine D now c"
proof -
  let ?t = "take (i + length end_signature) (drop start rest)"
  have here: "starts_with version_keyword (drop start rest)" using line_start_of_here [OF start] .
  then have "drop start rest = version_keyword @ drop (length version_keyword) (drop start rest)"
    by (metis append_take_drop_id)
  then have "length version_keyword \<le> i" using stop no_end_in_keyword by metis
  then have "starts_with version_keyword ?t" by (intro starts_with_take [OF here] trans_le_add1)
  moreover have "find_str end_signature ?t = Some i" using find_str_take [OF stop] .
  moreover have "i + length end_signature = length ?t" using find_str_SomeD [OF stop] unfolding length_take length_drop by linarith
  ultimately show ?thesis
    unfolding genuine_def cert_parse_text [OF c(1)] using c by blast
qed

lemma parse_key_certificates_genuine: "list_all (genuine D now) (parse_key_certificates D rest now)"
proof (induction D rest "now" rule: parse_key_certificates.induct)
  case (1 D rest "now")
  show ?case
  proof (cases "line_start_of rest version_keyword")
    case (Some start)
    show ?thesis
    proof (cases "find_str end_signature (drop start rest)")
      case stop: (Some i)
      note step = parse_key_certificates.simps [of D rest "now"] Some stop option.case Let_def
      show ?thesis
      proof (cases "cert_parse D (take (i + length end_signature) (drop start rest)) now")
        case (Inl e)
        then show ?thesis using "1.IH"(1) [OF Some stop refl refl Inl] unfolding step by (simp only: sum.case)
      next
        case (Inr c)
        then show ?thesis
          using "1.IH"(2,3) [OF Some stop refl refl Inr] cut_certificate_genuine [OF Some stop Inr]
          unfolding step by (simp only: sum.case list.pred_inject split: if_split) blast
      qed
    qed (subst parse_key_certificates.simps, simp add: Some)
  qed (subst parse_key_certificates.simps, simp)
qed

lemma genuine_text_end: "genuine D now c \<Longrightarrow> trim_end (cert_text c) = cert_text c"
proof -
  assume "genuine D now c"
  then obtain i where i: "find_str end_signature (cert_text c) = Some i" "i + length end_signature = length (cert_text c)"
    unfolding genuine_def by blast
  have "length (drop i (cert_text c)) = length end_signature" unfolding length_drop using i(2) by linarith
  then have "drop i (cert_text c) = end_signature" using find_str_SomeD [OF i(1)] by (metis order_refl take_all)
  then have "cert_text c = take i (cert_text c) @ end_signature" by (metis append_take_drop_id)
  moreover have "trim_end (x @ end_signature) = x @ end_signature" for x
    by (simp add: trim_end_def is_whitespace_def code_def)
  ultimately show ?thesis by metis
qed

lemma read_certificate:
  assumes g: "genuine D now c" and k: "k = 0 \<or> k = 1"
  shows "parse_key_certificates D (replicate k newline @ cert_text c @ r) now = c # parse_key_certificates D r now"
proof -
  let ?s = "replicate k newline @ cert_text c @ r"
  obtain i where here: "starts_with version_keyword (cert_text c)" and i: "find_str end_signature (cert_text c) = Some i"
      "i + length end_signature = length (cert_text c)"
    and c: "cert_parse D (cert_text c) now = Inr c" "is_authority (v3ident c)"
    using g unfolding genuine_def by blast
  obtain u where u: "cert_text c = version_keyword @ u" using here by (metis append_take_drop_id)
  have "line_start_of ?s version_keyword = Some k"
    using k unfolding u by (auto simp: line_start_of_def)
  moreover have "drop k ?s = cert_text c @ r" by simp
  moreover have "find_str end_signature (cert_text c @ r) = Some i" using find_str_append [OF i(1)] .
  ultimately show ?thesis
    using i(2) c by (subst parse_key_certificates.simps) simp
qed

lemma parse_serialize_loop:
  assumes "list_all (genuine D now) cs" and "k = 0 \<or> k = 1"
  shows "parse_key_certificates D (replicate k newline @ serialize_loop seen cs) now = first_of_each seen cs"
  using assms
proof (induction cs arbitrary: seen k)
  case Nil
  then have "line_start_of (replicate k newline) version_keyword = None" by (auto simp: line_start_of_def)
  then show ?case by (subst parse_key_certificates.simps) simp
next
  case (Cons c cs)
  then have g: "genuine D now c" "list_all (genuine D now) cs" by simp_all
  show ?case
  proof (cases "(v3ident c, signing_key_digest c) \<in> set seen")
    case True
    then show ?thesis using Cons.IH [OF g(2) Cons.prems(2)] by simp
  next
    case False
    let ?seen = "seen @ [(v3ident c, signing_key_digest c)]"
    have "serialize_loop seen (c # cs) = cert_text c @ replicate 1 newline @ serialize_loop ?seen cs"
      using False genuine_text_end [OF g(1)] by simp
    then have "parse_key_certificates D (replicate k newline @ serialize_loop seen (c # cs)) now =
        c # parse_key_certificates D (replicate 1 newline @ serialize_loop ?seen cs) now"
      using read_certificate [OF g(1) Cons.prems(2)] by metis
    then show ?thesis using False Cons.IH [OF g(2), of 1 ?seen] by simp
  qed
qed

lemma parse_serialize:
  "list_all (genuine D now) cs \<Longrightarrow> parse_key_certificates D (serialize cs) now = first_of_each [] cs"
  using parse_serialize_loop [of D "now" cs 0 "[]"] by (simp add: serialize_def)

lemma find_first_of_each:
  "(ident, digest) \<notin> set seen \<Longrightarrow>
     List.find (cert_matches ident digest) (first_of_each seen cs) = List.find (cert_matches ident digest) cs"
  by (induction cs arbitrary: seen) (auto simp: cert_matches_def Let_def)

lemma parse_and_verify_first: "parse_and_verify D text (first_of_each [] cs) now = parse_and_verify D text cs now"
proof -
  have "count_signer D msg (first_of_each [] cs) = count_signer D msg cs" for msg
    by (intro ext) (simp add: count_signer_def find_first_of_each cong: option.case_cong)
  then have "consensus_signers D text n (first_of_each [] cs) = consensus_signers D text n cs" for n
    by (simp add: consensus_signers_def)
  then show ?thesis unfolding parse_and_verify_def by presburger
qed

lemma parse_and_verify_later:
  assumes "parse_and_verify D text cs now = Inr c" and "later < valid_until c"
  shows "parse_and_verify D text cs later = Inr c"
  using assms unfolding parse_and_verify_def
  by (auto simp: Let_def and_then_def simp del: and_then_eq_Inr split: list.splits if_splits sum.splits)

lemma cert_parse_Inr:
  assumes "cert_parse D t now = Inr c"
  shows "\<exists>ikey n sg. rsa_fingerprint D ikey = v3ident c \<and> verify_digest D ikey (dc_sha1 D (as_bytes (take n t))) sg"
  using assms unfolding cert_parse_def by (auto split: if_splits) blast

section \<open>The files of a download\<close>

lemma fs_read_update [simp]: "fs_read a (d\<lparr>files := AList.update b v (files d)\<rparr>) = (if a = b then Some v else fs_read a d)"
  by (simp add: fs_read_def update_conv')

lemma fs_read_delete [simp]: "fs_read a (d\<lparr>files := AList.delete b (files d)\<rparr>) = (if a = b then None else fs_read a d)"
  by (simp add: fs_read_def delete_conv')

text \<open>What a store may leave of the file it writes: the old contents or the new, whole.\<close>

definition healthy :: "string \<Rightarrow> disk \<Rightarrow> bool" where
  "healthy name d \<longleftrightarrow> no_dir d = None \<and> write_fault d (name @ ''.tmp'') = Fine \<and> \<not> stuck d name"

lemma cache_store_reads:
  assumes "cache_store name bs d = (r, d')"
  shows "fs_read name d' = (if r = Inr () then Some bs else fs_read name d)"
    and "other \<noteq> name \<Longrightarrow> other \<noteq> name @ ''.tmp'' \<Longrightarrow> fs_read other d' = fs_read other d"
  using assms
  by (auto simp: cache_store_def fs_write_def fs_rename_def fs_read_def update_conv' delete_conv'
      split: sum.splits write_fault.splits option.splits if_splits prod.splits)

lemma cache_store_disk:
  assumes "cache_store name bs d = (r, d')"
  shows "r = Inr () \<longleftrightarrow> healthy name d" and "healthy other d' = healthy other d"
  using assms
  by (auto simp: cache_store_def fs_write_def fs_rename_def healthy_def ensure_dir_def update_conv'
      split: sum.splits write_fault.splits option.splits if_splits prod.splits)

text \<open>
  A directory whose consensus five authorities signed, each with a key that a certificate of the
  directory gives it, and whose certificates are signed by the identity keys of authorities.
\<close>

definition trusted :: "'k dir_crypto \<Rightarrow> nat \<Rightarrow> 'k directory \<Rightarrow> string \<Rightarrow> bool" where
  "trusted D now dir text \<longleftrightarrow>
     parse_and_verify D text (dir_certs dir) now = Inr (dir_consensus dir) \<and>
     (\<exists>n S. signed_length text = Inr n \<and> finite S \<and> 5 \<le> card S \<and>
        S \<subseteq> {ident. is_authority ident \<and> vouched D (as_bytes (take n text)) (dir_certs dir) (signatures True (drop n text)) ident} \<and>
        routers (dir_consensus dir) = parse_routers (take n text)) \<and>
     now < valid_until (dir_consensus dir) \<and>
     (\<forall>c \<in> set (dir_certs dir). is_authority (v3ident c) \<and>
        (\<exists>ikey n sg. rsa_fingerprint D ikey = v3ident c \<and> verify_digest D ikey (dc_sha1 D (as_bytes (take n (cert_text c)))) sg))"

lemma trusted_intro:
  assumes v: "parse_and_verify D text (dir_certs dir) now = Inr (dir_consensus dir)" and g: "list_all (genuine D now) (dir_certs dir)"
  shows "trusted D now dir text"
proof -
  have "is_authority (v3ident c) \<and>
      (\<exists>ikey n sg. rsa_fingerprint D ikey = v3ident c \<and> verify_digest D ikey (dc_sha1 D (as_bytes (take n (cert_text c)))) sg)"
    if "c \<in> set (dir_certs dir)" for c
    using g that cert_parse_Inr unfolding list_all_iff genuine_def by blast
  then show ?thesis using v parse_and_verify_Inr [OF v] unfolding trusted_def by blast
qed

text \<open>
  The two files after a download: each is as it was or holds the whole new document, and no other file
  but their temporary ones has changed.
\<close>

definition kept_whole :: "disk \<Rightarrow> disk \<Rightarrow> 'k directory \<Rightarrow> string \<Rightarrow> bool" where
  "kept_whole d d' dir text \<longleftrightarrow>
     fs_read CONSENSUS_FILE d' \<in> {fs_read CONSENSUS_FILE d, Some (as_bytes text)} \<and>
     fs_read CERTS_FILE d' \<in> {fs_read CERTS_FILE d, Some (as_bytes (serialize (dir_certs dir)))} \<and>
     (\<forall>name. name \<notin> {CONSENSUS_FILE, CERTS_FILE, CONSENSUS_FILE @ ''.tmp'', CERTS_FILE @ ''.tmp''} \<longrightarrow> fs_read name d' = fs_read name d)"

lemma file_names: "CONSENSUS_FILE \<noteq> CERTS_FILE" "CONSENSUS_FILE \<noteq> CERTS_FILE @ ''.tmp''" "CERTS_FILE \<noteq> CONSENSUS_FILE @ ''.tmp''"
  by (simp_all add: CONSENSUS_FILE_def CERTS_FILE_def)

definition store_both :: "string \<Rightarrow> string \<Rightarrow> disk \<Rightarrow> disk" where
  "store_both certs_text text d =
     snd (cache_store CONSENSUS_FILE (as_bytes text) (snd (cache_store CERTS_FILE (as_bytes certs_text) d)))"

lemma store_both_reads:
  "fs_read CERTS_FILE (store_both ct text d) = (if healthy CERTS_FILE d then Some (as_bytes ct) else fs_read CERTS_FILE d)"
  "fs_read CONSENSUS_FILE (store_both ct text d) = (if healthy CONSENSUS_FILE d then Some (as_bytes text) else fs_read CONSENSUS_FILE d)"
  "name \<notin> {CONSENSUS_FILE, CERTS_FILE, CONSENSUS_FILE @ ''.tmp'', CERTS_FILE @ ''.tmp''} \<Longrightarrow> fs_read name (store_both ct text d) = fs_read name d"
proof -
  obtain r e where 1: "cache_store CERTS_FILE (as_bytes ct) d = (r, e)" by force
  obtain q f where 2: "cache_store CONSENSUS_FILE (as_bytes text) e = (q, f)" by force
  have f: "store_both ct text d = f" by (simp add: store_both_def 1 2)
  note facts = cache_store_reads [OF 1] cache_store_reads [OF 2] cache_store_disk [OF 1] cache_store_disk [OF 2] file_names
  show "fs_read CERTS_FILE (store_both ct text d) = (if healthy CERTS_FILE d then Some (as_bytes ct) else fs_read CERTS_FILE d)"
    "fs_read CONSENSUS_FILE (store_both ct text d) = (if healthy CONSENSUS_FILE d then Some (as_bytes text) else fs_read CONSENSUS_FILE d)"
    using facts unfolding f by metis+
  show "fs_read name (store_both ct text d) = fs_read name d"
    if "name \<notin> {CONSENSUS_FILE, CERTS_FILE, CONSENSUS_FILE @ ''.tmp'', CERTS_FILE @ ''.tmp''}"
    using facts(2,4) that unfolding f by simp
qed

lemma kept_whole_both: "kept_whole d (store_both (serialize (dir_certs dir)) text d) dir text"
  by (simp add: kept_whole_def store_both_reads)

lemma certificates_for_genuine:
  "certificates_for D serve text now known = Inr certs \<Longrightarrow> list_all (genuine D now) certs"
  by (auto simp: certificates_for_def Let_def parse_key_certificates_genuine split: if_splits)

lemma download_cases:
  assumes "download D sha3 serve now base known d = (r, d')"
  obtains (failed) e where "r = Inl e" "d' = d"
  | (verified) dir doc where "r = Inr dir" "parse_and_verify D doc (dir_certs dir) now = Inr (dir_consensus dir)"
      "list_all (genuine D now) (dir_certs dir)" "d' = store_both (serialize (dir_certs dir)) doc d"
proof (cases r)
  case (Inl e)
  with assms have "d' = d" by (auto simp: download_def Let_def split: sum.splits prod.splits)
  with Inl failed show thesis by blast
next
  case (Inr dir)
  with assms obtain doc certs c where
    "and_then (certificates_for D serve doc now known) (\<lambda>certs. and_then (parse_and_verify D doc certs now) (\<lambda>c. Inr (certs, c))) = Inr (certs, c)"
    "dir = \<lparr>dir_consensus = c, dir_certs = certs\<rparr>" "d' = store_both (serialize certs) doc d"
    by (auto simp: download_def store_both_def Let_def simp del: and_then_eq_Inr split: sum.splits prod.splits)
  with Inr verified show thesis using certificates_for_genuine by fastforce
qed

lemma from_cache_Some:
  assumes "from_cache D d now = Some dir"
  shows "\<exists>text. parse_and_verify D text (dir_certs dir) now = Inr (dir_consensus dir) \<and> list_all (genuine D now) (dir_certs dir)"
  using assms parse_key_certificates_genuine by (auto simp: from_cache_def Let_def split: option.splits sum.splits if_splits)

section \<open>Properties\<close>

lemma download_trusted:
  "case download D sha3 serve now base known d of
      (Inl e, d') \<Rightarrow> d' = d | (Inr dir, d') \<Rightarrow> \<exists>text. trusted D now dir text \<and> kept_whole d d' dir text"
proof (cases "download D sha3 serve now base known d")
  case (Pair r d')
  from this show ?thesis
  proof (cases rule: download_cases)
    case (verified dir doc)
    then show ?thesis unfolding Pair using trusted_intro kept_whole_both by simp blast
  qed (simp add: Pair)
qed

lemma from_cache_trusted: "from_cache D d now = Some dir \<Longrightarrow> \<exists>text. trusted D now dir text \<and> kept_whole d d dir text"
  using from_cache_Some trusted_intro by (fastforce simp: kept_whole_def)

text \<open>
  C14: the client runs only on a directory that the authorities vouch for. What a start returns, from
  the cache or from a server, and what a refresh returns is a consensus that five of the nine
  authorities signed with keys their certificates give them, not yet expired, with certificates signed
  by the identity keys of the authorities; a refresh returns only a newer one. Whatever the server
  sends and whatever goes wrong on the disk, the two cache files are afterwards as they were or hold
  a whole verified document, and nothing else on the disk has changed; a start that fails changes
  nothing, and so does a refresh, unless the server sent a verified consensus that is no newer.
\<close>

theorem directory_trusted:
  "(case dir_bootstrap D sha3 opened now d of
      (Inl e, d') \<Rightarrow> d' = d
    | (Inr dir, d') \<Rightarrow> \<exists>text. trusted D now dir text \<and> kept_whole d d' dir text) \<and>
   (case dir_refresh D sha3 serve now dir d of
      (Inl e, d') \<Rightarrow> d' = d \<or>
        (\<exists>old text. trusted D now old text \<and> kept_whole d d' old text \<and> valid_after (dir_consensus old) \<le> valid_after (dir_consensus dir))
    | (Inr new, d') \<Rightarrow>
        (\<exists>text. trusted D now new text \<and> kept_whole d d' new text \<and> valid_after (dir_consensus dir) < valid_after (dir_consensus new)))"
proof (intro conjI)
  show "case dir_bootstrap D sha3 opened now d of
      (Inl e, d') \<Rightarrow> d' = d | (Inr dir, d') \<Rightarrow> \<exists>text. trusted D now dir text \<and> kept_whole d d' dir text"
  proof (cases "from_cache D d now")
    case (Some cached)
    then show ?thesis using from_cache_trusted by (auto simp: dir_bootstrap_def)
  next
    case None
    define known where "known = (case fs_read CERTS_FILE d of None \<Rightarrow> [] | Some raw \<Rightarrow> parse_key_certificates D (from_utf8_lossy raw) now)"
    show ?thesis
    proof (cases opened)
      case (Inr serve)
      note one = download_trusted [where D = D and ?sha3.0 = sha3 and serve = "serve 0" and now = "now" and base = "load_text CONSENSUS_FILE d" and known = known and d = d]
      note two = download_trusted [where D = D and ?sha3.0 = sha3 and serve = "serve 1" and now = "now" and base = None and known = known and d = d]
      show ?thesis
        using one two unfolding dir_bootstrap_def None Inr Let_def known_def [symmetric]
        by (auto split: prod.splits sum.splits)
    qed (simp add: dir_bootstrap_def None)
  qed
  show "case dir_refresh D sha3 serve now dir d of
      (Inl e, d') \<Rightarrow> d' = d \<or>
        (\<exists>old text. trusted D now old text \<and> kept_whole d d' old text \<and> valid_after (dir_consensus old) \<le> valid_after (dir_consensus dir))
    | (Inr new, d') \<Rightarrow>
        (\<exists>text. trusted D now new text \<and> kept_whole d d' new text \<and> valid_after (dir_consensus dir) < valid_after (dir_consensus new))"
    using download_trusted [where D = D and ?sha3.0 = sha3 and serve = serve and now = "now" and base = "load_text CONSENSUS_FILE d" and known = "dir_certs dir" and d = d]
    unfolding dir_refresh_def by (auto split: prod.splits sum.splits)
qed

text \<open>
  C15: a client that restarts finds its directory again. After a download on a disk that takes both
  files, every start before the consensus expires, while its certificates are still good, returns the
  same consensus from the cache, with one certificate per signing key, and opens no circuit; that both
  files are UTF-8 is what the type of their texts guarantees.
\<close>

theorem restart_finds_directory:
  assumes down: "download D sha3 serve now base known d = (Inr dir, d')"
    and disk: "healthy CERTS_FILE d" "healthy CONSENSUS_FILE d"
    and utf8: "valid_utf8 (the (fs_read CERTS_FILE d'))" "valid_utf8 (the (fs_read CONSENSUS_FILE d'))"
    and live: "later < valid_until (dir_consensus dir)" "\<forall>c \<in> set (dir_certs dir). cert_parse D (cert_text c) later = Inr c"
  shows "dir_bootstrap D sha3' opened later d' =
     (Inr \<lparr>dir_consensus = dir_consensus dir, dir_certs = first_of_each [] (dir_certs dir)\<rparr>, d')"
  using down
proof (cases rule: download_cases)
  case (verified dir' doc)
  then have dir: "dir' = dir" by simp
  let ?certs = "serialize (dir_certs dir)"
  have files: "fs_read CERTS_FILE d' = Some (as_bytes ?certs)" "fs_read CONSENSUS_FILE d' = Some (as_bytes doc)"
    using disk unfolding verified(4) dir by (simp_all add: store_both_reads)
  have g: "list_all (genuine D later) (dir_certs dir)"
    using verified(3) live(2) unfolding dir genuine_def list_all_iff by blast
  have "valid_utf8 (as_bytes ?certs)" "valid_utf8 (as_bytes doc)" using utf8 unfolding files option.sel .
  note texts = from_utf8_lossy_text [OF this(1)] from_utf8_lossy_text [OF this(2)]
  have "parse_and_verify D doc (dir_certs dir) later = Inr (dir_consensus dir)"
    using parse_and_verify_later [OF verified(2)] live(1) unfolding dir by blast
  then have "from_cache D d' later = Some \<lparr>dir_consensus = dir_consensus dir, dir_certs = first_of_each [] (dir_certs dir)\<rparr>"
    unfolding from_cache_def files prod.case option.case texts parse_serialize [OF g] Let_def parse_and_verify_first
    by (simp add: live(1) is_live_def)
  then show ?thesis unfolding dir_bootstrap_def by simp
qed simp

section \<open>Where the comments promise more\<close>

text \<open>
  The comment on \<^verbatim>\<open>download\<close> has the whole document fetched when the result of a diff fails verification;
  only a diff that cannot be fetched or applied leads there.
\<close>

lemma unverified_diff_is_final:
  assumes "download_diffed sha3 serve b = Inr text" and "certificates_for D serve text now known = Inr certs"
    and "parse_and_verify D text certs now = Inl e"
  shows "download D sha3 serve now (Some b) known d = (Inl e, d)"
  using assms by (simp add: download_def)

text \<open>A refresh that refuses an older consensus has already put it in the cache, where the next start takes it.\<close>

lemma refused_refresh_replaces_cache:
  assumes "download D sha3 serve now (load_text CONSENSUS_FILE d) (dir_certs dir) d = (Inr old, d')"
    and "valid_after (dir_consensus old) \<le> valid_after (dir_consensus dir)" and "healthy CONSENSUS_FILE d"
  shows "\<exists>e text. dir_refresh D sha3 serve now dir d = (Inl e, d') \<and> fs_read CONSENSUS_FILE d' = Some (as_bytes text) \<and>
     parse_and_verify D text (dir_certs old) now = Inr (dir_consensus old)"
  using assms(1)
proof (cases rule: download_cases)
  case (verified old' doc)
  then have "fs_read CONSENSUS_FILE d' = Some (as_bytes doc)" "old' = old" using assms(3) by (simp_all add: store_both_reads)
  moreover have "\<exists>e. dir_refresh D sha3 serve now dir d = (Inl e, d')" using assms(1,2) by (simp add: dir_refresh_def)
  ultimately show ?thesis using verified(2) by blast
qed simp

section \<open>Microdescriptors asked for and given\<close>

definition on_disk :: "'k dir_crypto \<Rightarrow> disk \<Rightarrow> bytes \<Rightarrow> bool" where
  "on_disk D d digest \<longleftrightarrow>
     (case load_microdesc digest d of
        None \<Rightarrow> False
      | Some raw \<Rightarrow> (case md_parse D (from_utf8_lossy raw) of Inl _ \<Rightarrow> False | Inr md \<Rightarrow> md_digest md = digest))"

text \<open>The digests that are asked for together, and those of them the server answers with.\<close>

definition asked_for :: "'k dir_crypto \<Rightarrow> disk \<Rightarrow> bytes list \<Rightarrow> bytes list list" where
  "asked_for D d digests = chunks_of MICRODESCS_PER_REQUEST (filter (\<lambda>k. \<not> on_disk D d k) digests)"

definition offered :: "'k dir_crypto \<Rightarrow> server \<Rightarrow> bytes list \<Rightarrow> bytes set" where
  "offered D serve batch =
     (case serve (microdesc_url batch) [] of
        Inl _ \<Rightarrow> {}
      | Inr raw \<Rightarrow> md_digest ` snd ` set (parse_batch D (from_utf8_lossy raw)) \<inter> set batch)"

definition genuine_microdescs :: "'k dir_crypto \<Rightarrow> bytes set \<Rightarrow> (bytes \<times> microdesc) set" where
  "genuine_microdescs D ks =
     {(k, md). k \<in> ks \<and> (\<exists>text. md_parse D text = Inr md \<and> k = dc_sha256 D (as_bytes text))}"

lemma md_parse_digest: "md_parse D text = Inr md \<Longrightarrow> md_digest md = dc_sha256 D (as_bytes text)"
  by (auto simp: md_parse_def split: if_splits)

lemma parse_batch_parsed: "(bdy, md) \<in> set (parse_batch D text) \<Longrightarrow> md_parse D bdy = Inr md"
  by (auto simp: parse_batch_def split: sum.splits)

lemma cached_microdescs_split:
  "cached_microdescs D d ks = (found, missing) \<Longrightarrow>
     missing = filter (\<lambda>k. \<not> on_disk D d k) ks \<and> fst ` set found = {k \<in> set ks. on_disk D d k} \<and>
     set found \<subseteq> genuine_microdescs D (set ks)"
proof (induction ks arbitrary: found missing)
  case (Cons k ks)
  obtain f m where fm: "cached_microdescs D d ks = (f, m)" by force
  note IH = Cons.IH [OF fm]
  have mono: "genuine_microdescs D (set ks) \<subseteq> genuine_microdescs D (set (k # ks))"
    by (auto simp: genuine_microdescs_def)
  show ?case
  proof (cases "on_disk D d k")
    case True
    then obtain raw md where raw: "load_microdesc k d = Some raw" "md_parse D (from_utf8_lossy raw) = Inr md" "md_digest md = k"
      by (auto simp: on_disk_def split: option.splits sum.splits)
    then have "found = (k, md) # f" "missing = m" using Cons.prems fm by auto
    moreover have "(k, md) \<in> genuine_microdescs D (set (k # ks))"
      using raw(2) md_parse_digest [OF raw(2)] raw(3) by (auto simp: genuine_microdescs_def)
    ultimately show ?thesis using IH True mono by auto
  next
    case False
    then have "found = f" "missing = k # m"
      using Cons.prems fm by (auto simp: on_disk_def split: option.splits sum.splits if_splits)
    then show ?thesis using IH False mono by auto
  qed
qed simp

lemma store_microdesc_reads: "name \<noteq> microdesc_path k \<Longrightarrow> fs_read name (snd (store_microdesc k bs d)) = fs_read name d"
  by (simp add: store_microdesc_def fs_write_def split: sum.split write_fault.split)

lemma take_batch_found:
  "take_batch batch ts d = (found, d') \<Longrightarrow>
     fst ` set found = md_digest ` snd ` set ts \<inter> set batch \<and> set found \<subseteq> (\<lambda>(bdy, md). (md_digest md, md)) ` set ts \<and>
     (name \<notin> microdesc_path ` set batch \<longrightarrow> fs_read name d' = fs_read name d)"
proof (induction batch ts d arbitrary: found rule: take_batch.induct)
  case (2 batch bdy md rest d)
  show ?case
  proof (cases "md_digest md \<in> set batch")
    case True
    let ?e = "snd (store_microdesc (md_digest md) (as_bytes bdy) d)"
    obtain f where "take_batch batch rest ?e = (f, d')" "found = (md_digest md, md) # f"
      using "2.prems" True by (auto split: prod.splits)
    moreover have "name \<notin> microdesc_path ` set batch \<Longrightarrow> fs_read name ?e = fs_read name d"
      using True by (intro store_microdesc_reads) auto
    ultimately show ?thesis using "2.IH"(2) True by auto
  next
    case False
    then show ?thesis using "2.IH"(1) "2.prems" by auto
  qed
qed auto

lemma genuine_microdescs_mono: "ks \<subseteq> ls \<Longrightarrow> genuine_microdescs D ks \<subseteq> genuine_microdescs D ls"
  by (auto simp: genuine_microdescs_def)

lemma take_batch_genuine:
  assumes "take_batch batch (parse_batch D text) d = (found, d')"
  shows "set found \<subseteq> genuine_microdescs D (set batch)"
proof
  fix x assume x: "x \<in> set found"
  then have "fst x \<in> set batch" using take_batch_found [OF assms] by blast
  moreover obtain bdy md where "(bdy, md) \<in> set (parse_batch D text)" "x = (md_digest md, md)"
    using x take_batch_found [OF assms] by (metis (no_types, lifting) case_prod_conv image_iff subsetD surj_pair)
  ultimately show "x \<in> genuine_microdescs D (set batch)"
    using parse_batch_parsed md_parse_digest unfolding genuine_microdescs_def by fastforce
qed

lemma take_batches_found:
  "take_batches D (map (\<lambda>b. (b, serve (microdesc_url b) [])) bs) d = (found, d') \<Longrightarrow>
     fst ` set found = \<Union> (offered D serve ` set bs) \<and> set found \<subseteq> genuine_microdescs D (\<Union> (set ` set bs)) \<and>
     (name \<notin> microdesc_path ` \<Union> (set ` set bs) \<longrightarrow> fs_read name d' = fs_read name d)"
proof (induction bs arbitrary: d found)
  case (Cons b bs)
  show ?case
  proof (cases "serve (microdesc_url b) []")
    case (Inl e)
    then have IH: "take_batches D (map (\<lambda>b. (b, serve (microdesc_url b) [])) bs) d = (found, d')" using Cons.prems by simp
    have "genuine_microdescs D (\<Union> (set ` set bs)) \<subseteq> genuine_microdescs D (\<Union> (set ` set (b # bs)))"
      by (rule genuine_microdescs_mono) auto
    then show ?thesis using Cons.IH [OF IH] Inl by (auto simp: offered_def)
  next
    case (Inr raw)
    obtain f1 d1 where 1: "take_batch b (parse_batch D (from_utf8_lossy raw)) d = (f1, d1)" by force
    obtain f2 where 2: "take_batches D (map (\<lambda>b. (b, serve (microdesc_url b) [])) bs) d1 = (f2, d')" "found = f1 @ f2"
      using Cons.prems Inr 1 by (auto split: prod.splits)
    have "fst ` set f1 = offered D serve b" using take_batch_found [OF 1] by (simp add: offered_def Inr)
    moreover have "genuine_microdescs D (set b) \<subseteq> genuine_microdescs D (\<Union> (set ` set (b # bs)))"
      "genuine_microdescs D (\<Union> (set ` set bs)) \<subseteq> genuine_microdescs D (\<Union> (set ` set (b # bs)))"
      by (auto simp only: genuine_microdescs_def set_simps image_insert Union_insert)
    ultimately show ?thesis
      using take_batch_found [OF 1, where name = name] take_batch_genuine [OF 1] Cons.IH [OF 2(1)] unfolding 2(2) by auto
  qed
qed (auto simp: genuine_microdescs_def)

lemma stream_microdescs_found:
  assumes "stream_microdescs D serve digests d = (found, d')"
  shows "fst ` set found = {k \<in> set digests. on_disk D d k} \<union> \<Union> (offered D serve ` set (asked_for D d digests)) \<and>
     set found \<subseteq> genuine_microdescs D (set digests) \<and>
     (name \<notin> microdesc_path ` set digests \<longrightarrow> fs_read name d' = fs_read name d)"
proof -
  obtain f1 missing where 1: "cached_microdescs D d digests = (f1, missing)" by force
  note cached = cached_microdescs_split [OF 1]
  then have asked: "asked_for D d digests = chunks_of MICRODESCS_PER_REQUEST missing" by (simp add: asked_for_def)
  have "\<Union> (set ` set (asked_for D d digests)) = set missing"
    using concat_chunks_of [of MICRODESCS_PER_REQUEST missing] unfolding asked
    by (metis MICRODESCS_PER_REQUEST_def set_concat zero_less_numeral)
  then have sub: "\<Union> (set ` set (asked_for D d digests)) \<subseteq> set digests" using cached by auto
  obtain f2 where 2: "take_batches D (map (\<lambda>b. (b, serve (microdesc_url b) [])) (asked_for D d digests)) d = (f2, d')" "found = f1 @ f2"
    using assms 1 by (auto simp: stream_microdescs_def asked get_parallel_eq Let_def zip_map2 zip_same_conv_map comp_def split: prod.splits)
  have "genuine_microdescs D (\<Union> (set ` set (asked_for D d digests))) \<subseteq> genuine_microdescs D (set digests)"
    using sub by (rule genuine_microdescs_mono)
  then show ?thesis using cached take_batches_found [where D = D and serve = serve and name = name, OF 2(1)] sub unfolding 2(2) by auto
qed

lemma fold_update_map: "map_of (fold (\<lambda>(k, v). AList.update k v) xs al) = map_of al ++ map_of (rev xs)"
  by (induction xs arbitrary: al) (auto simp: update_conv' map_add_def split: option.splits)

lemma set_fold_update: "set (fold (\<lambda>(k, v). AList.update k v) xs al) \<subseteq> set xs \<union> set al"
proof (induction xs arbitrary: al)
  case (Cons x xs)
  have "set (AList.update (fst x) (snd x) al) \<subseteq> insert x (set al)" for al :: "('a \<times> 'b) list"
    by (induction al) auto
  with Cons show ?case by (fastforce simp: case_prod_beta)
qed simp

lemma keys_fold_update: "fst ` set (fold (\<lambda>(k, v). AList.update k v) xs al) = fst ` set xs \<union> fst ` set al"
  by (induction xs arbitrary: al) (auto simp: dom_update case_prod_beta)

text \<open>
  C16: every microdescriptor the client gets is one it asked for, and its text hashes to the digest the
  consensus names it by, whether it comes from the disk or from a server that may send anything. The
  client gets exactly those that are good on disk and those the server sends in answer to the request
  that names them; what is good on disk is not asked for, everything else is asked for once, at most
  92 at a time, and only the files of the digests asked for change.
\<close>

theorem microdescs_genuine:
  "(case microdescs D serve digests d of (found, d') \<Rightarrow>
      set found \<subseteq> genuine_microdescs D (set digests) \<and>
      fst ` set found = {k \<in> set digests. on_disk D d k} \<union> \<Union> (offered D serve ` set (asked_for D d digests)) \<and>
      (\<lambda>name. if name \<in> microdesc_path ` set digests then None else fs_read name d') =
      (\<lambda>name. if name \<in> microdesc_path ` set digests then None else fs_read name d)) \<and>
   concat (asked_for D d digests) = filter (\<lambda>k. \<not> on_disk D d k) digests \<and>
   list_all (\<lambda>batch. length batch \<le> 92) (asked_for D d digests)"
proof (intro conjI)
  obtain each d' where s: "stream_microdescs D serve digests d = (each, d')" by force
  note found = stream_microdescs_found [OF s]
  let ?f = "fold (\<lambda>(k, md). AList.update k md) each []"
  have "set ?f \<subseteq> genuine_microdescs D (set digests)" using found set_fold_update [of each "[]"] unfolding empty_set [symmetric] Un_empty_right by (rule_tac subset_trans) blast+
  moreover have "fst ` set ?f = fst ` set each" using keys_fold_update [of each "[]"] by simp
  ultimately show "case microdescs D serve digests d of (found, d') \<Rightarrow>
      set found \<subseteq> genuine_microdescs D (set digests) \<and>
      fst ` set found = {k \<in> set digests. on_disk D d k} \<union> \<Union> (offered D serve ` set (asked_for D d digests)) \<and>
      (\<lambda>name. if name \<in> microdesc_path ` set digests then None else fs_read name d') =
      (\<lambda>name. if name \<in> microdesc_path ` set digests then None else fs_read name d)"
    using found by (auto simp: microdescs_def s)
  show "concat (asked_for D d digests) = filter (\<lambda>k. \<not> on_disk D d k) digests"
    by (simp add: asked_for_def concat_chunks_of MICRODESCS_PER_REQUEST_def)
  show "list_all (\<lambda>batch. length batch \<le> 92) (asked_for D d digests)"
    using chunks_of_bound unfolding asked_for_def list_all_iff MICRODESCS_PER_REQUEST_def by blast
qed

section \<open>Pruning\<close>

lemma prune_loop_reads:
  "fs_read name (snd (prune_loop keep names r d)) =
     (if \<exists>n \<in> set names. name = microdesc_dir @ n \<and> \<not> wanted_name keep n \<and> \<not> stuck d name then None else fs_read name d)"
  by (induction keep names r d rule: prune_loop.induct) auto

lemma prune_loop_counts:
  "prune_loop keep names r d = (r', d') \<Longrightarrow>
     pr_kept r' = pr_kept r + length (filter (wanted_name keep) names) \<and>
     pr_removed r' = pr_removed r + length (filter (\<lambda>n. \<not> wanted_name keep n \<and> \<not> stuck d (microdesc_dir @ n)) names)"
  by (induction keep names r d rule: prune_loop.induct) (auto split: if_splits)

lemma microdesc_names_iff: "n \<in> set (microdesc_names d) \<longleftrightarrow> fs_read (microdesc_dir @ n) d \<noteq> None"
proof -
  have "set (List.map_filter f xs) = {y. \<exists>x \<in> set xs. f x = Some y}" for f :: "string \<Rightarrow> string option" and xs
    by (force simp: map_filter_def)
  then show ?thesis
    by (auto simp: microdesc_names_def fs_read_def strip_prefix_eq_Some map_of_eq_None_iff image_iff)
qed

text \<open>
  Pruning a directory that can be read removes every file of it that is not named by a wanted digest,
  save those that cannot be removed, and touches nothing else.
\<close>

lemma prune_exact:
  assumes "unreadable d = None" and "prune_microdescs keep d = (r, d')"
  shows "fs_read name d' =
     (if \<exists>n. name = microdesc_dir @ n \<and> \<not> wanted_name keep n \<and> \<not> stuck d name then None else fs_read name d)"
proof -
  have "d' = snd (prune_loop keep (microdesc_names d) \<lparr>pr_kept = 0, pr_removed = 0\<rparr> d)"
    using assms by (auto simp: prune_microdescs_def split: prod.splits)
  then show ?thesis using microdesc_names_iff by (auto simp: prune_loop_reads)
qed

lemma wanted_digest: "length k = 32 \<Longrightarrow> wanted_name keep (hex_encode k) \<longleftrightarrow> k \<in> keep"
  by (simp add: wanted_name_def hex_decode_encode)

text \<open>So the microdescriptors of the current consensus stay, and those only an older one named go.\<close>

lemma prune_cache_keeps:
  assumes "unreadable d = None" and "prune_cache dir d = (r, d')" and "length k = 32"
  shows "load_microdesc k d' =
     (if k \<in> microdesc_digest ` set (routers (dir_consensus dir)) \<or> stuck d (microdesc_path k) then load_microdesc k d else None)"
  using prune_exact [of d "set (map microdesc_digest (routers (dir_consensus dir)))" r d' "microdesc_path k"] assms wanted_digest
  by (auto simp: prune_cache_def load_microdesc_def microdesc_path_def)

section \<open>The way to a directory server\<close>

text \<open>
  When the random mirrors are done with, a failing authority is passed over and its channel, if it got
  that far, closed; the answer is the first authority's that takes a circuit, and there is none only
  when all nine have failed.
\<close>

lemma authority_loop_first:
  assumes "list_all (\<lambda>i. \<exists>e. fst (dir_circuit_to link (n + i) (auth_ipv4 (as ! i), auth_or_port (as ! i))) = Inl e) [0..<length as]"
    and "fst (dir_circuit_to link (n + length as) (auth_ipv4 a, auth_or_port a)) = Inr dc"
  shows "\<exists>shut. authority_loop link n prev closed (as @ a # bs) = (Inr dc, shut)"
  using assms
proof (induction as arbitrary: n prev closed)
  case Nil
  then show ?case by (auto split: prod.splits)
next
  case (Cons x as)
  have all: "\<exists>e. fst (dir_circuit_to link (n + i) (auth_ipv4 ((x # as) ! i), auth_or_port ((x # as) ! i))) = Inl e" if "i \<le> length as" for i
    using Cons.prems(1) that by (auto simp: list_all_iff)
  have "list_all (\<lambda>i. \<exists>e. fst (dir_circuit_to link (n + 1 + i) (auth_ipv4 (as ! i), auth_or_port (as ! i))) = Inl e) [0..<length as]"
    using all [of "Suc i" for i] by (auto simp: list_all_iff)
  moreover obtain e shut where "dir_circuit_to link n (auth_ipv4 x, auth_or_port x) = (Inl e, shut)"
    using all [of 0] by (cases "dir_circuit_to link n (auth_ipv4 x, auth_or_port x)") auto
  ultimately show ?case using Cons.IH [of "n + 1"] Cons.prems(2) by simp
qed

end
