(* ===== verification/Signed_Documents.thy ===== *)
theory Signed_Documents
  imports Directory_Manager Doc_Text
begin

text \<open>
  Documents that the authorities of \<^verbatim>\<open>authority.rs\<close> might have written, and that the readers accept
  them: key certificates and a consensus with the signatures of several of them, for any identities. The
  signature scheme of these documents is the plainest one, in which a signature is the key itself.
\<close>

section \<open>The documents\<close>

definition plain_crypto :: "bytes dir_crypto" where
  "plain_crypto = \<lparr>dc_sha1 = (\<lambda>_. []), dc_sha256 = (\<lambda>_. []), rsa_from_der = Inr, rsa_fingerprint = (\<lambda>k. k),
     verify_digest = (\<lambda>k _ sg. sg = k)\<rparr>"

definition expires_line :: string where "expires_line = ''dir-key-expires 1980-01-01 00:00:00''"

definition identity_lines :: "bytes \<Rightarrow> string list" where
  "identity_lines k = [''dir-key-certificate-version 3'', ''fingerprint '' @ hex_encode k, expires_line]"

definition key_lines :: "bytes \<Rightarrow> string list" where
  "key_lines k = ''dir-identity-key'' # pem_lines ''RSA PUBLIC KEY'' k"

definition signing_lines :: "bytes \<Rightarrow> string list" where
  "signing_lines k = ''dir-signing-key'' # pem_lines ''RSA PUBLIC KEY'' k"

definition cert_doc :: "bytes \<Rightarrow> string" where
  "cert_doc k = doc_of (identity_lines k @ key_lines k @ signing_lines k @
     [''dir-key-certification'', pem_begin ''SIGNATURE'', base64_encode_unpadded k]) @ pem_end ''SIGNATURE''"

definition cert_of :: "bytes \<Rightarrow> bytes key_certificate" where
  "cert_of k = \<lparr>v3ident = k, signing_key_digest = k, signing_key = k, cert_text = cert_doc k\<rparr>"

lemma cert_of_simps [simp]: "v3ident (cert_of k) = k" "signing_key_digest (cert_of k) = k" "signing_key (cert_of k) = k" "cert_text (cert_of k) = cert_doc k"
  by (simp_all add: cert_of_def)

section \<open>Lines\<close>

lemma hex_plain: "c \<in> set (hex_encode bs) \<Longrightarrow> c \<in> set HEX"
proof -
  have "length HEX = 16" by (simp add: HEX_def)
  then have "HEX ! (n div 16) \<in> set HEX" "HEX ! (n mod 16) \<in> set HEX" if "n < 256" for n
    using that by (auto intro!: nth_mem)
  then show "c \<in> set (hex_encode bs) \<Longrightarrow> ?thesis" using unat_u8_less by (auto simp: hex_encode_def)
qed

lemma hex_chars: "c \<in> set (hex_encode bs) \<Longrightarrow> 48 \<le> code c \<and> code c \<le> 70"
  using hex_plain [of c bs] by (auto simp: HEX_def code_def)

lemma hex_avoids [simp]: "newline \<notin> set (hex_encode bs)" "CHR ''-'' \<notin> set (hex_encode bs)" "CHR '' '' \<notin> set (hex_encode bs)"
  using hex_chars by (fastforce simp: code_def)+

lemma base64_chars: "c \<in> set (base64_encode_unpadded bs) \<Longrightarrow> 43 \<le> code c \<and> code c \<le> 122"
  using base64_alphabet [of bs] by (auto simp: B64_ALPHABET_def code_def)

lemma base64_avoids [simp]: "newline \<notin> set (base64_encode_unpadded bs)"
  using base64_chars by (fastforce simp: code_def)

lemma trim_end_plain: "\<forall>c \<in> set s. \<not> is_whitespace c \<Longrightarrow> trim_end s = s"
  by (cases s rule: rev_cases) (simp_all add: trim_end_def)

lemma hex_no_whitespace: "\<forall>c \<in> set (hex_encode bs). \<not> is_whitespace c"
  using hex_chars by (fastforce simp: is_whitespace_def)

lemma plain_last: "newline \<notin> set l \<Longrightarrow> carriage_return \<notin> set l \<Longrightarrow> plain_line l"
  by (auto simp: plain_line_def dest: last_in_set)

lemma hex_cr [simp]: "carriage_return \<notin> set (hex_encode bs)" "carriage_return \<notin> set (base64_encode_unpadded bs)"
  using hex_chars base64_chars by (fastforce simp: code_def)+

lemma pem_lines_plain: "newline \<notin> set label \<Longrightarrow> carriage_return \<notin> set label \<Longrightarrow> list_all plain_line (pem_lines label bs)"
  by (simp add: pem_lines_def pem_begin_def pem_end_def plain_last)

lemma lines_doc_rest:
  assumes "list_all plain_line ls" "plain_line l" "l \<noteq> []"
  shows "lines (doc_of ls @ l) = ls @ [l]"
proof -
  have "split_char newline (doc_of ls @ l) = ls @ [l]"
    using assms(1)
  proof (induction ls)
    case Nil
    have "\<forall>c \<in> set l. c \<noteq> newline" using assms(2) by (auto simp: plain_line_def)
    then show ?case by simp
  qed (simp add: plain_line_def split_on_plain)
  then show ?thesis using assms by (auto simp: lines_def list_all_iff plain_line_def strip_cr_def intro!: map_idI)
qed

lemma object_pem_open:
  "newline \<notin> set label \<Longrightarrow> object (pem_begin label @ newline # base64_encode_unpadded bs @ newline # pem_end label @ r) label = Inr bs"
proof -
  let ?b = "base64_encode_unpadded bs"
  have "find_str (pem_end label) ((newline # ?b @ [newline]) @ pem_end label @ r) =
      map_option (\<lambda>i. length (newline # ?b @ [newline]) + i) (find_str (pem_end label) (pem_end label @ r))"
    by (rule find_str_skip) (simp_all add: pem_end_def)
  then have "find_str (pem_end label) (newline # ?b @ newline # pem_end label @ r) = Some (length (newline # ?b @ [newline]))"
    by (simp add: find_str_here)
  moreover have "take (length (newline # ?b @ [newline])) (newline # ?b @ newline # pem_end label @ r) = newline # ?b @ [newline]"
    by simp
  ultimately show ?thesis
    using base64_decode_lines [of bs] by (simp add: object_def find_str_here Let_def)
qed

lemma find_str_cons_line:
  assumes "newline \<notin> set p" "p \<noteq> []"
  shows "find_str p (l @ newline # r) =
     (case find_str p l of Some i \<Rightarrow> Some i | None \<Rightarrow> map_option (\<lambda>i. Suc (length l) + i) (find_str p r))"
proof (induction l)
  case Nil
  then show ?case using assms by (cases p) (auto simp: map_option_case split: option.split)
next
  case (Cons c l)
  have "starts_with p (c # l @ newline # r) \<longleftrightarrow> starts_with p (c # l)"
    using starts_with_line [OF assms(1), of "c # l" r] by simp
  with Cons show ?case by (auto simp: map_option_case simp del: take_Cons' split: option.split)
qed

section \<open>A certificate\<close>

lemma not_in_base64: "CHR ''-'' \<in> set k \<Longrightarrow> \<not> starts_with k (base64_encode_unpadded bs)"
  by (metis base64_no_dash in_set_takeD)

lemma find_base64: "CHR ''-'' \<in> set k \<Longrightarrow> find_str k (base64_encode_unpadded bs) = None"
  using find_str_SomeD by (metis base64_no_dash in_set_dropD in_set_takeD not_None_eq)

lemma find_fingerprint: "find_str end_signature (''fingerprint '' @ hex_encode k) = None"
proof (cases "find_str end_signature (''fingerprint '' @ hex_encode k)")
  case (Some i)
  then have "CHR ''-'' \<in> set (''fingerprint '' @ hex_encode k)"
    using find_str_SomeD [OF Some] by (metis in_set_dropD in_set_takeD list.set_intros(1))
  then show ?thesis by simp
qed simp

lemma cert_lines_plain:
  "list_all plain_line (identity_lines k)" "list_all plain_line (key_lines k)" "list_all plain_line (signing_lines k)"
  by (simp_all add: identity_lines_def key_lines_def signing_lines_def expires_line_def plain_last pem_lines_plain)

lemma cert_doc_items:
  "item (cert_doc k) ''dir-key-certificate-version'' = Some ''3''"
  "item (cert_doc k) ''fingerprint'' = Some (hex_encode k)"
  "item (cert_doc k) ''dir-key-expires'' = Some ''1980-01-01 00:00:00''"
proof -
  have "lines (cert_doc k) = (identity_lines k @ key_lines k @ signing_lines k @
     [''dir-key-certification'', pem_begin ''SIGNATURE'', base64_encode_unpadded k]) @ [pem_end ''SIGNATURE'']"
    unfolding cert_doc_def
    by (rule lines_doc_rest) (simp_all add: cert_lines_plain plain_last pem_begin_def pem_end_def)
  then show "item (cert_doc k) ''dir-key-certificate-version'' = Some ''3''"
    "item (cert_doc k) ''fingerprint'' = Some (hex_encode k)"
    "item (cert_doc k) ''dir-key-expires'' = Some ''1980-01-01 00:00:00''"
    by (simp_all add: item_def identity_lines_def expires_line_def item_args_def strip_prefix_def trim_end_plain hex_no_whitespace)
      (simp_all add: trim_end_def is_whitespace_def code_def)
qed

lemma cert_doc_cut:
  "cert_doc k = doc_of (identity_lines k) @ ''dir-identity-key'' @ newline # pem_begin ''RSA PUBLIC KEY'' @ newline #
     base64_encode_unpadded k @ newline # pem_end ''RSA PUBLIC KEY'' @ newline # doc_of (signing_lines k @
     [''dir-key-certification'', pem_begin ''SIGNATURE'', base64_encode_unpadded k]) @ pem_end ''SIGNATURE''"
  "cert_doc k = doc_of (identity_lines k @ key_lines k) @ ''dir-signing-key'' @ newline # pem_begin ''RSA PUBLIC KEY'' @ newline #
     base64_encode_unpadded k @ newline # pem_end ''RSA PUBLIC KEY'' @ newline # doc_of
     [''dir-key-certification'', pem_begin ''SIGNATURE'', base64_encode_unpadded k] @ pem_end ''SIGNATURE''"
  "cert_doc k = doc_of (identity_lines k @ key_lines k @ signing_lines k) @ ''dir-key-certification'' @ newline #
     pem_begin ''SIGNATURE'' @ newline # base64_encode_unpadded k @ newline # pem_end ''SIGNATURE''"
  by (simp_all add: cert_doc_def key_lines_def signing_lines_def pem_lines_def)

lemma cert_doc_starts:
  "line_start_of (cert_doc k) ''dir-identity-key'' = Some (length (doc_of (identity_lines k)))"
  "line_start_of (cert_doc k) ''dir-signing-key'' = Some (length (doc_of (identity_lines k @ key_lines k)))"
  "line_start_of (cert_doc k) ''dir-key-certification'' = Some (length (doc_of (identity_lines k @ key_lines k @ signing_lines k)))"
proof -
  show "line_start_of (cert_doc k) ''dir-identity-key'' = Some (length (doc_of (identity_lines k)))"
    unfolding cert_doc_cut(1)
    by (rule line_start_of_doc) (simp_all add: cert_lines_plain plain_last, simp_all add: identity_lines_def expires_line_def)
  show "line_start_of (cert_doc k) ''dir-signing-key'' = Some (length (doc_of (identity_lines k @ key_lines k)))"
    unfolding cert_doc_cut(2)
    by (rule line_start_of_doc) (simp_all add: cert_lines_plain plain_last,
      simp_all add: identity_lines_def key_lines_def expires_line_def pem_lines_def pem_begin_def pem_end_def
        not_in_base64 [of "''dir-signing-key''" k, simplified])
  show "line_start_of (cert_doc k) ''dir-key-certification'' = Some (length (doc_of (identity_lines k @ key_lines k @ signing_lines k)))"
    unfolding cert_doc_cut(3)
    by (rule line_start_of_doc) (simp_all add: cert_lines_plain plain_last,
      simp_all add: identity_lines_def key_lines_def signing_lines_def expires_line_def pem_lines_def pem_begin_def pem_end_def
        not_in_base64 [of "''dir-key-certification''" k, simplified])
qed

lemma drop_doc: "drop (length a) (a @ b) = b" by simp

lemma key_object:
  "object (''dir-identity-key'' @ newline # pem_begin ''RSA PUBLIC KEY'' @ newline #
     base64_encode_unpadded k @ newline # pem_end ''RSA PUBLIC KEY'' @ r) ''RSA PUBLIC KEY'' = Inr k" (is "object (?l @ newline # ?r) _ = _")
  "object (''dir-signing-key'' @ newline # pem_begin ''RSA PUBLIC KEY'' @ newline #
     base64_encode_unpadded k @ newline # pem_end ''RSA PUBLIC KEY'' @ r) ''RSA PUBLIC KEY'' = Inr k"
proof -
  let ?p = "pem_begin ''RSA PUBLIC KEY''"
  have skip: "object (l @ newline # ?p @ s) label = object (?p @ s) label"
    if "find_str ?p l = None" "label = ''RSA PUBLIC KEY''" for l s and label :: string
  proof -
    have "find_str ?p (l @ newline # ?p @ s) = Some (Suc (length l))"
      using that(1) by (subst find_str_cons_line) (simp_all add: find_str_here, simp_all add: pem_begin_def)
    moreover have "find_str ?p (?p @ s) = Some 0" by (rule find_str_here)
    ultimately show ?thesis unfolding object_def that(2) by simp
  qed
  show "object (?l @ newline # ?r) ''RSA PUBLIC KEY'' = Inr k"
    by (subst skip) (simp_all add: object_pem_open, simp add: pem_begin_def)
  show "object (''dir-signing-key'' @ newline # ?r) ''RSA PUBLIC KEY'' = Inr k"
    by (subst skip) (simp_all add: object_pem_open, simp add: pem_begin_def)
qed

lemma expiry: "split_datetime ''1980-01-01 00:00:00'' = Inr 315532800"
  by (simp add: split_datetime_def parse_datetime_def parse_i64_def parse_uint_def is_digit_def code_def days_from_civil_def tdiv_def wrap_i64_def Let_def)

lemma cert_doc_end:
  "line_end_after (cert_doc k) ''dir-key-certification'' =
     Some (length (doc_of (identity_lines k @ key_lines k @ signing_lines k @ [''dir-key-certification''])))"
proof -
  have "find_str [newline] (drop (length (doc_of (identity_lines k @ key_lines k @ signing_lines k))) (cert_doc k)) =
      Some (length ''dir-key-certification'')"
    unfolding cert_doc_cut(3) drop_doc by (rule find_newline) simp
  then show ?thesis unfolding line_end_after_def cert_doc_starts option.case by simp
qed

lemma cert_doc_objects:
  "object (drop (length (doc_of (identity_lines k))) (cert_doc k)) ''RSA PUBLIC KEY'' = Inr k"
  "object (drop (length (doc_of (identity_lines k @ key_lines k))) (cert_doc k)) ''RSA PUBLIC KEY'' = Inr k"
  "object (drop (length (doc_of (identity_lines k @ key_lines k @ signing_lines k @ [''dir-key-certification'']))) (cert_doc k)) ''SIGNATURE'' = Inr k"
proof -
  show "object (drop (length (doc_of (identity_lines k))) (cert_doc k)) ''RSA PUBLIC KEY'' = Inr k"
    unfolding cert_doc_cut(1) drop_doc by (rule key_object)
  show "object (drop (length (doc_of (identity_lines k @ key_lines k))) (cert_doc k)) ''RSA PUBLIC KEY'' = Inr k"
    unfolding cert_doc_cut(2) drop_doc by (rule key_object)
  have "cert_doc k = doc_of (identity_lines k @ key_lines k @ signing_lines k @ [''dir-key-certification'']) @
     pem_begin ''SIGNATURE'' @ newline # base64_encode_unpadded k @ newline # pem_end ''SIGNATURE'' @ []"
    by (simp add: cert_doc_def)
  then have "drop (length (doc_of (identity_lines k @ key_lines k @ signing_lines k @ [''dir-key-certification'']))) (cert_doc k) =
      pem_begin ''SIGNATURE'' @ newline # base64_encode_unpadded k @ newline # pem_end ''SIGNATURE'' @ []"
    by (simp only: drop_doc)
  then show "object (drop (length (doc_of (identity_lines k @ key_lines k @ signing_lines k @ [''dir-key-certification'']))) (cert_doc k)) ''SIGNATURE'' = Inr k"
    by (simp only:) (rule object_pem_open, simp)
qed

lemma cert_doc_parse:
  assumes "length k = 20" and "now < 315532800"
  shows "cert_parse plain_crypto (cert_doc k) now = Inr (cert_of k)"
proof -
  have crypto: "rsa_from_der plain_crypto = Inr" "rsa_fingerprint plain_crypto k = k" "verify_digest plain_crypto k dg k" for dg
    by (simp_all add: plain_crypto_def)
  have now: "\<not> 315532800 \<le> now" using assms(2) by simp
  show ?thesis
    unfolding cert_parse_def cert_doc_items ok_or_def option.case and_then_simps hex_decode_encode fixed_def assms(1)
      expiry cert_doc_starts cert_doc_objects cert_doc_end crypto if_not_P [OF now] simp_thms if_True if_False cert_of_def
    by (simp add: crypto)
qed

lemma find_in_doc:
  assumes "newline \<notin> set p" "p \<noteq> []"
  shows "list_all (\<lambda>l. find_str p l = None) ls \<Longrightarrow>
     find_str p (doc_of ls @ r) = map_option (\<lambda>i. length (doc_of ls) + i) (find_str p r)"
proof (induction ls)
  case (Cons l ls)
  then show ?case
    using find_str_cons_line [OF assms, of l "doc_of ls @ r"] by (simp add: option.map_comp comp_def add.assoc)
qed (simp add: map_option_case split: option.split)

lemma end_not_before:
  "list_all (\<lambda>l. find_str end_signature l = None) (identity_lines k @ key_lines k @ signing_lines k @
     [''dir-key-certification'', pem_begin ''SIGNATURE'', base64_encode_unpadded k])"
proof -
  have "list_all (\<lambda>l. find_str end_signature l = None) (identity_lines k)"
    unfolding identity_lines_def list.pred_inject find_fingerprint by (simp add: expires_line_def)
  moreover have "find_str end_signature (base64_encode_unpadded bs) = None" for bs by (rule find_base64) simp
  then have "list_all (\<lambda>l. find_str end_signature l = None)
      (key_lines k @ signing_lines k @ [''dir-key-certification'', pem_begin ''SIGNATURE'', base64_encode_unpadded k])"
    unfolding key_lines_def signing_lines_def pem_lines_def pem_begin_def pem_end_def list_all_append list.pred_inject append_Cons append_Nil
    by simp
  ultimately show ?thesis by (simp only: list_all_append)
qed

lemma cert_of_genuine:
  assumes "length k = 20" "now < 315532800" "is_authority k"
  shows "genuine plain_crypto now (cert_of k)"
proof -
  let ?ls = "identity_lines k @ key_lines k @ signing_lines k @ [''dir-key-certification'', pem_begin ''SIGNATURE'', base64_encode_unpadded k]"
  have e: "pem_end ''SIGNATURE'' = end_signature" by (simp add: pem_end_def)
  have "find_str end_signature (cert_doc k) = map_option (\<lambda>i. length (doc_of ?ls) + i) (find_str end_signature (pem_end ''SIGNATURE''))"
    unfolding cert_doc_def by (rule find_in_doc [OF _ _ end_not_before]) simp_all
  moreover have "find_str end_signature (pem_end ''SIGNATURE'') = Some 0"
    unfolding e using find_str_here [of end_signature "[]"] by simp
  moreover have "length (cert_doc k) = length (doc_of ?ls) + length end_signature" unfolding cert_doc_def e length_append by simp
  moreover have "starts_with version_keyword (cert_doc k)" by (simp add: cert_doc_def identity_lines_def)
  moreover have "cert_parse plain_crypto (cert_doc k) now = Inr (cert_of k)" using cert_doc_parse assms(1,2) .
  ultimately show ?thesis using assms(3) unfolding genuine_def by (simp add: cert_of_def)
qed

section \<open>A consensus\<close>

definition body_lines :: "string list" where
  "body_lines =
     [''network-status-version 3 microdesc'', ''valid-after 1970-01-01 00:00:00'', ''fresh-until 1970-01-01 01:00:00'',
      ''valid-until 1970-01-01 03:00:00'', ''r relay AAAAAAAAAAAAAAAAAAAAAAAAAAA 1970-01-01 00:00:00 1.2.3.4 443 0'',
      ''m AQEBAQEBAQEBAQEBAQEBAQEBAQEBAQEBAQEBAQEBAQE'']"

definition sig_args :: "bytes \<Rightarrow> string" where
  "sig_args k = ''sha256 '' @ hex_encode k @ '' '' @ hex_encode k"

definition sig_lines :: "bytes \<Rightarrow> string list" where
  "sig_lines k = (signature_keyword @ sig_args k) # pem_lines ''SIGNATURE'' k"

definition consensus_doc :: "bytes list \<Rightarrow> string" where
  "consensus_doc ks = doc_of (body_lines @ concat (map sig_lines ks))"

definition sig_of :: "bytes \<Rightarrow> dir_signature" where
  "sig_of k = \<lparr>algorithm = ''sha256'', sig_identity = k, sig_key_digest = k, sig_value = k\<rparr>"

lemma sig_args_split:
  assumes "k \<noteq> []"
  shows "split_whitespace (sig_args k) = [''sha256'', hex_encode k, hex_encode k]"
proof -
  have hex: "hex_encode k \<noteq> []" using assms by (metis length_0_conv length_hex_encode mult_eq_0_iff zero_neq_numeral)
  have space: "is_whitespace CHR '' ''" by (simp add: is_whitespace_def code_def)
  have word: "\<forall>c \<in> set ''sha256''. \<not> is_whitespace c" by (simp add: is_whitespace_def code_def)
  have "split_whitespace (''sha256'' @ CHR '' '' # hex_encode k @ CHR '' '' # hex_encode k) = [''sha256'', hex_encode k, hex_encode k]"
    unfolding split_whitespace_word [OF _ word space, simplified]
    using split_whitespace_word [OF hex hex_no_whitespace space] split_whitespace_last [OF hex hex_no_whitespace]
      split_whitespace_word [OF _ word space] by simp
  then show ?thesis by (simp add: sig_args_def)
qed

lemma parse_signature_args:
  assumes "length k = 20"
  shows "parse_signature (sig_args k) (pem_begin ''SIGNATURE'' @ newline # base64_encode_unpadded k @ newline # end_signature) = Some (sig_of k)"
proof -
  have "object (pem_begin ''SIGNATURE'' @ newline # base64_encode_unpadded k @ newline # end_signature) ''SIGNATURE'' = Inr k"
    using object_pem_open [of "''SIGNATURE''" k "[]"] by (simp add: pem_end_def)
  moreover have "k \<noteq> []" using assms by auto
  ultimately show ?thesis
    using assms unfolding parse_signature_def sig_args_split [OF \<open>k \<noteq> []\<close>] by (simp add: hex_decode_encode sig_of_def)
qed

lemma sig_block_end:
  "find_str end_signature (pem_begin ''SIGNATURE'' @ newline # base64_encode_unpadded k @ newline # end_signature @ r) =
     Some (length (doc_of [pem_begin ''SIGNATURE'', base64_encode_unpadded k]))"
proof -
  have "find_str end_signature (base64_encode_unpadded k) = None" by (rule find_base64) simp
  then have none: "list_all (\<lambda>l. find_str end_signature l = None) [pem_begin ''SIGNATURE'', base64_encode_unpadded k]"
    unfolding list.pred_inject by (simp add: pem_begin_def)
  have "find_str end_signature (doc_of [pem_begin ''SIGNATURE'', base64_encode_unpadded k] @ end_signature @ r) =
      Some (length (doc_of [pem_begin ''SIGNATURE'', base64_encode_unpadded k]))"
    by (subst find_in_doc [OF _ _ none]) (simp_all only: find_str_here, simp_all)
  then show ?thesis by simp
qed

lemma signatures_step:
  assumes "signature_block first rest = Some (sig_args k, pem_begin ''SIGNATURE'' @ newline # base64_encode_unpadded k @ newline # end_signature @ r)"
    and "length k = 20"
  shows "signatures first rest = sig_of k # signatures False r"
proof -
  let ?b = "pem_begin ''SIGNATURE'' @ newline # base64_encode_unpadded k @ newline # end_signature"
  let ?e = "length (doc_of [pem_begin ''SIGNATURE'', base64_encode_unpadded k]) + length end_signature"
  have b: "pem_begin ''SIGNATURE'' @ newline # base64_encode_unpadded k @ newline # end_signature @ r = ?b @ r" by simp
  have "?e = length ?b" by simp
  then have "take ?e (?b @ r) = ?b" "drop ?e (?b @ r) = r" by (simp_all only: append_eq_conv_conj [symmetric] take_append drop_append) simp_all
  note cut = this
  have "find_str end_signature (?b @ r) = Some (length (doc_of [pem_begin ''SIGNATURE'', base64_encode_unpadded k]))"
    using sig_block_end [of k r] unfolding b .
  then show ?thesis
    unfolding signatures.simps [of first rest] assms(1) option.case prod.case Let_def b
    by (simp only: option.case cut parse_signature_args [OF assms(2)] append_Cons append_Nil)
qed

lemma sig_doc:
  "doc_of (concat (map sig_lines (k # ks))) = signature_keyword @ sig_args k @ newline # pem_begin ''SIGNATURE'' @ newline #
     base64_encode_unpadded k @ newline # end_signature @ newline # doc_of (concat (map sig_lines ks))"
  by (simp add: sig_lines_def pem_lines_def pem_end_def)

lemma sig_args_newline: "newline \<notin> set (sig_args k)"
  by (simp add: sig_args_def)

lemma signatures_doc:
  "list_all (\<lambda>k. length k = 20) ks \<Longrightarrow> signatures False (newline # doc_of (concat (map sig_lines ks))) = map sig_of ks"
proof (induction ks)
  case Nil
  have "line_start_of [newline] signature_keyword = None" by (simp add: line_start_of_def signature_keyword_def)
  then show ?case by (subst signatures.simps) (simp add: signature_block_def)
next
  case (Cons k ks)
  let ?r = "newline # doc_of (concat (map sig_lines ks))"
  have "line_start_of (newline # doc_of (concat (map sig_lines (k # ks)))) signature_keyword = Some 1"
    unfolding sig_doc by (simp add: line_start_of_def signature_keyword_def)
  then have "signature_block False (newline # doc_of (concat (map sig_lines (k # ks)))) =
      Some (sig_args k, pem_begin ''SIGNATURE'' @ newline # base64_encode_unpadded k @ newline # end_signature @ ?r)"
    unfolding signature_block_def sig_doc by (simp add: split_once_append [OF sig_args_newline])
  then show ?case using signatures_step Cons by simp
qed

definition signed_at :: nat where "signed_at = length (doc_of body_lines) + length signature_keyword"

lemma body_plain: "list_all plain_line body_lines" "list_all plain_line (sig_lines k)"
  by (simp_all add: body_lines_def plain_last sig_lines_def pem_lines_plain sig_args_def signature_keyword_def)

lemma consensus_plain: "list_all plain_line (body_lines @ concat (map sig_lines ks))"
  using body_plain by (induction ks) auto

lemma consensus_cut:
  "consensus_doc (k # ks) = doc_of body_lines @ (signature_keyword @ sig_args k) @ newline # pem_begin ''SIGNATURE'' @ newline #
     base64_encode_unpadded k @ newline # end_signature @ newline # doc_of (concat (map sig_lines ks))"
  unfolding consensus_doc_def doc_of_append sig_doc by simp

lemma consensus_signed_length: "signed_length (consensus_doc (k # ks)) = Inr signed_at"
proof -
  have "line_start_of (consensus_doc (k # ks)) signature_keyword = Some (length (doc_of body_lines))"
    unfolding consensus_cut
    by (rule line_start_of_doc) (simp_all add: body_plain plain_last sig_args_def, simp_all add: body_lines_def signature_keyword_def plain_last)
  then show ?thesis by (simp add: signed_length_def signed_at_def)
qed

lemma consensus_tail:
  assumes "list_all (\<lambda>k. length k = 20) (k # ks)"
  shows "signatures True (drop signed_at (consensus_doc (k # ks))) = map sig_of (k # ks)"
proof -
  let ?r = "newline # doc_of (concat (map sig_lines ks))"
  have "drop signed_at (consensus_doc (k # ks)) = sig_args k @ newline # pem_begin ''SIGNATURE'' @ newline # base64_encode_unpadded k @ newline # end_signature @ ?r"
    unfolding consensus_cut signed_at_def by simp
  then have "signature_block True (drop signed_at (consensus_doc (k # ks))) =
      Some (sig_args k, pem_begin ''SIGNATURE'' @ newline # base64_encode_unpadded k @ newline # end_signature @ ?r)"
    unfolding signature_block_def by (simp only: split_once_append [OF sig_args_newline] if_True)
  then show ?thesis using signatures_step signatures_doc assms by simp
qed

lemma find_cert: "k \<in> set ks \<Longrightarrow> List.find (cert_matches k k) (map cert_of ks) = Some (cert_of k)"
  by (induction ks) (auto simp: cert_matches_def cert_of_def)

lemma count_signers:
  assumes "\<forall>k \<in> set is. is_authority k \<and> k \<in> set ks" and "distinct (acc @ is)"
  shows "fold (count_signer plain_crypto msg (map cert_of ks)) (map sig_of is) acc = acc @ is"
  using assms
proof (induction "is" arbitrary: acc)
  case (Cons i "is")
  have "count_signer plain_crypto msg (map cert_of ks) (sig_of i) acc = acc @ [i]"
    using Cons.prems by (simp add: count_signer_def sig_of_def signed_digest_def find_cert) (simp add: plain_crypto_def cert_of_def)
  then show ?case using Cons.IH [of "acc @ [i]"] Cons.prems by simp
qed simp

lemma body_timestamps:
  "timestamp (consensus_doc ks) ''valid-after'' = Inr 0" "timestamp (consensus_doc ks) ''fresh-until'' = Inr 3600"
  "timestamp (consensus_doc ks) ''valid-until'' = Inr 10800"
proof -
  have "item (consensus_doc ks) ''valid-after'' = Some ''1970-01-01 00:00:00''" "item (consensus_doc ks) ''fresh-until'' = Some ''1970-01-01 01:00:00''"
    "item (consensus_doc ks) ''valid-until'' = Some ''1970-01-01 03:00:00''"
    unfolding consensus_doc_def item_doc_of [OF consensus_plain]
    by (simp_all add: body_lines_def item_args_def strip_prefix_def) (simp_all add: trim_end_def is_whitespace_def code_def)
  then show "timestamp (consensus_doc ks) ''valid-after'' = Inr 0" "timestamp (consensus_doc ks) ''fresh-until'' = Inr 3600"
    "timestamp (consensus_doc ks) ''valid-until'' = Inr 10800"
    by (simp_all add: timestamp_def ok_or_def split_datetime_def parse_datetime_def parse_i64_def parse_uint_def is_digit_def code_def
        days_from_civil_def tdiv_def wrap_i64_def Let_def)
qed

definition body_routers :: "router_status list" where
  "body_routers = [\<lparr>identity = replicate 20 0, microdesc_digest = replicate 32 1, ipv4 = [1, 2, 3, 4], or_port = 443,
     router_flags = 0, bandwidth = 0\<rparr>]"

lemma base64_ones: "base64_encode_unpadded (1 # 1 # 1 # bs) = ''AQEB'' @ base64_encode_unpadded bs" "base64_encode_unpadded [1, 1] = ''AQE''"
  by (simp_all add: b64_group_def B64_ALPHABET_def)

lemma base64_zeros: "base64_encode_unpadded (0 # 0 # 0 # bs) = ''AAAA'' @ base64_encode_unpadded bs" "base64_encode_unpadded [0, 0] = ''AAA''"
  by (simp_all add: b64_group_def B64_ALPHABET_def)

lemma base64_fixed_encode: "length bs = n \<Longrightarrow> base64_fixed n (base64_encode_unpadded bs) = Inr bs"
  by (simp add: base64_fixed_def base64_decode_encode)

lemma body_m: "base64_fixed 32 ''AQEBAQEBAQEBAQEBAQEBAQEBAQEBAQEBAQEBAQEBAQE'' = Inr (replicate 32 1)"
proof -
  have "replicate 32 (1 :: u8) = [1,1,1, 1,1,1, 1,1,1, 1,1,1, 1,1,1, 1,1,1, 1,1,1, 1,1,1, 1,1,1, 1,1,1, 1,1]"
    by (rule replicate_eqI [symmetric]) auto
  then have "base64_encode_unpadded (replicate 32 1) = ''AQEBAQEBAQEBAQEBAQEBAQEBAQEBAQEBAQEBAQEBAQE''"
    by (simp only: base64_ones append_Cons append_Nil)
  then show ?thesis using base64_fixed_encode [of "replicate 32 1" 32] by simp
qed

lemma body_ident: "base64_fixed 20 ''AAAAAAAAAAAAAAAAAAAAAAAAAAA'' = Inr (replicate 20 0)"
proof -
  have "replicate 20 (0 :: u8) = [0,0,0, 0,0,0, 0,0,0, 0,0,0, 0,0,0, 0,0,0, 0,0]"
    by (rule replicate_eqI [symmetric]) auto
  then have "base64_encode_unpadded (replicate 20 0) = ''AAAAAAAAAAAAAAAAAAAAAAAAAAA''"
    by (simp only: base64_zeros append_Cons append_Nil)
  then show ?thesis using base64_fixed_encode [of "replicate 20 0" 20] by simp
qed

lemma parse_r_line_seven:
  assumes "split_whitespace args = [n, i, d, t, a, p, q]" "base64_fixed 20 i = Inr k" "parse_octets 4 (split_char CHR ''.'' a) = Some ip"
    "length (split_char CHR ''.'' a) = 4" "parse_u16 p = Some port"
  shows "parse_r_line args =
     Some \<lparr>identity = k, microdesc_digest = replicate 32 0, ipv4 = ip, or_port = port, router_flags = 0, bandwidth = 0\<rparr>"
  unfolding parse_r_line_def Let_def assms(1) using assms(2-) by (simp add: to_option_def)

lemma body_r:
  "parse_r_line ''relay AAAAAAAAAAAAAAAAAAAAAAAAAAA 1970-01-01 00:00:00 1.2.3.4 443 0'' =
     Some \<lparr>identity = replicate 20 0, microdesc_digest = replicate 32 0, ipv4 = [1, 2, 3, 4], or_port = 443, router_flags = 0, bandwidth = 0\<rparr>"
proof (rule parse_r_line_seven [OF _ body_ident])
  show "split_whitespace ''relay AAAAAAAAAAAAAAAAAAAAAAAAAAA 1970-01-01 00:00:00 1.2.3.4 443 0'' =
      [''relay'', ''AAAAAAAAAAAAAAAAAAAAAAAAAAA'', ''1970-01-01'', ''00:00:00'', ''1.2.3.4'', ''443'', ''0'']"
    by code_simp
  show "parse_octets 4 (split_char CHR ''.'' ''1.2.3.4'') = Some [1, 2, 3, 4]" by code_simp
  show "length (split_char CHR ''.'' ''1.2.3.4'') = 4" by simp
  show "parse_u16 ''443'' = Some 443" by (simp add: parse_uint_def is_digit_def code_def)
qed

lemma body_args:
  "map (\<lambda>l. (item_args l ''r'', item_args l ''m'', item_args l ''s'', item_args l ''w'')) (body_lines @ [signature_keyword]) =
     [(None, None, None, None), (None, None, None, None), (None, None, None, None), (None, None, None, None),
      (Some ''relay AAAAAAAAAAAAAAAAAAAAAAAAAAA 1970-01-01 00:00:00 1.2.3.4 443 0'', None, None, None),
      (None, Some ''AQEBAQEBAQEBAQEBAQEBAQEBAQEBAQEBAQEBAQEBAQE'', None, None), (None, None, None, None)]"
  by code_simp

lemma body_routers_loop: "routers_loop (body_lines @ [signature_keyword]) None [] = body_routers"
proof -
  obtain l1 l2 l3 l4 l5 l6 l7 where ls: "body_lines @ [signature_keyword] = [l1, l2, l3, l4, l5, l6, l7]"
    and foot: "\<not> starts_with ''directory-signature'' l1" "\<not> starts_with ''directory-footer'' l1"
      "\<not> starts_with ''directory-signature'' l2" "\<not> starts_with ''directory-footer'' l2"
      "\<not> starts_with ''directory-signature'' l3" "\<not> starts_with ''directory-footer'' l3"
      "\<not> starts_with ''directory-signature'' l4" "\<not> starts_with ''directory-footer'' l4"
      "starts_with ''directory-signature'' l7"
    by (auto simp: body_lines_def signature_keyword_def)
  note args = body_args [unfolded ls list.map list.inject prod.inject]
  have usable: "usable \<lparr>identity = replicate 20 0, microdesc_digest = replicate 32 1, ipv4 = [1, 2, 3, 4], or_port = 443, router_flags = 0, bandwidth = 0\<rparr>"
    by (simp add: usable_def replicate_eq_replicate)
  have plain: "hd (split_char CHR '' '' ''AQEBAQEBAQEBAQEBAQEBAQEBAQEBAQEBAQEBAQEBAQE'') = ''AQEBAQEBAQEBAQEBAQEBAQEBAQEBAQEBAQEBAQEBAQE''"
    by (subst split_on_no_sep) simp_all
  show ?thesis
    unfolding ls using args foot
    by (simp only: routers_loop.simps option.case push_if_usable_def body_r option.map plain body_m sum.case simp_thms if_True if_False)
      (use usable in \<open>simp add: body_routers_def\<close>)
qed

lemma body_routers_parse: "parse_routers (take signed_at (consensus_doc (k # ks))) = body_routers"
proof -
  have "take signed_at (consensus_doc (k # ks)) = doc_of body_lines @ signature_keyword"
    unfolding consensus_cut signed_at_def by simp
  moreover have "lines (doc_of body_lines @ signature_keyword) = body_lines @ [signature_keyword]"
    by (rule lines_doc_rest [OF body_plain(1)]) (simp_all add: signature_keyword_def plain_last)
  ultimately show ?thesis by (simp add: parse_routers_def body_routers_loop)
qed

definition body_consensus :: "bytes list \<Rightarrow> consensus" where
  "body_consensus ks = \<lparr>valid_after = 0, fresh_until = 3600, valid_until = 10800, routers = body_routers,
     net_params_of = from_document (consensus_doc ks),
     shared_rand_current = shared_random (consensus_doc ks) ''shared-rand-current-value'',
     shared_rand_previous = shared_random (consensus_doc ks) ''shared-rand-previous-value''\<rparr>"

lemma consensus_accepted:
  assumes ids: "\<forall>k \<in> set ks. is_authority k \<and> length k = 20" "distinct ks" "5 \<le> length ks" and now: "now < 10800"
  shows "parse_and_verify plain_crypto (consensus_doc ks) (map cert_of ks) now = Inr (body_consensus ks)"
proof -
  obtain k ls where ks: "ks = k # ls" using ids(3) by (cases ks) auto
  have len: "list_all (\<lambda>k. length k = 20) (k # ls)" using ids(1) ks by (simp add: list_all_iff)
  have "lines (consensus_doc ks) = ''network-status-version 3 microdesc'' # tl body_lines @ concat (map sig_lines ks)"
    unfolding consensus_doc_def lines_doc_of [OF consensus_plain] by (simp add: body_lines_def)
  moreover have "consensus_signers plain_crypto (consensus_doc ks) signed_at (map cert_of ks) = ks"
    unfolding consensus_signers_def ks consensus_tail [OF len] unfolding ks [symmetric]
    using count_signers [of ks ks "[]"] ids by simp
  moreover have "required_signatures = 5" by (simp add: required_signatures_def AUTHORITIES_def)
  moreover have "\<not> 10800 \<le> now" using now by simp
  moreover have "body_routers \<noteq> []" by (simp add: body_routers_def)
  ultimately show ?thesis
    unfolding parse_and_verify_def body_timestamps and_then_simps
    using consensus_signed_length [of k ls] body_routers_parse [of k ls] ids(3) unfolding ks [symmetric]
    by (simp add: body_consensus_def Let_def)
qed

section \<open>Fetching them\<close>

definition certs_doc :: "bytes list \<Rightarrow> string" where
  "certs_doc ks = concat (map (\<lambda>k. cert_doc k @ [newline]) ks)"

lemma serialize_certs:
  assumes "\<forall>k \<in> set ks. is_authority k \<and> length k = 20" "distinct (acc @ ks)"
  shows "serialize_loop (map (\<lambda>k. (k, k)) acc) (map cert_of ks) = certs_doc ks"
  using assms
proof (induction ks arbitrary: acc)
  case (Cons k ks)
  have "genuine plain_crypto 0 (cert_of k)" using Cons.prems(1) by (intro cert_of_genuine) simp_all
  then have "trim_end (cert_doc k) = cert_doc k" using genuine_text_end by fastforce
  then show ?case using Cons.IH [of "acc @ [k]"] Cons.prems by (auto simp: certs_doc_def Let_def)
qed (simp add: certs_doc_def)

lemma first_of_each_certs:
  "distinct (acc @ ks) \<Longrightarrow> first_of_each (map (\<lambda>k. (k, k)) acc) (map cert_of ks) = map cert_of ks"
proof (induction ks arbitrary: acc)
  case (Cons k ks)
  then show ?case using Cons.IH [of "acc @ [k]"] by (auto simp: Let_def)
qed simp

lemma ascii_doc: "list_all (list_all (\<lambda>c. code c < 128)) ls \<Longrightarrow> list_all (\<lambda>c. code c < 128) (doc_of ls)"
  by (induction ls) (auto simp: code_def)

lemma ascii_text: "list_all (\<lambda>c. code c < 128) s \<Longrightarrow> valid_utf8 (as_bytes s)"
  by (rule valid_utf8_ascii) (auto simp: list_all_iff)

lemma ascii_parts: "list_all (\<lambda>c. code c < 128) (hex_encode bs)" "list_all (\<lambda>c. code c < 128) (base64_encode_unpadded bs)"
  unfolding list_all_iff using hex_chars base64_chars by fastforce+

lemma certs_doc_utf8: "valid_utf8 (as_bytes (certs_doc ks))"
proof (rule ascii_text)
  have "list_all (\<lambda>c. code c < 128) (cert_doc k)" for k
    unfolding cert_doc_def list_all_append
    by (intro conjI ascii_doc)
      (simp_all add: identity_lines_def key_lines_def signing_lines_def pem_lines_def pem_begin_def pem_end_def expires_line_def
        ascii_parts, simp_all add: code_def)
  then show "list_all (\<lambda>c. code c < 128) (certs_doc ks)"
    by (induction ks) (simp_all add: certs_doc_def, simp_all add: code_def)
qed

lemma consensus_doc_utf8: "valid_utf8 (as_bytes (consensus_doc ks))"
proof (rule ascii_text)
  have "list_all (list_all (\<lambda>c. code c < 128)) body_lines" by (simp add: body_lines_def) (simp add: code_def)
  moreover have "list_all (list_all (\<lambda>c. code c < 128)) (sig_lines k)" for k
    by (simp add: sig_lines_def sig_args_def signature_keyword_def pem_lines_def pem_begin_def pem_end_def ascii_parts)
      (simp add: code_def)
  ultimately show "list_all (\<lambda>c. code c < 128) (consensus_doc ks)"
    unfolding consensus_doc_def by (intro ascii_doc) (induction ks, simp_all)
qed

section \<open>A first start and a restart\<close>

definition five :: "bytes list" where "five = map auth_v3ident (take 5 AUTHORITIES)"

definition voting_server :: server where
  "voting_server path headers = Inr (as_bytes (if path = CONSENSUS_PATH then consensus_doc five else certs_doc five))"

definition empty_disk :: disk where
  "empty_disk = \<lparr>files = [], no_dir = None, unreadable = None, write_fault = (\<lambda>_. Fine), stuck = (\<lambda>_. False)\<rparr>"

lemma five_ids: "\<forall>k \<in> set five. is_authority k \<and> length k = 20" "distinct five" "length five = 5"
  by (simp_all add: five_def AUTHORITIES_def is_authority_def)

lemma five_shape: "\<exists>k ks. five = k # ks"
  by (simp add: five_def AUTHORITIES_def)

lemma five_certificates:
  "parse_key_certificates plain_crypto (certs_doc five) 0 = map cert_of five" "serialize (map cert_of five) = certs_doc five"
proof -
  have s: "serialize (map cert_of five) = certs_doc five" using serialize_certs [of five "[]"] five_ids by (simp add: serialize_def)
  have g: "list_all (genuine plain_crypto 0) (map cert_of five)"
    using cert_of_genuine five_ids(1) by (simp add: list_all_iff)
  then show "parse_key_certificates plain_crypto (certs_doc five) 0 = map cert_of five"
    unfolding s [symmetric] parse_serialize [OF g] using first_of_each_certs [of "[]" five] five_ids(2) by simp
  show "serialize (map cert_of five) = certs_doc five" by (rule s)
qed

lemma required_five: "required_certificates (consensus_doc five) = map (\<lambda>k. (k, k)) five"
proof -
  obtain k ks where ks: "five = k # ks" using five_shape by blast
  have len: "list_all (\<lambda>k. length k = 20) (k # ks)" using five_ids(1) ks by (simp add: list_all_iff)
  have "filter (\<lambda>sg. is_authority (sig_identity sg)) (map sig_of five) = map sig_of five"
    using five_ids(1) by (auto simp: filter_id_conv sig_of_def)
  then show ?thesis
    unfolding required_certificates_def ks consensus_signed_length sum.case consensus_tail [OF len] unfolding ks [symmetric]
    by (simp add: sig_of_def)
qed

lemma first_download:
  "download plain_crypto sha3 voting_server 0 None [] empty_disk =
     (Inr \<lparr>dir_consensus = body_consensus five, dir_certs = map cert_of five\<rparr>, store_both (certs_doc five) (consensus_doc five) empty_disk)"
proof -
  obtain k ks where ks: "five = k # ks" using five_shape by blast
  have "download_full voting_server = Inr (consensus_doc five)"
    by (simp add: download_full_def voting_server_def string_from_utf8_def consensus_doc_utf8)
  moreover have other: "certificates_path missing \<noteq> CONSENSUS_PATH" for missing
    by (simp add: certificates_path_def CONSENSUS_PATH_def)
  have "certificates_for plain_crypto voting_server (consensus_doc five) 0 [] = Inr (map cert_of five)"
    unfolding certificates_for_def required_five Let_def
    using five_certificates by (simp add: ks [symmetric] voting_server_def other serialize_def from_utf8_lossy_text certs_doc_utf8)
      (simp add: ks)
  moreover have "parse_and_verify plain_crypto (consensus_doc five) (map cert_of five) 0 = Inr (body_consensus five)"
    using consensus_accepted five_ids by simp
  ultimately show ?thesis
    by (simp add: download_def store_both_def five_certificates Let_def)
qed

theorem restart_finds_directory_witness:
  "dir_bootstrap plain_crypto (\<lambda>_. []) (Inl disk_error) 100 (store_both (certs_doc five) (consensus_doc five) empty_disk) =
     (Inr \<lparr>dir_consensus = body_consensus five, dir_certs = map cert_of five\<rparr>, store_both (certs_doc five) (consensus_doc five) empty_disk)"
proof -
  have h: "healthy name empty_disk" for name by (simp add: healthy_def empty_disk_def)
  have "\<forall>c \<in> set (map cert_of five). cert_parse plain_crypto (cert_text c) 100 = Inr c"
    using cert_doc_parse five_ids(1) by simp
  then show ?thesis
    using restart_finds_directory [OF first_download [of "\<lambda>_. []"] h h, of 100 "\<lambda>_. []" "Inl disk_error"]
      first_of_each_certs [of "[]" five] five_ids(2)
    by (simp add: store_both_reads h certs_doc_utf8 consensus_doc_utf8 body_consensus_def)
qed

end
