(* ===== verification/Stream_State.thy ===== *)
theory Stream_State
  imports Circuit_State
begin

text \<open>
  A stream on its circuit, from \<^verbatim>\<open>src/tor/circuit.rs\<close>: reading from its buffer, sending on it,
  releasing back-pressure and closing it, and the circuit as a state machine over all the
  operations that any thread can perform on it.

  Waiting on a condition variable is a step that answers nothing yet: the operation is then tried
  again with \<open>woken\<close> set, when the environment has moved. The random source of the \<open>k\<close>-th cell of an
  operation is \<open>rngs k\<close>.
\<close>

section \<open>End reasons\<close>

definition end_error_kind :: "u8 \<Rightarrow> error_kind" where
  "end_error_kind r =
     (if r = END_REASON_CONNECTREFUSED then ConnectionRefused
      else if r = END_REASON_TIMEOUT then TimedOut
      else if r = END_REASON_RESOLVEFAILED \<or> r = END_REASON_NOROUTE then NotFound
      else if r = END_REASON_EXITPOLICY then PermissionDenied
      else Other)"

definition stream_end :: "u8 \<Rightarrow> io_error" where
  "stream_end r = EndError (end_error_kind r) r"

fun is_stream_end :: "io_error \<Rightarrow> bool" where
  "is_stream_end (EndError k r) \<longleftrightarrow> True"
| "is_stream_end (IoError k m) \<longleftrightarrow> False"

definition end_reason_name :: "u8 \<Rightarrow> string" where
  "end_reason_name r =
     (let names = [''MISC'', ''RESOLVEFAILED'', ''CONNECTREFUSED'', ''EXITPOLICY'', ''DESTROY'', ''DONE'',
                   ''TIMEOUT'', ''NOROUTE'', ''HIBERNATING'', ''INTERNAL'', ''RESOURCELIMIT'', ''CONNRESET'',
                   ''TORPROTOCOL'', ''NOTDIRECTORY'']
      in if 1 \<le> unat r \<and> unat r \<le> 14 then names ! (unat r - 1) else ''UNKNOWN'')"

section \<open>Reading\<close>

abbreviation buf_at :: "inner \<Rightarrow> nat \<Rightarrow> stream_buf" where
  "buf_at i r \<equiv> buf (shared i ! r)"

definition set_buf :: "nat \<Rightarrow> stream_buf \<Rightarrow> inner \<Rightarrow> inner" where
  "set_buf r b i = i\<lparr>shared := (shared i)[r := (shared i ! r)\<lparr>buf := b\<rparr>]\<rparr>"

text \<open>
  One pass of \<^verbatim>\<open>read_stream\<close>'s loop for at most \<open>n\<close> bytes; \<open>quiet\<close> says that the reader has waited
  \<^verbatim>\<open>QUIET_BEFORE_PROBE\<close>. A pass after a wait looks at the circuit first.
\<close>

definition read_stream ::
    "bool \<Rightarrow> bool \<Rightarrow> nat \<Rightarrow> nat \<Rightarrow> inner \<Rightarrow> bytes io_result attempt \<times> inner" where
  "read_stream woken quiet n r i =
     (if woken \<and> is_closed i \<and> data (buf_at i r) = [] then (Done (Inl circuit_closed), i)
      else
        let i = (if woken \<and> quiet then i\<lparr>meter := (meter i)\<lparr>wants_probe := True\<rparr>\<rparr> else i);
            b = buf_at i r
        in if data b \<noteq> [] then (Done (Inr (take n (data b))), set_buf r (b\<lparr>data := drop n (data b)\<rparr>) i)
           else case error b of
             Some e \<Rightarrow> (Done (Inl (IoError ConnectionAborted e)), i)
           | None \<Rightarrow>
               (case ended b of
                  Some reason \<Rightarrow>
                    (Done (if reason = END_REASON_DONE \<or> reason = END_REASON_MISC then Inr []
                           else Inl (stream_end reason)), i)
                | None \<Rightarrow> (Blocked, i)))"

section \<open>Sending\<close>

text \<open>The stream's part of \<^verbatim>\<open>send_stream_data\<close>: one pass of its loop, up to the window it takes.\<close>

definition take_window :: "bool \<Rightarrow> bool \<Rightarrow> nat \<Rightarrow> inner \<Rightarrow> unit io_result attempt \<times> inner" where
  "take_window woken late r i =
     (let b = buf_at i r in
      if woken \<and> is_closed i then (Done (Inl circuit_closed), i)
      else if package_window b \<le> 0 then
        (case ended b of
           Some reason \<Rightarrow> (Done (Inl (stream_end reason)), i)
         | None \<Rightarrow>
             (case error b of
                Some e \<Rightarrow> (Done (Inl (IoError ConnectionAborted e)), i)
              | None \<Rightarrow>
                  if late then (Done (Inl (IoError TimedOut ''stream send window stayed empty'')), i)
                  else (Blocked, i)))
      else case ended b of
        Some reason \<Rightarrow> (Done (Inl (stream_end reason)), i)
      | None \<Rightarrow> (Done (Inr ()), set_buf r (b\<lparr>package_window := wrap_i32 (package_window b - 1)\<rparr>) i))"

text \<open>
  \<open>send_stream_data\<close> when neither of its two waits is needed or they are over. \<open>Blocked\<close> after the
  window was taken is the wait inside \<open>send_data\<close>.
\<close>

definition send_stream_data ::
    "crypto \<Rightarrow> (nat \<Rightarrow> bytes io_result) \<Rightarrow> nat \<Rightarrow> bool \<Rightarrow> bool \<Rightarrow> nat \<Rightarrow> bytes \<Rightarrow> inner \<Rightarrow>
     unit io_result attempt \<times> inner" where
  "send_stream_data C rng t woken late r chunk i =
     (case take_window woken late r i of
        (Blocked, i) \<Rightarrow> (Blocked, i)
      | (Done (Inl e), i) \<Rightarrow> (Done (Inl e), i)
      | (Done (Inr _), i) \<Rightarrow>
          (case send_data C rng t late (stream_hop (shared i ! r)) (stream_id (shared i ! r)) chunk i of
             Blocked \<Rightarrow> (Blocked, i)
           | Done (res, i) \<Rightarrow> (Done res, i)))"

section \<open>Back-pressure\<close>

definition xon_body :: bytes where
  "xon_body = [0] @ u32_to_be 0"

function (sequential) release_windows ::
    "crypto \<Rightarrow> (nat \<Rightarrow> nat \<Rightarrow> bytes io_result) \<Rightarrow> nat \<Rightarrow> nat \<Rightarrow> inner \<Rightarrow> unit io_result \<times> inner" where
  "release_windows C rngs k r i =
     (let b = buf_at i r;
          backlog_low = (int (length (data b)) \<le> STREAM_WINDOW_INCREMENT * int RELAY_DATA_MAX)
      in if unacked b < STREAM_WINDOW_INCREMENT \<or> \<not> backlog_low \<or> r \<ge> length (shared i) then (Inr (), i)
         else
           let i = set_buf r (b\<lparr>unacked := unacked b - STREAM_WINDOW_INCREMENT,
                     deliver_window := wrap_i32 (deliver_window b + STREAM_WINDOW_INCREMENT)\<rparr>) i
           in (case send_relay C (rngs k) (stream_hop (shared i ! r)) RELAY_SENDME (stream_id (shared i ! r)) [] False i of
                 (Inl e, i) \<Rightarrow> (Inl e, i)
               | (Inr _, i) \<Rightarrow> release_windows C rngs (Suc k) r i))"
  by pat_completeness auto
termination
proof (relation "measure (\<lambda>(C, rngs, k, r, i). nat (unacked (buf_at i r)))", goal_cases)
  case (2 C rngs k r i b low i1 res i2 u)
  then have "send_relay C (rngs k) (stream_hop (shared i1 ! r)) RELAY_SENDME (stream_id (shared i1 ! r)) [] False i1 = (Inr u, i2)"
    by simp
  from send_relay_frame(2) [OF this] 2 show ?case
    by (auto simp: set_buf_def STREAM_WINDOW_INCREMENT_def)
qed simp

declare release_windows.simps [simp del]

definition release_backpressure ::
    "crypto \<Rightarrow> (nat \<Rightarrow> nat \<Rightarrow> bytes io_result) \<Rightarrow> nat \<Rightarrow> inner \<Rightarrow> unit io_result \<times> inner" where
  "release_backpressure C rngs r i =
     (case stream_xoff (shared i ! r) of
        Some limit \<Rightarrow>
          (let b = buf_at i r in
           if \<not> xoff_sent b \<or> length (data b) > limit div 2 then (Inr (), i)
           else send_relay C (rngs 0) (stream_hop (shared i ! r)) RELAY_XON (stream_id (shared i ! r)) xon_body False
                  (set_buf r (b\<lparr>xoff_sent := False\<rparr>) i))
      | None \<Rightarrow> release_windows C rngs 0 r i)"

section \<open>Closing a stream\<close>

definition close_stream :: "crypto \<Rightarrow> (nat \<Rightarrow> bytes io_result) \<Rightarrow> nat \<Rightarrow> inner \<Rightarrow> inner" where
  "close_stream C rng r i =
     (let s = shared i ! r;
          (_, i) = send_relay C rng (stream_hop s) RELAY_END (stream_id s) [END_REASON_DONE] False i;
          i = i\<lparr>streams := (streams i)(stream_id s := None)\<rparr>;
          b = buf_at i r
      in set_buf r (if ended b = None then b\<lparr>ended := Some END_REASON_DONE\<rparr> else b) i)"

section \<open>The circuit as a state machine\<close>

text \<open>Adding a hop: \<^verbatim>\<open>do_create\<close>, \<^verbatim>\<open>extend_with\<close> and \<^verbatim>\<open>add_virtual_hop\<close> all end in this push.\<close>

definition push_hop :: "hop \<Rightarrow> inner \<Rightarrow> inner" where
  "push_hop h i = i\<lparr>cstate := (cstate i)\<lparr>hops := hops (cstate i) @ [h]\<rparr>\<rparr>"

definition add_virtual_hop :: "circuit_keys \<Rightarrow> inner \<Rightarrow> inner" where
  "add_virtual_hop keys i = push_hop (virtual_hop keys) i"

inductive circ_step :: "crypto \<Rightarrow> inner \<Rightarrow> inner \<Rightarrow> bool" for C where
  cell: "\<not> down i \<Longrightarrow> handle_cell C env c i = (Inr u, i') \<Longrightarrow> circ_step C i i'"
| cell_fails: "\<not> down i \<Longrightarrow> handle_cell C env c i = (Inl e, i1) \<Longrightarrow> circ_step C i (pump_end i1)"
| pump_stops: "circ_step C i (pump_end i)"
| relay: "send_relay C rng hop cmd sid bs early i = (r, i') \<Longrightarrow> circ_step C i i'"
| "data": "send_data C rng t late hop sid bs i = Done (r, i') \<Longrightarrow> circ_step C i i'"
| stream_opens: "open_stream C rng cmd bs i = (r, i') \<Longrightarrow> circ_step C i i'"
| stream_reads: "read_stream woken quiet n ref i = (r, i') \<Longrightarrow> ref < length (shared i) \<Longrightarrow> circ_step C i i'"
| stream_sends: "send_stream_data C rng t woken late ref chunk i = (r, i') \<Longrightarrow> ref < length (shared i) \<Longrightarrow> circ_step C i i'"
| stream_releases: "release_backpressure C rngs ref i = (r, i') \<Longrightarrow> ref < length (shared i) \<Longrightarrow> circ_step C i i'"
| stream_closes: "ref < length (shared i) \<Longrightarrow> circ_step C i (close_stream C rng ref i)"
| closes: "circ_step C i (close_circuit i)"
| gains_hop: "circ_step C i (push_hop h i)"
| agrees: "circ_step C i (i\<lparr>cstate := (cstate i)\<lparr>flow := f\<rparr>\<rparr>)"
| takes_handshake: "circ_step C i (i\<lparr>cstate := (cstate i)\<lparr>handshake := None\<rparr>\<rparr>)"
| takes_control: "take_control cmd (cstate i) = (r, s) \<Longrightarrow> circ_step C i (i\<lparr>cstate := s\<rparr>)"
| channel_closes: "circ_step C i (i\<lparr>chan := (chan i)\<lparr>chan_closed := True\<rparr>\<rparr>)"
| probed: "circ_step C i (i\<lparr>meter := (meter i)\<lparr>wants_probe := False\<rparr>\<rparr>)"

inductive circ_reachable :: "crypto \<Rightarrow> nat \<Rightarrow> inner \<Rightarrow> bool" for C cid where
  start: "circ_reachable C cid (new_on cid)"
| step: "circ_reachable C cid i \<Longrightarrow> circ_step C i i' \<Longrightarrow> circ_reachable C cid i'"

lemma set_buf_inv [circ_inv_intros]:
  "circ_inv i \<Longrightarrow> buf_ok b \<Longrightarrow> circ_inv (set_buf r b i)"
  by (simp add: circ_inv_def set_buf_def table_ok_store bufs_ok_update)

lemma circ_inv_buf: "circ_inv i \<Longrightarrow> r < length (shared i) \<Longrightarrow> buf_ok (buf_at i r)"
  by (simp add: circ_inv_def bufs_ok_def)

lemma circ_inv_meter [circ_inv_intros]: "circ_inv i \<Longrightarrow> circ_inv (i\<lparr>meter := m\<rparr>)"
  by (simp add: circ_inv_def)

lemma read_stream_inv [circ_inv_intros]:
  "circ_inv i \<Longrightarrow> r < length (shared i) \<Longrightarrow> read_stream woken quiet n r i = (res, i') \<Longrightarrow> circ_inv i'"
  by (auto simp: read_stream_def Let_def circ_inv_buf split: if_splits option.splits intro!: set_buf_inv circ_inv_meter)

lemma take_window_inv:
  assumes "circ_inv i" and "r < length (shared i)" and "take_window woken late r i = (res, i')"
  shows "circ_inv i'" and "length (shared i') = length (shared i)"
  using assms circ_inv_buf [OF assms(1,2)]
  by (auto simp: take_window_def Let_def split: if_splits option.splits intro!: set_buf_inv) (simp_all add: set_buf_def)

lemma send_stream_data_inv [circ_inv_intros]:
  assumes "circ_inv i" and "r < length (shared i)" and "send_stream_data C rng t woken late r chunk i = (res, i')"
  shows "circ_inv i'"
proof -
  obtain w i1 where w: "take_window woken late r i = (w, i1)" by fastforce
  note inv = take_window_inv(1) [OF assms(1,2) w]
  show ?thesis
    using assms(3) w inv send_data_inv [OF inv]
    by (auto simp: send_stream_data_def split: attempt.splits sum.splits)
qed

lemma buf_ok_ack:
  "buf_ok b \<Longrightarrow> buf_ok (b\<lparr>unacked := unacked b - k, deliver_window := wrap_i32 (deliver_window b + k)\<rparr>)"
  by (simp add: buf_ok_def wrap_i32_add_wrap)

lemma release_windows_inv:
  "circ_inv i \<Longrightarrow> release_windows C rngs k r i = (res, i') \<Longrightarrow> circ_inv i'"
proof (induction C rngs k r i arbitrary: res rule: release_windows.induct)
  case (1 C rngs k r i)
  let ?b = "buf_at i r"
  let ?i = "set_buf r (?b\<lparr>unacked := unacked ?b - STREAM_WINDOW_INCREMENT,
                     deliver_window := wrap_i32 (deliver_window ?b + STREAM_WINDOW_INCREMENT)\<rparr>) i"
  show ?case
  proof (cases "unacked ?b < STREAM_WINDOW_INCREMENT \<or> \<not> (int (length (data ?b)) \<le> STREAM_WINDOW_INCREMENT * int RELAY_DATA_MAX)
      \<or> r \<ge> length (shared i)")
    case True
    then show ?thesis using 1(2,3) by (subst (asm) release_windows.simps) (auto simp: Let_def)
  next
    case False
    then have inv: "circ_inv ?i"
      using 1(2) by (intro set_buf_inv buf_ok_ack circ_inv_buf) auto
    obtain a i2 where s: "send_relay C (rngs k) (stream_hop (shared ?i ! r)) RELAY_SENDME (stream_id (shared ?i ! r)) [] False ?i = (a, i2)"
      by fastforce
    note inv2 = send_relay_inv [OF inv s]
    show ?thesis
      using 1(3) False s inv2 1(1) [OF refl refl _ refl s [symmetric]]
      by (subst (asm) release_windows.simps) (cases a; auto simp: Let_def)
  qed
qed

lemma release_backpressure_inv [circ_inv_intros]:
  assumes "circ_inv i" and "r < length (shared i)" and "release_backpressure C rngs r i = (res, i')"
  shows "circ_inv i'"
proof -
  have "circ_inv (set_buf r ((buf_at i r)\<lparr>xoff_sent := False\<rparr>) i)"
    using assms(1,2) by (intro set_buf_inv) (simp_all add: circ_inv_buf)
  then show ?thesis
    using assms release_windows_inv [OF assms(1)]
    by (auto simp: release_backpressure_def Let_def split: option.splits if_splits intro: send_relay_inv)
qed

lemma close_stream_inv [circ_inv_intros]:
  assumes "circ_inv i" and "r < length (shared i)"
  shows "circ_inv (close_stream C rng r i)"
proof -
  let ?s = "shared i ! r"
  obtain res i1 where s: "send_relay C rng (stream_hop ?s) RELAY_END (stream_id ?s) [END_REASON_DONE] False i = (res, i1)"
    by fastforce
  let ?i2 = "i1\<lparr>streams := (streams i1)(stream_id ?s := None)\<rparr>"
  have inv: "circ_inv ?i2"
    by (rule drop_entry_inv [OF send_relay_inv [OF assms(1) s]])
  moreover have "buf_ok (buf_at ?i2 r)"
    by (rule circ_inv_buf [OF inv]) (simp add: assms(2) send_relay_frame(2) [OF s])
  ultimately show ?thesis
    using s by (auto simp: close_stream_def Let_def intro!: set_buf_inv)
qed

lemma push_hop_inv [circ_inv_intros]: "circ_inv i \<Longrightarrow> circ_inv (push_hop h i)"
  by (simp add: circ_inv_def push_hop_def state_ok_def)

lemma take_control_state_ok:
  assumes "state_ok s" and "take_control cmd s = (r, s')"
  shows "state_ok s'" and "relay_early_left s' = relay_early_left s"
  using assms position_SomeD [of "\<lambda>(c, _). c = cmd" "control s"]
  by (auto simp: take_control_def state_ok_def split: option.splits)

lemma circ_step_inv: "circ_step C i i' \<Longrightarrow> circ_inv i \<Longrightarrow> circ_inv i'"
proof (induction rule: circ_step.induct)
  case (takes_control cmd i r s)
  then show ?case
    using take_control_state_ok [of "cstate i" cmd r s] by (intro circ_inv_cstate) (auto simp: circ_inv_def)
next
  case (channel_closes i)
  then show ?case by (simp add: circ_inv_def)
next
  case (cell_fails i env c e i1)
  then show ?case by (blast intro: pump_end_inv handle_cell_inv)
qed (blast intro: circ_inv_intros)+

lemma circ_reachable_inv: "circ_reachable C cid i \<Longrightarrow> circ_inv i"
  by (induction rule: circ_reachable.induct) (blast intro: new_on_inv circ_step_inv)+

inductive_cases circ_stepE: "circ_step C i i'"

lemma inner_id_build: "send_relay C rng hop cmd sid bs early i = (r, i') \<Longrightarrow> inner_id i' = inner_id i"
  by (rule send_relay_frame)

section \<open>Properties\<close>


text \<open>
  A read takes the oldest bytes and loses none: what it returns followed by what stays is what
  was there. An error, an end of stream or a wait is only ever answered when the buffer is
  empty, and the end of the stream only for a clean close.
\<close>

theorem read_stream_outcomes:
  assumes "read_stream woken quiet n r i = (res, i')" and "r < length (shared i)" and "0 < n"
  shows "case res of
      Done (Inr bs) \<Rightarrow> bs @ data (buf_at i' r) = data (buf_at i r) \<and> length bs \<le> n \<and>
        (bs = [] \<longrightarrow> data (buf_at i r) = [] \<and> (ended (buf_at i r) = Some END_REASON_DONE \<or> ended (buf_at i r) = Some END_REASON_MISC))
    | Done (Inl e) \<Rightarrow> data (buf_at i r) = [] \<and> shared i' = shared i \<and>
        (error (buf_at i r) \<noteq> None \<or> ended (buf_at i r) \<noteq> None \<or> is_closed i)
    | Blocked \<Rightarrow> data (buf_at i r) = [] \<and> shared i' = shared i \<and> error (buf_at i r) = None \<and> ended (buf_at i r) = None"
  using assms
  by (auto simp: read_stream_def Let_def set_buf_def split: if_splits option.splits)

lemma release_windows_effect:
  assumes "r < length (shared i)" and "\<not> chan_closed (chan i)" and "stream_hop (shared i ! r) < length (hops (cstate i))"
    and "\<And>k. good_rng (rngs k)" and "digest_sizes C"
    and "int (length (data (buf_at i r))) \<le> STREAM_WINDOW_INCREMENT * int RELAY_DATA_MAX" and "0 \<le> unacked (buf_at i r)"
  shows "\<exists>i'. release_windows C rngs k r i = (Inr (), i') \<and>
     unacked (buf_at i' r) = unacked (buf_at i r) mod STREAM_WINDOW_INCREMENT \<and>
     int (length (chan_sent (chan i'))) = int (length (chan_sent (chan i))) + unacked (buf_at i r) div STREAM_WINDOW_INCREMENT"
  using assms(1-3,6,7)
proof (induction "nat (unacked (buf_at i r))" arbitrary: i k rule: less_induct)
  case less
  let ?b = "buf_at i r"
  let ?i = "set_buf r (?b\<lparr>unacked := unacked ?b - STREAM_WINDOW_INCREMENT,
                     deliver_window := wrap_i32 (deliver_window ?b + STREAM_WINDOW_INCREMENT)\<rparr>) i"
  show ?case
  proof (cases "unacked ?b < STREAM_WINDOW_INCREMENT")
    case True
    then show ?thesis using less.prems by (subst release_windows.simps) (simp add: Let_def STREAM_WINDOW_INCREMENT_def)
  next
    case False
    have [simp]: "stream_hop (shared ?i ! r) = stream_hop (shared i ! r)" "stream_id (shared ?i ! r) = stream_id (shared i ! r)"
      "unacked (buf_at ?i r) = unacked ?b - STREAM_WINDOW_INCREMENT" "data (buf_at ?i r) = data ?b" "chan ?i = chan i"
      "cstate ?i = cstate i" "length (shared ?i) = length (shared i)"
      using less.prems(1) by (simp_all add: set_buf_def)
    obtain c i2 where s: "send_relay C (rngs k) (stream_hop (shared i ! r)) RELAY_SENDME (stream_id (shared i ! r)) [] False ?i = (Inr (), i2)"
      and sent: "chan_sent (chan i2) = chan_sent (chan i) @ [c]"
      using send_relay_ok [of ?i "[]" "stream_hop (shared i ! r)" "rngs k" C RELAY_SENDME "stream_id (shared i ! r)"] assms(4,5) less.prems
      by auto
    note frame = send_relay_frame [OF s]
    have i2: "unacked (buf_at i2 r) = unacked ?b - STREAM_WINDOW_INCREMENT" "data (buf_at i2 r) = data ?b"
      "stream_hop (shared i2 ! r) = stream_hop (shared i ! r)" "r < length (shared i2)" "\<not> chan_closed (chan i2)"
      "length (hops (cstate i2)) = length (hops (cstate i))"
      using frame less.prems(1,2) by simp_all
    moreover have "nat (unacked (buf_at i2 r)) < nat (unacked ?b)" "0 \<le> unacked (buf_at i2 r)"
      using False i2(1) by (simp_all add: STREAM_WINDOW_INCREMENT_def)
    ultimately obtain i' where "release_windows C rngs (Suc k) r i2 = (Inr (), i')"
      "unacked (buf_at i' r) = unacked (buf_at i2 r) mod STREAM_WINDOW_INCREMENT"
      "int (length (chan_sent (chan i'))) = int (length (chan_sent (chan i2))) + unacked (buf_at i2 r) div STREAM_WINDOW_INCREMENT"
      using less.hyps [of i2 "Suc k"] less.prems(3,4) by auto
    moreover have "release_windows C rngs k r i = release_windows C rngs (Suc k) r i2"
      using False less.prems s by (subst release_windows.simps) (simp add: Let_def)
    ultimately show ?thesis
      using False sent i2(1) div_pos_geq [of 50 "unacked ?b"] mod_pos_geq [of 50 "unacked ?b"]
      by (auto simp: STREAM_WINDOW_INCREMENT_def)
  qed
qed


text \<open>
  Under the window scheme, when a reader has drained the backlog, releasing back-pressure ends
  and sends exactly one stream SENDME for each whole increment of unacknowledged cells, leaving
  less than one increment unacknowledged.
\<close>

theorem release_acknowledges_whole_increments:
  assumes "stream_xoff (shared i ! r) = None" and "r < length (shared i)" and "\<not> chan_closed (chan i)"
    and "stream_hop (shared i ! r) < length (hops (cstate i))" and "\<forall>k. good_rng (rngs k)" and "digest_sizes C"
    and "int (length (data (buf_at i r))) \<le> STREAM_WINDOW_INCREMENT * int RELAY_DATA_MAX" and "0 \<le> unacked (buf_at i r)"
  shows "\<exists>i'. release_backpressure C rngs r i = (Inr (), i') \<and>
     unacked (buf_at i' r) = unacked (buf_at i r) mod STREAM_WINDOW_INCREMENT \<and>
     int (length (chan_sent (chan i'))) = int (length (chan_sent (chan i))) + unacked (buf_at i r) div STREAM_WINDOW_INCREMENT"
  using release_windows_effect [of r i rngs C 0] assms by (simp add: release_backpressure_def)

text \<open>
  An XOFF from the far end has no effect on sending: whether the stream's \<open>send_blocked\<close> mark is
  set or not, sending on it takes a window, is refused or waits in exactly the same cases.
\<close>

theorem xoff_does_not_stop_sending:
  assumes "r < length (shared i)"
  shows "fst (take_window woken late r (set_buf r ((buf_at i r)\<lparr>send_blocked := True\<rparr>) i)) = fst (take_window woken late r i)"
  using assms by (auto simp: take_window_def set_buf_def is_closed_def Let_def split: option.split)

section \<open>Witnesses\<close>

lemma circ_reachable_steps:
  "circ_reachable C cid i \<Longrightarrow> circ_step C i i' \<Longrightarrow> circ_step C i' i'' \<Longrightarrow> circ_reachable C cid i''"
  by (blast intro: circ_reachable.step)


end
