(* ===== verification/Path_Selection.thy ===== *)
theory Path_Selection
  imports Microdesc_Doc Random_Draws
begin

text \<open>
  Path selection, \<^verbatim>\<open>src/tor/path.rs\<close>: the constraints that keep related relays out of one path, the
  weighted draw and sampling without replacement, and the candidates for each position.
\<close>

definition USABLE :: flags where "USABLE = FLAG_RUNNING OR FLAG_VALID"
definition GUARD_FLAGS :: flags where "GUARD_FLAGS = USABLE OR FLAG_GUARD OR FLAG_STABLE OR FLAG_FAST"

section \<open>Constraints\<close>

record path_constraints =
  identities :: "bytes list"
  subnets :: "bytes list"
  families :: "bytes list list"

definition no_constraints :: path_constraints where
  "no_constraints = \<lparr>identities = [], subnets = [], families = []\<rparr>"

definition add_relay :: "bytes \<Rightarrow> bytes \<Rightarrow> bytes list \<Rightarrow> path_constraints \<Rightarrow> path_constraints" where
  "add_relay ident subnet fam c =
     c\<lparr>identities := identities c @ [ident], subnets := subnets c @ [subnet], families := families c @ [fam]\<rparr>"

definition family_or_none :: "microdesc option \<Rightarrow> bytes list" where
  "family_or_none md = (case md of None \<Rightarrow> [] | Some m \<Rightarrow> family m)"

definition add_router :: "router_status \<Rightarrow> microdesc option \<Rightarrow> path_constraints \<Rightarrow> path_constraints" where
  "add_router r md c = add_relay (identity r) (subnet16 r) (family_or_none md) c"

definition accepts_relay :: "path_constraints \<Rightarrow> bytes \<Rightarrow> bytes \<Rightarrow> bytes list \<Rightarrow> bool" where
  "accepts_relay c ident subnet fam \<longleftrightarrow>
     ident \<notin> set (identities c) \<and> subnet \<notin> set (subnets c) \<and>
     \<not> list_ex (\<lambda>f. ident \<in> set f) (families c) \<and> \<not> list_ex (\<lambda>i. i \<in> set (identities c)) fam"

definition accepts :: "path_constraints \<Rightarrow> router_status \<Rightarrow> microdesc option \<Rightarrow> bool" where
  "accepts c r md \<longleftrightarrow>
     (if identity r \<in> set (identities c) then False
      else if subnet16 r \<in> set (subnets c) then False
      else if list_ex (\<lambda>f. identity r \<in> set f) (families c) then False
      else (case md of
              None \<Rightarrow> True
            | Some m \<Rightarrow> \<not> list_ex (\<lambda>i. shares_family_with i m) (identities c)))"

section \<open>The weighted draw\<close>

datatype path_position = GuardPosition | MiddlePosition | ExitPosition

fun position_weight :: "path_position \<Rightarrow> bool \<Rightarrow> bool \<Rightarrow> bandwidth_weights \<Rightarrow> nat" where
  "position_weight GuardPosition True True w = wgd w"
| "position_weight GuardPosition True False w = wgg w"
| "position_weight GuardPosition False _ w = wgm w"
| "position_weight MiddlePosition True True w = wmd w"
| "position_weight MiddlePosition True False w = wmg w"
| "position_weight MiddlePosition False True w = wme w"
| "position_weight MiddlePosition False False w = wmm w"
| "position_weight ExitPosition True True w = wed w"
| "position_weight ExitPosition True False w = weg w"
| "position_weight ExitPosition False True w = wee w"
| "position_weight ExitPosition False False w = wem w"

definition weight_at :: "path_position \<Rightarrow> router_status \<Rightarrow> bandwidth_weights \<Rightarrow> nat" where
  "weight_at pos r w = position_weight pos (has FLAG_GUARD r) (has FLAG_EXIT r) w"

definition bandwidth_share :: "router_status \<Rightarrow> nat" where
  "bandwidth_share r = max (bandwidth r) 1"

definition weighted_bandwidth :: "path_position \<Rightarrow> bandwidth_weights \<Rightarrow> router_status \<Rightarrow> nat" where
  "weighted_bandwidth pos w r = max (bandwidth_share r * weight_at pos r w div WEIGHT_SCALE) 1"

text \<open>Walking the candidates with what is left of the pick; past the end it is the last of them.\<close>

fun pick_loop :: "(router_status \<Rightarrow> nat) \<Rightarrow> nat \<Rightarrow> router_status list \<Rightarrow> router_status option" where
  "pick_loop weight pick [] = None"
| "pick_loop weight pick (r # rs) = (if pick < weight r then Some r else pick_loop weight (pick - weight r) rs)"

definition choose_relay :: "router_status list \<Rightarrow> (router_status \<Rightarrow> nat) \<Rightarrow> router_status drawing" where
  "choose_relay candidates weight ds =
     (if candidates = [] then Some (Inl (invalid_data ''no relay matches the required flags''), ds)
      else (case below (wrap_u64 (sum_list (map weight candidates))) ds of
              None \<Rightarrow> None
            | Some (Inl e, ds') \<Rightarrow> Some (Inl e, ds')
            | Some (Inr pick, ds') \<Rightarrow>
                Some (Inr (case pick_loop weight pick candidates of Some r \<Rightarrow> r | None \<Rightarrow> last candidates), ds')))"

definition weighted_choice_at :: "router_status list \<Rightarrow> path_position \<Rightarrow> bandwidth_weights \<Rightarrow> router_status drawing" where
  "weighted_choice_at candidates pos w = choose_relay candidates (weighted_bandwidth pos w)"

text \<open>The draw by bandwidth alone, the reference of the tests.\<close>

definition weighted_choice :: "router_status list \<Rightarrow> router_status drawing" where
  "weighted_choice candidates = choose_relay candidates bandwidth_share"

section \<open>Sampling\<close>

text \<open>\<open>n\<close> is how many are still to be drawn, \<^verbatim>\<open>cnt - out.len()\<close>.\<close>

fun sample_loop :: "(router_status \<Rightarrow> nat) \<Rightarrow> nat \<Rightarrow> router_status list \<Rightarrow> router_status list \<Rightarrow> router_status list drawing" where
  "sample_loop weight 0 pool out ds = Some (Inr out, ds)"
| "sample_loop weight (Suc n) pool out ds =
     (if pool = [] then Some (Inr out, ds)
      else (case choose_relay pool weight ds of
              None \<Rightarrow> None
            | Some (Inl e, ds') \<Rightarrow> Some (Inl e, ds')
            | Some (Inr r, ds') \<Rightarrow> sample_loop weight n (filter (\<lambda>q. identity q \<noteq> identity r) pool) (out @ [r]) ds'))"

definition sample_with :: "router_status list \<Rightarrow> nat \<Rightarrow> (router_status \<Rightarrow> nat) \<Rightarrow> router_status list drawing" where
  "sample_with candidates cnt weight = sample_loop weight cnt candidates []"

definition sample_at :: "router_status list \<Rightarrow> nat \<Rightarrow> path_position \<Rightarrow> bandwidth_weights \<Rightarrow> router_status list drawing" where
  "sample_at candidates cnt pos w = sample_with candidates cnt (weighted_bandwidth pos w)"

section \<open>Candidates\<close>

definition guard_candidates :: "consensus \<Rightarrow> router_status list" where
  "guard_candidates c = filter (\<lambda>r. has GUARD_FLAGS r \<and> \<not> has FLAG_MIDDLE_ONLY r) (routers c)"

definition exit_candidates :: "consensus \<Rightarrow> path_constraints \<Rightarrow> router_status list" where
  "exit_candidates c cs =
     filter (\<lambda>r. has (USABLE OR FLAG_EXIT OR FLAG_FAST) r \<and> \<not> has FLAG_BAD_EXIT r \<and> \<not> has FLAG_MIDDLE_ONLY r \<and>
       accepts cs r None) (routers c)"

definition rendezvous_candidates :: "consensus \<Rightarrow> path_constraints \<Rightarrow> router_status list" where
  "rendezvous_candidates c cs = filter (\<lambda>r. has (USABLE OR FLAG_FAST OR FLAG_STABLE) r \<and> accepts cs r None) (routers c)"

definition middle_candidates :: "consensus \<Rightarrow> path_constraints \<Rightarrow> router_status list" where
  "middle_candidates c cs = filter (\<lambda>r. has (USABLE OR FLAG_FAST) r \<and> accepts cs r None) (routers c)"

section \<open>Lemmas on constraints\<close>

lemma has_or [simp]: "has (a OR b) r \<longleftrightarrow> has a r \<and> has b r"
  unfolding has_def bit_eq_iff by (auto simp: bit_and_iff bit_or_iff)

lemma accepts_eq: "accepts c r md \<longleftrightarrow> accepts_relay c (identity r) (subnet16 r) (family_or_none md)"
  by (cases md) (auto simp: accepts_def accepts_relay_def family_or_none_def shares_family_with_def list_ex_iff)

lemma add_relay_fields [simp]:
  "identities (add_relay i s f c) = identities c @ [i]"
  "subnets (add_relay i s f c) = subnets c @ [s]"
  "families (add_relay i s f c) = families c @ [f]"
  by (simp_all add: add_relay_def)

lemma no_constraints_fields [simp]:
  "identities no_constraints = []" "subnets no_constraints = []" "families no_constraints = []"
  by (simp_all add: no_constraints_def)

section \<open>Lemmas on the draw\<close>

text \<open>
  What the draw needs of a weight function, and what follows from it for every function that has it:
  each candidate is drawn for exactly its weight's share of the picks.
\<close>

lemma pick_loop_total:
  "pick < sum_list (map weight rs) \<Longrightarrow> \<exists>r \<in> set rs. pick_loop weight pick rs = Some r \<and> 0 < weight r"
proof (induction rs arbitrary: pick)
  case (Cons r rs)
  show ?case
  proof (cases "pick < weight r")
    case False
    then have "pick - weight r < sum_list (map weight rs)" using Cons.prems by simp
    with Cons.IH False show ?thesis by force
  qed auto
qed simp

lemma pick_loop_mem: "pick_loop weight pick rs = Some r \<Longrightarrow> r \<in> set rs"
  by (induction rs arbitrary: pick) (auto split: if_splits)

lemma pick_loop_count:
  assumes "distinct rs" and "r \<in> set rs"
  shows "card {pick. pick < sum_list (map weight rs) \<and> pick_loop weight pick rs = Some r} = weight r"
  using assms
proof (induction rs)
  case (Cons q rs)
  show ?case
  proof (cases "r = q")
    case True
    then have "{pick. pick < sum_list (map weight (q # rs)) \<and> pick_loop weight pick (q # rs) = Some r} = {..<weight r}"
      using Cons.prems(1) pick_loop_mem by (fastforce split: if_splits)
    then show ?thesis by simp
  next
    case False
    have "{pick. pick < sum_list (map weight (q # rs)) \<and> pick_loop weight pick (q # rs) = Some r} =
       (\<lambda>p. p + weight q) ` {pick. pick < sum_list (map weight rs) \<and> pick_loop weight pick rs = Some r}"
      (is "?A = ?f ` ?B")
    proof (intro equalityI subsetI)
      fix p assume "p \<in> ?A"
      then show "p \<in> ?f ` ?B"
        using False by (intro image_eqI [of _ _ "p - weight q"]) (auto split: if_splits)
    qed auto
    then show ?thesis
      using Cons False by (simp add: card_image)
  qed
qed simp

locale draw_weight =
  fixes weight :: "router_status \<Rightarrow> nat"
  assumes weight_pos: "0 < weight r"
    and weight_fits: "bandwidth r \<le> u32_max \<Longrightarrow> weight r \<le> u32_max"
begin

lemma total_pos: "rs \<noteq> [] \<Longrightarrow> 0 < sum_list (map weight rs)"
  using weight_pos by (cases rs) (auto simp: add_pos_nonneg)

lemma total_fits:
  assumes "\<forall>r \<in> set rs. bandwidth r \<le> u32_max" and "length rs \<le> u32_max"
  shows "sum_list (map weight rs) \<le> u64_max"
proof -
  have "sum_list (map weight rs) \<le> sum_list (map (\<lambda>_. u32_max) rs)"
    using assms(1) by (intro sum_list_mono) (simp add: weight_fits)
  also have "\<dots> \<le> u32_max * u32_max"
    using assms(2) by (simp add: sum_list_triv)
  finally show ?thesis by simp
qed

lemma choose_one:
  assumes "rs \<noteq> []" and "\<forall>r \<in> set rs. bandwidth r \<le> u32_max" and "length rs \<le> u32_max"
  shows "choose_relay rs weight [Inr v] = Some (Inr r, []) \<longleftrightarrow>
     (\<exists>k. below (sum_list (map weight rs)) [Inr v] = Some (Inr k, []) \<and> pick_loop weight k rs = Some r)"
proof -
  have t: "wrap_u64 (sum_list (map weight rs)) = sum_list (map weight rs)"
    using total_fits [OF assms(2,3)] by (rule wrap_u64_id)
  show ?thesis
  proof (cases "below (sum_list (map weight rs)) [Inr v]")
    case None
    then show ?thesis using assms(1) by (simp add: choose_relay_def t)
  next
    case (Some p)
    obtain k where p: "p = (Inr k, [])"
      using Some total_pos [OF assms(1)] by (auto simp: below_one split: if_splits)
    then have "k < sum_list (map weight rs)" using Some below_less by blast
    then obtain q where "pick_loop weight k rs = Some q" using pick_loop_total by blast
    then show ?thesis using Some p assms(1) by (simp add: choose_relay_def t)
  qed
qed

text \<open>The share of the random values that draw \<open>r\<close> at once.\<close>

lemma choose_share:
  assumes "distinct rs" and "r \<in> set rs" and "\<forall>r \<in> set rs. bandwidth r \<le> u32_max" and "length rs \<le> u32_max"
  shows "card {v. choose_relay rs weight [Inr v] = Some (Inr r, [])} = u64_max div sum_list (map weight rs) * weight r"
proof -
  let ?n = "sum_list (map weight rs)" and ?S = "{k. k < sum_list (map weight rs) \<and> pick_loop weight k rs = Some r}"
  have ne: "rs \<noteq> []" using assms(2) by auto
  have "{v. choose_relay rs weight [Inr v] = Some (Inr r, [])} = {v. \<exists>k \<in> ?S. below ?n [Inr v] = Some (Inr k, [])}"
    using choose_one [OF ne assms(3,4)] below_less by blast
  then show ?thesis
    using below_uniform [of ?S ?n] total_pos [OF ne] pick_loop_count [OF assms(1,2), of weight] by auto
qed

lemma choose_mem: "choose_relay rs weight ds = Some (Inr r, ds') \<Longrightarrow> r \<in> set rs"
  by (auto simp: choose_relay_def split: if_splits option.splits sum.splits dest: pick_loop_mem)

lemma sample_loop_result:
  assumes "sample_loop weight n pool out ds = Some (Inr rs, ds')"
    and "distinct (map identity out)" and "identity ` set out \<inter> identity ` set pool = {}"
  shows "distinct (map identity rs) \<and> set rs \<subseteq> set out \<union> set pool \<and>
     length rs = length out + min n (card (identity ` set pool))"
  using assms
proof (induction n arbitrary: pool out ds)
  case (Suc n)
  show ?case
  proof (cases "pool = []")
    case False
    then obtain r ds1 where r: "choose_relay pool weight ds = Some (Inr r, ds1)"
      and rest: "sample_loop weight n (filter (\<lambda>q. identity q \<noteq> identity r) pool) (out @ [r]) ds1 = Some (Inr rs, ds')"
      using Suc.prems(1) by (auto split: option.splits sum.splits)
    let ?pool = "filter (\<lambda>q. identity q \<noteq> identity r) pool"
    have mem: "r \<in> set pool" using choose_mem [OF r] .
    have "identity ` set ?pool = identity ` set pool - {identity r}" by auto
    then have card: "Suc (card (identity ` set ?pool)) = card (identity ` set pool)"
      using mem by (simp add: card_Suc_Diff1 del: card_Diff_insert)
    have "distinct (map identity (out @ [r]))" "identity ` set (out @ [r]) \<inter> identity ` set ?pool = {}"
      using Suc.prems(2,3) mem by auto
    then have "distinct (map identity rs) \<and> set rs \<subseteq> set (out @ [r]) \<union> set ?pool \<and>
       length rs = length (out @ [r]) + min n (card (identity ` set ?pool))"
      using Suc.IH [OF rest] by blast
    then show ?thesis using mem card by auto
  next
    case True
    then show ?thesis using Suc.prems by auto
  qed
qed auto

end

lemma weight_at_le: "weights_ok w \<Longrightarrow> weight_at pos r w \<le> WEIGHT_SCALE"
  unfolding weight_at_def weights_ok_def
  by (cases pos; cases "has FLAG_GUARD r"; cases "has FLAG_EXIT r") simp_all

lemma weighted_bandwidth_le: "weights_ok w \<Longrightarrow> weighted_bandwidth pos w r \<le> bandwidth_share r"
proof -
  assume "weights_ok w"
  then have "bandwidth_share r * weight_at pos r w div WEIGHT_SCALE \<le> bandwidth_share r * WEIGHT_SCALE div WEIGHT_SCALE"
    by (intro div_le_mono mult_left_mono weight_at_le) simp_all
  then show ?thesis
    by (simp add: weighted_bandwidth_def bandwidth_share_def WEIGHT_SCALE_def)
qed

interpretation unweighted: draw_weight bandwidth_share
  by unfold_locales (simp_all add: bandwidth_share_def)

lemma position_draw: "weights_ok w \<Longrightarrow> draw_weight (weighted_bandwidth pos w)"
proof (unfold_locales, goal_cases)
  case (1 r)
  then show ?case by (simp add: weighted_bandwidth_def)
next
  case (2 r)
  then show ?case using weighted_bandwidth_le [of w pos r] by (simp add: bandwidth_share_def)
qed

lemma weight_at_default: "weight_at pos r default_weights = WEIGHT_SCALE"
  unfolding weight_at_def
  by (cases pos; cases "has FLAG_GUARD r"; cases "has FLAG_EXIT r") (simp_all add: default_weights_def)

lemma weighted_bandwidth_default: "weighted_bandwidth pos default_weights = bandwidth_share"
  by (rule ext) (simp add: weighted_bandwidth_def weight_at_default bandwidth_share_def WEIGHT_SCALE_def)

lemma sample_at_result:
  assumes "weights_ok w" and "sample_at candidates cnt pos w ds = Some (Inr rs, ds')"
  shows "distinct (map identity rs) \<and> set rs \<subseteq> set candidates \<and> length rs = min cnt (card (identity ` set candidates))"
proof -
  have "draw_weight (weighted_bandwidth pos w)" using assms(1) by (rule position_draw)
  from draw_weight.sample_loop_result [OF this, of cnt candidates "[]" ds rs ds'] assms(2) show ?thesis
    by (simp add: sample_at_def sample_with_def)
qed

lemma weighted_choice_at_mem:
  "weighted_choice_at candidates pos w ds = Some (Inr r, ds') \<Longrightarrow> r \<in> set candidates"
  by (auto simp: weighted_choice_at_def choose_relay_def split: if_splits option.splits sum.splits dest: pick_loop_mem)

section \<open>Properties\<close>

text \<open>
  C20: a relay is drawn in exact proportion to its weighted bandwidth. Of the 64-bit values that the
  random source can give, exactly \<open>q\<close> per unit of weight draw the relay at once, with the same \<open>q > 0\<close> for
  every candidate; no weight is ever zero, so no candidate is left out; and with the default weights
  of a consensus that has none, the draw is the draw by bandwidth alone.
\<close>

theorem weighted_choice_proportional:
  assumes "distinct candidates" and "r \<in> set candidates" and "weights_ok w"
    and "\<forall>q \<in> set candidates. bandwidth q \<le> u32_max" and "length candidates \<le> u32_max"
  shows "card {v. weighted_choice_at candidates pos w [Inr v] = Some (Inr r, [])} =
       u64_max div (\<Sum>q \<leftarrow> candidates. weighted_bandwidth pos w q) * weighted_bandwidth pos w r
     \<and> 0 < u64_max div (\<Sum>q \<leftarrow> candidates. weighted_bandwidth pos w q)
     \<and> 0 < weighted_bandwidth pos w r
     \<and> weighted_choice_at candidates pos default_weights = weighted_choice candidates"
proof -
  have d: "draw_weight (weighted_bandwidth pos w)" using assms(3) by (rule position_draw)
  have "candidates \<noteq> []" using assms(2) by auto
  then have "0 < u64_max div (\<Sum>q \<leftarrow> candidates. weighted_bandwidth pos w q)"
    using draw_weight.total_pos [OF d, of candidates] draw_weight.total_fits [OF d assms(4,5)]
    by (simp add: div_greater_zero_iff)
  then show ?thesis
    using draw_weight.choose_share [OF d assms(1,2,4,5)] draw_weight.weight_pos [OF d, of r]
    by (simp add: weighted_choice_at_def weighted_choice_def weighted_bandwidth_default)
qed

text \<open>
  Sampling is without replacement: what it returns are candidates, no two with the same
  identity, and as many as were asked for or, if there are fewer, all the identities there are.
\<close>

theorem sample_without_replacement:
  assumes "weights_ok w" and "sample_at candidates cnt pos w ds = Some (Inr rs, ds')"
  shows "distinct (map identity rs) \<and> set rs \<subseteq> set candidates \<and> length rs = min cnt (card (identity ` set candidates))"
  using assms by (rule sample_at_result)

section \<open>Witnesses\<close>

lemma sample_loop_numeral [simp]:
  "sample_loop weight (numeral k) pool out ds =
     (if pool = [] then Some (Inr out, ds)
      else (case choose_relay pool weight ds of
              None \<Rightarrow> None
            | Some (Inl e, ds') \<Rightarrow> Some (Inl e, ds')
            | Some (Inr r, ds') \<Rightarrow>
                sample_loop weight (pred_numeral k) (filter (\<lambda>q. identity q \<noteq> identity r) pool) (out @ [r]) ds'))"
  by (simp add: numeral_eq_Suc)

definition demo_router :: "u8 \<Rightarrow> nat \<Rightarrow> router_status" where
  "demo_router i bw = \<lparr>identity = replicate 20 i, microdesc_digest = replicate 32 i, ipv4 = [i, i, 1, 1], or_port = 9001,
     router_flags = GUARD_FLAGS OR FLAG_EXIT, bandwidth = bw\<rparr>"

lemma demo_router_fields [simp]:
  "identity (demo_router i bw) = replicate 20 i" "bandwidth (demo_router i bw) = bw"
  "microdesc_digest (demo_router i bw) = replicate 32 i" "or_port (demo_router i bw) = 9001"
  "ipv4 (demo_router i bw) = [i, i, 1, 1]" "router_flags (demo_router i bw) = GUARD_FLAGS OR FLAG_EXIT"
  by (simp_all add: demo_router_def)

lemma demo_router_eq [simp]: "demo_router i a = demo_router j b \<longleftrightarrow> i = j \<and> a = b"
  by (auto simp: demo_router_def)

theorem weighted_choice_proportional_witness:
  "let cs = [demo_router 1 300, demo_router 2 0, demo_router 3 699] in
   card {v. weighted_choice_at cs ExitPosition default_weights [Inr v] = Some (Inr (demo_router 1 300), [])} =
     u64_max div 1000 * 300"
proof -
  let ?cs = "[demo_router 1 300, demo_router 2 0, demo_router 3 699]"
  have "distinct ?cs" "demo_router 1 300 \<in> set ?cs" "weights_ok default_weights"
    "\<forall>q \<in> set ?cs. bandwidth q \<le> u32_max" "length ?cs \<le> u32_max"
    by (simp_all add: default_weights_ok)
  from weighted_choice_proportional [OF this, of ExitPosition, THEN conjunct1] show ?thesis
    by (simp add: weighted_bandwidth_default bandwidth_share_def)
qed

end
