(* ===== verification/Circuit_Paths.thy ===== *)
theory Circuit_Paths
  imports Path_Selection "HOL-Library.AList"
begin

text \<open>
  How the client fills the positions of a path, the path-building half of \<^verbatim>\<open>src/tor/client.rs\<close>, and the
  relay description of \<^verbatim>\<open>src/tor/mod.rs\<close> it hands to the handshakes.

  Fetching microdescriptors from a directory cache and the CREATE2 and EXTEND2 round trips are the
  network's: \<open>fetch\<close> answers for a list of digests, \<open>net_create\<close> and \<open>net_extend\<close> for a hop. What is left of a
  circuit here is the list of the relays it goes through. The in-memory microdescriptor cache is an
  association list, the random draws are those of \<open>Random_Draws\<close>, and both are threaded through.
\<close>

section \<open>Relays\<close>

record relay_info =
  relay_ip :: bytes
  relay_port :: nat
  rsa_identity :: bytes
  relay_ed_identity :: "bytes option"
  ntor_onion_key :: bytes

definition link_specifiers :: "relay_info \<Rightarrow> bytes" where
  "link_specifiers r =
     (let specs = [(0x00, relay_ip r @ u16_to_be (relay_port r)), (0x02, rsa_identity r)] @
            (case relay_ed_identity r of Some ed \<Rightarrow> [(0x03, ed)] | None \<Rightarrow> [])
      in word_of_nat (length specs) # concat (map (\<lambda>(kind, v). kind # word_of_nat (length v) # v) specs))"

definition relay_info_of :: "router_status \<Rightarrow> microdesc \<Rightarrow> relay_info" where
  "relay_info_of r md = \<lparr>relay_ip = ipv4 r, relay_port = or_port r, rsa_identity = identity r,
     relay_ed_identity = md_ed_identity md, ntor_onion_key = md_ntor_key md\<rparr>"

section \<open>Microdescriptors\<close>

definition EXIT_SAMPLE :: nat where "EXIT_SAMPLE = 40"
definition MIDDLE_SAMPLE :: nat where "MIDDLE_SAMPLE = 8"
definition RENDEZVOUS_SAMPLE :: nat where "RENDEZVOUS_SAMPLE = 8"
definition MAX_CACHED_MICRODESCS :: nat where "MAX_CACHED_MICRODESCS = 2000"

type_synonym md_cache = "(bytes \<times> microdesc) list"
type_synonym md_fetch = "bytes list \<Rightarrow> (bytes \<times> microdesc) list io_result"
type_synonym 'a picking = "md_cache \<times> draws \<Rightarrow> ('a io_result \<times> md_cache \<times> draws) option"

definition pick_return :: "'a io_result \<Rightarrow> 'a picking" where
  "pick_return r s = Some (r, s)"

definition pick_bind :: "'a picking \<Rightarrow> ('a \<Rightarrow> 'b picking) \<Rightarrow> 'b picking" where
  "pick_bind m f s =
     (case m s of
        None \<Rightarrow> None
      | Some (Inl e, s') \<Rightarrow> Some (Inl e, s')
      | Some (Inr a, s') \<Rightarrow> f a s')"

definition pick_draw :: "'a drawing \<Rightarrow> 'a picking" where
  "pick_draw d s = (case d (snd s) of None \<Rightarrow> None | Some (r, ds) \<Rightarrow> Some (r, fst s, ds))"

definition cache_insert :: "bytes \<times> microdesc \<Rightarrow> md_cache \<Rightarrow> md_cache" where
  "cache_insert e cache = AList.update (fst e) (snd e) cache"

definition load_microdescs :: "md_fetch \<Rightarrow> bytes list \<Rightarrow> (bytes \<Rightarrow> microdesc option) picking" where
  "load_microdescs fetch digests s =
     (let cache = fst s;
          result = (\<lambda>d. if d \<in> set digests then map_of cache d else None);
          missing = filter (\<lambda>d. map_of cache d = None) digests
      in if missing = [] then Some (Inr result, s)
         else (case fetch missing of
                 Inl e \<Rightarrow> Some (Inl e, s)
               | Inr fetched \<Rightarrow>
                   let kept = (if length cache + length fetched > MAX_CACHED_MICRODESCS then [] else cache)
                   in Some (Inr (fold (\<lambda>(d, md) m. m(d \<mapsto> md)) fetched result), fold cache_insert fetched kept, snd s)))"

definition router :: "consensus \<Rightarrow> bytes \<Rightarrow> router_status option" where
  "router con ident = List.find (\<lambda>r. identity r = ident) (routers con)"

definition cached_microdesc :: "consensus \<Rightarrow> md_cache \<Rightarrow> bytes \<Rightarrow> microdesc option" where
  "cached_microdesc con cache ident =
     (case router con ident of None \<Rightarrow> None | Some r \<Rightarrow> map_of cache (microdesc_digest r))"

definition resolve_relay :: "md_fetch \<Rightarrow> router_status \<Rightarrow> relay_info picking" where
  "resolve_relay fetch r =
     pick_bind (load_microdescs fetch [microdesc_digest r]) (\<lambda>mds.
       pick_return (case mds (microdesc_digest r) of
           None \<Rightarrow> Inl (invalid_data ''could not fetch the relay's microdescriptor'')
         | Some md \<Rightarrow> Inr (relay_info_of r md)))"

definition relay_for :: "md_fetch \<Rightarrow> consensus \<Rightarrow> bytes \<Rightarrow> relay_info picking" where
  "relay_for fetch con ident =
     (case router con ident of
        None \<Rightarrow> pick_return (Inl (invalid_data ''relay is not in the consensus''))
      | Some r \<Rightarrow> resolve_relay fetch r)"

section \<open>Positions\<close>

definition ip_subnet :: "bytes \<Rightarrow> bytes" where
  "ip_subnet ip = [ip ! 0, ip ! 1]"

definition constrain :: "consensus \<Rightarrow> relay_info \<Rightarrow> md_cache \<Rightarrow> path_constraints \<Rightarrow> path_constraints" where
  "constrain con relay cache cs =
     (let md = cached_microdesc con cache (rsa_identity relay)
      in (case router con (rsa_identity relay) of
            Some r \<Rightarrow> add_router r md cs
          | None \<Rightarrow> add_relay (rsa_identity relay) (ip_subnet (relay_ip relay)) (family_or_none md) cs))"

definition weights_in :: "consensus \<Rightarrow> bandwidth_weights" where
  "weights_in con = weights_of (net_params_of con)"

definition choose_middle :: "md_fetch \<Rightarrow> consensus \<Rightarrow> path_constraints \<Rightarrow> relay_info picking" where
  "choose_middle fetch con cs =
     pick_bind (pick_draw (sample_at (middle_candidates con cs) MIDDLE_SAMPLE MiddlePosition (weights_in con))) (\<lambda>sampled.
     pick_bind (load_microdescs fetch (map microdesc_digest sampled)) (\<lambda>fetched.
     let fits = filter (\<lambda>r. case fetched (microdesc_digest r) of None \<Rightarrow> False | Some md \<Rightarrow> accepts cs r (Some md)) sampled
     in pick_bind (pick_draw (weighted_choice_at fits MiddlePosition (weights_in con))) (\<lambda>chosen.
        pick_return (case fetched (microdesc_digest chosen) of
            None \<Rightarrow> Inl (invalid_data ''middle microdescriptor vanished'')
          | Some md \<Rightarrow> Inr (relay_info_of chosen md)))))"

definition exit_usable :: "(bytes \<Rightarrow> microdesc option) \<Rightarrow> path_constraints \<Rightarrow> nat list \<Rightarrow> bool \<Rightarrow> router_status \<Rightarrow> bool" where
  "exit_usable fetched cs ports every r =
     (case fetched (microdesc_digest r) of
        None \<Rightarrow> False
      | Some md \<Rightarrow> \<not> policy_is_empty (exit_policy md) \<and> accepts cs r (Some md) \<and>
          (if every then list_all (\<lambda>p. allows p (exit_policy md)) ports
           else list_ex (\<lambda>p. allows p (exit_policy md)) ports))"

definition choose_exit :: "md_fetch \<Rightarrow> consensus \<Rightarrow> path_constraints \<Rightarrow> nat list \<Rightarrow> (relay_info \<times> microdesc) picking" where
  "choose_exit fetch con cs ports =
     pick_bind (pick_draw (sample_at (exit_candidates con cs) EXIT_SAMPLE ExitPosition (weights_in con))) (\<lambda>sampled.
     pick_bind (load_microdescs fetch (map microdesc_digest sampled)) (\<lambda>fetched.
     let allowing = filter (exit_usable fetched cs ports True) sampled;
         allowing = (if allowing = [] then filter (exit_usable fetched cs ports False) sampled else allowing)
     in if allowing = [] then pick_return (Inl (invalid_data ''none of the sampled exits allows any of the ports''))
        else pick_bind (pick_draw (weighted_choice_at allowing ExitPosition (weights_in con))) (\<lambda>chosen.
          pick_return (case fetched (microdesc_digest chosen) of
              None \<Rightarrow> Inl (invalid_data ''exit microdescriptor vanished'')
            | Some md \<Rightarrow> Inr (relay_info_of chosen md, md)))))"

text \<open>\<open>guard\<close> is the guard's relay when there is one, from \<^verbatim>\<open>ensure_guard\<close> and \<^verbatim>\<open>guard_relay\<close>.\<close>

definition choose_rendezvous_point :: "md_fetch \<Rightarrow> consensus \<Rightarrow> relay_info option \<Rightarrow> relay_info picking" where
  "choose_rendezvous_point fetch con guard s =
     (let cs = (case guard of None \<Rightarrow> no_constraints | Some g \<Rightarrow> constrain con g (fst s) no_constraints)
      in pick_bind (pick_draw (sample_at (rendezvous_candidates con cs) RENDEZVOUS_SAMPLE MiddlePosition (weights_in con))) (\<lambda>sampled.
         pick_bind (load_microdescs fetch (map microdesc_digest sampled)) (\<lambda>fetched.
         let fits = filter (\<lambda>r. fetched (microdesc_digest r) \<noteq> None) sampled
         in pick_bind (pick_draw (weighted_choice_at fits MiddlePosition (weights_in con))) (\<lambda>chosen.
            pick_return (case fetched (microdesc_digest chosen) of
                None \<Rightarrow> Inl (invalid_data ''rendezvous point microdescriptor vanished'')
              | Some md \<Rightarrow> Inr (relay_info_of chosen md))))) s)"

section \<open>Building circuits\<close>

record builder =
  net_create :: "relay_info \<Rightarrow> unit io_result"
  net_extend :: "relay_info list \<Rightarrow> relay_info \<Rightarrow> unit io_result"

record stub =
  stub_path :: "relay_info list"
  constraints :: path_constraints
  stub_guard :: bytes

definition with_cache :: "(md_cache \<Rightarrow> 'a picking) \<Rightarrow> 'a picking" where
  "with_cache f s = f (fst s) s"

definition build_stub :: "builder \<Rightarrow> md_fetch \<Rightarrow> consensus \<Rightarrow> relay_info io_result \<Rightarrow> stub picking" where
  "build_stub net fetch con guard_channel =
     pick_bind (pick_return guard_channel) (\<lambda>guard.
     with_cache (\<lambda>cache.
     let cs = constrain con guard cache no_constraints in
     pick_bind (choose_middle fetch con cs) (\<lambda>middle.
     pick_bind (pick_return (net_create net guard)) (\<lambda>_.
     pick_bind (pick_return (net_extend net [guard] middle)) (\<lambda>_.
     with_cache (\<lambda>cache.
       pick_return (Inr \<lparr>stub_path = [guard, middle], constraints = constrain con middle cache cs,
                         stub_guard = rsa_identity guard\<rparr>)))))))"

definition extend_to_exit :: "builder \<Rightarrow> md_fetch \<Rightarrow> consensus \<Rightarrow> stub \<Rightarrow> nat list \<Rightarrow> (relay_info \<times> microdesc) picking" where
  "extend_to_exit net fetch con st ports =
     pick_bind (choose_exit fetch con (constraints st) ports) (\<lambda>(exit, md).
     pick_bind (pick_return (net_extend net (stub_path st) exit)) (\<lambda>_.
       pick_return (Inr (exit, md))))"

text \<open>
  \<open>waiting\<close> is what \<^verbatim>\<open>take_stub\<close> found. A stub that cannot be extended is closed and a circuit is built
  from the start.
\<close>

definition build_exit_fresh ::
    "builder \<Rightarrow> md_fetch \<Rightarrow> consensus \<Rightarrow> relay_info io_result \<Rightarrow> nat list \<Rightarrow> (relay_info list \<times> microdesc \<times> bytes) picking" where
  "build_exit_fresh net fetch con guard_channel ports =
     pick_bind (build_stub net fetch con guard_channel) (\<lambda>st.
     pick_bind (extend_to_exit net fetch con st ports) (\<lambda>(exit, md).
       pick_return (Inr (stub_path st @ [exit], md, stub_guard st))))"

definition build_exit_circuit ::
    "builder \<Rightarrow> md_fetch \<Rightarrow> consensus \<Rightarrow> stub option \<Rightarrow> relay_info io_result \<Rightarrow> nat list \<Rightarrow>
     (relay_info list \<times> microdesc \<times> bytes) picking" where
  "build_exit_circuit net fetch con waiting guard_channel ports s =
     (case waiting of
        None \<Rightarrow> build_exit_fresh net fetch con guard_channel ports s
      | Some st \<Rightarrow>
          (case extend_to_exit net fetch con st ports s of
             None \<Rightarrow> None
           | Some (Inr (exit, md), s') \<Rightarrow> Some (Inr (stub_path st @ [exit], md, stub_guard st), s')
           | Some (Inl _, s') \<Rightarrow> build_exit_fresh net fetch con guard_channel ports s'))"

definition fits_last :: "consensus \<Rightarrow> md_cache \<Rightarrow> relay_info \<Rightarrow> path_constraints \<Rightarrow> bool" where
  "fits_last con cache final cs =
     accepts_relay cs (rsa_identity final) (ip_subnet (relay_ip final))
       (family_or_none (cached_microdesc con cache (rsa_identity final)))"

definition build_to_fresh ::
    "builder \<Rightarrow> md_fetch \<Rightarrow> consensus \<Rightarrow> relay_info io_result \<Rightarrow> relay_info \<Rightarrow> relay_info list picking" where
  "build_to_fresh net fetch con guard_channel final =
     pick_bind (pick_return guard_channel) (\<lambda>guard.
     with_cache (\<lambda>cache.
     let cs = constrain con final cache (constrain con guard cache no_constraints) in
     pick_bind (choose_middle fetch con cs) (\<lambda>middle.
     pick_bind (pick_return (net_create net guard)) (\<lambda>_.
     pick_bind (pick_return (net_extend net [guard] middle)) (\<lambda>_.
     pick_bind (pick_return (net_extend net [guard, middle] final)) (\<lambda>_.
       pick_return (Inr [guard, middle, final])))))))"

definition build_circuit_to ::
    "builder \<Rightarrow> md_fetch \<Rightarrow> consensus \<Rightarrow> (( path_constraints \<Rightarrow> bool) \<Rightarrow> stub option) \<Rightarrow> relay_info io_result \<Rightarrow> relay_info \<Rightarrow>
     relay_info list picking" where
  "build_circuit_to net fetch con take_stub guard_channel final s =
     (case take_stub (fits_last con (fst s) final) of
        None \<Rightarrow> build_to_fresh net fetch con guard_channel final s
      | Some st \<Rightarrow>
          (case net_extend net (stub_path st) final of
             Inr _ \<Rightarrow> Some (Inr (stub_path st @ [final]), s)
           | Inl _ \<Rightarrow> build_to_fresh net fetch con guard_channel final s))"

section \<open>Lemmas\<close>

named_theorems picking_simps \<open>results of the picking operations\<close>

lemma pick_bind_Inr [picking_simps]:
  "pick_bind m f s = Some (Inr b, s') \<longleftrightarrow> (\<exists>a s1. m s = Some (Inr a, s1) \<and> f a s1 = Some (Inr b, s'))"
  by (auto simp: pick_bind_def split: option.splits prod.splits sum.splits)

lemma pick_return_Inr [picking_simps]: "pick_return r s = Some (r', s') \<longleftrightarrow> r = r' \<and> s' = s"
  by (auto simp: pick_return_def)

lemma pick_draw_Inr [picking_simps]:
  "pick_draw d s = Some (r, s') \<longleftrightarrow> d (snd s) = Some (r, snd s') \<and> fst s' = fst s"
  by (cases s; cases s') (auto simp: pick_draw_def split: option.splits)

lemma choose_middle_result:
  assumes "choose_middle fetch con cs s = Some (Inr relay, s')" and "weights_ok (weights_in con)"
  shows "\<exists>r md. relay = relay_info_of r md \<and> r \<in> set (middle_candidates con cs) \<and> accepts cs r (Some md)"
proof -
  obtain sampled fetched chosen md s1 s2 s3 where
    sample: "sample_at (middle_candidates con cs) MIDDLE_SAMPLE MiddlePosition (weights_in con) s1 = Some (Inr sampled, s2)"
    and chosen: "weighted_choice_at (filter (\<lambda>r. case fetched (microdesc_digest r) of None \<Rightarrow> False | Some md \<Rightarrow> accepts cs r (Some md))
        sampled) MiddlePosition (weights_in con) s3 = Some (Inr chosen, snd s')"
    and md: "fetched (microdesc_digest chosen) = Some md" "relay = relay_info_of chosen md"
    using assms(1) unfolding choose_middle_def Let_def picking_simps
    by (auto split: option.splits)
  have "set sampled \<subseteq> set (middle_candidates con cs)"
    using sample_at_result [OF assms(2) sample] by blast
  then show ?thesis
    using weighted_choice_at_mem [OF chosen] md by (intro exI [of _ chosen] exI [of _ md]) auto
qed

lemma exit_usable_SomeD:
  "exit_usable fetched cs ports every r \<Longrightarrow> fetched (microdesc_digest r) = Some md \<Longrightarrow>
     accepts cs r (Some md) \<and> \<not> policy_is_empty (exit_policy md) \<and>
     (if every then (\<forall>p \<in> set ports. allows p (exit_policy md)) else (\<exists>p \<in> set ports. allows p (exit_policy md)))"
  by (simp add: exit_usable_def list_all_iff list_ex_iff split: if_splits)

lemma choose_exit_result:
  assumes "choose_exit fetch con cs ports s = Some (Inr (relay, md), s')" and "weights_ok (weights_in con)"
    and "ports \<noteq> []"
  shows "\<exists>r. relay = relay_info_of r md \<and> r \<in> set (exit_candidates con cs) \<and> accepts cs r (Some md) \<and>
     \<not> policy_is_empty (exit_policy md) \<and> (\<exists>p \<in> set ports. allows p (exit_policy md))"
proof -
  obtain sampled fetched chosen allowing s1 s2 s3 every where
    sample: "sample_at (exit_candidates con cs) EXIT_SAMPLE ExitPosition (weights_in con) s1 = Some (Inr sampled, s2)"
    and allowing: "allowing = filter (exit_usable fetched cs ports every) sampled"
    and chosen: "weighted_choice_at allowing ExitPosition (weights_in con) s3 = Some (Inr chosen, snd s')"
    and md: "fetched (microdesc_digest chosen) = Some md" "relay = relay_info_of chosen md"
    using assms(1) unfolding choose_exit_def Let_def picking_simps
    by (force simp: picking_simps split: option.splits if_splits)
  have "set sampled \<subseteq> set (exit_candidates con cs)"
    using sample_at_result [OF assms(2) sample] by blast
  moreover have "chosen \<in> set sampled" "exit_usable fetched cs ports every chosen"
    using weighted_choice_at_mem [OF chosen] allowing by auto
  ultimately have "r' \<in> set (exit_candidates con cs)" if "r' = chosen" for r'
    using that by auto
  moreover note u = exit_usable_SomeD [of fetched cs ports every chosen, OF \<open>exit_usable fetched cs ports every chosen\<close> md(1)]
  moreover have "\<exists>p \<in> set ports. allows p (exit_policy md)"
    using u assms(3) by (cases every) (auto simp: neq_Nil_conv)
  ultimately show ?thesis
    using md(2) by blast
qed

lemma identities_constrain [simp]: "identities (constrain con relay cache cs) = identities cs @ [rsa_identity relay]"
  by (auto simp: constrain_def Let_def add_router_def router_def find_Some_iff split: option.split)

definition relay_subnet :: "consensus \<Rightarrow> relay_info \<Rightarrow> bytes" where
  "relay_subnet con relay =
     (case router con (rsa_identity relay) of Some r \<Rightarrow> subnet16 r | None \<Rightarrow> ip_subnet (relay_ip relay))"

lemma subnets_constrain [simp]: "subnets (constrain con relay cache cs) = subnets cs @ [relay_subnet con relay]"
  by (simp add: constrain_def Let_def add_router_def relay_subnet_def split: option.split)

lemma router_mem:
  assumes "distinct (map identity (routers con))" and "r \<in> set (routers con)"
  shows "router con (identity r) = Some r"
proof -
  obtain q where q: "router con (identity r) = Some q"
    using assms(2) unfolding router_def by (cases "List.find (\<lambda>q. identity q = identity r) (routers con)") (auto simp: find_None_iff)
  then have "q \<in> set (routers con)" "identity q = identity r"
    unfolding router_def by (auto simp: find_Some_iff)
  then show ?thesis
    using assms q by (metis distinct_map inj_onD)
qed

lemma relay_info_fields [simp]:
  "rsa_identity (relay_info_of r md) = identity r" "relay_ip (relay_info_of r md) = ipv4 r"
  "relay_port (relay_info_of r md) = or_port r"
  by (simp_all add: relay_info_of_def)

lemma subnet16_ip: "subnet16 r = ip_subnet (ipv4 r)"
  by (simp add: subnet16_def ip_subnet_def)

lemma relay_subnet_consensus:
  "distinct (map identity (routers con)) \<Longrightarrow> r \<in> set (routers con) \<Longrightarrow>
     relay_subnet con (relay_info_of r md) = ip_subnet (ipv4 r)"
  by (simp add: relay_subnet_def router_mem subnet16_ip)

lemma candidates_subset:
  "r \<in> set (middle_candidates con cs) \<Longrightarrow> r \<in> set (routers con)"
  "r \<in> set (exit_candidates con cs) \<Longrightarrow> r \<in> set (routers con)"
  by (auto simp: middle_candidates_def exit_candidates_def)

text \<open>A stub remembers exactly the two relays it goes through, and they are unrelated.\<close>

definition stub_ok :: "stub \<Rightarrow> bool" where
  "stub_ok st \<longleftrightarrow> length (stub_path st) = 2
     \<and> identities (constraints st) = map rsa_identity (stub_path st) \<and> distinct (map rsa_identity (stub_path st))
     \<and> subnets (constraints st) = map (ip_subnet \<circ> relay_ip) (stub_path st)
     \<and> distinct (map (ip_subnet \<circ> relay_ip) (stub_path st))
     \<and> stub_guard st = rsa_identity (hd (stub_path st))"

definition guard_placed :: "consensus \<Rightarrow> relay_info io_result \<Rightarrow> bool" where
  "guard_placed con g \<longleftrightarrow> (case g of Inl _ \<Rightarrow> True | Inr guard \<Rightarrow> relay_subnet con guard = ip_subnet (relay_ip guard))"

lemma build_stub_ok:
  assumes "build_stub net fetch con guard_channel s = Some (Inr st, s')" and "weights_ok (weights_in con)"
    and "distinct (map identity (routers con))" and "guard_placed con guard_channel"
  shows "stub_ok st"
proof -
  obtain guard middle cache1 cache2 s1 s2 where g: "guard_channel = Inr guard"
    and m: "choose_middle fetch con (constrain con guard cache1 no_constraints) s1 = Some (Inr middle, s2)"
    and st: "st = \<lparr>stub_path = [guard, middle],
        constraints = constrain con middle cache2 (constrain con guard cache1 no_constraints), stub_guard = rsa_identity guard\<rparr>"
    using assms(1) unfolding build_stub_def Let_def with_cache_def picking_simps by blast
  obtain r md where r: "middle = relay_info_of r md"
    "r \<in> set (middle_candidates con (constrain con guard cache1 no_constraints))"
    "accepts (constrain con guard cache1 no_constraints) r (Some md)"
    using choose_middle_result [OF m assms(2)] by blast
  have "r \<in> set (routers con)" using r(2) by (rule candidates_subset)
  then have "relay_subnet con middle = ip_subnet (ipv4 r)"
    using r(1) assms(3) by (simp add: relay_subnet_consensus)
  moreover have "relay_subnet con guard = ip_subnet (relay_ip guard)"
    using assms(4) g by (simp add: guard_placed_def)
  moreover have "identity r \<noteq> rsa_identity guard" "subnet16 r \<noteq> relay_subnet con guard"
    using r(3) by (auto simp: accepts_eq accepts_relay_def)
  ultimately show ?thesis
    using st r(1) by (auto simp: stub_ok_def subnet16_ip)
qed

lemma extend_to_exit_result:
  assumes "extend_to_exit net fetch con st ports s = Some (Inr (exit, md), s')" and "stub_ok st"
    and "weights_ok (weights_in con)" and "ports \<noteq> []"
  shows "distinct (map rsa_identity (stub_path st @ [exit]))
     \<and> distinct (map (ip_subnet \<circ> relay_ip) (stub_path st @ [exit]))
     \<and> rsa_identity ` set (stub_path st) \<inter> set (family md) = {}
     \<and> (\<exists>p \<in> set ports. allows p (exit_policy md))
     \<and> (\<exists>r \<in> set (routers con). exit = relay_info_of r md \<and> has FLAG_EXIT r \<and> \<not> has FLAG_BAD_EXIT r)"
proof -
  obtain s1 where "choose_exit fetch con (constraints st) ports s = Some (Inr (exit, md), s1)"
    using assms(1) unfolding extend_to_exit_def picking_simps by (auto simp: picking_simps)
  then obtain r where r: "exit = relay_info_of r md" "r \<in> set (exit_candidates con (constraints st))"
    "accepts (constraints st) r (Some md)" "\<exists>p \<in> set ports. allows p (exit_policy md)"
    using choose_exit_result assms(3,4) by blast
  have "has FLAG_EXIT r" "\<not> has FLAG_BAD_EXIT r"
    using r(2) by (auto simp: exit_candidates_def)
  moreover have "identity r \<notin> set (identities (constraints st))" "subnet16 r \<notin> set (subnets (constraints st))"
    "set (identities (constraints st)) \<inter> set (family md) = {}"
    using r(3) by (auto simp: accepts_eq accepts_relay_def family_or_none_def list_ex_iff)
  ultimately show ?thesis
    using r candidates_subset(2) [OF r(2)] assms(2) by (auto simp: stub_ok_def subnet16_ip)
qed

lemma build_exit_fresh_result:
  assumes "build_exit_fresh net fetch con guard_channel ports s = Some (Inr (path, md, g), s')"
    and "weights_ok (weights_in con)" and "distinct (map identity (routers con))" and "guard_placed con guard_channel"
  shows "\<exists>st exit s1 s2. stub_ok st \<and> extend_to_exit net fetch con st ports s1 = Some (Inr (exit, md), s2) \<and>
     path = stub_path st @ [exit] \<and> g = stub_guard st"
proof -
  obtain st s1 exit where st: "build_stub net fetch con guard_channel s = Some (Inr st, s1)"
    and e: "extend_to_exit net fetch con st ports s1 = Some (Inr (exit, md), s')"
      "path = stub_path st @ [exit]" "g = stub_guard st"
    using assms(1) unfolding build_exit_fresh_def picking_simps by (auto simp: picking_simps)
  then show ?thesis
    using build_stub_ok [OF st assms(2,3,4)] by blast
qed

section \<open>Properties\<close>

text \<open>
  C18: an exit circuit that is built, from a waiting stub or from the start, goes through three relays
  of pairwise different identity and /16; the exit's own family names neither of the others; it is
  flagged Exit, not BadExit, and its policy allows one of the ports; and the guard reported for the
  circuit is its first hop. The guard must be where the consensus says it is, and a consensus
  lists no identity twice.
\<close>

theorem exit_circuit_path:
  assumes "build_exit_circuit net fetch con waiting guard_channel ports s = Some (Inr (path, md, g), s')"
    and "weights_ok (weights_in con)" and "distinct (map identity (routers con))" and "guard_placed con guard_channel"
    and "ports \<noteq> []" and "\<forall>st. waiting = Some st \<longrightarrow> stub_ok st"
  shows "length path = 3 \<and> distinct (map rsa_identity path) \<and> distinct (map (ip_subnet \<circ> relay_ip) path)
     \<and> rsa_identity ` set (butlast path) \<inter> set (family md) = {}
     \<and> (\<exists>p \<in> set ports. allows p (exit_policy md))
     \<and> (\<exists>r \<in> set (routers con). last path = relay_info_of r md \<and> has FLAG_EXIT r \<and> \<not> has FLAG_BAD_EXIT r)
     \<and> g = rsa_identity (hd path)"
proof -
  have fresh: "\<exists>st exit s1 s2. stub_ok st \<and> extend_to_exit net fetch con st ports s1 = Some (Inr (exit, md), s2) \<and>
     path = stub_path st @ [exit] \<and> g = stub_guard st"
    if "build_exit_fresh net fetch con guard_channel ports s0 = Some (Inr (path, md, g), s')" for s0
    using build_exit_fresh_result [OF that assms(2,3,4)] .
  obtain st exit s1 s2 where st: "stub_ok st" and e: "extend_to_exit net fetch con st ports s1 = Some (Inr (exit, md), s2)"
    and path: "path = stub_path st @ [exit]" and g: "g = stub_guard st"
  proof (cases waiting)
    case None
    then have "build_exit_fresh net fetch con guard_channel ports s = Some (Inr (path, md, g), s')"
      using assms(1) by (simp add: build_exit_circuit_def)
    from fresh [OF this] that show ?thesis by blast
  next
    case (Some st)
    show ?thesis
    proof (cases "\<exists>e s1. extend_to_exit net fetch con st ports s = Some (Inl e, s1)")
      case True
      then obtain s1 where "build_exit_fresh net fetch con guard_channel ports s1 = Some (Inr (path, md, g), s')"
        using assms(1) Some by (auto simp: build_exit_circuit_def)
      from fresh [OF this] that show ?thesis by blast
    next
      case False
      then obtain exit s1 where "extend_to_exit net fetch con st ports s = Some (Inr (exit, md), s1)"
        "path = stub_path st @ [exit]" "g = stub_guard st"
        using assms(1) Some by (auto simp: build_exit_circuit_def split: option.splits sum.splits)
      then show ?thesis using that Some assms(6) by blast
    qed
  qed
  moreover have "stub_path st \<noteq> []" "length (stub_path st) = 2" "stub_guard st = rsa_identity (hd (stub_path st))"
    using st by (auto simp: stub_ok_def)
  ultimately show ?thesis
    using extend_to_exit_result [OF e st assms(2,5)] by simp
qed

text \<open>Three relays and a network that always answers, for concrete runs.\<close>

definition demo_md :: "u8 \<Rightarrow> microdesc" where
  "demo_md i = \<lparr>md_digest = replicate 32 i, md_ntor_key = replicate 32 i, md_ed_identity = None,
     exit_policy = \<lparr>is_accept = True, ranges = [(443, 443)]\<rparr>, family = []\<rparr>"

definition demo_consensus :: consensus where
  "demo_consensus = \<lparr>valid_after = 0, fresh_until = 1, valid_until = 2,
     routers = [demo_router 1 300, demo_router 2 200, demo_router 3 100], net_params_of = default_params,
     shared_rand_current = None, shared_rand_previous = None\<rparr>"

definition demo_fetch :: md_fetch where
  "demo_fetch ds = Inr (map (\<lambda>d. (d, demo_md (hd d))) (remdups ds))"

definition demo_net :: builder where
  "demo_net = \<lparr>net_create = (\<lambda>_. Inr ()), net_extend = (\<lambda>_ _. Inr ())\<rparr>"

lemmas demo_simps = build_circuit_to_def build_to_fresh_def demo_net_def demo_fetch_def demo_consensus_def choose_middle_def
  pick_bind_def pick_return_def pick_draw_def with_cache_def constrain_def cached_microdesc_def router_def add_router_def
  middle_candidates_def accepts_def subnet16_def ip_subnet_def USABLE_def GUARD_FLAGS_def flag_defs has_def
  MIDDLE_SAMPLE_def sample_at_def sample_with_def choose_relay_def weighted_choice_at_def weights_in_def default_params_def
  weighted_bandwidth_default bandwidth_share_def wrap_u64_def below_self load_microdescs_def cache_insert_def
  MAX_CACHED_MICRODESCS_def exit_candidates_def exit_usable_def choose_exit_def EXIT_SAMPLE_def build_stub_def extend_to_exit_def
  build_exit_fresh_def build_exit_circuit_def policy_is_empty_def allows_def shares_family_with_def demo_md_def family_or_none_def

text \<open>
  A circuit to a named relay is not held to the same rule: with no stub waiting, the last hop may be
  the guard itself. Both go into the constraints, so the middle avoids them, but they are not
  checked against each other.
\<close>

theorem named_circuit_may_repeat_guard:
  "\<exists>net fetch con guard s path s'. router con (rsa_identity guard) \<noteq> None \<and>
     build_circuit_to net fetch con (\<lambda>_. None) (Inr guard) guard s = Some (Inr path, s') \<and> hd path = last path \<and> length path = 3"
proof -
  let ?g = "relay_info_of (demo_router 1 300) (demo_md 1)" and ?m = "relay_info_of (demo_router 2 200) (demo_md 2)"
  have "build_circuit_to demo_net demo_fetch demo_consensus (\<lambda>_. None) (Inr ?g) ?g ([], [Inr 0, Inr 0, Inr 0]) =
     Some (Inr [?g, ?m, ?g], [(replicate 32 2, demo_md 2), (replicate 32 3, demo_md 3)], [])"
    by (simp add: demo_simps)
  moreover have "router demo_consensus (rsa_identity ?g) \<noteq> None"
    by (simp add: router_def demo_consensus_def)
  ultimately show ?thesis
    by (intro exI conjI) (assumption | simp)+
qed

section \<open>Witness\<close>

theorem exit_circuit_path_witness:
  "\<exists>path md s'. build_exit_circuit demo_net demo_fetch demo_consensus None
       (Inr (relay_info_of (demo_router 1 300) (demo_md 1))) [443] ([], [Inr 0, Inr 0, Inr 0, Inr 0, Inr 0]) =
       Some (Inr (path, md, replicate 20 1), s')
     \<and> length path = 3 \<and> distinct (map rsa_identity path) \<and> (\<exists>p \<in> {443}. allows p (exit_policy md))"
proof -
  let ?g = "relay_info_of (demo_router 1 300) (demo_md 1)" and ?m = "relay_info_of (demo_router 2 200) (demo_md 2)"
    and ?e = "relay_info_of (demo_router 3 100) (demo_md 3)"
  have run: "build_exit_circuit demo_net demo_fetch demo_consensus None (Inr ?g) [443] ([], [Inr 0, Inr 0, Inr 0, Inr 0, Inr 0]) =
     Some (Inr ([?g, ?m, ?e], demo_md 3, replicate 20 1), [(replicate 32 2, demo_md 2), (replicate 32 3, demo_md 3)], [])"
    by (simp add: demo_simps Let_def)
  have "weights_ok (weights_in demo_consensus)" "distinct (map identity (routers demo_consensus))"
    by (simp_all add: weights_in_def demo_consensus_def default_params_def default_weights_ok)
  moreover have "guard_placed demo_consensus (Inr ?g)"
    by (simp add: guard_placed_def relay_subnet_def router_def demo_consensus_def subnet16_ip)
  ultimately show ?thesis
    using exit_circuit_path [OF run] run by auto
qed

end
