(* ===== verification/Circuit_Build.thy ===== *)
theory Circuit_Build
  imports Handshakes Stream_State Circuit_Paths
begin

text \<open>
  Building circuits: \<^verbatim>\<open>create\<close>, \<^verbatim>\<open>create_fast\<close>, \<^verbatim>\<open>extend_with\<close>, the two waits for replies and \<^verbatim>\<open>probe\<close> of
  \<^verbatim>\<open>circuit.rs\<close>, and \<^verbatim>\<open>extend_path\<close> of \<^verbatim>\<open>client.rs\<close>. A wait is the list of its wake-ups: whether the deadline
  has passed by then, and the cells the pump has handled before the next one; a list that is used up
  is a wait that has not ended. The main results: the hops of a circuit are keyed, in order, by finished
  handshakes with the relays of its path, and a relay that follows its half of ntor-v3 ends with the keys of
  its hop.
\<close>

section \<open>The handshake of a hop\<close>

datatype client_handshake = ClientNtor ntor_client | ClientNtorV3 ntor_v3_client

definition start_handshake ::
    "handshake_prims \<Rightarrow> bytes io_result \<Rightarrow> relay_info \<Rightarrow> extension list \<Rightarrow> (client_handshake \<times> nat \<times> bytes) io_result" where
  "start_handshake P generated relay exts =
     (case relay_ed_identity relay of
        Some ed \<Rightarrow>
          and_then (v3_new P generated ed (ntor_onion_key relay) exts) (\<lambda>(cl, skin).
            Inr (ClientNtorV3 cl, HANDSHAKE_TYPE_NTOR_V3, skin))
      | None \<Rightarrow>
          and_then (ntor_new P generated (rsa_identity relay) (ntor_onion_key relay)) (\<lambda>(cl, skin).
            Inr (ClientNtor cl, HANDSHAKE_TYPE_NTOR, skin)))"

fun finish_handshake ::
    "handshake_prims \<Rightarrow> client_handshake \<Rightarrow> bytes \<Rightarrow> (circuit_keys \<times> extension list) io_result option" where
  "finish_handshake P (ClientNtor cl) reply =
     map_option (\<lambda>r. and_then r (\<lambda>keys. Inr (keys, []))) (ntor_finish P cl reply)"
| "finish_handshake P (ClientNtorV3 cl) reply = Some (v3_finish P cl reply)"

definition handshake_name :: "nat \<Rightarrow> string" where
  "handshake_name htype =
     (if htype = HANDSHAKE_TYPE_NTOR then ''ntor''
      else if htype = HANDSHAKE_TYPE_NTOR_V3 then ''ntor-v3'' else ''an unknown handshake'')"

definition build_extend2 :: "relay_info \<Rightarrow> nat \<Rightarrow> bytes \<Rightarrow> bytes" where
  "build_extend2 relay htype skin =
     link_specifiers relay @ u16_to_be htype @ u16_to_be (wrap_u16 (length skin)) @ skin"

section \<open>Waiting\<close>

type_synonym wakes = "(bool \<times> (cell \<times> pump_env) list) list"

text \<open>One look at the state, under its lock.\<close>

definition take_handshake :: "bool \<Rightarrow> inner \<Rightarrow> (bytes io_result \<times> inner) option" where
  "take_handshake late i =
     (case handshake (cstate i) of
        Some r \<Rightarrow>
          Some (case r of Inl why \<Rightarrow> Inl (IoError Other why) | Inr reply \<Rightarrow> Inr reply, i\<lparr>cstate := (cstate i)\<lparr>handshake := None\<rparr>\<rparr>)
      | None \<Rightarrow>
          if is_closed i then Some (Inl (IoError ConnectionAborted ''circuit closed during handshake''), i)
          else if late then Some (Inl (IoError TimedOut ''timed out waiting for CREATED2/EXTENDED2''), i)
          else None)"

fun wait_for_handshake :: "crypto \<Rightarrow> wakes \<Rightarrow> (inner, bytes) io_op" where
  "wait_for_handshake C [] i = take_handshake False i"
| "wait_for_handshake C ((late, cells) # ws) i =
     (case take_handshake late i of
        Some r \<Rightarrow> Some r
      | None \<Rightarrow> wait_for_handshake C ws (snd (pump C cells i)))"

definition look_for_control :: "u8 \<Rightarrow> bool \<Rightarrow> inner \<Rightarrow> (bytes io_result \<times> inner) option" where
  "look_for_control cmd late i =
     (case take_control cmd (cstate i) of
        (Some reply, s) \<Rightarrow> Some (Inr reply, i\<lparr>cstate := s\<rparr>)
      | (None, _) \<Rightarrow>
          if is_closed i then Some (Inl (IoError ConnectionAborted ''circuit closed while waiting for a reply''), i)
          else if late then Some (Inl (IoError TimedOut ''timed out waiting for a relay command''), i)
          else None)"

fun wait_for_control :: "crypto \<Rightarrow> u8 \<Rightarrow> wakes \<Rightarrow> (inner, bytes) io_op" where
  "wait_for_control C cmd [] i = look_for_control cmd False i"
| "wait_for_control C cmd ((late, cells) # ws) i =
     (case look_for_control cmd late i of
        Some r \<Rightarrow> Some r
      | None \<Rightarrow> wait_for_control C cmd ws (snd (pump C cells i)))"

section \<open>Creating and extending\<close>

text \<open>What one exchange takes from outside: a fresh secret, the padding, and how its wait goes.\<close>

record build_env =
  be_random :: "bytes io_result"
  be_rng :: "nat \<Rightarrow> bytes io_result"
  be_wakes :: wakes

definition op_lift :: "'a io_result option \<Rightarrow> ('s, 'a) io_op" where
  "op_lift x s = map_option (\<lambda>r. (r, s)) x"

text \<open>\<open>registered\<close> is the identifier the channel hands out, \<open>spawned\<close> whether the pump's thread starts.\<close>

definition new_circuit :: "nat io_result \<Rightarrow> unit io_result \<Rightarrow> inner io_result" where
  "new_circuit registered spawned =
     and_then registered (\<lambda>cid. and_then spawned (\<lambda>_. Inr (new_on cid)))"

definition send_own_cell :: "u8 \<Rightarrow> bytes \<Rightarrow> (inner, unit) io_op" where
  "send_own_cell cmd bs i =
     (case cell_new (inner_id i) cmd bs of
        Inl e \<Rightarrow> Some (Inl e, i)
      | Inr c \<Rightarrow> (case chan_send c (chan i) of (r, ch) \<Rightarrow> Some (r, i\<lparr>chan := ch\<rparr>)))"

definition do_create_fast :: "handshake_prims \<Rightarrow> crypto \<Rightarrow> build_env \<Rightarrow> (inner, unit) io_op" where
  "do_create_fast P C E =
     op_then (op_lift (Some (create_fast_new (be_random E)))) (\<lambda>(x, sent).
     op_then (send_own_cell CMD_CREATE_FAST sent) (\<lambda>_.
     op_then (wait_for_handshake C (be_wakes E)) (\<lambda>reply.
     op_then (op_lift (create_fast_finish P x reply)) (\<lambda>keys i. Some (Inr (), push_hop (hop_new keys) i)))))"

definition create2_body :: "nat \<Rightarrow> bytes \<Rightarrow> bytes" where
  "create2_body htype skin = u16_to_be htype @ u16_to_be (wrap_u16 (length skin)) @ skin"

definition do_create :: "handshake_prims \<Rightarrow> crypto \<Rightarrow> build_env \<Rightarrow> relay_info \<Rightarrow> (inner, unit) io_op" where
  "do_create P C E relay =
     op_then (op_lift (Some (start_handshake P (be_random E) relay []))) (\<lambda>(client, htype, skin).
     op_then (send_own_cell CMD_CREATE2 (create2_body htype skin)) (\<lambda>_.
     op_then (wait_for_handshake C (be_wakes E)) (\<lambda>reply.
     op_then (op_lift (finish_handshake P client reply)) (\<lambda>(keys, _) i. Some (Inr (), push_hop (hop_new keys) i)))))"

definition or_close :: "(inner, unit) io_op \<Rightarrow> (inner, unit) io_op" where
  "or_close m i = (case m i of Some (Inl e, i) \<Rightarrow> Some (Inl e, close_circuit i) | x \<Rightarrow> x)"

text \<open>No circuit is left when there never was one.\<close>

definition on_new :: "inner io_result \<Rightarrow> (inner, unit) io_op \<Rightarrow> (unit io_result \<times> inner option) option" where
  "on_new fresh m =
     (case fresh of
        Inl e \<Rightarrow> Some (Inl e, None)
      | Inr i \<Rightarrow> map_option (\<lambda>(r, i). (r, Some i)) (or_close m i))"

definition create_circuit ::
    "handshake_prims \<Rightarrow> crypto \<Rightarrow> build_env \<Rightarrow> inner io_result \<Rightarrow> relay_info \<Rightarrow> (unit io_result \<times> inner option) option" where
  "create_circuit P C E fresh relay = on_new fresh (do_create P C E relay)"

definition create_fast ::
    "handshake_prims \<Rightarrow> crypto \<Rightarrow> build_env \<Rightarrow> inner io_result \<Rightarrow> (unit io_result \<times> inner option) option" where
  "create_fast P C E fresh = on_new fresh (do_create_fast P C E)"

text \<open>Congestion control is asked of a relay that can speak ntor-v3, when the network runs it.\<close>

definition asking_for :: "relay_info \<Rightarrow> cc_params option \<Rightarrow> cc_params option" where
  "asking_for relay congestion =
     (case congestion of
        None \<Rightarrow> None
      | Some p \<Rightarrow> if alg p = 2 \<and> relay_ed_identity relay \<noteq> None then Some p else None)"

definition cc_request :: "cc_params option \<Rightarrow> extension list" where
  "cc_request asking = (case asking of Some _ \<Rightarrow> [\<lparr>ext_kind = EXT_CC_REQUEST, ext_body = []\<rparr>] | None \<Rightarrow> [])"

definition take_answer :: "cc_params option \<Rightarrow> extension list \<Rightarrow> (inner, unit) io_op" where
  "take_answer asking answered i =
     (case asking of
        None \<Rightarrow> Some (Inr (), i)
      | Some p \<Rightarrow>
          (case adopt_congestion_control answered p (flow (cstate i)) of
             Inl e \<Rightarrow> Some (Inl e, i)
           | Inr fl \<Rightarrow> Some (Inr (), i\<lparr>cstate := (cstate i)\<lparr>flow := fl\<rparr>\<rparr>)))"

definition extend_with ::
    "handshake_prims \<Rightarrow> crypto \<Rightarrow> build_env \<Rightarrow> relay_info \<Rightarrow> cc_params option \<Rightarrow> (inner, unit) io_op" where
  "extend_with P C E relay congestion =
     (let asking = asking_for relay congestion in
     op_then (op_lift (Some (start_handshake P (be_random E) relay (cc_request asking)))) (\<lambda>(client, htype, skin).
     op_then (\<lambda>i. Some (last_hop i, i)) (\<lambda>hop.
     op_then (\<lambda>i. Some (send_relay C (be_rng E) hop RELAY_EXTEND2 0 (build_extend2 relay htype skin) True i)) (\<lambda>_.
     op_then (wait_for_handshake C (be_wakes E)) (\<lambda>reply.
     op_then (op_lift (finish_handshake P client reply)) (\<lambda>(keys, answered) i.
       take_answer asking answered (push_hop (hop_new keys) i)))))))"

definition extend_circuit :: "handshake_prims \<Rightarrow> crypto \<Rightarrow> build_env \<Rightarrow> relay_info \<Rightarrow> (inner, unit) io_op" where
  "extend_circuit P C E relay = extend_with P C E relay None"

text \<open>\<^verbatim>\<open>extend_path\<close>, with an environment for each of its three exchanges.\<close>

definition extend_path ::
    "handshake_prims \<Rightarrow> crypto \<Rightarrow> (nat \<Rightarrow> build_env) \<Rightarrow> inner io_result \<Rightarrow> relay_info \<Rightarrow> relay_info \<Rightarrow> relay_info \<Rightarrow>
     (unit io_result \<times> inner option) option" where
  "extend_path P C E fresh guard middle final =
     (case create_circuit P C (E 0) fresh guard of
        Some (Inr _, Some i) \<Rightarrow>
          map_option (\<lambda>(r, i). (r, Some i))
            (or_close (op_then (extend_circuit P C (E 1) middle) (\<lambda>_. extend_circuit P C (E 2) final)) i)
      | x \<Rightarrow> x)"

section \<open>Probing\<close>

definition look_for_answer :: "nat \<Rightarrow> bool \<Rightarrow> inner \<Rightarrow> bool option" where
  "look_for_answer r late i =
     (let b = buf_at i r in
      if connected b \<or> ended b \<noteq> None then Some True
      else if error b \<noteq> None \<or> is_closed i then Some False
      else if late then Some False
      else None)"

fun await_answer :: "crypto \<Rightarrow> nat \<Rightarrow> wakes \<Rightarrow> inner \<Rightarrow> (bool \<times> inner) option" where
  "await_answer C r [] i = map_option (\<lambda>a. (a, i)) (look_for_answer r False i)"
| "await_answer C r ((late, cells) # ws) i =
     (case look_for_answer r late i of
        Some a \<Rightarrow> Some (a, i)
      | None \<Rightarrow> await_answer C r ws (snd (pump C cells i)))"

definition probe :: "crypto \<Rightarrow> build_env \<Rightarrow> (nat \<Rightarrow> bytes io_result) \<Rightarrow> (inner, unit) io_op" where
  "probe C E rng i =
     (case begin_dir_stream C (be_rng E) i of
        (Inl e, i) \<Rightarrow> Some (Inl e, i)
      | (Inr r, i) \<Rightarrow>
          (case await_answer C r (be_wakes E) i of
             None \<Rightarrow> None
           | Some (answered, i) \<Rightarrow>
               let i = close_stream C rng r i in
               if answered then Some (Inr (), i\<lparr>meter := (meter i)\<lparr>wants_probe := False\<rparr>\<rparr>)
               else Some (Inl (IoError TimedOut ''the circuit did not answer a directory request''), i)))"

section \<open>Hops move on and stay the same hops\<close>

text \<open>The same keys: only the counters and the running digests have moved on.\<close>

definition later :: "hop \<Rightarrow> hop \<Rightarrow> bool" where
  "later h h' \<longleftrightarrow> (\<exists>m n p q.
     h' = \<lparr>forward_cipher = advance m (forward_cipher h), backward_cipher = advance n (backward_cipher h),
           forward_digest = digest_update (forward_digest h) p, backward_digest = digest_update (backward_digest h) q\<rparr>)"

lemma advance_simps [simp]: "advance 0 c = c" "advance m (advance n c) = advance (n + m) c"
  by (cases c; simp)+

lemma digest_update_simps [simp]: "digest_update d [] = d" "digest_update (digest_update d p) q = digest_update d (p @ q)"
  by (cases d; simp)+

lemma later_trans: "later h h' \<Longrightarrow> later h' h'' \<Longrightarrow> later h h''"
  unfolding later_def by (elim exE) (simp, blast)

lemma laterI:
  "h' = \<lparr>forward_cipher = advance m (forward_cipher h), backward_cipher = advance n (backward_cipher h),
     forward_digest = digest_update (forward_digest h) p, backward_digest = digest_update (backward_digest h) q\<rparr> \<Longrightarrow> later h h'"
  unfolding later_def by blast

lemma later_refl [simp]: "later h h"
  by (rule laterI [where m = 0 and n = 0 and p = "[]" and q = "[]"]) simp

lemma later_updates [simp]:
  "later h (h\<lparr>forward_cipher := advance m (forward_cipher h)\<rparr>)"
  "later h (h\<lparr>backward_cipher := advance m (backward_cipher h)\<rparr>)"
  "later h (h\<lparr>forward_digest := digest_update (forward_digest h) p\<rparr>)"
  "later h (h\<lparr>backward_cipher := advance m (backward_cipher h), backward_digest := digest_update (backward_digest h) q\<rparr>)"
     apply (rule laterI [where m = m and n = 0 and p = "[]" and q = "[]"], simp)
    apply (rule laterI [where m = 0 and n = m and p = "[]" and q = "[]"], simp)
   apply (rule laterI [where m = 0 and n = 0 and p = p and q = "[]"], simp)
  apply (rule laterI [where m = 0 and n = m and p = "[]" and q = q], simp)
  done

definition hops_later :: "hop list \<Rightarrow> hop list \<Rightarrow> bool" where
  "hops_later hs hs' \<longleftrightarrow> list_all2 later hs hs'"

lemma hops_later_refl [simp]: "hops_later hs hs"
  by (simp add: hops_later_def list_all2_conv_all_nth)

lemma hops_later_trans: "hops_later hs hs' \<Longrightarrow> hops_later hs' hs'' \<Longrightarrow> hops_later hs hs''"
  unfolding hops_later_def by (rule list_all2_trans [of later later later]) (blast intro: later_trans)+

lemma hops_later_update: "later (hs ! k) h \<Longrightarrow> hops_later hs (hs[k := h])"
  by (cases "k < length hs") (auto simp: hops_later_def list_all2_conv_all_nth nth_list_update list_update_beyond)

lemma apply_layers_later: "hops_later hs (snd (apply_layers C order hs xs))"
proof (induction order arbitrary: hs xs)
  case (Cons k order)
  have "hops_later hs (hs[k := (hs ! k)\<lparr>forward_cipher := advance (length xs) (forward_cipher (hs ! k))\<rparr>])"
    by (rule hops_later_update) simp
  then show ?case using Cons.IH hops_later_trans by (fastforce simp: cipher_apply_def)
qed simp

lemma apply_layers_update_later:
  assumes "apply_layers C order (hs[k := (hs ! k)\<lparr>forward_digest := digest_update (forward_digest (hs ! k)) p\<rparr>]) xs = (ys, hs')"
  shows "hops_later hs hs'"
proof -
  have "hops_later hs (hs[k := (hs ! k)\<lparr>forward_digest := digest_update (forward_digest (hs ! k)) p\<rparr>])"
    by (rule hops_later_update) simp
  then show ?thesis using apply_layers_later [of _ C order xs] assms hops_later_trans by (metis snd_conv)
qed

lemma build_relay_cell_later:
  "build_relay_cell C rng cid k cmd sid bs early st = (r, st') \<Longrightarrow> hops_later (hops st) (hops st')"
  unfolding build_relay_cell_def
  by (auto simp: Let_def split: if_splits sum.splits prod.splits simp del: upt_Suc dest: apply_layers_update_later)

lemma decrypt_loop_later: "decrypt_loop C n k xs st = (r, ys, st') \<Longrightarrow> hops_later (hops st) (hops st')"
proof (induction n arbitrary: k xs st)
  case (Suc n)
  let ?h = "(hops st ! k)\<lparr>backward_cipher := advance (length xs) (backward_cipher (hops st ! k))\<rparr>"
  have one: "hops_later (hops st) ((hops st)[k := ?h])" by (rule hops_later_update) simp
  have two: "hops_later (hops st) ((hops st)[k := ?h\<lparr>backward_digest := digest_update (backward_digest (hops st ! k)) z\<rparr>])" for z
    by (rule hops_later_update) simp
  from Suc.prems one two show ?case
    by (auto simp: Let_def cipher_apply_def split: prod.splits if_splits dest!: Suc.IH intro: hops_later_trans)
qed simp

definition same_hops :: "inner \<Rightarrow> inner \<Rightarrow> bool" where
  "same_hops i i' \<longleftrightarrow> hops_later (hops (cstate i)) (hops (cstate i'))"

lemma same_hops_refl: "hops (cstate i') = hops (cstate i) \<Longrightarrow> same_hops i i'"
  by (simp add: same_hops_def)

lemma same_hops_trans: "same_hops i i' \<Longrightarrow> same_hops i' i'' \<Longrightarrow> same_hops i i''"
  unfolding same_hops_def by (rule hops_later_trans)

lemma send_relay_hops: "send_relay C rng hop cmd sid bs early i = (r, i') \<Longrightarrow> same_hops i i'"
  unfolding send_relay_def same_hops_def
  by (auto simp: Let_def split: sum.splits prod.splits dest!: build_relay_cell_later)

lemma deliver_data_hops: "deliver_data C env hop sid bs i = (r, i') \<Longrightarrow> same_hops i i'"
  unfolding deliver_data_def send_prebuilt_def
  by (auto simp: Let_def same_hops_def split: option.splits prod.splits if_splits dest!: send_relay_hops)

lemma handle_data_hops: "handle_data C env hop sid bs i = (r, i') \<Longrightarrow> same_hops i i'"
  unfolding handle_data_def send_prebuilt_def
  by (auto simp: Let_def split: sum.splits prod.splits if_splits dest!: send_relay_hops deliver_data_hops
      intro: same_hops_refl) (auto simp: same_hops_def intro: hops_later_trans)

lemma with_stream_cstate [simp]: "cstate (with_stream sid f i) = cstate i"
  by (simp add: with_stream_def split: option.split)

lemma handle_message_hops: "handle_message C env hop cmd sid bs i = (r, i') \<Longrightarrow> same_hops i i'"
  unfolding handle_message_def
  by (auto simp: Let_def handle_sendme_def push_control_def split: sum.splits if_splits intro: handle_data_hops same_hops_refl)

lemma handle_relay_hops:
  assumes "handle_relay C env c i = (r, i')" shows "same_hops i i'"
proof -
  obtain q plain s where d: "decrypt_inbound C (body c) (cstate i) = (q, plain, s)" by (cases "decrypt_inbound C (body c) (cstate i)") auto
  then have s: "same_hops i (i\<lparr>cstate := s\<rparr>)"
    using decrypt_loop_later [of C _ 0 "body c" "cstate i"] by (simp add: decrypt_inbound_def same_hops_def)
  then show ?thesis
    using assms d unfolding handle_relay_def
    by (auto simp: Let_def split: option.splits if_splits intro: same_hops_refl same_hops_trans [OF s] handle_message_hops)
qed

lemma handle_cell_hops: "handle_cell C env c i = (r, i') \<Longrightarrow> same_hops i i'"
  unfolding handle_cell_def
  by (auto simp: Let_def split: sum.splits if_splits intro: handle_relay_hops same_hops_refl)

lemma pump_end_hops: "same_hops i (pump_end i)"
  by (rule same_hops_refl) (simp add: pump_end_def fail_all_def)

lemma close_circuit_hops: "same_hops i (close_circuit i)"
  by (rule same_hops_refl) (simp add: close_circuit_def fail_all_def Let_def split: sum.split)

lemma pump_hops: "same_hops i (snd (pump C cells i))"
proof (induction C cells i rule: pump.induct)
  case (2 C c env cs i)
  obtain r i1 where h: "handle_cell C env c i = (r, i1)" by force
  note step = same_hops_trans [OF handle_cell_hops [OF h]]
  show ?case
    using h step [OF pump_end_hops] step 2 pump_end_hops by (cases r) auto
qed (simp add: same_hops_refl)

lemma take_handshake_hops: "take_handshake late i = Some (r, i') \<Longrightarrow> same_hops i i'"
  by (auto simp: take_handshake_def split: option.splits if_splits intro!: same_hops_refl)

lemma wait_for_handshake_hops: "wait_for_handshake C ws i = Some (r, i') \<Longrightarrow> same_hops i i'"
proof (induction C ws i rule: wait_for_handshake.induct)
  case (2 C late cells ws i)
  then show ?case
    by (auto split: option.splits dest: take_handshake_hops intro: same_hops_trans [OF pump_hops])
qed (simp add: take_handshake_hops)

section \<open>A hop is keyed by a relay that proved its onion key\<close>

text \<open>
  From the handshakes' specifications: the reply's AUTH field is the one that only the holder of the relay's
  onion key can compute, and the keys are those of the two shared secrets.
\<close>

definition key_proved :: "handshake_prims \<Rightarrow> relay_info \<Rightarrow> bytes \<Rightarrow> bytes \<Rightarrow> circuit_keys \<Rightarrow> bool" where
  "key_proved P relay secret reply keys \<longleftrightarrow>
     (let Y = take 32 reply; B = ntor_onion_key relay in
      \<exists>X xb xy. x_public P secret = Inr X \<and> x_dh P secret B = Inr xb \<and> x_dh P secret Y = Inr xy \<and>
        (case relay_ed_identity relay of
           Some ident \<Rightarrow>
             (let s = v3_secret_input xy xb ident B X Y CIRC_VERIFICATION in
              (\<exists>mac. slice 32 64 reply = v3_auth P (v3_h P s V3_T_VERIFY) ident B Y X mac (drop 64 reply)) \<and>
              keys = keys_of_stream (drop 32 (v3_kdf P (v3_h P s V3_T_KEY_SEED) V3_T_FINAL (32 + CIRCUIT_KEY_LEN))))
         | None \<Rightarrow>
             (let s = ntor_secret_input xy xb (rsa_identity relay) B X Y in
              slice 32 64 reply = ntor_auth P (hmac_sha256 P T_VERIFY s) (rsa_identity relay) B Y X \<and>
              derive_keys P (hmac_sha256 P T_KEY s) = Some keys)))"

lemma handshake_proves_key:
  assumes start: "start_handshake P generated relay exts = Inr (client, htype, skin)"
    and fin: "finish_handshake P client reply = Some (Inr (keys, answered))"
  shows "\<exists>secret. generated = Inr secret \<and> key_proved P relay secret reply keys"
proof (cases "relay_ed_identity relay")
  case (Some ident)
  from start Some obtain cl where cl: "v3_new P generated ident (ntor_onion_key relay) exts = Inr (cl, skin)" "client = ClientNtorV3 cl"
    by (auto simp: start_handshake_def)
  from cl(1) obtain secret X xb where "generated = Inr secret" "x_public P secret = Inr X" "x_dh P secret (ntor_onion_key relay) = Inr xb"
    "v3_secret cl = secret" "v3_x_pub cl = X" "v3_id cl = ident" "v3_b_pub cl = ntor_onion_key relay" "v3_exp_bx cl = xb"
    "v3_verification cl = CIRC_VERIFICATION"
    by (auto simp: v3_new_def v3_build_def Let_def)
  moreover from fin cl(2) obtain ks msg where ks: "v3_complete P cl reply CIRCUIT_KEY_LEN = Inr (ks, msg)" "keys = keys_of_stream ks"
    by (auto simp: v3_finish_def)
  from ks(1) obtain xy where "x_dh P (v3_secret cl) (take 32 reply) = Inr xy"
    "slice 32 64 reply = v3_auth P (v3_h P (v3_secret_input xy (v3_exp_bx cl) (v3_id cl) (v3_b_pub cl) (v3_x_pub cl) (take 32 reply) (v3_verification cl)) V3_T_VERIFY)
       (v3_id cl) (v3_b_pub cl) (take 32 reply) (v3_x_pub cl) (v3_msg_mac cl) (drop 64 reply)"
    "ks = drop 32 (v3_kdf P (v3_h P (v3_secret_input xy (v3_exp_bx cl) (v3_id cl) (v3_b_pub cl) (v3_x_pub cl) (take 32 reply) (v3_verification cl)) V3_T_KEY_SEED)
       V3_T_FINAL (32 + CIRCUIT_KEY_LEN))"
    by (simp add: v3_complete_def Let_def split: if_splits)
  ultimately show ?thesis unfolding key_proved_def Let_def using Some ks(2) by auto
next
  case None
  from start None obtain cl where cl: "ntor_new P generated (rsa_identity relay) (ntor_onion_key relay) = Inr (cl, skin)" "client = ClientNtor cl"
    by (auto simp: start_handshake_def)
  then show ?thesis
    using fin None
    by (auto simp: ntor_new_def ntor_finish_def slice_def Let_def key_proved_def split: if_splits sum.splits)
qed

text \<open>The reply is one that a wait in this environment returned.\<close>

definition delivered :: "crypto \<Rightarrow> build_env \<Rightarrow> bytes \<Rightarrow> bool" where
  "delivered C E reply \<longleftrightarrow> (\<exists>i i'. wait_for_handshake C (be_wakes E) i = Some (Inr reply, i'))"

definition keyed_hop :: "handshake_prims \<Rightarrow> crypto \<Rightarrow> build_env \<Rightarrow> relay_info \<Rightarrow> hop \<Rightarrow> bool" where
  "keyed_hop P C E relay h \<longleftrightarrow>
     (\<exists>secret reply keys. be_random E = Inr secret \<and> delivered C E reply \<and> key_proved P relay secret reply keys \<and> later (hop_new keys) h)"

lemma keyed_hop_later: "keyed_hop P C E relay h \<Longrightarrow> later h h' \<Longrightarrow> keyed_hop P C E relay h'"
  unfolding keyed_hop_def using later_trans by blast

lemma send_own_cell_frame:
  "send_own_cell cmd bs i = Some (r, i') \<Longrightarrow> hops (cstate i') = hops (cstate i)"
  by (auto simp: send_own_cell_def split: sum.splits prod.splits)

lemma push_hop_hops [simp]: "hops (cstate (push_hop h i)) = hops (cstate i) @ [h]"
  by (simp add: push_hop_def)

lemma op_lift_Inr [simp]: "op_lift x s = Some (r, s') \<longleftrightarrow> x = Some r \<and> s' = s"
  by (auto simp: op_lift_def)

lemma do_create_keys:
  assumes "do_create P C E relay i = Some (Inr u, i')"
  shows "\<exists>hs h. hops (cstate i') = hs @ [h] \<and> hops_later (hops (cstate i)) hs \<and> keyed_hop P C E relay h"
proof -
  obtain client htype skin i1 reply i2 keys answered where
    start: "start_handshake P (be_random E) relay [] = Inr (client, htype, skin)"
    and sent: "send_own_cell CMD_CREATE2 (create2_body htype skin) i = Some (Inr (), i1)"
    and wait: "wait_for_handshake C (be_wakes E) i1 = Some (Inr reply, i2)"
    and fin: "finish_handshake P client reply = Some (Inr (keys, answered))" and i': "i' = push_hop (hop_new keys) i2"
    using assms unfolding do_create_def by (auto simp: op_then_Inr)
  have "keyed_hop P C E relay (hop_new keys)"
    using handshake_proves_key [OF start fin] wait unfolding keyed_hop_def delivered_def by fastforce
  then show ?thesis
    using wait_for_handshake_hops [OF wait] send_own_cell_frame [OF sent] by (simp add: i' same_hops_def)
qed

lemma extend_with_keys:
  assumes "extend_with P C E relay congestion i = Some (Inr u, i')"
  shows "\<exists>hs h. hops (cstate i') = hs @ [h] \<and> hops_later (hops (cstate i)) hs \<and> keyed_hop P C E relay h"
proof -
  obtain client htype skin hop i1 reply i2 keys answered where
    start: "start_handshake P (be_random E) relay (cc_request (asking_for relay congestion)) = Inr (client, htype, skin)"
    and sent: "send_relay C (be_rng E) hop RELAY_EXTEND2 0 (build_extend2 relay htype skin) True i = (Inr (), i1)"
    and wait: "wait_for_handshake C (be_wakes E) i1 = Some (Inr reply, i2)"
    and fin: "finish_handshake P client reply = Some (Inr (keys, answered))"
    and i': "take_answer (asking_for relay congestion) answered (push_hop (hop_new keys) i2) = Some (Inr u, i')"
    using assms unfolding extend_with_def Let_def by (auto simp: op_then_Inr)
  have "hops (cstate i') = hops (cstate i2) @ [hop_new keys]"
    using i' by (auto simp: take_answer_def split: option.splits sum.splits)
  moreover have "keyed_hop P C E relay (hop_new keys)"
    using handshake_proves_key [OF start fin] wait unfolding keyed_hop_def delivered_def by fastforce
  moreover have "same_hops i i2" using same_hops_trans [OF send_relay_hops [OF sent] wait_for_handshake_hops [OF wait]] .
  ultimately show ?thesis by (auto simp: same_hops_def)
qed

section \<open>The circuit's invariant while it is built\<close>

lemma take_handshake_inv: "take_handshake late i = Some (r, i') \<Longrightarrow> circ_inv i \<Longrightarrow> circ_inv i'"
  by (auto simp: take_handshake_def circ_inv_handshake split: option.splits if_splits)

lemma pump_snd_inv: "circ_inv i \<Longrightarrow> circ_inv (snd (pump C cells i))"
  using pump_inv by (metis surj_pair snd_conv)

lemma wait_for_handshake_inv: "wait_for_handshake C ws i = Some (r, i') \<Longrightarrow> circ_inv i \<Longrightarrow> circ_inv i'"
proof (induction C ws i rule: wait_for_handshake.induct)
  case (2 C late cells ws i)
  then show ?case by (auto split: option.splits dest: take_handshake_inv intro: pump_snd_inv)
qed (simp add: take_handshake_inv)

lemma send_own_cell_inv:
  assumes "send_own_cell cmd bs i = Some (r, i')" and "circ_inv i" and "cmd \<noteq> CMD_RELAY_EARLY"
  shows "circ_inv i'"
proof (cases "cell_new (inner_id i) cmd bs")
  case (Inr c)
  then have "command c = cmd" "circ_id c = inner_id i" by (auto simp: cell_new_def split: if_splits)
  then show ?thesis using assms Inr chan_send_inv [OF assms(2), of c] by (auto simp: send_own_cell_def split: prod.splits)
qed (use assms in \<open>simp add: send_own_cell_def\<close>)

lemma do_create_inv:
  assumes "do_create P C E relay i = Some (r, i')" and "circ_inv i"
  shows "circ_inv i'"
  using assms unfolding do_create_def
  by (auto simp: op_then_Some cell_const_defs split: prod.splits dest!: wait_for_handshake_inv send_own_cell_inv intro: push_hop_inv)

lemma extend_with_inv:
  assumes "extend_with P C E relay congestion i = Some (r, i')" and "circ_inv i"
  shows "circ_inv i'"
proof -
  have answer: "take_answer asking answered s = Some (r, i') \<Longrightarrow> circ_inv s \<Longrightarrow> circ_inv i'" for asking answered s
    by (auto simp: take_answer_def circ_inv_flow split: option.splits sum.splits)
  show ?thesis
    using assms unfolding extend_with_def Let_def
    by (auto simp: op_then_Some split: prod.splits intro: wait_for_handshake_inv send_relay_inv)
      (metis answer push_hop_inv wait_for_handshake_inv send_relay_inv)
qed

text \<open>No stream is open, and a circuit that is down gets no cells any more.\<close>

definition quiet :: "inner \<Rightarrow> bool" where
  "quiet i \<longleftrightarrow> streams i = Map.empty \<and> (down i \<longrightarrow> \<not> chan_registered (chan i))"

lemma quiet_frame:
  "streams i' = streams i \<Longrightarrow> down i' = down i \<Longrightarrow> chan_registered (chan i') = chan_registered (chan i) \<Longrightarrow> quiet i \<Longrightarrow> quiet i'"
  by (simp add: quiet_def)

lemma send_relay_quiet: "send_relay C rng hop cmd sid bs early i = (r, i') \<Longrightarrow> quiet i \<Longrightarrow> quiet i'"
  by (rule quiet_frame [of i' i]) (simp_all add: send_relay_frame)

lemma cstate_quiet [simp]: "quiet (i\<lparr>cstate := s\<rparr>) = quiet i"
  by (simp add: quiet_def)

lemma with_stream_quiet [simp]: "quiet i \<Longrightarrow> with_stream sid f i = i"
  by (simp add: quiet_def with_stream_def)

lemma handle_data_quiet: "handle_data C env hop sid bs i = (r, i') \<Longrightarrow> quiet i \<Longrightarrow> quiet i'"
proof -
  have deliver: "deliver_data C env hop sid bs s = (Inr (), s)" if "quiet s" for s
    using that by (simp add: deliver_data_def quiet_def)
  show "handle_data C env hop sid bs i = (r, i') \<Longrightarrow> quiet i \<Longrightarrow> quiet i'"
    unfolding handle_data_def send_prebuilt_def
    by (auto simp: Let_def deliver dest: send_relay_quiet split: sum.splits prod.splits if_splits)
qed

lemma handle_message_quiet:
  assumes "handle_message C env hop cmd sid bs i = (r, i')" and "quiet i" shows "quiet i'"
proof -
  have "quiet (i\<lparr>streams := (streams i)(sid := None)\<rparr>)" using assms(2) by (simp add: quiet_def)
  then show ?thesis
    using assms unfolding handle_message_def handle_sendme_def
    by (auto simp: Let_def split: sum.splits if_splits intro: handle_data_quiet)
qed

lemma handle_cell_quiet: "handle_cell C env c i = (r, i') \<Longrightarrow> quiet i \<Longrightarrow> quiet i'"
  unfolding handle_cell_def handle_relay_def
  by (auto simp: Let_def split: sum.splits if_splits prod.splits option.splits dest: handle_message_quiet)

lemma fail_all_quiet: "quiet (fail_all why (i\<lparr>down := True, chan := chan_unregister ch\<rparr>))"
  by (simp add: quiet_def fail_all_def chan_unregister_def)

lemma pump_quiet: "quiet i \<Longrightarrow> quiet (snd (pump C cells i))"
proof (induction C cells i rule: pump.induct)
  case (2 C c env cs i)
  obtain r i1 where h: "handle_cell C env c i = (r, i1)" by force
  then show ?case using 2 handle_cell_quiet [OF h] fail_all_quiet by (cases r) (auto simp: pump_end_def)
qed simp

lemma wait_for_handshake_quiet: "wait_for_handshake C ws i = Some (r, i') \<Longrightarrow> quiet i \<Longrightarrow> quiet i'"
proof -
  have take: "take_handshake late i = Some (r, i') \<Longrightarrow> quiet i \<Longrightarrow> quiet i'" for late i
    by (auto simp: take_handshake_def split: option.splits if_splits)
  show "wait_for_handshake C ws i = Some (r, i') \<Longrightarrow> quiet i \<Longrightarrow> quiet i'"
  proof (induction C ws i rule: wait_for_handshake.induct)
    case (2 C late cells ws i)
    then show ?case by (auto split: option.splits dest: take intro: pump_quiet)
  qed (simp add: take)
qed

lemma push_hop_quiet [simp]: "quiet (push_hop h i) = quiet i"
  by (simp add: push_hop_def)

lemma send_own_cell_quiet: "send_own_cell cmd bs i = Some (r, i') \<Longrightarrow> quiet i \<Longrightarrow> quiet i'"
  by (auto simp: send_own_cell_def chan_send_def quiet_def split: sum.splits prod.splits if_splits)

lemma do_create_quiet: "do_create P C E relay i = Some (r, i') \<Longrightarrow> quiet i \<Longrightarrow> quiet i'"
  unfolding do_create_def
  by (auto simp: op_then_Some split: prod.splits dest!: wait_for_handshake_quiet send_own_cell_quiet)

lemma extend_with_quiet:
  assumes "extend_with P C E relay congestion i = Some (r, i')" and "quiet i"
  shows "quiet i'"
proof -
  have answer: "take_answer asking answered s = Some (r, i') \<Longrightarrow> quiet s \<Longrightarrow> quiet i'" for asking answered s
    by (auto simp: take_answer_def split: option.splits sum.splits)
  show ?thesis
    using assms unfolding extend_with_def Let_def
    by (auto simp: op_then_Some split: prod.splits intro: wait_for_handshake_quiet send_relay_quiet)
      (metis answer push_hop_quiet wait_for_handshake_quiet send_relay_quiet)
qed

lemma close_circuit_quiet:
  assumes "quiet i"
  shows "down (close_circuit i) \<and> \<not> chan_registered (chan (close_circuit i)) \<and> streams (close_circuit i) = Map.empty"
  using assms by (auto simp: quiet_def close_circuit_def fail_all_def chan_unregister_def Let_def split: sum.split)

section \<open>A circuit along a path\<close>

lemma keyed_hop_list_later:
  assumes "list_all2 (\<lambda>(k, relay) h. keyed_hop P C (E k) relay h) path hs" and "hops_later hs hs'"
  shows "list_all2 (\<lambda>(k, relay) h. keyed_hop P C (E k) relay h) path hs'"
  using assms unfolding hops_later_def
  by (rule list_all2_trans [rotated]) (auto intro: keyed_hop_later)

lemma path_extended:
  assumes "extend_circuit P C (E k) relay i = Some (Inr u, i')"
    and "list_all2 (\<lambda>(k, relay) h. keyed_hop P C (E k) relay h) path (hops (cstate i))"
  shows "list_all2 (\<lambda>(k, relay) h. keyed_hop P C (E k) relay h) (path @ [(k, relay)]) (hops (cstate i'))"
proof -
  obtain hs h where "hops (cstate i') = hs @ [h]" "hops_later (hops (cstate i)) hs" "keyed_hop P C (E k) relay h"
    using extend_with_keys assms(1) unfolding extend_circuit_def by blast
  then show ?thesis using keyed_hop_list_later [OF assms(2)] by (simp add: list_all2_appendI)
qed

lemma new_on_quiet: "quiet (new_on cid)"
  by (simp add: quiet_def new_on_def)

text \<open>Whatever is run on a quiet circuit in good order leaves it so, or closes it.\<close>

lemma or_close_sound:
  assumes "or_close m i = Some (r, i')" and "\<forall>r i'. m i = Some (r, i') \<longrightarrow> circ_inv i' \<and> quiet i'"
  shows "circ_inv i' \<and> (case r of Inr u \<Rightarrow> m i = Some (Inr u, i') \<and> quiet i'
           | Inl _ \<Rightarrow> down i' \<and> \<not> chan_registered (chan i') \<and> streams i' = Map.empty)"
  using assms close_circuit_quiet close_circuit_inv
  by (auto simp: or_close_def split: option.splits sum.splits prod.splits)


section \<open>A relay that follows the protocol joins the circuit\<close>

lemma handle_extended2:
  assumes "sealed_by C (cstate i) h RELAY_EXTENDED2 0 (u16_to_be (length reply) @ reply) padding c" and "digest_sizes C"
    and "length reply \<le> u16_max"
  shows "\<exists>z. handle_cell C env c i = (Inr (), i\<lparr>cstate := (received_at C h z (cstate i))\<lparr>handshake := Some (Inr reply)\<rparr>\<rparr>)"
proof -
  have two: "u16_to_be (length reply) @ reply = word_of_nat (length reply div 256) # word_of_nat (length reply) # reply"
    by (simp add: u16_to_be_def)
  have "be_u16 (u16_to_be (length reply) @ reply) 0 = Inr (length reply)"
    using assms(3) unfolding two by (simp add: be_u16_def slice_def u16_be_roundtrip)
  then show ?thesis
    using handle_cell_sealed [OF assms(1,2), of env] by (auto simp: handle_message_def slice_def two)
qed

lemma extended2_awaited:
  assumes "sealed_by C (cstate i) h RELAY_EXTENDED2 0 (u16_to_be (length reply) @ reply) padding c" and "digest_sizes C"
    and "length reply \<le> u16_max" and "handshake (cstate i) = None" and "\<not> is_closed i"
  shows "\<exists>z. wait_for_handshake C [(False, [(c, env)])] i = Some (Inr reply, i\<lparr>cstate := (received_at C h z (cstate i))\<lparr>handshake := None\<rparr>\<rparr>)"
proof -
  obtain z where "handle_cell C env c i = (Inr (), i\<lparr>cstate := (received_at C h z (cstate i))\<lparr>handshake := Some (Inr reply)\<rparr>\<rparr>)"
    using handle_extended2 [OF assms(1-3)] by blast
  moreover have "\<not> down i" using assms(5) by (simp add: is_closed_def)
  ultimately show ?thesis using assms(4,5) by (auto simp: take_handshake_def)
qed

text \<open>
  C6: a relay that follows its half of ntor-v3 joins the circuit, and both ends hold the same keys. The
  EXTEND2 message opens at the last hop, in a RELAY\_EARLY cell, with the relay's link specifiers and the
  onion skin; the relay accepts the skin and reads from it whether congestion control is asked for; and
  when its reply comes back sealed by the last hop, the client adds one hop, with exactly the relay's keys,
  and takes up congestion control as the relay's answer says.
\<close>

theorem honest_relay_joins:
  assumes laws: "prims_ok P" "digest_sizes C" "fills (be_rng E)"
    and relay: "relay_ed_identity relay = Some ident" "length ident = 32" "x_public P b = Inr (ntor_onion_key relay)" "x_public P y = Inr Y"
    and client: "be_random E = Inr x" "x_dh P x Y = Inr xy"
      "v3_new P (Inr x) ident (ntor_onion_key relay) (cc_request (asking_for relay congestion)) = Inr (cl, skin)"
    and answer: "encode_extensions answer = Inr message"
    and circuit: "last_hop i = Inr h" "handshake (cstate i) = None" "\<not> is_closed i"
    and sent: "send_relay C (be_rng E) h RELAY_EXTEND2 0 (build_extend2 relay HANDSHAKE_TYPE_NTOR_V3 skin) True i = (Inr (), i1)"
    and reply_back: "\<forall>reply. v3_server P b y ident CIRC_VERIFICATION skin answer = Some reply \<longrightarrow> length (fst reply) \<le> u16_max \<and>
      sealed_by C (cstate i1) h RELAY_EXTENDED2 0 (u16_to_be (length (fst reply)) @ fst reply) padding c"
    and wakes: "be_wakes E = [(False, [(c, env)])]"
  shows "\<exists>cell reply keys z.
     chan_sent (chan i1) = chan_sent (chan i) @ [cell] \<and> command cell = CMD_RELAY_EARLY \<and>
     opens_as C (hops (cstate i)) h cell RELAY_EXTEND2 0 (build_extend2 relay HANDSHAKE_TYPE_NTOR_V3 skin) \<and>
     v3_server P b y ident CIRC_VERIFICATION skin answer = Some (reply, keys, cc_request (asking_for relay congestion)) \<and>
     extend_with P C E relay congestion i =
       take_answer (asking_for relay congestion) answer
         (push_hop (hop_new keys) (i1\<lparr>cstate := (received_at C h z (cstate i1))\<lparr>handshake := None\<rparr>\<rparr>))"
proof -
  obtain reply keys where server: "v3_server P b y ident CIRC_VERIFICATION skin answer = Some (reply, keys, cc_request (asking_for relay congestion))"
    and fin: "v3_finish P cl reply = Inr (keys, answer)"
    using ntor_v3_agreement [OF laws(1) relay(2,3,4) client(3,2) answer] by blast
  obtain cell s where cell: "build_relay_cell C (be_rng E) (inner_id i) h RELAY_EXTEND2 0 (build_extend2 relay HANDSHAKE_TYPE_NTOR_V3 skin) True (cstate i) = (Inr cell, s)"
    and i1: "chan_sent (chan i1) = chan_sent (chan i) @ [cell]"
    using sent by (auto simp: send_relay_def chan_send_def split: prod.splits sum.splits if_splits)
  have early: "command cell = CMD_RELAY_EARLY" using built_cell_opens [OF cell laws(3,2)] by (auto simp: Let_def)
  note frame = send_relay_frame [OF sent]
  have open1: "handshake (cstate i1) = None" "\<not> is_closed i1" using circuit frame by (simp_all add: is_closed_def)
  obtain z where wait: "wait_for_handshake C (be_wakes E) i1 = Some (Inr reply, i1\<lparr>cstate := (received_at C h z (cstate i1))\<lparr>handshake := None\<rparr>\<rparr>)"
    using reply_back [rule_format, OF server] extended2_awaited [OF _ laws(2) _ open1] unfolding wakes by fastforce
  have "start_handshake P (be_random E) relay (cc_request (asking_for relay congestion)) = Inr (ClientNtorV3 cl, HANDSHAKE_TYPE_NTOR_V3, skin)"
    using relay(1) client by (simp add: start_handshake_def)
  then have "extend_with P C E relay congestion i =
      take_answer (asking_for relay congestion) answer
        (push_hop (hop_new keys) (i1\<lparr>cstate := (received_at C h z (cstate i1))\<lparr>handshake := None\<rparr>\<rparr>))"
    using circuit(1) sent wait fin by (simp add: extend_with_def op_then_def op_lift_def)
  then show ?thesis using i1 early built_cell_opens_as [OF cell laws(3,2)] server by blast
qed

section \<open>A relay joins a circuit of one hop\<close>

definition demo_relay :: relay_info where
  "demo_relay = \<lparr>relay_ip = [1, 2, 3, 4], relay_port = 9001, rsa_identity = replicate 20 5,
     relay_ed_identity = Some (replicate 32 7), ntor_onion_key = replicate 32 2\<rparr>"

definition demo_one_hop :: inner where
  "demo_one_hop = push_hop (hop_new \<lparr>df = [1], db = [2], kf = [3], kb = [4]\<rparr>) (new_on 9)"

definition demo_build :: "cell \<Rightarrow> build_env" where
  "demo_build c = \<lparr>be_random = Inr (replicate 32 1), be_rng = demo_rng, be_wakes = [(False, [(c, demo_env)])]\<rparr>"

lemma v3_server_reply:
  assumes "prims_ok P" and "v3_server P b y ident v hdata answer = Some r"
  shows "\<exists>m. encode_extensions answer = Inr m \<and> length (fst r) = 64 + length m"
proof -
  have "x_public P y = Inr Y \<Longrightarrow> length Y = 32" for Y using prims_okD(1) [OF assms(1)] by blast
  then show ?thesis
    using assms(2) prims_okD(5,8) [OF assms(1)]
    by (auto simp: v3_server_def Let_def v3_h_def v3_enc_def split: sum.splits if_splits)
qed

lemma v3_skin_length:
  assumes "prims_ok P" and "v3_new P (Inr x) ident B exts = Inr (cl, skin)"
  shows "\<exists>m. encode_extensions exts = Inr m \<and> length skin = length ident + length B + 64 + length m"
proof -
  have "x_public P x = Inr X \<Longrightarrow> length X = 32" for X using prims_okD(1) [OF assms(1)] by blast
  then show ?thesis
    using assms(2) prims_okD(5,8) [OF assms(1)]
    by (auto simp: v3_new_def v3_build_def Let_def v3_mac_def v3_enc_def)
qed

theorem honest_relay_joins_witness:
  "\<exists>c skin reply keys i'. v3_server demo_prims (replicate 32 2) (replicate 32 3) (replicate 32 7) CIRC_VERIFICATION skin [] = Some (reply, keys, []) \<and>
     extend_with demo_prims demo_crypto (demo_build c) demo_relay None demo_one_hop = Some (Inr (), i') \<and>
     List.last (hops (cstate i')) = hop_new keys"
proof -
  have none: "encode_extensions [] = Inr [0]" by (simp add: encode_extensions_def)
  obtain s t where dh: "x_dh demo_prims (replicate 32 1) (replicate 32 2) = Inr s" "x_dh demo_prims (replicate 32 1) (replicate 32 3) = Inr t"
    using demo_exchange(2) by blast
  obtain cl skin where new: "v3_new demo_prims (Inr (replicate 32 1)) (replicate 32 7) (replicate 32 2) [] = Inr (cl, skin)"
    using v3_new_returns [OF demo_exchange(1) dh(1) none] by blast
  have skin: "length skin = 129" using v3_skin_length [OF demo_prims_ok new] none by auto
  let ?m = "build_extend2 demo_relay HANDSHAKE_TYPE_NTOR_V3 skin"
  have fits: "length ?m \<le> RELAY_DATA_MAX"
    using skin by (simp add: build_extend2_def link_specifiers_def demo_relay_def u16_to_be_def RELAY_DATA_MAX_def
        RELAY_HEADER_LEN_def CELL_BODY_LEN_def)
  have one: "hops (cstate demo_one_hop) = [hop_new \<lparr>df = [1], db = [2], kf = [3], kb = [4]\<rparr>]" "\<not> is_closed demo_one_hop"
     "handshake (cstate demo_one_hop) = None" "0 < relay_early_left (cstate demo_one_hop)" "\<not> chan_closed (chan demo_one_hop)"
    by (simp_all add: demo_one_hop_def push_hop_def new_on_def new_state_def is_closed_def MAX_RELAY_EARLY_def)
  obtain cell st where built: "build_relay_cell demo_crypto demo_rng (inner_id demo_one_hop) 0 RELAY_EXTEND2 0 ?m True (cstate demo_one_hop) = (Inr cell, st)"
    using build_relay_cell_ok [OF fits, of 0 "cstate demo_one_hop" True demo_rng demo_crypto "inner_id demo_one_hop" RELAY_EXTEND2 0] one demo_laws
    by auto
  then obtain i1 where sent: "send_relay demo_crypto demo_rng 0 RELAY_EXTEND2 0 ?m True demo_one_hop = (Inr (), i1)"
    using one(5) by (simp add: send_relay_def chan_send_def)
  have hops1: "length (hops (cstate i1)) = 1" using send_relay_frame [OF sent] one(1) by simp
  let ?ex = "\<lambda>r. u16_to_be (length r) @ r" and ?pad = "replicate 431 (0 :: u8)"
  let ?c = "\<lambda>r. \<lparr>circ_id = 9, command = CMD_RELAY, body = relay_seal demo_crypto (hops (cstate i1)) 0 RELAY_EXTENDED2 0 (?ex r) ?pad\<rparr>"
  have seals: "sealed_by demo_crypto (cstate i1) 0 RELAY_EXTENDED2 0 (?ex r) ?pad (?c r)" if "length r = 65" for r
    using that hops1 by (simp add: sealed_by_def u16_to_be_def RELAY_DATA_MAX_def RELAY_HEADER_LEN_def CELL_BODY_LEN_def)
  have len: "length (fst r) = 65" if "v3_server demo_prims (replicate 32 2) (replicate 32 3) (replicate 32 7) CIRC_VERIFICATION skin [] = Some r" for r
    using v3_server_reply [OF demo_prims_ok that] none by simp
  obtain r where r: "\<forall>reply. v3_server demo_prims (replicate 32 2) (replicate 32 3) (replicate 32 7) CIRC_VERIFICATION skin [] = Some reply \<longrightarrow> fst reply = r"
    by (cases "v3_server demo_prims (replicate 32 2) (replicate 32 3) (replicate 32 7) CIRC_VERIFICATION skin []") auto
  have ask: "asking_for demo_relay None = None" "cc_request None = []" by (simp_all add: asking_for_def cc_request_def)
  have relay: "relay_ed_identity demo_relay = Some (replicate 32 7)" "ntor_onion_key demo_relay = replicate 32 2" by (simp_all add: demo_relay_def)
  have env: "be_random (demo_build c) = Inr (replicate 32 1)" "be_rng (demo_build c) = demo_rng" "be_wakes (demo_build c) = [(False, [(c, demo_env)])]" for c
    by (simp_all add: demo_build_def)
  have "\<exists>cell reply keys z.
     chan_sent (chan i1) = chan_sent (chan demo_one_hop) @ [cell] \<and> command cell = CMD_RELAY_EARLY \<and>
     opens_as demo_crypto (hops (cstate demo_one_hop)) 0 cell RELAY_EXTEND2 0 ?m \<and>
     v3_server demo_prims (replicate 32 2) (replicate 32 3) (replicate 32 7) CIRC_VERIFICATION skin [] = Some (reply, keys, cc_request (asking_for demo_relay None)) \<and>
     extend_with demo_prims demo_crypto (demo_build (?c r)) demo_relay None demo_one_hop =
       take_answer (asking_for demo_relay None) []
         (push_hop (hop_new keys) (i1\<lparr>cstate := (received_at demo_crypto 0 z (cstate i1))\<lparr>handshake := None\<rparr>\<rparr>))"
  proof (rule honest_relay_joins [where Y = "replicate 32 3" and x = "replicate 32 1" and xy = t and cl = cl and message = "[0]"
        and padding = ?pad and c = "?c r" and env = demo_env])
    show "last_hop demo_one_hop = Inr 0" using one(1) by (simp add: last_hop_def)
    show "\<forall>reply. v3_server demo_prims (replicate 32 2) (replicate 32 3) (replicate 32 7) CIRC_VERIFICATION skin [] = Some reply \<longrightarrow>
        length (fst reply) \<le> u16_max \<and> sealed_by demo_crypto (cstate i1) 0 RELAY_EXTENDED2 0 (?ex (fst reply)) ?pad (?c r)"
      using r len seals by fastforce
  qed (use demo_prims_ok demo_laws one new dh none sent ask relay env demo_exchange(1) in simp_all)
  then show ?thesis unfolding ask by (fastforce simp: take_answer_def)
qed

text \<open>A circuit whose first relay answers nothing before the deadline.\<close>

definition silent_build :: build_env where
  "silent_build = \<lparr>be_random = Inr (replicate 32 1), be_rng = demo_rng, be_wakes = [(False, []), (True, [])]\<rparr>"


end
