(* ===== verification/Onion_Descriptor.thy ===== *)
theory Onion_Descriptor
  imports Certificates Circuit_Paths Utf8_Text
begin

text \<open>
  Onion service descriptors, \<^verbatim>\<open>src/tor/hs/descriptor.rs\<close>: the signed outer document, its two layers of
  encryption, and the introduction points inside. SHA3, SHAKE, AES-256 in counter mode and Ed25519
  come from OpenSSL and are an argument.
\<close>

section \<open>Data\<close>

definition SIGNATURE_PREFIX :: bytes where "SIGNATURE_PREFIX = as_bytes ''Tor onion service descriptor sig v3''"
definition SALT_LEN :: nat where "SALT_LEN = 16"
definition MAC_LEN :: nat where "MAC_LEN = 32"
definition SECRET_KEY_LEN :: nat where "SECRET_KEY_LEN = 32"
definition SECRET_IV_LEN :: nat where "SECRET_IV_LEN = 16"
definition MAC_KEY_LEN :: nat where "MAC_KEY_LEN = 32"
definition MAX_INTRO_POINTS :: nat where "MAX_INTRO_POINTS = 20"
definition MAX_DESCRIPTOR_BYTES :: nat where "MAX_DESCRIPTOR_BYTES = 50 * 1024"

lemmas layer_lengths = SALT_LEN_def MAC_LEN_def SECRET_KEY_LEN_def SECRET_IV_LEN_def MAC_KEY_LEN_def

record intro_point =
  ip_relay :: relay_info
  ip_auth_key :: bytes
  ip_enc_key :: bytes

record service_flow =
  sf_max_version :: nat
  sf_sendme_inc :: nat

record descriptor =
  lifetime_minutes :: nat
  revision_counter :: nat
  intro_points :: "intro_point list"
  service_flow_control :: "service_flow option"

record desc_prims =
  dp_sha3 :: "bytes \<Rightarrow> bytes"
  dp_shake :: "bytes \<Rightarrow> nat \<Rightarrow> bytes"
  dp_aes_ctr :: "bytes \<Rightarrow> bytes \<Rightarrow> bytes \<Rightarrow> bytes"
  dp_verify :: verifier

section \<open>The flow-control line\<close>

definition service_flow_parse :: "string \<Rightarrow> service_flow option" where
  "service_flow_parse args =
     (case split_whitespace args of
        vs_range # n # _ \<Rightarrow>
          (case parse_u8 n of
             None \<Rightarrow> None
           | Some step \<Rightarrow>
               (case List.map_filter parse_u8 (split_char (CHR ''-'') vs_range) of
                  [] \<Rightarrow> None
                | v # vs \<Rightarrow> Some \<lparr>sf_max_version = fold max vs v, sf_sendme_inc = step\<rparr>))
      | _ \<Rightarrow> None)"

section \<open>Certificates and the outer signature\<close>

definition hs_certified_key :: "verifier \<Rightarrow> ed25519_cert \<Rightarrow> u8 \<Rightarrow> bytes \<Rightarrow> nat \<Rightarrow> bytes io_result" where
  "hs_certified_key verify cert t expected_signer now_unix =
     and_then (check (cert_type cert = t) ''unexpected certificate type'') (\<lambda>_.
     and_then (ok_or (invalid_data ''certificate has no signed-with-ed25519-key extension'') (ed25519_cert.signing_key cert)) (\<lambda>signer.
     and_then (check (signer = expected_signer) ''certificate is signed by an unexpected key'') (\<lambda>_.
     and_then (check (check_signature verify signer cert) ''certificate signature does not verify'') (\<lambda>_.
     and_then (check (\<not> is_expired now_unix cert) ''certificate expired'') (\<lambda>_.
       Inr (certified_key cert))))))"

definition check_desc_signature :: "verifier \<Rightarrow> string \<Rightarrow> bytes \<Rightarrow> unit io_result" where
  "check_desc_signature verify text key =
     and_then (ok_or (invalid_data ''descriptor has no signature line'') (line_start_of text ''signature '')) (\<lambda>signed_len.
     and_then (ok_or (invalid_data ''descriptor has no signature line'') (item text ''signature'')) (\<lambda>args.
     and_then (base64_decode (trim args)) (\<lambda>sig.
       check (verify key (SIGNATURE_PREFIX @ take signed_len (as_bytes text)) sig) ''descriptor signature does not verify'')))"

section \<open>Encryption layers\<close>

definition layer_keys :: "desc_prims \<Rightarrow> bytes \<Rightarrow> bytes \<Rightarrow> bytes \<Rightarrow> nat \<Rightarrow> bytes \<Rightarrow> bytes" where
  "layer_keys P salt secret_data subcredential revision string_constant =
     dp_shake P (secret_data @ subcredential @ int8 revision @ salt @ string_constant)
       (SECRET_KEY_LEN + SECRET_IV_LEN + MAC_KEY_LEN)"

definition layer_mac :: "desc_prims \<Rightarrow> bytes \<Rightarrow> bytes \<Rightarrow> bytes \<Rightarrow> bytes" where
  "layer_mac P mac_key salt ciphertext =
     dp_sha3 P (int8 (length mac_key) @ mac_key @ int8 (length salt) @ salt @ ciphertext)"

fun strip_nuls :: "bytes \<Rightarrow> bytes" where
  "strip_nuls bs = (if bs \<noteq> [] \<and> last bs = 0 then strip_nuls (butlast bs) else bs)"

declare strip_nuls.simps [simp del]

definition decrypt_layer :: "desc_prims \<Rightarrow> bytes \<Rightarrow> bytes \<Rightarrow> bytes \<Rightarrow> nat \<Rightarrow> bytes \<Rightarrow> string io_result" where
  "decrypt_layer P blob secret_data subcredential revision string_constant =
     (if length blob \<le> SALT_LEN + MAC_LEN then Inl (invalid_data ''encrypted descriptor layer is too short'')
      else let salt = take SALT_LEN blob;
               ciphertext = slice SALT_LEN (length blob - MAC_LEN) blob;
               mac = drop (length blob - MAC_LEN) blob;
               keys = layer_keys P salt secret_data subcredential revision string_constant;
               secret_key = take SECRET_KEY_LEN keys;
               secret_iv = slice SECRET_KEY_LEN (SECRET_KEY_LEN + SECRET_IV_LEN) keys;
               mac_key = drop (SECRET_KEY_LEN + SECRET_IV_LEN) keys
           in if \<not> constant_time_eq (layer_mac P mac_key salt ciphertext) mac
              then Inl (invalid_data ''descriptor layer MAC does not match: wrong key or a tampered document'')
              else let plaintext = strip_nuls (dp_aes_ctr P secret_key secret_iv ciphertext)
                   in if valid_utf8 plaintext then Inr (to_text plaintext)
                      else Inl (invalid_data ''decrypted descriptor is not UTF-8''))"

section \<open>Introduction points\<close>

text \<open>Where the lines starting with \<^verbatim>\<open>introduction-point\<close> and a space are.\<close>

function intro_starts :: "nat \<Rightarrow> string \<Rightarrow> nat list" where
  "intro_starts offset text =
     (case line_start_of (drop offset text) ''introduction-point '' of
        None \<Rightarrow> []
      | Some relative \<Rightarrow>
          let absolute = offset + relative in
          (case find_str [newline] (drop absolute text) of
             None \<Rightarrow> [absolute]
           | Some newline_at \<Rightarrow>
               if absolute + newline_at + 1 \<ge> length text then [absolute]
               else absolute # intro_starts (absolute + newline_at + 1) text))"
  by pat_completeness auto
termination
  by (relation "measure (\<lambda>(offset, text). length text - offset)") auto

declare intro_starts.simps [simp del]

fun intro_blocks :: "nat list \<Rightarrow> string \<Rightarrow> string list" where
  "intro_blocks [] text = []"
| "intro_blocks (start # starts) text =
     slice start (case starts of [] \<Rightarrow> length text | stop # _ \<Rightarrow> stop) text # intro_blocks starts text"

definition split_intro_points :: "string \<Rightarrow> string list" where
  "split_intro_points text = intro_blocks (intro_starts 0 text) text"

definition keyed_value :: "string \<Rightarrow> string \<Rightarrow> string \<Rightarrow> bytes option" where
  "keyed_value block keyword kind =
     find_map (\<lambda>line.
       case item_args line keyword of
         None \<Rightarrow> None
       | Some args \<Rightarrow>
           (case split_once (CHR '' '') args of
              None \<Rightarrow> None
            | Some (found, val) \<Rightarrow>
                if found \<noteq> kind then None
                else (case base64_fixed 32 (trim val) of Inr k \<Rightarrow> Some k | Inl _ \<Rightarrow> None)))
       (lines block)"

text \<open>What a list of link specifiers named: an IPv4 address and port, a legacy identity, an Ed25519 identity.\<close>

record found_specs =
  fs_addr :: "(bytes \<times> nat) option"
  fs_rsa :: "bytes option"
  fs_ed :: "bytes option"

definition note_spec :: "u8 \<Rightarrow> bytes \<Rightarrow> found_specs \<Rightarrow> found_specs" where
  "note_spec kind bs f =
     (if kind = 0 \<and> length bs = 6 then f\<lparr>fs_addr := Some (take 4 bs, u16_from_be (bs ! 4) (bs ! 5))\<rparr>
      else if kind = 2 \<and> length bs = 20 then f\<lparr>fs_rsa := Some bs\<rparr>
      else if kind = 3 \<and> length bs = 32 then f\<lparr>fs_ed := Some bs\<rparr>
      else f)"

fun spec_loop :: "nat \<Rightarrow> bytes \<Rightarrow> nat \<Rightarrow> found_specs \<Rightarrow> found_specs io_result" where
  "spec_loop 0 bs pos f = Inr f"
| "spec_loop (Suc n) bs pos f =
     (if length bs < pos + 2 then Inl (invalid_data ''truncated link specifier header'')
      else let start = pos + 2; stop = start + unat (bs ! (pos + 1))
           in if length bs < stop then Inl (invalid_data ''link specifier runs past the end'')
              else spec_loop n bs stop (note_spec (bs ! pos) (slice start stop bs) f))"

definition parse_link_specifiers :: "bytes \<Rightarrow> found_specs io_result" where
  "parse_link_specifiers bs =
     (case bs of
        [] \<Rightarrow> Inl (invalid_data ''empty link specifier list'')
      | n # _ \<Rightarrow> spec_loop (unat n) bs 1 \<lparr>fs_addr = None, fs_rsa = None, fs_ed = None\<rparr>)"

definition parse_intro_point :: "verifier \<Rightarrow> string \<Rightarrow> bytes \<Rightarrow> nat \<Rightarrow> intro_point io_result" where
  "parse_intro_point verify block key now_unix =
     and_then (ok_or (invalid_data ''introduction point has no link specifiers'') (item block ''introduction-point'')) (\<lambda>specs.
     and_then (base64_decode (trim specs)) (\<lambda>spec_bytes.
     and_then (parse_link_specifiers spec_bytes) (\<lambda>found.
     and_then (ok_or (invalid_data ''introduction point has no ntor onion-key'') (keyed_value block ''onion-key'' ''ntor'')) (\<lambda>onion.
     and_then (item_object block ''auth-key'' ''ED25519 CERT'') (\<lambda>auth_bytes.
     and_then (ed_cert_parse auth_bytes) (\<lambda>auth_cert.
     and_then (hs_certified_key verify auth_cert CERT_TYPE_HS_INTRO_AUTH key now_unix) (\<lambda>auth.
     and_then (ok_or (invalid_data ''introduction point has no ntor enc-key'') (keyed_value block ''enc-key'' ''ntor'')) (\<lambda>enc.
     and_then (item_object block ''enc-key-cert'' ''ED25519 CERT'') (\<lambda>enc_bytes.
     and_then (ed_cert_parse enc_bytes) (\<lambda>enc_cert.
     and_then (hs_certified_key verify enc_cert CERT_TYPE_HS_INTRO_ENC key now_unix) (\<lambda>_.
     and_then (ok_or (invalid_data ''introduction point has no IPv4 address'') (fs_addr found)) (\<lambda>(ip, p).
     and_then (ok_or (invalid_data ''introduction point has no legacy identity'') (fs_rsa found)) (\<lambda>rsa.
       Inr \<lparr>ip_relay = \<lparr>relay_ip = ip, relay_port = p, rsa_identity = rsa, relay_ed_identity = fs_ed found, ntor_onion_key = onion\<rparr>,
            ip_auth_key = auth, ip_enc_key = enc\<rparr>)))))))))))))"

text \<open>An unusable introduction point is skipped, and the loop stops when the list is full.\<close>

fun intro_loop :: "verifier \<Rightarrow> bytes \<Rightarrow> nat \<Rightarrow> intro_point list \<Rightarrow> string list \<Rightarrow> intro_point list" where
  "intro_loop verify key now_unix points [] = points"
| "intro_loop verify key now_unix points (block # blocks) =
     (let points = (case parse_intro_point verify block key now_unix of Inr p \<Rightarrow> points @ [p] | Inl _ \<Rightarrow> points)
      in if length points = MAX_INTRO_POINTS then points else intro_loop verify key now_unix points blocks)"

definition parse_inner :: "verifier \<Rightarrow> string \<Rightarrow> bytes \<Rightarrow> nat \<Rightarrow> intro_point list io_result" where
  "parse_inner verify text key now_unix =
     and_then (ok_or (invalid_data ''descriptor has no create2-formats'') (item text ''create2-formats'')) (\<lambda>formats.
     and_then (check (''2'' \<in> set (split_whitespace formats))
         ''service does not offer the ntor handshake (create2-formats has no 2)'') (\<lambda>_.
       case item text ''intro-auth-required'' of
         Some types \<Rightarrow> Inl (IoError PermissionDenied ''service requires client authorization, which is not supported'')
       | None \<Rightarrow>
           let points = intro_loop verify key now_unix [] (split_intro_points text)
           in if points = [] then Inl (invalid_data ''descriptor lists no usable introduction points'') else Inr points))"

section \<open>Descriptors\<close>

definition usable_number :: "string \<Rightarrow> string \<Rightarrow> nat option" where
  "usable_number text keyword = (case item text keyword of None \<Rightarrow> None | Some v \<Rightarrow> parse_u64 (trim v))"

definition descriptor_parse :: "desc_prims \<Rightarrow> string \<Rightarrow> bytes \<Rightarrow> bytes \<Rightarrow> nat \<Rightarrow> descriptor io_result" where
  "descriptor_parse P text blinded subcredential now_unix =
     and_then (ok_or (invalid_data ''not an onion service descriptor'') (item text ''hs-descriptor'')) (\<lambda>version.
     and_then (check (trim version = ''3'') ''unsupported descriptor version'') (\<lambda>_.
     and_then (ok_or (invalid_data ''descriptor has no usable descriptor-lifetime'') (usable_number text ''descriptor-lifetime'')) (\<lambda>lifetime.
     and_then (ok_or (invalid_data ''descriptor has no usable revision-counter'') (usable_number text ''revision-counter'')) (\<lambda>revision.
     and_then (item_object text ''descriptor-signing-key-cert'' ''ED25519 CERT'') (\<lambda>cert_bytes.
     and_then (ed_cert_parse cert_bytes) (\<lambda>cert.
     and_then (hs_certified_key (dp_verify P) cert CERT_TYPE_HS_DESC_SIGN blinded now_unix) (\<lambda>key.
     and_then (check_desc_signature (dp_verify P) text key) (\<lambda>_.
     and_then (item_object text ''superencrypted'' ''MESSAGE'') (\<lambda>superencrypted.
     and_then (decrypt_layer P superencrypted blinded subcredential revision (as_bytes ''hsdir-superencrypted-data'')) (\<lambda>middle.
     and_then (item_object middle ''encrypted'' ''MESSAGE'') (\<lambda>encrypted.
     and_then (decrypt_layer P encrypted blinded subcredential revision (as_bytes ''hsdir-encrypted-data'')) (\<lambda>inner.
     and_then (parse_inner (dp_verify P) inner key now_unix) (\<lambda>points.
       Inr \<lparr>lifetime_minutes = lifetime, revision_counter = revision, intro_points = points,
            service_flow_control = (case item inner ''flow-control'' of None \<Rightarrow> None | Some args \<Rightarrow> service_flow_parse args)\<rparr>)))))))))))))"

section \<open>Sealing a layer\<close>

definition desc_prims_ok :: "desc_prims \<Rightarrow> bool" where
  "desc_prims_ok P \<longleftrightarrow>
     (\<forall>m. length (dp_sha3 P m) = 32) \<and> (\<forall>m n. length (dp_shake P m n) = n) \<and>
     (\<forall>k iv m. dp_aes_ctr P k iv (dp_aes_ctr P k iv m) = m \<and> length (dp_aes_ctr P k iv m) = length m)"

lemma desc_prims_okD:
  assumes "desc_prims_ok P"
  shows "length (dp_sha3 P m) = 32" "length (dp_shake P m n) = n"
    "dp_aes_ctr P k iv (dp_aes_ctr P k iv m) = m" "length (dp_aes_ctr P k iv m) = length m"
  using assms unfolding desc_prims_ok_def by blast+

text \<open>What a service writes for a layer, from rend-spec: the salt, the padded text encrypted, and the MAC.\<close>

definition seal_layer :: "desc_prims \<Rightarrow> bytes \<Rightarrow> bytes \<Rightarrow> bytes \<Rightarrow> nat \<Rightarrow> bytes \<Rightarrow> bytes \<Rightarrow> bytes" where
  "seal_layer P salt secret_data subcredential revision string_constant plain =
     (let keys = layer_keys P salt secret_data subcredential revision string_constant;
          ciphertext = dp_aes_ctr P (take 32 keys) (slice 32 48 keys) plain
      in salt @ ciphertext @ layer_mac P (drop 48 keys) salt ciphertext)"

lemma strip_nuls_iff: "strip_nuls bs = p \<longleftrightarrow> (\<exists>pad. bs = p @ replicate pad 0) \<and> (p = [] \<or> last p \<noteq> 0)"
proof (induction bs rule: rev_induct)
  case Nil
  then show ?case by (subst strip_nuls.simps) auto
next
  case (snoc b bs)
  show ?case
  proof (cases "b = 0")
    case True
    have "(\<exists>pad. bs @ [0] = p @ replicate pad 0) \<longleftrightarrow> (\<exists>pad. bs = p @ replicate pad 0)" if "p = [] \<or> last p \<noteq> 0"
    proof
      assume "\<exists>pad. bs @ [0] = p @ replicate pad 0"
      then obtain pad where "bs @ [0] = p @ replicate pad 0" by blast
      with that show "\<exists>pad. bs = p @ replicate pad 0"
        by (cases pad) (auto simp: replicate_append_same [symmetric] simp flip: append_assoc)
    next
      assume "\<exists>pad. bs = p @ replicate pad 0"
      then obtain pad where "bs = p @ replicate pad 0" by blast
      then have "bs @ [0] = p @ replicate (Suc pad) 0" by (simp add: replicate_append_same)
      then show "\<exists>pad. bs @ [0] = p @ replicate pad 0" by blast
    qed
    with True snoc show ?thesis by (subst strip_nuls.simps) auto
  next
    case False
    have "(\<exists>pad. bs @ [b] = p @ replicate pad 0) \<longleftrightarrow> p = bs @ [b]"
    proof
      assume "\<exists>pad. bs @ [b] = p @ replicate pad 0"
      then obtain pad where pad: "bs @ [b] = p @ replicate pad 0" by blast
      with False show "p = bs @ [b]"
        by (cases pad) (auto simp: replicate_append_same [symmetric] simp flip: append_assoc)
    qed (intro exI [of _ 0], simp)
    with False show ?thesis by (subst strip_nuls.simps) auto
  qed
qed

lemma as_bytes_to_text [simp]: "as_bytes (to_text bs) = bs"
  by (simp add: to_text_def comp_def map_idI unat_u8_less)

lemma length_to_text [simp]: "length (to_text bs) = length bs"
  by (simp add: to_text_def)

text \<open>
  A layer is opened to a text exactly when it is the sealing, under the keys of this blinded key,
  subcredential and revision, of that text padded with NULs: what the service sealed is read back, and
  nothing else is accepted.
\<close>

lemma layer_opens_iff:
  assumes P: "desc_prims_ok P"
  shows "decrypt_layer P blob secret_data subcredential revision string_constant = Inr t \<longleftrightarrow>
     (\<exists>salt pad. length salt = 16 \<and> as_bytes t @ replicate pad 0 \<noteq> [] \<and> valid_utf8 (as_bytes t) \<and> (t = [] \<or> last (as_bytes t) \<noteq> 0) \<and>
        blob = seal_layer P salt secret_data subcredential revision string_constant (as_bytes t @ replicate pad 0))"
    (is "?opens \<longleftrightarrow> ?sealed")
proof -
  note ok = desc_prims_okD [OF P]
  let ?keys = "\<lambda>salt. layer_keys P salt secret_data subcredential revision string_constant"
  let ?aes = "\<lambda>salt. dp_aes_ctr P (take 32 (?keys salt)) (slice 32 48 (?keys salt))"
  have open_parts: "decrypt_layer P (salt @ ct @ mac) secret_data subcredential revision string_constant = Inr t \<longleftrightarrow>
      mac = layer_mac P (drop 48 (?keys salt)) salt ct \<and> strip_nuls (?aes salt ct) = as_bytes t \<and> valid_utf8 (as_bytes t)"
    if "length salt = 16" "length mac = 32" "ct \<noteq> []" for salt ct mac
  proof -
    have len: "length (salt @ ct @ mac) - 32 = length (salt @ ct)" using that by simp
    have t: "to_text bs = t \<longleftrightarrow> bs = as_bytes t" for bs using as_bytes_to_text to_text_as_bytes by metis
    have "\<not> length (salt @ ct @ mac) \<le> 16 + 32" using that by (cases ct) auto
    moreover have "drop (length (salt @ ct @ mac) - 32) (salt @ ct @ mac) = mac" "take 16 (salt @ ct @ mac) = salt"
      "slice 16 (length (salt @ ct @ mac) - 32) (salt @ ct @ mac) = ct"
      unfolding len using that by (simp_all add: slice_def)
    ultimately show ?thesis
      unfolding decrypt_layer_def layer_lengths Let_def by (auto simp: t slice_def)
  qed
  show ?thesis
  proof
    assume ?opens
    then have len: "48 < length blob" by (auto simp: decrypt_layer_def layer_lengths split: if_splits)
    define salt ct mac where "salt = take 16 blob" and "ct = slice 16 (length blob - 32) blob" and "mac = drop (length blob - 32) blob"
    have blob: "blob = salt @ ct @ mac"
    proof -
      have "drop 16 blob = take (length blob - 48) (drop 16 blob) @ drop (length blob - 48) (drop 16 blob)"
        by (simp only: append_take_drop_id)
      then have "drop 16 blob = ct @ mac" using len by (simp add: ct_def mac_def slice_def)
      then show ?thesis unfolding salt_def by (metis append_take_drop_id)
    qed
    have l: "length salt = 16" "length mac = 32" "ct \<noteq> []" using len by (auto simp: salt_def ct_def mac_def slice_def)
    from \<open>?opens\<close> have o: "mac = layer_mac P (drop 48 (?keys salt)) salt ct" "strip_nuls (?aes salt ct) = as_bytes t" "valid_utf8 (as_bytes t)"
      using open_parts [OF l] blob by simp_all
    then obtain pad where pad: "?aes salt ct = as_bytes t @ replicate pad 0" "as_bytes t = [] \<or> last (as_bytes t) \<noteq> 0"
      by (auto simp: strip_nuls_iff)
    have "ct = ?aes salt (as_bytes t @ replicate pad 0)" using pad(1) ok(3) by metis
    moreover have "as_bytes t @ replicate pad 0 \<noteq> []" using pad(1) l(3) ok(4) by (metis length_0_conv)
    ultimately show ?sealed
      using l(1) o pad(2) blob by (intro exI [of _ salt] exI [of _ pad]) (auto simp: seal_layer_def Let_def)
  next
    assume ?sealed
    then obtain salt pad where s: "length salt = 16" "as_bytes t @ replicate pad 0 \<noteq> []" "valid_utf8 (as_bytes t)"
      "t = [] \<or> last (as_bytes t) \<noteq> 0" and blob: "blob = seal_layer P salt secret_data subcredential revision string_constant (as_bytes t @ replicate pad 0)"
      by blast
    let ?ct = "?aes salt (as_bytes t @ replicate pad 0)"
    have "?ct \<noteq> []" using s(2) ok(4) by (metis length_0_conv)
    moreover have "strip_nuls (?aes salt ?ct) = as_bytes t" unfolding ok(3) strip_nuls_iff using s(4) by auto
    ultimately show ?opens
      unfolding blob seal_layer_def Let_def using open_parts [of salt "layer_mac P (drop 48 (?keys salt)) salt ?ct" ?ct] s ok(1)
      by (simp add: layer_mac_def)
  qed
qed

section \<open>Link specifiers\<close>

definition relay_info_wf :: "relay_info \<Rightarrow> bool" where
  "relay_info_wf r \<longleftrightarrow> length (relay_ip r) = 4 \<and> relay_port r \<le> u16_max \<and> length (rsa_identity r) = 20 \<and>
     (\<forall>ed. relay_ed_identity r = Some ed \<longrightarrow> length ed = 32)"

abbreviation spec_bytes :: "u8 \<Rightarrow> bytes \<Rightarrow> bytes" where
  "spec_bytes kind v \<equiv> kind # word_of_nat (length v) # v"

lemma spec_loop_step:
  assumes "length v < 256"
  shows "spec_loop (Suc n) (pre @ spec_bytes kind v @ rest) (length pre) f =
     spec_loop n ((pre @ spec_bytes kind v) @ rest) (length (pre @ spec_bytes kind v)) (note_spec kind v f)"
  using assms by (simp add: nth_append slice_def Let_def)

declare spec_loop.simps(2) [simp del]

text \<open>What a relay's link specifiers are written as is read back, whatever the relay.\<close>

lemma link_specifiers_roundtrip:
  assumes "relay_info_wf r"
  shows "parse_link_specifiers (link_specifiers r) =
     Inr \<lparr>fs_addr = Some (relay_ip r, relay_port r), fs_rsa = Some (rsa_identity r), fs_ed = relay_ed_identity r\<rparr>"
proof -
  let ?a = "spec_bytes 0 (relay_ip r @ u16_to_be (relay_port r))" and ?i = "spec_bytes 2 (rsa_identity r)"
  let ?e = "case relay_ed_identity r of Some ed \<Rightarrow> spec_bytes 3 ed | None \<Rightarrow> []"
  let ?f = "\<lparr>fs_addr = None, fs_rsa = None, fs_ed = None\<rparr>"
  let ?n = "case relay_ed_identity r of Some ed \<Rightarrow> Suc 0 | None \<Rightarrow> 0"
  from assms have wf: "length (relay_ip r) = 4" "relay_port r \<le> u16_max" "length (rsa_identity r) = 20"
    "relay_ed_identity r = Some ed \<Longrightarrow> length ed = 32" for ed by (auto simp: relay_info_wf_def)
  obtain c where c: "link_specifiers r = [c] @ ?a @ ?i @ ?e" "unat c = Suc (Suc ?n)"
    by (auto simp: link_specifiers_def Let_def split: option.split)
  have addr: "note_spec 0 (relay_ip r @ u16_to_be (relay_port r)) f = f\<lparr>fs_addr := Some (relay_ip r, relay_port r)\<rparr>" for f
    using wf(1,2) by (simp add: note_spec_def u16_to_be_def nth_append u16_be_roundtrip)
  have rsa: "note_spec 2 (rsa_identity r) f = f\<lparr>fs_rsa := Some (rsa_identity r)\<rparr>" for f
    using wf(3) by (simp add: note_spec_def)
  have "parse_link_specifiers (link_specifiers r) = spec_loop (Suc (Suc ?n)) ([c] @ ?a @ ?i @ ?e) (length [c]) ?f"
    unfolding parse_link_specifiers_def c(1) by (simp add: c(2))
  also have "\<dots> = spec_loop (Suc ?n) (([c] @ ?a) @ ?i @ ?e) (length ([c] @ ?a)) (note_spec 0 (relay_ip r @ u16_to_be (relay_port r)) ?f)"
    by (rule spec_loop_step) (simp add: wf(1))
  also have "\<dots> = spec_loop ?n ((([c] @ ?a) @ ?i) @ ?e) (length (([c] @ ?a) @ ?i))
      (note_spec 2 (rsa_identity r) (note_spec 0 (relay_ip r @ u16_to_be (relay_port r)) ?f))"
    by (rule spec_loop_step) (simp add: wf(3))
  also have "\<dots> = Inr \<lparr>fs_addr = Some (relay_ip r, relay_port r), fs_rsa = Some (rsa_identity r), fs_ed = relay_ed_identity r\<rparr>"
  proof (cases "relay_ed_identity r")
    case (Some ed)
    have "note_spec 3 ed f = f\<lparr>fs_ed := Some ed\<rparr>" for f using wf(4) [OF Some] by (simp add: note_spec_def)
    with Some show ?thesis
      using wf(4) [OF Some] spec_loop_step [where pre = "([c] @ ?a) @ ?i" and rest = "[]" and v = ed and kind = 3 and n = 0]
      by (simp add: addr rsa)
  qed (simp add: addr rsa)
  finally show ?thesis .
qed

lemma note_spec_wf:
  assumes "(\<forall>ip p. fs_addr f = Some (ip, p) \<longrightarrow> length ip = 4 \<and> p \<le> u16_max) \<and> (\<forall>r. fs_rsa f = Some r \<longrightarrow> length r = 20) \<and> (\<forall>e. fs_ed f = Some e \<longrightarrow> length e = 32)"
  shows "(\<forall>ip p. fs_addr (note_spec k v f) = Some (ip, p) \<longrightarrow> length ip = 4 \<and> p \<le> u16_max) \<and>
    (\<forall>r. fs_rsa (note_spec k v f) = Some r \<longrightarrow> length r = 20) \<and> (\<forall>e. fs_ed (note_spec k v f) = Some e \<longrightarrow> length e = 32)"
  using assms by (auto simp: note_spec_def)

lemma spec_loop_wf:
  "spec_loop n bs pos f = Inr g \<Longrightarrow>
   (\<forall>ip p. fs_addr f = Some (ip, p) \<longrightarrow> length ip = 4 \<and> p \<le> u16_max) \<and> (\<forall>r. fs_rsa f = Some r \<longrightarrow> length r = 20) \<and> (\<forall>e. fs_ed f = Some e \<longrightarrow> length e = 32) \<Longrightarrow>
   (\<forall>ip p. fs_addr g = Some (ip, p) \<longrightarrow> length ip = 4 \<and> p \<le> u16_max) \<and> (\<forall>r. fs_rsa g = Some r \<longrightarrow> length r = 20) \<and> (\<forall>e. fs_ed g = Some e \<longrightarrow> length e = 32)"
proof (induction n arbitrary: pos f)
  case (Suc n)
  from Suc.prems(1) obtain pos' k v where "spec_loop n bs pos' (note_spec k v f) = Inr g"
    by (auto simp: spec_loop.simps(2) Let_def split: if_splits)
  from Suc.IH [OF this note_spec_wf [OF Suc.prems(2)]] show ?case .
qed simp

lemma parse_link_specifiers_wf:
  assumes "parse_link_specifiers bs = Inr g"
  shows "fs_addr g = Some (ip, p) \<Longrightarrow> length ip = 4 \<and> p \<le> u16_max"
    and "fs_rsa g = Some r \<Longrightarrow> length r = 20" and "fs_ed g = Some e \<Longrightarrow> length e = 32"
proof -
  obtain n where "spec_loop n bs 1 \<lparr>fs_addr = None, fs_rsa = None, fs_ed = None\<rparr> = Inr g"
    using assms by (auto simp: parse_link_specifiers_def split: list.splits)
  from spec_loop_wf [OF this] have wf: "(\<forall>ip p. fs_addr g = Some (ip, p) \<longrightarrow> length ip = 4 \<and> p \<le> u16_max) \<and>
    (\<forall>r. fs_rsa g = Some r \<longrightarrow> length r = 20) \<and> (\<forall>e. fs_ed g = Some e \<longrightarrow> length e = 32)" by simp
  show "fs_addr g = Some (ip, p) \<Longrightarrow> length ip = 4 \<and> p \<le> u16_max"
    and "fs_rsa g = Some r \<Longrightarrow> length r = 20" and "fs_ed g = Some e \<Longrightarrow> length e = 32" using wf by blast+
qed

section \<open>What is trusted\<close>

text \<open>A key certified for a purpose by a signer at a time: what the code accepts a certificate for.\<close>

definition certifies :: "verifier \<Rightarrow> u8 \<Rightarrow> bytes \<Rightarrow> nat \<Rightarrow> bytes \<Rightarrow> bool" where
  "certifies verify t signer now_unix key \<longleftrightarrow>
     (\<exists>bs cert. ed_cert_parse bs = Inr cert \<and> cert_type cert = t \<and> ed25519_cert.signing_key cert = Some signer \<and>
        verify signer (signed_portion cert) (cert_signature cert) \<and> now_unix < expiration_hours cert * 3600 \<and> certified_key cert = key)"

lemma hs_certified_key_Inr:
  "hs_certified_key verify cert t signer now_unix = Inr key \<longleftrightarrow>
     cert_type cert = t \<and> ed25519_cert.signing_key cert = Some signer \<and>
     verify signer (signed_portion cert) (cert_signature cert) \<and> now_unix < expiration_hours cert * 3600 \<and> certified_key cert = key"
  by (auto simp: hs_certified_key_def check_signature_def is_expired_def expires_at_unix_def)

lemma certifiesI: "ed_cert_parse bs = Inr cert \<Longrightarrow> hs_certified_key verify cert t signer now_unix = Inr key \<Longrightarrow> certifies verify t signer now_unix key"
  unfolding certifies_def hs_certified_key_Inr by blast

lemma keyed_value_length: "keyed_value block keyword kind = Some k \<Longrightarrow> length k = 32"
  unfolding keyed_value_def
  by (drule find_map_SomeD, elim bexE) (clarsimp dest!: base64_fixed_length split: option.split_asm prod.split_asm if_split_asm sum.split_asm)

lemma parse_intro_point_Inr:
  assumes "parse_intro_point verify block key now_unix = Inr p"
  shows "certifies verify CERT_TYPE_HS_INTRO_AUTH key now_unix (ip_auth_key p)" "length (ip_enc_key p) = 32"
    "relay_info_wf (ip_relay p)" "length (ntor_onion_key (ip_relay p)) = 32"
  using assms unfolding parse_intro_point_def
  by (auto simp: relay_info_wf_def dest: keyed_value_length parse_link_specifiers_wf intro: certifiesI)

lemma intro_loop_Inr:
  "length points < MAX_INTRO_POINTS \<Longrightarrow>
   length (intro_loop verify key now_unix points blocks) \<le> MAX_INTRO_POINTS \<and>
   (\<forall>p \<in> set (intro_loop verify key now_unix points blocks). p \<in> set points \<or>
      (\<exists>block \<in> set blocks. parse_intro_point verify block key now_unix = Inr p))"
proof (induction blocks arbitrary: points)
  case (Cons block blocks)
  show ?case
  proof (cases "parse_intro_point verify block key now_unix")
    case (Inl e)
    with Cons show ?thesis by (auto simp: Let_def)
  next
    case (Inr p)
    have "length (points @ [p]) < MAX_INTRO_POINTS \<or> length (points @ [p]) = MAX_INTRO_POINTS" using Cons.prems by auto
    with Inr Cons.IH [of "points @ [p]"] show ?thesis by (fastforce simp: Let_def)
  qed
qed auto

lemma check_desc_signature_Inr:
  assumes "check_desc_signature verify text key = Inr u"
  obtains signed_len sig where "line_start_of text ''signature '' = Some signed_len"
    "verify key (SIGNATURE_PREFIX @ as_bytes (take signed_len text)) sig"
  using assms by (auto simp: check_desc_signature_def take_map)

text \<open>
  C26: A descriptor is accepted for a blinded key only along the chain of signatures rend-spec asks for: an
  unexpired certificate, signed by the blinded key, for the key that signed the document up to the first
  signature line; and every introduction point it gives, at least one and at most twenty, has an
  authentication key with an unexpired certificate of that signing key, and a relay whose address,
  identities and keys all have their lengths.
\<close>

theorem descriptor_authentic:
  assumes "descriptor_parse P text blinded subcredential now_unix = Inr d"
  shows "\<exists>key signed_len sig.
     certifies (dp_verify P) CERT_TYPE_HS_DESC_SIGN blinded now_unix key \<and>
     line_start_of text ''signature '' = Some signed_len \<and>
     dp_verify P key (SIGNATURE_PREFIX @ as_bytes (take signed_len text)) sig \<and>
     intro_points d \<noteq> [] \<and> length (intro_points d) \<le> 20 \<and>
     (\<forall>p \<in> set (intro_points d).
        certifies (dp_verify P) CERT_TYPE_HS_INTRO_AUTH key now_unix (ip_auth_key p) \<and>
        length (ip_auth_key p) = 32 \<and> length (ip_enc_key p) = 32 \<and>
        relay_info_wf (ip_relay p) \<and> length (ntor_onion_key (ip_relay p)) = 32)"
proof -
  from assms obtain cert_b cert key inner where
    key: "ed_cert_parse cert_b = Inr cert" "hs_certified_key (dp_verify P) cert CERT_TYPE_HS_DESC_SIGN blinded now_unix = Inr key"
    and sig: "check_desc_signature (dp_verify P) text key = Inr ()"
    and inner: "parse_inner (dp_verify P) inner key now_unix = Inr (intro_points d)"
    by (auto simp: descriptor_parse_def)
  from sig obtain signed_len sg where s: "line_start_of text ''signature '' = Some signed_len"
    "dp_verify P key (SIGNATURE_PREFIX @ as_bytes (take signed_len text)) sg" by (rule check_desc_signature_Inr)
  from inner have points: "intro_points d = intro_loop (dp_verify P) key now_unix [] (split_intro_points inner)" "intro_points d \<noteq> []"
    by (auto simp: parse_inner_def Let_def split: option.splits if_splits)
  have "length (intro_points d) \<le> 20"
    and each: "\<forall>p \<in> set (intro_points d). \<exists>block. parse_intro_point (dp_verify P) block key now_unix = Inr p"
    using intro_loop_Inr [of "[]" "dp_verify P" key now_unix "split_intro_points inner"] by (auto simp: points(1) MAX_INTRO_POINTS_def)
  moreover have "length (ip_auth_key p) = 32" if "certifies (dp_verify P) CERT_TYPE_HS_INTRO_AUTH key now_unix (ip_auth_key p)" for p
    using that unfolding certifies_def by (metis ed_cert_parse_key)
  ultimately show ?thesis
    using certifiesI [OF key] s points(2) parse_intro_point_Inr by (metis (no_types, lifting))
qed

end
