(* ===== verification/Rendezvous.thy ===== *)
theory Rendezvous
  imports Onion_Descriptor Random_Draws Circuit_State
begin

text \<open>
  Meeting an onion service, \<^verbatim>\<open>src/tor/hs/rendezvous.rs\<close>: the messages, one attempt through one introduction
  point, and the whole of \<open>establish\<close>.

  Choosing relays, building circuits, sending and waiting for control messages, random bytes and the
  clock are the rest of the client's and the network's. What they answer is a function of what happened
  so far, and what happened is a trace of actions. The thread that sets up the rendezvous point works on
  circuits of its own; its actions come first in the trace, or last where the thread could not be
  started. A panic of that thread is not modelled.
\<close>

section \<open>Data\<close>

definition HS_EXT_CC_REQUEST :: u8 where "HS_EXT_CC_REQUEST = 1"
definition FLOW_CONTROL_VERSION :: nat where "FLOW_CONTROL_VERSION = 2"
definition AUTH_KEY_TYPE_ED25519 :: u8 where "AUTH_KEY_TYPE_ED25519 = 2"
definition ONION_KEY_TYPE_NTOR :: u8 where "ONION_KEY_TYPE_NTOR = 1"
definition MAX_INTRODUCE1_LEN :: nat where "MAX_INTRODUCE1_LEN = 490"
definition INTRODUCE_PLAINTEXT_LEN :: nat where "INTRODUCE_PLAINTEXT_LEN = 246"
definition INTRO_ACK_SUCCESS :: nat where "INTRO_ACK_SUCCESS = 0"
definition INTRO_ACK_NOT_RECOGNIZED :: nat where "INTRO_ACK_NOT_RECOGNIZED = 1"
definition INTRO_ATTEMPTS :: nat where "INTRO_ATTEMPTS = 3"

definition RELAY_ESTABLISH_RENDEZVOUS :: u8 where "RELAY_ESTABLISH_RENDEZVOUS = 33"
definition RELAY_INTRODUCE1 :: u8 where "RELAY_INTRODUCE1 = 34"

record failure =
  fail_error :: io_error
  descriptor_is_stale :: bool

definition failure_new :: "io_error \<Rightarrow> failure" where
  "failure_new e = \<lparr>fail_error = e, descriptor_is_stale = False\<rparr>"

record rendezvous =
  rend_circuit :: nat
  rend_point :: relay_info
  rend_cookie :: bytes

datatype action =
    Chose "relay_info io_result"
  | Built relay_info "nat io_result"
  | Drew "bytes io_result"
  | SentControl nat u8 bytes "unit io_result"
  | Waited nat u8 "bytes io_result"
  | Closed nat
  | HopAdded nat hs_circuit_keys
  | CongestionOn nat cc_params u8

record rend_net =
  net_spawned :: bool
  net_late :: "action list \<Rightarrow> bool"
  net_point :: "action list \<Rightarrow> relay_info io_result"
  net_build :: "action list \<Rightarrow> relay_info \<Rightarrow> nat io_result"
  net_random :: "action list \<Rightarrow> nat \<Rightarrow> bytes io_result"
  net_send :: "action list \<Rightarrow> nat \<Rightarrow> u8 \<Rightarrow> bytes \<Rightarrow> unit io_result"
  net_wait :: "action list \<Rightarrow> nat \<Rightarrow> u8 \<Rightarrow> bytes io_result"

section \<open>Steps\<close>

type_synonym 'a rend_op = "action list \<Rightarrow> 'a io_result \<times> action list"

definition rend_then :: "'a rend_op \<Rightarrow> ('a \<Rightarrow> 'b rend_op) \<Rightarrow> 'b rend_op" where
  "rend_then m f tr = (case m tr of (Inl e, tr') \<Rightarrow> (Inl e, tr') | (Inr a, tr') \<Rightarrow> f a tr')"

definition rend_of :: "'a io_result \<Rightarrow> 'a rend_op" where
  "rend_of r tr = (r, tr)"

definition log_action :: "action \<Rightarrow> unit rend_op" where
  "log_action a tr = (Inr (), tr @ [a])"

definition choose_point :: "rend_net \<Rightarrow> relay_info rend_op" where
  "choose_point N tr = (net_point N tr, tr @ [Chose (net_point N tr)])"

definition build_to :: "rend_net \<Rightarrow> relay_info \<Rightarrow> nat rend_op" where
  "build_to N r tr = (net_build N tr r, tr @ [Built r (net_build N tr r)])"

definition draw_bytes :: "rend_net \<Rightarrow> nat \<Rightarrow> bytes rend_op" where
  "draw_bytes N n tr = (net_random N tr n, tr @ [Drew (net_random N tr n)])"

definition rend_send :: "rend_net \<Rightarrow> nat \<Rightarrow> u8 \<Rightarrow> bytes \<Rightarrow> unit rend_op" where
  "rend_send N c cmd m tr = (net_send N tr c cmd m, tr @ [SentControl c cmd m (net_send N tr c cmd m)])"

definition rend_wait :: "rend_net \<Rightarrow> nat \<Rightarrow> u8 \<Rightarrow> bytes rend_op" where
  "rend_wait N c cmd tr = (net_wait N tr c cmd, tr @ [Waited c cmd (net_wait N tr c cmd)])"

section \<open>Messages\<close>

definition congestion_from :: "service_flow option \<Rightarrow> cc_params \<Rightarrow> (cc_params \<times> u8) option" where
  "congestion_from advertised terms =
     (case advertised of
        None \<Rightarrow> None
      | Some fl \<Rightarrow>
          if sf_max_version fl < FLOW_CONTROL_VERSION \<or> alg terms = 0 then None
          else let expected = sendme_inc terms; offered = sf_sendme_inc fl
               in if offered = 0 \<or> offered * 2 < expected \<or> offered > expected * 2 then None
                  else Some (terms, word_of_nat offered))"

definition introduce_plaintext :: "bytes \<Rightarrow> relay_info \<Rightarrow> bool \<Rightarrow> bytes" where
  "introduce_plaintext cookie point request_congestion =
     (let out = cookie @ (if request_congestion then [1, HS_EXT_CC_REQUEST, 0] else [0]) @ [ONION_KEY_TYPE_NTOR] @
            u16_to_be (length (ntor_onion_key point)) @ ntor_onion_key point @ link_specifiers point
      in out @ replicate (INTRODUCE_PLAINTEXT_LEN - length out) 0)"

definition introduce1_head :: "bytes \<Rightarrow> bytes \<Rightarrow> bytes" where
  "introduce1_head auth_key client_public =
     replicate 20 0 @ [AUTH_KEY_TYPE_ED25519] @ u16_to_be (length auth_key) @ auth_key @ [0] @ client_public"

definition assemble_introduce1 :: "handshake_prims \<Rightarrow> bytes \<Rightarrow> bytes \<Rightarrow> bytes \<Rightarrow> introduce_keys \<Rightarrow> bytes io_result" where
  "assemble_introduce1 P auth_key client_public plaintext keys =
     (let message = introduce1_head auth_key client_public @ aes256_ctr P (intro_enc_key keys) plaintext;
          message = message @ hs_mac (hp_sha3 P) (intro_mac_key keys) message
      in if length message > MAX_INTRODUCE1_LEN then Inl (invalid_data ''INTRODUCE1 message would be over-long'') else Inr message)"

definition check_introduce_ack :: "bytes \<Rightarrow> unit io_result" where
  "check_introduce_ack bs =
     (if length bs < 2 then Inl (invalid_data ''INTRODUCE_ACK is too short'')
      else let status = u16_from_be (bs ! 0) (bs ! 1)
           in if status = INTRO_ACK_SUCCESS then Inr ()
              else if status = INTRO_ACK_NOT_RECOGNIZED
              then Inl (IoError InvalidInput ''introduction point does not know that authentication key'')
              else Inl (invalid_data ''introduction point refused the request''))"

definition is_unrecognized_key :: "io_error \<Rightarrow> bool" where
  "is_unrecognized_key e \<longleftrightarrow> error_kind e = InvalidInput"

section \<open>The rendezvous side\<close>

definition open_rendezvous :: "rend_net \<Rightarrow> rendezvous rend_op" where
  "open_rendezvous N =
     rend_then (choose_point N) (\<lambda>point.
     rend_then (build_to N point) (\<lambda>c tr.
       case draw_bytes N 20 tr of
         (Inl e, tr) \<Rightarrow> (Inl e, tr @ [Closed c])
       | (Inr cookie, tr) \<Rightarrow>
           (case rend_then (rend_send N c RELAY_ESTABLISH_RENDEZVOUS cookie) (\<lambda>_. rend_wait N c RELAY_RENDEZVOUS_ESTABLISHED) tr of
              (Inl e, tr) \<Rightarrow> (Inl e, tr @ [Closed c])
            | (Inr _, tr) \<Rightarrow> (Inr \<lparr>rend_circuit = c, rend_point = point, rend_cookie = cookie\<rparr>, tr))))"

section \<open>One introduction\<close>

definition hand_over :: "rend_net \<Rightarrow> nat \<Rightarrow> bytes \<Rightarrow> bytes rend_op" where
  "hand_over N c message tr =
     (case rend_then (rend_send N c RELAY_INTRODUCE1 message) (\<lambda>_. rend_wait N c RELAY_INTRODUCE_ACK) tr of
        (ack, tr) \<Rightarrow> (ack, tr @ [Closed c]))"

definition meet :: "rend_net \<Rightarrow> handshake_prims \<Rightarrow> rendezvous \<Rightarrow> hs_ntor_client \<Rightarrow> (cc_params \<times> u8) option \<Rightarrow> unit rend_op" where
  "meet N P rend cl congestion =
     rend_then (rend_wait N (rend_circuit rend) RELAY_RENDEZVOUS2) (\<lambda>reply.
     rend_then (rend_of (if length reply < SERVER_HANDSHAKE_LEN then Inl (invalid_data ''RENDEZVOUS2 is too short to be a handshake'') else Inr ())) (\<lambda>_.
     rend_then (rend_of (hs_ntor_finish P cl reply)) (\<lambda>keys.
     rend_then (log_action (HopAdded (rend_circuit rend) keys)) (\<lambda>_.
       case congestion of
         None \<Rightarrow> rend_of (Inr ())
       | Some (terms, step) \<Rightarrow> log_action (CongestionOn (rend_circuit rend) terms step)))))"

definition introduce ::
    "rend_net \<Rightarrow> handshake_prims \<Rightarrow> rendezvous \<Rightarrow> intro_point \<Rightarrow> bytes \<Rightarrow> nat option \<Rightarrow> (cc_params \<times> u8) option \<Rightarrow> unit rend_op" where
  "introduce N P rend ip subcredential ready congestion tr =
     (case draw_bytes N 32 tr of (generated, tr) \<Rightarrow>
      rend_then (rend_of (hs_ntor_new P generated (ip_auth_key ip) (ip_enc_key ip))) (\<lambda>cl.
      rend_then (rend_of (assemble_introduce1 P (ip_auth_key ip) (hs_x_pub cl)
          (introduce_plaintext (rend_cookie rend) (rend_point rend) (congestion \<noteq> None)) (introduce_keys_for P cl subcredential))) (\<lambda>message.
      rend_then (case ready of Some c \<Rightarrow> rend_of (Inr c) | None \<Rightarrow> build_to N (ip_relay ip)) (\<lambda>c.
      rend_then (hand_over N c message) (\<lambda>ack.
      rend_then (rend_of (check_introduce_ack ack)) (\<lambda>_.
        meet N P rend cl congestion))))) tr)"

section \<open>Attempts\<close>

record attempts =
  at_last :: "io_error option"
  at_all_unrecognized :: bool
  at_count :: nat
  at_prepared :: "(nat \<times> nat) option"

definition take_ready :: "nat \<Rightarrow> (nat \<times> nat) option \<Rightarrow> nat option \<times> (nat \<times> nat) option" where
  "take_ready i prepared =
     (case prepared of Some (j, c) \<Rightarrow> if j = i then (Some c, None) else (None, prepared) | None \<Rightarrow> (None, None))"

definition give_up :: "attempts \<Rightarrow> failure" where
  "give_up s =
     \<lparr>fail_error = (case at_last s of Some e \<Rightarrow> e | None \<Rightarrow> invalid_data ''the descriptor named no introduction points''),
      descriptor_is_stale = (at_count s > 0 \<and> at_all_unrecognized s)\<rparr>"

fun introduce_loop ::
    "rend_net \<Rightarrow> handshake_prims \<Rightarrow> rendezvous \<Rightarrow> intro_point list \<Rightarrow> bytes \<Rightarrow> (cc_params \<times> u8) option \<Rightarrow> nat list \<Rightarrow> attempts \<Rightarrow>
     action list \<Rightarrow> (failure + unit) \<times> (nat \<times> nat) option \<times> action list" where
  "introduce_loop N P rend points subcredential congestion [] s tr = (Inl (give_up s), at_prepared s, tr)"
| "introduce_loop N P rend points subcredential congestion (i # is) s tr =
     (if net_late N tr
      then (Inl (give_up (s\<lparr>at_last := Some (IoError TimedOut ''ran out of time reaching the onion service'')\<rparr>)), at_prepared s, tr)
      else case take_ready i (at_prepared s) of (ready, prepared) \<Rightarrow>
        case introduce N P rend (points ! i) subcredential ready congestion tr of
          (Inr _, tr) \<Rightarrow> (Inr (), prepared, tr)
        | (Inl e, tr) \<Rightarrow> introduce_loop N P rend points subcredential congestion is
            \<lparr>at_last = Some e, at_all_unrecognized = (at_all_unrecognized s \<and> is_unrecognized_key e), at_count = at_count s + 1, at_prepared = prepared\<rparr> tr)"

definition introduce_until_met ::
    "rend_net \<Rightarrow> handshake_prims \<Rightarrow> rendezvous \<Rightarrow> intro_point list \<Rightarrow> bytes \<Rightarrow> (cc_params \<times> u8) option \<Rightarrow> nat list \<Rightarrow> (nat \<times> nat) option \<Rightarrow>
     action list \<Rightarrow> (failure + unit) \<times> (nat \<times> nat) option \<times> action list" where
  "introduce_until_met N P rend points subcredential congestion order prepared =
     introduce_loop N P rend points subcredential congestion order
       \<lparr>at_last = None, at_all_unrecognized = True, at_count = 0, at_prepared = prepared\<rparr>"

section \<open>Establishing\<close>

definition close_prepared :: "(nat \<times> nat) option \<Rightarrow> action list \<Rightarrow> action list" where
  "close_prepared prepared tr = (case prepared of Some (_, c) \<Rightarrow> tr @ [Closed c] | None \<Rightarrow> tr)"

definition prepare :: "rend_net \<Rightarrow> intro_point list \<Rightarrow> nat list \<Rightarrow> action list \<Rightarrow> (nat \<times> nat) option \<times> action list" where
  "prepare N points order tr =
     (case order of
        [] \<Rightarrow> (None, tr)
      | i # _ \<Rightarrow> (case build_to N (ip_relay (points ! i)) tr of (Inr c, tr) \<Rightarrow> (Some (i, c), tr) | (Inl _, tr) \<Rightarrow> (None, tr)))"

definition run_plan ::
    "rend_net \<Rightarrow> handshake_prims \<Rightarrow> cc_params \<Rightarrow> descriptor \<Rightarrow> bytes \<Rightarrow> nat list \<Rightarrow> rendezvous io_result \<Rightarrow> (nat \<times> nat) option \<Rightarrow>
     action list \<Rightarrow> (failure + nat) \<times> action list" where
  "run_plan N P terms d subcredential order met prepared tr =
     (case met of
        Inl e \<Rightarrow> (Inl (failure_new e), close_prepared prepared tr)
      | Inr rend \<Rightarrow>
          (case introduce_until_met N P rend (intro_points d) subcredential (congestion_from (service_flow_control d) terms) order prepared tr of
             (Inr _, _, tr) \<Rightarrow> (Inr (rend_circuit rend), tr)
           | (Inl f, prepared, tr) \<Rightarrow> (Inl f, close_prepared prepared (tr @ [Closed (rend_circuit rend)]))))"

definition establish ::
    "rend_net \<Rightarrow> handshake_prims \<Rightarrow> cc_params \<Rightarrow> descriptor \<Rightarrow> bytes \<Rightarrow> draws \<Rightarrow> action list \<Rightarrow> ((failure + nat) \<times> action list) option" where
  "establish N P terms d subcredential ds tr =
     (let early = (if net_spawned N then Some (open_rendezvous N tr) else None);
          tr = (case early of Some (_, tr') \<Rightarrow> tr' | None \<Rightarrow> tr)
      in case shuffle [0..<length (intro_points d)] ds of
           None \<Rightarrow> None
         | Some (Inl e, _) \<Rightarrow> Some (Inl (failure_new e), tr)
         | Some (Inr order, _) \<Rightarrow>
             (case prepare N (intro_points d) (take INTRO_ATTEMPTS order) tr of
                (prepared, tr) \<Rightarrow>
                  (case (case early of Some (met, _) \<Rightarrow> (met, tr) | None \<Rightarrow> open_rendezvous N tr) of
                     (met, tr) \<Rightarrow> Some (run_plan N P terms d subcredential (take INTRO_ATTEMPTS order) met prepared tr))))"

section \<open>Circuits still open\<close>

definition built :: "action list \<Rightarrow> nat multiset" where
  "built tr = mset (concat (map (\<lambda>a. case a of Built _ (Inr c) \<Rightarrow> [c] | _ \<Rightarrow> []) tr))"

definition closed :: "action list \<Rightarrow> nat multiset" where
  "closed tr = mset (concat (map (\<lambda>a. case a of Closed c \<Rightarrow> [c] | _ \<Rightarrow> []) tr))"

text \<open>The circuits built and not closed again are these.\<close>

definition leaves_open :: "nat multiset \<Rightarrow> action list \<Rightarrow> bool" where
  "leaves_open M tr \<longleftrightarrow> built tr = closed tr + M"

definition ready_mset :: "nat option \<Rightarrow> nat multiset" where
  "ready_mset r = (case r of Some c \<Rightarrow> {#c#} | None \<Rightarrow> {#})"

abbreviation prepared_mset :: "(nat \<times> nat) option \<Rightarrow> nat multiset" where
  "prepared_mset p \<equiv> ready_mset (map_option snd p)"

lemma ready_mset_simps [simp]: "ready_mset (Some c) = {#c#}" "ready_mset None = {#}"
  by (simp_all add: ready_mset_def)

lemma built_simps [simp]:
  "built [] = {#}" "built (tr @ tr') = built tr + built tr'"
  "built (a # tr) = (case a of Built _ (Inr c) \<Rightarrow> {#c#} | _ \<Rightarrow> {#}) + built tr"
  by (auto simp: built_def split: action.splits sum.splits)

lemma closed_simps [simp]:
  "closed [] = {#}" "closed (tr @ tr') = closed tr + closed tr'"
  "closed (a # tr) = (case a of Closed c \<Rightarrow> {#c#} | _ \<Rightarrow> {#}) + closed tr"
  by (auto simp: closed_def split: action.splits)

lemma leaves_open_Nil: "leaves_open {#} []"
  by (simp add: leaves_open_def)

lemmas rend_steps = rend_then_def rend_of_def log_action_def choose_point_def build_to_def draw_bytes_def rend_send_def rend_wait_def

lemma open_rendezvous_accounts:
  assumes "leaves_open M tr" "open_rendezvous N tr = (r, tr')"
  shows "leaves_open (case r of Inl _ \<Rightarrow> M | Inr rend \<Rightarrow> add_mset (rend_circuit rend) M) tr'"
  using assms by (auto simp: open_rendezvous_def rend_steps leaves_open_def split: sum.splits)

lemma hand_over_accounts:
  "hand_over N c message tr = (ack, tr') \<Longrightarrow> leaves_open (add_mset c M) tr \<Longrightarrow> leaves_open M tr'"
  by (auto simp: hand_over_def rend_steps leaves_open_def split: sum.splits)

lemma meet_accounts: "meet N P rend cl congestion tr = (r, tr') \<Longrightarrow> leaves_open M tr' = leaves_open M tr"
  by (auto simp: meet_def rend_steps leaves_open_def split: sum.splits option.splits if_splits)

text \<open>What an attempt needs before it takes up a circuit: a handshake, and a message that fits.\<close>

definition introduction_ready :: "rend_net \<Rightarrow> handshake_prims \<Rightarrow> rendezvous \<Rightarrow> intro_point \<Rightarrow> bytes \<Rightarrow> bool \<Rightarrow> action list \<Rightarrow> hs_ntor_client \<Rightarrow> bytes \<Rightarrow> bool" where
  "introduction_ready N P rend ip subcredential cc tr cl message \<longleftrightarrow>
     hs_ntor_new P (net_random N tr 32) (ip_auth_key ip) (ip_enc_key ip) = Inr cl \<and>
     assemble_introduce1 P (ip_auth_key ip) (hs_x_pub cl) (introduce_plaintext (rend_cookie rend) (rend_point rend) cc)
       (introduce_keys_for P cl subcredential) = Inr message"

lemma introduce_unfold:
  assumes "introduction_ready N P rend ip subcredential (congestion \<noteq> None) tr cl message"
  shows "introduce N P rend ip subcredential ready congestion tr =
     rend_then (case ready of Some c \<Rightarrow> rend_of (Inr c) | None \<Rightarrow> build_to N (ip_relay ip)) (\<lambda>c.
     rend_then (hand_over N c message) (\<lambda>ack.
     rend_then (rend_of (check_introduce_ack ack)) (\<lambda>_. meet N P rend cl congestion))) (tr @ [Drew (net_random N tr 32)])"
  using assms by (simp add: introduce_def introduction_ready_def draw_bytes_def rend_then_def rend_of_def)

lemma introduce_accounts:
  assumes ready: "introduction_ready N P rend ip subcredential (congestion \<noteq> None) tr cl message"
    and tr: "leaves_open (ready_mset ready + M) tr"
    and run: "introduce N P rend ip subcredential ready congestion tr = (r, tr')"
  shows "leaves_open M tr'"
proof -
  let ?tr = "tr @ [Drew (net_random N tr 32)]"
  have after: "leaves_open M tr'"
    if "rend_then (hand_over N c message) (\<lambda>ack. rend_then (rend_of (check_introduce_ack ack)) (\<lambda>_. meet N P rend cl congestion)) t = (r, tr')"
      "leaves_open (add_mset c M) t" for c t
  proof (cases "hand_over N c message t")
    case (Pair ack t')
    have h: "leaves_open M t'" by (rule hand_over_accounts [OF Pair that(2)])
    show ?thesis
    proof (cases ack)
      case (Inl e)
      with that(1) Pair h show ?thesis by (simp add: rend_then_def)
    next
      case (Inr a)
      with that(1) Pair h show ?thesis
        using meet_accounts [of N P rend cl congestion t' r tr' M] by (auto simp: rend_then_def rend_of_def split: sum.splits)
    qed
  qed
  show ?thesis
  proof (cases ready)
    case (Some c)
    with run tr show ?thesis unfolding introduce_unfold [OF ready] by (intro after [of c ?tr]) (simp_all add: rend_then_def rend_of_def leaves_open_def)
  next
    case None
    show ?thesis
    proof (cases "net_build N ?tr (ip_relay ip)")
      case (Inl e)
      with None run tr show ?thesis unfolding introduce_unfold [OF ready] by (auto simp: rend_then_def build_to_def leaves_open_def)
    next
      case (Inr c)
      with None run tr show ?thesis
        unfolding introduce_unfold [OF ready] by (intro after [of c "?tr @ [Built (ip_relay ip) (Inr c)]"]) (simp_all add: rend_then_def build_to_def leaves_open_def)
    qed
  qed
qed

section \<open>What an introduction says\<close>

definition point_wf :: "relay_info \<Rightarrow> bool" where
  "point_wf r \<longleftrightarrow> relay_info_wf r \<and> length (ntor_onion_key r) = 32"

lemma length_link_specifiers:
  assumes "relay_info_wf r"
  shows "length (link_specifiers r) = (case relay_ed_identity r of None \<Rightarrow> 31 | Some _ \<Rightarrow> 65)"
  using assms by (simp add: link_specifiers_def relay_info_wf_def Let_def split: option.split)

lemma length_introduce_plaintext:
  assumes "length cookie = 20" "point_wf r"
  shows "length (introduce_plaintext cookie r cc) = 246"
  using assms length_link_specifiers [of r]
  by (auto simp: introduce_plaintext_def INTRODUCE_PLAINTEXT_LEN_def point_wf_def Let_def split: option.splits)

lemma assembled:
  assumes "prims_ok P" "length cookie = 20" "point_wf r" "length auth = 32" "length pub = 32"
  shows "assemble_introduce1 P auth pub (introduce_plaintext cookie r cc) keys =
     Inr (introduce1_head auth pub @ aes256_ctr P (intro_enc_key keys) (introduce_plaintext cookie r cc) @
       hs_mac (hp_sha3 P) (intro_mac_key keys) (introduce1_head auth pub @ aes256_ctr P (intro_enc_key keys) (introduce_plaintext cookie r cc)))"
  using length_introduce_plaintext [OF assms(2,3), of cc] assms(4,5)
  by (simp add: assemble_introduce1_def Let_def introduce1_head_def MAX_INTRODUCE1_LEN_def hs_mac_def prims_okD [OF assms(1)])

text \<open>
  The service's side, from rend-spec: it looks up the key by its name, checks the MAC over all that
  precedes it, decrypts, and reads the cookie, the extensions, the onion key and the link specifiers.
\<close>

definition service_reads :: "handshake_prims \<Rightarrow> introduce_keys \<Rightarrow> bytes \<Rightarrow> (bytes \<times> bool \<times> bytes \<times> found_specs io_result) option" where
  "service_reads P keys m =
     (let n = length m - 32; text = aes256_ctr P (intro_enc_key keys) (slice 88 n m) in
      if length m < 120 \<or> drop n m \<noteq> hs_mac (hp_sha3 P) (intro_mac_key keys) (take n m) then None
      else let cc = (text ! 20 = 1 \<and> text ! 21 = HS_EXT_CC_REQUEST);
               at = (if cc then 23 else 21)
           in if text ! at \<noteq> ONION_KEY_TYPE_NTOR then None
              else let k = u16_from_be (text ! (at + 1)) (text ! (at + 2)) in
                Some (take 20 text, cc, slice (at + 3) (at + 3 + k) text, parse_link_specifiers (drop (at + 3 + k) text)))"

lemma spec_loop_padded:
  "spec_loop n bs pos f = Inr g \<Longrightarrow> spec_loop n (bs @ z) pos f = Inr g"
proof (induction n arbitrary: pos f)
  case (Suc n)
  then have fits: "\<not> length bs < pos + 2" "\<not> length bs < pos + 2 + unat (bs ! (pos + 1))"
    and rec: "spec_loop n bs (pos + 2 + unat (bs ! (pos + 1)))
      (note_spec (bs ! pos) (slice (pos + 2) (pos + 2 + unat (bs ! (pos + 1))) bs) f) = Inr g"
    by (auto simp: spec_loop.simps(2) Let_def split: if_splits)
  have "(bs @ z) ! pos = bs ! pos" "(bs @ z) ! (pos + 1) = bs ! (pos + 1)"
    "slice (pos + 2) (pos + 2 + unat (bs ! (pos + 1))) (bs @ z) = slice (pos + 2) (pos + 2 + unat (bs ! (pos + 1))) bs"
    using fits by (simp_all add: nth_append slice_def)
  with fits Suc.IH [OF rec] show ?case by (simp add: spec_loop.simps(2) Let_def)
qed simp

lemma parse_link_specifiers_padded:
  "parse_link_specifiers bs = Inr g \<Longrightarrow> parse_link_specifiers (bs @ z) = Inr g"
  by (cases bs) (auto simp: parse_link_specifiers_def dest: spec_loop_padded [where z = z])

lemma plaintext_read:
  fixes cookie r cc
  assumes "length cookie = 20" "point_wf r"
  defines "t \<equiv> introduce_plaintext cookie r cc"
  defines "at \<equiv> (if cc then 23 else 21 :: nat)"
  shows "take 20 t = cookie" "(t ! 20 = 1 \<and> t ! 21 = HS_EXT_CC_REQUEST) = cc" "t ! at = ONION_KEY_TYPE_NTOR"
    "u16_from_be (t ! (at + 1)) (t ! (at + 2)) = 32" "slice (at + 3) (at + 3 + 32) t = ntor_onion_key r"
    "\<exists>z. drop (at + 3 + 32) t = link_specifiers r @ z"
proof -
  have k: "length (ntor_onion_key r) = 32" using assms(2) by (simp add: point_wf_def)
  obtain w where t: "t = cookie @ (if cc then [1, HS_EXT_CC_REQUEST, 0] else [0]) @ [ONION_KEY_TYPE_NTOR, 0, 32] @ ntor_onion_key r @ link_specifiers r @ w"
    using k by (simp add: t_def introduce_plaintext_def Let_def u16_to_be_def)
  show "take 20 t = cookie" using assms(1) by (simp add: t)
  show "(t ! 20 = 1 \<and> t ! 21 = HS_EXT_CC_REQUEST) = cc" using assms(1) by (simp add: t nth_append)
  show "t ! at = ONION_KEY_TYPE_NTOR" using assms(1) by (simp add: t nth_append at_def)
  show "u16_from_be (t ! (at + 1)) (t ! (at + 2)) = 32" using assms(1) by (simp add: t nth_append at_def u16_from_be_def)
  show "slice (at + 3) (at + 3 + 32) t = ntor_onion_key r" using assms(1) k by (simp add: t at_def slice_def)
  show "\<exists>z. drop (at + 3 + 32) t = link_specifiers r @ z" using assms(1) k by (simp add: t at_def)
qed

text \<open>
  C30: An introduction is understood by the service it is meant for and says nothing by its length: whatever
  the rendezvous point, the message is 366 bytes, under the 490 an introduction point takes; it names
  the authentication key and the client's public key in the clear; and the service, deriving its keys
  from that public key by hs-ntor, accepts the MAC and reads exactly the cookie, whether congestion control
  is asked for, the onion key and the whole address of the rendezvous point.
\<close>

theorem introduction_understood:
  assumes "prims_ok P" "length cookie = 20" "point_wf r" "length auth = 32"
    and "x_public P b = Inr B" "x_public P y = Inr Y" "hs_ntor_new P (Inr x) auth B = Inr cl" "x_dh P x Y = Inr xy"
  shows "\<exists>m keys reply ckeys.
     assemble_introduce1 P auth (hs_x_pub cl) (introduce_plaintext cookie r cc) (introduce_keys_for P cl subcredential) = Inr m \<and>
     length m = 366 \<and> slice 23 55 m = auth \<and> slice 56 88 m = hs_x_pub cl \<and>
     hs_server P b y auth subcredential (slice 56 88 m) = Some (keys, reply, ckeys) \<and>
     service_reads P keys m = Some (cookie, cc, ntor_onion_key r,
       Inr \<lparr>fs_addr = Some (relay_ip r, relay_port r), fs_rsa = Some (rsa_identity r), fs_ed = relay_ed_identity r\<rparr>)"
proof -
  obtain X xb where X: "x_public P x = Inr X" and xb: "x_dh P x B = Inr xb"
    and cl: "cl = \<lparr>hs_secret = x, hs_x_pub = X, hs_auth_key = auth, hs_enc_key = B, hs_exp_bx = xb\<rparr>"
    using assms(7) by (auto simp: hs_ntor_new_def)
  have dh: "x_dh P b X = Inr xb" "x_dh P y X = Inr xy" using prims_okD(2) [OF assms(1)] X assms(5,6,8) xb by blast+
  have lX: "length X = 32" by (rule prims_okD(1) [OF assms(1) X])
  define keys where "keys = introduce_keys_for P cl subcredential"
  define t where "t = introduce_plaintext cookie r cc"
  define c where "c = aes256_ctr P (intro_enc_key keys) t"
  define m where "m = introduce1_head auth X @ c @ hs_mac (hp_sha3 P) (intro_mac_key keys) (introduce1_head auth X @ c)"
  have lc: "length c = 246" using length_introduce_plaintext [OF assms(2,3), of cc] by (simp add: c_def t_def prims_okD [OF assms(1)])
  have lh: "length (introduce1_head auth X) = 88" using assms(4) lX by (simp add: introduce1_head_def)
  have lm: "length m = 366" using lc lh by (simp add: m_def hs_mac_def prims_okD [OF assms(1)])
  have parts: "take 334 m = introduce1_head auth X @ c" "drop 334 m = hs_mac (hp_sha3 P) (intro_mac_key keys) (introduce1_head auth X @ c)"
    "slice 88 334 m = c" "slice 23 55 m = auth" "slice 56 88 m = X"
    using lc lh assms(4) lX by (simp_all add: m_def slice_def introduce1_head_def u16_to_be_def)
  have made: "assemble_introduce1 P auth X (introduce_plaintext cookie r cc) keys = Inr m"
    using assembled [OF assms(1-4) lX, of cc keys] by (simp add: m_def c_def t_def)
  have server: "\<exists>reply ckeys. hs_server P b y auth subcredential X = Some (keys, reply, ckeys)"
    using assms(5,6) dh by (simp add: hs_server_def Let_def keys_def cl introduce_keys_for_def intro_key_input_def)
  have plain: "aes256_ctr P (intro_enc_key keys) c = t" by (simp add: c_def prims_okD(7) [OF assms(1)])
  have specs: "relay_info_wf r" using assms(3) by (simp add: point_wf_def)
  note read = plaintext_read [OF assms(2,3), of cc, folded t_def]
  obtain z where z: "drop ((if cc then 23 else 21) + 3 + 32) t = link_specifiers r @ z" using read(6) by blast
  have n: "(366 :: nat) - 32 = 334" "(366 < (120 :: nat)) = False" by simp_all
  have "service_reads P keys m = Some (cookie, cc, ntor_onion_key r,
      Inr \<lparr>fs_addr = Some (relay_ip r, relay_port r), fs_rsa = Some (rsa_identity r), fs_ed = relay_ed_identity r\<rparr>)"
    unfolding service_reads_def Let_def lm
    by (simp only: n parts plain read z parse_link_specifiers_padded [OF link_specifiers_roundtrip [OF specs]] if_False simp_thms)
  moreover have "hs_x_pub cl = X" by (simp add: cl)
  ultimately show ?thesis using made server lm parts(4,5) unfolding keys_def [symmetric] by (metis (no_types, lifting))
qed

section \<open>Reaching the service\<close>

text \<open>How the trace ends when an introduction led to the service.\<close>

definition met_trace :: "handshake_prims \<Rightarrow> rendezvous \<Rightarrow> intro_point \<Rightarrow> bytes \<Rightarrow> (cc_params \<times> u8) option \<Rightarrow> action list \<Rightarrow> bool" where
  "met_trace P rend ip subcredential congestion tr \<longleftrightarrow>
     (\<exists>pre x cl c message ack reply keys.
        hs_ntor_new P (Inr x) (ip_auth_key ip) (ip_enc_key ip) = Inr cl \<and>
        assemble_introduce1 P (ip_auth_key ip) (hs_x_pub cl)
          (introduce_plaintext (rend_cookie rend) (rend_point rend) (congestion \<noteq> None)) (introduce_keys_for P cl subcredential) = Inr message \<and>
        check_introduce_ack ack = Inr () \<and> hs_ntor_finish P cl reply = Inr keys \<and>
        tr = pre @ [SentControl c RELAY_INTRODUCE1 message (Inr ()), Waited c RELAY_INTRODUCE_ACK (Inr ack), Closed c,
               Waited (rend_circuit rend) RELAY_RENDEZVOUS2 (Inr reply), HopAdded (rend_circuit rend) keys] @
             (case congestion of None \<Rightarrow> [] | Some (terms, step) \<Rightarrow> [CongestionOn (rend_circuit rend) terms step]))"

lemma rend_then_Inr: "rend_then m f tr = (Inr b, tr') \<longleftrightarrow> (\<exists>a t. m tr = (Inr a, t) \<and> f a t = (Inr b, tr'))"
  by (auto simp: rend_then_def split: sum.splits prod.splits)

lemma hs_ntor_new_draws: "hs_ntor_new P g auth enc = Inr cl \<Longrightarrow> \<exists>x. g = Inr x"
  by (cases g) (simp_all add: hs_ntor_new_def)

lemma meet_Inr:
  assumes "meet N P rend cl congestion tr = (Inr u, tr')"
  obtains reply keys where "hs_ntor_finish P cl reply = Inr keys"
    "tr' = tr @ [Waited (rend_circuit rend) RELAY_RENDEZVOUS2 (Inr reply), HopAdded (rend_circuit rend) keys] @
       (case congestion of None \<Rightarrow> [] | Some (terms, step) \<Rightarrow> [CongestionOn (rend_circuit rend) terms step])"
  using assms by (fastforce simp: meet_def rend_steps split: sum.splits option.splits if_splits)

lemma hand_over_Inr:
  assumes "hand_over N c message tr = (Inr ack, tr')"
  shows "tr' = tr @ [SentControl c RELAY_INTRODUCE1 message (Inr ()), Waited c RELAY_INTRODUCE_ACK (Inr ack), Closed c]"
  using assms by (auto simp: hand_over_def rend_steps split: sum.splits)

lemma introduce_met:
  assumes "introduce N P rend ip subcredential ready congestion tr = (Inr u, tr')"
  shows "met_trace P rend ip subcredential congestion tr' \<and> (\<exists>more. tr' = tr @ more)"
proof -
  let ?tr = "tr @ [Drew (net_random N tr 32)]"
  obtain cl message where prep: "introduction_ready N P rend ip subcredential (congestion \<noteq> None) tr cl message"
    using assms by (fastforce simp: introduce_def draw_bytes_def rend_then_def rend_of_def introduction_ready_def split: sum.splits prod.splits)
  from assms obtain c t where c: "(case ready of Some c \<Rightarrow> rend_of (Inr c) | None \<Rightarrow> build_to N (ip_relay ip)) ?tr = (Inr c, t)"
    and run: "rend_then (hand_over N c message) (\<lambda>ack. rend_then (rend_of (check_introduce_ack ack)) (\<lambda>_. meet N P rend cl congestion)) t = (Inr u, tr')"
    unfolding introduce_unfold [OF prep] unfolding rend_then_Inr [of "case_option _ _ ready"] by blast
  obtain ack t1 where h: "hand_over N c message t = (Inr ack, t1)" and ok: "check_introduce_ack ack = Inr ()"
    and m: "meet N P rend cl congestion t1 = (Inr u, tr')"
    using run by (auto simp: rend_then_Inr rend_of_def)
  obtain reply keys where r: "hs_ntor_finish P cl reply = Inr keys"
    "tr' = t1 @ [Waited (rend_circuit rend) RELAY_RENDEZVOUS2 (Inr reply), HopAdded (rend_circuit rend) keys] @
       (case congestion of None \<Rightarrow> [] | Some (terms, step) \<Rightarrow> [CongestionOn (rend_circuit rend) terms step])"
    using m by (rule meet_Inr)
  obtain x where x: "net_random N tr 32 = Inr x" using prep unfolding introduction_ready_def by (blast dest: hs_ntor_new_draws)
  have "\<exists>more. t = ?tr @ more" using c by (auto simp: rend_of_def build_to_def split: option.splits)
  then have "\<exists>more. tr' = tr @ more" using r(2) hand_over_Inr [OF h] by auto
  moreover have "met_trace P rend ip subcredential congestion tr'"
    unfolding met_trace_def using prep ok r hand_over_Inr [OF h] x
    by (intro exI [of _ t] exI [of _ x] exI [of _ cl] exI [of _ c] exI [of _ message] exI [of _ ack] exI [of _ reply] exI [of _ keys])
      (simp add: introduction_ready_def)
  ultimately show ?thesis by blast
qed

definition sound_net :: "rend_net \<Rightarrow> handshake_prims \<Rightarrow> descriptor \<Rightarrow> bool" where
  "sound_net N P d \<longleftrightarrow> prims_ok P \<and> length (intro_points d) \<le> MAX_INTRO_POINTS \<and> (\<forall>tr r. net_point N tr = Inr r \<longrightarrow> point_wf r) \<and> (\<forall>tr b. net_random N tr 20 = Inr b \<longrightarrow> length b = 20) \<and>
     (\<forall>tr. \<forall>ip \<in> set (intro_points d). length (ip_auth_key ip) = 32 \<and> (\<exists>cl. hs_ntor_new P (net_random N tr 32) (ip_auth_key ip) (ip_enc_key ip) = Inr cl))"

lemma introduction_ready_always:
  assumes "sound_net N P d" "ip \<in> set (intro_points d)" "point_wf (rend_point rend)" "length (rend_cookie rend) = 20"
  shows "\<exists>cl message. introduction_ready N P rend ip subcredential cc tr cl message"
proof -
  have P: "prims_ok P" and auth: "length (ip_auth_key ip) = 32" using assms(1,2) by (auto simp: sound_net_def)
  obtain cl where cl: "hs_ntor_new P (net_random N tr 32) (ip_auth_key ip) (ip_enc_key ip) = Inr cl"
    using assms(1,2) unfolding sound_net_def by blast
  then have "length (hs_x_pub cl) = 32" using prims_okD(1) [OF P] by (auto simp: hs_ntor_new_def)
  from assembled [OF P assms(4,3) auth this] cl show ?thesis unfolding introduction_ready_def by blast
qed

lemma rend_extends:
  "hand_over N c message tr = (r, tr') \<Longrightarrow> \<exists>suf. tr' = tr @ suf"
  "meet N P rend cl congestion tr = (u, tr') \<Longrightarrow> \<exists>suf. tr' = tr @ suf"
  "open_rendezvous N tr = (v, tr') \<Longrightarrow> \<exists>suf. tr' = tr @ suf"
  by (auto simp: hand_over_def meet_def open_rendezvous_def rend_steps split: sum.splits option.splits if_splits)

lemma rend_then_extends:
  assumes "rend_then m f tr = (r, tr')" "\<And>x t. m tr = (x, t) \<Longrightarrow> \<exists>suf. t = tr @ suf" "\<And>a t x t'. f a t = (x, t') \<Longrightarrow> \<exists>suf. t' = t @ suf"
  shows "\<exists>suf. tr' = tr @ suf"
  using assms by (cases "m tr") (fastforce simp: rend_then_def split: sum.splits)

lemma introduce_extends: "introduce N P rend ip subcredential ready congestion tr = (r, tr') \<Longrightarrow> \<exists>suf. tr' = tr @ suf"
proof -
  let ?tr = "tr @ [Drew (net_random N tr 32)]"
  assume "introduce N P rend ip subcredential ready congestion tr = (r, tr')"
  then have "\<exists>suf. tr' = ?tr @ suf"
    unfolding introduce_def draw_bytes_def prod.case
    by (elim rend_then_extends)
      (auto simp: rend_of_def build_to_def split: option.splits dest: rend_extends)
  then show ?thesis by auto
qed

lemma take_ready_mset: "take_ready i q = (ready, p) \<Longrightarrow> prepared_mset q = ready_mset ready + prepared_mset p"
  by (cases q) (auto simp: take_ready_def split: if_splits)

lemma loop_accounts:
  "introduce_loop N P rend points subcredential congestion order s tr = (r, prepared, tr') \<Longrightarrow>
   (\<And>i t. i \<in> set order \<Longrightarrow> \<exists>cl message. introduction_ready N P rend (points ! i) subcredential (congestion \<noteq> None) t cl message) \<Longrightarrow>
   leaves_open (prepared_mset (at_prepared s) + M) tr \<Longrightarrow> leaves_open (prepared_mset prepared + M) tr'"
proof (induction order arbitrary: s tr)
  case (Cons i order)
  obtain ready p where tk: "take_ready i (at_prepared s) = (ready, p)" by fastforce
  obtain x t where run: "introduce N P rend (points ! i) subcredential ready congestion tr = (x, t)" by fastforce
  have "prepared_mset (at_prepared s) = ready_mset ready + prepared_mset p" by (rule take_ready_mset [OF tk])
  with Cons.prems(3) have "leaves_open (ready_mset ready + (prepared_mset p + M)) tr" by (simp add: add.assoc)
  then have t: "leaves_open (prepared_mset p + M) t" using Cons.prems(2) [of i tr] introduce_accounts run by fastforce
  show ?case
  proof (cases "net_late N tr")
    case True
    with Cons.prems(1,3) show ?thesis by auto
  next
    case False
    show ?thesis
    proof (cases x)
      case (Inl e)
      with Cons.prems(1) False tk run Cons.IH [OF _ Cons.prems(2)] t show ?thesis by simp
    next
      case (Inr u)
      with Cons.prems(1) False tk run t show ?thesis by simp
    qed
  qed
qed auto

lemma loop_met:
  "introduce_loop N P rend points subcredential congestion order s tr = (Inr u, prepared, tr') \<Longrightarrow>
   at_prepared s = None \<or> (\<exists>c. at_prepared s = Some (hd order, c)) \<Longrightarrow>
   prepared = None \<and> (\<exists>suf. tr' = tr @ suf) \<and> (\<exists>i \<in> set order. met_trace P rend (points ! i) subcredential congestion tr')"
proof (induction order arbitrary: s tr)
  case (Cons i order)
  obtain ready p where tk: "take_ready i (at_prepared s) = (ready, p)" by fastforce
  have p: "p = None" using tk Cons.prems(2) by (auto simp: take_ready_def)
  obtain x t where run: "introduce N P rend (points ! i) subcredential ready congestion tr = (x, t)" by fastforce
  have late: "\<not> net_late N tr" using Cons.prems(1) by auto
  show ?case
  proof (cases x)
    case (Inl e)
    let ?s = "\<lparr>at_last = Some e, at_all_unrecognized = (at_all_unrecognized s \<and> is_unrecognized_key e), at_count = at_count s + 1, at_prepared = None\<rparr>"
    have "introduce_loop N P rend points subcredential congestion order ?s t = (Inr u, prepared, tr')"
      using Cons.prems(1) late tk run Inl p by simp
    from Cons.IH [OF this] introduce_extends [OF run] show ?thesis by auto
  next
    case (Inr v)
    with Cons.prems(1) late tk run have e: "prepared = p" "tr' = t" by simp_all
    with run Inr introduce_met p show ?thesis by fastforce
  qed
qed auto

lemma open_rendezvous_Inr:
  assumes "open_rendezvous N tr = (Inr rend, tr')"
  obtains t x where "net_point N tr = Inr (rend_point rend)" "net_random N t 20 = Inr (rend_cookie rend)"
    "tr' = t @ [Drew (Inr (rend_cookie rend)), SentControl (rend_circuit rend) RELAY_ESTABLISH_RENDEZVOUS (rend_cookie rend) (Inr ()),
       Waited (rend_circuit rend) RELAY_RENDEZVOUS_ESTABLISHED (Inr x)]"
  using assms by (auto simp: open_rendezvous_def rend_steps split: sum.splits)

lemma run_plan_accounts:
  assumes net: "sound_net N P d" and order: "set order \<subseteq> {..<length (intro_points d)}"
    and prepared: "prepared = None \<or> (\<exists>c. prepared = Some (hd order, c))"
    and rend: "\<And>rend. met = Inr rend \<Longrightarrow> point_wf (rend_point rend) \<and> length (rend_cookie rend) = 20"
    and tr: "leaves_open (prepared_mset prepared + (case met of Inl _ \<Rightarrow> {#} | Inr rend \<Rightarrow> {#rend_circuit rend#})) tr"
    and run: "run_plan N P terms d subcredential order met prepared tr = (r, tr')"
  shows "case r of Inl f \<Rightarrow> leaves_open {#} tr' | Inr c \<Rightarrow> leaves_open {#c#} tr' \<and>
     (\<exists>rend. met = Inr rend \<and> rend_circuit rend = c \<and> (\<exists>suf. tr' = tr @ suf) \<and>
       (\<exists>ip \<in> set (intro_points d). met_trace P rend ip subcredential (congestion_from (service_flow_control d) terms) tr'))"
proof (cases met)
  case (Inl e)
  with run tr show ?thesis by (auto simp: run_plan_def close_prepared_def leaves_open_def split: option.splits)
next
  case (Inr rd)
  let ?cc = "congestion_from (service_flow_control d) terms"
  have ready: "\<exists>cl message. introduction_ready N P rd (intro_points d ! i) subcredential (?cc \<noteq> None) t cl message" if "i \<in> set order" for i t
    using that order rend [OF Inr] by (intro introduction_ready_always [OF net]) auto
  obtain x p t where loop: "introduce_until_met N P rd (intro_points d) subcredential ?cc order prepared tr = (x, p, t)" by (metis prod_cases3)
  note l = loop [unfolded introduce_until_met_def]
  have acc: "leaves_open (prepared_mset p + {#rend_circuit rd#}) t"
    by (rule loop_accounts [OF l ready]) (use tr Inr in simp_all)
  show ?thesis
  proof (cases x)
    case (Inl f)
    with Inr run loop acc show ?thesis by (auto simp: run_plan_def close_prepared_def leaves_open_def split: option.splits)
  next
    case (Inr u)
    from loop_met [OF l [unfolded Inr]] prepared obtain i where "p = None" "\<exists>suf. t = tr @ suf" "i \<in> set order"
      "met_trace P rd (intro_points d ! i) subcredential ?cc t" by auto
    moreover from this order have "intro_points d ! i \<in> set (intro_points d)" by auto
    ultimately show ?thesis using \<open>met = Inr rd\<close> Inr run loop acc by (auto simp: run_plan_def)
  qed
qed

lemma shuffle_set:
  assumes "shuffle xs ds = Some (Inr ys, rest)" "distinct xs" "length xs \<le> u64_max"
  shows "set ys = set xs"
proof (cases "xs = []")
  case True
  with assms(1) show ?thesis by (simp add: shuffle_def)
next
  case False
  with shuffle_fair [OF assms(2) False assms(3)] assms(1) have "mset ys = mset xs" by blast
  then show ?thesis by (metis set_mset_mset)
qed

lemma prepare_accounts:
  assumes "prepare N points order tr = (prepared, tr')" "leaves_open M tr"
  shows "leaves_open (prepared_mset prepared + M) tr'" "\<exists>suf. tr' = tr @ suf" "prepared = None \<or> (\<exists>c. prepared = Some (hd order, c))"
  using assms by (auto simp: prepare_def build_to_def leaves_open_def split: list.splits sum.splits)


section \<open>A circuit that is lost\<close>

text \<open>
  An attempt that cannot set up its handshake returns before it takes up the circuit that was built for it, and
  that circuit is dropped without being closed.
\<close>

lemma prepared_circuit_lost:
  assumes "hs_ntor_new P (net_random N tr 32) (ip_auth_key ip) (ip_enc_key ip) = Inl e" "leaves_open (add_mset c M) tr"
  shows "introduce N P rend ip subcredential (Some c) congestion tr = (Inl e, tr @ [Drew (net_random N tr 32)])"
    "leaves_open (add_mset c M) (tr @ [Drew (net_random N tr 32)])"
  using assms by (simp_all add: introduce_def draw_bytes_def rend_then_def rend_of_def leaves_open_def)

section \<open>Examples\<close>

definition demo_relay :: relay_info where
  "demo_relay = \<lparr>relay_ip = [10, 0, 0, 1], relay_port = 9001, rsa_identity = replicate 20 4, relay_ed_identity = Some (replicate 32 5),
     ntor_onion_key = replicate 32 6\<rparr>"

definition demo_descriptor :: descriptor where
  "demo_descriptor = \<lparr>lifetime_minutes = 180, revision_counter = 1,
     intro_points = [\<lparr>ip_relay = demo_relay, ip_auth_key = replicate 32 7, ip_enc_key = replicate 32 2\<rparr>], service_flow_control = None\<rparr>"

definition rend_demo :: rend_net where
  "rend_demo = \<lparr>net_spawned = True, net_late = \<lambda>tr. False, net_point = \<lambda>tr. Inr demo_relay, net_build = \<lambda>tr r. Inr (length tr),
     net_random = \<lambda>tr n. Inr (replicate n 1), net_send = \<lambda>tr c cmd m. Inr (), net_wait = \<lambda>tr c cmd. Inr [0, 1]\<rparr>"

lemma demo_relay_wf: "point_wf demo_relay"
  by (simp add: point_wf_def relay_info_wf_def demo_relay_def)

lemma rend_demo_sound: "sound_net rend_demo demo_prims demo_descriptor"
proof -
  have "\<exists>cl. hs_ntor_new demo_prims (Inr (replicate 32 1)) (replicate 32 7) (replicate 32 2) = Inr cl"
    using demo_exchange(1) [of 1] demo_exchange(2) [of 1 2] by (auto simp: hs_ntor_new_def)
  then show ?thesis
    using demo_prims_ok demo_relay_wf by (simp add: sound_net_def rend_demo_def demo_descriptor_def MAX_INTRO_POINTS_def)
qed


theorem introduction_understood_witness:
  "\<exists>cl m keys reply ckeys. hs_ntor_new demo_prims (Inr (replicate 32 1)) (replicate 32 7) (replicate 32 2) = Inr cl \<and> length m = 366 \<and>
     hs_server demo_prims (replicate 32 2) (replicate 32 3) (replicate 32 7) (replicate 32 9) (slice 56 88 m) = Some (keys, reply, ckeys) \<and>
     (\<exists>specs. service_reads demo_prims keys m = Some (replicate 20 8, True, replicate 32 6, Inr specs))"
proof -
  obtain s t where dh: "x_dh demo_prims (replicate 32 1) (replicate 32 2) = Inr s" "x_dh demo_prims (replicate 32 1) (replicate 32 3) = Inr t"
    using demo_exchange(2) by blast
  obtain cl where new: "hs_ntor_new demo_prims (Inr (replicate 32 1)) (replicate 32 7) (replicate 32 2) = Inr cl"
    using demo_exchange(1) [of 1] dh(1) by (simp add: hs_ntor_new_def)
  have key: "ntor_onion_key demo_relay = replicate 32 6" by (simp add: demo_relay_def)
  have len: "length (replicate 20 8 :: bytes) = 20" "length (replicate 32 7 :: bytes) = 32" by simp_all
  from introduction_understood [OF demo_prims_ok len(1) demo_relay_wf len(2) demo_exchange(1) [of 2] demo_exchange(1) [of 3] new dh(2),
      of True "replicate 32 9"] new show ?thesis
    unfolding key by blast
qed

end
