(* ===== verification/Hsdir_Ring.thy ===== *)
theory Hsdir_Ring
  imports Onion_Address Consensus_Doc "HOL-Library.List_Lexorder" "HOL-Library.Multiset"
begin

text \<open>
  The ring of directory nodes that hold onion service descriptors, \<^verbatim>\<open>src/tor/hs/hsdir.rs\<close>: the places of
  nodes and descriptors, the sorted ring, the nodes responsible for a descriptor and the shared random
  value the ring is computed from. SHA3-256 is a parameter. Places are compared as byte arrays are,
  lexicographically.
\<close>

record ring_node =
  node_identity :: bytes
  node_index :: bytes

definition hs_index :: "(bytes \<Rightarrow> bytes) \<Rightarrow> bytes \<Rightarrow> nat \<Rightarrow> time_period \<Rightarrow> bytes" where
  "hs_index sha3 blinded replica tp =
     sha3 (as_bytes ''store-at-idx'' @ blinded @ int8 replica @ int8 (period_length tp) @ int8 (period_number tp))"

definition hsdir_index :: "(bytes \<Rightarrow> bytes) \<Rightarrow> bytes \<Rightarrow> bytes \<Rightarrow> time_period \<Rightarrow> bytes" where
  "hsdir_index sha3 node_ed_identity srv tp =
     sha3 (as_bytes ''node-idx'' @ node_ed_identity @ srv @ int8 (period_number tp) @ int8 (period_length tp))"

definition build_ring :: "(bytes \<Rightarrow> bytes) \<Rightarrow> (bytes \<times> bytes) list \<Rightarrow> bytes \<Rightarrow> time_period \<Rightarrow> ring_node list" where
  "build_ring sha3 nodes srv tp =
     sort_key node_index
       (map (\<lambda>(ident, ed_identity). \<lparr>node_identity = ident, node_index = hsdir_index sha3 ed_identity srv tp\<rparr>) nodes)"

text \<open>\<^verbatim>\<open>partition_point\<close>: the ring is sorted, so that the binary search finds the end of the prefix.\<close>

definition partition_point :: "('a \<Rightarrow> bool) \<Rightarrow> 'a list \<Rightarrow> nat" where
  "partition_point P xs = length (takeWhile P xs)"

text \<open>The inner loop over the ring from \<open>first\<close> on.\<close>

fun claim_loop :: "nat \<Rightarrow> nat \<Rightarrow> bytes list \<Rightarrow> bytes list \<Rightarrow> bytes list" where
  "claim_loop spread taken out [] = out"
| "claim_loop spread taken out (ident # idents) =
     (if taken = spread then out
      else if ident \<in> set out then claim_loop spread taken out idents
      else claim_loop spread (taken + 1) (out @ [ident]) idents)"

definition claim_replica ::
    "(bytes \<Rightarrow> bytes) \<Rightarrow> ring_node list \<Rightarrow> bytes \<Rightarrow> time_period \<Rightarrow> nat \<Rightarrow> nat \<Rightarrow> bytes list \<Rightarrow> bytes list" where
  "claim_replica sha3 ring blinded tp spread replica out =
     (let start = hs_index sha3 blinded replica tp;
          first = partition_point (\<lambda>node. node_index node < start) ring
      in claim_loop spread 0 out (map (\<lambda>step. node_identity (ring ! ((first + step) mod length ring))) [0..<length ring]))"

definition responsible :: "(bytes \<Rightarrow> bytes) \<Rightarrow> ring_node list \<Rightarrow> bytes \<Rightarrow> time_period \<Rightarrow> nat \<Rightarrow> nat \<Rightarrow> bytes list" where
  "responsible sha3 ring blinded tp n_replicas spread_fetch =
     (if ring = [] then []
      else fold (claim_replica sha3 ring blinded tp spread_fetch) [1..<n_replicas + 1] [])"

definition disaster_srv :: "(bytes \<Rightarrow> bytes) \<Rightarrow> nat \<Rightarrow> nat \<Rightarrow> bytes" where
  "disaster_srv sha3 len num = sha3 (as_bytes ''shared-random-disaster'' @ int8 len @ int8 num)"

definition shared_random_value :: "(bytes \<Rightarrow> bytes) \<Rightarrow> consensus \<Rightarrow> time_period \<Rightarrow> bytes" where
  "shared_random_value sha3 con tp =
     (let after_noon = valid_after con mod 86400 \<ge> 12 * 3600;
          (published, num) =
            (if after_noon then (shared_rand_current con, period_number tp)
             else (shared_rand_previous con, wrap_u64 (period_number tp + u64_max)))
      in case published of Some srv \<Rightarrow> srv | None \<Rightarrow> disaster_srv sha3 (period_length tp) num)"

section \<open>Clockwise order\<close>

text \<open>The ring as it is walked from a place: the nodes at or past it, then those before it.\<close>

definition clockwise :: "bytes \<Rightarrow> ring_node list \<Rightarrow> ring_node list" where
  "clockwise start ring =
     filter (\<lambda>n. start \<le> node_index n) ring @ filter (\<lambda>n. node_index n < start) ring"

lemma rotated_nth:
  assumes "xs \<noteq> []"
  shows "map (\<lambda>step. f (xs ! ((k + step) mod length xs))) [0..<length xs] = map f (rotate k xs)"
  using assms by (intro nth_equalityI) (simp_all add: nth_rotate)

lemma sorted_split:
  assumes "sorted (map node_index ring)"
  shows "takeWhile (\<lambda>n. node_index n < start) ring = filter (\<lambda>n. node_index n < start) ring"
    and "dropWhile (\<lambda>n. node_index n < start) ring = filter (\<lambda>n. start \<le> node_index n) ring"
  using assms
proof (induction ring)
  case (Cons n ring)
  {
    case 1
    have "filter (\<lambda>m. node_index m < start) ring = []" if "\<not> node_index n < start"
      using 1 that by (auto simp: filter_empty_conv)
    then show ?case
      using Cons.IH(1) 1 by auto
  next
    case 2
    have "filter (\<lambda>m. start \<le> node_index m) ring = ring" if "\<not> node_index n < start"
      using 2 that by (intro filter_True) auto
    then show ?case
      using Cons.IH(2) 2 by auto
  }
qed simp_all

lemma rotate_clockwise:
  assumes "sorted (map node_index ring)"
  shows "rotate (partition_point (\<lambda>n. node_index n < start) ring) ring = clockwise start ring"
proof -
  have "rotate (length (takeWhile P ring)) ring = dropWhile P ring @ takeWhile P ring" for P :: "ring_node \<Rightarrow> bool"
    by (metis rotate_append takeWhile_dropWhile_id)
  then show ?thesis
    unfolding partition_point_def clockwise_def sorted_split [OF assms, symmetric] .
qed

lemma claim_loop_take:
  "distinct idents \<Longrightarrow> taken \<le> spread \<Longrightarrow>
     claim_loop spread taken out idents = out @ take (spread - taken) (filter (\<lambda>i. i \<notin> set out) idents)"
proof (induction spread taken out idents rule: claim_loop.induct)
  case (2 spread taken out ident idents)
  have "filter (\<lambda>i. i \<noteq> ident \<and> i \<notin> set out) idents = filter (\<lambda>i. i \<notin> set out) idents"
    using "2.prems"(1) by (intro filter_cong) auto
  moreover have "spread - taken = Suc (spread - Suc taken)" if "taken \<noteq> spread"
    using "2.prems"(2) that by simp
  ultimately show ?case
    using 2 by (auto simp: take_Cons')
qed simp

lemma mset_clockwise: "mset (clockwise start ring) = mset ring"
  by (induction ring) (auto simp: clockwise_def not_le)

lemma clockwise_idents:
  assumes "distinct (map node_identity ring)"
  shows "distinct (map node_identity (clockwise start ring))"
    and "set (map node_identity (clockwise start ring)) = node_identity ` set ring"
proof -
  have "mset (map node_identity (clockwise start ring)) = mset (map node_identity ring)"
    by (simp add: mset_clockwise)
  then show "distinct (map node_identity (clockwise start ring))"
    "set (map node_identity (clockwise start ring)) = node_identity ` set ring"
    using assms mset_eq_imp_distinct_iff mset_eq_setD by (metis, metis set_map)
qed

section \<open>Responsibility\<close>

definition claim :: "(bytes \<Rightarrow> bytes) \<Rightarrow> ring_node list \<Rightarrow> bytes \<Rightarrow> time_period \<Rightarrow> nat \<Rightarrow> nat \<Rightarrow> bytes list \<Rightarrow> bytes list" where
  "claim sha3 ring blinded tp spread replica out =
     out @ take spread (filter (\<lambda>i. i \<notin> set out) (map node_identity (clockwise (hs_index sha3 blinded replica tp) ring)))"

lemma claim_replica_clockwise:
  assumes "sorted (map node_index ring)" and "distinct (map node_identity ring)" and "ring \<noteq> []"
  shows "claim_replica sha3 ring blinded tp spread replica out = claim sha3 ring blinded tp spread replica out"
  unfolding claim_replica_def claim_def Let_def rotated_nth [OF assms(3)] rotate_clockwise [OF assms(1)]
  by (subst claim_loop_take) (simp_all only: clockwise_idents(1) [OF assms(2)] diff_zero le0)

lemma claim_invariant:
  assumes "distinct (map node_identity ring)" and "distinct out" and "set out \<subseteq> node_identity ` set ring"
  shows "distinct (claim sha3 ring blinded tp spread replica out)"
    and "set (claim sha3 ring blinded tp spread replica out) \<subseteq> node_identity ` set ring"
    and "length (claim sha3 ring blinded tp spread replica out) = min (length out + spread) (length ring)"
proof -
  let ?ids = "map node_identity (clockwise (hs_index sha3 blinded replica tp) ring)"
  let ?new = "filter (\<lambda>i. i \<notin> set out) ?ids"
  note ids = clockwise_idents [OF assms(1), of "hs_index sha3 blinded replica tp"]
  have d: "distinct ?new" and sub: "set (take spread ?new) \<subseteq> set ?new"
    using ids(1) by (rule distinct_filter) (rule set_take_subset)
  have "set ?new = node_identity ` set ring - set out"
    using ids(2) by auto
  then have "length ?new = card (node_identity ` set ring - set out)"
    using distinct_card [OF d] by simp
  also have "\<dots> = length ring - length out"
    using assms distinct_card [OF assms(2)] distinct_card [OF assms(1)] by (simp add: card_Diff_subset)
  finally have n: "length ?new = length ring - length out" .
  have "length out \<le> length ring"
    using assms card_mono [of "node_identity ` set ring" "set out"] distinct_card [OF assms(1)] distinct_card [OF assms(2)] by simp
  then show "length (claim sha3 ring blinded tp spread replica out) = min (length out + spread) (length ring)"
    unfolding claim_def length_append length_take n by simp
  show "distinct (claim sha3 ring blinded tp spread replica out)"
    using assms(2) d sub by (auto simp: claim_def distinct_take)
  show "set (claim sha3 ring blinded tp spread replica out) \<subseteq> node_identity ` set ring"
    using assms(3) sub ids(2) by (auto simp: claim_def)
qed

lemma claims_invariant:
  assumes "distinct (map node_identity ring)"
  shows "distinct (fold (claim sha3 ring blinded tp spread) [1..<n + 1] []) \<and>
     set (fold (claim sha3 ring blinded tp spread) [1..<n + 1] []) \<subseteq> node_identity ` set ring \<and>
     length (fold (claim sha3 ring blinded tp spread) [1..<n + 1] []) = min (n * spread) (length ring)"
proof (induction n)
  case (Suc n)
  then show ?case
    using claim_invariant [OF assms, of "fold (claim sha3 ring blinded tp spread) [1..<n + 1] []" sha3 blinded tp spread "Suc n"]
    by (auto simp: min_def)
qed simp

lemma build_ring_sorted: "sorted (map node_index (build_ring sha3 nodes srv tp))"
  by (simp add: build_ring_def)

lemma build_ring_idents: "mset (map node_identity (build_ring sha3 nodes srv tp)) = mset (map fst nodes)"
proof -
  have "node_identity \<circ> (\<lambda>(ident, ed_identity). \<lparr>node_identity = ident, node_index = hsdir_index sha3 ed_identity srv tp\<rparr>) = fst"
    by auto
  then show ?thesis
    by (simp add: build_ring_def multiset.map_comp)
qed

lemma sort_key_order:
  assumes "mset xs = mset ys" and "inj_on f (set ys)"
  shows "sort_key f xs = sort_key f ys"
proof -
  have "sort (map f (sort_key f xs)) = map f (sort_key f ys)"
    by (rule properties_for_sort) (simp_all add: assms(1))
  then have "map f (sort_key f xs) = map f (sort_key f ys)"
    by (simp add: sorted_sort_id)
  then show ?thesis
    using assms mset_eq_setD [OF assms(1)] by (auto intro: inj_on_map_eq_map [THEN iffD1])
qed

lemma build_ring_order:
  assumes "inj_on (\<lambda>n. hsdir_index sha3 (snd n) srv tp) (set nodes)" and "mset nodes' = mset nodes"
  shows "build_ring sha3 nodes' srv tp = build_ring sha3 nodes srv tp"
  unfolding build_ring_def
proof (rule sort_key_order)
  let ?node = "\<lambda>(ident, ed_identity). \<lparr>node_identity = ident, node_index = hsdir_index sha3 ed_identity srv tp\<rparr>"
  show "mset (map ?node nodes') = mset (map ?node nodes)"
    by (simp add: assms(2))
  show "inj_on node_index (set (map ?node nodes))"
    using assms(1) by (fastforce simp: inj_on_def)
qed

section \<open>Properties\<close>

text \<open>
  C24: The nodes a client asks for a descriptor are, replica by replica, the first \<open>spread\<close> nodes met
  clockwise from the replica's place that no earlier replica has claimed, wrapping past the end of the
  ring: distinct nodes of the ring, and as many as asked for or else every node there is. Both ends
  compute the same ring from the same nodes, in whatever order they have them.
\<close>

theorem responsible_nodes:
  assumes "distinct (map fst nodes)" and "inj_on (\<lambda>n. hsdir_index sha3 (snd n) srv tp) (set nodes)" and "mset nodes' = mset nodes"
  defines "ring \<equiv> build_ring sha3 nodes srv tp"
  shows "responsible sha3 ring blinded tp n spread = fold (claim sha3 ring blinded tp spread) [1..<n + 1] []
     \<and> distinct (responsible sha3 ring blinded tp n spread)
     \<and> set (responsible sha3 ring blinded tp n spread) \<subseteq> fst ` set nodes
     \<and> length (responsible sha3 ring blinded tp n spread) = min (n * spread) (length nodes)
     \<and> build_ring sha3 nodes' srv tp = ring"
proof -
  have ids: "mset (map node_identity ring) = mset (map fst nodes)"
    by (simp only: ring_def build_ring_idents)
  then have dist: "distinct (map node_identity ring)" and set_ids: "node_identity ` set ring = fst ` set nodes"
    using assms(1) mset_eq_imp_distinct_iff mset_eq_setD by (metis, metis set_map)
  have len: "length ring = length nodes"
    by (simp add: ring_def build_ring_def)
  have fold_eq: "responsible sha3 ring blinded tp n spread = fold (claim sha3 ring blinded tp spread) [1..<n + 1] []"
  proof (cases "ring = []")
    case True
    then have "fold (claim sha3 [] blinded tp spread) reps [] = []" for reps
      by (induction reps) (simp_all add: claim_def clockwise_def)
    then show ?thesis
      using True by (simp add: responsible_def)
  next
    case False
    then have "claim_replica sha3 ring blinded tp spread = claim sha3 ring blinded tp spread"
      using claim_replica_clockwise dist build_ring_sorted [of sha3 nodes srv tp] by (intro ext) (simp add: ring_def)
    then show ?thesis
      using False by (simp add: responsible_def)
  qed
  moreover have "build_ring sha3 nodes' srv tp = ring"
    unfolding ring_def using assms(2,3) by (rule build_ring_order)
  ultimately show ?thesis
    using claims_invariant [OF dist, of sha3 blinded tp spread n] set_ids len by simp
qed

theorem responsible_nodes_witness:
  "let nodes = [([1], [1]), ([2], [2]), ([3], [3])]; tp = \<lparr>period_number = 1, period_length = 2\<rparr>; ring = build_ring rev nodes [] tp
   in length (responsible rev ring [7] tp 2 1) = min (2 * 1) (length nodes)
    \<and> distinct (responsible rev ring [7] tp 2 1) \<and> build_ring rev (rev nodes) [] tp = ring"
proof -
  let ?nodes = "[([1], [1]), ([2], [2]), ([3], [3])] :: (bytes \<times> bytes) list"
  let ?tp = "\<lparr>period_number = 1, period_length = 2\<rparr>"
  have "distinct (map fst ?nodes)" "inj_on (\<lambda>n. hsdir_index rev (snd n) [] ?tp) (set ?nodes)" "mset (rev ?nodes) = mset ?nodes"
    by (simp_all add: hsdir_index_def inj_on_def)
  note responsible_nodes [OF this, of "[7]" 2 1]
  then show ?thesis
    unfolding Let_def by blast
qed

end
