(* ===== verification/Circuit_Pool.thy ===== *)
theory Circuit_Pool
  imports Circuit_State Circuit_Paths
begin

text \<open>
  The circuit pool of \<^verbatim>\<open>pool.rs\<close> and the decisions of the thread that stocks it. A circuit is a
  reference: the channel it runs on and its number there. What the pool reads of a circuit (closed or
  not, open streams, what it delivered) and of the clock changes under it without its lock, so every
  pass over the circuits takes a snapshot of its own; nothing relates two snapshots. Times are
  milliseconds. Every operation runs under the pool's lock and returns the circuits it closes.
\<close>

section \<open>Circuits and their verdicts\<close>

definition STUB_TARGET :: nat where "STUB_TARGET = 3"
definition BUILD_PARALLEL :: nat where "BUILD_PARALLEL = 3"
definition MAX_CIRCUITS :: nat where "MAX_CIRCUITS = 16"
definition SPREAD_CIRCUITS :: nat where "SPREAD_CIRCUITS = 4"
definition CLEAN_TARGET :: nat where "CLEAN_TARGET = 6"
definition MEASURE_MIN_BYTES :: nat where "MEASURE_MIN_BYTES = 2 ^ 20"
definition MEASURE_MIN_ACTIVE_MS :: nat where "MEASURE_MIN_ACTIVE_MS = 2000"
definition FLOOR_KBPS :: nat where "FLOOR_KBPS = 150"
definition STREAMS_PER_CIRCUIT :: nat where "STREAMS_PER_CIRCUIT = 4"
definition MAX_DIRTY_AGE :: nat where "MAX_DIRTY_AGE = 600 * 1000"
definition MAX_IDLE_AGE :: nat where "MAX_IDLE_AGE = 1800 * 1000"
definition STUB_MAX_AGE :: nat where "STUB_MAX_AGE = 300 * 1000"
definition PREDICTION_WINDOW :: nat where "PREDICTION_WINDOW = 3600 * 1000"
definition DEFAULT_PORTS :: "nat list" where "DEFAULT_PORTS = [80, 443]"
definition BUILDER_TICK :: nat where "BUILDER_TICK = 30 * 1000"
definition BUILD_RETRY_MIN :: nat where "BUILD_RETRY_MIN = 2 * 1000"
definition BUILD_RETRY_MAX :: nat where "BUILD_RETRY_MAX = 120 * 1000"
definition MAX_PENDING_BLAME :: nat where "MAX_PENDING_BLAME = 64"

record circuit_ref =
  on_channel :: nat
  ref_id :: nat

record circuit_view =
  is_closed :: bool
  open_streams :: nat
  delivery :: meter

record snapshot =
  clock :: nat
  circuit_at :: "circuit_ref \<Rightarrow> circuit_view"

definition elapsed :: "snapshot \<Rightarrow> nat \<Rightarrow> nat" where
  "elapsed s t = clock s - t"

record pool_stub =
  stub_circuit :: circuit_ref
  stub_constraints :: path_constraints
  stub_on_guard :: bytes
  stub_built :: nat

definition stub_usable :: "snapshot \<Rightarrow> pool_stub \<Rightarrow> bool" where
  "stub_usable s x \<longleftrightarrow> \<not> is_closed (circuit_at s (stub_circuit x)) \<and> elapsed s (stub_built x) < STUB_MAX_AGE"

record pooled =
  circuit :: circuit_ref
  exit_md :: microdesc
  on_guard :: bytes
  blamed :: bool
  built :: nat
  first_used :: "nat option"

datatype verdict = Keep | Expired | TooSlow nat | Unresponsive

fun blames_the_path :: "verdict \<Rightarrow> bool" where
  "blames_the_path (TooSlow _) = True"
| "blames_the_path Unresponsive = True"
| "blames_the_path _ = False"

definition judge :: "meter \<Rightarrow> verdict" where
  "judge m =
     (case kbps m MEASURE_MIN_BYTES MEASURE_MIN_ACTIVE_MS of
        Some r \<Rightarrow> if r < FLOOR_KBPS then TooSlow r else Keep
      | None \<Rightarrow> Keep)"

definition verdict_of :: "snapshot \<Rightarrow> pooled \<Rightarrow> verdict" where
  "verdict_of s c =
     (let v = circuit_at s (circuit c) in
      if is_closed v \<or> MAX_IDLE_AGE \<le> elapsed s (built c) then Expired
      else if (case first_used c of None \<Rightarrow> False | Some at \<Rightarrow> MAX_DIRTY_AGE \<le> elapsed s at) then Expired
      else judge (delivery v))"

definition pooled_usable :: "snapshot \<Rightarrow> pooled \<Rightarrow> bool" where
  "pooled_usable s c \<longleftrightarrow> verdict_of s c = Keep"

abbreviation streams_on :: "snapshot \<Rightarrow> pooled \<Rightarrow> nat" where
  "streams_on s c \<equiv> open_streams (circuit_at s (circuit c))"

section \<open>The pool\<close>

record prediction =
  pred_port :: nat
  last_wanted :: nat

record pool =
  stubs :: "pool_stub list"
  circuits :: "pooled list"
  predicted :: "prediction list"
  onion_in_use :: nat
  pending_blame :: "(bytes \<times> verdict) list"

definition pool_new :: pool where
  "pool_new = \<lparr>stubs = [], circuits = [], predicted = [], onion_in_use = 0, pending_blame = []\<rparr>"

definition total :: "pool \<Rightarrow> nat" where
  "total p = length (stubs p) + length (circuits p) + onion_in_use p"

definition add_blame :: "bytes \<Rightarrow> verdict \<Rightarrow> (bytes \<times> verdict) list \<Rightarrow> (bytes \<times> verdict) list" where
  "add_blame g v bl = (if length bl < MAX_PENDING_BLAME then bl @ [(g, v)] else bl)"

text \<open>
  The pass over the finished circuits: a circuit no longer wanted goes once it carries no stream, and
  one too slow is counted against its guard the first time.
\<close>

fun retire_circuits ::
  "snapshot \<Rightarrow> pooled list \<Rightarrow> (bytes \<times> verdict) list \<Rightarrow> pooled list \<times> circuit_ref list \<times> (bytes \<times> verdict) list" where
  "retire_circuits s [] bl = ([], [], bl)"
| "retire_circuits s (c # cs) bl =
     (let v = verdict_of s c;
          bl = (if blames_the_path v \<and> \<not> blamed c then add_blame (on_guard c) v bl else bl);
          (kept, closing, bl) = retire_circuits s cs bl
      in if v = Keep \<or> streams_on s c \<noteq> 0 then (c # kept, closing, bl) else (kept, circuit c # closing, bl))"

definition retire :: "snapshot \<Rightarrow> snapshot \<Rightarrow> pool \<Rightarrow> circuit_ref list \<times> pool" where
  "retire s s' p =
     (let (kept, closing, bl) = retire_circuits s (circuits p) (pending_blame p)
      in (map stub_circuit (filter (\<lambda>x. \<not> stub_usable s x) (stubs p)) @ closing,
          p\<lparr>stubs := filter (stub_usable s) (stubs p),
            circuits := map (\<lambda>c. if blames_the_path (verdict_of s' c) then c\<lparr>blamed := True\<rparr> else c) kept,
            pending_blame := bl,
            predicted := filter (\<lambda>x. elapsed s' (last_wanted x) < PREDICTION_WINDOW) (predicted p)\<rparr>))"

definition note_port :: "nat \<Rightarrow> nat \<Rightarrow> pool \<Rightarrow> pool" where
  "note_port t port p =
     (case position (\<lambda>x. pred_port x = port) (predicted p) of
        Some i \<Rightarrow> p\<lparr>predicted := (predicted p)[i := (predicted p ! i)\<lparr>last_wanted := t\<rparr>]\<rparr>
      | None \<Rightarrow> p\<lparr>predicted := predicted p @ [\<lparr>pred_port = port, last_wanted = t\<rparr>]\<rparr>)"

definition predicted_ports :: "snapshot \<Rightarrow> snapshot \<Rightarrow> pool \<Rightarrow> nat list \<times> circuit_ref list \<times> pool" where
  "predicted_ports s s' p =
     (let (closing, p) = retire s s' p
      in (if predicted p = [] then DEFAULT_PORTS else map pred_port (predicted p), closing, p))"

definition stream_limit :: "nat \<Rightarrow> nat" where
  "stream_limit allowing = (if allowing < SPREAD_CIRCUITS then 1 else STREAMS_PER_CIRCUIT)"

text \<open>\<open>circuit_for\<close>: \<open>None\<close> in the outer option is a draw still being waited for.\<close>

definition usable_for :: "snapshot \<Rightarrow> nat \<Rightarrow> pool \<Rightarrow> (nat \<times> nat) list" where
  "usable_for s port p =
     map (\<lambda>(i, c). (i, streams_on s c))
       (filter (\<lambda>(i, c). pooled_usable s c \<and> allows port (exit_policy (exit_md c))) (enumerate 0 (circuits p)))"

definition pick_among :: "nat list \<Rightarrow> nat drawing" where
  "pick_among candidates ds =
     map_option (\<lambda>(r, ds). (case r of Inr n \<Rightarrow> Inr (candidates ! n) | Inl _ \<Rightarrow> Inr (candidates ! 0), ds))
       (below (length candidates) ds)"

definition circuit_for ::
  "snapshot \<Rightarrow> snapshot \<Rightarrow> snapshot \<Rightarrow> nat \<Rightarrow> pool \<Rightarrow> draws \<Rightarrow>
   (circuit_ref option \<times> circuit_ref list \<times> pool) option" where
  "circuit_for s s' s'' port p ds =
     (let (closing, p) = retire s s' p;
          room = total p < MAX_CIRCUITS;
          us = usable_for s'' port p
      in if us = [] then Some (None, closing, p)
         else let fewest = Min (set (map snd us)) in
           if stream_limit (length us) \<le> fewest \<and> room then Some (None, closing, p)
           else case pick_among (map fst (filter (\<lambda>(i, n). n = fewest) us)) ds of
             Some (Inr i, _) \<Rightarrow>
               let c = circuits p ! i;
                   used = (case first_used c of None \<Rightarrow> Some (clock s'') | Some t \<Rightarrow> Some t)
               in Some (Some (circuit c), closing, p\<lparr>circuits := (circuits p)[i := c\<lparr>first_used := used\<rparr>]\<rparr>)
           | _ \<Rightarrow> None)"

definition wanting_probe :: "snapshot \<Rightarrow> pool \<Rightarrow> circuit_ref list" where
  "wanting_probe s p = map circuit (filter (\<lambda>c. wants_probe (delivery (circuit_at s (circuit c)))) (circuits p))"

text \<open>Removal compares circuit numbers only; the circuit passed in is the one that is closed.\<close>

definition condemn :: "circuit_ref \<Rightarrow> pool \<Rightarrow> circuit_ref list \<times> pool" where
  "condemn x p =
     (case position (\<lambda>c. ref_id (circuit c) = ref_id x) (circuits p) of
        None \<Rightarrow> ([x], p)
      | Some i \<Rightarrow>
          let dead = circuits p ! i
          in ([x], p\<lparr>circuits := remove_at i (circuits p),
                     pending_blame := (if \<not> blamed dead then add_blame (on_guard dead) Unresponsive (pending_blame p)
                                       else pending_blame p)\<rparr>))"

definition take_blame :: "pool \<Rightarrow> (bytes \<times> verdict) list \<times> pool" where
  "take_blame p = (pending_blame p, p\<lparr>pending_blame := []\<rparr>)"

definition take_stub ::
  "snapshot \<Rightarrow> snapshot \<Rightarrow> (path_constraints \<Rightarrow> bool) \<Rightarrow> pool \<Rightarrow> pool_stub option \<times> circuit_ref list \<times> pool" where
  "take_stub s s' fits p =
     (let (closing, p) = retire s s' p
      in case position (\<lambda>x. fits (stub_constraints x)) (stubs p) of
           None \<Rightarrow> (None, closing, p)
         | Some i \<Rightarrow> (Some (stubs p ! i), closing, p\<lparr>stubs := remove_at i (stubs p)\<rparr>))"

definition add_stub :: "pool_stub \<Rightarrow> pool \<Rightarrow> circuit_ref list \<times> pool" where
  "add_stub x p =
     (if MAX_CIRCUITS \<le> total p then ([stub_circuit x], p) else ([], p\<lparr>stubs := stubs p @ [x]\<rparr>))"

text \<open>\<^verbatim>\<open>min_by_key\<close> over the circuits without streams: the place of the first oldest one.\<close>

fun oldest_idle :: "snapshot \<Rightarrow> pooled list \<Rightarrow> nat option" where
  "oldest_idle s [] = None"
| "oldest_idle s (c # cs) =
     (case oldest_idle s cs of
        None \<Rightarrow> if streams_on s c = 0 then Some 0 else None
      | Some i \<Rightarrow> if streams_on s c = 0 \<and> built c \<le> built (cs ! i) then Some 0 else Some (Suc i))"

lemma oldest_idle_less: "oldest_idle s cs = Some i \<Longrightarrow> i < length cs"
  by (induction cs arbitrary: i) (auto split: option.splits if_splits)

function make_room :: "snapshot \<Rightarrow> pool \<Rightarrow> circuit_ref list \<times> pool" where
  "make_room s p =
     (if total p < MAX_CIRCUITS then ([], p)
      else case oldest_idle s (circuits p) of
        Some i \<Rightarrow>
          let (closing, p') = make_room s (p\<lparr>circuits := remove_at i (circuits p)\<rparr>)
          in (circuit (circuits p ! i) # closing, p')
      | None \<Rightarrow>
          (case stubs p of
             [] \<Rightarrow> ([], p)
           | x # xs \<Rightarrow> let (closing, p') = make_room s (p\<lparr>stubs := xs\<rparr>) in (stub_circuit x # closing, p')))"
  by pat_completeness auto
termination
  by (relation "measure (\<lambda>(s, p). length (stubs p) + length (circuits p))")
     (auto dest!: oldest_idle_less simp: remove_at_def)

declare make_room.simps [simp del]

definition insert_circuit ::
  "snapshot \<Rightarrow> snapshot \<Rightarrow> snapshot \<Rightarrow> circuit_ref \<Rightarrow> microdesc \<Rightarrow> bytes \<Rightarrow> bool \<Rightarrow> pool \<Rightarrow> circuit_ref list \<times> pool" where
  "insert_circuit s s' s'' x md guard used p =
     (let (closing, p) = retire s s' p;
          (more_closing, p) = make_room s'' p
      in (closing @ more_closing,
          p\<lparr>circuits := circuits p @
             [\<lparr>circuit = x, exit_md = md, on_guard = guard, blamed = False, built = clock s'',
               first_used = (if used then Some (clock s'') else None)\<rparr>]\<rparr>))"

definition discard :: "circuit_ref \<Rightarrow> pool \<Rightarrow> circuit_ref list \<times> pool" where
  "discard x p =
     ([x], p\<lparr>circuits := filter (\<lambda>c. ref_id (circuit c) \<noteq> ref_id x) (circuits p),
             stubs := filter (\<lambda>st. ref_id (stub_circuit st) \<noteq> ref_id x) (stubs p)\<rparr>)"

definition set_onion_in_use :: "nat \<Rightarrow> pool \<Rightarrow> pool" where
  "set_onion_in_use n p = p\<lparr>onion_in_use := n\<rparr>"

text \<open>\<^verbatim>\<open>clear\<close> closes the stubs it drops but not the finished circuits it drops.\<close>

definition clear :: "snapshot \<Rightarrow> pool \<Rightarrow> circuit_ref list \<times> pool" where
  "clear s p =
     (map stub_circuit (stubs p),
      p\<lparr>stubs := [], circuits := filter (\<lambda>c. 0 < streams_on s c) (circuits p)\<rparr>)"

definition counts :: "snapshot \<Rightarrow> snapshot \<Rightarrow> pool \<Rightarrow> (nat \<times> nat) \<times> circuit_ref list \<times> pool" where
  "counts s s' p = (let (closing, p) = retire s s' p in ((length (stubs p), length (circuits p)), closing, p))"

section \<open>What to build next\<close>

datatype job = Stub | Clean

definition clean_count :: "snapshot \<Rightarrow> nat list \<Rightarrow> pool \<Rightarrow> nat" where
  "clean_count s ports p =
     length (filter (\<lambda>c. pooled_usable s c \<and> first_used c = None \<and> list_all (\<lambda>n. allows n (exit_policy (exit_md c))) ports)
       (circuits p))"

definition next_job_in :: "snapshot \<Rightarrow> nat list \<Rightarrow> pool \<Rightarrow> job option" where
  "next_job_in s ports p =
     (if MAX_CIRCUITS \<le> total p then None
      else let clean = clean_count s ports p in
        if clean = 0 then Some Clean
        else if stubs p = [] then Some Stub
        else if clean < CLEAN_TARGET then Some Clean
        else if length (stubs p) < STUB_TARGET then Some Stub
        else None)"

definition next_job :: "snapshot \<Rightarrow> snapshot \<Rightarrow> snapshot \<Rightarrow> nat list \<Rightarrow> pool \<Rightarrow> job option \<times> circuit_ref list \<times> pool" where
  "next_job s s' s'' ports p = (let (closing, p) = retire s s' p in (next_job_in s'' ports p, closing, p))"

fun job_loop :: "nat \<Rightarrow> nat \<Rightarrow> nat \<Rightarrow> nat \<Rightarrow> nat \<Rightarrow> job list \<Rightarrow> job list" where
  "job_loop budget limit room clean_short stubs_short jobs =
     (if budget < limit \<and> length jobs < room + 1 \<and> (0 < clean_short \<or> 0 < stubs_short)
      then if 0 < stubs_short then job_loop (budget + 1) limit room clean_short (stubs_short - 1) (jobs @ [Stub])
           else job_loop (budget + 1) limit room (clean_short - 1) stubs_short (jobs @ [Clean])
      else jobs)"

declare job_loop.simps [simp del]

text \<open>
  \<^verbatim>\<open>next_jobs\<close> lets go of the lock after the first job: the pool it then reads may have changed, so it
  is an argument of its own.
\<close>

definition next_jobs_in :: "snapshot \<Rightarrow> nat list \<Rightarrow> nat \<Rightarrow> pool \<Rightarrow> job \<Rightarrow> job list" where
  "next_jobs_in s ports limit p first =
     (let clean = clean_count s ports p
      in job_loop 1 limit (MAX_CIRCUITS - (total p + 1)) (CLEAN_TARGET - (clean + 1)) (STUB_TARGET - length (stubs p)) [first])"

definition next_jobs ::
  "snapshot \<Rightarrow> snapshot \<Rightarrow> snapshot \<Rightarrow> snapshot \<Rightarrow> nat list \<Rightarrow> nat \<Rightarrow> pool \<Rightarrow> (pool \<Rightarrow> pool) \<Rightarrow> job list \<times> circuit_ref list \<times> pool" where
  "next_jobs s s' s'' s''' ports limit p meanwhile =
     (case next_job s s' s'' ports p of
        (None, closing, p) \<Rightarrow> ([], closing, p)
      | (Some first, closing, p) \<Rightarrow> let p = meanwhile p in (next_jobs_in s''' ports limit p first, closing, p))"

text \<open>
  \<^verbatim>\<open>build\<close>: the circuit the client built for a job, or its failure, goes into the pool. \<open>built_stub\<close> and
  \<open>built_exit\<close> are the answers of \<^verbatim>\<open>build_stub\<close> and \<^verbatim>\<open>build_exit_circuit\<close>.
\<close>

definition build_job ::
  "snapshot \<Rightarrow> snapshot \<Rightarrow> snapshot \<Rightarrow> pool_stub io_result \<Rightarrow> (circuit_ref \<times> microdesc \<times> bytes) io_result \<Rightarrow> job \<Rightarrow> pool \<Rightarrow>
   unit io_result \<times> circuit_ref list \<times> pool" where
  "build_job s s' s'' built_stub built_exit j p =
     (case j of
        Stub \<Rightarrow> (case built_stub of Inl e \<Rightarrow> (Inl e, [], p) | Inr x \<Rightarrow> (Inr (), add_stub x p))
      | Clean \<Rightarrow>
          (case built_exit of
             Inl e \<Rightarrow> (Inl e, [], p)
           | Inr (x, md, guard) \<Rightarrow> (Inr (), insert_circuit s s' s'' x md guard False p)))"

text \<open>One turn of the builder: how long to wait, and the next wait after a failure.\<close>

definition builder_wait :: "bool list \<Rightarrow> nat \<Rightarrow> nat \<times> nat" where
  "builder_wait results backoff =
     (if results = [] then (BUILDER_TICK, backoff)
      else if True \<in> set results then (50, BUILD_RETRY_MIN)
      else (backoff, min (backoff * 2) BUILD_RETRY_MAX))"

section \<open>Retiring circuits\<close>

abbreviation refs :: "pool \<Rightarrow> circuit_ref list" where
  "refs p \<equiv> map stub_circuit (stubs p) @ map circuit (circuits p)"

lemma length_add_blame: "length bl \<le> MAX_PENDING_BLAME \<Longrightarrow> length (add_blame g v bl) \<le> MAX_PENDING_BLAME"
  by (simp add: add_blame_def)

lemma retire_circuits_kept:
  "fst (retire_circuits s cs bl) = filter (\<lambda>c. pooled_usable s c \<or> streams_on s c \<noteq> 0) cs"
  by (induction cs arbitrary: bl) (simp_all add: Let_def pooled_usable_def split_def)

lemma retire_circuits_closing:
  "fst (snd (retire_circuits s cs bl)) = map circuit (filter (\<lambda>c. \<not> (pooled_usable s c \<or> streams_on s c \<noteq> 0)) cs)"
  by (induction cs arbitrary: bl) (simp_all add: Let_def pooled_usable_def split_def)

lemma retire_circuits_blame:
  "length bl \<le> MAX_PENDING_BLAME \<Longrightarrow> length (snd (snd (retire_circuits s cs bl))) \<le> MAX_PENDING_BLAME"
  by (induction cs arbitrary: bl) (simp_all add: Let_def split_def length_add_blame)

lemma retire_circuits_no_blame:
  "(\<And>c. c \<in> set cs \<Longrightarrow> blames_the_path (verdict_of s c) \<Longrightarrow> blamed c) \<Longrightarrow> snd (snd (retire_circuits s cs bl)) = bl"
  by (induction cs arbitrary: bl) (auto simp: Let_def split_def)

lemma retire_simps:
  "fst (retire s s' p) = map stub_circuit (filter (\<lambda>x. \<not> stub_usable s x) (stubs p)) @
     map circuit (filter (\<lambda>c. \<not> (pooled_usable s c \<or> streams_on s c \<noteq> 0)) (circuits p))"
  "stubs (snd (retire s s' p)) = filter (stub_usable s) (stubs p)"
  "circuits (snd (retire s s' p)) = map (\<lambda>c. if blames_the_path (verdict_of s' c) then c\<lparr>blamed := True\<rparr> else c)
     (filter (\<lambda>c. pooled_usable s c \<or> streams_on s c \<noteq> 0) (circuits p))"
  "predicted (snd (retire s s' p)) = filter (\<lambda>x. elapsed s' (last_wanted x) < PREDICTION_WINDOW) (predicted p)"
  "onion_in_use (snd (retire s s' p)) = onion_in_use p"
  "pending_blame (snd (retire s s' p)) = snd (snd (retire_circuits s (circuits p) (pending_blame p)))"
  by (simp_all add: retire_def split_def Let_def retire_circuits_kept retire_circuits_closing)

lemma verdict_of_blamed [simp]: "verdict_of s (c\<lparr>blamed := b\<rparr>) = verdict_of s c"
  by (simp add: verdict_of_def Let_def split: option.split)

lemma pooled_usable_blamed [simp]: "pooled_usable s (c\<lparr>blamed := b\<rparr>) = pooled_usable s c"
  by (simp add: pooled_usable_def)

lemma mset_filter_split: "mset (filter P xs) + mset (filter (\<lambda>x. \<not> P x) xs) = mset xs"
  by (induction xs) auto

lemma mset_map_split: "mset (map f xs) = mset (map f (filter P xs)) + mset (map f (filter (\<lambda>x. \<not> P x) xs))"
  by (induction xs) auto

lemma retire_conserves: "mset (fst (retire s s' p)) + mset (refs (snd (retire s s' p))) = mset (refs p)"
  using mset_map_split [of stub_circuit "stubs p" "stub_usable s"]
    mset_map_split [of circuit "circuits p" "\<lambda>c. pooled_usable s c \<or> streams_on s c \<noteq> 0"]
  by (simp add: retire_simps comp_def if_distrib cong: if_cong)

lemma retire_idempotent: "retire s s (snd (retire s s p)) = ([], snd (retire s s p))"
proof (rule prod_eqI)
  let ?p = "snd (retire s s p)"
  let ?mark = "\<lambda>c. if blames_the_path (verdict_of s c) then c\<lparr>blamed := True\<rparr> else c"
  have stays: "pooled_usable s c \<or> streams_on s c \<noteq> 0" if "c \<in> set (circuits ?p)" for c
    using that by (auto simp: retire_simps split: if_splits)
  have marked: "?mark c = c \<and> (blames_the_path (verdict_of s c) \<longrightarrow> blamed c)" if "c \<in> set (circuits ?p)" for c
    using that by (auto simp: retire_simps split: if_splits)
  have ids: "filter (\<lambda>c. pooled_usable s c \<or> streams_on s c \<noteq> 0) (circuits ?p) = circuits ?p" "map ?mark (circuits ?p) = circuits ?p"
    using stays marked by (auto intro!: filter_True map_idI)
  have st: "filter (stub_usable s) (stubs ?p) = stubs ?p" by (simp add: retire_simps)
  show "fst (retire s s ?p) = fst ([], ?p)"
    using stays by (simp add: retire_simps(1) retire_simps(2))
  have bl: "pending_blame (snd (retire s s ?p)) = pending_blame ?p"
    unfolding retire_simps(6) [of s s ?p] using marked by (intro retire_circuits_no_blame) blast
  show "snd (retire s s ?p) = snd ([], ?p)"
  proof (rule pool.equality)
    show "stubs (snd (retire s s ?p)) = stubs (snd ([], ?p))" unfolding retire_simps(2) [of s s ?p] using st by simp
    show "circuits (snd (retire s s ?p)) = circuits (snd ([], ?p))" unfolding retire_simps(3) [of s s ?p] using ids by simp
    show "predicted (snd (retire s s ?p)) = predicted (snd ([], ?p))" by (simp add: retire_simps)
    show "onion_in_use (snd (retire s s ?p)) = onion_in_use (snd ([], ?p))" by (simp add: retire_simps)
    show "pending_blame (snd (retire s s ?p)) = pending_blame (snd ([], ?p))" using bl by simp
  qed simp
qed

text \<open>
  C35: A sweep of the pool loses no circuit and closes none that is in use: every circuit it held is
  either still in it or closed, a finished circuit is closed only when it carries no stream and is no
  longer wanted, a circuit that is still wanted or still carries a stream stays, and a stub stays
  exactly while it is open and fresh. The evidence against guards stays within its cap, and a second
  sweep that sees the same circuits closes nothing and blames no circuit again.
\<close>

theorem retire_keeps_live_circuits:
  assumes "length (pending_blame p) \<le> MAX_PENDING_BLAME"
  shows "mset (fst (retire s s' p)) + mset (refs (snd (retire s s' p))) = mset (refs p)
     \<and> (\<forall>x \<in> set (fst (retire s s' p)).
          (\<exists>st \<in> set (stubs p). x = stub_circuit st \<and> \<not> stub_usable s st) \<or>
          (\<exists>c \<in> set (circuits p). x = circuit c \<and> streams_on s c = 0 \<and> verdict_of s c \<noteq> Keep))
     \<and> (\<forall>c \<in> set (circuits p). pooled_usable s c \<or> streams_on s c \<noteq> 0 \<longrightarrow> circuit c \<in> set (refs (snd (retire s s' p))))
     \<and> (\<forall>st \<in> set (stubs p). stub_usable s st \<longleftrightarrow> st \<in> set (stubs (snd (retire s s' p))))
     \<and> length (pending_blame (snd (retire s s' p))) \<le> MAX_PENDING_BLAME
     \<and> retire s s (snd (retire s s p)) = ([], snd (retire s s p))"
proof -
  have "circuit c \<in> set (refs (snd (retire s s' p)))"
    if "c \<in> set (circuits p)" "pooled_usable s c \<or> streams_on s c \<noteq> 0" for c
  proof -
    have "circuit c \<in> circuit ` set (filter (\<lambda>c. pooled_usable s c \<or> streams_on s c \<noteq> 0) (circuits p))" using that by auto
    then show ?thesis by (auto simp: retire_simps image_image if_distrib cong: if_cong)
  qed
  moreover have "\<forall>x \<in> set (fst (retire s s' p)).
      (\<exists>st \<in> set (stubs p). x = stub_circuit st \<and> \<not> stub_usable s st) \<or>
      (\<exists>c \<in> set (circuits p). x = circuit c \<and> streams_on s c = 0 \<and> verdict_of s c \<noteq> Keep)"
    by (auto simp: retire_simps pooled_usable_def)
  ultimately show ?thesis
    using retire_conserves [of s s' p] retire_idempotent [of s p] retire_circuits_blame [OF assms, of s "circuits p"]
    by (auto simp: retire_simps(2,6))
qed

section \<open>Choosing a circuit\<close>

lemma usable_for_iff:
  "(i, n) \<in> set (usable_for s port p) \<longleftrightarrow>
     i < length (circuits p) \<and> pooled_usable s (circuits p ! i) \<and> allows port (exit_policy (exit_md (circuits p ! i))) \<and>
     n = streams_on s (circuits p ! i)"
  by (force simp: usable_for_def in_set_enumerate_eq nth_enumerate_eq)

lemma length_usable_for:
  "length (usable_for s port p) =
     length (filter (\<lambda>c. pooled_usable s c \<and> allows port (exit_policy (exit_md c))) (circuits p))"
proof -
  have "length (filter (\<lambda>(i, c). P c) (enumerate k cs)) = length (filter P cs)" for P :: "pooled \<Rightarrow> bool" and k cs
    by (induction cs arbitrary: k) simp_all
  then show ?thesis by (simp add: usable_for_def)
qed

lemma pick_among_mem:
  assumes "pick_among xs ds = Some (r, ds')"
  shows "\<exists>x \<in> set xs. r = Inr x"
proof -
  obtain r' where b: "below (length xs) ds = Some (r', ds')" and r: "r = (case r' of Inr n \<Rightarrow> Inr (xs ! n) | Inl _ \<Rightarrow> Inr (xs ! 0))"
    using assms by (auto simp: pick_among_def)
  have "xs \<noteq> []" using b by (auto simp: below_def)
  then show ?thesis using below_less [of "length xs" ds _ ds'] b r by (cases r') auto
qed

lemma pick_among_returns: "xs \<noteq> [] \<Longrightarrow> pick_among xs (Inl e # ds) = Some (Inr (xs ! 0), ds)"
  by (simp add: pick_among_def below_def)

lemma circuit_for_cases:
  fixes s s' s'' port p
  defines "q \<equiv> snd (retire s s' p)"
  defines "us \<equiv> usable_for s'' port q"
  defines "fewest \<equiv> Min (set (map snd us))"
  assumes "circuit_for s s' s'' port p ds = Some (answer, closing, p')"
  shows "closing = fst (retire s s' p) \<and>
    (answer = None \<and> p' = q \<and> (us = [] \<or> us \<noteq> [] \<and> stream_limit (length us) \<le> fewest \<and> total q < MAX_CIRCUITS) \<or>
     (\<exists>i used. (i, fewest) \<in> set us \<and> \<not> (stream_limit (length us) \<le> fewest \<and> total q < MAX_CIRCUITS) \<and>
        answer = Some (circuit (circuits q ! i)) \<and> p' = q\<lparr>circuits := (circuits q)[i := (circuits q ! i)\<lparr>first_used := Some used\<rparr>]\<rparr>))"
proof -
  obtain cl where r: "retire s s' p = (cl, q)" by (metis q_def prod.collapse)
  have run: "(if us = [] then Some (None, cl, q)
     else if stream_limit (length us) \<le> fewest \<and> total q < MAX_CIRCUITS then Some (None, cl, q)
     else case pick_among (map fst (filter (\<lambda>(i, n). n = fewest) us)) ds of
       Some (Inr i, _) \<Rightarrow>
         Some (Some (circuit (circuits q ! i)), cl, q\<lparr>circuits := (circuits q)[i := (circuits q ! i)\<lparr>first_used :=
           (case first_used (circuits q ! i) of None \<Rightarrow> Some (clock s'') | Some t \<Rightarrow> Some t)\<rparr>]\<rparr>)
     | _ \<Rightarrow> None) = Some (answer, closing, p')"
    using assms(4) unfolding circuit_for_def r Let_def us_def fewest_def by simp
  show ?thesis
  proof (cases "us = [] \<or> stream_limit (length us) \<le> fewest \<and> total q < MAX_CIRCUITS")
    case True
    then show ?thesis using run r by (auto split: if_splits)
  next
    case False
    let ?cands = "map fst (filter (\<lambda>(i, n). n = fewest) us)"
    from False run obtain i ds' where pick: "pick_among ?cands ds = Some (Inr i, ds')"
      and rest: "answer = Some (circuit (circuits q ! i))" "closing = cl"
        "p' = q\<lparr>circuits := (circuits q)[i := (circuits q ! i)\<lparr>first_used :=
           (case first_used (circuits q ! i) of None \<Rightarrow> Some (clock s'') | Some t \<Rightarrow> Some t)\<rparr>]\<rparr>"
      by (cases "pick_among ?cands ds") (auto split: sum.splits)
    have "(i, fewest) \<in> set us" using pick_among_mem [OF pick] by auto
    moreover obtain used where "(case first_used (circuits q ! i) of None \<Rightarrow> Some (clock s'') | Some t \<Rightarrow> Some t) = Some used"
      by (cases "first_used (circuits q ! i)") auto
    ultimately show ?thesis using rest False r by auto
  qed
qed

definition serves :: "snapshot \<Rightarrow> nat \<Rightarrow> pooled \<Rightarrow> bool" where
  "serves s port c \<longleftrightarrow> pooled_usable s c \<and> allows port (exit_policy (exit_md c))"

lemma fewest_spec:
  fixes s port q
  defines "us \<equiv> usable_for s port q"
  defines "fewest \<equiv> Min (set (map snd us))"
  shows "c \<in> set (circuits q) \<Longrightarrow> serves s port c \<Longrightarrow> us \<noteq> [] \<and> fewest \<le> streams_on s c"
    and "(i, fewest) \<in> set us \<Longrightarrow>
      i < length (circuits q) \<and> serves s port (circuits q ! i) \<and> fewest = streams_on s (circuits q ! i)"
proof -
  assume "c \<in> set (circuits q)" "serves s port c"
  then obtain i where "i < length (circuits q)" "c = circuits q ! i" "serves s port c"
    by (auto simp: in_set_conv_nth)
  then have "(i, streams_on s c) \<in> set us"
    unfolding us_def usable_for_iff by (simp add: serves_def)
  then show "us \<noteq> [] \<and> fewest \<le> streams_on s c"
    unfolding fewest_def by (force intro!: Min_le)
next
  assume "(i, fewest) \<in> set us"
  then show "i < length (circuits q) \<and> serves s port (circuits q ! i) \<and> fewest = streams_on s (circuits q ! i)"
    unfolding us_def usable_for_iff by (simp add: serves_def)
qed

text \<open>
  The circuit chosen for a port is one of the pool that is still wanted and whose exit allows the
  port, carries the fewest streams of all of those, is not past the sharing limit while there is room
  for another, and is marked as used; nothing else in the pool changes beyond the sweep. No circuit is
  chosen exactly when none serves the port, or when all of them are at the limit and there is room to
  build one. The choice always comes to an end when the random source answers or fails.
\<close>

theorem circuit_for_least_loaded:
  fixes s s' s'' :: snapshot and port :: nat and p :: pool
  defines "q \<equiv> snd (retire s s' p)"
  defines "limit \<equiv> stream_limit (length (filter (serves s'' port) (circuits q)))"
  assumes "circuit_for s s' s'' port p ds = Some (answer, closing, p')"
  shows "closing = fst (retire s s' p)
     \<and> (answer = None \<longleftrightarrow> (\<forall>c \<in> set (circuits q). serves s'' port c \<longrightarrow> total q < MAX_CIRCUITS \<and> limit \<le> streams_on s'' c))
     \<and> (answer = None \<longrightarrow> p' = q)
     \<and> (\<forall>x. answer = Some x \<longrightarrow> (\<exists>i < length (circuits q). \<exists>used. circuit (circuits q ! i) = x \<and> serves s'' port (circuits q ! i)
          \<and> (\<forall>c \<in> set (circuits q). serves s'' port c \<longrightarrow> streams_on s'' (circuits q ! i) \<le> streams_on s'' c)
          \<and> (total q < MAX_CIRCUITS \<longrightarrow> streams_on s'' (circuits q ! i) < limit)
          \<and> p' = q\<lparr>circuits := (circuits q)[i := (circuits q ! i)\<lparr>first_used := Some used\<rparr>]\<rparr>))
     \<and> circuit_for s s' s'' port p (Inl e # ds') \<noteq> None"
proof -
  let ?us = "usable_for s'' port q"
  let ?fewest = "Min (set (map snd ?us))"
  note few = fewest_spec [where s = s'' and port = port and q = q]
  have len: "length ?us = length (filter (serves s'' port) (circuits q))"
    by (simp add: length_usable_for serves_def [abs_def])
  have lim: "stream_limit (length ?us) = limit" unfolding limit_def len ..
  have ne: "?us \<noteq> [] \<Longrightarrow> \<exists>i. (i, ?fewest) \<in> set ?us"
  proof -
    assume "?us \<noteq> []"
    then have "?fewest \<in> set (map snd ?us)" by (intro Min_in) simp_all
    then show ?thesis by auto
  qed
  have returns: "circuit_for s s' s'' port p (Inl e # ds') \<noteq> None"
  proof (cases "?us = []")
    case False
    then have "map fst (filter (\<lambda>(i, n). n = ?fewest) ?us) \<noteq> []" using ne by (auto simp: filter_empty_conv)
    then show ?thesis
      unfolding circuit_for_def q_def [symmetric] split_def Let_def
      by (simp add: pick_among_returns flip: q_def)
  qed (simp add: circuit_for_def split_def Let_def q_def)
  note cases = circuit_for_cases [OF assms(3), folded q_def, unfolded lim]
  have none: "(answer = None) = (\<forall>c \<in> set (circuits q). serves s'' port c \<longrightarrow> total q < MAX_CIRCUITS \<and> limit \<le> streams_on s'' c)"
    (is "_ = ?full")
  proof (cases "answer = None")
    case True
    then have "?us = [] \<or> limit \<le> ?fewest \<and> total q < MAX_CIRCUITS" using cases by auto
    then have "?full" by (meson few(1) le_trans)
    with True show ?thesis by simp
  next
    case False
    then obtain i where i: "(i, ?fewest) \<in> set ?us" "\<not> (limit \<le> ?fewest \<and> total q < MAX_CIRCUITS)" using cases by auto
    from few(2) [OF i(1)] have "\<not> ?full" using i(2) by auto
    with False show ?thesis by blast
  qed
  have chosen: "\<exists>i < length (circuits q). \<exists>used. circuit (circuits q ! i) = x \<and> serves s'' port (circuits q ! i)
      \<and> (\<forall>c \<in> set (circuits q). serves s'' port c \<longrightarrow> streams_on s'' (circuits q ! i) \<le> streams_on s'' c)
      \<and> (total q < MAX_CIRCUITS \<longrightarrow> streams_on s'' (circuits q ! i) < limit)
      \<and> p' = q\<lparr>circuits := (circuits q)[i := (circuits q ! i)\<lparr>first_used := Some used\<rparr>]\<rparr>" if x: "answer = Some x" for x
  proof -
    from cases x obtain i used where i: "(i, ?fewest) \<in> set ?us" "\<not> (limit \<le> ?fewest \<and> total q < MAX_CIRCUITS)"
      and c: "x = circuit (circuits q ! i)" "p' = q\<lparr>circuits := (circuits q)[i := (circuits q ! i)\<lparr>first_used := Some used\<rparr>]\<rparr>"
      by auto
    note at = few(2) [OF i(1)]
    show ?thesis
      using at i(2) c few(1) by (intro exI [of _ i] conjI exI [of _ used]) (auto simp: not_le)
  qed
  show ?thesis using cases none chosen returns by blast
qed

section \<open>The budget\<close>

lemma total_remove:
  "i < length (circuits p) \<Longrightarrow> total (p\<lparr>circuits := remove_at i (circuits p)\<rparr>) + 1 = total p"
  by (simp add: total_def)

lemma oldest_idle_spec:
  "oldest_idle s cs = Some i \<Longrightarrow> streams_on s (cs ! i) = 0 \<and> (\<forall>c \<in> set cs. streams_on s c = 0 \<longrightarrow> built (cs ! i) \<le> built c)"
  "oldest_idle s cs = None \<longleftrightarrow> (\<forall>c \<in> set cs. streams_on s c \<noteq> 0)"
proof -
  show "oldest_idle s cs = None \<longleftrightarrow> (\<forall>c \<in> set cs. streams_on s c \<noteq> 0)" for cs
    by (induction cs) (auto split: option.splits)
  then have none: "oldest_idle s cs = None \<Longrightarrow> c \<in> set cs \<Longrightarrow> streams_on s c \<noteq> 0" for cs c by blast
  show "oldest_idle s cs = Some i \<Longrightarrow> streams_on s (cs ! i) = 0 \<and> (\<forall>c \<in> set cs. streams_on s c = 0 \<longrightarrow> built (cs ! i) \<le> built c)"
    by (induction cs arbitrary: i) (fastforce dest: none split: option.splits if_splits)+
qed

lemma remove_at_mset: "i < length xs \<Longrightarrow> mset xs = add_mset (xs ! i) (mset (remove_at i xs))"
  by (metis id_take_nth_drop mset.simps(2) mset_append remove_at_def union_mset_add_mset_right)

lemma make_room_eqs:
  "total p < MAX_CIRCUITS \<Longrightarrow> make_room s p = ([], p)"
  "\<not> total p < MAX_CIRCUITS \<Longrightarrow> oldest_idle s (circuits p) = Some i \<Longrightarrow>
   make_room s p = (let r = make_room s (p\<lparr>circuits := remove_at i (circuits p)\<rparr>)
                    in (circuit (circuits p ! i) # fst r, snd r))"
  "\<not> total p < MAX_CIRCUITS \<Longrightarrow> oldest_idle s (circuits p) = None \<Longrightarrow> stubs p = [] \<Longrightarrow> make_room s p = ([], p)"
  "\<not> total p < MAX_CIRCUITS \<Longrightarrow> oldest_idle s (circuits p) = None \<Longrightarrow> stubs p = x # xs \<Longrightarrow>
   make_room s p = (let r = make_room s (p\<lparr>stubs := xs\<rparr>) in (stub_circuit x # fst r, snd r))"
  by (subst make_room.simps, simp add: split_def Let_def)+

lemma make_room_spec:
  "make_room s p = (closing, p') \<Longrightarrow>
   mset closing + mset (refs p') = mset (refs p) \<and>
   (\<forall>x \<in> set closing. (\<exists>st \<in> set (stubs p). x = stub_circuit st) \<or> (\<exists>c \<in> set (circuits p). x = circuit c \<and> streams_on s c = 0)) \<and>
   (total p' < MAX_CIRCUITS \<or> stubs p' = [] \<and> (\<forall>c \<in> set (circuits p'). streams_on s c \<noteq> 0)) \<and>
   set (circuits p') \<subseteq> set (circuits p) \<and> onion_in_use p' = onion_in_use p \<and> pending_blame p' = pending_blame p"
proof (induction s p arbitrary: closing p' rule: make_room.induct)
  case (1 s p)
  show ?case
  proof (cases "total p < MAX_CIRCUITS")
    case True
    then show ?thesis using 1(3) by (simp add: make_room_eqs(1))
  next
    case full: False
    show ?thesis
    proof (cases "oldest_idle s (circuits p)")
      case (Some i)
      let ?q = "p\<lparr>circuits := remove_at i (circuits p)\<rparr>"
      have i: "i < length (circuits p)" using oldest_idle_less [OF Some] .
      obtain cl where cl: "make_room s ?q = (cl, p')" "closing = circuit (circuits p ! i) # cl"
        using 1(3) make_room_eqs(2) [OF full Some] by (cases "make_room s ?q") (auto simp: Let_def)
      note ih = 1(2) [OF full Some cl(1)]
      have "mset (map circuit (circuits p)) = add_mset (circuit (circuits p ! i)) (mset (map circuit (remove_at i (circuits p))))"
        using arg_cong [OF remove_at_mset [OF i], of "image_mset circuit"] by simp
      moreover have "(\<exists>st \<in> set (stubs p). y = stub_circuit st) \<or> (\<exists>c \<in> set (circuits p). y = circuit c \<and> streams_on s c = 0)"
        if "y \<in> set closing" for y
      proof (cases "y \<in> set cl")
        case True
        then have "(\<exists>st \<in> set (stubs ?q). y = stub_circuit st) \<or> (\<exists>c \<in> set (circuits ?q). y = circuit c \<and> streams_on s c = 0)"
          using ih by blast
        then show ?thesis using subsetD [OF set_remove_at_subset [of i "circuits p"]] by auto
      next
        case False
        then show ?thesis using that cl(2) oldest_idle_spec(1) [OF Some] nth_mem [OF i] by auto
      qed
      ultimately show ?thesis
        using ih cl(2) set_remove_at_subset [of i "circuits p"] by auto
    next
      case None
      show ?thesis
      proof (cases "stubs p")
        case Nil
        then show ?thesis using 1(3) make_room_eqs(3) [OF full None Nil] None oldest_idle_spec(2) [of s "circuits p"] by auto
      next
        case (Cons x xs)
        obtain cl where cl: "make_room s (p\<lparr>stubs := xs\<rparr>) = (cl, p')" "closing = stub_circuit x # cl"
          using 1(3) make_room_eqs(4) [OF full None Cons] by (cases "make_room s (p\<lparr>stubs := xs\<rparr>)") (auto simp: Let_def)
        then show ?thesis using 1(1) [OF full None Cons cl(1)] Cons by auto
      qed
    qed
  qed
qed

lemma job_loop_spec:
  "\<exists>more. job_loop budget limit room clean_short stubs_short jobs = jobs @ more \<and>
     budget + length more \<le> max budget limit \<and> length jobs + length more \<le> max (length jobs) (room + 1) \<and>
     length more \<le> clean_short + stubs_short"
proof (induction budget limit room clean_short stubs_short jobs rule: job_loop.induct)
  case (1 budget limit room clean_short stubs_short jobs)
  let ?go = "budget < limit \<and> length jobs < room + 1 \<and> (0 < clean_short \<or> 0 < stubs_short)"
  show ?case
  proof (cases ?go)
    case False
    then show ?thesis by (subst job_loop.simps) auto
  next
    case go: True
    show ?thesis
    proof (cases "0 < stubs_short")
      case True
      then show ?thesis
        using 1(1) [OF go True] go by (subst job_loop.simps) (auto simp: max_def split: if_splits)
    next
      case False
      then show ?thesis
        using 1(2) [OF go False] go by (subst job_loop.simps) (auto simp: max_def split: if_splits)
    qed
  qed
qed

text \<open>
  C36: The pool stays within its budget of circuits. A finished circuit that is put in makes room first,
  closing idle circuits and then stubs and never a circuit that carries a stream, and leaves at most
  the budget unless everything else in the pool carries streams; no circuit is lost on the way. A stub
  is only taken in while there is room. And the builder, however many jobs it is asked for, asks for
  at most that many, and for no more circuits than fit into the budget.
\<close>

theorem pool_within_budget:
  assumes "insert_circuit s s' s'' x md guard used p = (closing, p')"
  shows "mset closing + mset (refs p') = add_mset x (mset (refs p))
     \<and> (total p' \<le> MAX_CIRCUITS \<or> stubs p' = [] \<and> (\<forall>c \<in> set (circuits p'). circuit c \<noteq> x \<longrightarrow> streams_on s'' c \<noteq> 0))
     \<and> (\<forall>y \<in> set closing. (\<exists>st \<in> set (stubs p). y = stub_circuit st) \<or>
          (\<exists>c \<in> set (circuits p). y = circuit c \<and> (streams_on s c = 0 \<or> streams_on s'' c = 0)))
     \<and> total (snd (add_stub st p)) \<le> max MAX_CIRCUITS (total p)
     \<and> (1 \<le> limit \<longrightarrow> length (next_jobs_in s ports limit p first) \<le> limit)
     \<and> (total p < MAX_CIRCUITS \<longrightarrow> total p + length (next_jobs_in s ports limit p first) \<le> MAX_CIRCUITS)"
proof -
  obtain cl q where r: "retire s s' p = (cl, q)" by (cases "retire s s' p")
  obtain cl' q' where m: "make_room s'' q = (cl', q')" by (cases "make_room s'' q")
  let ?new = "\<lparr>circuit = x, exit_md = md, on_guard = guard, blamed = False, built = clock s'',
     first_used = (if used then Some (clock s'') else None)\<rparr>"
  have c: "closing = cl @ cl'" and p': "p' = q'\<lparr>circuits := circuits q' @ [?new]\<rparr>"
    using assms by (simp_all add: insert_circuit_def r m)
  note room = make_room_spec [OF m]
  have conserve: "mset cl + mset (refs q) = mset (refs p)" using retire_conserves [of s s' p] by (simp add: r)
  have "mset closing + mset (refs p') = add_mset x (mset cl + (mset cl' + mset (refs q')))"
    by (simp add: c p')
  also have "\<dots> = add_mset x (mset (refs p))" using room conserve by simp
  finally have 1: "mset closing + mset (refs p') = add_mset x (mset (refs p))" .
  have 2: "total p' \<le> MAX_CIRCUITS \<or> stubs p' = [] \<and> (\<forall>c \<in> set (circuits p'). circuit c \<noteq> x \<longrightarrow> streams_on s'' c \<noteq> 0)"
    using room by (auto simp: p' total_def)
  have q: "stubs q = filter (stub_usable s) (stubs p)"
    "circuit ` set (circuits q) \<subseteq> circuit ` set (circuits p)"
    using retire_simps(2,3) [of s s' p] by (auto simp: r)
  have 3: "(\<exists>st \<in> set (stubs p). y = stub_circuit st) \<or>
      (\<exists>c \<in> set (circuits p). y = circuit c \<and> (streams_on s c = 0 \<or> streams_on s'' c = 0))" if "y \<in> set closing" for y
  proof (cases "y \<in> set cl")
    case True
    then show ?thesis using retire_simps(1) [of s s' p] by (auto simp: r)
  next
    case False
    then have "y \<in> set cl'" using that c by simp
    with room consider "\<exists>st \<in> set (stubs q). y = stub_circuit st"
      | "\<exists>c \<in> set (circuits q). y = circuit c \<and> streams_on s'' c = 0" by blast
    then show ?thesis
    proof cases
      case 1
      then show ?thesis using q(1) by auto
    next
      case 2
      then have "y \<in> circuit ` set (circuits p)" "open_streams (circuit_at s'' y) = 0" using q(2) by auto
      then show ?thesis by auto
    qed
  qed
  obtain extra where "next_jobs_in s ports limit p first = [first] @ extra" "1 + length extra \<le> max 1 limit"
    "1 + length extra \<le> max 1 (MAX_CIRCUITS - (total p + 1) + 1)"
    using job_loop_spec [of 1 limit "MAX_CIRCUITS - (total p + 1)" _ _ "[first]"] unfolding next_jobs_in_def Let_def by fastforce
  then have 4: "1 \<le> limit \<Longrightarrow> length (next_jobs_in s ports limit p first) \<le> limit"
    "total p < MAX_CIRCUITS \<Longrightarrow> total p + length (next_jobs_in s ports limit p first) \<le> MAX_CIRCUITS" by auto
  have 5: "total (snd (add_stub st p)) \<le> max MAX_CIRCUITS (total p)" by (auto simp: add_stub_def total_def)
  show ?thesis using 1 2 3 4 5 by blast
qed

section \<open>A small pool\<close>

text \<open>Circuit 1 carries two streams, circuit 2 is idle and has proved too slow, circuit 3 is a stub.\<close>

definition demo_snap :: snapshot where
  "demo_snap = \<lparr>clock = 1000, circuit_at = \<lambda>r.
     if ref_id r = 2 then \<lparr>is_closed = False, open_streams = 0, delivery = \<lparr>rx_bytes = 2 ^ 21, active_ms = 20000, last_data_ms = 0, wants_probe = False\<rparr>\<rparr>
     else \<lparr>is_closed = False, open_streams = (if ref_id r = 1 then 2 else 0), delivery = meter_new\<rparr>\<rparr>"

definition demo_pooled :: "nat \<Rightarrow> pooled" where
  "demo_pooled n = \<lparr>circuit = \<lparr>on_channel = 0, ref_id = n\<rparr>,
     exit_md = \<lparr>md_digest = [], md_ntor_key = [], md_ed_identity = None, exit_policy = \<lparr>is_accept = True, ranges = [(1, 65535)]\<rparr>, family = []\<rparr>,
     on_guard = [], blamed = False, built = 0, first_used = None\<rparr>"

definition demo_pool :: pool where
  "demo_pool = \<lparr>stubs = [\<lparr>stub_circuit = \<lparr>on_channel = 0, ref_id = 3\<rparr>, stub_constraints = no_constraints, stub_on_guard = [], stub_built = 0\<rparr>],
     circuits = [demo_pooled 1, demo_pooled 2], predicted = [], onion_in_use = 0, pending_blame = []\<rparr>"

lemmas demo_defs = demo_pool_def demo_pooled_def demo_snap_def verdict_of_def pooled_usable_def stub_usable_def elapsed_def judge_def kbps_def
  meter_new_def MEASURE_MIN_BYTES_def MEASURE_MIN_ACTIVE_MS_def FLOOR_KBPS_def MAX_IDLE_AGE_def MAX_DIRTY_AGE_def STUB_MAX_AGE_def

lemma demo_retire:
  "fst (retire demo_snap demo_snap demo_pool) = [\<lparr>on_channel = 0, ref_id = 2\<rparr>]"
  "circuits (snd (retire demo_snap demo_snap demo_pool)) = [demo_pooled 1]"
  "stubs (snd (retire demo_snap demo_snap demo_pool)) = stubs demo_pool"
  "onion_in_use (snd (retire demo_snap demo_snap demo_pool)) = 0"
  by (simp_all add: retire_simps demo_defs)

theorem retire_keeps_live_circuits_witness:
  "let (closing, p) = retire demo_snap demo_snap demo_pool
   in mset closing + mset (refs p) = mset (refs demo_pool) \<and> closing = [\<lparr>on_channel = 0, ref_id = 2\<rparr>] \<and>
      \<lparr>on_channel = 0, ref_id = 1\<rparr> \<in> set (refs p) \<and> retire demo_snap demo_snap p = ([], p)"
proof -
  have "length (pending_blame demo_pool) \<le> MAX_PENDING_BLAME" by (simp add: demo_pool_def)
  note kept = retire_keeps_live_circuits [OF this, of demo_snap demo_snap]
  obtain cl p where r: "retire demo_snap demo_snap demo_pool = (cl, p)" by (cases "retire demo_snap demo_snap demo_pool")
  have "mset cl + mset (refs p) = mset (refs demo_pool)" "retire demo_snap demo_snap p = ([], p)"
    using kept unfolding r fst_conv snd_conv by blast+
  moreover have "cl = [\<lparr>on_channel = 0, ref_id = 2\<rparr>]" "\<lparr>on_channel = 0, ref_id = 1\<rparr> \<in> set (refs p)"
    using demo_retire unfolding r by (simp_all add: demo_pooled_def)
  ultimately show ?thesis unfolding r Let_def split_conv by blast
qed

theorem pool_within_budget_witness:
  "\<exists>closing p'. insert_circuit demo_snap demo_snap demo_snap \<lparr>on_channel = 0, ref_id = 4\<rparr> (exit_md (demo_pooled 4)) [] True demo_pool =
      (closing, p') \<and> total p' \<le> MAX_CIRCUITS \<and>
      mset closing + mset (refs p') = add_mset \<lparr>on_channel = 0, ref_id = 4\<rparr> (mset (refs demo_pool)) \<and>
      length (next_jobs_in demo_snap [443] BUILD_PARALLEL demo_pool Clean) \<le> BUILD_PARALLEL"
proof -
  obtain closing p' where run: "insert_circuit demo_snap demo_snap demo_snap \<lparr>on_channel = 0, ref_id = 4\<rparr> (exit_md (demo_pooled 4)) [] True demo_pool =
      (closing, p')" by fastforce
  note budget = pool_within_budget [OF run, where limit = BUILD_PARALLEL and ports = "[443]" and first = Clean and st = "stubs demo_pool ! 0"]
  let ?q = "snd (retire demo_snap demo_snap demo_pool)"
  have "total ?q < MAX_CIRCUITS" by (simp add: total_def demo_retire MAX_CIRCUITS_def) (simp add: demo_pool_def)
  then have "total p' \<le> MAX_CIRCUITS"
    using run by (auto simp: insert_circuit_def split_def Let_def make_room_eqs total_def)
  then show ?thesis using run budget by (auto simp: BUILD_PARALLEL_def)
qed

section \<open>Where the pool does not do what its comments say\<close>

text \<open>Clearing drops an idle finished circuit without closing it: it is in neither list afterwards.\<close>

lemma clear_drops_unclosed:
  "c \<in> set (circuits p) \<Longrightarrow> streams_on s c = 0 \<Longrightarrow> distinct (refs p) \<Longrightarrow>
   circuit c \<notin> set (fst (clear s p)) \<and> circuit c \<notin> set (refs (snd (clear s p)))"
  by (auto simp: clear_def)

text \<open>A circuit that becomes too slow between the two passes of a sweep is marked as blamed but never counted.\<close>

lemma blame_lost_between_passes:
  assumes "circuits p = [c]" and "verdict_of s c = Keep" and "blames_the_path (verdict_of s' c)"
  shows "map blamed (circuits (snd (retire s s' p))) = [True]" and "pending_blame (snd (retire s s' p)) = pending_blame p"
  using assms by (simp_all add: retire_simps pooled_usable_def)

text \<open>One stub short of the target, with clean circuits in stock, the builder asks for two stubs.\<close>

lemma stub_target_exceeded:
  assumes "length (stubs p) = 2" and "clean_count s ports p = CLEAN_TARGET" and "total p < 14"
  shows "next_job_in s ports p = Some Stub" and "next_jobs_in s ports BUILD_PARALLEL p Stub = [Stub, Stub]"
  using assms
  by (auto simp: next_job_in_def next_jobs_in_def MAX_CIRCUITS_def CLEAN_TARGET_def STUB_TARGET_def BUILD_PARALLEL_def
      job_loop.simps Let_def)

text \<open>The builder's wait after a failure doubles between its bounds and starts over after a success.\<close>

lemma builder_wait_bounds:
  assumes "BUILD_RETRY_MIN \<le> backoff" and "backoff \<le> BUILD_RETRY_MAX" and "builder_wait results backoff = (wait, backoff')"
  shows "BUILD_RETRY_MIN \<le> backoff' \<and> backoff' \<le> BUILD_RETRY_MAX \<and> wait \<le> BUILD_RETRY_MAX"
  using assms by (auto simp: builder_wait_def BUILD_RETRY_MIN_def BUILD_RETRY_MAX_def BUILDER_TICK_def split: if_splits)

end
