(* ===== verification/Onion_Client.thy ===== *)
theory Onion_Client
  imports Rendezvous Hsdir_Ring Signed_Documents Circuit_Pool Stream_State
begin

text \<open>
  The onion side of \<^verbatim>\<open>client.rs\<close>: the table of directory nodes, the descriptors in hand, the rendezvous
  circuits in use, and the retries around them.

  What the locks protect is \<open>onion_side\<close>. Each operation runs in an \<open>onion_env\<close>: the consensus it takes,
  the clocks, which circuits are down, what the directory servers and the network answer, and what other
  threads do to the state while it waits for a lock, one change per wait. Rendezvous circuits are the
  numbers \<open>Rendezvous\<close> gives them, and its log of actions goes on here.
\<close>

definition MAX_CIRCUIT_AGE :: nat where "MAX_CIRCUIT_AGE = 600 * 1000"
definition CONNECT_ATTEMPTS :: nat where "CONNECT_ATTEMPTS = 3"
definition HSDIR_TRIES :: nat where "HSDIR_TRIES = 3"
definition HSDIR_PARALLEL :: nat where "HSDIR_PARALLEL = 2"

record hsdir_table =
  ht_period :: time_period
  ht_valid_after :: nat
  ht_nodes :: "ring_node list"
  ht_replicas :: nat
  ht_spread :: nat

record cached_descriptor =
  cd_descriptor :: descriptor
  cd_period :: nat
  cd_expires_at :: nat

record onion_side =
  os_table :: "hsdir_table option"
  os_wanted :: bool
  os_descriptors :: "(bytes \<times> cached_descriptor) list"
  os_circuits :: "(bytes \<times> nat \<times> nat) list"
  os_in_use :: nat
  os_disk :: disk
  os_log :: "action list"

record 'k onion_prims =
  op_sha3 :: "bytes \<Rightarrow> bytes"
  op_dir :: "'k dir_crypto"
  op_desc :: desc_prims
  op_hs :: handshake_prims

record onion_env =
  oe_consensus :: consensus
  oe_opened :: "nat \<Rightarrow> server io_result"
  oe_others :: "nat \<Rightarrow> onion_side \<Rightarrow> onion_side"
  oe_now :: nat
  oe_later :: nat
  oe_unix :: nat
  oe_down :: "nat \<Rightarrow> bool"
  oe_draws :: draws
  oe_answer :: "string \<Rightarrow> bytes \<Rightarrow> bytes io_result"
  oe_arrived :: "bytes list \<Rightarrow> bytes list"
  oe_net :: rend_net

section \<open>The table of directory nodes\<close>

definition responsible_for :: "(bytes \<Rightarrow> bytes) \<Rightarrow> hsdir_table \<Rightarrow> bytes \<Rightarrow> bytes list" where
  "responsible_for sha3 t blinded = responsible sha3 (ht_nodes t) blinded (ht_period t) (ht_replicas t) (ht_spread t)"

definition extend_ids :: "(bytes \<times> bytes) list \<Rightarrow> (bytes \<times> bytes) list \<Rightarrow> (bytes \<times> bytes) list" where
  "extend_ids extra ids = fold (\<lambda>(k, v). AList.update k v) extra ids"

text \<open>The identities of the directory nodes: a second circuit is asked for what the first left out.\<close>

definition fetch_ed_ids ::
    "'k dir_crypto \<Rightarrow> (nat \<Rightarrow> server io_result) \<Rightarrow> bytes list \<Rightarrow> disk \<Rightarrow> (bytes \<times> bytes) list io_result \<times> disk" where
  "fetch_ed_ids D opened digests d =
     (case opened 0 of
        Inl e \<Rightarrow> (Inl e, d)
      | Inr serve \<Rightarrow>
          (case microdesc_ed_ids D serve digests d of
             (ids, d) \<Rightarrow>
               let missing = filter (\<lambda>k. map_of ids k = None) digests
               in if missing \<noteq> [] \<and> length missing < length digests
                  then (case opened 1 of
                          Inl e \<Rightarrow> (Inl e, d)
                        | Inr serve \<Rightarrow>
                            (case microdesc_ed_ids D serve missing d of (extra, d) \<Rightarrow> (Inr (extend_ids extra ids), d)))
                  else (Inr ids, d)))"

definition hsdirs :: "consensus \<Rightarrow> router_status list" where
  "hsdirs c = filter (has FLAG_HSDIR) (routers c)"

definition placed :: "consensus \<Rightarrow> (bytes \<times> bytes) list \<Rightarrow> (bytes \<times> bytes) list" where
  "placed c ids = List.map_filter (\<lambda>r. map_option (\<lambda>ed. (identity r, ed)) (map_of ids (microdesc_digest r))) (hsdirs c)"

definition table_of :: "(bytes \<Rightarrow> bytes) \<Rightarrow> consensus \<Rightarrow> (bytes \<times> bytes) list \<Rightarrow> hsdir_table io_result" where
  "table_of sha3 c ids =
     (let tp = period_containing (valid_after c) (hsdir_interval (net_params_of c));
          nodes = build_ring sha3 (placed c ids) (shared_random_value sha3 c tp) tp
      in if length nodes * 3 < length (hsdirs c) * 2
         then Inl (invalid_data (''only '' @ nat_digits (length nodes) @ '' of '' @ nat_digits (length (hsdirs c)) @
                '' HSDirs could be placed on the ring''))
         else Inr \<lparr>ht_period = tp, ht_valid_after = valid_after c, ht_nodes = nodes,
                   ht_replicas = hsdir_n_replicas (net_params_of c), ht_spread = hsdir_spread_fetch (net_params_of c)\<rparr>)"

definition build_table ::
    "'k onion_prims \<Rightarrow> onion_env \<Rightarrow> disk \<Rightarrow> hsdir_table io_result \<times> disk" where
  "build_table P E d =
     (case fetch_ed_ids (op_dir P) (oe_opened E) (map microdesc_digest (hsdirs (oe_consensus E))) d of
        (Inl e, d) \<Rightarrow> (Inl e, d)
      | (Inr ids, d) \<Rightarrow> (table_of (op_sha3 P) (oe_consensus E) ids, d))"

definition cached_table :: "nat \<Rightarrow> onion_side \<Rightarrow> hsdir_table option" where
  "cached_table va s = (case os_table s of None \<Rightarrow> None | Some t \<Rightarrow> if ht_valid_after t = va then Some t else None)"

definition hsdir_ring :: "'k onion_prims \<Rightarrow> onion_env \<Rightarrow> onion_side \<Rightarrow> hsdir_table io_result \<times> onion_side" where
  "hsdir_ring P E s =
     (let s = s\<lparr>os_wanted := True\<rparr>; va = valid_after (oe_consensus E) in
      case cached_table va s of
        Some t \<Rightarrow> (Inr t, s)
      | None \<Rightarrow>
          let s = oe_others E 0 s in
          case cached_table va s of
            Some t \<Rightarrow> (Inr t, s)
          | None \<Rightarrow>
              (case build_table P E (os_disk s) of
                 (Inl e, d) \<Rightarrow> (Inl e, s\<lparr>os_disk := d\<rparr>)
               | (Inr t, d) \<Rightarrow> (Inr t, s\<lparr>os_disk := d, os_table := Some t\<rparr>)))"

definition prefetch_hsdir_ring :: "'k onion_prims \<Rightarrow> onion_env \<Rightarrow> onion_side \<Rightarrow> onion_side" where
  "prefetch_hsdir_ring P E s = (if \<not> os_wanted s then s else snd (hsdir_ring P E s))"

section \<open>Fetching a descriptor\<close>

definition descriptor_path :: "bytes \<Rightarrow> string" where
  "descriptor_path blinded = ''/tor/hs/3/'' @ base64_encode_unpadded blinded"

definition fetch_descriptor_from ::
    "'k onion_prims \<Rightarrow> onion_env \<Rightarrow> string \<Rightarrow> bytes \<Rightarrow> bytes \<Rightarrow> bytes \<Rightarrow> descriptor io_result" where
  "fetch_descriptor_from P E path blinded subcredential ident =
     and_then (oe_answer E path ident) (\<lambda>raw.
       if length raw > MAX_DESCRIPTOR_BYTES then Inl (invalid_data ''onion service descriptor is implausibly large'')
       else and_then (string_from_utf8 ''onion service descriptor is not UTF-8'' raw) (\<lambda>text.
         descriptor_parse (op_desc P) text blinded subcredential (oe_unix E)))"

text \<open>The answers in the order they arrive, up to the first descriptor.\<close>

fun until_success :: "('i \<times> 'a io_result) list \<Rightarrow> ('i \<times> 'a io_result) list" where
  "until_success [] = []"
| "until_success ((i, Inr a) # rs) = [(i, Inr a)]"
| "until_success ((i, Inl e) # rs) = (i, Inl e) # until_success rs"

definition ask_hsdirs ::
    "(bytes \<Rightarrow> descriptor io_result) \<Rightarrow> (bytes list \<Rightarrow> bytes list) \<Rightarrow> bytes list \<Rightarrow> (bytes \<times> descriptor io_result) list" where
  "ask_hsdirs fetch arrived nodes =
     (if length nodes = 1 then [(nodes ! 0, fetch (nodes ! 0))]
      else until_success (map (\<lambda>i. (i, fetch i)) (arrived nodes)))"

fun take_answers ::
    "(bytes \<times> descriptor io_result) list \<Rightarrow> bool \<Rightarrow> io_error option \<Rightarrow> descriptor io_result + (bool \<times> io_error option)" where
  "take_answers [] absent prev = Inr (absent, prev)"
| "take_answers ((i, Inr d) # rs) absent prev = Inl (Inr d)"
| "take_answers ((i, Inl e) # rs) absent prev =
     (if error_kind e = PermissionDenied then Inl (Inl e)
      else take_answers rs (absent \<and> error_kind e = NotFound) (Some e))"

definition no_descriptor :: "bool \<Rightarrow> io_error option \<Rightarrow> io_error" where
  "no_descriptor absent prev =
     (case prev of
        None \<Rightarrow> invalid_data ''no directory node is responsible for this onion service''
      | Some e \<Rightarrow>
          if error_kind e = NotFound \<or> absent
          then IoError NotFound ''no directory node holds a descriptor for this onion service'' else e)"

fun fetch_groups ::
    "(bytes list \<Rightarrow> (bytes \<times> descriptor io_result) list) \<Rightarrow> bytes list list \<Rightarrow> nat \<Rightarrow> bool \<Rightarrow> io_error option \<Rightarrow> descriptor io_result" where
  "fetch_groups ask [] asked absent prev = Inl (no_descriptor absent prev)"
| "fetch_groups ask (g # gs) asked absent prev =
     (if asked \<ge> HSDIR_TRIES \<and> \<not> absent then Inl (no_descriptor absent prev)
      else case take_answers (ask g) absent prev of
        Inl r \<Rightarrow> r
      | Inr (absent, prev) \<Rightarrow> fetch_groups ask gs (asked + length g) absent prev)"

definition fetch_descriptor ::
    "'k onion_prims \<Rightarrow> onion_env \<Rightarrow> hsdir_table \<Rightarrow> bytes \<Rightarrow> bytes \<Rightarrow> descriptor io_result option" where
  "fetch_descriptor P E t blinded subcredential =
     (case shuffle (responsible_for (op_sha3 P) t blinded) (oe_draws E) of
        None \<Rightarrow> None
      | Some (Inl e, _) \<Rightarrow> Some (Inl e)
      | Some (Inr order, _) \<Rightarrow>
          Some (fetch_groups
            (ask_hsdirs (fetch_descriptor_from P E (descriptor_path blinded) blinded subcredential) (oe_arrived E))
            (chunks_of HSDIR_PARALLEL order) 0 True None))"

section \<open>Descriptors in hand\<close>

definition retain_descriptors :: "nat \<Rightarrow> onion_side \<Rightarrow> onion_side" where
  "retain_descriptors t s = s\<lparr>os_descriptors := filter (\<lambda>(_, cd). cd_expires_at cd > t) (os_descriptors s)\<rparr>"

definition store_descriptor :: "bytes \<Rightarrow> cached_descriptor \<Rightarrow> onion_side \<Rightarrow> onion_side" where
  "store_descriptor k cd s = s\<lparr>os_descriptors := AList.update k cd (os_descriptors s)\<rparr>"

definition forget_descriptor :: "onion_address \<Rightarrow> onion_side \<Rightarrow> onion_side" where
  "forget_descriptor a s = s\<lparr>os_descriptors := AList.delete (onion_key a) (os_descriptors s)\<rparr>"

definition lifetime_ms :: "descriptor \<Rightarrow> nat" where
  "lifetime_ms d = min (lifetime_minutes d) 720 * 60 * 1000"

definition in_hand :: "hsdir_table \<Rightarrow> bytes \<Rightarrow> onion_side \<Rightarrow> descriptor option" where
  "in_hand t k s =
     (case map_of (os_descriptors s) k of
        None \<Rightarrow> None
      | Some cd \<Rightarrow> if cd_period cd = period_number (ht_period t) then Some (cd_descriptor cd) else None)"

definition onion_descriptor ::
    "'k onion_prims \<Rightarrow> onion_env \<Rightarrow> onion_address \<Rightarrow> onion_side \<Rightarrow> (descriptor io_result \<times> onion_side) option" where
  "onion_descriptor P E a s =
     (case hsdir_ring P E s of
        (Inl e, s) \<Rightarrow> Some (Inl e, s)
      | (Inr t, s) \<Rightarrow>
          (case blinded_key (op_sha3 P) (onion_key a) (ht_period t) of
             Inl e \<Rightarrow> Some (Inl e, s)
           | Inr blinded \<Rightarrow>
               let s = retain_descriptors (oe_now E) (oe_others E 1 s) in
               (case in_hand t (onion_key a) s of
                  Some d \<Rightarrow> Some (Inr d, s)
                | None \<Rightarrow>
                    (case fetch_descriptor P E t blinded (onion_subcredential (op_sha3 P) a blinded) of
                       None \<Rightarrow> None
                     | Some (Inl e) \<Rightarrow> Some (Inl e, s)
                     | Some (Inr d) \<Rightarrow>
                         Some (Inr d, store_descriptor (onion_key a)
                           \<lparr>cd_descriptor = d, cd_period = period_number (ht_period t), cd_expires_at = oe_later E + lifetime_ms d\<rparr>
                           (oe_others E 2 s))))))"

section \<open>Rendezvous circuits in use\<close>

definition retain_circuits :: "onion_env \<Rightarrow> onion_side \<Rightarrow> onion_side" where
  "retain_circuits E s =
     s\<lparr>os_circuits := filter (\<lambda>(_, c, built). \<not> oe_down E c \<and> saturating_sub (oe_now E) built < MAX_CIRCUIT_AGE) (os_circuits s)\<rparr>"

definition note_in_use :: "onion_side \<Rightarrow> onion_side" where
  "note_in_use s = s\<lparr>os_in_use := length (os_circuits s)\<rparr>"

definition look_up_circuit :: "onion_env \<Rightarrow> bytes \<Rightarrow> onion_side \<Rightarrow> nat option \<times> onion_side" where
  "look_up_circuit E k s =
     (let s = note_in_use (retain_circuits E s) in (map_option fst (map_of (os_circuits s) k), s))"

definition log_close :: "nat \<Rightarrow> onion_side \<Rightarrow> onion_side" where
  "log_close c s = s\<lparr>os_log := os_log s @ [Closed c]\<rparr>"

fun oldest_circuit :: "(bytes \<times> nat \<times> nat) list \<Rightarrow> bytes \<times> nat \<times> nat \<Rightarrow> bytes \<times> nat \<times> nat" where
  "oldest_circuit [] best = best"
| "oldest_circuit (x # xs) best = oldest_circuit xs (if snd (snd x) < snd (snd best) then x else best)"

definition drop_circuit :: "bytes \<Rightarrow> onion_side \<Rightarrow> onion_side" where
  "drop_circuit k s =
     (case map_of (os_circuits s) k of
        None \<Rightarrow> s
      | Some (c, _) \<Rightarrow> log_close c (s\<lparr>os_circuits := AList.delete k (os_circuits s)\<rparr>))"

lemma oldest_circuit_in: "oldest_circuit xs best \<in> insert best (set xs)"
  by (induction xs best rule: oldest_circuit.induct) auto

lemma drop_circuit_length:
  assumes "k \<in> fst ` set (os_circuits s)"
  shows "length (os_circuits (drop_circuit k s)) < length (os_circuits s)"
proof -
  obtain c b where "map_of (os_circuits s) k = Some (c, b)" using assms by (metis domIff dom_map_of_conv_image_fst not_Some_eq surj_pair)
  moreover have "length (AList.delete k (os_circuits s)) < length (os_circuits s)"
    using assms length_filter_less [of _ "os_circuits s" "\<lambda>(k', _). k \<noteq> k'"] by (fastforce simp: AList.delete_eq)
  ultimately show ?thesis by (simp add: drop_circuit_def log_close_def)
qed

function make_space :: "onion_side \<Rightarrow> onion_side" where
  "make_space s =
     (if length (os_circuits s) < MAX_CIRCUITS then s
      else case os_circuits s of
        [] \<Rightarrow> s
      | x # xs \<Rightarrow> make_space (drop_circuit (fst (oldest_circuit xs x)) s))"
  by pat_completeness auto
termination
proof (relation "measure (\<lambda>s. length (os_circuits s))")
  fix s :: onion_side and x xs assume "os_circuits s = x # xs"
  then show "(drop_circuit (fst (oldest_circuit xs x)) s, s) \<in> measure (\<lambda>s. length (os_circuits s))"
    using drop_circuit_length [of "fst (oldest_circuit xs x)" s] oldest_circuit_in [of xs x] by auto
qed simp

declare make_space.simps [simp del]

text \<open>A circuit that another thread built for the same service meanwhile gives way and is closed.\<close>

definition keep_circuit :: "onion_env \<Rightarrow> bytes \<Rightarrow> nat \<Rightarrow> onion_side \<Rightarrow> onion_side" where
  "keep_circuit E k c s =
     (let s = make_space (retain_circuits E s);
          displaced = map_of (os_circuits s) k;
          s = s\<lparr>os_circuits := AList.update k (c, oe_later E) (os_circuits s)\<rparr>;
          s = (case displaced of None \<Rightarrow> s | Some (old, _) \<Rightarrow> log_close old s)
      in note_in_use s)"

definition discard_onion_circuit :: "onion_address \<Rightarrow> onion_side \<Rightarrow> onion_side" where
  "discard_onion_circuit a s = note_in_use (drop_circuit (onion_key a) s)"

section \<open>Reaching a service\<close>

definition onion_keys :: "'k onion_prims \<Rightarrow> onion_env \<Rightarrow> onion_address \<Rightarrow> onion_side \<Rightarrow> (bytes \<times> bytes) io_result \<times> onion_side" where
  "onion_keys P E a s =
     (case hsdir_ring P E s of
        (Inl e, s) \<Rightarrow> (Inl e, s)
      | (Inr t, s) \<Rightarrow>
          (and_then (blinded_key (op_sha3 P) (onion_key a) (ht_period t)) (\<lambda>b. Inr (b, onion_subcredential (op_sha3 P) a b)), s))"

definition meet_service ::
    "'k onion_prims \<Rightarrow> onion_env \<Rightarrow> descriptor \<Rightarrow> bytes \<Rightarrow> onion_side \<Rightarrow> ((failure + nat) \<times> onion_side) option" where
  "meet_service P E d subcredential s =
     (case establish (oe_net E) (op_hs P) (cc_onion (net_params_of (oe_consensus E))) d subcredential (oe_draws E) (os_log s) of
        None \<Rightarrow> None
      | Some (r, tr) \<Rightarrow> Some (r, s\<lparr>os_log := tr\<rparr>))"

text \<open>The steps of \<^verbatim>\<open>onion_circuit\<close> run in the environments 0 to 5: looking up, the keys, and two rounds of descriptor and meeting.\<close>

definition build_onion_circuit ::
    "'k onion_prims \<Rightarrow> (nat \<Rightarrow> onion_env) \<Rightarrow> onion_address \<Rightarrow> bytes \<Rightarrow> (onion_side, nat) io_op" where
  "build_onion_circuit P E a subcredential =
     op_then (onion_descriptor P (E 2) a) (\<lambda>d s.
       case meet_service P (E 3) d subcredential s of
         None \<Rightarrow> None
       | Some (Inr c, s) \<Rightarrow> Some (Inr c, s)
       | Some (Inl f, s) \<Rightarrow>
           if descriptor_is_stale f
           then op_then (onion_descriptor P (E 4) a) (\<lambda>d s.
             case meet_service P (E 5) d subcredential s of
               None \<Rightarrow> None
             | Some (Inr c, s) \<Rightarrow> Some (Inr c, s)
             | Some (Inl f, s) \<Rightarrow> Some (Inl (fail_error f), s)) (forget_descriptor a s)
           else Some (Inl (fail_error f), s))"

definition onion_circuit ::
    "'k onion_prims \<Rightarrow> (nat \<Rightarrow> onion_env) \<Rightarrow> onion_address \<Rightarrow> (onion_side, nat) io_op" where
  "onion_circuit P E a s =
     (case look_up_circuit (E 0) (onion_key a) (oe_others (E 0) 3 s) of
        (Some c, s) \<Rightarrow> Some (Inr c, s)
      | (None, s) \<Rightarrow>
          (case onion_keys P (E 1) a s of
             (Inl e, s) \<Rightarrow> Some (Inl e, s)
           | (Inr (_, subcredential), s) \<Rightarrow>
               op_then (build_onion_circuit P E a subcredential)
                 (\<lambda>c s. Some (Inr c, keep_circuit (E 6) (onion_key a) c (oe_others (E 6) 3 s))) s))"

text \<open>The attempts of \<^verbatim>\<open>connect_onion\<close>; \<open>ask_stream k c\<close> is what \<^verbatim>\<open>begin_stream_onion\<close> answers.\<close>

fun onion_attempts ::
    "'k onion_prims \<Rightarrow> (nat \<Rightarrow> nat \<Rightarrow> onion_env) \<Rightarrow> (nat \<Rightarrow> nat \<Rightarrow> 'st io_result) \<Rightarrow> onion_address \<Rightarrow> nat list \<Rightarrow> io_error option \<Rightarrow> (onion_side, 'st) io_op" where
  "onion_attempts P E ask_stream a [] prev s =
     Some (Inl (case prev of Some e \<Rightarrow> e | None \<Rightarrow> IoError Other ''could not reach the onion service''), s)"
| "onion_attempts P E ask_stream a (k # ks) prev s =
     (case onion_circuit P (E k) a s of
        None \<Rightarrow> None
      | Some (Inl e, s) \<Rightarrow>
          if error_kind e = NotFound \<or> error_kind e = PermissionDenied then Some (Inl e, s)
          else onion_attempts P E ask_stream a ks (Some e) s
      | Some (Inr c, s) \<Rightarrow>
          (case ask_stream k c of
             Inr st \<Rightarrow> Some (Inr st, s)
           | Inl e \<Rightarrow>
               if is_stream_end e then Some (Inl e, s)
               else onion_attempts P E ask_stream a ks (Some e) (discard_onion_circuit a (oe_others (E k 7) 3 s))))"

definition connect_onion ::
    "'k onion_prims \<Rightarrow> (nat \<Rightarrow> nat \<Rightarrow> onion_env) \<Rightarrow> (nat \<Rightarrow> nat \<Rightarrow> 'st io_result) \<Rightarrow> onion_address \<Rightarrow> (onion_side, 'st) io_op" where
  "connect_onion P E ask_stream a = onion_attempts P E ask_stream a [0..<CONNECT_ATTEMPTS] None"

text \<open>What a stream does when its circuit fails under it before anything has come back.\<close>

definition reattach_onion ::
    "'k onion_prims \<Rightarrow> (nat \<Rightarrow> onion_env) \<Rightarrow> (nat \<Rightarrow> 'st io_result) \<Rightarrow> onion_address \<Rightarrow> (onion_side, 'st) io_op" where
  "reattach_onion P E ask_stream a s =
     op_then (onion_circuit P E a) (\<lambda>c s. Some (ask_stream c, s)) (discard_onion_circuit a s)"

section \<open>The circuits a service may use\<close>

definition circuits_of :: "onion_side \<Rightarrow> nat multiset" where
  "circuits_of s = image_mset (\<lambda>(_, c, _). c) (mset (os_circuits s))"

definition keys_distinct :: "onion_side \<Rightarrow> bool" where
  "keys_distinct s \<longleftrightarrow> distinct (map fst (os_circuits s))"

lemma log_close_simps [simp]:
  "os_circuits (log_close c s) = os_circuits s" "os_log (log_close c s) = os_log s @ [Closed c]"
  by (simp_all add: log_close_def)

lemma note_in_use_simps [simp]:
  "os_circuits (note_in_use s) = os_circuits s" "os_log (note_in_use s) = os_log s" "os_in_use (note_in_use s) = length (os_circuits s)"
  by (simp_all add: note_in_use_def)

lemma delete_mset:
  "distinct (map fst al) \<Longrightarrow> map_of al k = Some v \<Longrightarrow> add_mset (k, v) (mset (AList.delete k al)) = mset al"
proof (induction al)
  case (Cons x al)
  show ?case
  proof (cases "fst x = k")
    case True
    then have "AList.delete k al = al" using Cons.prems(1) by (auto simp: delete_id)
    then show ?thesis using True Cons.prems by (cases x) simp
  next
    case False
    then show ?thesis using Cons by (cases x) auto
  qed
qed simp

lemma drop_circuit_sound:
  assumes "keys_distinct s"
  shows "circuits_of (drop_circuit k s) + closed (os_log (drop_circuit k s)) = circuits_of s + closed (os_log s)"
    and "keys_distinct (drop_circuit k s)" and "set (os_circuits (drop_circuit k s)) \<subseteq> set (os_circuits s)"
    and "map_of (os_circuits (drop_circuit k s)) k = None"
proof -
  show "circuits_of (drop_circuit k s) + closed (os_log (drop_circuit k s)) = circuits_of s + closed (os_log s)"
  proof (cases "map_of (os_circuits s) k")
    case (Some v)
    have "circuits_of s = image_mset (\<lambda>(_, c, _). c) (add_mset (k, v) (mset (AList.delete k (os_circuits s))))"
      unfolding circuits_of_def using delete_mset [OF _ Some] assms by (simp add: keys_distinct_def)
    then show ?thesis using Some by (cases v) (simp add: drop_circuit_def circuits_of_def)
  qed (simp add: drop_circuit_def)
  show "set (os_circuits (drop_circuit k s)) \<subseteq> set (os_circuits s)"
    by (auto simp: drop_circuit_def AList.delete_eq split: option.split)
  show "keys_distinct (drop_circuit k s)" "map_of (os_circuits (drop_circuit k s)) k = None"
    using assms by (auto simp: drop_circuit_def keys_distinct_def distinct_delete delete_conv' split: option.split)
qed

lemma make_space_sound:
  assumes "keys_distinct s"
  shows "circuits_of (make_space s) + closed (os_log (make_space s)) = circuits_of s + closed (os_log s) \<and>
     keys_distinct (make_space s) \<and> set (os_circuits (make_space s)) \<subseteq> set (os_circuits s) \<and>
     length (os_circuits (make_space s)) < MAX_CIRCUITS"
  using assms
proof (induction s rule: make_space.induct)
  case (1 s)
  show ?case
  proof (cases "length (os_circuits s) < MAX_CIRCUITS \<or> os_circuits s = []")
    case True
    then have "make_space s = s" "length (os_circuits s) < MAX_CIRCUITS"
      by (subst make_space.simps, auto simp: MAX_CIRCUITS_def)+
    then show ?thesis using "1.prems" by simp
  next
    case False
    then obtain x xs where x: "os_circuits s = x # xs" by (cases "os_circuits s") auto
    let ?d = "drop_circuit (fst (oldest_circuit xs x)) s"
    have step: "make_space s = make_space ?d" using False x by (subst make_space.simps) simp
    have long: "\<not> length (os_circuits s) < MAX_CIRCUITS" using False by simp
    note d = drop_circuit_sound [OF "1.prems", of "fst (oldest_circuit xs x)"]
    note IH = "1.IH" [OF long x d(2)]
    show ?thesis unfolding step using IH d(1,3) by (auto simp only: subset_iff)
  qed
qed

lemma retain_circuits_sound:
  "keys_distinct s \<Longrightarrow> keys_distinct (retain_circuits E s)"
  "set (os_circuits (retain_circuits E s)) \<subseteq> set (os_circuits s)" "os_log (retain_circuits E s) = os_log s"
  by (auto simp: retain_circuits_def keys_distinct_def distinct_map_filter)

lemma update_mset:
  "distinct (map fst al) \<Longrightarrow>
     mset (AList.update k v al) + (case map_of al k of None \<Rightarrow> {#} | Some w \<Rightarrow> {#(k, w)#}) = add_mset (k, v) (mset al)"
  by (induction al) (auto split: option.splits)

lemma length_update: "length (AList.update k v al) \<le> Suc (length al)"
  by (induction al) auto

lemma keep_circuit_sound:
  assumes "keys_distinct s"
  shows "circuits_of (keep_circuit E k c s) + closed (os_log (keep_circuit E k c s)) =
       add_mset c (circuits_of (retain_circuits E s)) + closed (os_log s) \<and>
     map_of (os_circuits (keep_circuit E k c s)) k = Some (c, oe_later E) \<and> keys_distinct (keep_circuit E k c s) \<and>
     length (os_circuits (keep_circuit E k c s)) \<le> MAX_CIRCUITS \<and>
     os_in_use (keep_circuit E k c s) = length (os_circuits (keep_circuit E k c s))"
proof -
  define m where "m = make_space (retain_circuits E s)"
  define kept where "kept = AList.update k (c, oe_later E) (os_circuits m)"
  have m: "circuits_of m + closed (os_log m) = circuits_of (retain_circuits E s) + closed (os_log s)"
    "distinct (map fst (os_circuits m))" "length (os_circuits m) < MAX_CIRCUITS"
    using make_space_sound [OF retain_circuits_sound(1) [OF assms], of E] unfolding m_def
    by (simp_all add: keys_distinct_def retain_circuits_sound(3))
  have circs: "os_circuits (keep_circuit E k c s) = kept"
    by (simp add: keep_circuit_def Let_def m_def [symmetric] kept_def split: option.split)
  have log: "closed (os_log (keep_circuit E k c s)) =
      closed (os_log m) + (case map_of (os_circuits m) k of None \<Rightarrow> {#} | Some (old, _) \<Rightarrow> {#old#})"
    by (simp add: keep_circuit_def Let_def m_def [symmetric] split: option.split prod.split)
  have "image_mset (\<lambda>(_, c, _). c) (mset kept + (case map_of (os_circuits m) k of None \<Rightarrow> {#} | Some w \<Rightarrow> {#(k, w)#})) =
      add_mset c (circuits_of m)"
    unfolding kept_def update_mset [OF m(2)] by (simp add: circuits_of_def)
  then have "circuits_of (keep_circuit E k c s) + (case map_of (os_circuits m) k of None \<Rightarrow> {#} | Some (old, _) \<Rightarrow> {#old#}) = add_mset c (circuits_of m)"
    unfolding circuits_of_def [of "keep_circuit E k c s"] circs by (cases "map_of (os_circuits m) k") auto
  then have "circuits_of (keep_circuit E k c s) + closed (os_log (keep_circuit E k c s)) = add_mset c (circuits_of m + closed (os_log m))"
    unfolding log by (simp add: union_assoc union_commute union_lcomm)
  moreover have "length kept \<le> Suc (length (os_circuits m))" unfolding kept_def by (rule length_update)
  moreover have "distinct (map fst kept)" unfolding kept_def using m(2) by (rule distinct_update)
  ultimately show ?thesis
    using m(1,3) circs by (simp add: keys_distinct_def kept_def update_conv') (simp add: keep_circuit_def Let_def)
qed

lemma discard_sound:
  assumes "keys_distinct s"
  shows "circuits_of (discard_onion_circuit a s) + closed (os_log (discard_onion_circuit a s)) = circuits_of s + closed (os_log s) \<and>
       map_of (os_circuits (discard_onion_circuit a s)) (onion_key a) = None \<and> keys_distinct (discard_onion_circuit a s) \<and>
       length (os_circuits (discard_onion_circuit a s)) \<le> length (os_circuits s) \<and>
       os_in_use (discard_onion_circuit a s) = length (os_circuits (discard_onion_circuit a s))"
proof -
  have "length (os_circuits (drop_circuit (onion_key a) s)) \<le> length (os_circuits s)"
    by (auto simp: drop_circuit_def AList.delete_eq split: option.split)
  then show ?thesis
    using drop_circuit_sound [OF assms, of "onion_key a"]
    by (simp add: discard_onion_circuit_def circuits_of_def keys_distinct_def)
qed


definition proper_descriptor :: "'k onion_prims \<Rightarrow> bytes \<Rightarrow> time_period \<Rightarrow> descriptor \<Rightarrow> bool" where
  "proper_descriptor P k tp d \<longleftrightarrow>
     (\<exists>text blinded unix. blinded_key (op_sha3 P) k tp = Inr blinded \<and>
        descriptor_parse (op_desc P) text blinded (onion_subcredential (op_sha3 P) \<lparr>onion_key = k\<rparr> blinded) unix = Inr d)"

text \<open>The log shows that this service was met on this circuit, through a descriptor that is the service's.\<close>

definition met_in :: "'k onion_prims \<Rightarrow> bytes \<Rightarrow> nat \<Rightarrow> action list \<Rightarrow> bool" where
  "met_in P k c tr \<longleftrightarrow>
     (\<exists>N terms d tp sub ds tr1 tr2 suf. proper_descriptor P k tp d \<and>
        establish N (op_hs P) terms d sub ds tr1 = Some (Inr c, tr2) \<and> tr = tr2 @ suf)"

lemma met_in_append: "met_in P k c tr \<Longrightarrow> met_in P k c (tr @ suf)"
  unfolding met_in_def by (metis append.assoc)

definition good_side :: "'k onion_prims \<Rightarrow> onion_side \<Rightarrow> bool" where
  "good_side P s \<longleftrightarrow>
     (\<forall>(k, cd) \<in> set (os_descriptors s). \<exists>tp. period_number tp = cd_period cd \<and> proper_descriptor P k tp (cd_descriptor cd)) \<and>
     (\<forall>(k, c, b) \<in> set (os_circuits s). met_in P k c (os_log s)) \<and>
     keys_distinct s \<and> length (os_circuits s) \<le> MAX_CIRCUITS"

text \<open>Other threads run the same code.\<close>

definition fair_env :: "'k onion_prims \<Rightarrow> onion_env \<Rightarrow> bool" where
  "fair_env P E \<longleftrightarrow> 
     (\<forall>n s. good_side P s \<longrightarrow> good_side P (oe_others E n s) \<and> (\<exists>suf. os_log (oe_others E n s) = os_log s @ suf))"

lemma take_answers_Inr: "take_answers rs absent prev = Inl (Inr d) \<Longrightarrow> \<exists>i. (i, Inr d) \<in> set rs"
  by (induction rs absent prev rule: take_answers.induct) (auto split: if_splits)

lemma fetch_groups_Inr: "fetch_groups ask gs n absent prev = Inr d \<Longrightarrow> \<exists>g \<in> set gs. \<exists>i. (i, Inr d) \<in> set (ask g)"
proof (induction gs arbitrary: n absent prev)
  case (Cons g gs)
  then show ?case using take_answers_Inr [of "ask g" absent prev d] by (fastforce split: if_splits sum.splits)
qed simp

lemma set_until_success: "set (until_success rs) \<subseteq> set rs"
  by (induction rs rule: until_success.induct) auto

lemma ask_hsdirs_Inr: "(i, r) \<in> set (ask_hsdirs fetch arrived g) \<Longrightarrow> r = fetch i"
  using set_until_success by (fastforce simp: ask_hsdirs_def split: if_splits)

lemma fetched_proper:
  assumes "fetch_descriptor P E t blinded (onion_subcredential (op_sha3 P) a blinded) = Some (Inr d)"
    and "blinded_key (op_sha3 P) (onion_key a) (ht_period t) = Inr blinded"
  shows "proper_descriptor P (onion_key a) (ht_period t) d"
proof -
  obtain i where "fetch_descriptor_from P E (descriptor_path blinded) blinded (onion_subcredential (op_sha3 P) a blinded) i = Inr d"
    using assms(1) by (auto simp: fetch_descriptor_def split: option.splits sum.splits dest!: fetch_groups_Inr ask_hsdirs_Inr)
  then have "\<exists>text. descriptor_parse (op_desc P) text blinded (onion_subcredential (op_sha3 P) a blinded) (oe_unix E) = Inr d"
    by (auto simp: fetch_descriptor_from_def split: if_splits)
  moreover have "a = \<lparr>onion_key = onion_key a\<rparr>" by simp
  ultimately show ?thesis using assms(2) unfolding proper_descriptor_def by metis
qed

section \<open>What the client knows of a service\<close>

lemma good_side_frame [simp]:
  "good_side P (s\<lparr>os_wanted := w\<rparr>) = good_side P s" "good_side P (s\<lparr>os_disk := d\<rparr>) = good_side P s"
  "good_side P (s\<lparr>os_table := t\<rparr>) = good_side P s"
  "good_side P (s\<lparr>os_in_use := n\<rparr>) = good_side P s"
  by (simp_all add: good_side_def keys_distinct_def)

lemma hsdir_ring_good:
  assumes "hsdir_ring P E s = (r, s')" and "good_side P s" and "fair_env P E"
  shows "good_side P s'"
proof -
  have "good_side P (s\<lparr>os_wanted := True\<rparr>)" using assms(2) by simp
  moreover from this have "good_side P (oe_others E 0 (s\<lparr>os_wanted := True\<rparr>))" using assms(3) by (simp add: fair_env_def)
  ultimately show ?thesis
    using assms(1) by (auto simp: hsdir_ring_def Let_def split: option.splits prod.splits sum.splits)
qed

lemma in_hand_proper:
  assumes "in_hand t k s = Some d" and "good_side P s"
  shows "\<exists>tp. period_number tp = period_number (ht_period t) \<and> proper_descriptor P k tp d"
proof -
  obtain cd where "map_of (os_descriptors s) k = Some cd" "cd_period cd = period_number (ht_period t)" "d = cd_descriptor cd"
    using assms(1) by (auto simp: in_hand_def split: option.splits if_splits)
  moreover from this(1) have "(k, cd) \<in> set (os_descriptors s)" by (rule map_of_SomeD)
  ultimately show ?thesis using assms(2) unfolding good_side_def by fastforce
qed

lemma store_descriptor_good:
  assumes "good_side P s" and "proper_descriptor P k tp (cd_descriptor cd)" and "cd_period cd = period_number tp"
  shows "good_side P (store_descriptor k cd s)"
proof -
  have "set (AList.update k cd al) \<subseteq> insert (k, cd) (set al)" for al by (induction al) auto
  then show ?thesis using assms unfolding good_side_def store_descriptor_def keys_distinct_def
    by (fastforce simp: subset_iff)
qed

lemma onion_descriptor_good:
  assumes run: "onion_descriptor P E a s = Some (r, s')" and good: "good_side P s" and fair: "fair_env P E"
  shows "good_side P s' \<and> (\<forall>d. r = Inr d \<longrightarrow> (\<exists>tp. proper_descriptor P (onion_key a) tp d))"
proof -
  obtain q s1 where ring: "hsdir_ring P E s = (q, s1)" by force
  have s1: "good_side P s1" using hsdir_ring_good [OF ring good fair] .
  show ?thesis
  proof (cases q)
    case (Inl e)
    then show ?thesis using run ring s1 by (auto simp: onion_descriptor_def)
  next
    case (Inr t)
    show ?thesis
    proof (cases "blinded_key (op_sha3 P) (onion_key a) (ht_period t)")
      case (Inl e)
      then show ?thesis using run ring s1 Inr by (auto simp: onion_descriptor_def)
    next
      case blinded: (Inr b)
      define s2 where "s2 = retain_descriptors (oe_now E) (oe_others E 1 s1)"
      have "good_side P (oe_others E 1 s1)" using fair s1 by (simp add: fair_env_def)
      then have s2: "good_side P s2" unfolding s2_def retain_descriptors_def good_side_def keys_distinct_def by auto
      note run' = run [unfolded onion_descriptor_def ring Inr prod.case sum.case blinded Let_def s2_def [symmetric]]
      show ?thesis
      proof (cases "in_hand t (onion_key a) s2")
        case (Some d)
        then show ?thesis using run' s2 in_hand_proper [OF Some s2] by auto
      next
        case None
        note run'' = run' [unfolded None option.case]
        have others: "good_side P (oe_others E 2 s2)" using fair s2 by (simp add: fair_env_def)
        show ?thesis
        proof (cases "fetch_descriptor P E t b (onion_subcredential (op_sha3 P) a b)")
          case None
          then show ?thesis using run'' by simp
        next
          case (Some f)
          show ?thesis
          proof (cases f)
            case (Inl e)
            then show ?thesis using run'' Some s2 by auto
          next
            case d: (Inr d)
            have "proper_descriptor P (onion_key a) (ht_period t) d" using fetched_proper Some d blinded by metis
            then show ?thesis using run'' Some d store_descriptor_good [OF others] by auto
          qed
        qed
      qed
    qed
  qed
qed

section \<open>Reaching a service\<close>

lemma good_side_log: "good_side P s \<Longrightarrow> tr = os_log s @ suf \<Longrightarrow> good_side P (s\<lparr>os_log := tr\<rparr>)"
  unfolding good_side_def keys_distinct_def using met_in_append by fastforce

lemma good_side_subset:
  assumes "good_side P s" and "os_descriptors s' = os_descriptors s" and "set (os_circuits s') \<subseteq> set (os_circuits s)"
    and "os_log s' = os_log s @ suf" and "keys_distinct s'" and "length (os_circuits s') \<le> MAX_CIRCUITS"
  shows "good_side P s'"
  unfolding good_side_def assms(2,4)
proof (intro conjI assms(5,6))
  show "\<forall>(k, cd) \<in> set (os_descriptors s). \<exists>tp. period_number tp = cd_period cd \<and> proper_descriptor P k tp (cd_descriptor cd)"
    using assms(1) unfolding good_side_def by blast
  show "\<forall>(k, c, b) \<in> set (os_circuits s'). met_in P k c (os_log s @ suf)"
  proof clarify
    fix k c b assume "(k, c, b) \<in> set (os_circuits s')"
    then have "met_in P k c (os_log s)" using assms(1,3) unfolding good_side_def by fastforce
    then show "met_in P k c (os_log s @ suf)" by (rule met_in_append)
  qed
qed

lemma retain_circuits_good: "good_side P s \<Longrightarrow> good_side P (retain_circuits E s)"
  using retain_circuits_sound(1) [of s E] retain_circuits_sound(2) [of E s]
  by (intro good_side_subset [of P s "retain_circuits E s" "[]"])
    (auto simp: good_side_def retain_circuits_def intro: le_trans [OF length_filter_le])

lemma drop_circuit_frame:
  "os_descriptors (drop_circuit k s) = os_descriptors s" "\<exists>suf. os_log (drop_circuit k s) = os_log s @ suf"
  by (auto simp: drop_circuit_def log_close_def split: option.split prod.split)

lemma make_space_frame:
  "os_descriptors (make_space s) = os_descriptors s \<and> (\<exists>suf. os_log (make_space s) = os_log s @ suf)"
proof (induction s rule: make_space.induct)
  case (1 s)
  show ?case
  proof (cases "length (os_circuits s) < MAX_CIRCUITS \<or> os_circuits s = []")
    case True
    then have "make_space s = s" by (subst make_space.simps) auto
    then show ?thesis by simp
  next
    case False
    then obtain x xs where x: "os_circuits s = x # xs" by (cases "os_circuits s") auto
    let ?d = "drop_circuit (fst (oldest_circuit xs x)) s"
    have step: "make_space s = make_space ?d" using False x by (subst make_space.simps) simp
    have "\<not> length (os_circuits s) < MAX_CIRCUITS" using False by simp
    from "1.IH" [OF this x] show ?thesis
      unfolding step using drop_circuit_frame [of "fst (oldest_circuit xs x)" s] by auto
  qed
qed

lemma set_update_subset: "set (AList.update k v al) \<subseteq> insert (k, v) (set al)"
  by (induction al) auto

lemma keep_circuit_good:
  assumes good: "good_side P s" and met: "met_in P k c (os_log s)"
  shows "good_side P (keep_circuit E k c s)"
proof -
  let ?m = "make_space (retain_circuits E s)"
  let ?k = "keep_circuit E k c s"
  obtain suf where suf: "os_log ?m = os_log s @ suf" "os_descriptors ?m = os_descriptors s"
    using make_space_frame [of "retain_circuits E s"] by (auto simp: retain_circuits_def)
  have circs: "os_circuits ?k = AList.update k (c, oe_later E) (os_circuits ?m)"
    by (simp add: keep_circuit_def Let_def split: option.split)
  obtain suf' where log: "os_log ?k = os_log s @ suf'"
    using suf(1) by (cases "map_of (os_circuits ?m) k") (auto simp: keep_circuit_def Let_def)
  have "set (os_circuits ?m) \<subseteq> set (os_circuits s)"
    using make_space_sound [OF retain_circuits_sound(1), of s E] retain_circuits_sound(2) [of E s] good
    unfolding good_side_def by blast
  then have sub: "set (os_circuits ?k) \<subseteq> insert (k, c, oe_later E) (set (os_circuits s))"
    unfolding circs using set_update_subset by fast
  have descs: "os_descriptors ?k = os_descriptors s"
    using suf(2) by (simp add: keep_circuit_def Let_def note_in_use_def log_close_def split: option.split prod.split)
  have kd: "keys_distinct s" using good by (simp add: good_side_def)
  have "met_in P k' c' (os_log s)" if "(k', c', b) \<in> set (os_circuits ?k)" for k' c' b
  proof (cases "(k', c', b) = (k, c, oe_later E)")
    case False
    with that sub have "(k', c', b) \<in> set (os_circuits s)" by blast
    then show ?thesis using good unfolding good_side_def by fastforce
  qed (use met in simp)
  then have "\<forall>(k', c', b) \<in> set (os_circuits ?k). met_in P k' c' (os_log ?k)"
    unfolding log using met_in_append by fast
  then show ?thesis
    using good keep_circuit_sound [OF kd, of E k c] unfolding good_side_def descs by blast
qed

lemma discard_good:
  assumes "good_side P s"
  shows "good_side P (discard_onion_circuit a s)"
proof -
  let ?d = "drop_circuit (onion_key a) s"
  obtain suf where "os_log ?d = os_log s @ suf" using drop_circuit_frame(2) by blast
  moreover have "length (os_circuits ?d) \<le> length (os_circuits s)"
    by (auto simp: drop_circuit_def AList.delete_eq split: option.split)
  ultimately show ?thesis
    using drop_circuit_sound [of s "onion_key a"] drop_circuit_frame(1) [of "onion_key a" s] assms
    by (intro good_side_subset [OF assms, of _ suf]) (auto simp: discard_onion_circuit_def keys_distinct_def good_side_def note_in_use_def)
qed

lemma forget_good: "good_side P s \<Longrightarrow> good_side P (forget_descriptor a s)"
  by (auto simp: forget_descriptor_def good_side_def keys_distinct_def AList.delete_eq)

section \<open>The log grows\<close>

lemma introduce_loop_extends:
  "introduce_loop N Q rend points sub cc is st tr = (r, p, tr') \<Longrightarrow> \<exists>suf. tr' = tr @ suf"
proof (induction "is" arbitrary: st tr)
  case (Cons i "is")
  obtain ready prepared where t: "take_ready i (at_prepared st) = (ready, prepared)" by force
  obtain q t1 where q: "introduce N Q rend (points ! i) sub ready cc tr = (q, t1)" by force
  obtain suf where suf: "t1 = tr @ suf" using introduce_extends [OF q] by blast
  show ?case
  proof (cases q)
    case (Inl e)
    then show ?thesis using Cons.prems t q suf Cons.IH by (fastforce split: if_splits)
  next
    case (Inr u)
    then show ?thesis using Cons.prems t q suf by (auto split: if_splits)
  qed
qed simp

lemma run_plan_extends: "run_plan N Q terms d sub order met prepared tr = (r, tr') \<Longrightarrow> \<exists>suf. tr' = tr @ suf"
  by (auto simp: run_plan_def introduce_until_met_def close_prepared_def split: sum.splits prod.splits option.splits
      dest!: introduce_loop_extends)

lemma prepare_extends: "prepare N points order tr = (p, tr') \<Longrightarrow> \<exists>suf. tr' = tr @ suf"
  by (auto simp: prepare_def build_to_def split: list.splits sum.splits)

lemma establish_extends:
  assumes "establish N Q terms d sub ds tr = Some (r, tr')"
  shows "\<exists>suf. tr' = tr @ suf"
proof -
  define early where "early = (if net_spawned N then Some (open_rendezvous N tr) else None)"
  define t0 where "t0 = (case early of Some (_, t) \<Rightarrow> t | None \<Rightarrow> tr)"
  have t0: "\<exists>suf. t0 = tr @ suf"
    unfolding t0_def early_def by (cases "open_rendezvous N tr") (auto dest: rend_extends(3))
  note run = assms [unfolded establish_def Let_def early_def [symmetric], folded t0_def]
  show ?thesis
  proof (cases "shuffle [0..<length (intro_points d)] ds")
    case (Some q)
    show ?thesis
    proof (cases "fst q")
      case (Inl e)
      then show ?thesis using run Some t0 by (cases q) auto
    next
      case (Inr order)
      obtain p t1 where p: "prepare N (intro_points d) (take INTRO_ATTEMPTS order) t0 = (p, t1)" by force
      obtain met t2 where met: "(case early of Some (met, _) \<Rightarrow> (met, t1) | None \<Rightarrow> open_rendezvous N t1) = (met, t2)" by force
      have "run_plan N Q terms d sub (take INTRO_ATTEMPTS order) met p t2 = (r, tr')"
        using run Some Inr p met by (cases q) simp
      moreover have "\<exists>suf. t2 = t1 @ suf" using met by (auto split: option.splits dest: rend_extends(3))
      ultimately show ?thesis using t0 prepare_extends [OF p] run_plan_extends by fastforce
    qed
  qed (use run in simp)
qed

lemma meet_service_Some:
  assumes "meet_service P E d sub s = Some (r, s')" and "good_side P s"
  shows "good_side P s' \<and> (\<forall>k tp c. proper_descriptor P k tp d \<longrightarrow> r = Inr c \<longrightarrow> met_in P k c (os_log s'))"
proof -
  obtain tr where e: "establish (oe_net E) (op_hs P) (cc_onion (net_params_of (oe_consensus E))) d sub (oe_draws E) (os_log s) = Some (r, tr)"
    and s': "s' = s\<lparr>os_log := tr\<rparr>"
    using assms(1) by (auto simp: meet_service_def split: option.splits prod.splits)
  have "good_side P s'" using establish_extends [OF e] good_side_log [OF assms(2)] unfolding s' by blast
  moreover have "met_in P k c (os_log s')" if "proper_descriptor P k tp d" "r = Inr c" for k tp c
    unfolding met_in_def s' using e that by (auto intro!: exI)
  ultimately show ?thesis by blast
qed

definition good_result :: "'k onion_prims \<Rightarrow> onion_address \<Rightarrow> nat io_result \<Rightarrow> onion_side \<Rightarrow> bool" where
  "good_result P a r s \<longleftrightarrow> good_side P s \<and> (\<forall>c. r = Inr c \<longrightarrow> met_in P (onion_key a) c (os_log s))"

lemma second_round_good:
  assumes run: "op_then (onion_descriptor P E a) (\<lambda>d s.
       case meet_service P E' d sub s of
         None \<Rightarrow> None
       | Some (Inr c, s) \<Rightarrow> Some (Inr c, s)
       | Some (Inl f, s) \<Rightarrow> Some (Inl (fail_error f), s)) s = Some (r, s')"
    and good: "good_side P s" and fair: "fair_env P E"
  shows "good_result P a r s'"
  using run unfolding op_then_Some
proof (elim disjE exE conjE)
  fix e assume "onion_descriptor P E a s = Some (Inl e, s')" "r = Inl e"
  then show ?thesis using onion_descriptor_good [OF _ good fair] by (fastforce simp: good_result_def)
next
  fix d s1
  assume d: "onion_descriptor P E a s = Some (Inr d, s1)"
  assume rest: "(case meet_service P E' d sub s1 of
         None \<Rightarrow> None
       | Some (Inl f, s) \<Rightarrow> Some (Inl (fail_error f), s)
       | Some (Inr c, s) \<Rightarrow> Some (Inr c, s)) = Some (r, s')"
  obtain tp where one: "good_side P s1" "proper_descriptor P (onion_key a) tp d"
    using onion_descriptor_good [OF d good fair] by auto
  obtain q s2 where q: "meet_service P E' d sub s1 = Some (q, s2)" using rest by (auto split: option.splits)
  show ?thesis using rest q meet_service_Some [OF q one(1)] one(2) by (cases q) (auto simp: good_result_def)
qed

lemma build_onion_circuit_good:
  assumes run: "build_onion_circuit P E a sub s = Some (r, s')" and good: "good_side P s" and fair: "\<forall>k. fair_env P (E k)"
  shows "good_result P a r s'"
  using run unfolding build_onion_circuit_def op_then_Some
proof (elim disjE exE conjE)
  fix e assume "onion_descriptor P (E 2) a s = Some (Inl e, s')" "r = Inl e"
  then show ?thesis using onion_descriptor_good [OF _ good] fair by (fastforce simp: good_result_def)
next
  fix d s1
  assume d: "onion_descriptor P (E 2) a s = Some (Inr d, s1)"
  let ?again = "op_then (onion_descriptor P (E 4) a) (\<lambda>d s.
             case meet_service P (E 5) d sub s of
               None \<Rightarrow> None
             | Some (Inr c, s) \<Rightarrow> Some (Inr c, s)
             | Some (Inl f, s) \<Rightarrow> Some (Inl (fail_error f), s))"
  assume rest: "(case meet_service P (E 3) d sub s1 of
         None \<Rightarrow> None
       | Some (Inl f, s) \<Rightarrow> if descriptor_is_stale f then ?again (forget_descriptor a s) else Some (Inl (fail_error f), s)
       | Some (Inr c, s) \<Rightarrow> Some (Inr c, s)) = Some (r, s')"
  obtain tp where one: "good_side P s1" "proper_descriptor P (onion_key a) tp d"
    using onion_descriptor_good [OF d good] fair by auto
  obtain q s2 where q: "meet_service P (E 3) d sub s1 = Some (q, s2)" using rest by (auto split: option.splits)
  note two = meet_service_Some [OF q one(1)]
  show ?thesis
  proof (cases q)
    case (Inr c)
    then show ?thesis using rest q two one(2) by (auto simp: good_result_def)
  next
    case (Inl f)
    show ?thesis
    proof (cases "descriptor_is_stale f")
      case True
      then have "?again (forget_descriptor a s2) = Some (r, s')" using rest q Inl by simp
      then show ?thesis using second_round_good forget_good two fair by blast
    qed (use rest q Inl two in \<open>auto simp: good_result_def\<close>)
  qed
qed

lemma look_up_circuit_good:
  assumes "look_up_circuit E k s = (q, s')" and "good_side P s"
  shows "good_side P s' \<and> q = map_option fst (map_of (os_circuits s') k)"
  using assms retain_circuits_good [OF assms(2), of E] by (auto simp: look_up_circuit_def Let_def note_in_use_def)

text \<open>The circuit is the service's, and in the table under its key.\<close>

definition holds_circuit :: "'k onion_prims \<Rightarrow> onion_address \<Rightarrow> nat \<Rightarrow> onion_side \<Rightarrow> bool" where
  "holds_circuit P a c s \<longleftrightarrow> (\<exists>b. map_of (os_circuits s) (onion_key a) = Some (c, b)) \<and> met_in P (onion_key a) c (os_log s)"

lemma in_table_met: "good_side P s \<Longrightarrow> map_of (os_circuits s) (onion_key a) = Some (c, b) \<Longrightarrow> holds_circuit P a c s"
  unfolding holds_circuit_def good_side_def by (fastforce dest: map_of_SomeD)

lemma onion_circuit_good:
  assumes run: "onion_circuit P E a s = Some (r, s')" and good: "good_side P s" and fair: "\<forall>k. fair_env P (E k)"
  shows "good_side P s' \<and> (\<forall>c. r = Inr c \<longrightarrow> holds_circuit P a c s')"
proof -
  have others: "good_side P (oe_others (E k) n x)" if "good_side P x" for k n x using fair that by (simp add: fair_env_def)
  obtain q s1 where q: "look_up_circuit (E 0) (onion_key a) (oe_others (E 0) 3 s) = (q, s1)" by force
  note found = look_up_circuit_good [OF q others [OF good]]
  show ?thesis
  proof (cases q)
    case (Some c)
    then obtain b where "map_of (os_circuits s1) (onion_key a) = Some (c, b)" using found by auto
    then have "holds_circuit P a c s1" using in_table_met found by blast
    then show ?thesis using run q Some found by (auto simp: onion_circuit_def)
  next
    case None
    obtain ks s2 where ks: "onion_keys P (E 1) a s1 = (ks, s2)" by force
    have good2: "good_side P s2"
      using ks hsdir_ring_good [of P "E 1" s1] found fair by (auto simp: onion_keys_def split: sum.splits prod.splits)
    show ?thesis
    proof (cases ks)
      case (Inl e)
      then show ?thesis using run q None ks good2 by (auto simp: onion_circuit_def)
    next
      case (Inr bs)
      then have "op_then (build_onion_circuit P E a (snd bs))
          (\<lambda>c s. Some (Inr c, keep_circuit (E 6) (onion_key a) c (oe_others (E 6) 3 s))) s2 = Some (r, s')"
        using run q None ks by (cases bs) (simp add: onion_circuit_def)
      then show ?thesis
        unfolding op_then_Some
      proof (elim disjE exE conjE)
        fix e assume "build_onion_circuit P E a (snd bs) s2 = Some (Inl e, s')" "r = Inl e"
        then show ?thesis using build_onion_circuit_good [OF _ good2 fair] by (fastforce simp: good_result_def)
      next
        fix c s3
        assume c: "build_onion_circuit P E a (snd bs) s2 = Some (Inr c, s3)"
          and out: "Some (Inr c, keep_circuit (E 6) (onion_key a) c (oe_others (E 6) 3 s3)) = Some (r, s')"
        let ?o = "oe_others (E 6) 3 s3"
        have good3: "good_side P s3" and met: "met_in P (onion_key a) c (os_log s3)"
          using build_onion_circuit_good [OF c good2 fair] by (auto simp: good_result_def)
        then have go: "good_side P ?o" and "\<exists>suf. os_log ?o = os_log s3 @ suf" using fair unfolding fair_env_def by blast+
        then have "met_in P (onion_key a) c (os_log ?o)" using met met_in_append by metis
        then have k: "good_side P (keep_circuit (E 6) (onion_key a) c ?o)" using keep_circuit_good [OF go] by blast
        have kd: "keys_distinct ?o" using go by (simp add: good_side_def)
        have "holds_circuit P a c (keep_circuit (E 6) (onion_key a) c ?o)"
          using keep_circuit_sound [OF kd, of "E 6" "onion_key a" c] in_table_met [OF k] by blast
        then show ?thesis using out k by auto
      qed
    qed
  qed
qed

section \<open>Opening a stream\<close>

text \<open>How the attempt with a number failed: no circuit, or none of its streams.\<close>

definition failed_attempt :: "'k onion_prims \<Rightarrow> (nat \<Rightarrow> nat \<Rightarrow> onion_env) \<Rightarrow> (nat \<Rightarrow> nat \<Rightarrow> 'st io_result) \<Rightarrow> onion_address \<Rightarrow> nat \<Rightarrow> io_error \<Rightarrow> bool" where
  "failed_attempt P E ask_stream a k e \<longleftrightarrow>
     (\<exists>s s'. good_side P s \<and> onion_circuit P (E k) a s = Some (Inl e, s')) \<or>
     (\<exists>s c s'. good_side P s \<and> onion_circuit P (E k) a s = Some (Inr c, s') \<and> ask_stream k c = Inl e \<and> \<not> is_stream_end e)"

definition attempts_end ::
    "'k onion_prims \<Rightarrow> (nat \<Rightarrow> nat \<Rightarrow> onion_env) \<Rightarrow> (nat \<Rightarrow> nat \<Rightarrow> 'st io_result) \<Rightarrow> onion_address \<Rightarrow> nat set \<Rightarrow> nat \<Rightarrow> 'st io_result \<Rightarrow> onion_side \<Rightarrow> bool" where
  "attempts_end P E ask_stream a ks final r s \<longleftrightarrow>
     (case r of
        Inr st \<Rightarrow> \<exists>k \<in> ks. \<exists>c. ask_stream k c = Inr st \<and> holds_circuit P a c s
      | Inl e \<Rightarrow>
          (\<exists>k \<in> ks. failed_attempt P E ask_stream a k e \<and> (error_kind e \<in> {NotFound, PermissionDenied} \<or> k = final)) \<or>
          (\<exists>k \<in> ks. \<exists>c. ask_stream k c = Inl e \<and> is_stream_end e \<and> holds_circuit P a c s))"

lemma onion_attempts_end:
  assumes "onion_attempts P E ask_stream a ks prev s = Some (r, s')" and "good_side P s" and "\<forall>k n. fair_env P (E k n)" and "ks \<noteq> []"
  shows "good_side P s' \<and> attempts_end P E ask_stream a (set ks) (List.last ks) r s'"
  using assms
proof (induction ks arbitrary: prev s)
  case (Cons k ks)
  have fair: "\<forall>n. fair_env P (E k n)" using Cons.prems(3) by blast
  obtain q s1 where q: "onion_circuit P (E k) a s = Some (q, s1)" using Cons.prems(1) by (auto split: option.splits)
  note circ = onion_circuit_good [OF q Cons.prems(2) fair]
  have again: ?case
    if run: "onion_attempts P E ask_stream a ks (Some e) s2 = Some (r, s')" and good: "good_side P s2" and failed: "failed_attempt P E ask_stream a k e" for e s2
  proof (cases "ks = []")
    case True
    then show ?thesis using run good failed by (auto simp: attempts_end_def)
  next
    case False
    then show ?thesis using Cons.IH [OF run good Cons.prems(3)] by (auto simp: attempts_end_def split: sum.splits)
  qed
  show ?case
  proof (cases q)
    case (Inl e)
    have f: "failed_attempt P E ask_stream a k e" unfolding failed_attempt_def using q Inl Cons.prems(2) by blast
    show ?thesis
    proof (cases "error_kind e = NotFound \<or> error_kind e = PermissionDenied")
      case True
      then show ?thesis using Cons.prems(1) q Inl circ f by (auto simp: attempts_end_def)
    next
      case False
      then show ?thesis using Cons.prems(1) q Inl circ f by (intro again [of e s1]) auto
    qed
  next
    case (Inr c)
    show ?thesis
    proof (cases "ask_stream k c")
      case st: (Inr st)
      then have "r = Inr st" "s' = s1" using Cons.prems(1) q Inr by simp_all
      then show ?thesis using circ Inr st by (auto simp: attempts_end_def)
    next
      case st: (Inl e)
      show ?thesis
      proof (cases "is_stream_end e")
        case True
        then have "r = Inl e" "s' = s1" using Cons.prems(1) q Inr st by simp_all
        then show ?thesis using circ Inr st True by (auto simp: attempts_end_def)
      next
        case False
        have "good_side P (discard_onion_circuit a (oe_others (E k 7) 3 s1))"
          using circ fair by (intro discard_good) (auto simp: fair_env_def)
        moreover have "failed_attempt P E ask_stream a k e" unfolding failed_attempt_def using q Inr st False Cons.prems(2) by blast
        ultimately show ?thesis using Cons.prems(1) q Inr st False
          by (intro again [of e "discard_onion_circuit a (oe_others (E k 7) 3 s1)"]) auto
      qed
    qed
  qed
qed simp


section \<open>Searching for a descriptor\<close>

text \<open>A descriptor comes from a node that answered with it, within the bounds, and parses under the blinded key.\<close>

lemma descriptor_fetched:
  assumes "fetch_descriptor P E t blinded sub = Some (Inr d)"
  shows "\<exists>i raw. oe_answer E (descriptor_path blinded) i = Inr raw \<and> length raw \<le> MAX_DESCRIPTOR_BYTES \<and> valid_utf8 raw \<and>
     descriptor_parse (op_desc P) (to_text raw) blinded sub (oe_unix E) = Inr d"
proof -
  obtain i where "fetch_descriptor_from P E (descriptor_path blinded) blinded sub i = Inr d"
    using assms by (auto simp: fetch_descriptor_def split: option.splits sum.splits dest!: fetch_groups_Inr ask_hsdirs_Inr)
  then show ?thesis by (auto simp: fetch_descriptor_from_def string_from_utf8_Inr not_less split: if_splits)
qed

text \<open>While every node says it has no descriptor, the next ones are asked, to the last of them.\<close>

lemma absent_everywhere:
  assumes "\<forall>g \<in> set gs. \<forall>(i, r) \<in> set (ask g). \<exists>e. r = Inl e \<and> error_kind e = NotFound"
    and "prev \<noteq> None \<longrightarrow> error_kind (the prev) = NotFound" and "prev \<noteq> None \<or> (\<exists>g \<in> set gs. ask g \<noteq> [])"
  shows "\<exists>e. fetch_groups ask gs n True prev = Inl e \<and> error_kind e = NotFound"
proof -
  have answers: "\<exists>prev'. take_answers rs True prev = Inr (True, prev') \<and> (prev' \<noteq> None \<longrightarrow> error_kind (the prev') = NotFound) \<and>
      (prev' = None \<longleftrightarrow> prev = None \<and> rs = [])"
    if "\<forall>(i, r) \<in> set rs. \<exists>e. r = Inl e \<and> error_kind e = NotFound" "prev \<noteq> None \<longrightarrow> error_kind (the prev) = NotFound"
    for rs :: "(bytes \<times> descriptor io_result) list" and prev
    using that
  proof (induction rs arbitrary: prev)
    case (Cons x rs)
    then obtain i e where "x = (i, Inl e)" "error_kind e = NotFound" by (cases x) auto
    then show ?case using Cons.IH [of "Some e"] Cons.prems by auto
  qed simp
  show ?thesis
    using assms
  proof (induction gs arbitrary: n prev)
    case Nil
    then show ?case by (auto simp: no_descriptor_def)
  next
    case (Cons g gs)
    obtain prev' where p: "take_answers (ask g) True prev = Inr (True, prev')" "prev' \<noteq> None \<longrightarrow> error_kind (the prev') = NotFound"
      "prev' = None \<longleftrightarrow> prev = None \<and> ask g = []"
      using answers [of "ask g" prev] Cons.prems by auto
    then show ?case using Cons.IH [of prev' "n + length g"] Cons.prems by auto
  qed
qed

text \<open>
  The comment on the verdict says that every node which answered said it had no such descriptor; one that
  was asked last and said so is enough, whatever became of the others.
\<close>

lemma last_absent_hides_failure:
  assumes "error_kind e \<noteq> PermissionDenied" and "error_kind e' = NotFound" and "ask g = [(i, Inl e), (j, Inl e')]"
  shows "fetch_groups ask [g] 0 True None = Inl (IoError NotFound ''no directory node holds a descriptor for this onion service'')"
  using assms by (simp add: HSDIR_TRIES_def no_descriptor_def)

text \<open>A rendezvous circuit that has grown old leaves the table without being closed.\<close>

lemma aged_circuit_not_closed:
  assumes "(k, c, b) \<in> set (os_circuits s)" and "MAX_CIRCUIT_AGE \<le> saturating_sub (oe_now E) b"
  shows "(k, c, b) \<notin> set (os_circuits (retain_circuits E s)) \<and> os_log (retain_circuits E s) = os_log s"
  using assms by (simp add: retain_circuits_def)

section \<open>A client whose directory is out of reach\<close>

definition demo_onion_prims :: "bytes onion_prims" where
  "demo_onion_prims = \<lparr>op_sha3 = (\<lambda>_. []), op_dir = plain_crypto,
     op_desc = \<lparr>dp_sha3 = (\<lambda>_. []), dp_shake = (\<lambda>_ n. replicate n 0), dp_aes_ctr = (\<lambda>_ _ bs. bs), dp_verify = (\<lambda>_ _ _. True)\<rparr>,
     op_hs = demo_prims\<rparr>"

definition offline_env :: onion_env where
  "offline_env = \<lparr>oe_consensus = body_consensus five, oe_opened = (\<lambda>_. Inl disk_error), oe_others = (\<lambda>_ s. s), oe_now = 0, oe_later = 0,
     oe_unix = 0, oe_down = (\<lambda>_. False), oe_draws = [], oe_answer = (\<lambda>_ _. Inl disk_error), oe_arrived = (\<lambda>g. g), oe_net = rend_demo\<rparr>"

definition new_side :: onion_side where
  "new_side = \<lparr>os_table = None, os_wanted = False, os_descriptors = [], os_circuits = [], os_in_use = 0, os_disk = empty_disk, os_log = []\<rparr>"



end
