(* ===== verification/Onion_Publish.thy ===== *)
theory Onion_Publish
  imports Onion_Descriptor Doc_Text
begin

text \<open>
  What an onion service publishes, written from rend-spec line by line, against the client's reader of
  \<open>Onion_Descriptor\<close>: a descriptor published for a blinded key is read back as it was meant. Objects
  are written on one line of base64.
\<close>

section \<open>Words and items\<close>

definition tight :: "string \<Rightarrow> bool" where
  "tight s \<longleftrightarrow> list_all (\<lambda>c. 32 < code c \<and> code c < 127) s"

lemma tight_not_space: "tight s \<Longrightarrow> c \<in> set s \<Longrightarrow> \<not> is_whitespace c"
  by (auto simp: tight_def list_all_iff is_whitespace_def)

lemma trim_end_word: "s \<noteq> [] \<Longrightarrow> \<not> is_whitespace (last s) \<Longrightarrow> trim_end s = s"
  by (cases s rule: rev_cases) (auto simp: trim_end_def)

lemma trim_end_tight: "tight s \<Longrightarrow> trim_end s = s"
  by (cases "s = []") (auto simp: trim_end_word tight_not_space, simp add: trim_end_def)

lemma trim_tight [simp]: "tight s \<Longrightarrow> trim s = s"
proof -
  assume s: "tight s"
  then have "dropWhile is_whitespace s = s" using tight_not_space by (cases s) auto
  with s show ?thesis by (simp add: trim_def trim_end_tight)
qed

lemma trim_end_snoc_tight: "tight s \<Longrightarrow> s \<noteq> [] \<Longrightarrow> trim_end (a @ s) = a @ s"
  by (rule trim_end_word) (auto simp: tight_not_space)

lemma item_args_word: "item_args (keyword @ CHR '' '' # v) keyword = Some (trim_end v)"
  by (simp add: item_args_def strip_prefix_def)

lemma item_args_none: "\<not> starts_with keyword l \<Longrightarrow> item_args l keyword = None"
  by (simp add: item_args_def strip_prefix_def)

lemma find_map_none: "list_all (\<lambda>x. f x = None) xs \<Longrightarrow> find_map f xs = None"
  by (induction xs) auto

lemma find_map_skip: "list_all (\<lambda>x. f x = None) xs \<Longrightarrow> find_map f (xs @ ys) = find_map f ys"
  by (induction xs) auto

lemma tight_base64 [simp]: "tight (base64_encode_unpadded bs)"
proof -
  have "list_all (\<lambda>c. 32 < code c \<and> code c < 127) B64_ALPHABET" by (simp add: B64_ALPHABET_def code_def)
  then show ?thesis using base64_alphabet [of bs] by (auto simp: tight_def list_all_iff)
qed

lemma tight_digits [simp]: "tight (nat_digits n)"
  by (auto simp: tight_def list_all_iff is_digit_def dest!: nat_digits_digits)

lemma base64_no_keyword: "CHR ''-'' \<in> set keyword \<Longrightarrow> \<not> starts_with keyword (base64_encode_unpadded bs)"
  using base64_no_dash by (metis in_set_takeD)

lemma base64_nonempty: "bs \<noteq> [] \<Longrightarrow> base64_encode_unpadded bs \<noteq> []"
  using base64_decode_encode [of bs] base64_decode_encode [of "[]"] by auto

section \<open>Text that survives a layer\<close>

definition printable_line :: "string \<Rightarrow> bool" where
  "printable_line l \<longleftrightarrow> list_all (\<lambda>c. 32 \<le> code c \<and> code c < 127) l"

lemma printable_plain: "printable_line l \<Longrightarrow> plain_line l"
proof -
  assume l: "printable_line l"
  then have "32 \<le> code c" if "c \<in> set l" for c using that by (simp add: printable_line_def list_all_iff)
  moreover have "code newline = 10" "code carriage_return = 13" by (simp_all add: code_def)
  ultimately show ?thesis unfolding plain_line_def by (metis last_in_set le_numeral_extra(4) numeral_le_iff semiring_norm(68,69,71,72))
qed

lemma tight_printable: "tight l \<Longrightarrow> printable_line l"
  by (auto simp: tight_def printable_line_def list_all_iff)

lemma printable_append [simp]: "printable_line (a @ b) \<longleftrightarrow> printable_line a \<and> printable_line b"
  by (simp add: printable_line_def)

lemma printable_Cons [simp]: "printable_line (c # l) \<longleftrightarrow> 32 \<le> code c \<and> code c < 127 \<and> printable_line l"
  by (simp add: printable_line_def)

lemma printable_Nil [simp]: "printable_line []"
  by (simp add: printable_line_def)

lemma doc_ascii: "list_all printable_line ls \<Longrightarrow> list_all (\<lambda>c. code c < 128) (doc_of ls)"
  by (induction ls) (auto simp: printable_line_def list_all_iff code_def)

lemma doc_of_survives:
  assumes "list_all printable_line ls" "ls \<noteq> []"
  shows "valid_utf8 (as_bytes (doc_of ls))" "doc_of ls \<noteq> []" "last (as_bytes (doc_of ls)) \<noteq> 0"
proof -
  have "unat b < 128" if "b \<in> set (as_bytes (doc_of ls))" for b
    using that doc_ascii [OF assms(1)] by (auto simp: list_all_iff)
  then show "valid_utf8 (as_bytes (doc_of ls))" by (rule valid_utf8_ascii)
  obtain xs x where "ls = xs @ [x]" using assms(2) by (cases ls rule: rev_cases) auto
  then show "doc_of ls \<noteq> []" "last (as_bytes (doc_of ls)) \<noteq> 0" by (simp_all add: code_def)
qed

lemma layer_reads_back:
  assumes "desc_prims_ok P" "length salt = 16" "list_all printable_line ls" "ls \<noteq> []"
  shows "decrypt_layer P (seal_layer P salt secret_data subcredential revision string_constant (as_bytes (doc_of ls) @ replicate fill 0))
     secret_data subcredential revision string_constant = Inr (doc_of ls)"
  unfolding layer_opens_iff [OF assms(1)] using assms(2) doc_of_survives [OF assms(3,4)]
  by (intro exI [of _ salt] exI [of _ fill]) auto

section \<open>Certificates a service signs\<close>

definition certify :: "(bytes \<Rightarrow> bytes \<Rightarrow> bytes) \<Rightarrow> u8 \<Rightarrow> nat \<Rightarrow> bytes \<Rightarrow> bytes \<Rightarrow> bytes" where
  "certify sign t hours signer key =
     cert_bytes t hours KEY_TYPE_ED25519 key (Some signer) (sign signer (cert_bytes t hours KEY_TYPE_ED25519 key (Some signer) []))"

definition signs_for :: "verifier \<Rightarrow> (bytes \<Rightarrow> bytes \<Rightarrow> bytes) \<Rightarrow> bool" where
  "signs_for verify sign \<longleftrightarrow> (\<forall>k m. verify k m (sign k m) \<and> length (sign k m) = 64)"

lemma certify_accepted:
  assumes "signs_for verify sign" "hours \<le> u32_max" "now_unix < hours * 3600" "length signer = 32" "length key = 32"
  obtains cert where "ed_cert_parse (certify sign t hours signer key) = Inr cert" "hs_certified_key verify cert t signer now_unix = Inr key"
proof -
  let ?u = "cert_bytes t hours KEY_TYPE_ED25519 key (Some signer) []"
  have split: "certify sign t hours signer key = ?u @ sign signer ?u" by (simp add: certify_def cert_bytes_def)
  have s: "length (sign signer ?u) = 64" "verify signer ?u (sign signer ?u)" using assms(1) by (simp_all add: signs_for_def)
  let ?c = "\<lparr>cert_type = t, expiration_hours = hours, cert_key_type = KEY_TYPE_ED25519, certified_key = key,
    ed25519_cert.signing_key = Some signer, signed_portion = ?u, cert_signature = sign signer ?u\<rparr>"
  have "ed_cert_parse (certify sign t hours signer key) = Inr ?c"
    using ed_cert_parse_bytes [of hours key "sign signer ?u" "Some signer" t KEY_TYPE_ED25519] assms(2,4,5) s(1)
    by (simp flip: certify_def add: split)
  moreover have "hs_certified_key verify ?c t signer now_unix = Inr key"
    using assms(3) s(2) by (simp add: hs_certified_key_Inr)
  ultimately show thesis by (rule that)
qed

section \<open>Introduction points\<close>

definition intro_lines :: "(bytes \<Rightarrow> bytes \<Rightarrow> bytes) \<Rightarrow> nat \<Rightarrow> bytes \<Rightarrow> intro_point \<Rightarrow> string list" where
  "intro_lines sign hours signer p =
     [''introduction-point '' @ base64_encode_unpadded (link_specifiers (ip_relay p)),
      ''onion-key ntor '' @ base64_encode_unpadded (ntor_onion_key (ip_relay p)),
      ''auth-key''] @
     pem_lines ''ED25519 CERT'' (certify sign CERT_TYPE_HS_INTRO_AUTH hours signer (ip_auth_key p)) @
     [''enc-key ntor '' @ base64_encode_unpadded (ip_enc_key p), ''enc-key-cert''] @
     pem_lines ''ED25519 CERT'' (certify sign CERT_TYPE_HS_INTRO_ENC hours signer (ip_enc_key p))"

definition intro_point_wf :: "intro_point \<Rightarrow> bool" where
  "intro_point_wf p \<longleftrightarrow> relay_info_wf (ip_relay p) \<and> length (ntor_onion_key (ip_relay p)) = 32 \<and>
     length (ip_auth_key p) = 32 \<and> length (ip_enc_key p) = 32"

lemma printable_base64 [simp]: "printable_line (base64_encode_unpadded bs)"
  by (simp add: tight_printable)

lemma printable_pem: "list_all printable_line (pem_lines ''ED25519 CERT'' bs)" "list_all printable_line (pem_lines ''MESSAGE'' bs)"
  by (simp_all add: pem_lines_def pem_begin_def pem_end_def code_def)

lemma intro_lines_printable: "list_all printable_line (intro_lines sign hours signer p)"
  by (simp add: intro_lines_def printable_pem) (simp add: code_def)

lemma intro_lines_plain: "list_all plain_line (intro_lines sign hours signer p)"
  using intro_lines_printable printable_plain by (metis list.pred_mono_strong)

lemma base64_fixed_trimmed: "length k = 32 \<Longrightarrow> base64_fixed 32 (trim (base64_encode_unpadded k)) = Inr k"
  by (simp add: base64_fixed_def base64_decode_encode)

lemma split_once_word: "split_once (CHR '' '') (''ntor '' @ v) = Some (''ntor'', v)"
  by simp

lemma keyed_value_found:
  assumes "list_all plain_line (pre @ (keyword @ '' ntor '' @ base64_encode_unpadded k) # post)"
    "list_all (\<lambda>l. \<not> starts_with keyword l) pre" "length k = 32"
  shows "keyed_value (doc_of (pre @ (keyword @ '' ntor '' @ base64_encode_unpadded k) # post)) keyword ''ntor'' = Some k"
proof -
  have "base64_encode_unpadded k \<noteq> []" using assms(3) by (intro base64_nonempty) auto
  then have "item_args (keyword @ '' ntor '' @ base64_encode_unpadded k) keyword = Some (''ntor '' @ base64_encode_unpadded k)"
    using item_args_word [of keyword "''ntor '' @ base64_encode_unpadded k"] trim_end_snoc_tight [of "base64_encode_unpadded k" "''ntor ''"] by simp
  moreover have "list_all (\<lambda>l. item_args l keyword = None) pre" using assms(2) by (simp add: list_all_iff item_args_none)
  ultimately show ?thesis
    unfolding keyed_value_def lines_doc_of [OF assms(1)]
    by (subst find_map_skip) (auto simp: list_all_iff base64_fixed_trimmed [OF assms(3)] simp del: trim_tight)
qed

lemma pem_no_keyword:
  assumes "CHR ''-'' \<in> set keyword" "hd keyword \<noteq> CHR ''-''"
  shows "list_all (\<lambda>l. \<not> starts_with keyword l) (pem_lines label bs)"
proof -
  have "\<not> starts_with keyword (CHR ''-'' # l)" for l using assms by (cases keyword) auto
  then show ?thesis using base64_no_keyword [OF assms(1)] by (simp add: pem_lines_def pem_begin_def pem_end_def)
qed

lemma parse_intro_lines:
  assumes "signs_for verify sign" "hours \<le> u32_max" "now_unix < hours * 3600" "length signer = 32" "intro_point_wf p"
  shows "parse_intro_point verify (doc_of (intro_lines sign hours signer p)) signer now_unix = Inr p"
proof -
  let ?b = base64_encode_unpadded and ?r = "ip_relay p" and ?pem = "pem_lines ''ED25519 CERT''"
  let ?auth = "certify sign CERT_TYPE_HS_INTRO_AUTH hours signer (ip_auth_key p)"
  let ?enc = "certify sign CERT_TYPE_HS_INTRO_ENC hours signer (ip_enc_key p)"
  let ?l1 = "''introduction-point '' @ ?b (link_specifiers ?r)" and ?l2 = "''onion-key ntor '' @ ?b (ntor_onion_key ?r)"
  let ?l3 = "''enc-key ntor '' @ ?b (ip_enc_key p)"
  from assms(5) have wf: "relay_info_wf ?r" "length (ntor_onion_key ?r) = 32" "length (ip_auth_key p) = 32" "length (ip_enc_key p) = 32"
    by (auto simp: intro_point_wf_def)
  have ls: "intro_lines sign hours signer p = [?l1, ?l2, ''auth-key''] @ ?pem ?auth @ [?l3, ''enc-key-cert''] @ ?pem ?enc"
    by (simp add: intro_lines_def)
  note plain = intro_lines_plain [of sign hours signer p, unfolded ls]
  have "item (doc_of ([?l1, ?l2, ''auth-key''] @ ?pem ?auth @ [?l3, ''enc-key-cert''] @ ?pem ?enc)) ''introduction-point'' = Some (?b (link_specifiers ?r))"
    unfolding item_doc_of [OF plain] using item_args_word [of "''introduction-point''" "?b (link_specifiers ?r)"] by (simp add: trim_end_tight)
  moreover have "keyed_value (doc_of ([?l1] @ (''onion-key'' @ '' ntor '' @ ?b (ntor_onion_key ?r)) # [''auth-key''] @ ?pem ?auth @ [?l3, ''enc-key-cert''] @ ?pem ?enc)) ''onion-key'' ''ntor'' = Some (ntor_onion_key ?r)"
    using plain wf(2) by (intro keyed_value_found) simp_all
  moreover have "item_object (doc_of ([?l1, ?l2] @ ''auth-key'' # ?pem ?auth @ [?l3, ''enc-key-cert''] @ ?pem ?enc)) ''auth-key'' ''ED25519 CERT'' = Inr ?auth"
    using plain by (intro item_object_doc) simp_all
  moreover have "keyed_value (doc_of (([?l1, ?l2, ''auth-key''] @ ?pem ?auth) @ (''enc-key'' @ '' ntor '' @ ?b (ip_enc_key p)) # [''enc-key-cert''] @ ?pem ?enc)) ''enc-key'' ''ntor'' = Some (ip_enc_key p)"
    using plain wf(4) pem_no_keyword [of "''enc-key''"] by (intro keyed_value_found) simp_all
  moreover have "item_object (doc_of (([?l1, ?l2, ''auth-key''] @ ?pem ?auth @ [?l3]) @ ''enc-key-cert'' # ?pem ?enc @ [])) ''enc-key-cert'' ''ED25519 CERT'' = Inr ?enc"
    using plain pem_no_keyword [of "''enc-key-cert''"] by (intro item_object_doc) simp_all
  moreover obtain ac where "ed_cert_parse ?auth = Inr ac" "hs_certified_key verify ac CERT_TYPE_HS_INTRO_AUTH signer now_unix = Inr (ip_auth_key p)"
    using certify_accepted [OF assms(1-4) wf(3)] by blast
  moreover obtain ec where "ed_cert_parse ?enc = Inr ec" "hs_certified_key verify ec CERT_TYPE_HS_INTRO_ENC signer now_unix = Inr (ip_enc_key p)"
    using certify_accepted [OF assms(1-4) wf(4)] by blast
  ultimately show ?thesis
    unfolding ls parse_intro_point_def
    by (simp add: base64_decode_encode link_specifiers_roundtrip [OF wf(1)])
qed

section \<open>Cutting the inner document\<close>

fun block_starts :: "nat \<Rightarrow> string list list \<Rightarrow> nat list" where
  "block_starts n [] = []"
| "block_starts n (b # bs) = n # block_starts (n + length (doc_of b)) bs"

abbreviation intro_word :: string where "intro_word \<equiv> ''introduction-point ''"

definition intro_block :: "string list \<Rightarrow> bool" where
  "intro_block b \<longleftrightarrow> b \<noteq> [] \<and> list_all plain_line b \<and> starts_with intro_word (hd b) \<and> list_all (\<lambda>l. \<not> starts_with intro_word l) (tl b)"

lemma doc_of_eq_Nil [simp]: "doc_of ls = [] \<longleftrightarrow> ls = []"
  by (cases ls) auto

lemma doc_of_concat: "doc_of (concat bs) = concat (map doc_of bs)"
  by (induction bs) auto

lemma intro_starts_blocks:
  "list_all intro_block bs \<Longrightarrow> list_all plain_line pre \<Longrightarrow> list_all (\<lambda>l. \<not> starts_with intro_word l) pre \<Longrightarrow>
   intro_starts (length a) (a @ doc_of pre @ doc_of (concat bs)) = block_starts (length a + length (doc_of pre)) bs"
proof (induction bs arbitrary: a pre)
  case Nil
  then have "line_start_of (doc_of pre) intro_word = None" by (intro line_start_of_none) simp_all
  then show ?case by (subst intro_starts.simps) simp
next
  case (Cons b bs)
  from Cons.prems have bs: "list_all intro_block bs" and "intro_block b" by simp_all
  then obtain l ls where b: "b = l # ls" "starts_with intro_word l" "plain_line l" "list_all plain_line ls"
    "list_all (\<lambda>l. \<not> starts_with intro_word l) ls"
    by (cases b) (auto simp: intro_block_def)
  let ?rest = "doc_of ls @ doc_of (concat bs)" and ?here = "length a + length (doc_of pre)"
  let ?text = "a @ doc_of pre @ doc_of (concat (b # bs))"
  have t: "?text = (a @ doc_of pre @ l @ [newline]) @ ?rest" by (simp add: b)
  have "line_start_of (doc_of pre @ l @ newline # ?rest) intro_word = Some (length (doc_of pre))"
    using Cons.prems b by (intro line_start_of_doc) simp_all
  then have at: "line_start_of (drop (length a) ?text) intro_word = Some (length (doc_of pre))" by (simp add: b)
  have nl: "find_str [newline] (drop ?here ?text) = Some (length l)"
    using find_newline [of l ?rest] b(3) by (simp add: b(1) plain_line_def)
  have step: "intro_starts (length a) ?text =
      (if ?rest = [] then [?here] else ?here # intro_starts (length (a @ doc_of pre @ l @ [newline])) ?text)"
    by (subst intro_starts.simps, simp only: at option.case nl Let_def) (simp add: b(1) add.assoc)
  show ?case
  proof (cases "?rest = []")
    case True
    then have "bs = []" using bs by (cases bs) (auto simp: intro_block_def)
    with step True show ?thesis by simp
  next
    case False
    with step Cons.IH [OF bs b(4,5), of "a @ doc_of pre @ l @ [newline]"] show ?thesis by (auto simp: t b(1) add.assoc)
  qed
qed

lemma intro_blocks_starts:
  "intro_blocks (block_starts (length a) bs) (a @ doc_of (concat bs)) = map doc_of bs"
proof (induction bs arbitrary: a)
  case (Cons b bs)
  have "slice (length a) (case block_starts (length a + length (doc_of b)) bs of [] \<Rightarrow> length (a @ doc_of (concat (b # bs))) | n # _ \<Rightarrow> n)
      (a @ doc_of (concat (b # bs))) = doc_of b"
    by (cases bs) (simp_all add: slice_def)
  with Cons.IH [of "a @ doc_of b"] show ?case by (cases bs) simp_all
qed simp

lemma split_intro_doc:
  assumes "list_all intro_block bs" "list_all plain_line pre" "list_all (\<lambda>l. \<not> starts_with intro_word l) pre"
  shows "split_intro_points (doc_of (pre @ concat bs)) = map doc_of bs"
  using intro_starts_blocks [OF assms, of "[]"] intro_blocks_starts [of "doc_of pre" bs] by (simp add: split_intro_points_def)

lemma intro_lines_block: "intro_block (intro_lines sign hours signer p)"
  using intro_lines_plain [of sign hours signer p] pem_no_keyword [of intro_word]
  by (simp add: intro_block_def intro_lines_def)

lemma intro_loop_all:
  assumes "list_all (\<lambda>(b, p). parse_intro_point verify b key now_unix = Inr p) (zip blocks ps)" "length blocks = length ps"
    "length points + length ps \<le> MAX_INTRO_POINTS"
  shows "intro_loop verify key now_unix points blocks = points @ ps"
  using assms(2,1,3)
proof (induction blocks ps arbitrary: points rule: list_induct2)
  case (Cons b blocks p ps)
  from Cons.IH [of "points @ [p]"] Cons.prems show ?case by (cases ps) (auto simp: Let_def)
qed simp

section \<open>The published descriptor\<close>

text \<open>
  The innermost document, with the flow-control line of a service that has congestion control; the
  middle one, whose lines in front of the encrypted object belong to restricted discovery; and the
  signed outer one.
\<close>

definition flow_lines :: "nat option \<Rightarrow> string list" where
  "flow_lines flow = (case flow of None \<Rightarrow> [] | Some n \<Rightarrow> [''flow-control 1-2 '' @ nat_digits n])"

definition inner_lines :: "(bytes \<Rightarrow> bytes \<Rightarrow> bytes) \<Rightarrow> nat \<Rightarrow> bytes \<Rightarrow> nat option \<Rightarrow> intro_point list \<Rightarrow> string list" where
  "inner_lines sign hours signer flow ps = (''create2-formats 2'' # flow_lines flow) @ concat (map (intro_lines sign hours signer) ps)"

definition middle_lines :: "string list \<Rightarrow> bytes \<Rightarrow> string list" where
  "middle_lines auth_lines encrypted = auth_lines @ ''encrypted'' # pem_lines ''MESSAGE'' encrypted"

definition outer_lines :: "nat \<Rightarrow> nat \<Rightarrow> bytes \<Rightarrow> bytes \<Rightarrow> string list" where
  "outer_lines lifetime revision cert superencrypted =
     [''hs-descriptor 3'', ''descriptor-lifetime '' @ nat_digits lifetime, ''descriptor-signing-key-cert''] @
     pem_lines ''ED25519 CERT'' cert @ [''revision-counter '' @ nat_digits revision] @
     ''superencrypted'' # pem_lines ''MESSAGE'' superencrypted"

record publication =
  pub_lifetime :: nat
  pub_revision :: nat
  pub_hours :: nat
  pub_signing_key :: bytes
  pub_salts :: "bytes \<times> bytes"
  pub_fills :: "nat \<times> nat"
  pub_auth_lines :: "string list"
  pub_flow :: "nat option"
  pub_points :: "intro_point list"

definition publish :: "desc_prims \<Rightarrow> (bytes \<Rightarrow> bytes \<Rightarrow> bytes) \<Rightarrow> bytes \<Rightarrow> bytes \<Rightarrow> publication \<Rightarrow> string" where
  "publish P sign blinded subcredential d =
     (let key = pub_signing_key d;
          inner = doc_of (inner_lines sign (pub_hours d) key (pub_flow d) (pub_points d));
          encrypted = seal_layer P (fst (pub_salts d)) blinded subcredential (pub_revision d) (as_bytes ''hsdir-encrypted-data'')
            (as_bytes inner @ replicate (fst (pub_fills d)) 0);
          middle = doc_of (middle_lines (pub_auth_lines d) encrypted);
          superencrypted = seal_layer P (snd (pub_salts d)) blinded subcredential (pub_revision d) (as_bytes ''hsdir-superencrypted-data'')
            (as_bytes middle @ replicate (snd (pub_fills d)) 0);
          outer = doc_of (outer_lines (pub_lifetime d) (pub_revision d) (certify sign CERT_TYPE_HS_DESC_SIGN (pub_hours d) blinded key) superencrypted)
      in outer @ ''signature '' @ base64_encode_unpadded (sign key (SIGNATURE_PREFIX @ as_bytes outer)) @ [newline])"

definition publication_wf :: "nat \<Rightarrow> publication \<Rightarrow> bool" where
  "publication_wf now_unix d \<longleftrightarrow>
     pub_lifetime d \<le> u64_max \<and> pub_revision d \<le> u64_max \<and> pub_hours d \<le> u32_max \<and> now_unix < pub_hours d * 3600 \<and>
     length (pub_signing_key d) = 32 \<and> length (fst (pub_salts d)) = 16 \<and> length (snd (pub_salts d)) = 16 \<and>
     list_all (\<lambda>l. printable_line l \<and> \<not> starts_with ''encrypted'' l) (pub_auth_lines d) \<and>
     (\<forall>n. pub_flow d = Some n \<longrightarrow> n \<le> 255) \<and>
     pub_points d \<noteq> [] \<and> length (pub_points d) \<le> MAX_INTRO_POINTS \<and> list_all intro_point_wf (pub_points d)"

lemma flow_lines_printable: "list_all printable_line (flow_lines flow)"
  by (auto simp: flow_lines_def tight_printable code_def split: option.split)

lemma inner_lines_printable: "list_all printable_line (inner_lines sign hours signer flow ps)"
  using flow_lines_printable intro_lines_printable by (auto simp: inner_lines_def list_all_iff code_def)

lemma plain_of_printable: "list_all printable_line ls \<Longrightarrow> list_all plain_line ls"
  by (simp add: list_all_iff printable_plain)

lemma inner_no_keyword:
  assumes "keyword \<in> {''intro-auth-required'', ''flow-control''}"
  shows "list_all (\<lambda>l. item_args l keyword = None) (concat (map (intro_lines sign hours signer) ps))"
proof -
  have "list_all (\<lambda>l. \<not> starts_with keyword l) (intro_lines sign hours signer p)" for p
    using assms pem_no_keyword [of keyword] by (auto simp: intro_lines_def)
  then show ?thesis by (auto simp: list_all_iff item_args_none)
qed

lemma service_flow_reads_back: "n \<le> 255 \<Longrightarrow> service_flow_parse (''1-2 '' @ nat_digits n) = Some \<lparr>sf_max_version = 2, sf_sendme_inc = n\<rparr>"
proof -
  assume n: "n \<le> 255"
  have "split_whitespace (''1-2'' @ CHR '' '' # nat_digits n) = [''1-2'', nat_digits n]"
    using split_whitespace_word [of "''1-2''" "CHR '' ''" "nat_digits n"] split_whitespace_last [of "nat_digits n"] nat_digits_digits digit_not_space
    by (fastforce simp: is_whitespace_def code_def)
  then show ?thesis
    using parse_uint_nat_digits [OF n] by (simp add: service_flow_parse_def parse_uint_def is_digit_def code_def List.map_filter_simps)
qed

lemma inner_reads_back:
  assumes "signs_for verify sign" "hours \<le> u32_max" "now_unix < hours * 3600" "length signer = 32"
    "ps \<noteq> []" "length ps \<le> MAX_INTRO_POINTS" "list_all intro_point_wf ps"
  shows "parse_inner verify (doc_of (inner_lines sign hours signer flow ps)) signer now_unix = Inr ps"
proof -
  let ?ls = "inner_lines sign hours signer flow ps" and ?head = "''create2-formats 2'' # flow_lines flow"
  have plain: "list_all plain_line ?ls" by (rule plain_of_printable [OF inner_lines_printable])
  have "item (doc_of ?ls) ''create2-formats'' = Some ''2''"
    unfolding item_doc_of [OF plain] using item_args_word [of "''create2-formats''" "''2''"]
    by (simp add: inner_lines_def trim_end_tight tight_def code_def)
  moreover have "list_all (\<lambda>l. item_args l ''intro-auth-required'' = None) ?head"
    by (auto simp: flow_lines_def item_args_def strip_prefix_def split: option.split)
  then have "item (doc_of ?ls) ''intro-auth-required'' = None"
    unfolding item_doc_of [OF plain] unfolding inner_lines_def using inner_no_keyword by (intro find_map_none) simp
  moreover have "split_intro_points (doc_of ?ls) = map doc_of (map (intro_lines sign hours signer) ps)"
    unfolding inner_lines_def
  proof (rule split_intro_doc)
    show "list_all intro_block (map (intro_lines sign hours signer) ps)" by (simp add: list_all_iff intro_lines_block)
    show "list_all plain_line ?head" using plain by (simp add: inner_lines_def)
    show "list_all (\<lambda>l. \<not> starts_with intro_word l) ?head" by (auto simp: flow_lines_def split: option.split)
  qed
  moreover have "intro_loop verify signer now_unix [] (map doc_of (map (intro_lines sign hours signer) ps)) = [] @ ps"
    using assms(6,7) parse_intro_lines [OF assms(1-4)] by (intro intro_loop_all) (auto simp: list_all_iff set_zip)
  moreover have "''2'' \<in> set (split_whitespace ''2'')" by (simp add: split_whitespace_def is_whitespace_def code_def)
  ultimately show ?thesis using assms(5) by (simp add: parse_inner_def Let_def)
qed

lemma inner_flow_reads_back:
  assumes "\<forall>n. flow = Some n \<longrightarrow> n \<le> 255"
  shows "(case item (doc_of (inner_lines sign hours signer flow ps)) ''flow-control'' of None \<Rightarrow> None | Some args \<Rightarrow> service_flow_parse args) =
     map_option (\<lambda>n. \<lparr>sf_max_version = 2, sf_sendme_inc = n\<rparr>) flow"
proof (cases flow)
  case None
  then show ?thesis
    unfolding item_doc_of [OF plain_of_printable [OF inner_lines_printable]] unfolding inner_lines_def
    using find_map_none [OF inner_no_keyword, of "''flow-control''" sign hours signer ps]
    by (simp add: flow_lines_def item_args_def strip_prefix_def)
next
  case (Some n)
  have "item_args (''flow-control'' @ CHR '' '' # ''1-2 '' @ nat_digits n) ''flow-control'' = Some (''1-2 '' @ nat_digits n)"
    unfolding item_args_word by (simp only: trim_end_snoc_tight tight_digits nat_digits_not_Nil not_False_eq_True)
  with Some assms service_flow_reads_back [of n] show ?thesis
    unfolding item_doc_of [OF plain_of_printable [OF inner_lines_printable]] unfolding inner_lines_def
    by (simp add: flow_lines_def item_args_def strip_prefix_def)
qed

lemma length_seal_layer:
  "desc_prims_ok P \<Longrightarrow> length (seal_layer P salt s sub revision const plain) = length salt + length plain + 32"
  by (simp add: seal_layer_def Let_def layer_mac_def desc_prims_okD)

lemma base64_not_short: "16 \<le> length bs \<Longrightarrow> 10 < length (base64_encode_unpadded bs)"
proof -
  have "length bs \<le> length (base64_encode_unpadded bs)" for bs
    by (induction bs rule: base64_encode_unpadded.induct) (simp_all add: b64_group_def Let_def)
  then show "16 \<le> length bs \<Longrightarrow> ?thesis" by (meson le_trans less_le_trans numeral_less_iff semiring_norm(76,78,81))
qed

lemma item_args_long_base64: "10 < length (base64_encode_unpadded bs) \<Longrightarrow> item_args (base64_encode_unpadded bs) ''signature'' = None"
proof -
  let ?b = "base64_encode_unpadded bs"
  assume long: "10 < length ?b"
  have "CHR '' '' \<notin> set ?b" using tight_not_space [of ?b "CHR '' ''"] by (auto simp: is_whitespace_def code_def)
  then show ?thesis
    using long in_set_dropD [of "CHR '' ''" "length ''signature''" ?b]
    by (cases "drop (length ''signature'') ?b") (auto simp: item_args_def strip_prefix_def simp del: list.size, simp)
qed

lemma hd_base64_one: "\<not> starts_with ''superencrypted'' (base64_encode_unpadded (1 # b # c # bs))"
proof -
  have "(65536 + unat b * 256 + unat c) div 262144 mod 64 = 0"
  proof -
    have "65536 + unat b * 256 + unat c < 262144" using unat_u8_less [of b] unat_u8_less [of c] by linarith
    then show ?thesis by simp
  qed
  then show ?thesis by (simp add: b64_group_def Let_def B64_ALPHABET_def)
qed

lemma signature_line:
  assumes "list_all printable_line ls" "list_all (\<lambda>l. \<not> starts_with ''signature '' l \<and> item_args l ''signature'' = None) ls"
    "verify key (SIGNATURE_PREFIX @ as_bytes (doc_of ls)) sig"
  shows "check_desc_signature verify (doc_of (ls @ [''signature '' @ base64_encode_unpadded sig])) key = Inr ()"
proof -
  let ?l = "''signature '' @ base64_encode_unpadded sig"
  have plain: "list_all plain_line (ls @ [?l])" using plain_of_printable [of "ls @ [?l]"] assms(1) by (simp add: code_def)
  have "line_start_of (doc_of ls @ ?l @ newline # []) ''signature '' = Some (length (doc_of ls))"
    using plain assms(2) by (intro line_start_of_doc) (auto simp: list_all_iff)
  moreover have "item_args ?l ''signature'' = Some (base64_encode_unpadded sig)"
    using item_args_word [of "''signature''" "base64_encode_unpadded sig"] by (simp add: trim_end_tight)
  then have "item (doc_of (ls @ [?l])) ''signature'' = Some (base64_encode_unpadded sig)"
    unfolding item_doc_of [OF plain] using assms(2) by (subst find_map_skip) (auto simp: list_all_iff)
  ultimately show ?thesis using assms(3) by (simp add: check_desc_signature_def base64_decode_encode)
qed

lemma no_space_no_keyword: "CHR '' '' \<in> set keyword \<Longrightarrow> \<not> starts_with keyword (base64_encode_unpadded bs)"
  using tight_not_space [OF tight_base64, of "CHR '' ''" bs] in_set_takeD [of "CHR '' ''" "length keyword" "base64_encode_unpadded bs"]
  by (auto simp: is_whitespace_def code_def)

lemma outer_no_signature:
  assumes "16 \<le> length cert" "16 \<le> length sealed"
  shows "list_all (\<lambda>l. \<not> starts_with ''signature '' l \<and> item_args l ''signature'' = None) (outer_lines lifetime revision cert sealed)"
  using no_space_no_keyword [of "''signature ''"] item_args_long_base64 [OF base64_not_short [OF assms(1)]] item_args_long_base64 [OF base64_not_short [OF assms(2)]]
  by (simp add: outer_lines_def pem_lines_def pem_begin_def pem_end_def item_args_none)

lemma outer_lines_printable: "list_all printable_line (outer_lines lifetime revision cert sealed)"
  by (simp add: outer_lines_def printable_pem tight_printable) (simp add: code_def)

text \<open>What the outer document's items are.\<close>

lemma outer_items:
  fixes lifetime revision cert sealed
  defines "ls \<equiv> outer_lines lifetime revision cert sealed"
  assumes "lifetime \<le> u64_max" "revision \<le> u64_max" "cert = 1 # b # c # bs" "plain_line l"
  shows "item (doc_of (ls @ [l])) ''hs-descriptor'' = Some ''3''"
    "usable_number (doc_of (ls @ [l])) ''descriptor-lifetime'' = Some lifetime"
    "usable_number (doc_of (ls @ [l])) ''revision-counter'' = Some revision"
    "item_object (doc_of (ls @ [l])) ''descriptor-signing-key-cert'' ''ED25519 CERT'' = Inr cert"
    "item_object (doc_of (ls @ [l])) ''superencrypted'' ''MESSAGE'' = Inr sealed"
proof -
  have plain: "list_all plain_line (ls @ [l])" using plain_of_printable [OF outer_lines_printable] assms(5) by (simp add: ls_def)
  let ?n = nat_digits
  show "item (doc_of (ls @ [l])) ''hs-descriptor'' = Some ''3''"
    unfolding item_doc_of [OF plain] using item_args_word [of "''hs-descriptor''" "''3''"]
    by (simp add: ls_def outer_lines_def trim_end_tight tight_def code_def)
  have "item (doc_of (ls @ [l])) ''descriptor-lifetime'' = Some (?n lifetime)"
    unfolding item_doc_of [OF plain] using item_args_word [of "''descriptor-lifetime''" "?n lifetime"]
    by (simp add: ls_def outer_lines_def trim_end_tight item_args_none [of _ "''hs-descriptor 3''"])
  then show "usable_number (doc_of (ls @ [l])) ''descriptor-lifetime'' = Some lifetime"
    using assms(2) by (simp add: usable_number_def parse_uint_nat_digits)
  have "list_all (\<lambda>x. item_args x ''revision-counter'' = None)
      ([''hs-descriptor 3'', ''descriptor-lifetime '' @ ?n lifetime, ''descriptor-signing-key-cert''] @ pem_lines ''ED25519 CERT'' cert)"
    using pem_no_keyword [of "''revision-counter''" "''ED25519 CERT''" cert] by (simp add: list_all_iff item_args_none)
  then have "item (doc_of (ls @ [l])) ''revision-counter'' = Some (?n revision)"
    unfolding item_doc_of [OF plain] unfolding ls_def outer_lines_def append_assoc [symmetric]
    using item_args_word [of "''revision-counter''" "?n revision"] by (simp add: find_map_skip trim_end_tight)
  then show "usable_number (doc_of (ls @ [l])) ''revision-counter'' = Some revision"
    using assms(3) by (simp add: usable_number_def parse_uint_nat_digits)
  have "item_object (doc_of ([''hs-descriptor 3'', ''descriptor-lifetime '' @ ?n lifetime] @ ''descriptor-signing-key-cert'' # pem_lines ''ED25519 CERT'' cert @
      ([''revision-counter '' @ ?n revision] @ ''superencrypted'' # pem_lines ''MESSAGE'' sealed @ [l]))) ''descriptor-signing-key-cert'' ''ED25519 CERT'' = Inr cert"
    using plain by (intro item_object_doc) (simp_all add: ls_def outer_lines_def)
  then show "item_object (doc_of (ls @ [l])) ''descriptor-signing-key-cert'' ''ED25519 CERT'' = Inr cert"
    by (simp add: ls_def outer_lines_def)
  have "item_object (doc_of (([''hs-descriptor 3'', ''descriptor-lifetime '' @ ?n lifetime, ''descriptor-signing-key-cert''] @ pem_lines ''ED25519 CERT'' cert @
      [''revision-counter '' @ ?n revision]) @ ''superencrypted'' # pem_lines ''MESSAGE'' sealed @ [l])) ''superencrypted'' ''MESSAGE'' = Inr sealed"
    using plain hd_base64_one [of b c bs] assms(4)
    by (intro item_object_doc) (simp_all add: ls_def outer_lines_def pem_lines_def pem_begin_def pem_end_def)
  then show "item_object (doc_of (ls @ [l])) ''superencrypted'' ''MESSAGE'' = Inr sealed"
    by (simp add: ls_def outer_lines_def)
qed

lemma publish_lines:
  obtains sealed sig cert encrypted where
    "publish P sign blinded subcredential d = doc_of (outer_lines (pub_lifetime d) (pub_revision d) cert sealed @ [''signature '' @ base64_encode_unpadded sig])"
    "cert = certify sign CERT_TYPE_HS_DESC_SIGN (pub_hours d) blinded (pub_signing_key d)"
    "sig = sign (pub_signing_key d) (SIGNATURE_PREFIX @ as_bytes (doc_of (outer_lines (pub_lifetime d) (pub_revision d) cert sealed)))"
    "sealed = seal_layer P (snd (pub_salts d)) blinded subcredential (pub_revision d) (as_bytes ''hsdir-superencrypted-data'')
       (as_bytes (doc_of (middle_lines (pub_auth_lines d) encrypted)) @ replicate (snd (pub_fills d)) 0)"
    "encrypted = seal_layer P (fst (pub_salts d)) blinded subcredential (pub_revision d) (as_bytes ''hsdir-encrypted-data'')
       (as_bytes (doc_of (inner_lines sign (pub_hours d) (pub_signing_key d) (pub_flow d) (pub_points d))) @ replicate (fst (pub_fills d)) 0)"
  by (rule that) (simp_all add: publish_def Let_def)

lemma certify_starts: "\<exists>b c bs. certify sign t hours signer key = 1 # b # c # bs"
  by (simp add: certify_def cert_bytes_def u32_to_be_def)

lemma middle_lines_printable: "list_all printable_line ls \<Longrightarrow> list_all printable_line (middle_lines ls e)"
  by (simp add: middle_lines_def printable_pem) (simp add: code_def)

lemma middle_object:
  assumes "list_all (\<lambda>l. printable_line l \<and> \<not> starts_with ''encrypted'' l) ls"
  shows "item_object (doc_of (middle_lines ls e)) ''encrypted'' ''MESSAGE'' = Inr e"
  using item_object_doc [of "''encrypted''" "''MESSAGE''" ls "''encrypted''" e "[]"] assms
  by (simp add: middle_lines_def list_all_iff printable_plain) (simp add: plain_line_def)

lemma publish_parses:
  assumes P: "desc_prims_ok P" and sign: "signs_for (dp_verify P) sign" and blinded: "length blinded = 32" and wf: "publication_wf now_unix d"
  shows "descriptor_parse P (publish P sign blinded subcredential d) blinded subcredential now_unix =
    Inr \<lparr>lifetime_minutes = pub_lifetime d, revision_counter = pub_revision d, intro_points = pub_points d,
         service_flow_control = map_option (\<lambda>n. \<lparr>sf_max_version = 2, sf_sendme_inc = n\<rparr>) (pub_flow d)\<rparr>"
proof -
  obtain sealed sig cert encrypted where t: "publish P sign blinded subcredential d =
      doc_of (outer_lines (pub_lifetime d) (pub_revision d) cert sealed @ [''signature '' @ base64_encode_unpadded sig])"
    and cert: "cert = certify sign CERT_TYPE_HS_DESC_SIGN (pub_hours d) blinded (pub_signing_key d)"
    and sig: "sig = sign (pub_signing_key d) (SIGNATURE_PREFIX @ as_bytes (doc_of (outer_lines (pub_lifetime d) (pub_revision d) cert sealed)))"
    and sealed: "sealed = seal_layer P (snd (pub_salts d)) blinded subcredential (pub_revision d) (as_bytes ''hsdir-superencrypted-data'')
       (as_bytes (doc_of (middle_lines (pub_auth_lines d) encrypted)) @ replicate (snd (pub_fills d)) 0)"
    and encrypted: "encrypted = seal_layer P (fst (pub_salts d)) blinded subcredential (pub_revision d) (as_bytes ''hsdir-encrypted-data'')
       (as_bytes (doc_of (inner_lines sign (pub_hours d) (pub_signing_key d) (pub_flow d) (pub_points d))) @ replicate (fst (pub_fills d)) 0)"
    by (rule publish_lines)
  from wf have w: "pub_lifetime d \<le> u64_max" "pub_revision d \<le> u64_max" "pub_hours d \<le> u32_max" "now_unix < pub_hours d * 3600"
    "length (pub_signing_key d) = 32" "length (fst (pub_salts d)) = 16" "length (snd (pub_salts d)) = 16"
    "list_all (\<lambda>l. printable_line l \<and> \<not> starts_with ''encrypted'' l) (pub_auth_lines d)"
    "\<forall>n. pub_flow d = Some n \<longrightarrow> n \<le> 255" "pub_points d \<noteq> []" "length (pub_points d) \<le> MAX_INTRO_POINTS" "list_all intro_point_wf (pub_points d)"
    unfolding publication_wf_def by blast+
  obtain b c bs where c1: "cert = 1 # b # c # bs" using certify_starts cert by metis
  have last: "plain_line (''signature '' @ base64_encode_unpadded sig)" by (rule printable_plain) (simp add: code_def)
  note items = outer_items [OF w(1,2) c1 last, where sealed = sealed]
  obtain cc where cc: "ed_cert_parse cert = Inr cc" "hs_certified_key (dp_verify P) cc CERT_TYPE_HS_DESC_SIGN blinded now_unix = Inr (pub_signing_key d)"
    using certify_accepted [OF sign w(3,4) blinded w(5)] cert by blast
  have "16 \<le> length cert" using blinded w(5) by (simp add: cert certify_def cert_bytes_def)
  moreover have "16 \<le> length sealed" using P w(7) by (simp add: sealed length_seal_layer)
  ultimately have signed: "check_desc_signature (dp_verify P)
      (doc_of (outer_lines (pub_lifetime d) (pub_revision d) cert sealed @ [''signature '' @ base64_encode_unpadded sig])) (pub_signing_key d) = Inr ()"
    using sign by (intro signature_line outer_lines_printable outer_no_signature) (simp_all add: sig signs_for_def)
  have auth: "list_all printable_line (pub_auth_lines d)" using w(8) by (simp add: list_all_iff)
  have middle: "decrypt_layer P sealed blinded subcredential (pub_revision d) (as_bytes ''hsdir-superencrypted-data'') =
      Inr (doc_of (middle_lines (pub_auth_lines d) encrypted))"
    unfolding sealed using P w(7) middle_lines_printable [OF auth] by (rule layer_reads_back) (simp add: middle_lines_def)
  have inner: "decrypt_layer P encrypted blinded subcredential (pub_revision d) (as_bytes ''hsdir-encrypted-data'') =
      Inr (doc_of (inner_lines sign (pub_hours d) (pub_signing_key d) (pub_flow d) (pub_points d)))"
    unfolding encrypted using P w(6) inner_lines_printable by (rule layer_reads_back) (simp add: inner_lines_def)
  have three: "trim ''3'' = ''3''" by (simp add: tight_def code_def)
  show ?thesis
    unfolding descriptor_parse_def t
    by (simp only: items three cc signed middle inner middle_object [OF w(8)] inner_reads_back [OF sign w(3,4,5,10,11,12)] inner_flow_reads_back [OF w(9)]
        and_then_simps ok_or_simps check_def if_True simp_thms)
qed

lemma publish_refused:
  assumes "desc_prims_ok P" "signs_for (dp_verify P) sign" "length blinded = 32" "publication_wf now_unix d"
    "descriptor_parse P (publish P sign blinded subcredential d) b s t = Inr r"
  shows "b = blinded \<and> t < pub_hours d * 3600"
proof -
  obtain sealed sig cert encrypted where p: "publish P sign blinded subcredential d =
      doc_of (outer_lines (pub_lifetime d) (pub_revision d) cert sealed @ [''signature '' @ base64_encode_unpadded sig])"
    and cert: "cert = certify sign CERT_TYPE_HS_DESC_SIGN (pub_hours d) blinded (pub_signing_key d)"
    by (rule publish_lines)
  from assms(4) have w: "pub_lifetime d \<le> u64_max" "pub_revision d \<le> u64_max" "pub_hours d \<le> u32_max" "length (pub_signing_key d) = 32"
    unfolding publication_wf_def by blast+
  obtain x y zs where c1: "cert = 1 # x # y # zs" using certify_starts cert by metis
  have last: "plain_line (''signature '' @ base64_encode_unpadded sig)" by (rule printable_plain) (simp add: code_def)
  let ?u = "cert_bytes CERT_TYPE_HS_DESC_SIGN (pub_hours d) KEY_TYPE_ED25519 (pub_signing_key d) (Some blinded) []"
  have "length (sign blinded ?u) = 64" using assms(2) by (simp add: signs_for_def)
  then obtain c where c: "ed_cert_parse cert = Inr c" "ed25519_cert.signing_key c = Some blinded" "expiration_hours c = pub_hours d"
    using ed_cert_parse_bytes [of "pub_hours d" "pub_signing_key d" "sign blinded ?u" "Some blinded" CERT_TYPE_HS_DESC_SIGN KEY_TYPE_ED25519] w(3,4) assms(3)
    by (simp add: cert certify_def)
  have "item_object (publish P sign blinded subcredential d) ''descriptor-signing-key-cert'' ''ED25519 CERT'' = Inr cert"
    unfolding p by (rule outer_items(4) [OF w(1,2) c1 last])
  with assms(5) c(1) obtain key where "hs_certified_key (dp_verify P) c CERT_TYPE_HS_DESC_SIGN b t = Inr key"
    by (auto simp: descriptor_parse_def)
  with c(2,3) show ?thesis by (simp add: hs_certified_key_Inr)
qed

text \<open>
  C25: A descriptor an onion service publishes is read back as it was meant: with its lifetime, revision,
  flow control and all its introduction points in order, through both layers of encryption; and the same
  document is refused under every other blinded key, and from the hour its certificate ends.
\<close>

theorem published_descriptor_reads_back:
  assumes "desc_prims_ok P" "signs_for (dp_verify P) sign" "length blinded = 32" "publication_wf now_unix d"
  shows "descriptor_parse P (publish P sign blinded subcredential d) blinded subcredential now_unix =
     Inr \<lparr>lifetime_minutes = pub_lifetime d, revision_counter = pub_revision d, intro_points = pub_points d,
          service_flow_control = map_option (\<lambda>n. \<lparr>sf_max_version = 2, sf_sendme_inc = n\<rparr>) (pub_flow d)\<rparr> \<and>
     (\<forall>b s t. b \<noteq> blinded \<or> pub_hours d * 3600 \<le> t \<longrightarrow>
        (\<exists>e. descriptor_parse P (publish P sign blinded subcredential d) b s t = Inl e))"
proof (intro conjI allI impI)
  fix b s t assume "b \<noteq> blinded \<or> pub_hours d * 3600 \<le> t"
  then have "\<nexists>r. descriptor_parse P (publish P sign blinded subcredential d) b s t = Inr r"
    using publish_refused [OF assms] by (meson not_le)
  then show "\<exists>e. descriptor_parse P (publish P sign blinded subcredential d) b s t = Inl e"
    by (cases "descriptor_parse P (publish P sign blinded subcredential d) b s t") auto
qed (rule publish_parses [OF assms])

section \<open>A service\<close>

definition service_sign :: "bytes \<Rightarrow> bytes \<Rightarrow> bytes" where
  "service_sign k m = take 64 (k @ rev m @ replicate 64 0)"

definition service_prims :: desc_prims where
  "service_prims = \<lparr>dp_sha3 = \<lambda>m. take 32 (rev m @ replicate 32 0), dp_shake = \<lambda>m n. take n (m @ replicate n 0),
     dp_aes_ctr = \<lambda>k iv m. map (\<lambda>b. b XOR 5) m, dp_verify = \<lambda>k m s. s = service_sign k m\<rparr>"

definition demo_point :: intro_point where
  "demo_point = \<lparr>ip_relay = \<lparr>relay_ip = [10, 0, 0, 1], relay_port = 9001, rsa_identity = replicate 20 4, relay_ed_identity = Some (replicate 32 5),
     ntor_onion_key = replicate 32 6\<rparr>, ip_auth_key = replicate 32 7, ip_enc_key = replicate 32 8\<rparr>"

definition demo_publication :: publication where
  "demo_publication = \<lparr>pub_lifetime = 180, pub_revision = 42, pub_hours = 500000, pub_signing_key = replicate 32 3, pub_salts = (replicate 16 1, replicate 16 2),
     pub_fills = (100, 200), pub_auth_lines = [''desc-auth-type x25519''], pub_flow = Some 31, pub_points = [demo_point]\<rparr>"

lemma service_prims_ok: "desc_prims_ok service_prims" "signs_for (dp_verify service_prims) service_sign"
  by (auto simp: desc_prims_ok_def service_prims_def signs_for_def service_sign_def comp_def xor.assoc min_def)

lemma demo_publication_wf: "publication_wf 1700000000 demo_publication"
  by (simp add: publication_wf_def demo_publication_def demo_point_def intro_point_wf_def relay_info_wf_def MAX_INTRO_POINTS_def code_def)

theorem published_descriptor_reads_back_witness:
  "\<exists>d. descriptor_parse service_prims (publish service_prims service_sign (replicate 32 9) (replicate 32 0) demo_publication) (replicate 32 9) (replicate 32 0) 1700000000 = Inr d \<and>
     intro_points d = [demo_point] \<and> revision_counter d = 42"
  using published_descriptor_reads_back [OF service_prims_ok _ demo_publication_wf, of "replicate 32 9" "replicate 32 0"]
  by (simp add: demo_publication_def)

theorem descriptor_authentic_witness:
  "\<exists>d key. descriptor_parse service_prims (publish service_prims service_sign (replicate 32 9) (replicate 32 0) demo_publication) (replicate 32 9) (replicate 32 0) 1700000000 = Inr d \<and>
     certifies (dp_verify service_prims) CERT_TYPE_HS_DESC_SIGN (replicate 32 9) 1700000000 key \<and>
     certifies (dp_verify service_prims) CERT_TYPE_HS_INTRO_AUTH key 1700000000 (replicate 32 7)"
proof -
  have parsed: "descriptor_parse service_prims (publish service_prims service_sign (replicate 32 9) (replicate 32 0) demo_publication) (replicate 32 9) (replicate 32 0) 1700000000 =
    Inr \<lparr>lifetime_minutes = 180, revision_counter = 42, intro_points = [demo_point], service_flow_control = Some \<lparr>sf_max_version = 2, sf_sendme_inc = 31\<rparr>\<rparr>"
    using publish_parses [OF service_prims_ok _ demo_publication_wf, of "replicate 32 9" "replicate 32 0"] by (simp add: demo_publication_def)
  from descriptor_authentic [OF this] parsed show ?thesis by (auto simp: demo_point_def)
qed

end
