(* ===== verification/Stream_Replay.thy ===== *)
theory Stream_Replay
  imports Stream_State
begin

text \<open>
  The optimistic connection, \<^verbatim>\<open>TorStream\<close> of \<^verbatim>\<open>src/tor/circuit.rs\<close>: what was written before the far
  end answered is kept, and when the attempt fails for a reason that another exit may not share, the
  connection is opened again elsewhere and the kept bytes are sent again.

  How the connection is carried is an interface: sending one chunk, opening again, reading,
  releasing back-pressure. The locale \<open>carrier\<close> states what the read and write loops rely on;
  it is interpreted on the circuits and streams of \<open>Stream_State\<close>. Which circuit a reopened
  connection goes to is the client's choice, a parameter here. One handle acts at a time: a reader
  and a writer that both move the connection at once are not modelled.
\<close>

section \<open>The replay buffer\<close>

definition MAX_REPLAY_BYTES :: nat where "MAX_REPLAY_BYTES = 16 * 1024"
definition MAX_REATTACHES :: nat where "MAX_REATTACHES = 2"

record replay =
  buffered :: bytes
  allowed :: bool
  attempts :: nat

definition replay_new :: replay where
  "replay_new = \<lparr>buffered = [], allowed = True, attempts = 0\<rparr>"

fun worth_it :: "io_error \<Rightarrow> bool" where
  "worth_it (EndError k r) \<longleftrightarrow> r = END_REASON_EXITPOLICY \<or> r = END_REASON_RESOLVEFAILED \<or>
     r = END_REASON_NOROUTE \<or> r = END_REASON_TIMEOUT"
| "worth_it (IoError k m) \<longleftrightarrow> k = ConnectionAborted \<or> k = NotConnected"

definition may_retry :: "bool \<Rightarrow> io_error \<Rightarrow> replay \<Rightarrow> bool" where
  "may_retry can_move e rp \<longleftrightarrow> worth_it e \<and> can_move \<and> allowed rp \<and> attempts rp < MAX_REATTACHES"

definition record_written :: "bytes \<Rightarrow> replay \<Rightarrow> replay" where
  "record_written bs rp =
     (if \<not> allowed rp then rp
      else if length (buffered rp) + length bs > MAX_REPLAY_BYTES then rp\<lparr>allowed := False, buffered := []\<rparr>
      else rp\<lparr>buffered := buffered rp @ bs\<rparr>)"

definition note_established :: "replay \<Rightarrow> replay" where
  "note_established rp = (if allowed rp then rp\<lparr>allowed := False, buffered := []\<rparr> else rp)"

section \<open>Moving the connection\<close>

fun send_all :: "(bytes \<Rightarrow> 'w \<Rightarrow> unit io_result \<times> 'w) \<Rightarrow> bytes list \<Rightarrow> 'w \<Rightarrow> unit io_result \<times> 'w" where
  "send_all send [] w = (Inr (), w)"
| "send_all send (c # cs) w =
     (case send c w of (Inl e, w) \<Rightarrow> (Inl e, w) | (Inr _, w) \<Rightarrow> send_all send cs w)"

definition reattach ::
    "(bytes \<Rightarrow> 'w \<Rightarrow> unit io_result \<times> 'w) \<Rightarrow> ('w \<Rightarrow> unit io_result \<times> 'w) \<Rightarrow> bool \<Rightarrow> replay \<Rightarrow> 'w \<Rightarrow>
     unit io_result \<times> replay \<times> 'w" where
  "reattach send reopen can_move rp w =
     (if \<not> can_move then (Inl (IoError Other ''this stream cannot be moved''), rp, w)
      else
        let rp = rp\<lparr>attempts := attempts rp + 1\<rparr>
        in (case reopen w of
              (Inl e, w) \<Rightarrow> (Inl e, rp, w)
            | (Inr _, w) \<Rightarrow>
                (let (r, w) = send_all send (chunks_of RELAY_DATA_MAX (buffered rp)) w in (r, rp, w))))"

section \<open>Writing and reading\<close>

lemma reattach_attempts:
  "reattach send reopen can_move rp w = (Inr u, rp', w') \<Longrightarrow> rp' = rp\<lparr>attempts := attempts rp + 1\<rparr>"
  by (auto simp: reattach_def Let_def split: if_splits prod.splits sum.splits)

lemma retry_progress:
  "(Inr u, rp', w') = reattach send reopen can_move rp w \<Longrightarrow> may_retry can_move e rp \<Longrightarrow>
     MAX_REATTACHES - attempts rp' < MAX_REATTACHES - attempts rp"
  using reattach_attempts [of send reopen can_move rp w u rp' w'] by (auto simp: may_retry_def intro: diff_less_mono2)

lemma attempts_note_established [simp]: "attempts (note_established rp) = attempts rp"
  by (simp add: note_established_def)

function (sequential) write_loop ::
    "(bytes \<Rightarrow> 'w \<Rightarrow> unit io_result \<times> 'w) \<Rightarrow> ('w \<Rightarrow> unit io_result \<times> 'w) \<Rightarrow> ('w \<Rightarrow> bool) \<Rightarrow> bool \<Rightarrow> bytes \<Rightarrow>
     replay \<Rightarrow> 'w \<Rightarrow> nat io_result \<times> replay \<times> 'w" where
  "write_loop send reopen is_connected can_move chunk rp w =
     (let rp = (if is_connected w then note_established rp else rp)
      in (case send chunk w of
            (Inr _, w) \<Rightarrow> (Inr (length chunk), record_written chunk rp, w)
          | (Inl e, w) \<Rightarrow>
              if may_retry can_move e rp then
                (case reattach send reopen can_move rp w of
                   (Inl e, rp, w) \<Rightarrow> (Inl e, rp, w)
                 | (Inr _, rp, w) \<Rightarrow> write_loop send reopen is_connected can_move chunk rp w)
              else (Inl e, rp, w)))"
  by pat_completeness auto
termination
proof (relation "measure (\<lambda>(send, reopen, is_connected, can_move, chunk, rp, w). MAX_REATTACHES - attempts rp)", goal_cases)
  case prems: 2
  show ?case
    using retry_progress [OF prems(5) [unfolded prems(6) prems(7) [symmetric]] prems(4)] prems(1)
    by (simp split: if_splits)
qed simp

declare write_loop.simps [simp del]

definition write_stream ::
    "(bytes \<Rightarrow> 'w \<Rightarrow> unit io_result \<times> 'w) \<Rightarrow> ('w \<Rightarrow> unit io_result \<times> 'w) \<Rightarrow> ('w \<Rightarrow> bool) \<Rightarrow> bool \<Rightarrow> bytes \<Rightarrow>
     replay \<Rightarrow> 'w \<Rightarrow> nat io_result \<times> replay \<times> 'w" where
  "write_stream send reopen is_connected can_move bs rp w =
     (if bs = [] then (Inr 0, rp, w)
      else write_loop send reopen is_connected can_move (take RELAY_DATA_MAX bs) rp w)"

function (sequential) read_loop ::
    "(bytes \<Rightarrow> 'w \<Rightarrow> unit io_result \<times> 'w) \<Rightarrow> ('w \<Rightarrow> unit io_result \<times> 'w) \<Rightarrow> (nat \<Rightarrow> 'w \<Rightarrow> bytes io_result \<times> 'w) \<Rightarrow>
     ('w \<Rightarrow> unit io_result \<times> 'w) \<Rightarrow> bool \<Rightarrow> nat \<Rightarrow> replay \<Rightarrow> 'w \<Rightarrow> bytes io_result \<times> replay \<times> 'w" where
  "read_loop send reopen rd release can_move n rp w =
     (case rd n w of
        (Inr bs, w) \<Rightarrow>
          (let rp = note_established rp
           in (case release w of
                 (Inl e, w) \<Rightarrow> (Inl e, rp, w)
               | (Inr _, w) \<Rightarrow> (Inr bs, rp, w)))
      | (Inl e, w) \<Rightarrow>
          if may_retry can_move e rp then
            (case reattach send reopen can_move rp w of
               (Inl e, rp, w) \<Rightarrow> (Inl e, rp, w)
             | (Inr _, rp, w) \<Rightarrow> read_loop send reopen rd release can_move n rp w)
          else (Inl e, rp, w))"
  by pat_completeness auto
termination
proof (relation "measure (\<lambda>(send, reopen, rd, release, can_move, n, rp, w). MAX_REATTACHES - attempts rp)", goal_cases)
  case prems: 2
  show ?case
    using retry_progress [OF prems(4) [unfolded prems(5) prems(6) [symmetric]] prems(3)] by simp
qed simp

declare read_loop.simps [simp del]

definition read_bytes ::
    "(bytes \<Rightarrow> 'w \<Rightarrow> unit io_result \<times> 'w) \<Rightarrow> ('w \<Rightarrow> unit io_result \<times> 'w) \<Rightarrow> (nat \<Rightarrow> 'w \<Rightarrow> bytes io_result \<times> 'w) \<Rightarrow>
     ('w \<Rightarrow> unit io_result \<times> 'w) \<Rightarrow> bool \<Rightarrow> nat \<Rightarrow> replay \<Rightarrow> 'w \<Rightarrow> bytes io_result \<times> replay \<times> 'w" where
  "read_bytes send reopen rd release can_move n rp w =
     (if n = 0 then (Inr [], rp, w) else read_loop send reopen rd release can_move n rp w)"

section \<open>The interface\<close>

text \<open>
  \<open>log w\<close> is what the stream that carries the connection now has been given, in order. The laws:
  a chunk that is sent is appended, and a freshly opened stream has been given nothing.
\<close>

locale carrier =
  fixes send :: "bytes \<Rightarrow> 'w \<Rightarrow> unit io_result \<times> 'w" and reopen :: "'w \<Rightarrow> unit io_result \<times> 'w"
    and rd :: "nat \<Rightarrow> 'w \<Rightarrow> bytes io_result \<times> 'w" and release :: "'w \<Rightarrow> unit io_result \<times> 'w"
    and log :: "'w \<Rightarrow> bytes"
  assumes send_law: "send c w = (Inr (), w') \<Longrightarrow> log w' = log w @ c"
    and reopen_law: "reopen w = (Inr (), w') \<Longrightarrow> log w' = []"
    and rd_law: "rd n w = (r, w') \<Longrightarrow> log w' = log w"
    and release_law: "release w = (u, w') \<Longrightarrow> log w' = log w"
begin

definition replay_inv :: "bytes \<Rightarrow> replay \<Rightarrow> 'w \<Rightarrow> bool" where
  "replay_inv written rp w \<longleftrightarrow> log w = written \<and> (allowed rp \<longrightarrow> buffered rp = written) \<and>
     attempts rp \<le> MAX_REATTACHES \<and> length (buffered rp) \<le> MAX_REPLAY_BYTES"

lemma send_all_log: "send_all send cs w = (Inr (), w') \<Longrightarrow> log w' = log w @ concat cs"
proof (induction cs arbitrary: w)
  case (Cons c cs)
  then show ?case by (auto split: prod.splits sum.splits dest: send_law)
qed simp

lemma reattach_log:
  assumes "reattach send reopen can_move rp w = (Inr u, rp', w')"
  shows "log w' = buffered rp"
proof -
  obtain w1 where "reopen w = (Inr (), w1)" "send_all send (chunks_of RELAY_DATA_MAX (buffered rp)) w1 = (Inr (), w')"
    using assms by (auto simp: reattach_def Let_def split: if_splits prod.splits sum.splits)
  moreover have "0 < RELAY_DATA_MAX"
    by (simp add: RELAY_DATA_MAX_def RELAY_HEADER_LEN_def CELL_BODY_LEN_def)
  ultimately show ?thesis
    using reopen_law [of w w1] send_all_log [of "chunks_of RELAY_DATA_MAX (buffered rp)" w1 w']
      concat_chunks_of [of RELAY_DATA_MAX "buffered rp"] by simp
qed

lemma reattach_inv:
  assumes "reattach send reopen can_move rp w = (Inr u, rp', w')" and "may_retry can_move e rp"
    and "allowed rp \<Longrightarrow> buffered rp = written" and "length (buffered rp) \<le> MAX_REPLAY_BYTES"
  shows "replay_inv written rp' w'"
  using reattach_log [OF assms(1)] reattach_attempts [OF assms(1)] assms(2-)
  by (simp add: replay_inv_def may_retry_def)

lemma write_loop_inv:
  assumes "replay_inv written rp w" and "write_loop send reopen is_connected can_move chunk rp w = (Inr n, rp', w')"
  shows "n = length chunk \<and> replay_inv (written @ chunk) rp' w'"
  using assms
proof (induction "MAX_REATTACHES - attempts rp" arbitrary: rp w rule: less_induct)
  case less
  let ?rp = "if is_connected w then note_established rp else rp"
  have rp: "allowed ?rp \<longrightarrow> buffered ?rp = written" "attempts ?rp \<le> MAX_REATTACHES" "length (buffered ?rp) \<le> MAX_REPLAY_BYTES"
    "log w = written" "attempts ?rp = attempts rp"
    using less.prems(1) by (auto simp: replay_inv_def note_established_def)
  obtain r w1 where s: "send chunk w = (r, w1)" by fastforce
  show ?case
  proof (cases r)
    case (Inr u)
    then show ?thesis
      using less.prems(2) s rp send_law [of chunk w w1]
      by (subst (asm) write_loop.simps) (auto simp: Let_def replay_inv_def record_written_def split: if_splits)
  next
    case (Inl e)
    obtain r2 rp2 w2 where re: "reattach send reopen can_move ?rp w1 = (r2, rp2, w2)" by (metis prod_cases3)
    have retry: "may_retry can_move e ?rp" and r2: "r2 = Inr ()"
      and rest: "write_loop send reopen is_connected can_move chunk rp2 w2 = (Inr n, rp', w')"
      using less.prems(2) s Inl re
      by (subst (asm) write_loop.simps; cases r2; simp add: Let_def split: if_splits)+
    have "replay_inv written rp2 w2"
      using reattach_inv [OF re [unfolded r2] retry] rp by simp
    then show ?thesis
      using less.hyps [OF _ _ rest] retry_progress [OF re [unfolded r2, symmetric] retry] rp(5) by simp
  qed
qed

lemma read_loop_inv:
  assumes "replay_inv written rp w" and "read_loop send reopen rd release can_move n rp w = (Inr bs, rp', w')"
  shows "replay_inv written rp' w' \<and> \<not> allowed rp'"
  using assms
proof (induction "MAX_REATTACHES - attempts rp" arbitrary: rp w rule: less_induct)
  case less
  obtain r w1 where s: "rd n w = (r, w1)" by fastforce
  have l1: "log w1 = written"
    using rd_law [OF s] less.prems(1) by (simp add: replay_inv_def)
  show ?case
  proof (cases r)
    case (Inr got)
    obtain u w2 where f: "release w1 = (u, w2)" by fastforce
    show ?thesis
      using less.prems s Inr f release_law [OF f] l1
      by (subst (asm) read_loop.simps) (auto simp: Let_def replay_inv_def note_established_def split: if_splits sum.splits)
  next
    case (Inl e)
    obtain r2 rp2 w2 where re: "reattach send reopen can_move rp w1 = (r2, rp2, w2)" by (metis prod_cases3)
    have retry: "may_retry can_move e rp" and r2: "r2 = Inr ()"
      and rest: "read_loop send reopen rd release can_move n rp2 w2 = (Inr bs, rp', w')"
      using less.prems(2) s Inl re
      by (subst (asm) read_loop.simps; cases r2; simp split: if_splits)+
    have "replay_inv written rp2 w2"
      using reattach_inv [OF re [unfolded r2] retry] less.prems(1) by (simp add: replay_inv_def)
    then show ?thesis
      using less.hyps [OF _ _ rest] retry_progress [OF re [unfolded r2, symmetric] retry] by simp
  qed
qed

end

section \<open>Carried by circuits\<close>

text \<open>
  The client's circuits, and the circuit and stream the connection is on now. \<open>given\<close> records what
  that stream was given; nothing reads it.
\<close>

record connection =
  circs :: "inner list"
  on_circ :: nat
  on_ref :: nat
  given :: bytes

text \<open>
  The environment of a connection: primitives, random source, clock, and the client's choice of
  the circuit that a reopened connection goes to, with the address to ask for.
\<close>

record conn_env =
  env_crypto :: crypto
  env_rng :: "nat \<Rightarrow> bytes io_result"
  env_now :: nat
  env_pick :: "connection \<Rightarrow> nat io_result"
  env_target :: string
  env_port :: nat

definition live :: "connection \<Rightarrow> inner" where
  "live w = circs w ! on_circ w"

definition set_live :: "inner \<Rightarrow> connection \<Rightarrow> connection" where
  "set_live i w = w\<lparr>circs := (circs w)[on_circ w := i]\<rparr>"

text \<open>The outcome of \<^verbatim>\<open>send_stream_data\<close> once it returns: a wait ends at its deadline at the latest.\<close>

definition conn_send :: "conn_env \<Rightarrow> bytes \<Rightarrow> connection \<Rightarrow> unit io_result \<times> connection" where
  "conn_send E chunk w =
     (case send_stream_data (env_crypto E) (env_rng E) (env_now E) False True (on_ref w) chunk (live w) of
        (Done (Inr _), i) \<Rightarrow> (Inr (), (set_live i w)\<lparr>given := given w @ chunk\<rparr>)
      | (Done (Inl e), i) \<Rightarrow> (Inl e, set_live i w)
      | (Blocked, i) \<Rightarrow> (Inl (IoError TimedOut ''circuit send window stayed empty''), set_live i w))"

definition conn_reopen :: "conn_env \<Rightarrow> connection \<Rightarrow> unit io_result \<times> connection" where
  "conn_reopen E w =
     (case env_pick E w of
        Inl e \<Rightarrow> (Inl e, w)
      | Inr j \<Rightarrow>
          (case begin_stream (env_crypto E) (env_rng E) (env_target E) (env_port E) (circs w ! j) of
             (Inl e, i) \<Rightarrow> (Inl e, w\<lparr>circs := (circs w)[j := i]\<rparr>)
           | (Inr ref, i) \<Rightarrow> (Inr (), w\<lparr>circs := (circs w)[j := i], on_circ := j, on_ref := ref, given := []\<rparr>)))"

text \<open>A reader that has waited for its last time: a wait that never ends has no outcome to model.\<close>

definition conn_read :: "nat \<Rightarrow> connection \<Rightarrow> bytes io_result \<times> connection" where
  "conn_read n w =
     (case read_stream True False n (on_ref w) (live w) of
        (Done r, i) \<Rightarrow> (r, set_live i w)
      | (Blocked, i) \<Rightarrow> (Inl circuit_closed, set_live i w))"

definition conn_release :: "conn_env \<Rightarrow> connection \<Rightarrow> unit io_result \<times> connection" where
  "conn_release E w =
     (let (r, i) = release_backpressure (env_crypto E) (\<lambda>k. env_rng E) (on_ref w) (live w) in (r, set_live i w))"

definition conn_connected :: "connection \<Rightarrow> bool" where
  "conn_connected w = connected (buf_at (live w) (on_ref w))"

interpretation conn: carrier "conn_send E" "conn_reopen E" conn_read "conn_release E" given
  for E
proof unfold_locales
  show "conn_send E c w = (Inr (), w') \<Longrightarrow> given w' = given w @ c" for c w w'
    by (auto simp: conn_send_def split: prod.splits attempt.splits sum.splits)
  show "conn_reopen E w = (Inr (), w') \<Longrightarrow> given w' = []" for w w'
    by (auto simp: conn_reopen_def split: prod.splits sum.splits)
  show "conn_read n w = (r, w') \<Longrightarrow> given w' = given w" for n w r w'
    by (auto simp: conn_read_def set_live_def split: prod.splits attempt.splits)
  show "conn_release E w = (u, w') \<Longrightarrow> given w' = given w" for w u w'
    by (auto simp: conn_release_def set_live_def split: prod.splits)
qed

text \<open>
  What \<open>given\<close> stands for: a chunk counts as given exactly when a RELAY\_DATA cell with it went out on
  the live circuit and opens at the stream's hop.
\<close>

lemma send_relay_sent:
  assumes "send_relay C rng hop cmd sid bs early i = (Inr u, i')" and "fills rng" and "digest_sizes C"
  shows "\<exists>c. chan_sent (chan i') = chan_sent (chan i) @ [c] \<and> opens_as C (hops (cstate i)) hop c cmd sid bs"
proof -
  obtain c s where b: "build_relay_cell C rng (inner_id i) hop cmd sid bs early (cstate i) = (Inr c, s)"
    and "chan_sent (chan i') = chan_sent (chan i) @ [c]"
    using assms(1) by (auto simp: send_relay_def chan_send_def split: prod.splits sum.splits if_splits)
  then show ?thesis
    using built_cell_opens_as [OF b assms(2,3)] by blast
qed

lemma take_window_frame:
  assumes "take_window woken late r i = (res, i')"
  shows "chan i' = chan i" "cstate i' = cstate i" "length (shared i') = length (shared i)"
    "r < length (shared i) \<Longrightarrow> stream_hop (shared i' ! r) = stream_hop (shared i ! r) \<and> stream_id (shared i' ! r) = stream_id (shared i ! r)"
  using assms by (auto simp: take_window_def Let_def set_buf_def split: if_splits option.splits)

lemma conn_send_given:
  assumes "conn_send E chunk w = (Inr (), w')" and "fills (env_rng E)" and "digest_sizes (env_crypto E)"
    and "on_ref w < length (shared (live w))" and "on_circ w < length (circs w)"
  shows "given w' = given w @ chunk \<and> (\<exists>c. chan_sent (chan (live w')) = chan_sent (chan (live w)) @ [c] \<and>
     opens_as (env_crypto E) (hops (cstate (live w))) (stream_hop (shared (live w) ! on_ref w)) c RELAY_DATA
       (stream_id (shared (live w) ! on_ref w)) chunk)"
proof -
  let ?C = "env_crypto E" and ?r = "on_ref w"
  obtain i1 i2 where t: "take_window False True ?r (live w) = (Done (Inr ()), i1)"
    and d: "send_data ?C (env_rng E) (env_now E) True (stream_hop (shared i1 ! ?r)) (stream_id (shared i1 ! ?r)) chunk i1 = Done (Inr (), i2)"
    and w': "w' = (set_live i2 w)\<lparr>given := given w @ chunk\<rparr>"
    using assms(1) unfolding conn_send_def send_stream_data_def
    by (auto split: prod.splits attempt.splits sum.splits)
  let ?i = "i1\<lparr>cstate := (cstate i1)\<lparr>flow := note_sent (env_now E) (flow (cstate i1))\<rparr>\<rparr>"
  have "send_relay ?C (env_rng E) (stream_hop (shared i1 ! ?r)) RELAY_DATA (stream_id (shared i1 ! ?r)) chunk False ?i = (Inr (), i2)"
    using d by (auto simp: send_data_def Let_def split: if_splits)
  from send_relay_sent [OF this assms(2,3)] take_window_frame [OF t] assms(4,5) show ?thesis
    unfolding w' by (auto simp: live_def set_live_def)
qed

section \<open>Properties\<close>

text \<open>
  C11: a write that succeeds puts its bytes on the stream that carries the connection at the end of
  the write, after all bytes written before and nothing else, even when the connection was moved
  (up to twice) on the way; and what is kept for a further move is again exactly all that was
  written, or nothing once it is too much or the far end has answered.
\<close>

theorem write_survives_moves:
  assumes "write_stream (conn_send E) (conn_reopen E) conn_connected can_move bs rp w = (Inr n, rp', w')"
    and "allowed rp \<longrightarrow> buffered rp = given w" and "attempts rp \<le> MAX_REATTACHES"
    and "length (buffered rp) \<le> MAX_REPLAY_BYTES"
  shows "n = min (length bs) RELAY_DATA_MAX \<and> given w' = given w @ take n bs \<and>
     (allowed rp' \<longrightarrow> buffered rp' = given w') \<and> attempts rp' \<le> MAX_REATTACHES \<and>
     length (buffered rp') \<le> MAX_REPLAY_BYTES"
proof (cases "bs = []")
  case True
  then show ?thesis using assms by (simp add: write_stream_def)
next
  case False
  have i: "conn.replay_inv (given w) rp w"
    using assms(2-) by (simp add: conn.replay_inv_def)
  have "write_loop (conn_send E) (conn_reopen E) conn_connected can_move (take RELAY_DATA_MAX bs) rp w = (Inr n, rp', w')"
    using assms(1) False by (simp add: write_stream_def)
  from conn.write_loop_inv [OF i this] show ?thesis
    by (auto simp: conn.replay_inv_def min_def)
qed

text \<open>
  A read that returns leaves the far end having been given exactly what was written before it,
  even if the connection had to be moved first; and from then on the connection stays where
  it is, because the far end has answered.
\<close>

theorem read_settles_connection:
  assumes "read_bytes (conn_send E) (conn_reopen E) conn_read (conn_release E) can_move n rp w = (Inr bs, rp', w')"
    and "allowed rp \<longrightarrow> buffered rp = given w" and "attempts rp \<le> MAX_REATTACHES"
    and "length (buffered rp) \<le> MAX_REPLAY_BYTES" and "0 < n"
  shows "given w' = given w \<and> \<not> allowed rp' \<and> (\<forall>e. \<not> may_retry can_move e rp')"
proof -
  have "conn.replay_inv (given w) rp w"
    using assms(2-4) by (simp add: conn.replay_inv_def)
  from conn.read_loop_inv [OF this] assms(1,5) show ?thesis
    by (auto simp: read_bytes_def conn.replay_inv_def may_retry_def)
qed

section \<open>Witnesses\<close>

definition demo_conn :: connection where
  "demo_conn = \<lparr>circs = [demo_inner], on_circ = 0, on_ref = 0, given = []\<rparr>"

definition demo_conn_env :: conn_env where
  "demo_conn_env = \<lparr>env_crypto = demo_crypto, env_rng = demo_rng, env_now = 0,
     env_pick = (\<lambda>w. Inr 0), env_target = ''example.com'', env_port = 80\<rparr>"

lemma demo_conn_send:
  "\<exists>w'. conn_send demo_conn_env [7, 8, 9] demo_conn = (Inr (), w')"
proof -
  let ?i1 = "set_buf 0 ((buf_at demo_inner 0)\<lparr>package_window := 499\<rparr>) demo_inner"
  let ?i = "?i1\<lparr>cstate := (cstate ?i1)\<lparr>flow := note_sent 0 (flow (cstate ?i1))\<rparr>\<rparr>"
  have t: "take_window False True 0 demo_inner = (Done (Inr ()), ?i1)"
    by (simp add: take_window_def demo_inner_def fresh_buf_def STREAM_WINDOW_START_def wrap_i32_def)
  have hop: "stream_hop (shared ?i1 ! 0) = 1" "stream_id (shared ?i1 ! 0) = 5"
    by (simp_all add: demo_inner_def set_buf_def)
  obtain c i2 where "send_relay demo_crypto demo_rng 1 RELAY_DATA 5 [7, 8, 9] False ?i = (Inr (), i2)"
    using send_relay_ok [of ?i "[7, 8, 9]" 1 demo_rng demo_crypto RELAY_DATA 5] demo_laws
    by (auto simp: demo_inner_def set_buf_def new_on_def demo_onion_def good_rng_def RELAY_DATA_MAX_def RELAY_HEADER_LEN_def
        CELL_BODY_LEN_def)
  then have "send_data demo_crypto demo_rng 0 True 1 5 [7, 8, 9] ?i1 = Done (Inr (), i2)"
    by (simp add: send_data_def Let_def) (simp add: demo_inner_def set_buf_def)
  then show ?thesis
    using t hop by (simp add: conn_send_def send_stream_data_def demo_conn_def demo_conn_env_def live_def)
qed

theorem write_survives_moves_witness:
  "\<exists>n rp' w'. write_stream (conn_send demo_conn_env) (conn_reopen demo_conn_env) conn_connected True [7, 8, 9] replay_new demo_conn =
      (Inr n, rp', w') \<and> n = 3 \<and> given w' = [7, 8, 9] \<and> (allowed rp' \<longrightarrow> buffered rp' = [7, 8, 9])"
proof -
  obtain w' where s: "conn_send demo_conn_env [7, 8, 9] demo_conn = (Inr (), w')"
    using demo_conn_send by blast
  have m: "take RELAY_DATA_MAX [7, 8, 9 :: u8] = [7, 8, 9]" "min 3 RELAY_DATA_MAX = 3"
    by (simp_all add: RELAY_DATA_MAX_def RELAY_HEADER_LEN_def CELL_BODY_LEN_def)
  then obtain rp' where "write_stream (conn_send demo_conn_env) (conn_reopen demo_conn_env) conn_connected True [7, 8, 9] replay_new demo_conn =
      (Inr 3, rp', w')"
    using s by (simp add: write_stream_def write_loop.simps Let_def)
  from write_survives_moves [OF this] this show ?thesis
    by (auto simp: replay_new_def demo_conn_def)
qed

end
