(* ===== verification/Guard_State.thy ===== *)
theory Guard_State
  imports Circuit_Paths
begin

text \<open>
  The guard list, the guard half of \<^verbatim>\<open>src/tor/client.rs\<close>: which guard is used next, how a guard fails,
  is struck, demoted and recovers, how the list grows, how the one open channel is found or
  replaced, and the file that remembers the list.

  An \<^verbatim>\<open>Instant\<close> is the number of seconds since some start, \<^verbatim>\<open>now_unix\<close> a second clock. A channel is what
  the list keeps of it: a number that tells channels apart, the peer's address and its Ed25519
  identity; \<open>closed\<close> lists the channels this code has closed. Connecting, resolving a guard's keys and
  probing the network are the environment's, one \<open>guard_env\<close> per attempt.
\<close>

section \<open>State\<close>

definition GUARD_ATTEMPTS :: nat where "GUARD_ATTEMPTS = 5"
definition MAX_GUARDS :: nat where "MAX_GUARDS = 3"
definition GUARD_RETRY_INTERVAL :: nat where "GUARD_RETRY_INTERVAL = 600"
definition GUARD_STRIKES :: nat where "GUARD_STRIKES = 3"
definition GUARD_STRIKE_WINDOW :: nat where "GUARD_STRIKE_WINDOW = 1800"
definition MAX_SLOW_GUARD_CHANGES :: nat where "MAX_SLOW_GUARD_CHANGES = 2"

record guard_contact =
  contact_ip :: bytes
  contact_port :: nat
  contact_ed :: bytes

record guard_entry =
  guard_id :: bytes
  strikes :: "nat list"
  demoted_unix :: "nat option"
  contact :: "guard_contact option"
  failed_at :: "nat option"

record guard_chan =
  chan_no :: nat
  peer_ip :: bytes
  peer_port :: nat
  peer_ed :: bytes

record open_guard =
  open_id :: bytes
  open_relay :: "relay_info option"
  open_chan :: guard_chan

record guards =
  entries :: "guard_entry list"
  opened :: "open_guard option"
  closed :: "nat list"

record guard_client =
  guards_of :: guards
  slow_guard_changes :: nat
  saved :: string

definition new_entry :: "bytes \<Rightarrow> guard_entry" where
  "new_entry ident = \<lparr>guard_id = ident, strikes = [], demoted_unix = None, contact = None, failed_at = None\<rparr>"

section \<open>Entries\<close>

definition is_demoted :: "nat \<Rightarrow> guard_entry \<Rightarrow> bool" where
  "is_demoted now e = (case demoted_unix e of None \<Rightarrow> False | Some at \<Rightarrow> at \<le> now \<and> now - at < GUARD_STRIKE_WINDOW)"

text \<open>\<^verbatim>\<open>iter_mut().find\<close>: the first entry with this identity is changed.\<close>

fun update_entry :: "bytes \<Rightarrow> (guard_entry \<Rightarrow> guard_entry) \<Rightarrow> guard_entry list \<Rightarrow> guard_entry list" where
  "update_entry ident f [] = []"
| "update_entry ident f (e # es) = (if guard_id e = ident then f e # es else e # update_entry ident f es)"

definition next_candidate :: "nat \<Rightarrow> nat \<Rightarrow> guards \<Rightarrow> bytes option" where
  "next_candidate now unix gs =
     (case List.find (\<lambda>e. failed_at e = None \<and> \<not> is_demoted unix e) (entries gs) of
        Some e \<Rightarrow> Some (guard_id e)
      | None \<Rightarrow>
          map_option guard_id (List.find (\<lambda>e. \<not> is_demoted unix e \<and>
            (case failed_at e of None \<Rightarrow> False | Some at \<Rightarrow> now - at \<ge> GUARD_RETRY_INTERVAL)) (entries gs)))"

definition open_is :: "bytes \<Rightarrow> guards \<Rightarrow> bool" where
  "open_is ident gs = (case opened gs of None \<Rightarrow> False | Some og \<Rightarrow> open_id og = ident)"

definition stop_using :: "nat \<Rightarrow> bytes \<Rightarrow> guards \<Rightarrow> guards" where
  "stop_using now ident gs =
     gs\<lparr>entries := update_entry ident (\<lambda>e. e\<lparr>failed_at := Some now\<rparr>) (entries gs),
        opened := (if open_is ident gs then None else opened gs)\<rparr>"

text \<open>
  \<^verbatim>\<open>mark_failed\<close> calls \<^verbatim>\<open>stop_using\<close> first, which has already taken the channel out of \<^verbatim>\<open>open\<close>, and then
  closes the channel if it is still there.
\<close>

definition mark_failed :: "nat \<Rightarrow> bytes \<Rightarrow> guards \<Rightarrow> guards" where
  "mark_failed now ident gs =
     (let gs = stop_using now ident gs
      in (case opened gs of
            None \<Rightarrow> gs
          | Some og \<Rightarrow> if open_id og = ident then gs\<lparr>opened := None, closed := chan_no (open_chan og) # closed gs\<rparr> else gs))"

definition mark_working :: "bytes \<Rightarrow> guards \<Rightarrow> guards" where
  "mark_working ident gs = gs\<lparr>entries := update_entry ident (\<lambda>e. e\<lparr>failed_at := None\<rparr>) (entries gs)\<rparr>"

definition record_contact :: "bytes \<Rightarrow> guards \<Rightarrow> guards" where
  "record_contact ident gs =
     (case opened gs of
        None \<Rightarrow> gs
      | Some og \<Rightarrow>
          if open_id og \<noteq> ident then gs
          else gs\<lparr>entries := update_entry ident
            (\<lambda>e. e\<lparr>contact := Some \<lparr>contact_ip = peer_ip (open_chan og), contact_port = peer_port (open_chan og),
                                   contact_ed = peer_ed (open_chan og)\<rparr>\<rparr>) (entries gs)\<rparr>)"

section \<open>The guard file\<close>

definition show_addr :: "bytes \<Rightarrow> nat \<Rightarrow> string" where
  "show_addr ip port =
     nat_digits (unat (ip ! 0)) @ ''.'' @ nat_digits (unat (ip ! 1)) @ ''.'' @ nat_digits (unat (ip ! 2)) @ ''.'' @
     nat_digits (unat (ip ! 3)) @ '':'' @ nat_digits port"

definition serialize_guard :: "guard_entry \<Rightarrow> string" where
  "serialize_guard e =
     hex_encode (guard_id e) @
     (case contact e of
        None \<Rightarrow> []
      | Some c \<Rightarrow>
          '' '' @ show_addr (contact_ip c) (contact_port c) @ '' '' @ hex_encode (contact_ed c) @
          (case demoted_unix e of None \<Rightarrow> [] | Some at \<Rightarrow> '' demoted '' @ nat_digits at)) @ [newline]"

definition serialize_guards :: "guard_entry list \<Rightarrow> string" where
  "serialize_guards es = concat (map serialize_guard (take MAX_GUARDS es))"

text \<open>
  Rust's \<^verbatim>\<open>FromStr for SocketAddrV4\<close>: four numbers of one to three digits without leading zeros and
  up to 255, a colon, and a port of digits up to 65535.
\<close>

definition parse_octet :: "string \<Rightarrow> u8 option" where
  "parse_octet s =
     (if s = [] \<or> length s > 3 \<or> (length s > 1 \<and> hd s = CHR ''0'') then None
      else (case digits_value 0 s of None \<Rightarrow> None | Some v \<Rightarrow> if v \<le> 255 then Some (word_of_nat v) else None))"

definition parse_addr :: "string \<Rightarrow> (bytes \<times> nat) option" where
  "parse_addr s =
     (case split_once CHR '':'' s of
        None \<Rightarrow> None
      | Some (host, port) \<Rightarrow>
          (case (map parse_octet (split_char CHR ''.'' host), if port = [] then None else digits_value 0 port) of
             ([Some a, Some b, Some c, Some d], Some p) \<Rightarrow> if p \<le> u16_max then Some ([a, b, c, d], p) else None
           | _ \<Rightarrow> None))"

text \<open>The fields after the identity are read from one iterator, so a field that fails is used up.\<close>

definition parse_contact :: "string list \<Rightarrow> guard_contact option \<times> string list" where
  "parse_contact fs =
     (case fs of
        [] \<Rightarrow> (None, [])
      | a # rest \<Rightarrow>
          (case parse_addr a of
             None \<Rightarrow> (None, rest)
           | Some (ip, port) \<Rightarrow>
               (case rest of
                  [] \<Rightarrow> (None, [])
                | h # rest \<Rightarrow>
                    (case hex_decode h of
                       Inr ed \<Rightarrow>
                         (if length ed = 32 then Some \<lparr>contact_ip = ip, contact_port = port, contact_ed = ed\<rparr> else None, rest)
                     | Inl _ \<Rightarrow> (None, rest)))))"

definition parse_demoted :: "string list \<Rightarrow> nat option" where
  "parse_demoted fs = (case fs of a # b # _ \<Rightarrow> if a = ''demoted'' then parse_u64 b else None | _ \<Rightarrow> None)"

definition parse_guard :: "string \<Rightarrow> guard_entry option" where
  "parse_guard line =
     (case split_whitespace line of
        [] \<Rightarrow> None
      | h # fs \<Rightarrow>
          (case hex_decode h of
             Inl _ \<Rightarrow> None
           | Inr ident \<Rightarrow>
               if length ident \<noteq> 20 then None
               else let (c, rest) = parse_contact fs
                    in Some \<lparr>guard_id = ident, strikes = [], demoted_unix = parse_demoted rest, contact = c, failed_at = None\<rparr>))"

fun load_loop :: "string list \<Rightarrow> guard_entry list \<Rightarrow> guard_entry list" where
  "load_loop [] es = es"
| "load_loop (line # ls) es =
     (case parse_guard line of
        None \<Rightarrow> load_loop ls es
      | Some e \<Rightarrow>
          if guard_id e \<in> guard_id ` set es then load_loop ls es
          else if length (es @ [e]) = MAX_GUARDS then es @ [e] else load_loop ls (es @ [e]))"

text \<open>The two files are read by the caller; an absent one reads as empty.\<close>

definition load_guards :: "string \<Rightarrow> string \<Rightarrow> guard_entry list" where
  "load_guards guards_file legacy_file =
     load_loop (lines (if trim guards_file = [] then legacy_file else guards_file)) []"

definition save_guards :: "guard_client \<Rightarrow> guard_client" where
  "save_guards c = c\<lparr>saved := serialize_guards (entries (guards_of c))\<rparr>"

section \<open>Choosing a guard\<close>

text \<open>
  \<^verbatim>\<open>ensure_guard\<close> in the three critical sections it has: the answer of the list as it is, the choice of
  a new guard under the lock, and its addition under the lock again.
\<close>

text \<open>\<^verbatim>\<open>min_by_key\<close> on an option: \<^verbatim>\<open>None\<close> is smallest, and of equals the first.\<close>

definition failed_before :: "guard_entry \<Rightarrow> guard_entry \<Rightarrow> bool" where
  "failed_before a b =
     (case (failed_at a, failed_at b) of
        (None, Some _) \<Rightarrow> True | (Some x, Some y) \<Rightarrow> x < y | (_, None) \<Rightarrow> False)"

fun least_recently_failed :: "guard_entry list \<Rightarrow> guard_entry option" where
  "least_recently_failed [] = None"
| "least_recently_failed (e # es) =
     (case least_recently_failed es of None \<Rightarrow> Some e | Some m \<Rightarrow> Some (if failed_before m e then m else e))"

datatype guard_decision = Settled "bytes io_result" | Chosen bytes

definition ensure_decide :: "nat \<Rightarrow> nat \<Rightarrow> consensus \<Rightarrow> guards \<Rightarrow> draws \<Rightarrow> (guard_decision \<times> draws) option" where
  "ensure_decide now unix con gs ds =
     (case next_candidate now unix gs of
        Some ident \<Rightarrow> Some (Settled (Inr ident), ds)
      | None \<Rightarrow>
          if length (entries gs) \<ge> MAX_GUARDS
          then Some (Settled (ok_or (IoError Other ''no guard to try'') (map_option guard_id (least_recently_failed (entries gs)))), ds)
          else (case weighted_choice_at (filter (\<lambda>r. identity r \<notin> guard_id ` set (entries gs)) (guard_candidates con))
                       GuardPosition (weights_in con) ds of
                  None \<Rightarrow> None
                | Some (Inl e, ds') \<Rightarrow> Some (Settled (Inl e), ds')
                | Some (Inr r, ds') \<Rightarrow> Some (Chosen (identity r), ds')))"

definition ensure_commit :: "bytes \<Rightarrow> guard_client \<Rightarrow> guard_client" where
  "ensure_commit chosen c =
     (let gs = guards_of c;
          gs = (if chosen \<in> guard_id ` set (entries gs) then gs else gs\<lparr>entries := entries gs @ [new_entry chosen]\<rparr>)
      in save_guards (c\<lparr>guards_of := gs\<rparr>))"

definition ensure_guard ::
    "nat \<Rightarrow> nat \<Rightarrow> consensus \<Rightarrow> guard_client \<Rightarrow> draws \<Rightarrow> (bytes io_result \<times> guard_client \<times> draws) option" where
  "ensure_guard now unix con c ds =
     (case next_candidate now unix (guards_of c) of
        Some ident \<Rightarrow> Some (Inr ident, c, ds)
      | None \<Rightarrow>
          (case ensure_decide now unix con (guards_of c) ds of
             None \<Rightarrow> None
           | Some (Settled r, ds') \<Rightarrow> Some (r, c, ds')
           | Some (Chosen ident, ds') \<Rightarrow> Some (Inr ident, ensure_commit ident c, ds')))"

definition reconcile_guards :: "consensus \<Rightarrow> guard_client \<Rightarrow> guard_client" where
  "reconcile_guards con c =
     (let gs = guards_of c;
          kept = filter (\<lambda>e. list_ex (\<lambda>r. identity r = guard_id e) (routers con)) (entries gs);
          c' = c\<lparr>guards_of := gs\<lparr>entries := kept\<rparr>\<rparr>
      in if length kept \<noteq> length (entries gs) then save_guards c' else c')"

section \<open>Slow guards\<close>

definition strike :: "nat \<Rightarrow> nat list \<Rightarrow> bool \<times> nat list" where
  "strike now ss =
     (let ss = filter (\<lambda>at. now - at < GUARD_STRIKE_WINDOW) ss @ [now]
      in (length ss \<ge> GUARD_STRIKES, ss))"

text \<open>One strike per distinct guard; the last guard with enough of them is given up on.\<close>

definition strike_one :: "nat \<Rightarrow> bytes \<Rightarrow> guard_entry list \<times> bytes option \<Rightarrow> guard_entry list \<times> bytes option" where
  "strike_one now ident acc =
     (case List.find (\<lambda>e. guard_id e = ident) (fst acc) of
        None \<Rightarrow> acc
      | Some e \<Rightarrow>
          let (enough, ss) = strike now (strikes e)
          in (update_entry ident (\<lambda>e. e\<lparr>strikes := ss\<rparr>) (fst acc), if enough then Some ident else snd acc))"

definition move_to_back :: "bytes \<Rightarrow> guard_entry list \<Rightarrow> guard_entry list" where
  "move_to_back ident es =
     (case position (\<lambda>e. guard_id e = ident) es of
        None \<Rightarrow> es
      | Some i \<Rightarrow> remove_at i es @ [es ! i])"

text \<open>\<open>True\<close> in the answer: the pool is to be cleared. \<open>blamed\<close> is what \<^verbatim>\<open>take_blame\<close> gave.\<close>

definition note_bad_circuits :: "nat \<Rightarrow> nat \<Rightarrow> bytes list \<Rightarrow> guard_client \<Rightarrow> guard_client \<times> bool" where
  "note_bad_circuits now unix blamed c =
     (if blamed = [] then (c, False)
      else
        let distinct_guards = rev (remdups (rev blamed));
            gs = guards_of c;
            (struck, give_up) = fold (strike_one now) distinct_guards (entries gs, None);
            c = c\<lparr>guards_of := gs\<lparr>entries := struck\<rparr>\<rparr>
        in (case give_up of
              None \<Rightarrow> (c, False)
            | Some ident \<Rightarrow>
                if slow_guard_changes c \<ge> MAX_SLOW_GUARD_CHANGES then (c, False)
                else
                  let c = c\<lparr>slow_guard_changes := slow_guard_changes c + 1\<rparr>;
                      gs = guards_of c;
                      gs = gs\<lparr>entries := update_entry ident (\<lambda>e. e\<lparr>strikes := [], demoted_unix := Some unix\<rparr>) (entries gs)\<rparr>;
                      gs = stop_using now ident gs;
                      gs = gs\<lparr>entries := move_to_back ident (entries gs)\<rparr>
                  in (save_guards (c\<lparr>guards_of := gs\<rparr>), True)))"

section \<open>The open channel\<close>

record guard_env =
  env_now :: nat
  env_unix :: nat
  env_consensus :: consensus
  env_resolve :: "bytes \<Rightarrow> relay_info io_result"
  env_connect :: "relay_info \<Rightarrow> guard_chan io_result"
  env_reachable :: bool
  env_dead :: "nat \<Rightarrow> bool"

definition chan_usable :: "guard_env \<Rightarrow> guards \<Rightarrow> guard_chan \<Rightarrow> bool" where
  "chan_usable E gs ch \<longleftrightarrow> chan_no ch \<notin> set (closed gs) \<and> \<not> env_dead E (chan_no ch)"

definition publish_channel :: "bytes \<Rightarrow> guard_chan \<Rightarrow> relay_info \<Rightarrow> guard_client \<Rightarrow> guard_client" where
  "publish_channel ident ch relay c =
     save_guards (c\<lparr>guards_of := record_contact ident
       ((guards_of c)\<lparr>opened := Some \<lparr>open_id = ident, open_relay = Some relay, open_chan = ch\<rparr>\<rparr>)\<rparr>)"

definition retry_primary_guard :: "guard_env \<Rightarrow> guard_client \<Rightarrow> guard_client" where
  "retry_primary_guard E c =
     (let gs = guards_of c
      in (case entries gs of
            [] \<Rightarrow> c
          | e # _ \<Rightarrow>
              if is_demoted (env_unix E) e then c
              else if failed_at e = None \<and> open_is (guard_id e) gs then c
              else if (case failed_at e of None \<Rightarrow> False | Some at \<Rightarrow> env_now E - at < GUARD_RETRY_INTERVAL) then c
              else (case env_resolve E (guard_id e) of
                      Inl _ \<Rightarrow> c
                    | Inr relay \<Rightarrow>
                        (case env_connect E relay of
                           Inl _ \<Rightarrow> c
                         | Inr ch \<Rightarrow>
                             publish_channel (guard_id e) ch relay (c\<lparr>guards_of := mark_working (guard_id e) gs\<rparr>)))))"

definition open_guard_channel :: "guard_env \<Rightarrow> guard_client \<Rightarrow> (guard_chan \<times> relay_info) option io_result \<times> guard_client" where
  "open_guard_channel E c =
     (case opened (guards_of c) of
        None \<Rightarrow> (Inr None, c)
      | Some og \<Rightarrow>
          if \<not> chan_usable E (guards_of c) (open_chan og) then (Inr None, c)
          else (case open_relay og of
                  Some relay \<Rightarrow> (Inr (Some (open_chan og, relay)), c)
                | None \<Rightarrow>
                    (case env_resolve E (open_id og) of
                       Inl e \<Rightarrow> (Inl e, c)
                     | Inr relay \<Rightarrow>
                         let gs = (guards_of c)\<lparr>opened := Some (og\<lparr>open_relay := Some relay\<rparr>)\<rparr>
                         in (Inr (Some (open_chan og, relay)), save_guards (c\<lparr>guards_of := record_contact (open_id og) gs\<rparr>)))))"

definition existing_channel :: "guard_env \<Rightarrow> guards \<Rightarrow> (guard_chan \<times> relay_info) option" where
  "existing_channel E gs =
     (case opened gs of
        None \<Rightarrow> None
      | Some og \<Rightarrow>
          if chan_usable E gs (open_chan og) then map_option (\<lambda>r. (open_chan og, r)) (open_relay og) else None)"

definition store_guard_channel ::
    "guard_env \<Rightarrow> bytes \<Rightarrow> guard_chan \<Rightarrow> relay_info \<Rightarrow> guard_client \<Rightarrow> (guard_chan \<times> relay_info) \<times> guard_client" where
  "store_guard_channel E ident ch relay c =
     (let c = c\<lparr>guards_of := mark_working ident (guards_of c)\<rparr>
      in (case existing_channel E (guards_of c) of
            Some answer \<Rightarrow> (answer, c\<lparr>guards_of := (guards_of c)\<lparr>closed := chan_no ch # closed (guards_of c)\<rparr>\<rparr>)
          | None \<Rightarrow> ((ch, relay), publish_channel ident ch relay c)))"

text \<open>The body of the loop: an answer, or an error that lets the next attempt begin.\<close>

datatype guard_attempt_result = Finished "(guard_chan \<times> relay_info) io_result" | TryNext io_error

definition guard_attempt :: "guard_env \<Rightarrow> guard_client \<Rightarrow> draws \<Rightarrow> (guard_attempt_result \<times> guard_client \<times> draws) option" where
  "guard_attempt E c ds =
     (case open_guard_channel E c of
        (Inr (Some answer), c1) \<Rightarrow> Some (Finished (Inr answer), c1, ds)
      | (_, c1) \<Rightarrow>
          (case ensure_guard (env_now E) (env_unix E) (env_consensus E) c1 ds of
             None \<Rightarrow> None
           | Some (Inl e, c2, ds2) \<Rightarrow> Some (Finished (Inl e), c2, ds2)
           | Some (Inr ident, c2, ds2) \<Rightarrow>
               let failed = c2\<lparr>guards_of := mark_failed (env_now E) ident (guards_of c2)\<rparr>
               in (case env_resolve E ident of
                     Inl e \<Rightarrow> Some (TryNext e, failed, ds2)
                   | Inr relay \<Rightarrow>
                       (case env_connect E relay of
                          Inr ch \<Rightarrow> (case store_guard_channel E ident ch relay c2 of (answer, c3) \<Rightarrow> Some (Finished (Inr answer), c3, ds2))
                        | Inl e \<Rightarrow>
                            if \<not> env_reachable E
                            then Some (Finished (Inl (IoError NotConnected ''the network is unreachable'')), c2, ds2)
                            else Some (TryNext e, save_guards failed, ds2)))))"

text \<open>One environment per attempt; with none left the loop is over.\<close>

fun guard_channel_loop ::
    "guard_env list \<Rightarrow> io_error option \<Rightarrow> guard_client \<Rightarrow> draws \<Rightarrow>
     ((guard_chan \<times> relay_info) io_result \<times> guard_client \<times> draws) option" where
  "guard_channel_loop [] err c ds =
     Some (Inl (case err of Some e \<Rightarrow> e | None \<Rightarrow> IoError Other ''no guard would accept a connection''), c, ds)"
| "guard_channel_loop (E # Es) err c ds =
     (case guard_attempt E c ds of
        None \<Rightarrow> None
      | Some (Finished r, c', ds') \<Rightarrow> Some (r, c', ds')
      | Some (TryNext e, c', ds') \<Rightarrow> guard_channel_loop Es (Some e) c' ds')"

definition guard_channel ::
    "(nat \<Rightarrow> guard_env) \<Rightarrow> guard_client \<Rightarrow> draws \<Rightarrow> ((guard_chan \<times> relay_info) io_result \<times> guard_client \<times> draws) option" where
  "guard_channel env = guard_channel_loop (map env [0..<GUARD_ATTEMPTS]) None"

section \<open>The list keeps its shape\<close>

lemma map_update_entry: "(\<And>e. guard_id (f e) = guard_id e) \<Longrightarrow> map guard_id (update_entry ident f es) = map guard_id es"
  by (induction es) auto

abbreviation ids :: "guards \<Rightarrow> bytes list" where "ids gs \<equiv> map guard_id (entries gs)"

lemma ids_stop_using [simp]: "ids (stop_using now ident gs) = ids gs"
  by (simp add: stop_using_def map_update_entry)

lemma ids_mark_failed [simp]: "ids (mark_failed now ident gs) = ids gs"
  using ids_stop_using [of now ident gs] by (simp add: mark_failed_def Let_def split: option.split)

lemma ids_mark_working [simp]: "ids (mark_working ident gs) = ids gs"
  by (simp add: mark_working_def map_update_entry)

lemma ids_record_contact [simp]: "ids (record_contact ident gs) = ids gs"
  by (simp add: record_contact_def map_update_entry split: option.split)

lemma save_guards_fields [simp]:
  "guards_of (save_guards c) = guards_of c" "slow_guard_changes (save_guards c) = slow_guard_changes c"
  by (simp_all add: save_guards_def)

text \<open>The open channel, when its guard's keys are known, goes with that guard's keys.\<close>

definition open_matches :: "guards \<Rightarrow> bool" where
  "open_matches gs \<longleftrightarrow> (\<forall>og relay. opened gs = Some og \<longrightarrow> open_relay og = Some relay \<longrightarrow> rsa_identity relay = open_id og)"

definition guards_inv :: "guard_client \<Rightarrow> bool" where
  "guards_inv c \<longleftrightarrow> distinct (ids (guards_of c)) \<and> length (entries (guards_of c)) \<le> MAX_GUARDS
     \<and> slow_guard_changes c \<le> MAX_SLOW_GUARD_CHANGES \<and> open_matches (guards_of c)"

definition env_ok :: "guard_env \<Rightarrow> bool" where
  "env_ok E \<longleftrightarrow> (\<forall>ident relay. env_resolve E ident = Inr relay \<longrightarrow> rsa_identity relay = ident)"

lemma length_ids: "length (entries gs) = length (ids gs)" by simp

lemma opened_frame [simp]:
  "opened (mark_working ident gs) = opened gs" "opened (record_contact ident gs) = opened gs"
  by (simp_all add: mark_working_def record_contact_def split: option.split)

lemma open_matches_simps [simp]:
  "open_matches (mark_working ident gs) = open_matches gs" "open_matches (record_contact ident gs) = open_matches gs"
  "open_matches (gs\<lparr>entries := es\<rparr>) = open_matches gs" "open_matches (gs\<lparr>closed := cl\<rparr>) = open_matches gs"
  by (simp_all add: open_matches_def)

lemma open_matches_stop_using: "open_matches gs \<Longrightarrow> open_matches (stop_using now ident gs)"
  by (simp add: open_matches_def stop_using_def)

lemma open_matches_mark_failed: "open_matches gs \<Longrightarrow> open_matches (mark_failed now ident gs)"
  using open_matches_stop_using [of gs now ident]
  by (auto simp: mark_failed_def Let_def open_matches_def split: option.splits)

text \<open>
  A change that keeps the identities on the list and the match of the open channel keeps the
  invariant.
\<close>

lemma guards_inv_frame:
  assumes "guards_inv c" and "ids (guards_of c') = ids (guards_of c)"
    and "slow_guard_changes c' = slow_guard_changes c" and "open_matches (guards_of c')"
  shows "guards_inv c'"
  using assms unfolding guards_inv_def length_ids by simp

lemma save_guards_inv [simp]: "guards_inv (save_guards c) = guards_inv c"
  by (simp add: guards_inv_def)

lemma guards_invD: "guards_inv c \<Longrightarrow> open_matches (guards_of c)"
  by (simp add: guards_inv_def)

lemma mark_failed_inv: "guards_inv c \<Longrightarrow> guards_inv (c\<lparr>guards_of := mark_failed now ident (guards_of c)\<rparr>)"
  by (rule guards_inv_frame) (auto simp: open_matches_mark_failed dest: guards_invD)

lemma publish_channel_inv: "guards_inv c \<Longrightarrow> rsa_identity relay = ident \<Longrightarrow> guards_inv (publish_channel ident ch relay c)"
  unfolding publish_channel_def save_guards_inv
  by (rule guards_inv_frame) (auto simp: open_matches_def)

lemma store_guard_channel_inv:
  assumes "guards_inv c" and "rsa_identity relay = ident"
  shows "guards_inv (snd (store_guard_channel E ident ch relay c))"
proof -
  have w: "guards_inv (c\<lparr>guards_of := mark_working ident (guards_of c)\<rparr>)"
    using assms(1) by (rule guards_inv_frame) (simp_all add: guards_invD [OF assms(1)])
  then show ?thesis
    using publish_channel_inv [OF w assms(2)] guards_inv_frame [OF w] guards_invD [OF w]
    by (simp add: store_guard_channel_def Let_def split: option.split)
qed

lemma open_guard_channel_inv:
  assumes "guards_inv c" and "env_ok E"
  shows "guards_inv (snd (open_guard_channel E c))"
proof -
  have "guards_inv (c\<lparr>guards_of := record_contact (open_id og) ((guards_of c)\<lparr>opened := Some (og\<lparr>open_relay := Some relay\<rparr>)\<rparr>)\<rparr>)"
    if "env_resolve E (open_id og) = Inr relay" for og relay
    using assms(1) by (rule guards_inv_frame) (use that assms(2) in \<open>auto simp: open_matches_def env_ok_def\<close>)
  then show ?thesis
    using assms(1) by (simp add: open_guard_channel_def Let_def split: option.split sum.split)
qed

lemma next_candidate_mem: "next_candidate now unix gs = Some ident \<Longrightarrow> ident \<in> set (ids gs)"
  by (auto simp: next_candidate_def find_Some_iff split: option.splits)

lemma ensure_decide_Chosen:
  assumes "ensure_decide now unix con gs ds = Some (Chosen ident, ds')"
  shows "ident \<notin> set (ids gs) \<and> length (entries gs) < MAX_GUARDS \<and> next_candidate now unix gs = None
     \<and> ident \<in> identity ` set (guard_candidates con)"
proof -
  obtain r where "weighted_choice_at (filter (\<lambda>r. identity r \<notin> guard_id ` set (entries gs)) (guard_candidates con))
      GuardPosition (weights_in con) ds = Some (Inr r, ds')" "ident = identity r"
    and "length (entries gs) < MAX_GUARDS" "next_candidate now unix gs = None"
    using assms by (auto simp: ensure_decide_def split: option.splits if_splits sum.splits)
  from weighted_choice_at_mem [OF this(1)] this(2-4) show ?thesis by simp
qed

lemma ensure_guard_inv:
  assumes "guards_inv c" and "ensure_guard now unix con c ds = Some (r, c', ds')"
  shows "guards_inv c'"
proof (cases "c' = c")
  case False
  then obtain ident where c': "c' = ensure_commit ident c"
    and d: "ensure_decide now unix con (guards_of c) ds = Some (Chosen ident, ds')"
    using assms(2) by (auto simp: ensure_guard_def split: option.splits prod.splits guard_decision.splits)
  from ensure_decide_Chosen [OF d] show ?thesis
    using assms(1) unfolding c' ensure_commit_def Let_def save_guards_inv
    by (auto simp: guards_inv_def new_entry_def)
qed (use assms(1) in simp)

lemma guard_attempt_inv:
  assumes "guards_inv c" and "env_ok E" and "guard_attempt E c ds = Some (a, c', ds')"
  shows "guards_inv c'"
proof -
  obtain r1 c1 where o: "open_guard_channel E c = (r1, c1)" by (cases "open_guard_channel E c")
  then have c1: "guards_inv c1" using open_guard_channel_inv [OF assms(1,2)] by simp
  show ?thesis
  proof (cases "\<exists>x. r1 = Inr (Some x)")
    case True
    then show ?thesis using assms(3) o c1 by (auto simp: guard_attempt_def)
  next
    case False
    then obtain r2 c2 ds2 where e: "ensure_guard (env_now E) (env_unix E) (env_consensus E) c1 ds = Some (r2, c2, ds2)"
      using assms(3) o by (auto simp: guard_attempt_def split: option.splits sum.splits)
    have c2: "guards_inv c2" using ensure_guard_inv [OF c1 e] .
    have st: "guards_inv (snd (store_guard_channel E ident ch relay c2))" if "env_resolve E ident = Inr relay" for ident ch relay
      using store_guard_channel_inv [OF c2] that assms(2) by (simp add: env_ok_def)
    have "c' = c2 \<or> (\<exists>ident. c' = c2\<lparr>guards_of := mark_failed (env_now E) ident (guards_of c2)\<rparr>) \<or>
       (\<exists>ident. c' = save_guards (c2\<lparr>guards_of := mark_failed (env_now E) ident (guards_of c2)\<rparr>)) \<or>
       (\<exists>ident ch relay. env_resolve E ident = Inr relay \<and> c' = snd (store_guard_channel E ident ch relay c2))"
      using assms(3) o e False
      by (auto simp: guard_attempt_def Let_def split: option.splits sum.splits if_splits prod.splits) (metis snd_conv)+
    then show ?thesis
      using c2 mark_failed_inv [OF c2] st by auto
  qed
qed

lemma guard_channel_loop_inv:
  assumes "guards_inv c" and "\<forall>E \<in> set Es. env_ok E" and "guard_channel_loop Es err c ds = Some (r, c', ds')"
  shows "guards_inv c'"
  using assms
proof (induction Es arbitrary: err c ds)
  case (Cons E Es)
  then obtain a c1 ds1 where a: "guard_attempt E c ds = Some (a, c1, ds1)"
    by (auto split: option.splits)
  have "guards_inv c1"
    using guard_attempt_inv [OF Cons.prems(1) _ a] Cons.prems(2) by simp
  then show ?case
    using Cons.IH [of c1] Cons.prems(2,3) a by (cases a) auto
qed auto

lemma ids_strike_one: "map guard_id (fst (strike_one now ident acc)) = map guard_id (fst acc)"
  by (simp add: strike_one_def Let_def map_update_entry split: option.split prod.split)

lemma ids_strikes: "map guard_id (fst (fold (strike_one now) gs acc)) = map guard_id (fst acc)"
  by (induction gs arbitrary: acc) (simp_all add: ids_strike_one)

lemma mset_move_to_back: "mset (move_to_back ident es) = mset es"
proof (cases "position (\<lambda>e. guard_id e = ident) es")
  case (Some i)
  then have "i < length es" using position_SomeD by blast
  then have "es = take i es @ es ! i # drop (Suc i) es" by (simp add: id_take_nth_drop)
  then have "mset es = mset (take i es) + {#es ! i#} + mset (drop (Suc i) es)"
    by (metis (no_types) add_mset_add_single mset.simps(2) mset_append union_mset_add_mset_left union_mset_add_mset_right)
  then show ?thesis using Some by (simp add: move_to_back_def remove_at_def)
qed (simp add: move_to_back_def)

lemma note_bad_circuits_inv:
  assumes "guards_inv c" shows "guards_inv (fst (note_bad_circuits now unix blamed c))"
proof (cases "blamed = []")
  case False
  obtain struck give_up where f: "fold (strike_one now) (rev (remdups (rev blamed))) (entries (guards_of c), None) = (struck, give_up)"
    by fastforce
  have struck: "map guard_id struck = ids (guards_of c)"
    using ids_strikes [of now "rev (remdups (rev blamed))" "(entries (guards_of c), None)"] f by simp
  let ?c = "c\<lparr>guards_of := (guards_of c)\<lparr>entries := struck\<rparr>\<rparr>"
  have c1: "guards_inv ?c"
    using assms by (rule guards_inv_frame) (simp_all add: struck guards_invD [OF assms])
  show ?thesis
  proof (cases "give_up = None \<or> slow_guard_changes c \<ge> MAX_SLOW_GUARD_CHANGES")
    case True
    then show ?thesis using c1 f False by (auto simp: note_bad_circuits_def Let_def split: option.split)
  next
    case give: False
    then obtain ident where ident: "give_up = Some ident" by auto
    let ?gs = "stop_using now ident ((guards_of c)\<lparr>entries := update_entry ident (\<lambda>e. e\<lparr>strikes := [], demoted_unix := Some unix\<rparr>) struck\<rparr>)"
    have "ids ?gs = ids (guards_of c)"
      by (simp add: struck map_update_entry)
    then have "distinct (ids ?gs)" "length (entries ?gs) \<le> MAX_GUARDS"
      using assms unfolding guards_inv_def length_ids by simp_all
    moreover have m: "mset (move_to_back ident (entries ?gs)) = mset (entries ?gs)"
      by (rule mset_move_to_back)
    ultimately have "distinct (map guard_id (move_to_back ident (entries ?gs)))"
      "length (move_to_back ident (entries ?gs)) \<le> MAX_GUARDS"
      by (metis mset_map mset_eq_imp_distinct_iff, metis m size_mset)
    moreover have "open_matches ?gs"
      by (rule open_matches_stop_using) (simp add: guards_invD [OF assms])
    ultimately show ?thesis
      using f False give ident by (simp add: note_bad_circuits_def Let_def guards_inv_def)
  qed
qed (simp add: note_bad_circuits_def assms)

lemma reconcile_guards_inv:
  assumes "guards_inv c" shows "guards_inv (reconcile_guards con c)"
proof -
  have "length (filter P (entries (guards_of c))) \<le> MAX_GUARDS" for P
    using assms by (auto simp: guards_inv_def intro: le_trans [OF length_filter_le])
  then show ?thesis
    using assms by (simp add: guards_inv_def reconcile_guards_def Let_def distinct_map_filter)
qed

lemma retry_primary_guard_inv:
  assumes "guards_inv c" and "env_ok E" shows "guards_inv (retry_primary_guard E c)"
proof -
  have "guards_inv (publish_channel ident ch relay (c\<lparr>guards_of := mark_working ident (guards_of c)\<rparr>))"
    if "env_resolve E ident = Inr relay" for ident ch relay
  proof (rule publish_channel_inv)
    show "guards_inv (c\<lparr>guards_of := mark_working ident (guards_of c)\<rparr>)"
      using assms(1) by (rule guards_inv_frame) (simp_all add: guards_invD [OF assms(1)])
    show "rsa_identity relay = ident" using that assms(2) by (simp add: env_ok_def)
  qed
  then show ?thesis
    using assms(1) by (simp add: retry_primary_guard_def Let_def split: list.split option.split sum.split)
qed

section \<open>Runs\<close>

text \<open>
  What the maintenance thread and the circuit builders do to the list, each operation as a whole. The
  list starts as the file has it, with or without a channel reopened to one of its guards.
\<close>

inductive guard_step :: "guard_client \<Rightarrow> guard_client \<Rightarrow> bool" where
  channel: "\<forall>k. env_ok (env k) \<Longrightarrow> guard_channel env c ds = Some (r, c', ds') \<Longrightarrow> guard_step c c'"
| ensure: "ensure_guard now unix con c ds = Some (r, c', ds') \<Longrightarrow> guard_step c c'"
| blame: "guard_step c (fst (note_bad_circuits now unix blamed c))"
| retry: "env_ok E \<Longrightarrow> guard_step c (retry_primary_guard E c)"
| reconcile: "guard_step c (reconcile_guards con c)"

inductive guard_reachable :: "guard_client \<Rightarrow> bool" where
  start: "opened gs = None \<or> (\<exists>og. opened gs = Some og \<and> open_relay og = None) \<Longrightarrow>
     entries gs = load_guards text legacy \<Longrightarrow> guard_reachable \<lparr>guards_of = gs, slow_guard_changes = 0, saved = file\<rparr>"
| step: "guard_reachable c \<Longrightarrow> guard_step c c' \<Longrightarrow> guard_reachable c'"

lemma load_loop_ok:
  "distinct (map guard_id es) \<Longrightarrow> length es < MAX_GUARDS \<Longrightarrow>
     distinct (map guard_id (load_loop ls es)) \<and> length (load_loop ls es) \<le> MAX_GUARDS"
proof (induction ls arbitrary: es)
  case (Cons line ls)
  show ?case
  proof (cases "parse_guard line")
    case (Some e)
    then show ?thesis
      using Cons.IH [of es] Cons.IH [of "es @ [e]"] Cons.prems by auto
  qed (use Cons in simp)
qed simp

lemma guard_step_inv: "guard_step c c' \<Longrightarrow> guards_inv c \<Longrightarrow> guards_inv c'"
proof (induction rule: guard_step.induct)
  case (channel env c ds r c' ds')
  then show ?case
    using guard_channel_loop_inv [of c "map env [0..<GUARD_ATTEMPTS]"] by (auto simp: guard_channel_def)
next
  case (ensure now unix con c ds r c' ds')
  then show ?case using ensure_guard_inv by blast
qed (simp_all add: note_bad_circuits_inv retry_primary_guard_inv reconcile_guards_inv)

lemma guard_reachable_inv: "guard_reachable c \<Longrightarrow> guards_inv c"
proof (induction rule: guard_reachable.induct)
  case (start gs contents legacy f)
  moreover have "distinct (map guard_id (load_guards contents legacy)) \<and> length (load_guards contents legacy) \<le> MAX_GUARDS"
    unfolding load_guards_def by (rule load_loop_ok) (simp_all add: MAX_GUARDS_def)
  ultimately show ?case
    by (auto simp: guards_inv_def open_matches_def)
qed (rule guard_step_inv)

text \<open>What a guard channel is answered with: the open channel and the keys stored with it.\<close>

lemma store_guard_channel_answer:
  "store_guard_channel E ident ch relay c = ((ch', relay'), c') \<Longrightarrow>
     \<exists>og. opened (guards_of c') = Some og \<and> open_chan og = ch' \<and> open_relay og = Some relay'"
  by (auto simp: store_guard_channel_def publish_channel_def existing_channel_def Let_def
      split: option.splits if_splits)

lemma open_guard_channel_answer:
  "open_guard_channel E c = (Inr (Some (ch, relay)), c') \<Longrightarrow>
     \<exists>og. opened (guards_of c') = Some og \<and> open_chan og = ch \<and> open_relay og = Some relay"
  by (auto simp: open_guard_channel_def Let_def split: option.splits if_splits sum.splits)

lemma guard_attempt_answer:
  assumes "guard_attempt E c ds = Some (Finished (Inr (ch, relay)), c', ds')"
  shows "\<exists>og. opened (guards_of c') = Some og \<and> open_chan og = ch \<and> open_relay og = Some relay"
  using assms
  by (auto simp: guard_attempt_def Let_def split: option.splits sum.splits if_splits prod.splits
      dest: store_guard_channel_answer open_guard_channel_answer)

lemma guard_channel_loop_answer:
  "guard_channel_loop Es err c ds = Some (Inr (ch, relay), c', ds') \<Longrightarrow>
     \<exists>og. opened (guards_of c') = Some og \<and> open_chan og = ch \<and> open_relay og = Some relay"
  by (induction Es arbitrary: err c ds)
    (auto split: option.splits guard_attempt_result.splits dest: guard_attempt_answer)

text \<open>\<^verbatim>\<open>mark_failed\<close> never closes the channel of the guard it gives up on.\<close>

lemma mark_failed_closes_nothing: "closed (mark_failed now ident gs) = closed gs"
  by (auto simp: mark_failed_def stop_using_def open_is_def Let_def split: option.splits)

text \<open>Two threads that both decide before either adds its guard make the list longer than its cap.\<close>

lemma guards_can_exceed_cap:
  "\<exists>c con now unix ds1 ds2 a b ds1' ds2'.
     length (entries (guards_of c)) \<le> MAX_GUARDS \<and>
     ensure_decide now unix con (guards_of c) ds1 = Some (Chosen a, ds1') \<and>
     ensure_decide now unix con (guards_of c) ds2 = Some (Chosen b, ds2') \<and>
     length (entries (guards_of (ensure_commit b (ensure_commit a c)))) > MAX_GUARDS"
proof -
  let ?e = "\<lambda>i. (new_entry (replicate 20 i))\<lparr>failed_at := Some 0\<rparr>"
  let ?c = "\<lparr>guards_of = \<lparr>entries = [?e 8, ?e 9], opened = None, closed = []\<rparr>, slow_guard_changes = 0, saved = []\<rparr>"
  have "guard_candidates demo_consensus = [demo_router 1 300, demo_router 2 200, demo_router 3 100]"
    by (simp add: guard_candidates_def demo_consensus_def has_def GUARD_FLAGS_def USABLE_def flag_defs)
  then have "ensure_decide 0 0 demo_consensus (guards_of ?c) [Inr 0] = Some (Chosen (replicate 20 1), [])"
    "ensure_decide 0 0 demo_consensus (guards_of ?c) [Inr 300] = Some (Chosen (replicate 20 2), [])"
    by (simp_all add: ensure_decide_def next_candidate_def new_entry_def is_demoted_def GUARD_RETRY_INTERVAL_def MAX_GUARDS_def
        demo_simps)
  moreover have "length (entries (guards_of (ensure_commit (replicate 20 2) (ensure_commit (replicate 20 1) ?c)))) > MAX_GUARDS"
    by (simp add: ensure_commit_def new_entry_def MAX_GUARDS_def)
  moreover have "length (entries (guards_of ?c)) \<le> MAX_GUARDS"
    by (simp add: MAX_GUARDS_def)
  ultimately show ?thesis by blast
qed

section \<open>Reading back the file\<close>

lemma hex_digit_not_space: "i < 16 \<Longrightarrow> \<not> is_whitespace (HEX ! i)"
proof -
  have "list_all (\<lambda>d. \<not> is_whitespace d) HEX" "length HEX = 16"
    by (simp_all add: HEX_def is_whitespace_def code_def)
  then show "i < 16 \<Longrightarrow> ?thesis" by (simp add: list_all_length)
qed

lemma hex_encode_no_space: "c \<in> set (hex_encode bs) \<Longrightarrow> \<not> is_whitespace c"
  by (auto simp: hex_encode_def hex_digit_not_space less_mult_imp_div_less)

lemma hd_nat_digits: "0 < n \<Longrightarrow> hd (nat_digits n) \<noteq> CHR ''0''"
proof (induction n rule: nat_digits.induct)
  case (1 n)
  show ?case
  proof (cases "n < 10")
    case True
    have "code CHR ''0'' = 48" by (simp add: code_def)
    moreover have "code (char_of (48 + n)) = 48 + n" using True by simp
    ultimately have "char_of (48 + n) \<noteq> CHR ''0''" using 1(2) by fastforce
    then show ?thesis using True by (subst nat_digits.simps) simp
  next
    case False
    then have "hd (nat_digits (n div 10)) \<noteq> CHR ''0''" using 1(1) by simp
    then show ?thesis using False by (subst nat_digits.simps) simp
  qed
qed

lemma length_nat_digits_3: "n < 1000 \<Longrightarrow> length (nat_digits n) \<le> 3"
proof -
  have one: "length (nat_digits m) = 1" if "m < 10" for m
    using that by (subst nat_digits.simps) simp
  have two: "length (nat_digits m) \<le> 2" if "m < 100" for m
    using that one [of m] one [of "m div 10"] by (cases "m < 10") (subst nat_digits.simps, simp)+
  show "n < 1000 \<Longrightarrow> ?thesis"
    using one [of n] two [of "n div 10"] by (cases "n < 10") (subst nat_digits.simps, simp)+
qed

lemma parse_octet_digits: "parse_octet (nat_digits (unat b)) = Some b"
proof -
  have "length (nat_digits (unat b)) \<le> 3"
    using unat_u8_less [of b] by (intro length_nat_digits_3) linarith
  moreover have "hd (nat_digits (unat b)) \<noteq> CHR ''0''" if "length (nat_digits (unat b)) > 1"
  proof (rule hd_nat_digits)
    show "0 < unat b"
    proof (rule ccontr)
      assume "\<not> 0 < unat b"
      then have "length (nat_digits (unat b)) = 1" by (subst nat_digits.simps) simp
      then show False using that by simp
    qed
  qed
  ultimately show ?thesis
    using unat_u8_le [of b] by (auto simp: parse_octet_def)
qed

lemma digit_not_sep: "c \<in> set (nat_digits n) \<Longrightarrow> c \<noteq> CHR ''.'' \<and> c \<noteq> CHR '':''"
  by (drule nat_digits_digits) (auto simp: is_digit_def code_def)

lemma parse_addr_show:
  assumes "length ip = 4" and "port \<le> u16_max"
  shows "parse_addr (show_addr ip port) = Some (ip, port)"
proof -
  obtain a b c d where ip: "ip = [a, b, c, d]"
    using assms(1) by (auto simp: numeral_eq_Suc length_Suc_conv)
  let ?d = "\<lambda>x. nat_digits (unat (x :: u8))"
  let ?host = "?d a @ ''.'' @ ?d b @ ''.'' @ ?d c @ ''.'' @ ?d d"
  have "split_once CHR '':'' (?host @ CHR '':'' # nat_digits port) = Some (?host, nat_digits port)"
    by (rule split_once_append) (auto dest: digit_not_sep)
  moreover have "split_char CHR ''.'' ?host = [?d a, ?d b, ?d c, ?d d]"
    by (simp add: split_on_append_sep digit_not_sep)
  ultimately show ?thesis
    using assms(2) by (simp add: parse_addr_def show_addr_def ip parse_octet_digits)
qed

text \<open>A line of the file without its newline.\<close>

definition guard_line :: "guard_entry \<Rightarrow> string" where
  "guard_line e =
     hex_encode (guard_id e) @
     (case contact e of
        None \<Rightarrow> []
      | Some c \<Rightarrow>
          '' '' @ show_addr (contact_ip c) (contact_port c) @ '' '' @ hex_encode (contact_ed c) @
          (case demoted_unix e of None \<Rightarrow> [] | Some at \<Rightarrow> '' demoted '' @ nat_digits at))"

lemma serialize_guard_line: "serialize_guard e = guard_line e @ [newline]"
  by (simp add: serialize_guard_def guard_line_def split: option.split)

text \<open>What the file keeps of an entry: a demotion only together with a contact.\<close>

definition remembered :: "guard_entry \<Rightarrow> guard_entry" where
  "remembered e = e\<lparr>strikes := [], failed_at := None, demoted_unix := (if contact e = None then None else demoted_unix e)\<rparr>"

definition entry_ok :: "guard_entry \<Rightarrow> bool" where
  "entry_ok e \<longleftrightarrow> length (guard_id e) = 20
     \<and> (case contact e of None \<Rightarrow> True
        | Some c \<Rightarrow> length (contact_ip c) = 4 \<and> contact_port c \<le> u16_max \<and> length (contact_ed c) = 32)
     \<and> (case demoted_unix e of None \<Rightarrow> True | Some at \<Rightarrow> at \<le> u64_max)"

lemma show_addr_no_space: "c \<in> set (show_addr ip port) \<Longrightarrow> \<not> is_whitespace c"
  by (auto simp: show_addr_def is_whitespace_def code_def dest!: nat_digits_digits simp: is_digit_def)

lemma hex_encode_not_Nil: "bs \<noteq> [] \<Longrightarrow> hex_encode bs \<noteq> []"
  by (cases bs) (simp_all add: hex_encode_def)

lemma space_is_whitespace [simp]: "is_whitespace CHR '' ''"
  by (simp add: is_whitespace_def code_def)

lemma word_no_space:
  "\<forall>c \<in> set (hex_encode bs). \<not> is_whitespace c" "\<forall>c \<in> set (show_addr ip port). \<not> is_whitespace c"
  "\<forall>c \<in> set (nat_digits n). \<not> is_whitespace c" "\<forall>c \<in> set ''demoted''. \<not> is_whitespace c"
  using hex_encode_no_space show_addr_no_space digit_not_space nat_digits_digits
  by (blast, blast, blast) (simp add: is_whitespace_def code_def)

lemma show_addr_not_Nil: "show_addr ip port \<noteq> []"
  by (simp add: show_addr_def)

lemma split_demoted: "split_whitespace (CHR ''d'' # CHR ''e'' # CHR ''m'' # CHR ''o'' # CHR ''t'' # CHR ''e'' # CHR ''d'' # CHR '' '' # cs) =
     ''demoted'' # split_whitespace cs"
  using split_whitespace_word [of "''demoted''" "CHR '' ''" cs] word_no_space(4) by simp

lemma parse_guard_line:
  assumes "entry_ok e"
  shows "parse_guard (guard_line e) = Some (remembered e)"
proof (cases "contact e")
  case None
  have "hex_encode (guard_id e) \<noteq> []"
    using assms by (intro hex_encode_not_Nil) (auto simp: entry_ok_def)
  then have "split_whitespace (guard_line e) = [hex_encode (guard_id e)]"
    unfolding guard_line_def None by (simp add: split_whitespace_last word_no_space(1))
  then show ?thesis
    using assms None
    by (simp add: parse_guard_def hex_decode_encode parse_contact_def parse_demoted_def remembered_def entry_ok_def)
next
  case (Some c)
  have ne: "hex_encode (guard_id e) \<noteq> []" "hex_encode (contact_ed c) \<noteq> []" "show_addr (contact_ip c) (contact_port c) \<noteq> []"
    using assms Some by (auto simp: entry_ok_def show_addr_not_Nil intro!: hex_encode_not_Nil)
  have "split_whitespace (guard_line e) = [hex_encode (guard_id e), show_addr (contact_ip c) (contact_port c), hex_encode (contact_ed c)] @
      (case demoted_unix e of None \<Rightarrow> [] | Some at \<Rightarrow> [''demoted'', nat_digits at])"
    unfolding guard_line_def Some
    using ne by (simp add: split_whitespace_word split_whitespace_last split_demoted word_no_space(1-3) split: option.split)
  moreover have "parse_addr (show_addr (contact_ip c) (contact_port c)) = Some (contact_ip c, contact_port c)"
    using assms Some by (intro parse_addr_show) (simp_all add: entry_ok_def)
  moreover have "parse_demoted (case demoted_unix e of None \<Rightarrow> [] | Some at \<Rightarrow> [''demoted'', nat_digits at]) = demoted_unix e"
    using assms by (simp add: parse_demoted_def entry_ok_def parse_uint_nat_digits split: option.splits)
  ultimately show ?thesis
    using assms Some by (simp add: parse_guard_def hex_decode_encode parse_contact_def remembered_def entry_ok_def)
qed

lemma lines_concat:
  assumes "\<forall>l \<in> set ls. newline \<notin> set l \<and> carriage_return \<notin> set l"
  shows "lines (concat (map (\<lambda>l. l @ [newline]) ls)) = ls"
proof -
  have "split_char newline (concat (map (\<lambda>l. l @ [newline]) ls)) = ls @ [[]]"
    using assms
  proof (induction ls)
    case (Cons l ls)
    have "\<forall>c \<in> set l. c \<noteq> newline" using Cons.prems by auto
    then show ?case using Cons by (simp add: split_on_append_sep)
  qed simp
  moreover have "strip_cr l = l" if "l \<in> set ls" for l
    using assms that by (auto simp: strip_cr_def) (metis last_in_set)
  ultimately show ?thesis
    by (simp add: lines_def Let_def map_idI)
qed

lemma guard_line_chars: "c \<in> set (guard_line e) \<Longrightarrow> c \<noteq> newline \<and> c \<noteq> carriage_return"
proof -
  assume "c \<in> set (guard_line e)"
  then have "c = CHR '' '' \<or> c \<in> set ''demoted'' \<or> \<not> is_whitespace c"
    using word_no_space unfolding guard_line_def by (auto split: option.splits)
  moreover have "is_whitespace newline" "is_whitespace carriage_return"
    by (simp_all add: is_whitespace_def code_def)
  ultimately show ?thesis by auto
qed

lemma load_loop_lines:
  assumes "\<forall>e \<in> set rest. entry_ok e" and "distinct (map guard_id (es @ rest))" and "length (es @ rest) \<le> MAX_GUARDS"
    and "rest \<noteq> [] \<longrightarrow> length es < MAX_GUARDS"
  shows "load_loop (map guard_line rest) es = es @ map remembered rest"
  using assms
proof (induction rest arbitrary: es)
  case (Cons e rest)
  have id: "guard_id (remembered e) = guard_id e" by (simp add: remembered_def)
  have p: "parse_guard (guard_line e) = Some (remembered e)" "guard_id e \<notin> guard_id ` set es"
    using Cons.prems by (auto simp: parse_guard_line)
  show ?case
  proof (cases "length (es @ [remembered e]) = MAX_GUARDS")
    case True
    then have "rest = []" using Cons.prems(3) by (cases rest) auto
    then show ?thesis using p id True by simp
  next
    case False
    then show ?thesis
      using Cons.IH [of "es @ [remembered e]"] Cons.prems p id by auto
  qed
qed simp

lemma trim_not_Nil: "c \<in> set s \<Longrightarrow> \<not> is_whitespace c \<Longrightarrow> trim s \<noteq> []"
  by (auto simp: trim_def trim_end_def dropWhile_eq_Nil_conv dest: set_dropWhileD)
    (metis dropWhile_eq_Nil_conv hd_dropWhile list.set_sel(1))

section \<open>Properties\<close>


text \<open>
  The guard file reads back: of the first three entries, in their order, the identity and the
  contact come back as they were, the demotion whenever there is a contact, and the strikes and the
  failure are forgotten. The earlier single-guard file is then not looked at.
\<close>

theorem guard_file_roundtrip:
  assumes "\<forall>e \<in> set es. entry_ok e" and "distinct (map guard_id es)" and "es \<noteq> []"
  shows "load_guards (serialize_guards es) legacy = map remembered (take MAX_GUARDS es)"
proof -
  let ?es = "take MAX_GUARDS es"
  have flat: "serialize_guards es = concat (map (\<lambda>l. l @ [newline]) (map guard_line ?es))"
    by (simp add: serialize_guards_def serialize_guard_line comp_def cong: map_cong)
  have ls: "lines (serialize_guards es) = map guard_line ?es"
    unfolding flat by (rule lines_concat) (auto dest: guard_line_chars)
  have "load_loop (map guard_line ?es) [] = [] @ map remembered ?es"
    using assms by (intro load_loop_lines) (auto simp: distinct_take MAX_GUARDS_def take_map [symmetric] dest: in_set_takeD)
  moreover obtain e rest where e: "?es = e # rest" "e \<in> set es"
    using assms(3) by (cases es) (auto simp: MAX_GUARDS_def)
  have "hex_encode (guard_id e) \<noteq> []"
    using assms(1) e(2) by (intro hex_encode_not_Nil) (auto simp: entry_ok_def)
  then obtain d where "d \<in> set (hex_encode (guard_id e))" by (meson list.set_sel(1))
  then have "d \<in> set (serialize_guards es)" "\<not> is_whitespace d"
    using e(1) by (auto simp: flat guard_line_def hex_encode_no_space)
  then have "trim (serialize_guards es) \<noteq> []" by (rule trim_not_Nil)
  ultimately show ?thesis
    by (simp add: load_guards_def ls)
qed

section \<open>Witnesses\<close>

definition demo_entry :: guard_entry where
  "demo_entry = \<lparr>guard_id = replicate 20 7, strikes = [5], demoted_unix = Some 1700000000,
     contact = Some \<lparr>contact_ip = [192, 0, 2, 255], contact_port = 9001, contact_ed = replicate 32 9\<rparr>, failed_at = Some 3\<rparr>"

definition demo_env :: guard_env where
  "demo_env = \<lparr>env_now = 10, env_unix = 1000, env_consensus = demo_consensus,
     env_resolve = (\<lambda>ident. Inr \<lparr>relay_ip = [1, 1, 1, 1], relay_port = 9001, rsa_identity = ident, relay_ed_identity = None,
       ntor_onion_key = []\<rparr>),
     env_connect = (\<lambda>r. Inr \<lparr>chan_no = 1, peer_ip = relay_ip r, peer_port = relay_port r, peer_ed = replicate 32 1\<rparr>),
     env_reachable = True, env_dead = (\<lambda>_. False)\<rparr>"

definition demo_client :: guard_client where
  "demo_client = \<lparr>guards_of = \<lparr>entries = [], opened = None, closed = []\<rparr>, slow_guard_changes = 0, saved = []\<rparr>"


end
