(* ===== verification/Spec2Isabelle.thy ===== *)
theory Spec2Isabelle
  imports Status_Page Link_Handshake Signed_Documents Circuit_Build Onion_Client Rendezvous Onion_Publish Circuit_Pool Socks_Front Link_Channel Stream_Replay Guard_State Consensus_Diff Hsdir_Ring
begin

text \<open>
  This development verifies a Tor client written in Rust: a program that accepts SOCKS and HTTP CONNECT
  requests on one local port and serves them over circuits it builds through the Tor network, onion
  services included. The sources are below \<^verbatim>\<open>src/src/\<close>; the paths here are relative to it.

  \<^bold>\<open>The parts and how they meet.\<close> The front end (\<^verbatim>\<open>socks5.rs\<close>) reads a request and asks the client for a
  stream. The client (\<^verbatim>\<open>tor/client.rs\<close>) takes a circuit from the pool (\<^verbatim>\<open>tor/pool.rs\<close>) or builds one: it
  chooses relays (\<^verbatim>\<open>tor/path.rs\<close>) from a consensus it has verified (\<^verbatim>\<open>tor/dir/\<close>), connects to its guard
  over a channel (\<^verbatim>\<open>tor/channel.rs\<close>, \<^verbatim>\<open>tor/cell.rs\<close>, \<^verbatim>\<open>tor/certs.rs\<close>), and extends the circuit hop by hop
  (\<^verbatim>\<open>tor/circuit.rs\<close>, \<^verbatim>\<open>tor/ntor.rs\<close>, \<^verbatim>\<open>tor/ntor_v3.rs\<close>). For an onion service it finds the directory nodes
  that hold the service's descriptor, reads it, and meets the service at a rendezvous point
  (\<^verbatim>\<open>tor/hs/\<close>). A stream moves bytes under flow control (\<^verbatim>\<open>tor/cc.rs\<close> or fixed windows) and can move to
  another circuit as long as nothing has come back on it.

  \<^bold>\<open>The theories, by part.\<close>

  \<^item> Foundations. \<open>Tor_Prelude\<close>: machine types, \<^verbatim>\<open>io::Error\<close> as \<open>io_error\<close>, \<^verbatim>\<open>io::Result\<close> as a sum with
    the error on the left, \<^verbatim>\<open>?\<close> as \<open>and_then\<close>, slices. \<open>Rust_Text\<close> and \<open>Utf8_Text\<close>: the parts of
    \<^verbatim>\<open>str\<close> and of UTF-8 the sources use; a string is its bytes, one character each. \<open>Encoding_Util\<close>
    (\<^verbatim>\<open>util.rs\<close>) and \<open>Base32_Codec\<close> (\<^verbatim>\<open>crypto/base32.rs\<close>): encodings and their round trips.
    \<open>Random_Draws\<close> (\<^verbatim>\<open>ffi/rand.rs\<close>): rejection sampling and shuffling over a list of draws.

  \<^item> Channels and circuits. \<open>Cell_Framing\<close> (\<^verbatim>\<open>cell.rs\<close>); \<open>Link_Channel\<close> (\<^verbatim>\<open>channel.rs\<close>: registration,
    delivery, and the I/O thread as a step relation); \<open>Certificates\<close> (\<^verbatim>\<open>certs.rs\<close>) and \<open>Link_Handshake\<close>
    (\<^verbatim>\<open>Channel::connect\<close>): who answers at the other end; \<open>Handshakes\<close> (\<^verbatim>\<open>ntor.rs\<close>, \<^verbatim>\<open>ntor_v3.rs\<close>, \<^verbatim>\<open>hs/ntor.rs\<close> against the responder's side,
    written from the specifications); \<open>Relay_Crypto\<close>, \<open>Circuit_State\<close>, \<open>Stream_State\<close>, \<open>Circuit_Flow\<close> and
    \<open>Stream_Replay\<close> (\<^verbatim>\<open>circuit.rs\<close>: onion encryption, cell handling, streams, flow control, and the
    connection that survives a move), and \<open>Circuit_Build\<close> (\<^verbatim>\<open>create\<close>, \<^verbatim>\<open>extend_with\<close>, the waits for replies);
    \<open>Flow_Interface\<close> and \<open>Congestion_Control\<close> (\<^verbatim>\<open>cc.rs\<close>).

  \<^item> The directory. \<open>Net_Doc\<close>, \<open>Consensus_Doc\<close>, \<open>Microdesc_Doc\<close>, \<open>Consensus_Diff\<close> (\<^verbatim>\<open>dir/netdoc.rs\<close>,
    \<^verbatim>\<open>dir/authority.rs\<close>, \<^verbatim>\<open>dir/consensus.rs\<close>, \<^verbatim>\<open>dir/microdesc.rs\<close>, \<^verbatim>\<open>dir/diff.rs\<close>): the documents;
    \<open>Directory_Fetch\<close> (\<^verbatim>\<open>dir/fetch.rs\<close>): HTTP; \<open>Fallback_Dirs\<close> (\<^verbatim>\<open>dir/fallback.rs\<close>): the mirrors;
    \<open>Directory_Manager\<close> (\<^verbatim>\<open>dir/mod.rs\<close>, \<^verbatim>\<open>dir/cache.rs\<close>): start, refresh, the files on disk. \<open>Doc_Text\<close>
    and \<open>Signed_Documents\<close> write documents for the readers to read.

  \<^item> The client. \<open>Path_Selection\<close> (\<^verbatim>\<open>path.rs\<close>), \<open>Circuit_Paths\<close> and \<open>Guard_State\<close> (the path and guard
    halves of \<^verbatim>\<open>client.rs\<close>), \<open>Circuit_Pool\<close> (\<^verbatim>\<open>pool.rs\<close>), \<open>Socks_Front\<close> (\<^verbatim>\<open>socks5.rs\<close>),
    \<open>Status_Page\<close> (\<^verbatim>\<open>status.rs\<close>, read back by a JSON reader).

  \<^item> Onion services. \<open>Onion_Address\<close> (\<^verbatim>\<open>hs/address.rs\<close>, \<^verbatim>\<open>hs/blind.rs\<close>), \<open>Field_25519\<close> and
    \<open>Edwards_Point\<close> (\<^verbatim>\<open>crypto/ed25519_point.rs\<close>), \<open>Hsdir_Ring\<close> (\<^verbatim>\<open>hs/hsdir.rs\<close>), \<open>Onion_Descriptor\<close>
    (\<^verbatim>\<open>hs/descriptor.rs\<close>) with \<open>Onion_Publish\<close> for the service's side, \<open>Rendezvous\<close>
    (\<^verbatim>\<open>hs/rendezvous.rs\<close>) and \<open>Onion_Client\<close> (the onion side of \<^verbatim>\<open>client.rs\<close>).

  \<^bold>\<open>How state and effects are modelled.\<close> A struct is a record with the source's fields, an enum a datatype,
  a method a function from the state to its result and the new state. What a lock protects is one record,
  and a function that takes the lock is one step. Integers whose width matters are words or carry their
  wrap-around (\<open>wrap_i32\<close>, \<open>saturating_sub\<close>); sizes and times are natural numbers, an instant a number
  of milliseconds. A panic is the value \<open>None\<close> (\<open>Onion_Address\<close>, \<open>Handshakes\<close>, \<open>Socks_Front\<close>), and so
  is running out of draws or of input, which is the program still waiting. Hash maps whose order is not
  used are maps or association lists with distinct keys. Log lines are left out, and so are the texts of
  errors where they only repeat data of the state.

  \<^bold>\<open>What the environment is.\<close> Randomness is a list of draws; the clock an argument, taken anew where the
  code reads it anew; other threads' changes to circuits are snapshots (\<open>Circuit_Pool\<close>); the network is
  what it answers (\<open>builder\<close>, \<open>rend_net\<close>, \<open>dir_stream\<close>, \<open>server\<close>), and what the code does to it is a
  log of actions (\<open>Rendezvous\<close>); the disk is its files and the faults of its writes (\<open>disk\<close>). OpenSSL
  and zlib are parameters: \<open>cipher\<close> and digest functions of \<open>Relay_Crypto\<close>, \<open>dir_crypto\<close>, \<open>verifier\<close>,
  \<open>handshake_prims\<close>, \<open>desc_prims\<close>, \<open>zlib\<close>. What the proofs need of them is said by \<open>prims_ok\<close> and
  \<open>desc_prims_ok\<close> (lengths of outputs, that both sides of a key exchange agree, that a stream cipher
  undoes itself), each shown to hold of a concrete instance; nothing is assumed about their strength, and
  the theorems are about what the code checks and computes, not about what an attacker cannot.

  \<^bold>\<open>What the lemmas show.\<close> Each component has the invariants its operations keep, what every operation does
  on every branch, and where it has a contract, that the code meets it. Four contracts are
  locales: \<open>framing\<close> (a codec and its receiver, interpreted on both link versions in \<open>Cell_Framing\<close>),
  \<open>sendme_flow\<close> with \<open>live_sendme_flow\<close> (flow control, interpreted on the Vegas sender and on the pair
  of schemes behind \<^verbatim>\<open>circuit.rs\<close>), \<open>draw_weight\<close> (proportional choice, in \<open>Path_Selection\<close>) and \<open>carrier\<close>
  (a stream that can be reopened, in \<open>Stream_Replay\<close>). Parsers are tied to writers by round trips; optimised loops (the diff, the ring, the
  limbs, the exponent chains) are equal to plain reference definitions. The directory's
  theorems compose: what a server answers is understood (\<open>Directory_Fetch\<close>), a diff is applied as ed
  would (\<open>Consensus_Diff\<close>), a consensus is accepted only with five signatures (\<open>Consensus_Doc\<close>), and so
  the client only ever runs on such a one, from the network or from its cache (\<open>Directory_Manager\<close>).

  \<^bold>\<open>Loops and fuel.\<close> Loops are structural recursion, recursion with a measure, or, where the input may
  not end, recursion over what was read. The two key-derivation loops run until enough bytes are there,
  however many a hash function gives: they are \<open>partial_function\<close>s, \<open>None\<close> when they do not return, and
  \<open>Handshakes.key_derivation_ends\<close> shows that they do. The retry loops carry the source's bounds as their counter.

  \<^bold>\<open>Not modelled.\<close> The bindings to OpenSSL, zlib and the C library (\<^verbatim>\<open>ffi/\<close>, but for the sampling in
  \<^verbatim>\<open>ffi/rand.rs\<close>): the code only calls them, and their behaviour is a parameter. The TLS connection and the
  poll loop around the channel's steps; starting threads and waking them; socket options. \<^verbatim>\<open>maintain.rs\<close>,
  \<^verbatim>\<open>config.rs\<close>, \<^verbatim>\<open>relay.rs\<close>, \<^verbatim>\<open>log.rs\<close> and \<^verbatim>\<open>main.rs\<close>: a timer loop, settings,
  two copying threads, log output and the accept loop.
\<close>

end
